(* ===== verification/Prelude.thy ===== *)
theory Prelude
  imports
    Main
    "HOL-Library.AList"
    "HOL-Library.List_Lexorder"
    "HOL-Library.Char_ord"
    "HOL-Library.Product_Lexorder"
    "HOL-Library.Sublist"
begin

section \<open>Shared vocabulary of the development\<close>

text \<open>
  What every component theory shares: the types that stand for the Go types the code uses
  (instants, durations, maps, strings), the part of the Go standard library the modelled code
  calls on strings, and the generic lemmas on lists and maps that carry the component proofs.

  \<^item> An instant (\<^verbatim>\<open>time.Time\<close>) is an \<open>int\<close>: nanoseconds after Go's zero time, so
    \<^verbatim>\<open>t.IsZero()\<close> is \<open>t = 0\<close> and the comparisons are those of \<open>int\<close>. A duration is an
    \<open>int\<close> number of nanoseconds; where the 64-bit width of \<^verbatim>\<open>time.Duration\<close> matters the
    component uses a word and says so. Each critical section of the code reads its clock
    once: the instant is an argument of the operation.
  \<^item> A Go map is an association list with distinct keys. Its order is the iteration order of
    one run of the program: Go leaves that order open, and a theorem about every list is a
    theorem about every order.
  \<^item> A Go string is a byte string, so HOL's \<open>char\<close> (a byte) is its element. The standard
    library's white space and letter case are modelled on ASCII; bytes from 128 up are
    neither white space nor letters here. Where the code works on runes (a regular expression
    over a string), \<open>runes\<close> decodes the bytes as \<^verbatim>\<open>utf8.DecodeRuneInString\<close> does, an invalid
    byte being a rune of width one.
\<close>

subsection \<open>Collections of facts\<close>

named_theorems gomap_simps \<open>rewriting of Go map operations\<close>
named_theorems gostr_simps \<open>unfolding of the string operations\<close>

subsection \<open>Instants and durations\<close>

type_synonym gtime = int
type_synonym duration = int

abbreviation (input) zero_time :: gtime where
  "zero_time \<equiv> 0"

definition second :: duration where
  "second = 1000000000"

definition minute :: duration where
  "minute = 60 * second"

definition hour :: duration where
  "hour = 60 * minute"

lemmas duration_defs = second_def minute_def hour_def

subsection \<open>Go maps\<close>

type_synonym ('k, 'v) gomap = "('k \<times> 'v) list"

abbreviation gget :: "('k, 'v) gomap \<Rightarrow> 'k \<Rightarrow> 'v option" where
  "gget m k \<equiv> map_of m k"

abbreviation gput :: "'k \<Rightarrow> 'v \<Rightarrow> ('k, 'v) gomap \<Rightarrow> ('k, 'v) gomap" where
  "gput \<equiv> AList.update"

abbreviation gdel :: "'k \<Rightarrow> ('k, 'v) gomap \<Rightarrow> ('k, 'v) gomap" where
  "gdel \<equiv> AList.delete"

abbreviation gkeys :: "('k, 'v) gomap \<Rightarrow> 'k list" where
  "gkeys m \<equiv> map fst m"

definition ghas :: "('k, 'v) gomap \<Rightarrow> 'k \<Rightarrow> bool" where
  "ghas m k \<longleftrightarrow> gget m k \<noteq> None"

text \<open>\<^verbatim>\<open>m[k]\<close> on a map whose value type has the zero value \<open>z\<close>.\<close>

definition ggetz :: "'v \<Rightarrow> ('k, 'v) gomap \<Rightarrow> 'k \<Rightarrow> 'v" where
  "ggetz z m k = (case gget m k of None \<Rightarrow> z | Some v \<Rightarrow> v)"

abbreviation gmap_ok :: "('k, 'v) gomap \<Rightarrow> bool" where
  "gmap_ok m \<equiv> distinct (map fst m)"

lemma gget_gput [simp, gomap_simps]: "gget (gput k v m) j = (if j = k then Some v else gget m j)"
  by (simp add: AList.update_conv')

lemma gget_gdel [simp, gomap_simps]: "gget (gdel k m) j = (if j = k then None else gget m j)"
  by (simp add: AList.delete_conv')

lemma gget_filter_keys:
  "gget (filter (\<lambda>(k, v). P k) m) j = (if P j then gget m j else None)"
  by (induction m) auto

lemma gget_filter_kv:
  "gmap_ok m \<Longrightarrow> gget (filter (\<lambda>(k, v). P k v) m) j =
     (case gget m j of None \<Rightarrow> None | Some v \<Rightarrow> if P j v then Some v else None)"
  by (induction m) (auto split: option.splits simp: map_of_eq_None_iff image_iff)

lemma gmap_ok_gput [intro, simp]: "gmap_ok m \<Longrightarrow> gmap_ok (gput k v m)"
  by (rule AList.distinct_update)

lemma gmap_ok_gdel [intro, simp]: "gmap_ok m \<Longrightarrow> gmap_ok (gdel k m)"
  by (rule AList.distinct_delete)

lemma gmap_ok_filter [intro, simp]: "gmap_ok m \<Longrightarrow> gmap_ok (filter P m)"
  by (induction m) auto

lemma gget_mem: "gmap_ok m \<Longrightarrow> (gget m k = Some v) = ((k, v) \<in> set m)"
  by simp

lemma ghas_iff: "ghas m k \<longleftrightarrow> k \<in> set (gkeys m)"
  by (auto simp: ghas_def map_of_eq_None_iff)

lemma ghas_gput [simp, gomap_simps]: "ghas (gput k v m) j \<longleftrightarrow> j = k \<or> ghas m j"
  by (simp add: ghas_def)

lemma ghas_gdel [simp, gomap_simps]: "ghas (gdel k m) j \<longleftrightarrow> j \<noteq> k \<and> ghas m j"
  by (simp add: ghas_def)

lemma ghas_Nil [simp, gomap_simps]: "\<not> ghas [] k"
  by (simp add: ghas_def)

lemma ggetz_gput [simp, gomap_simps]:
  "ggetz z (gput k v m) j = (if j = k then v else ggetz z m j)"
  by (simp add: ggetz_def)

lemma ggetz_gdel [simp, gomap_simps]: "ggetz z (gdel k m) j = (if j = k then z else ggetz z m j)"
  by (simp add: ggetz_def)

lemma ggetz_Nil [simp, gomap_simps]: "ggetz z [] k = z"
  by (simp add: ggetz_def)

lemma keys_gput: "set (gkeys (gput k v m)) = insert k (set (gkeys m))"
  by (induction m) auto

lemma keys_gdel: "set (gkeys (gdel k m)) = set (gkeys m) - {k}"
  by (induction m) (auto simp: AList.delete_eq)

lemma length_gput: "length (gput k v m) = (if k \<in> set (gkeys m) then length m else Suc (length m))"
  by (induction m) auto

lemma length_gdel_less: "k \<in> set (gkeys m) \<Longrightarrow> length (gdel k m) < length m"
  by (auto simp: AList.delete_eq intro!: length_filter_less)

lemma length_gdel_le: "length (gdel k m) \<le> length m"
  by (simp add: AList.delete_eq)

subsection \<open>Go strings\<close>

text \<open>ASCII white space, as \<^verbatim>\<open>unicode.IsSpace\<close> has it below 128.\<close>

definition is_space :: "char \<Rightarrow> bool" where
  "is_space c \<longleftrightarrow> c \<in> {CHR '' '', CHR 0x09, CHR 0x0A, CHR 0x0B, CHR 0x0C, CHR 0x0D}"

definition trim_space :: "string \<Rightarrow> string" where
  "trim_space s = rev (dropWhile is_space (rev (dropWhile is_space s)))"

text \<open>\<^verbatim>\<open>strings.ToLower\<close> on ASCII letters.\<close>

definition lower_char :: "char \<Rightarrow> char" where
  "lower_char c = (let n = of_char c :: nat in if 65 \<le> n \<and> n \<le> 90 then char_of (n + 32) else c)"

definition to_lower :: "string \<Rightarrow> string" where
  "to_lower s = map lower_char s"

definition equal_fold :: "string \<Rightarrow> string \<Rightarrow> bool" where
  "equal_fold a b \<longleftrightarrow> to_lower a = to_lower b"

definition contains_char :: "string \<Rightarrow> char \<Rightarrow> bool" where
  "contains_char s c \<longleftrightarrow> c \<in> set s"

fun has_prefix :: "string \<Rightarrow> string \<Rightarrow> bool" where
  "has_prefix s [] = True"
| "has_prefix [] (p # ps) = False"
| "has_prefix (c # s) (p # ps) = (c = p \<and> has_prefix s ps)"

fun join :: "string \<Rightarrow> string list \<Rightarrow> string" where
  "join sep [] = []"
| "join sep [s] = s"
| "join sep (s # t # ss) = s @ sep @ join sep (t # ss)"

definition between :: "nat \<Rightarrow> nat \<Rightarrow> char \<Rightarrow> bool" where
  "between lo hi c \<longleftrightarrow> lo \<le> of_char c \<and> of_char c \<le> hi"

abbreviation cont_byte :: "char \<Rightarrow> bool" where
  "cont_byte \<equiv> between 0x80 0xBF"

text \<open>How many bytes follow the lead byte \<open>c\<close> in its rune, given what comes after it.\<close>

definition rune_tail :: "char \<Rightarrow> string \<Rightarrow> nat" where
  "rune_tail c s =
     (if between 0xC2 0xDF c then (case s of a # _ \<Rightarrow> if cont_byte a then 1 else 0 | _ \<Rightarrow> 0)
      else if between 0xE0 0xEF c then
        (case s of
           a # b # _ \<Rightarrow>
             if (if of_char c = (0xE0 :: nat) then between 0xA0 0xBF a
                 else if of_char c = (0xED :: nat) then between 0x80 0x9F a
                 else cont_byte a) \<and> cont_byte b then 2 else 0
         | _ \<Rightarrow> 0)
      else if between 0xF0 0xF4 c then
        (case s of
           a # b # d # _ \<Rightarrow>
             if (if of_char c = (0xF0 :: nat) then between 0x90 0xBF a
                 else if of_char c = (0xF4 :: nat) then between 0x80 0x8F a
                 else cont_byte a) \<and> cont_byte b \<and> cont_byte d then 3 else 0
         | _ \<Rightarrow> 0)
      else 0)"

fun runes :: "string \<Rightarrow> string list" where
  "runes [] = []"
| "runes (c # s) = (c # take (rune_tail c s) s) # runes (drop (rune_tail c s) s)"

lemma concat_runes: "concat (runes s) = s"
  by (induction s rule: runes.induct) auto

lemma runes_ne: "r \<in> set (runes s) \<Longrightarrow> r \<noteq> []"
  by (induction s rule: runes.induct) auto

lemma runes_Nil [simp]: "runes s = [] \<longleftrightarrow> s = []"
  by (cases s) auto

lemma has_prefix_iff: "has_prefix s p \<longleftrightarrow> prefix p s"
  by (induction s p rule: has_prefix.induct) auto

lemma has_prefix_append [simp, gostr_simps]: "has_prefix (p @ s) p"
  by (simp add: has_prefix_iff)

lemma equal_fold_refl [simp]: "equal_fold a a"
  by (simp add: equal_fold_def)

lemma equal_fold_sym: "equal_fold a b \<longleftrightarrow> equal_fold b a"
  by (auto simp: equal_fold_def)

lemma equal_fold_trans: "equal_fold a b \<Longrightarrow> equal_fold b c \<Longrightarrow> equal_fold a c"
  by (simp add: equal_fold_def)

lemma dropWhile_is_space_idem: "dropWhile is_space (dropWhile is_space s) = dropWhile is_space s"
  by (rule dropWhile_idem)

lemma trim_space_Nil [simp, gostr_simps]: "trim_space [] = []"
  by (simp add: trim_space_def)

text \<open>What follows the first occurrence of \<open>sub\<close>, if there is one (\<^verbatim>\<open>strings.Index\<close> and a slice).\<close>

fun cut_after :: "string \<Rightarrow> string \<Rightarrow> string option" where
  "cut_after sub [] = (if sub = [] then Some [] else None)"
| "cut_after sub (c # s) =
     (if has_prefix (c # s) sub then Some (drop (length sub) (c # s)) else cut_after sub s)"

definition str_contains :: "string \<Rightarrow> string \<Rightarrow> bool" where
  "str_contains s sub \<longleftrightarrow> cut_after sub s \<noteq> None"

lemma cut_after_Some:
  "cut_after sub s = Some r \<Longrightarrow> \<exists>p. s = p @ sub @ r"
proof (induction sub s rule: cut_after.induct)
  case (1 sub)
  then show ?case by (auto split: if_splits)
next
  case (2 sub c s)
  show ?case
  proof (cases "has_prefix (c # s) sub")
    case True
    then obtain t where t: "c # s = sub @ t" by (auto simp: has_prefix_iff prefix_def)
    have "cut_after sub (c # s) = Some (drop (length sub) (c # s))" using True by simp
    then have "r = t" using 2(2) t by (metis append_eq_conv_conj option.inject)
    then have "c # s = [] @ sub @ r" using t by simp
    then show ?thesis by blast
  next
    case False
    then obtain p where "s = p @ sub @ r" using 2 by auto
    then have "c # s = (c # p) @ sub @ r" by simp
    then show ?thesis by blast
  qed
qed

lemma cut_after_None: "cut_after sub s = None \<Longrightarrow> s \<noteq> p @ sub @ r"
proof (induction sub s arbitrary: p rule: cut_after.induct)
  case (1 sub)
  then show ?case by (auto split: if_splits)
next
  case (2 sub c s)
  have np: "\<not> has_prefix (c # s) sub" and ih: "s \<noteq> q @ sub @ r" for q
    using 2 by (auto split: if_splits)
  show ?case
  proof (cases p)
    case Nil
    show ?thesis using np Nil by (auto simp: has_prefix_iff prefix_def)
  next
    case (Cons d q)
    show ?thesis using ih[of q] Cons by simp
  qed
qed

text \<open>\<open>str_contains\<close> is the substring relation of the library.\<close>

lemma str_contains_sublist: "str_contains s sub \<longleftrightarrow> sublist sub s"
proof
  assume "str_contains s sub"
  then obtain r where "cut_after sub s = Some r" by (auto simp: str_contains_def)
  from cut_after_Some[OF this] show "sublist sub s" by (auto simp: sublist_def)
next
  assume "sublist sub s"
  then obtain p r where "s = p @ sub @ r" by (auto simp: sublist_def)
  then show "str_contains s sub"
    using cut_after_None[of sub s p r] by (auto simp: str_contains_def)
qed

text \<open>A split of a string at the first separator byte is unique.\<close>

lemma append_sep_inject:
  assumes "c \<notin> set a" and "c \<notin> set a'"
  shows "a @ c # b = a' @ c # b' \<longleftrightarrow> a = a' \<and> b = b'"
  using assms by (auto simp: append_eq_append_conv2 append_eq_Cons_conv Cons_eq_append_conv)

subsection \<open>Lists\<close>

lemma find_Some_mem: "find P xs = Some x \<Longrightarrow> x \<in> set xs \<and> P x"
  by (auto simp: find_Some_iff in_set_conv_nth)

lemma find_None_all: "find P xs = None \<longleftrightarrow> (\<forall>x \<in> set xs. \<not> P x)"
  by (auto simp: find_None_iff)

lemma sum_list_update_int:
  "i < length xs \<Longrightarrow> sum_list (xs[i := (v::int)]) = sum_list xs - xs ! i + v"
  by (induction xs arbitrary: i) (auto split: nat.splits)

lemma Min_insert_min:
  fixes a b :: "'a::linorder"
  assumes "finite S"
  shows "Min (insert (min a b) S) = Min (insert a (insert b S))"
  using assms by (cases "S = {}") (simp_all add: min.assoc)

lemma in_set_take_nth: "x \<in> set (take k xs) \<longleftrightarrow> (\<exists>j < k. j < length xs \<and> xs ! j = x)"
  by (auto simp: in_set_conv_nth)

lemma distinct_concat_nth:
  "distinct (concat xss) \<Longrightarrow> i < length xss \<Longrightarrow> j < length xss \<Longrightarrow>
     x \<in> set (xss ! i) \<Longrightarrow> x \<in> set (xss ! j) \<Longrightarrow> i = j"
proof (induction xss arbitrary: i j)
  case (Cons xs xss)
  have "x \<in> set xs \<Longrightarrow> k < length xss \<Longrightarrow> x \<notin> set (xss ! k)" for k
    using Cons.prems(1) nth_mem[of k xss] by fastforce
  with Cons show ?case by (cases i; cases j) auto
qed simp

lemma join_append: "xs \<noteq> [] \<Longrightarrow> ys \<noteq> [] \<Longrightarrow> join s (xs @ ys) = join s xs @ s @ join s ys"
proof (induction xs rule: induct_list012)
  case (2 x)
  then show ?case by (cases ys) auto
next
  case (3 x y zs)
  then show ?case by (cases ys) auto
qed simp

end
