(* ===== verification/Alert_Latch.thy ===== *)
theory Alert_Latch
  imports Prelude
begin

section \<open>One page per outage\<close>

text \<open>
  The contract several alerts of the program share: an alert is latched per key when it pages the
  administrator and stays latched until it is cleared, so that a lasting outage pages once. The
  model pool has two alerts of this shape (a kind with no candidate left, a full wait queue; theory
  \<^verbatim>\<open>Model_Pool\<close>), and each is an instance of the locale below.
\<close>

datatype ('a, 'c) alert_event = Fire 'a | Clear 'c

text \<open>The pages for one key in a run of attempts and clearings, and the state after it.\<close>

fun alert_run ::
  "('a \<Rightarrow> 's \<Rightarrow> bool \<times> 's) \<Rightarrow> ('c \<Rightarrow> 's \<Rightarrow> 's) \<Rightarrow> ('a \<Rightarrow> 'k) \<Rightarrow> 'k \<Rightarrow> 's \<Rightarrow>
     ('a, 'c) alert_event list \<Rightarrow> nat \<times> 's" where
  "alert_run fire clear key k s [] = (0, s)"
| "alert_run fire clear key k s (Fire a # evs) =
     (let (paged, s') = fire a s; (n, s'') = alert_run fire clear key k s' evs
      in ((if paged \<and> key a = k then Suc n else n), s''))"
| "alert_run fire clear key k s (Clear c # evs) = alert_run fire clear key k (clear c s) evs"

definition clears_of :: "('c \<Rightarrow> 'k) \<Rightarrow> 'k \<Rightarrow> ('a, 'c) alert_event list \<Rightarrow> nat" where
  "clears_of ckey k evs = length (filter (\<lambda>e. case e of Clear c \<Rightarrow> ckey c = k | Fire _ \<Rightarrow> False) evs)"

lemma clears_of_simps [simp]:
  "clears_of ckey k [] = 0" "clears_of ckey k (Fire a # evs) = clears_of ckey k evs"
  "clears_of ckey k (Clear c # evs) =
     (if ckey c = k then Suc (clears_of ckey k evs) else clears_of ckey k evs)"
  by (simp_all add: clears_of_def)

locale alert_latch =
  fixes latched :: "'s \<Rightarrow> 'k \<Rightarrow> bool"
    and fire :: "'a \<Rightarrow> 's \<Rightarrow> bool \<times> 's"
    and key :: "'a \<Rightarrow> 'k"
    and clear :: "'c \<Rightarrow> 's \<Rightarrow> 's"
    and ckey :: "'c \<Rightarrow> 'k"
  assumes fire_page: "fst (fire a s) \<Longrightarrow> \<not> latched s (key a) \<and> latched (snd (fire a s)) (key a)"
    and fire_keep: "latched s k \<Longrightarrow> latched (snd (fire a s)) k"
    and clear_other: "k \<noteq> ckey c \<Longrightarrow> latched s k \<Longrightarrow> latched (clear c s) k"
begin

lemma pages_with_latch:
  "fst (alert_run fire clear key k s evs) + (if latched s k then 1 else 0) \<le> Suc (clears_of ckey k evs)"
proof (induction evs arbitrary: s)
  case (Cons e evs)
  show ?case
  proof (cases e)
    case (Fire a)
    obtain paged s' where f: "fire a s = (paged, s')" by (cases "fire a s")
    obtain n s'' where r: "alert_run fire clear key k s' evs = (n, s'')"
      by (cases "alert_run fire clear key k s' evs")
    have ih: "n + (if latched s' k then 1 else 0) \<le> Suc (clears_of ckey k evs)" using Cons.IH[of s'] r by simp
    show ?thesis using ih fire_page[of a s] fire_keep[of s k a] f r Fire by (auto split: if_splits)
  next
    case (Clear c)
    show ?thesis using Cons.IH[of "clear c s"] clear_other[of k c s] Clear by (auto split: if_splits)
  qed
qed simp

lemma pages_bounded: "fst (alert_run fire clear key k s evs) \<le> Suc (clears_of ckey k evs)"
  using pages_with_latch[of k s evs] by simp

lemma no_page_while_latched:
  "latched s k \<Longrightarrow> fst (alert_run fire clear key k s evs) \<le> clears_of ckey k evs"
  using pages_with_latch[of k s evs] by simp

end

end
