(* ===== verification/Arrangement_Store.thy ===== *)
theory Arrangement_Store
  imports Prelude
begin

section \<open>The work-item tables (leaf/arrangement/store)\<close>

text \<open>
  Two tables hold the orchestrations and their work items. Each is a list of rows; a method of the
  store is a query over the list or one or two statements that change it, with the WHERE clause
  as a predicate. The order of the list stands for the order in which the database scans a table,
  which decides between rows an ORDER BY leaves equal.

  A statement of the database can fail before it takes effect or lose its reply after it; \<open>db_fault\<close>
  is what happened to one statement and an argument of every method that calls the database.
\<close>

record arr_def =
  ad_ID :: string
  ad_Company :: string
  ad_Author :: string
  ad_Status :: string
  ad_Spec :: string
  ad_CreatedAt :: int
  ad_UpdatedAt :: int

record work_item =
  wi_ID :: string
  wi_ArrangementID :: string
  wi_Role :: string
  wi_Priority :: int
  wi_Payload :: string
  wi_Status :: string
  wi_ClaimedBy :: string
  wi_ClaimedAt :: int
  wi_CreatedAt :: int
  wi_UpdatedAt :: int

record arr_tables =
  t_defs :: "arr_def list"
  t_items :: "work_item list"

datatype db_fault = Fine | NotRun | ReplyLost

subsection \<open>Statements\<close>

definition db_exec :: "db_fault \<Rightarrow> (arr_tables \<Rightarrow> 'r \<times> arr_tables) \<Rightarrow> arr_tables \<Rightarrow> 'r option \<times> arr_tables" where
  "db_exec f stmt t =
     (case f of
        Fine \<Rightarrow> (Some (fst (stmt t)), snd (stmt t))
      | NotRun \<Rightarrow> (None, t)
      | ReplyLost \<Rightarrow> (None, snd (stmt t)))"

definition db_read :: "db_fault \<Rightarrow> (arr_tables \<Rightarrow> 'r) \<Rightarrow> arr_tables \<Rightarrow> 'r option" where
  "db_read f query t = (if f = Fine then Some (query t) else None)"

definition update_items :: "(work_item \<Rightarrow> bool) \<Rightarrow> (work_item \<Rightarrow> work_item) \<Rightarrow> arr_tables \<Rightarrow> nat \<times> arr_tables" where
  "update_items p u t =
     (length (filter p (t_items t)), t\<lparr>t_items := map (\<lambda>i. if p i then u i else i) (t_items t)\<rparr>)"

definition update_defs :: "(arr_def \<Rightarrow> bool) \<Rightarrow> (arr_def \<Rightarrow> arr_def) \<Rightarrow> arr_tables \<Rightarrow> nat \<times> arr_tables" where
  "update_defs p u t =
     (length (filter p (t_defs t)), t\<lparr>t_defs := map (\<lambda>d. if p d then u d else d) (t_defs t)\<rparr>)"

definition delete_items :: "(work_item \<Rightarrow> bool) \<Rightarrow> arr_tables \<Rightarrow> nat \<times> arr_tables" where
  "delete_items p t = (length (filter p (t_items t)), t\<lparr>t_items := filter (\<lambda>i. \<not> p i) (t_items t)\<rparr>)"

definition delete_defs :: "(arr_def \<Rightarrow> bool) \<Rightarrow> arr_tables \<Rightarrow> nat \<times> arr_tables" where
  "delete_defs p t = (length (filter p (t_defs t)), t\<lparr>t_defs := filter (\<lambda>d. \<not> p d) (t_defs t)\<rparr>)"

lemmas stmt_defs = update_items_def update_defs_def delete_items_def delete_defs_def

subsection \<open>Definitions of arrangements (20-defs.go)\<close>

text \<open>The insert reports whether the primary key was free.\<close>

definition InsertDef :: "string \<Rightarrow> string \<Rightarrow> string \<Rightarrow> string \<Rightarrow> string \<Rightarrow> int \<Rightarrow> arr_tables \<Rightarrow> bool \<times> arr_tables" where
  "InsertDef id' company author status spec now t =
     (if \<exists>d\<in>set (t_defs t). ad_ID d = id' then (False, t)
      else (True, t\<lparr>t_defs := t_defs t @ [\<lparr>ad_ID = id', ad_Company = company, ad_Author = author,
        ad_Status = status, ad_Spec = spec, ad_CreatedAt = now, ad_UpdatedAt = now\<rparr>]\<rparr>))"

definition items_of :: "string \<Rightarrow> work_item \<Rightarrow> bool" where
  "items_of a i \<longleftrightarrow> wi_ArrangementID i = a"

definition DeleteDef :: "db_fault \<Rightarrow> db_fault \<Rightarrow> string \<Rightarrow> arr_tables \<Rightarrow> bool \<times> arr_tables" where
  "DeleteDef f g a t =
     (case db_exec f (delete_items (items_of a)) t of
        (None, t1) \<Rightarrow> (False, t1)
      | (Some _, t1) \<Rightarrow>
          (case db_exec g (delete_defs (\<lambda>d. ad_ID d = a)) t1 of (r, t2) \<Rightarrow> (r \<noteq> None, t2)))"

definition GetDef :: "string \<Rightarrow> arr_tables \<Rightarrow> arr_def option" where
  "GetDef a t = find (\<lambda>d. ad_ID d = a) (t_defs t)"

definition ListDefs :: "string \<Rightarrow> arr_tables \<Rightarrow> arr_def list" where
  "ListDefs statusFilter t =
     sort_key (\<lambda>d. - ad_CreatedAt d) (filter (\<lambda>d. statusFilter = [] \<or> ad_Status d = statusFilter) (t_defs t))"

definition runnable :: "work_item \<Rightarrow> bool" where
  "runnable i \<longleftrightarrow> wi_Status i \<in> {''queued'', ''in_flight''}"

definition CountRunningDefs :: "string \<Rightarrow> arr_tables \<Rightarrow> nat" where
  "CountRunningDefs company t =
     length (remdups (map ad_ID (filter (\<lambda>d. ad_Company d = company \<and> ad_Status d = ''started''
       \<and> (\<exists>i\<in>set (t_items t). wi_ArrangementID i = ad_ID d \<and> runnable i)) (t_defs t))))"

definition terminal_before :: "int \<Rightarrow> arr_def \<Rightarrow> bool" where
  "terminal_before cutoff d \<longleftrightarrow> ad_Status d \<in> {''cancelled'', ''done''} \<and> ad_UpdatedAt d < cutoff"

definition prune_def_items :: "int \<Rightarrow> arr_tables \<Rightarrow> nat \<times> arr_tables" where
  "prune_def_items cutoff t =
     delete_items (\<lambda>i. \<exists>d\<in>set (t_defs t). terminal_before cutoff d \<and> wi_ArrangementID i = ad_ID d) t"

definition PruneTerminalDefs :: "db_fault \<Rightarrow> db_fault \<Rightarrow> int \<Rightarrow> arr_tables \<Rightarrow> nat option \<times> arr_tables" where
  "PruneTerminalDefs f g cutoff t =
     (case db_exec f (prune_def_items cutoff) t of
        (None, t1) \<Rightarrow> (None, t1)
      | (Some _, t1) \<Rightarrow> db_exec g (delete_defs (terminal_before cutoff)) t1)"

definition CloseStalledDefs :: "int \<Rightarrow> int \<Rightarrow> arr_tables \<Rightarrow> nat \<times> arr_tables" where
  "CloseStalledDefs cutoff now t =
     update_defs
       (\<lambda>d. ad_Status d = ''started'' \<and> ad_UpdatedAt d < cutoff
         \<and> \<not> (\<exists>i\<in>set (t_items t). wi_ArrangementID i = ad_ID d \<and> (runnable i \<or> cutoff \<le> wi_UpdatedAt i)))
       (\<lambda>d. d\<lparr>ad_Status := ''cancelled'', ad_UpdatedAt := now\<rparr>) t"

definition CancelDef :: "string \<Rightarrow> int \<Rightarrow> arr_tables \<Rightarrow> nat \<times> arr_tables" where
  "CancelDef a now = update_defs (\<lambda>d. ad_ID d = a \<and> ad_Status d = ''started'')
     (\<lambda>d. d\<lparr>ad_Status := ''cancelled'', ad_UpdatedAt := now\<rparr>)"

definition CompleteDef :: "string \<Rightarrow> int \<Rightarrow> arr_tables \<Rightarrow> nat \<times> arr_tables" where
  "CompleteDef a now = update_defs (\<lambda>d. ad_ID d = a \<and> ad_Status d = ''started'')
     (\<lambda>d. d\<lparr>ad_Status := ''done'', ad_UpdatedAt := now\<rparr>)"

subsection \<open>Work items (30-items.go)\<close>

definition InsertItem :: "string \<Rightarrow> string \<Rightarrow> string \<Rightarrow> int \<Rightarrow> string \<Rightarrow> int \<Rightarrow> arr_tables \<Rightarrow> bool \<times> arr_tables" where
  "InsertItem id' a role priority payload now t =
     (if \<exists>i\<in>set (t_items t). wi_ID i = id' then (False, t)
      else (True, t\<lparr>t_items := t_items t @ [\<lparr>wi_ID = id', wi_ArrangementID = a, wi_Role = role,
        wi_Priority = priority, wi_Payload = payload, wi_Status = ''queued'', wi_ClaimedBy = [],
        wi_ClaimedAt = 0, wi_CreatedAt = now, wi_UpdatedAt = now\<rparr>]\<rparr>))"

definition GetItem :: "string \<Rightarrow> arr_tables \<Rightarrow> work_item option" where
  "GetItem id' t = find (\<lambda>i. wi_ID i = id') (t_items t)"

definition bucketsWithStatus :: "string \<Rightarrow> arr_tables \<Rightarrow> (string \<times> string) list" where
  "bucketsWithStatus status t =
     remdups (map (\<lambda>i. (wi_ArrangementID i, wi_Role i)) (filter (\<lambda>i. wi_Status i = status) (t_items t)))"

definition QueuedBuckets :: "arr_tables \<Rightarrow> (string \<times> string) list" where
  "QueuedBuckets = bucketsWithStatus ''queued''"

definition UnmetBuckets :: "arr_tables \<Rightarrow> (string \<times> string) list" where
  "UnmetBuckets = bucketsWithStatus ''unmet''"

definition in_bucket :: "string \<Rightarrow> string \<Rightarrow> string \<Rightarrow> work_item \<Rightarrow> bool" where
  "in_bucket a role status i \<longleftrightarrow> wi_ArrangementID i = a \<and> wi_Role i = role \<and> wi_Status i = status"

definition RequeueUnmet :: "string \<Rightarrow> string \<Rightarrow> int \<Rightarrow> arr_tables \<Rightarrow> nat \<times> arr_tables" where
  "RequeueUnmet a role now = update_items (in_bucket a role ''unmet'')
     (\<lambda>i. i\<lparr>wi_Status := ''queued'', wi_UpdatedAt := now\<rparr>)"

definition StaleInFlight :: "int \<Rightarrow> arr_tables \<Rightarrow> work_item list" where
  "StaleInFlight cutoff t =
     filter (\<lambda>i. wi_Status i = ''in_flight'' \<and> 0 < wi_ClaimedAt i \<and> wi_ClaimedAt i < cutoff
       \<and> (\<exists>d\<in>set (t_defs t). ad_ID d = wi_ArrangementID i \<and> ad_Status d = ''started'')) (t_items t)"

definition RequeueInFlight :: "string \<Rightarrow> int \<Rightarrow> arr_tables \<Rightarrow> nat \<times> arr_tables" where
  "RequeueInFlight id' now = update_items (\<lambda>i. wi_ID i = id' \<and> wi_Status i = ''in_flight'')
     (\<lambda>i. i\<lparr>wi_Status := ''queued'', wi_ClaimedBy := [], wi_ClaimedAt := 0, wi_UpdatedAt := now\<rparr>)"

definition CountQueued :: "string \<Rightarrow> string \<Rightarrow> arr_tables \<Rightarrow> nat" where
  "CountQueued a role t = length (filter (in_bucket a role ''queued'') (t_items t))"

definition item_terminal :: "work_item \<Rightarrow> bool" where
  "item_terminal i \<longleftrightarrow> wi_Status i \<in> {''done'', ''cancelled''}"

definition CountLiveForDef :: "string \<Rightarrow> arr_tables \<Rightarrow> nat" where
  "CountLiveForDef a t = length (filter (\<lambda>i. wi_ArrangementID i = a \<and> \<not> item_terminal i) (t_items t))"

text \<open>\<^verbatim>\<open>ORDER BY priority DESC, created_at ASC LIMIT 1\<close>: \<open>outranks\<close> is the strict order.\<close>

definition outranks :: "work_item \<Rightarrow> work_item \<Rightarrow> bool" where
  "outranks i j \<longleftrightarrow> wi_Priority j < wi_Priority i \<or> wi_Priority i = wi_Priority j \<and> wi_CreatedAt i < wi_CreatedAt j"

fun top_item :: "work_item list \<Rightarrow> work_item option" where
  "top_item [] = None"
| "top_item (i # is) =
     (case top_item is of None \<Rightarrow> Some i | Some j \<Rightarrow> if outranks j i then Some j else Some i)"

definition select_top :: "string \<Rightarrow> string \<Rightarrow> arr_tables \<Rightarrow> string option" where
  "select_top a role t = map_option wi_ID (top_item (filter (in_bucket a role ''queued'') (t_items t)))"

definition claim_item :: "string \<Rightarrow> string \<Rightarrow> int \<Rightarrow> arr_tables \<Rightarrow> nat \<times> arr_tables" where
  "claim_item id' claimedBy now = update_items (\<lambda>i. wi_ID i = id' \<and> wi_Status i = ''queued'')
     (\<lambda>i. i\<lparr>wi_Status := ''in_flight'', wi_ClaimedBy := claimedBy, wi_ClaimedAt := now, wi_UpdatedAt := now\<rparr>)"

text \<open>
  The loop of \<^verbatim>\<open>ClaimTop\<close> over the attempts that are left. \<open>others n\<close> is what other sessions do to
  the tables between the select and the update of an attempt, \<open>f n\<close> what happens to its three
  statements.
\<close>

datatype 'a db_result = DbErr | DbNone | DbSome 'a

fun claim_loop :: "(nat \<Rightarrow> arr_tables \<Rightarrow> arr_tables) \<Rightarrow> (nat \<Rightarrow> db_fault \<times> db_fault \<times> db_fault) \<Rightarrow> string \<Rightarrow> string
    \<Rightarrow> string \<Rightarrow> int \<Rightarrow> nat \<Rightarrow> arr_tables \<Rightarrow> work_item db_result \<times> arr_tables" where
  "claim_loop others f a role claimedBy now 0 t = (DbNone, t)"
| "claim_loop others f a role claimedBy now (Suc n) t =
     (case db_read (fst (f n)) (select_top a role) t of
        None \<Rightarrow> (DbErr, t)
      | Some None \<Rightarrow> (DbNone, t)
      | Some (Some id') \<Rightarrow>
          (case db_exec (fst (snd (f n))) (claim_item id' claimedBy now) (others n t) of
             (None, t1) \<Rightarrow> (DbErr, t1)
           | (Some rows, t1) \<Rightarrow>
               if rows = 1 then
                 (case db_read (snd (snd (f n))) (GetItem id') t1 of
                    Some (Some it) \<Rightarrow> (DbSome it, t1)
                  | _ \<Rightarrow> (DbErr, t1))
               else claim_loop others f a role claimedBy now n t1))"

definition ClaimTop :: "(nat \<Rightarrow> arr_tables \<Rightarrow> arr_tables) \<Rightarrow> (nat \<Rightarrow> db_fault \<times> db_fault \<times> db_fault) \<Rightarrow> string \<Rightarrow> string
    \<Rightarrow> string \<Rightarrow> int \<Rightarrow> arr_tables \<Rightarrow> work_item db_result \<times> arr_tables" where
  "ClaimTop others f a role claimedBy now t = claim_loop others f a role claimedBy now 8 t"

definition RouteItem :: "string \<Rightarrow> string \<Rightarrow> string \<Rightarrow> string \<Rightarrow> string \<Rightarrow> int \<Rightarrow> arr_tables \<Rightarrow> nat \<times> arr_tables" where
  "RouteItem id' expectClaimedBy newRole newStatus newPayload now =
     update_items (\<lambda>i. wi_ID i = id' \<and> wi_ClaimedBy i = expectClaimedBy \<and> wi_Status i = ''in_flight'')
       (\<lambda>i. i\<lparr>wi_Role := newRole, wi_Status := newStatus, wi_Payload := newPayload, wi_ClaimedBy := [],
          wi_ClaimedAt := 0, wi_UpdatedAt := now\<rparr>)"

definition MarkUnmet :: "string \<Rightarrow> string \<Rightarrow> int \<Rightarrow> arr_tables \<Rightarrow> nat \<times> arr_tables" where
  "MarkUnmet a role now = update_items (in_bucket a role ''queued'')
     (\<lambda>i. i\<lparr>wi_Status := ''unmet'', wi_UpdatedAt := now\<rparr>)"

definition CancelLive :: "string \<Rightarrow> int \<Rightarrow> arr_tables \<Rightarrow> nat \<times> arr_tables" where
  "CancelLive a now = update_items (\<lambda>i. wi_ArrangementID i = a \<and> runnable i)
     (\<lambda>i. i\<lparr>wi_Status := ''cancelled'', wi_UpdatedAt := now\<rparr>)"

definition ListLive :: "arr_tables \<Rightarrow> work_item list" where
  "ListLive t = sort_key (\<lambda>i. - wi_CreatedAt i) (filter (\<lambda>i. \<not> item_terminal i) (t_items t))"

definition CountByStatus :: "arr_tables \<Rightarrow> (string, nat) gomap" where
  "CountByStatus t =
     (let live = filter (\<lambda>i. \<not> item_terminal i) (t_items t)
      in map (\<lambda>s. (s, length (filter (\<lambda>i. wi_Status i = s) live))) (remdups (map wi_Status live)))"

definition ListLiveForArrangement :: "string \<Rightarrow> arr_tables \<Rightarrow> work_item list" where
  "ListLiveForArrangement a t =
     sort_key (\<lambda>i. (if wi_Status i = ''in_flight'' then 0 else (1 :: int),
         if wi_Status i = ''in_flight'' then wi_ClaimedAt i else 0, wi_CreatedAt i))
       (filter (\<lambda>i. wi_ArrangementID i = a \<and> \<not> item_terminal i) (t_items t))"

definition PruneTerminal :: "int \<Rightarrow> arr_tables \<Rightarrow> nat \<times> arr_tables" where
  "PruneTerminal cutoff = delete_items (\<lambda>i. item_terminal i \<and> wi_UpdatedAt i < cutoff)"

subsection \<open>Runs of statements\<close>

text \<open>
  Every process of the system acts on the tables through these statements, one at a time. A run is
  any sequence of them: the handlers of the module are particular runs, and a run of all processes is
  an interleaving of theirs. A route writes only a status a submission can choose, which the guard
  of \<^verbatim>\<open>Submit\<close> enforces (see \<open>Arrangement\<close>).
\<close>

datatype store_op =
    OpInsertDef string string string string string int
  | OpDeleteDefItems string
  | OpDeleteDefRow string
  | OpPruneDefItems int
  | OpPruneDefs int
  | OpCloseStalled int int
  | OpCancelDef string int
  | OpCompleteDef string int
  | OpInsertItem string string string int string int
  | OpRequeueUnmet string string int
  | OpRequeueInFlight string int
  | OpClaim string string int
  | OpRoute string string string string string int
  | OpMarkUnmet string string int
  | OpCancelLive string int
  | OpPruneTerminal int

fun exec_op :: "store_op \<Rightarrow> arr_tables \<Rightarrow> arr_tables" where
  "exec_op (OpInsertDef i c a s sp now) t = snd (InsertDef i c a s sp now t)"
| "exec_op (OpDeleteDefItems a) t = snd (delete_items (items_of a) t)"
| "exec_op (OpDeleteDefRow a) t = snd (delete_defs (\<lambda>d. ad_ID d = a) t)"
| "exec_op (OpPruneDefItems c) t = snd (prune_def_items c t)"
| "exec_op (OpPruneDefs c) t = snd (delete_defs (terminal_before c) t)"
| "exec_op (OpCloseStalled c now) t = snd (CloseStalledDefs c now t)"
| "exec_op (OpCancelDef a now) t = snd (CancelDef a now t)"
| "exec_op (OpCompleteDef a now) t = snd (CompleteDef a now t)"
| "exec_op (OpInsertItem i a r p pl now) t = snd (InsertItem i a r p pl now t)"
| "exec_op (OpRequeueUnmet a r now) t = snd (RequeueUnmet a r now t)"
| "exec_op (OpRequeueInFlight i now) t = snd (RequeueInFlight i now t)"
| "exec_op (OpClaim i c now) t = snd (claim_item i c now t)"
| "exec_op (OpRoute i c r s pl now) t = snd (RouteItem i c r s pl now t)"
| "exec_op (OpMarkUnmet a r now) t = snd (MarkUnmet a r now t)"
| "exec_op (OpCancelLive a now) t = snd (CancelLive a now t)"
| "exec_op (OpPruneTerminal c) t = snd (PruneTerminal c t)"

definition run_ops :: "store_op list \<Rightarrow> arr_tables \<Rightarrow> arr_tables" where
  "run_ops ops t = fold exec_op ops t"

definition submit_status :: "string \<Rightarrow> bool" where
  "submit_status s \<longleftrightarrow> s \<notin> {''in_flight'', ''unmet'', ''dead''}"

fun legal_op :: "store_op \<Rightarrow> bool" where
  "legal_op (OpRoute i c r s pl now) = submit_status s"
| "legal_op (OpInsertDef i c a s sp now) = (s = ''started'')"
| "legal_op _ = True"

definition no_tables :: arr_tables where
  "no_tables = \<lparr>t_defs = [], t_items = []\<rparr>"

lemma run_ops_simps [simp]: "run_ops [] t = t" "run_ops (ops @ ops') t = run_ops ops' (run_ops ops t)"
    "run_ops (op # ops) t = run_ops ops (exec_op op t)"
  by (simp_all add: run_ops_def)


subsection \<open>The state machine of a work item\<close>

definition acted_on :: "string \<Rightarrow> bool" where
  "acted_on s \<longleftrightarrow> s \<in> {''queued'', ''in_flight'', ''unmet''}"

definition item_ok :: "work_item \<Rightarrow> bool" where
  "item_ok i \<longleftrightarrow> (wi_Status i \<in> {''in_flight'', ''cancelled''} \<or> wi_ClaimedBy i = [] \<and> wi_ClaimedAt i = 0)"

definition tables_ok :: "arr_tables \<Rightarrow> bool" where
  "tables_ok t \<longleftrightarrow> distinct (map ad_ID (t_defs t)) \<and> distinct (map wi_ID (t_items t))
     \<and> (\<forall>d\<in>set (t_defs t). ad_Status d \<in> {''started'', ''done'', ''cancelled''})
     \<and> (\<forall>i\<in>set (t_items t). item_ok i)"

lemmas op_defs = InsertDef_def prune_def_items_def CloseStalledDefs_def CancelDef_def CompleteDef_def InsertItem_def
  RequeueUnmet_def RequeueInFlight_def claim_item_def RouteItem_def MarkUnmet_def CancelLive_def PruneTerminal_def

lemma update_items_ok:
  assumes "tables_ok t" "\<And>i. i \<in> set (t_items t) \<Longrightarrow> p i \<Longrightarrow> wi_ID (u i) = wi_ID i \<and> item_ok (u i)"
  shows "tables_ok (snd (update_items p u t))"
proof -
  let ?t = "snd (update_items p u t)"
  have "map wi_ID (t_items ?t) = map wi_ID (t_items t)" "t_defs ?t = t_defs t"
    using assms(2) by (simp_all add: update_items_def)
  moreover have "\<forall>i\<in>set (t_items ?t). item_ok i"
    using assms by (auto simp: tables_ok_def update_items_def)
  ultimately show ?thesis using assms(1) by (simp add: tables_ok_def)
qed

lemma update_defs_ok:
  assumes "tables_ok t" "\<And>d. ad_ID (u d) = ad_ID d \<and> ad_Status (u d) \<in> {''started'', ''done'', ''cancelled''}"
  shows "tables_ok (snd (update_defs p u t))"
proof -
  let ?t = "snd (update_defs p u t)"
  have "map ad_ID (t_defs ?t) = map ad_ID (t_defs t)" "t_items ?t = t_items t"
    using assms(2) by (simp_all add: update_defs_def)
  moreover have "\<forall>d\<in>set (t_defs ?t). ad_Status d \<in> {''started'', ''done'', ''cancelled''}"
    using assms by (auto simp: tables_ok_def update_defs_def)
  ultimately show ?thesis using assms(1) by (simp add: tables_ok_def)
qed

lemma delete_ok:
  "tables_ok t \<Longrightarrow> tables_ok (snd (delete_items p t))" "tables_ok t \<Longrightarrow> tables_ok (snd (delete_defs q t))"
  by (auto simp: tables_ok_def stmt_defs distinct_map_filter)

lemma insert_ok:
  "tables_ok t \<Longrightarrow> tables_ok (snd (InsertItem i a r p pl now t))"
  "tables_ok t \<Longrightarrow> s = ''started'' \<Longrightarrow> tables_ok (snd (InsertDef i c a s sp now t))"
  by (auto simp: tables_ok_def InsertItem_def InsertDef_def item_ok_def)

lemma exec_op_ok:
  assumes "legal_op op" "tables_ok t"
  shows "tables_ok (exec_op op t)"
proof -
  have "wi_ClaimedBy i = [] \<and> wi_ClaimedAt i = 0" if "i \<in> set (t_items t)" "wi_Status i \<in> {''queued'', ''unmet''}" for i
    using assms(2) that by (auto simp: tables_ok_def item_ok_def)
  with assms show ?thesis
    by (cases op)
      (auto simp: CloseStalledDefs_def CancelDef_def CompleteDef_def RequeueUnmet_def RequeueInFlight_def claim_item_def
        RouteItem_def MarkUnmet_def CancelLive_def PruneTerminal_def prune_def_items_def in_bucket_def runnable_def
        item_ok_def submit_status_def
        intro!: update_items_ok update_defs_ok delete_ok insert_ok)
qed

lemma run_ops_ok: "list_all legal_op ops \<Longrightarrow> tables_ok t \<Longrightarrow> tables_ok (run_ops ops t)"
  by (induction ops arbitrary: t) (auto simp: exec_op_ok)

text \<open>A statement whose WHERE clause names the primary key touches one row at most.\<close>

lemma one_row:
  assumes "distinct (map wi_ID is)" "\<And>i. p i \<Longrightarrow> wi_ID i = k"
  shows "length (filter p is) \<le> 1"
  using assms(1)
proof (induction "is")
  case (Cons i "is")
  have "filter p is = []" if "p i"
    using that Cons.prems assms(2) by (fastforce simp: filter_empty_conv image_iff)
  then show ?case using Cons by auto
qed simp

text \<open>
  The machine: the only changes of status a statement can make, whoever sends it. A status the engine
  does not act on (done, cancelled, blocked and the other parked ones) is never left.
\<close>

definition item_moves :: "work_item \<Rightarrow> work_item \<Rightarrow> bool" where
  "item_moves i j \<longleftrightarrow> wi_ID j = wi_ID i \<and> wi_ArrangementID j = wi_ArrangementID i \<and>
     (wi_Status i = ''queued'' \<and> wi_Status j \<in> {''in_flight'', ''unmet'', ''cancelled''}
    \<or> wi_Status i = ''unmet'' \<and> wi_Status j = ''queued''
    \<or> wi_Status i = ''in_flight'' \<and> submit_status (wi_Status j))"

fun deletes :: "store_op \<Rightarrow> bool" where
  "deletes (OpDeleteDefItems a) = True"
| "deletes (OpPruneDefItems c) = True"
| "deletes (OpPruneTerminal c) = True"
| "deletes _ = False"

lemma update_items_step:
  assumes "i \<in> set (t_items t)" "p i \<Longrightarrow> item_moves i (u i)"
  shows "\<exists>j\<in>set (t_items (snd (update_items p u t))). j = i \<or> item_moves i j"
proof (cases "p i")
  case True
  then have "u i \<in> set (t_items (snd (update_items p u t)))" using assms(1) by (force simp: update_items_def)
  then show ?thesis using True assms(2) by blast
next
  case False
  then have "i \<in> set (t_items (snd (update_items p u t)))" using assms(1) by (force simp: update_items_def)
  then show ?thesis by blast
qed

lemma item_step:
  assumes "legal_op op" "i \<in> set (t_items t)" "\<not> deletes op"
  shows "\<exists>j\<in>set (t_items (exec_op op t)). j = i \<or> item_moves i j"
proof (cases op)
  case (OpRequeueUnmet a r now)
  then show ?thesis unfolding OpRequeueUnmet exec_op.simps RequeueUnmet_def
    by (intro update_items_step[OF assms(2)]) (simp add: in_bucket_def item_moves_def)
next
  case (OpRequeueInFlight k now)
  then show ?thesis unfolding OpRequeueInFlight exec_op.simps RequeueInFlight_def
    by (intro update_items_step[OF assms(2)]) (simp add: item_moves_def submit_status_def)
next
  case (OpClaim k c now)
  then show ?thesis unfolding OpClaim exec_op.simps claim_item_def
    by (intro update_items_step[OF assms(2)]) (simp add: item_moves_def)
next
  case (OpRoute k c r s pl now)
  then show ?thesis unfolding OpRoute exec_op.simps RouteItem_def
    by (intro update_items_step[OF assms(2)]) (use OpRoute assms(1) in \<open>simp add: item_moves_def\<close>)
next
  case (OpMarkUnmet a r now)
  then show ?thesis unfolding OpMarkUnmet exec_op.simps MarkUnmet_def
    by (intro update_items_step[OF assms(2)]) (simp add: in_bucket_def item_moves_def)
next
  case (OpCancelLive a now)
  then show ?thesis unfolding OpCancelLive exec_op.simps CancelLive_def
    by (intro update_items_step[OF assms(2)]) (auto simp: runnable_def item_moves_def submit_status_def)
qed (use assms(2,3) in \<open>auto simp: InsertDef_def InsertItem_def CloseStalledDefs_def CancelDef_def CompleteDef_def
    update_defs_def delete_defs_def\<close>)

lemma resting_does_not_move: "item_moves i j \<Longrightarrow> acted_on (wi_Status i)"
  by (auto simp: item_moves_def acted_on_def)

text \<open>
  A work item the engine no longer acts on (done, cancelled, or parked under whatever status the
  worker chose) rests: through every run of statements of all handlers, interleaved in any way, its
  row stays exactly as it is until a sweep or the deletion of its arrangement removes it. So a parked
  item is never dispatched again and a finished one never delivered twice.
\<close>

theorem resting_items_rest:
  assumes "list_all legal_op ops" "i \<in> set (t_items t)" "\<not> acted_on (wi_Status i)"
    "i \<notin> set (t_items (run_ops ops t))"
  shows "\<exists>pre op post. ops = pre @ op # post \<and> deletes op \<and> i \<in> set (t_items (run_ops pre t))
    \<and> i \<notin> set (t_items (exec_op op (run_ops pre t)))"
  using assms
proof (induction ops arbitrary: t)
  case (Cons op ops)
  show ?case
  proof (cases "i \<in> set (t_items (exec_op op t))")
    case True
    then obtain pre op' post where "ops = pre @ op' # post" "deletes op'" "i \<in> set (t_items (run_ops pre (exec_op op t)))"
      "i \<notin> set (t_items (exec_op op' (run_ops pre (exec_op op t))))"
      using Cons.IH[OF _ True] Cons.prems by auto
    then show ?thesis by (intro exI[of _ "op # pre"]) auto
  next
    case False
    then have "deletes op"
      using item_step[of op i t] resting_does_not_move Cons.prems by auto
    then show ?thesis using False Cons.prems by (intro exI[of _ "[]"]) auto
  qed
qed simp

text \<open>The holder of an item is whoever claimed it last, and the row is the one that claim wrote.\<close>

lemma in_flight_step:
  assumes "legal_op op" "j \<in> set (t_items (exec_op op t))" "wi_Status j = ''in_flight''" "j \<notin> set (t_items t)"
  shows "\<exists>i c now. i \<in> set (t_items t) \<and> wi_Status i = ''queued'' \<and> op = OpClaim (wi_ID i) c now
    \<and> j = i\<lparr>wi_Status := ''in_flight'', wi_ClaimedBy := c, wi_ClaimedAt := now, wi_UpdatedAt := now\<rparr>"
  using assms
  by (cases op) (auto simp: op_defs stmt_defs in_bucket_def submit_status_def split: if_splits)

lemma held_since_claim:
  assumes "list_all legal_op ops" "j \<in> set (t_items (run_ops ops t))" "wi_Status j = ''in_flight''" "j \<notin> set (t_items t)"
  shows "\<exists>pre now post. ops = pre @ OpClaim (wi_ID j) (wi_ClaimedBy j) now # post
    \<and> (\<exists>i\<in>set (t_items (run_ops pre t)). wi_ID i = wi_ID j \<and> wi_Status i = ''queued'')
    \<and> (\<forall>mid rest. post = mid @ rest \<longrightarrow> j \<in> set (t_items (run_ops (pre @ OpClaim (wi_ID j) (wi_ClaimedBy j) now # mid) t)))"
  using assms(1,2)
proof (induction ops rule: rev_induct)
  case Nil
  then show ?case using assms(4) by simp
next
  case (snoc op ops)
  show ?case
  proof (cases "j \<in> set (t_items (run_ops ops t))")
    case True
    then obtain pre now post where *: "ops = pre @ OpClaim (wi_ID j) (wi_ClaimedBy j) now # post"
      "\<exists>i\<in>set (t_items (run_ops pre t)). wi_ID i = wi_ID j \<and> wi_Status i = ''queued''"
      "\<forall>mid rest. post = mid @ rest \<longrightarrow> j \<in> set (t_items (run_ops (pre @ OpClaim (wi_ID j) (wi_ClaimedBy j) now # mid) t))"
      using snoc by auto
    have "j \<in> set (t_items (run_ops (pre @ OpClaim (wi_ID j) (wi_ClaimedBy j) now # mid) t))" if "post @ [op] = mid @ rest" for mid rest
      using that *(1,3) snoc.prems(2) by (cases rest rule: rev_cases) auto
    then show ?thesis using * by (intro exI[of _ pre] exI[of _ now] exI[of _ "post @ [op]"]) auto
  next
    case False
    then obtain i c now where i: "i \<in> set (t_items (run_ops ops t))" "wi_Status i = ''queued''"
      and op: "op = OpClaim (wi_ID i) c now"
      and j: "j = i\<lparr>wi_Status := ''in_flight'', wi_ClaimedBy := c, wi_ClaimedAt := now, wi_UpdatedAt := now\<rparr>"
      using in_flight_step[of op j "run_ops ops t"] snoc.prems assms(3) by auto
    have "op = OpClaim (wi_ID j) (wi_ClaimedBy j) now" "wi_ID i = wi_ID j" using op j by simp_all
    then show ?thesis using snoc.prems(2) i by (intro exI[of _ ops] exI[of _ now] exI[of _ "[]"]) auto
  qed
qed

text \<open>
  C31. A submission is accepted once per claim at most: when a route by \<open>c\<close> finds its row, some claim by
  \<open>c\<close> earlier in the run took that item from the queue, and from that claim on no statement touched the
  row. So a second submission, one after a reclaim or a cancellation, and one by anybody else finds no row
  and changes nothing, unless its author has claimed the item anew.
\<close>

theorem accepted_submit_had_claim:
  assumes "list_all legal_op ops"
  shows "case RouteItem iid c r s pl now (run_ops ops no_tables) of (n, t') \<Rightarrow>
    if n = 0 then t' = run_ops ops no_tables
    else n = 1 \<and> (\<exists>pre claimed post j. ops = pre @ OpClaim iid c claimed # post
      \<and> (\<exists>i\<in>set (t_items (run_ops pre no_tables)). wi_ID i = iid \<and> wi_Status i = ''queued'')
      \<and> wi_ID j = iid \<and> wi_ClaimedBy j = c \<and> wi_Status j = ''in_flight''
      \<and> (\<forall>mid rest. post = mid @ rest \<longrightarrow> j \<in> set (t_items (run_ops (pre @ OpClaim iid c claimed # mid) no_tables))))"
proof -
  let ?t = "run_ops ops no_tables" and ?p = "\<lambda>i. wi_ID i = iid \<and> wi_ClaimedBy i = c \<and> wi_Status i = ''in_flight''"
  have t: "tables_ok ?t" using assms by (rule run_ops_ok) (simp add: tables_ok_def no_tables_def)
  show ?thesis
  proof (cases "filter ?p (t_items ?t) = []")
    case True
    then have "map (\<lambda>i. if ?p i then u i else i) (t_items ?t) = t_items ?t" for u
      by (intro map_idI) (auto simp: filter_empty_conv)
    with True show ?thesis by (simp add: RouteItem_def update_items_def)
  next
    case False
    then obtain j where j: "j \<in> set (t_items ?t)" "wi_ID j = iid" "wi_ClaimedBy j = c" "wi_Status j = ''in_flight''"
      by (auto simp: filter_empty_conv)
    have "length (filter ?p (t_items ?t)) \<le> 1"
      using t by (intro one_row) (auto simp: tables_ok_def)
    moreover have "0 < length (filter ?p (t_items ?t))" using False by (simp only: length_greater_0_conv simp_thms)
    ultimately have "length (filter ?p (t_items ?t)) = 1" by linarith
    then have "fst (RouteItem iid c r s pl now ?t) = 1" by (simp add: RouteItem_def update_items_def)
    moreover obtain pre claimed post where "ops = pre @ OpClaim iid c claimed # post"
      "\<exists>i\<in>set (t_items (run_ops pre no_tables)). wi_ID i = iid \<and> wi_Status i = ''queued''"
      "\<forall>mid rest. post = mid @ rest \<longrightarrow> j \<in> set (t_items (run_ops (pre @ OpClaim iid c claimed # mid) no_tables))"
      using held_since_claim[OF assms j(1,4)] j by (auto simp: no_tables_def)
    ultimately show ?thesis using j(2-) by (simp only: split_beta) auto
  qed
qed

definition demo_ops :: "store_op list" where
  "demo_ops = [OpInsertDef ''arr_1'' ''acme'' ''u'' ''started'' ''spec'' 10, OpInsertItem ''ari_1'' ''arr_1'' ''draft'' 0 [] 10,
     OpClaim ''ari_1'' ''internal:dm:7'' 20, OpMarkUnmet ''arr_1'' ''draft'' 25]"

definition demo_parked :: work_item where
  "demo_parked = \<lparr>wi_ID = ''ari_1'', wi_ArrangementID = ''arr_1'', wi_Role = ''draft'', wi_Priority = 0, wi_Payload = [],
     wi_Status = ''blocked'', wi_ClaimedBy = [], wi_ClaimedAt = 0, wi_CreatedAt = 10, wi_UpdatedAt = 30\<rparr>"

definition demo_sweep :: "store_op list" where
  "demo_sweep = [OpRequeueUnmet ''arr_1'' ''draft'' 40, OpPruneTerminal 50, OpCancelDef ''arr_1'' 60, OpCancelLive ''arr_1'' 60,
     OpPruneDefItems 70, OpPruneDefs 70]"

theorem accepted_submit_had_claim_witness:
  "list_all legal_op demo_ops \<and> fst (RouteItem ''ari_1'' ''internal:dm:7'' ''draft'' ''blocked'' [] 30 (run_ops demo_ops no_tables)) = 1
   \<and> (\<exists>pre claimed post. demo_ops = pre @ OpClaim ''ari_1'' ''internal:dm:7'' claimed # post)
   \<and> fst (RouteItem ''ari_1'' ''internal:dm:8'' ''draft'' ''blocked'' [] 30 (run_ops demo_ops no_tables)) = 0"
proof -
  have l: "list_all legal_op demo_ops" by code_simp
  have n: "fst (RouteItem ''ari_1'' ''internal:dm:7'' ''draft'' ''blocked'' [] 30 (run_ops demo_ops no_tables)) = 1" by code_simp
  have "\<exists>pre claimed post. demo_ops = pre @ OpClaim ''ari_1'' ''internal:dm:7'' claimed # post"
    using accepted_submit_had_claim[OF l, of "''ari_1''" "''internal:dm:7''" "''draft''" "''blocked''" "[]" 30] n
    by (simp only: split_beta) auto
  moreover have "fst (RouteItem ''ari_1'' ''internal:dm:8'' ''draft'' ''blocked'' [] 30 (run_ops demo_ops no_tables)) = 0" by code_simp
  ultimately show ?thesis using l n by blast
qed

theorem resting_items_rest_witness:
  "\<exists>pre op post. demo_sweep = pre @ op # post \<and> deletes op
    \<and> demo_parked \<in> set (t_items (run_ops pre (exec_op (OpRoute ''ari_1'' ''internal:dm:7'' ''draft'' ''blocked'' [] 30) (run_ops demo_ops no_tables))))"
proof -
  let ?t = "exec_op (OpRoute ''ari_1'' ''internal:dm:7'' ''draft'' ''blocked'' [] 30) (run_ops demo_ops no_tables)"
  have "list_all legal_op demo_sweep" "demo_parked \<in> set (t_items ?t)" "\<not> acted_on (wi_Status demo_parked)"
    "demo_parked \<notin> set (t_items (run_ops demo_sweep ?t))"
    by code_simp+
  from resting_items_rest[OF this] show ?thesis by blast
qed

subsection \<open>Claiming\<close>

lemma top_item_spec:
  "top_item is = Some i \<Longrightarrow> i \<in> set is \<and> (\<forall>j\<in>set is. \<not> outranks j i)" "(top_item is = None) = (is = [])"
proof (induction "is" arbitrary: i)
  case (Cons k "is")
  { case 1
    then show ?case using Cons.IH by (auto simp: outranks_def split: option.splits if_splits) }
  { case 2
    then show ?case by (simp split: option.splits) }
qed simp_all

text \<open>
  A claim takes an item that is queued when the update runs, whatever the other sessions did since the
  select, and writes the caller into it; the row handed back is the one in the table.
\<close>

theorem claim_takes_queued:
  "ClaimTop others f a role c now t = (DbSome it, t') \<Longrightarrow>
    (\<exists>t0. t' = snd (claim_item (wi_ID it) c now t0) \<and> fst (claim_item (wi_ID it) c now t0) = 1) \<and> GetItem (wi_ID it) t' = Some it"
proof -
  have *: "claim_loop others f a role c now n t = (DbSome it, t') \<Longrightarrow>
    (\<exists>t0. t' = snd (claim_item (wi_ID it) c now t0) \<and> fst (claim_item (wi_ID it) c now t0) = 1) \<and> GetItem (wi_ID it) t' = Some it" for n
  proof (induction n arbitrary: t)
    case (Suc n)
    show ?case
    proof (cases "\<exists>k. db_read (fst (f n)) (select_top a role) t = Some (Some k)")
      case True
      then obtain k where k: "db_read (fst (f n)) (select_top a role) t = Some (Some k)" by blast
      show ?thesis using Suc k
        by (auto simp: db_exec_def db_read_def GetItem_def find_Some_iff split: db_fault.splits if_splits option.splits prod.splits)
    next
      case False
      then show ?thesis using Suc.prems by (auto split: option.splits)
    qed
  qed simp
  show "ClaimTop others f a role c now t = (DbSome it, t') \<Longrightarrow> ?thesis" unfolding ClaimTop_def by (rule *)
qed

lemma keyed_update:
  assumes "distinct (map wi_ID is)" "i \<in> set is" "p i" "\<And>k. p k \<Longrightarrow> wi_ID k = wi_ID i" "\<And>k. wi_ID (u k) = wi_ID k"
  shows "length (filter p is) = 1 \<and> find (\<lambda>j. wi_ID j = wi_ID i) (map (\<lambda>k. if p k then u k else k) is) = Some (u i)"
  using assms(1,2)
proof (induction "is")
  case (Cons k "is")
  show ?case
  proof (cases "k = i")
    case True
    then have "filter p is = []" using Cons.prems assms(4) by (fastforce simp: filter_empty_conv image_iff)
    then show ?thesis using True assms(3,5) by simp
  next
    case False
    then have "i \<in> set is" "wi_ID k \<noteq> wi_ID i" using Cons.prems by (auto simp: image_iff)
    then show ?thesis using Cons assms(4) by fastforce
  qed
qed simp

lemma claim_takes_top:
  assumes "tables_ok t" "top_item (filter (in_bucket a role ''queued'') (t_items t)) = Some i"
  shows "ClaimTop (\<lambda>_ t. t) (\<lambda>_. (Fine, Fine, Fine)) a role c now t =
    (DbSome (i\<lparr>wi_Status := ''in_flight'', wi_ClaimedBy := c, wi_ClaimedAt := now, wi_UpdatedAt := now\<rparr>),
     snd (claim_item (wi_ID i) c now t))"
proof -
  have i: "i \<in> set (t_items t)" "wi_Status i = ''queued''"
    using top_item_spec(1)[OF assms(2)] by (auto simp: in_bucket_def)
  have d: "distinct (map wi_ID (t_items t))" using assms(1) by (simp add: tables_ok_def)
  have k: "select_top a role t = Some (wi_ID i)" using assms(2) by (simp add: select_top_def)
  show ?thesis
    using keyed_update[OF d i(1), of "\<lambda>k. wi_ID k = wi_ID i \<and> wi_Status k = ''queued''"
        "\<lambda>i. i\<lparr>wi_Status := ''in_flight'', wi_ClaimedBy := c, wi_ClaimedAt := now, wi_UpdatedAt := now\<rparr>"] i(2)
    by (simp add: ClaimTop_def eval_nat_numeral k db_exec_def claim_item_def update_items_def GetItem_def db_read_def)
qed

end
