(* ===== verification/Go_Runes.thy ===== *)
theory Go_Runes
  imports Prelude
begin

section \<open>Runes\<close>

text \<open>
  Go's view of a byte string as a sequence of Unicode code points, for the code that works on runes:
  \<^verbatim>\<open>[]rune(s)\<close>, \<^verbatim>\<open>strings.TrimSpace\<close>, \<^verbatim>\<open>strings.Map\<close> with a predicate and
  \<^verbatim>\<open>unicode.IsControl\<close>. A rune is the byte string that encodes it; a byte that starts no valid
  encoding reads as U+FFFD and is written back as its three bytes.
\<close>

text \<open>The complete encodings.\<close>

fun rune_ok :: "string \<Rightarrow> bool" where
  "rune_ok [] = False"
| "rune_ok (c # t) = (if t = [] then of_char c < (128 :: nat) else length t = rune_tail c t)"

definition rune_error :: string where
  "rune_error = [CHR 0xEF, CHR 0xBF, CHR 0xBD]"

definition go_rune :: "string \<Rightarrow> string" where
  "go_rune r = (if rune_ok r then r else rune_error)"

text \<open>\<^verbatim>\<open>[]rune(s)\<close>; the conversion back is \<open>concat\<close>.\<close>

definition to_runes :: "string \<Rightarrow> string list" where
  "to_runes s = map go_rune (runes s)"

text \<open>\<^verbatim>\<open>unicode.IsControl\<close>: C0, DEL and C1.\<close>

definition IsControl :: "string \<Rightarrow> bool" where
  "IsControl r = (case r of
     [c] \<Rightarrow> between 0 0x1F c \<or> c = CHR 0x7F
   | [c, d] \<Rightarrow> c = CHR 0xC2 \<and> between 0x80 0x9F d
   | _ \<Rightarrow> False)"

text \<open>\<^verbatim>\<open>unicode.IsSpace\<close>: the White Space property.\<close>

definition IsSpace :: "string \<Rightarrow> bool" where
  "IsSpace r = (case r of
     [c] \<Rightarrow> between 0x09 0x0D c \<or> c = CHR 0x20
   | [c, d] \<Rightarrow> c = CHR 0xC2 \<and> (d = CHR 0x85 \<or> d = CHR 0xA0)
   | [c, d, e] \<Rightarrow>
       c = CHR 0xE1 \<and> d = CHR 0x9A \<and> e = CHR 0x80
     \<or> c = CHR 0xE2 \<and> d = CHR 0x80 \<and> (between 0x80 0x8A e \<or> e = CHR 0xA8 \<or> e = CHR 0xA9 \<or> e = CHR 0xAF)
     \<or> c = CHR 0xE2 \<and> d = CHR 0x81 \<and> e = CHR 0x9F
     \<or> c = CHR 0xE3 \<and> d = CHR 0x80 \<and> e = CHR 0x80
   | _ \<Rightarrow> False)"

definition trim_runes :: "string list \<Rightarrow> string list" where
  "trim_runes rs = rev (dropWhile IsSpace (rev (dropWhile IsSpace rs)))"

definition TrimSpace :: "string \<Rightarrow> string" where
  "TrimSpace s = concat (trim_runes (runes s))"

subsection \<open>Decoding what was encoded\<close>

lemma rune_ok_error [simp]: "rune_ok rune_error"
  by (simp add: rune_error_def rune_tail_def between_def)

lemma rune_ok_go_rune [simp]: "rune_ok (go_rune r)"
  by (simp add: go_rune_def)

lemma go_rune_ok [simp]: "rune_ok r \<Longrightarrow> go_rune r = r"
  by (simp add: go_rune_def)

lemma to_runes_ok: "r \<in> set (to_runes s) \<Longrightarrow> rune_ok r"
  by (auto simp: to_runes_def)

lemma rune_tail_ascii [simp]: "of_char c < (128 :: nat) \<Longrightarrow> rune_tail c s = 0"
  by (simp add: rune_tail_def between_def)

lemma rune_tail_append:
  assumes "length t = rune_tail c t" and "t \<noteq> []"
  shows "rune_tail c (t @ s) = rune_tail c t"
  using assms
  by (auto simp: rune_tail_def split: if_splits list.splits simp: append_eq_Cons_conv)

lemma runes_rune:
  assumes "rune_ok r"
  shows "runes (r @ s) = r # runes s"
proof (cases r)
  case (Cons c t)
  show ?thesis
  proof (cases "t = []")
    case True
    then show ?thesis using assms Cons by simp
  next
    case False
    then have "length t = rune_tail c t" using assms Cons by simp
    moreover from this have "rune_tail c (t @ s) = length t"
      using rune_tail_append[of t c s] False by simp
    ultimately show ?thesis using Cons by simp
  qed
qed (use assms in simp)

lemma runes_concat: "(\<And>r. r \<in> set rs \<Longrightarrow> rune_ok r) \<Longrightarrow> runes (concat rs) = rs"
  by (induction rs) (simp_all add: runes_rune)

lemma to_runes_concat: "(\<And>r. r \<in> set rs \<Longrightarrow> rune_ok r) \<Longrightarrow> to_runes (concat rs) = rs"
  by (simp add: to_runes_def runes_concat map_idI)

text \<open>Valid strings: what \<^verbatim>\<open>utf8.ValidString\<close> accepts.\<close>

definition valid_utf8 :: "string \<Rightarrow> bool" where
  "valid_utf8 s \<longleftrightarrow> (\<forall>r \<in> set (runes s). rune_ok r)"

lemma valid_utf8_concat: "(\<And>r. r \<in> set rs \<Longrightarrow> rune_ok r) \<Longrightarrow> valid_utf8 (concat rs)"
  by (simp add: valid_utf8_def runes_concat)

lemma runes_concat_append:
  "(\<And>r. r \<in> set rs \<Longrightarrow> rune_ok r) \<Longrightarrow> runes (concat rs @ s) = rs @ runes s"
  by (induction rs) (simp_all add: runes_rune)

lemma runes_append: "valid_utf8 a \<Longrightarrow> runes (a @ s) = runes a @ runes s"
  using runes_concat_append[of "runes a" s] by (simp add: concat_runes valid_utf8_def)

lemma valid_utf8_append: "valid_utf8 a \<Longrightarrow> valid_utf8 b \<Longrightarrow> valid_utf8 (a @ b)"
  by (auto simp: valid_utf8_def runes_append)

lemma runes_ascii: "(\<And>c. c \<in> set s \<Longrightarrow> of_char c < (128 :: nat)) \<Longrightarrow> runes s = map (\<lambda>c. [c]) s"
  by (induction s) simp_all

lemma valid_utf8_ascii: "(\<And>c. c \<in> set s \<Longrightarrow> of_char c < (128 :: nat)) \<Longrightarrow> valid_utf8 s"
  by (auto simp: valid_utf8_def runes_ascii)

text \<open>Decoding brings in no byte but those of the replacement rune.\<close>

lemma set_runes: "r \<in> set (runes s) \<Longrightarrow> set r \<subseteq> set s"
  using concat_runes[of s] by (metis Sup_upper image_eqI set_concat)

lemma set_to_runes: "r \<in> set (to_runes s) \<Longrightarrow> c \<in> set r \<Longrightarrow> c \<in> set s \<or> c \<in> set rune_error"
  by (auto simp: to_runes_def go_rune_def split: if_splits dest: set_runes)

subsection \<open>Trimming\<close>

lemma set_trim_runes: "set (trim_runes rs) \<subseteq> set rs"
  by (auto simp: trim_runes_def dest!: set_dropWhileD)

lemma length_trim_runes: "length (trim_runes rs) \<le> length rs"
  unfolding trim_runes_def by (simp add: le_trans[OF length_dropWhile_le])

lemma TrimSpace_concat:
  "(\<And>r. r \<in> set rs \<Longrightarrow> rune_ok r) \<Longrightarrow> TrimSpace (concat rs) = concat (trim_runes rs)"
  by (simp add: TrimSpace_def runes_concat)

lemma trim_runes_last: "trim_runes rs \<noteq> [] \<Longrightarrow> \<not> IsSpace (last (trim_runes rs))"
  unfolding trim_runes_def
  by (simp add: last_rev hd_dropWhile)

lemma trim_runes_hd: "trim_runes rs \<noteq> [] \<Longrightarrow> \<not> IsSpace (hd (trim_runes rs))"
proof -
  assume ne: "trim_runes rs \<noteq> []"
  let ?d = "dropWhile IsSpace rs"
  have eq: "trim_runes rs @ rev (takeWhile IsSpace (rev ?d)) = ?d"
    unfolding trim_runes_def
    by (metis rev_append rev_rev_ident takeWhile_dropWhile_id)
  then have hd: "hd (trim_runes rs) = hd ?d" using ne by (metis hd_append2)
  have "?d \<noteq> []" using eq ne by (metis append_is_Nil_conv)
  then show ?thesis using hd hd_dropWhile[of IsSpace rs] by simp
qed

lemma trim_runes_idem: "trim_runes (trim_runes rs) = trim_runes rs"
proof (cases "trim_runes rs = []")
  case True
  have "trim_runes [] = []" by (simp add: trim_runes_def)
  with True show ?thesis by simp
next
  case False
  have "dropWhile IsSpace (trim_runes rs) = trim_runes rs"
    using trim_runes_hd[OF False] by (cases "trim_runes rs") auto
  moreover have "dropWhile IsSpace (rev (trim_runes rs)) = rev (trim_runes rs)"
    using trim_runes_last[OF False] False by (cases "trim_runes rs" rule: rev_cases) auto
  ultimately show ?thesis by (simp add: trim_runes_def[of "trim_runes rs"])
qed

lemma TrimSpace_Nil [simp]: "TrimSpace [] = []"
  by (simp add: TrimSpace_def trim_runes_def)

end
