(* ===== verification/Contract_Message.thy ===== *)
theory Contract_Message
  imports Go_Runes
begin

section \<open>Messages, targets and scopes\<close>

text \<open>
  \<^verbatim>\<open>src/contract/20-message.go\<close> and \<^verbatim>\<open>40-source.go\<close>: the inbound event every component
  exchanges, the content predicates of an attachment, and the grammar of the routing scope with its
  two inverses, \<^verbatim>\<open>TargetForScope\<close> here and \<^verbatim>\<open>targetFromScope\<close> of
  \<^verbatim>\<open>src/leaf/session/30-arbiter.go\<close>.
\<close>

abbreviation SourceNameInternal :: string where
  "SourceNameInternal \<equiv> ''internal''"

abbreviation ChatDM :: string where
  "ChatDM \<equiv> ''dm''"

abbreviation ChatGroup :: string where
  "ChatGroup \<equiv> ''group''"

record attachment =
  at_Kind :: string
  at_MIME :: string
  at_FileName :: string
  at_Size :: int
  at_LocalPath :: string
  at_Path :: string
  at_FromReply :: bool
  at_Transcribed :: bool

definition zero_attachment :: attachment where
  "zero_attachment = \<lparr> at_Kind = [], at_MIME = [], at_FileName = [], at_Size = 0, at_LocalPath = [],
     at_Path = [], at_FromReply = False, at_Transcribed = False \<rparr>"

record dispatch_meta =
  dm_CallerSessionID :: string
  dm_ForceNewSession :: bool
  dm_NoReply :: bool

record message_event =
  ev_Source :: string
  ev_ChatType :: string
  ev_ChatID :: string
  ev_ThreadID :: string
  ev_MessageID :: string
  ev_ReplyToID :: string
  ev_ReplyToBot :: bool
  ev_ReplyRefs :: "string list"
  ev_DMReplyRouting :: bool
  ev_ReplyToText :: string
  ev_ReplyToUser :: string
  ev_UserID :: string
  ev_UserName :: string
  ev_StableUID :: string
  ev_IsAdmin :: bool
  ev_Onboarding :: bool
  ev_Lang :: string
  ev_Text :: string
  ev_Attachments :: "attachment list"
  ev_ReceivedAt :: gtime
  ev_MediaGroupID :: string
  ev_Dispatch :: "dispatch_meta option"

definition zero_event :: message_event where
  "zero_event = \<lparr> ev_Source = [], ev_ChatType = [], ev_ChatID = [], ev_ThreadID = [], ev_MessageID = [],
     ev_ReplyToID = [], ev_ReplyToBot = False, ev_ReplyRefs = [], ev_DMReplyRouting = False,
     ev_ReplyToText = [], ev_ReplyToUser = [], ev_UserID = [], ev_UserName = [], ev_StableUID = [],
     ev_IsAdmin = False, ev_Onboarding = False, ev_Lang = [], ev_Text = [], ev_Attachments = [],
     ev_ReceivedAt = 0, ev_MediaGroupID = [], ev_Dispatch = None \<rparr>"

record target =
  tg_Source :: string
  tg_ChatID :: string
  tg_ThreadID :: string
  tg_ReplyToID :: string

definition no_target :: target where
  "no_target = \<lparr> tg_Source = [], tg_ChatID = [], tg_ThreadID = [], tg_ReplyToID = [] \<rparr>"

text \<open>The placeholder text of a message without caption, in UTF-8.\<close>

definition NoCaptionStandIn :: string where
  "NoCaptionStandIn =
    [CHR 0xEF, CHR 0xBC, CHR 0x88, CHR 0xE7, CHR 0x94, CHR 0xA8, CHR 0xE6, CHR 0x88, CHR 0xB7,
     CHR 0xE5, CHR 0x8F, CHR 0x91, CHR 0xE9, CHR 0x80, CHR 0x81, CHR 0xE4, CHR 0xBA, CHR 0x86,
     CHR 0xE9, CHR 0x99, CHR 0x84, CHR 0xE4, CHR 0xBB, CHR 0xB6, CHR 0xEF, CHR 0xBC, CHR 0x8C,
     CHR 0xE6, CHR 0x9C, CHR 0xAA, CHR 0xE9, CHR 0x99, CHR 0x84, CHR 0xE6, CHR 0x96, CHR 0x87,
     CHR 0xE5, CHR 0xAD, CHR 0x97, CHR 0xE8, CHR 0xAF, CHR 0xB4, CHR 0xE6, CHR 0x98, CHR 0x8E,
     CHR 0xEF, CHR 0xBC, CHR 0x89]"

subsection \<open>Events and attachments\<close>

definition IsGroupChat :: "string \<Rightarrow> bool" where
  "IsGroupChat t \<longleftrightarrow> t = ChatGroup"

definition IsInternalSource :: "string \<Rightarrow> bool" where
  "IsInternalSource source \<longleftrightarrow> source = SourceNameInternal"

definition IsInternal :: "message_event \<Rightarrow> bool" where
  "IsInternal ev = IsInternalSource (ev_Source ev)"

definition FirstHumanEvent :: "message_event list \<Rightarrow> message_event option" where
  "FirstHumanEvent events = find (\<lambda>e. \<not> IsInternal e) events"

definition DispatchCaller :: "message_event \<Rightarrow> string" where
  "DispatchCaller ev = (case ev_Dispatch ev of Some d \<Rightarrow> dm_CallerSessionID d | None \<Rightarrow> [])"

definition IsImageContent :: "attachment \<Rightarrow> bool" where
  "IsImageContent a =
     (if at_Kind a = ''image'' then True
      else if at_Kind a = ''document'' \<or> at_Kind a = ''sticker'' then has_prefix (to_lower (at_MIME a)) ''image/''
      else False)"

definition IsAudioContent :: "attachment \<Rightarrow> bool" where
  "IsAudioContent a =
     (if at_Kind a = ''voice'' \<or> at_Kind a = ''audio'' then True
      else if at_Kind a = ''document'' then has_prefix (to_lower (at_MIME a)) ''audio/''
      else False)"

definition IsVideoContent :: "attachment \<Rightarrow> bool" where
  "IsVideoContent a =
     (if at_Kind a = ''video'' \<or> at_Kind a = ''animation'' then True
      else if at_Kind a = ''document'' \<or> at_Kind a = ''sticker'' then has_prefix (to_lower (at_MIME a)) ''video/''
      else False)"

definition CleanFileName :: "string \<Rightarrow> string" where
  "CleanFileName s =
     (let s1 = TrimSpace (concat (map (\<lambda>r. if IsControl r then '' '' else r) (to_runes s)));
          r = to_runes s1
      in if 80 < length r then TrimSpace (concat (take 80 r)) else s1)"

definition platformKind :: "string \<Rightarrow> string" where
  "platformKind source =
     (if has_prefix source ''telegram'' then ''telegram''
      else if source = ''email'' \<or> has_prefix source ''email-'' then ''email''
      else if has_prefix source ''feishu'' then ''feishu''
      else if has_prefix source ''discord'' then ''discord''
      else source)"

definition AccountHandle :: "message_event \<Rightarrow> string \<times> string" where
  "AccountHandle ev =
     (platformKind (ev_Source ev), if ev_StableUID ev \<noteq> [] then ev_StableUID ev else ev_UserID ev)"

definition ReplyTarget :: "message_event \<Rightarrow> target" where
  "ReplyTarget e =
     \<lparr> tg_Source = ev_Source e, tg_ChatID = ev_ChatID e, tg_ThreadID = ev_ThreadID e, tg_ReplyToID = [] \<rparr>"

subsection \<open>The scope grammar\<close>

definition ScopeFor :: "string \<Rightarrow> string \<Rightarrow> string \<Rightarrow> string \<Rightarrow> string" where
  "ScopeFor source chatType chatID threadID =
     (if source = SourceNameInternal then chatID
      else if chatType = ChatDM then
        source @ '':dm:'' @ chatID @ (if threadID \<noteq> [] then ''#'' @ threadID else [])
      else source @ '':group:'' @ chatID)"

definition RoutingScope :: "message_event \<Rightarrow> string" where
  "RoutingScope e = ScopeFor (ev_Source e) (ev_ChatType e) (ev_ChatID e) (ev_ThreadID e)"

text \<open>\<^verbatim>\<open>strings.Cut\<close> at a one-byte separator: what is before it, what is after it (empty without
  the separator) and whether it was found.\<close>

definition cut_byte :: "char \<Rightarrow> string \<Rightarrow> string \<times> string \<times> bool" where
  "cut_byte c s = (takeWhile (\<lambda>x. x \<noteq> c) s, drop 1 (dropWhile (\<lambda>x. x \<noteq> c) s), c \<in> set s)"

definition SplitMemberSubScope :: "string \<Rightarrow> (string \<times> string) option" where
  "SplitMemberSubScope scope =
     (case cut_byte (CHR ''#'') scope of
        (base, member, found) \<Rightarrow>
          if found \<and> str_contains base '':group:'' then Some (base, member) else None)"

definition TargetForScope :: "string \<Rightarrow> target option" where
  "TargetForScope scope0 =
     (let scope = (case SplitMemberSubScope scope0 of Some (base, _) \<Rightarrow> base | None \<Rightarrow> scope0)
      in case cut_byte (CHR '':'') scope of
           (source, rest, found) \<Rightarrow>
             if \<not> found \<or> source = [] \<or> source = SourceNameInternal then None
             else if has_prefix rest ''dm:'' then
               (case cut_byte (CHR ''#'') (drop 3 rest) of
                  (chatID, threadID, _) \<Rightarrow>
                    if chatID = [] then None
                    else Some \<lparr> tg_Source = source, tg_ChatID = chatID, tg_ThreadID = threadID, tg_ReplyToID = [] \<rparr>)
             else if has_prefix rest ''group:'' then
               (let chatID = drop 6 rest
                in if chatID = [] then None
                   else Some \<lparr> tg_Source = source, tg_ChatID = chatID, tg_ThreadID = [], tg_ReplyToID = [] \<rparr>)
             else None)"

text \<open>The arbiter's own inverse, for the scope of a session of a known source.\<close>

definition targetFromScope :: "string \<Rightarrow> string \<Rightarrow> target option" where
  "targetFromScope source scope =
     (let dm = source @ '':dm:''; grp = source @ '':group:''
      in if has_prefix scope dm then
           (case cut_byte (CHR ''#'') (drop (length dm) scope) of
              (chatID, thread, _) \<Rightarrow>
                Some \<lparr> tg_Source = source, tg_ChatID = chatID, tg_ThreadID = thread, tg_ReplyToID = [] \<rparr>)
         else if has_prefix scope grp then
           Some \<lparr> tg_Source = source,
                  tg_ChatID = (case SplitMemberSubScope scope of
                                 Some (base, _) \<Rightarrow> drop (length grp) base
                               | None \<Rightarrow> drop (length grp) scope),
                  tg_ThreadID = [], tg_ReplyToID = [] \<rparr>
         else None)"

subsection \<open>Cutting and containing\<close>

lemma cut_byte_sep: "c \<notin> set a \<Longrightarrow> cut_byte c (a @ c # b) = (a, b, True)"
  by (simp add: cut_byte_def takeWhile_append2 dropWhile_append2) (induction a, auto)

lemma cut_byte_none: "c \<notin> set a \<Longrightarrow> cut_byte c a = (a, [], False)"
proof -
  assume "c \<notin> set a"
  then have "\<forall>x \<in> set a. x \<noteq> c" by auto
  then have eqs: "takeWhile (\<lambda>x. x \<noteq> c) a = a" "dropWhile (\<lambda>x. x \<noteq> c) a = []"
    by (simp_all add: takeWhile_eq_all_conv dropWhile_eq_Nil_conv)
  show ?thesis unfolding cut_byte_def eqs using \<open>c \<notin> set a\<close> by simp
qed

lemma has_prefix_drop: "has_prefix s p \<Longrightarrow> s = p @ drop (length p) s"
  by (auto simp: has_prefix_iff prefix_def)

lemma has_prefix_append_same [simp]: "has_prefix (a @ s) (a @ p) \<longleftrightarrow> has_prefix s p"
  by (simp add: has_prefix_iff)

lemma str_contains_after:
  assumes "x \<notin> set a"
  shows "str_contains (a @ s) (x # p) \<longleftrightarrow> str_contains s (x # p)"
proof
  assume "str_contains (a @ s) (x # p)"
  then obtain u v where eq: "a @ s = u @ (x # p) @ v" by (auto simp: str_contains_sublist sublist_def)
  then obtain w where "u = a @ w"
    using assms by (auto simp: append_eq_append_conv2 append_eq_Cons_conv Cons_eq_append_conv)
  with eq show "str_contains s (x # p)" by (auto simp: str_contains_sublist sublist_def)
qed (auto simp: str_contains_sublist sublist_append)

subsection \<open>The inverses recover the chat\<close>

text \<open>A source name the grammar can carry. The configured names are of this form.\<close>

definition plain_source :: "string \<Rightarrow> bool" where
  "plain_source src \<longleftrightarrow>
     src \<noteq> [] \<and> src \<noteq> SourceNameInternal \<and> CHR '':'' \<notin> set src \<and> CHR ''#'' \<notin> set src"

text \<open>A chat id the grammar can carry: no member separator, and nothing that reads as the group
  marker behind the marker of a direct chat.\<close>

definition plain_chat :: "string \<Rightarrow> bool" where
  "plain_chat chat \<longleftrightarrow>
     chat \<noteq> [] \<and> CHR ''#'' \<notin> set chat \<and> \<not> str_contains (CHR '':'' # chat) '':group:''"

definition chat_target :: "string \<Rightarrow> string \<Rightarrow> string \<Rightarrow> string \<Rightarrow> target" where
  "chat_target src chatType chat thr =
     \<lparr> tg_Source = src, tg_ChatID = chat, tg_ThreadID = (if chatType = ChatDM then thr else []),
       tg_ReplyToID = [] \<rparr>"

lemma split_member_group:
  assumes "plain_source src" and "CHR ''#'' \<notin> set chat"
  shows "SplitMemberSubScope (src @ '':group:'' @ chat @ ''#'' @ m) = Some (src @ '':group:'' @ chat, m)"
proof -
  have "cut_byte (CHR ''#'') ((src @ '':group:'' @ chat) @ CHR ''#'' # m) = (src @ '':group:'' @ chat, m, True)"
    using assms by (intro cut_byte_sep) (auto simp: plain_source_def)
  moreover have "str_contains (src @ '':group:'' @ chat) '':group:''"
    unfolding str_contains_sublist by (rule sublist_appendI)
  ultimately show ?thesis by (simp add: SplitMemberSubScope_def)
qed

lemma split_member_plain:
  assumes "CHR ''#'' \<notin> set scope"
  shows "SplitMemberSubScope scope = None"
  using cut_byte_none[OF assms] by (simp add: SplitMemberSubScope_def)

lemma split_member_dm:
  assumes src: "plain_source src" and chat: "plain_chat chat"
  shows "SplitMemberSubScope (src @ '':dm:'' @ chat @ ''#'' @ thr) = None"
proof -
  have "cut_byte (CHR ''#'') ((src @ '':dm:'' @ chat) @ CHR ''#'' # thr) = (src @ '':dm:'' @ chat, thr, True)"
    using src chat by (intro cut_byte_sep) (auto simp: plain_source_def plain_chat_def)
  moreover have "\<not> str_contains (src @ '':dm:'' @ chat) '':group:''"
  proof -
    have "str_contains (src @ '':dm:'' @ chat) '':group:'' \<longleftrightarrow> str_contains ('':dm:'' @ chat) '':group:''"
      using src by (intro str_contains_after) (simp add: plain_source_def)
    also have "\<dots> \<longleftrightarrow> str_contains (''dm'' @ (CHR '':'' # chat)) '':group:''"
      by (simp add: str_contains_def)
    also have "\<dots> \<longleftrightarrow> str_contains (CHR '':'' # chat) '':group:''"
      by (intro str_contains_after) simp
    finally show ?thesis using chat by (simp add: plain_chat_def)
  qed
  ultimately show ?thesis by (simp add: SplitMemberSubScope_def)
qed

lemma target_for_body:
  assumes src: "plain_source src" and none: "SplitMemberSubScope (src @ CHR '':'' # rest) = None"
  shows "TargetForScope (src @ CHR '':'' # rest) =
     (if has_prefix rest ''dm:'' then
        (case cut_byte (CHR ''#'') (drop 3 rest) of
           (chatID, threadID, _) \<Rightarrow>
             if chatID = [] then None
             else Some \<lparr> tg_Source = src, tg_ChatID = chatID, tg_ThreadID = threadID, tg_ReplyToID = [] \<rparr>)
      else if has_prefix rest ''group:'' then
        (if drop 6 rest = [] then None
         else Some \<lparr> tg_Source = src, tg_ChatID = drop 6 rest, tg_ThreadID = [], tg_ReplyToID = [] \<rparr>)
      else None)"
proof -
  have "cut_byte (CHR '':'') (src @ CHR '':'' # rest) = (src, rest, True)"
    using src by (intro cut_byte_sep) (simp add: plain_source_def)
  then show ?thesis using src none by (simp add: TargetForScope_def Let_def plain_source_def)
qed

lemma target_for_dm:
  assumes "plain_source src" and "plain_chat chat"
  shows "TargetForScope (ScopeFor src ChatDM chat thr) = Some (chat_target src ChatDM chat thr)"
proof (cases "thr = []")
  case True
  have "SplitMemberSubScope (src @ CHR '':'' # ''dm:'' @ chat) = None"
    using assms by (intro split_member_plain) (auto simp: plain_source_def plain_chat_def)
  from target_for_body[OF assms(1) this] show ?thesis
    using assms cut_byte_none[of "CHR ''#''" chat] True
    by (simp add: ScopeFor_def plain_source_def plain_chat_def chat_target_def)
next
  case False
  have "SplitMemberSubScope (src @ CHR '':'' # ''dm:'' @ chat @ ''#'' @ thr) = None"
    using split_member_dm[OF assms, of thr] by simp
  from target_for_body[OF assms(1) this] show ?thesis
    using assms cut_byte_sep[of "CHR ''#''" chat thr] False
    by (simp add: ScopeFor_def plain_source_def plain_chat_def chat_target_def)
qed

lemma target_for_group_body:
  assumes "plain_source src" and "chat \<noteq> []" and "CHR ''#'' \<notin> set chat"
  shows "TargetForScope (src @ '':group:'' @ chat) = Some (chat_target src ChatGroup chat thr)"
proof -
  have "SplitMemberSubScope (src @ CHR '':'' # ''group:'' @ chat) = None"
    using assms by (intro split_member_plain) (auto simp: plain_source_def)
  from target_for_body[OF assms(1) this] show ?thesis using assms by (simp add: chat_target_def)
qed

lemma target_for_member:
  assumes "plain_source src" and "chat \<noteq> []" and "CHR ''#'' \<notin> set chat"
  shows "TargetForScope (src @ '':group:'' @ chat @ ''#'' @ m) = TargetForScope (src @ '':group:'' @ chat)"
proof -
  have "SplitMemberSubScope (src @ '':group:'' @ chat) = None"
    using assms by (intro split_member_plain) (auto simp: plain_source_def)
  then show ?thesis
    unfolding TargetForScope_def by (simp only: split_member_group[OF assms(1,3)] option.case prod.case)
qed

text \<open>The arbiter's parser on its own source.\<close>

lemma target_from_dm:
  assumes "plain_source src" and "CHR ''#'' \<notin> set chat"
  shows "targetFromScope src (ScopeFor src ChatDM chat thr) = Some (chat_target src ChatDM chat thr)"
  using assms cut_byte_none[of "CHR ''#''" chat] cut_byte_sep[of "CHR ''#''" chat thr]
  by (cases "thr = []") (simp_all add: targetFromScope_def ScopeFor_def plain_source_def chat_target_def Let_def)

lemma target_from_group:
  assumes "plain_source src" and "CHR ''#'' \<notin> set chat" and "m = [] \<or> hd m = CHR ''#''"
  shows "targetFromScope src (src @ '':group:'' @ chat @ m) = Some (chat_target src ChatGroup chat thr)"
proof (cases m)
  case Nil
  have "SplitMemberSubScope (src @ '':group:'' @ chat) = None"
    using assms by (intro split_member_plain) (auto simp: plain_source_def)
  then show ?thesis using Nil by (simp add: targetFromScope_def chat_target_def Let_def)
next
  case (Cons h n)
  then have "m = ''#'' @ n" using assms(3) by simp
  then show ?thesis using split_member_group[OF assms(1,2), of n]
    by (simp add: targetFromScope_def chat_target_def Let_def)
qed

text \<open>C39. The scope grammar is invertible on the chats the sources produce: both parsers, the shared
  one and the arbiter's own, recover source, chat and (for a direct chat) thread from the scope of an
  event, a group scope loses its thread, and a member sub-scope leads back to its group chat; so a
  reply to a session resumed from inside reaches the chat the session belongs to.\<close>

theorem scope_roundtrip:
  assumes "plain_source src" and "plain_chat chat"
  shows "TargetForScope (ScopeFor src chatType chat thr) = Some (chat_target src chatType chat thr)
    \<and> targetFromScope src (ScopeFor src chatType chat thr) = Some (chat_target src chatType chat thr)
    \<and> TargetForScope (ScopeFor src ChatGroup chat thr @ ''#'' @ m) = Some (chat_target src ChatGroup chat thr)
    \<and> targetFromScope src (ScopeFor src ChatGroup chat thr @ ''#'' @ m) = Some (chat_target src ChatGroup chat thr)"
proof -
  have ne: "chat \<noteq> []" and hash: "CHR ''#'' \<notin> set chat" using assms(2) by (auto simp: plain_chat_def)
  have grp: "ScopeFor src ct chat thr = src @ '':group:'' @ chat" if "ct \<noteq> ChatDM" for ct
    using that assms(1) by (simp add: ScopeFor_def plain_source_def)
  have tgt: "chat_target src ct chat thr = chat_target src ChatGroup chat thr" if "ct \<noteq> ChatDM" for ct
    using that by (simp add: chat_target_def)
  have "TargetForScope (ScopeFor src chatType chat thr) = Some (chat_target src chatType chat thr)"
  proof (cases "chatType = ChatDM")
    case True
    then show ?thesis using target_for_dm[OF assms] by simp
  next
    case False
    show ?thesis unfolding grp[OF False] tgt[OF False] by (rule target_for_group_body[OF assms(1) ne hash])
  qed
  moreover have "targetFromScope src (ScopeFor src chatType chat thr) = Some (chat_target src chatType chat thr)"
  proof (cases "chatType = ChatDM")
    case True
    then show ?thesis using target_from_dm[OF assms(1) hash] by simp
  next
    case False
    show ?thesis unfolding grp[OF False] tgt[OF False]
      using target_from_group[OF assms(1) hash, of "[]" thr] by simp
  qed
  moreover have "TargetForScope (ScopeFor src ChatGroup chat thr @ ''#'' @ m) = Some (chat_target src ChatGroup chat thr)"
    using target_for_member[OF assms(1) ne hash] target_for_group_body[OF assms(1) ne hash] grp[of ChatGroup] by simp
  moreover have "targetFromScope src (ScopeFor src ChatGroup chat thr @ ''#'' @ m) = Some (chat_target src ChatGroup chat thr)"
    using target_from_group[OF assms(1) hash, of "''#'' @ m"] grp[of ChatGroup] by simp
  ultimately show ?thesis by blast
qed

theorem scope_roundtrip_witness:
  "TargetForScope ''email-work:dm:ann@x.org#alias'' = Some (chat_target ''email-work'' ChatDM ''ann@x.org'' ''alias'')
   \<and> targetFromScope ''telegram'' ''telegram:group:-100#sales'' = Some (chat_target ''telegram'' ChatGroup ''-100'' ''7'')"
proof -
  have "plain_source ''email-work''" "plain_chat ''ann@x.org''" "plain_source ''telegram''" "plain_chat ''-100''"
    by (simp_all add: plain_source_def plain_chat_def str_contains_def)
  from scope_roundtrip[OF this(1,2), of ChatDM "''alias''"] scope_roundtrip[OF this(3,4), of ChatGroup "''7''" "''sales''"]
  show ?thesis by (simp add: ScopeFor_def)
qed

text \<open>On a scope without chat id the two parsers differ: the shared one refuses it, the arbiter's own
  returns a target with an empty chat.\<close>

lemma parsers_differ_on_empty_chat:
  "TargetForScope ''tg:dm:'' = None
   \<and> targetFromScope ''tg'' ''tg:dm:'' = Some (chat_target ''tg'' ChatDM [] [])"
  by (simp add: TargetForScope_def SplitMemberSubScope_def targetFromScope_def cut_byte_def chat_target_def Let_def)

text \<open>Different chats never share a scope, hence never share sessions: the scopes of two external
  chats are equal only for the same source, kind, chat and, for direct chats, thread.\<close>

theorem scopes_separate_chats:
  assumes "plain_source src" "plain_source src'" "CHR ''#'' \<notin> set chat" "CHR ''#'' \<notin> set chat'"
    and "ScopeFor src ct chat thr = ScopeFor src' ct' chat' thr'"
  shows "src = src' \<and> (ct = ChatDM \<longleftrightarrow> ct' = ChatDM) \<and> chat = chat' \<and> (ct = ChatDM \<longrightarrow> thr = thr')"
proof -
  define body where "body t c h = (if t = ChatDM then ''dm:'' @ c @ (if h \<noteq> [] then ''#'' @ h else []) else ''group:'' @ c)"
    for t c h :: string
  have shape: "ScopeFor s t c h = s @ CHR '':'' # body t c h" if "plain_source s" for s t c h
    using that by (simp add: ScopeFor_def body_def plain_source_def)
  have "src = src' \<and> body ct chat thr = body ct' chat' thr'"
    using assms(5) shape[OF assms(1), of ct chat thr] shape[OF assms(2), of ct' chat' thr']
      append_sep_inject[of "CHR '':''" src src' "body ct chat thr" "body ct' chat' thr'"] assms(1,2)
    by (simp add: plain_source_def)
  moreover from this have dm: "ct = ChatDM \<longleftrightarrow> ct' = ChatDM" by (auto simp: body_def split: if_splits)
  moreover have "chat = chat' \<and> (ct = ChatDM \<longrightarrow> thr = thr')"
    using calculation(1) dm assms(3,4) append_sep_inject[OF assms(3,4), of thr thr']
    by (auto simp: body_def split: if_splits)
  ultimately show ?thesis by blast
qed

theorem scopes_separate_chats_witness:
  "ScopeFor ''telegram'' ChatDM ''1'' [] \<noteq> ScopeFor ''telegram'' ChatGroup ''1'' []"
  using scopes_separate_chats[of "''telegram''" "''telegram''" "''1''" "''1''" ChatDM "[]" ChatGroup "[]"]
  by (auto simp: plain_source_def)

end
