(* ===== verification/Arrangement.thy ===== *)
theory Arrangement
  imports Arrangement_Store Contract_Message
begin

section \<open>Arrangements: work items through role buckets (leaf/arrangement)\<close>

text \<open>
  An arrangement is an ordered list of role buckets; its work items are pulled by members of the
  bucket's role, worked on and submitted, which moves them to the next bucket, back, or aside. The
  handlers act on the tables of \<open>Arrangement_Store\<close> by single statements; \<open>aw_others\<close> is what other
  processes do to the tables between two statements of a handler, so each theorem about a handler
  holds under every interleaving. The organisation, the running turns and the gateway are read
  through their interfaces, which the record \<open>arr_world\<close> carries together with the JSON decoder, the
  clock and the faults of the database.
\<close>

subsection \<open>The specification (10-spec.go)\<close>

record bucket =
  bk_Role :: string
  bk_Content :: string

datatype spec_error = SpecEmpty | SpecNotJSON | SpecNoBuckets | SpecNoRole nat | SpecDuplicateRole string

fun check_buckets :: "string list \<Rightarrow> nat \<Rightarrow> bucket list \<Rightarrow> spec_error option" where
  "check_buckets seen n [] = None"
| "check_buckets seen n (b # bs) =
     (if TrimSpace (bk_Role b) = [] then Some (SpecNoRole (n + 1))
      else if bk_Role b \<in> set seen then Some (SpecDuplicateRole (bk_Role b))
      else check_buckets (bk_Role b # seen) (n + 1) bs)"

definition parseSpec :: "(string \<Rightarrow> bucket list option) \<Rightarrow> string \<Rightarrow> spec_error + bucket list" where
  "parseSpec unmarshal raw =
     (if TrimSpace raw = [] then Inl SpecEmpty
      else case unmarshal raw of
        None \<Rightarrow> Inl SpecNotJSON
      | Some bs \<Rightarrow>
          if bs = [] then Inl SpecNoBuckets
          else (case check_buckets [] 0 bs of Some e \<Rightarrow> Inl e | None \<Rightarrow> Inr bs))"

definition entryRole :: "bucket list \<Rightarrow> string" where
  "entryRole bs = (case bs of [] \<Rightarrow> [] | b # _ \<Rightarrow> bk_Role b)"

fun indexOf :: "bucket list \<Rightarrow> string \<Rightarrow> nat option" where
  "indexOf [] role = None"
| "indexOf (b # bs) role = (if bk_Role b = role then Some 0 else map_option Suc (indexOf bs role))"

definition nextRole :: "bucket list \<Rightarrow> string \<Rightarrow> string" where
  "nextRole bs role =
     (case indexOf bs role of
        None \<Rightarrow> []
      | Some i \<Rightarrow> if length bs \<le> i + 1 then [] else bk_Role (bs ! (i + 1)))"

definition prevRole :: "bucket list \<Rightarrow> string \<Rightarrow> string" where
  "prevRole bs role =
     (case indexOf bs role of
        None \<Rightarrow> []
      | Some i \<Rightarrow> if i = 0 then [] else bk_Role (bs ! (i - 1)))"

definition contentFor :: "bucket list \<Rightarrow> string \<Rightarrow> string" where
  "contentFor bs role = (case indexOf bs role of None \<Rightarrow> [] | Some i \<Rightarrow> bk_Content (bs ! i))"

definition spec_roles :: "bucket list \<Rightarrow> string list" where
  "spec_roles bs = map bk_Role bs"

subsection \<open>The surroundings of a handler\<close>

record agora_view =
  ag_CompanyActive :: "string \<Rightarrow> bool"
  ag_MemberScopesForRole :: "string \<Rightarrow> string \<Rightarrow> string list"
  ag_RoleProjection :: "string \<Rightarrow> string \<Rightarrow> string list"
  ag_CompanyBridgeScope :: "string \<Rightarrow> string option"

text \<open>The gateway may be absent, its internal source no emitter, or an emitter that takes or refuses an event.\<close>

datatype gateway_view = NoGateway | NoEmitter | Emitter "message_event \<Rightarrow> bool"

datatype store_call =
    CInsertDef | CInsertItem | CRollbackItems | CRollbackDef | CGetDef | CGetItem | CCountRunning | CCountLive | CComplete
  | CCancelDef | CCancelLive | CRoute | CStale | CRequeue string | CListDefs | CQueuedBuckets | CMarkUnmet string string
  | CUnmetBuckets | CRequeueUnmet string string | CCountQueued | CCloseStalled | CPruneItems | CPruneDefs

record arr_world =
  aw_agora :: "agora_view option"
  aw_running :: "(string \<Rightarrow> nat) option"
  aw_gateway :: gateway_view
  aw_unmarshal :: "string \<Rightarrow> bucket list option"
  aw_db :: "store_call \<Rightarrow> db_fault"
  aw_claim_db :: "nat \<Rightarrow> db_fault \<times> db_fault \<times> db_fault"
  aw_others :: "nat \<Rightarrow> arr_tables \<Rightarrow> arr_tables"
  aw_claim_others :: "nat \<Rightarrow> arr_tables \<Rightarrow> arr_tables"
  aw_now :: int
  aw_clock :: gtime
  aw_newID :: "string \<Rightarrow> string"
  aw_FormatInt :: "int \<Rightarrow> string"

datatype arr_error =
    ErrNoCompany | ErrSpec spec_error | ErrNoAgora | ErrRoleCannot string | ErrCap nat | ErrDB | ErrKickoff
  | ErrNoArrangement string | ErrNotStarted string | ErrNoStage string | ErrNoItem string | ErrNotYours string
  | ErrReservedStatus string | ErrStateChanged

definition roleCanProcess :: "arr_world \<Rightarrow> string \<Rightarrow> string \<Rightarrow> arr_error + bool" where
  "roleCanProcess w company role =
     (case aw_agora w of
        None \<Rightarrow> Inl ErrNoAgora
      | Some ag \<Rightarrow>
          Inr (''tool:use:arrangement_pull'' \<in> set (ag_RoleProjection ag company role)
             \<and> ''tool:use:arrangement_submit'' \<in> set (ag_RoleProjection ag company role)))"

fun roles_can_process :: "arr_world \<Rightarrow> string \<Rightarrow> bucket list \<Rightarrow> arr_error option" where
  "roles_can_process w company [] = None"
| "roles_can_process w company (b # bs) =
     (case roleCanProcess w company (bk_Role b) of
        Inl e \<Rightarrow> Some e
      | Inr ok \<Rightarrow> if ok then roles_can_process w company bs else Some (ErrRoleCannot (bk_Role b)))"

subsection \<open>Define and Inject (40-impl.go)\<close>

record arrange_define =
  df_CallerScope :: string
  df_Company :: string
  df_Spec :: string

text \<open>An insert fails when the database does or when the key is taken.\<close>

definition inserted :: "bool option \<Rightarrow> bool" where
  "inserted r \<longleftrightarrow> r = Some True"

definition Define :: "int \<Rightarrow> arr_world \<Rightarrow> arrange_define \<Rightarrow> arr_tables \<Rightarrow> (arr_error + string) \<times> arr_tables" where
  "Define cap w req t =
     (if TrimSpace (df_Company req) = [] then (Inl ErrNoCompany, t)
      else case parseSpec (aw_unmarshal w) (df_Spec req) of
        Inl e \<Rightarrow> (Inl (ErrSpec e), t)
      | Inr sp \<Rightarrow>
        (case roles_can_process w (df_Company req) sp of
           Some e \<Rightarrow> (Inl e, t)
         | None \<Rightarrow>
           (case db_read (aw_db w CCountRunning) (CountRunningDefs (df_Company req)) t of
              None \<Rightarrow> (Inl ErrDB, t)
            | Some n \<Rightarrow>
              if cap \<le> int n then (Inl (ErrCap n), t)
              else
                (let id' = aw_newID w ''arr'' in
                 case db_exec (aw_db w CInsertDef)
                        (InsertDef id' (df_Company req) (df_CallerScope req) ''started'' (df_Spec req) (aw_now w)) (aw_others w 0 t) of
                   (r, t1) \<Rightarrow>
                     if \<not> inserted r then (Inl ErrDB, t1)
                     else
                       (case db_exec (aw_db w CInsertItem)
                               (InsertItem (aw_newID w ''ari'') id' (entryRole sp) 0 [] (aw_now w)) (aw_others w 1 t1) of
                          (r', t2) \<Rightarrow>
                            if inserted r' then (Inr id', t2)
                            else (Inl ErrKickoff, snd (DeleteDef (aw_db w CRollbackItems) (aw_db w CRollbackDef) id' t2)))))))"

record arrange_inject =
  ij_ArrangementID :: string
  ij_Stage :: string
  ij_Payload :: string
  ij_Priority :: int

definition found :: "'a option option \<Rightarrow> 'a option" where
  "found r = (case r of Some (Some x) \<Rightarrow> Some x | _ \<Rightarrow> None)"

definition inject_stage :: "bucket list \<Rightarrow> string \<Rightarrow> arr_error + string" where
  "inject_stage sp stage =
     (let s = TrimSpace stage
      in if s = [] then Inr (entryRole sp) else if indexOf sp s = None then Inl (ErrNoStage s) else Inr s)"

definition Inject :: "arr_world \<Rightarrow> arrange_inject \<Rightarrow> arr_tables \<Rightarrow> (arr_error + string) \<times> arr_tables" where
  "Inject w req t =
     (case found (db_read (aw_db w CGetDef) (GetDef (ij_ArrangementID req)) t) of
        None \<Rightarrow> (Inl (ErrNoArrangement (ij_ArrangementID req)), t)
      | Some d \<Rightarrow>
        if ad_Status d \<noteq> ''started'' then (Inl (ErrNotStarted (ad_Status d)), t)
        else case parseSpec (aw_unmarshal w) (ad_Spec d) of
          Inl e \<Rightarrow> (Inl (ErrSpec e), t)
        | Inr sp \<Rightarrow>
          (case inject_stage sp (ij_Stage req) of
             Inl e \<Rightarrow> (Inl e, t)
           | Inr stage \<Rightarrow>
             (case roleCanProcess w (ad_Company d) stage of
                Inl e \<Rightarrow> (Inl e, t)
              | Inr ok \<Rightarrow>
                if \<not> ok then (Inl (ErrRoleCannot stage), t)
                else
                  (let id' = aw_newID w ''ari'' in
                   case db_exec (aw_db w CInsertItem)
                          (InsertItem id' (ad_ID d) stage (ij_Priority req) (ij_Payload req) (aw_now w)) (aw_others w 0 t) of
                     (r, t1) \<Rightarrow> (if inserted r then Inr id' else Inl ErrDB, t1)))))"

subsection \<open>Pull\<close>

record arrange_pull =
  pl_CallerScope :: string
  pl_ArrangementID :: string
  pl_Role :: string

record arrange_pulled =
  pd_ItemID :: string
  pd_Content :: string
  pd_Payload :: string

text \<open>The result is an error, no item, or the item that was claimed.\<close>

definition Pull :: "arr_world \<Rightarrow> arrange_pull \<Rightarrow> arr_tables \<Rightarrow> (arr_error + arrange_pulled option) \<times> arr_tables" where
  "Pull w req t =
     (case found (db_read (aw_db w CGetDef) (GetDef (pl_ArrangementID req)) t) of
        None \<Rightarrow> (Inl (ErrNoArrangement (pl_ArrangementID req)), t)
      | Some d \<Rightarrow>
        if ad_Status d \<noteq> ''started'' then (Inr None, t)
        else case parseSpec (aw_unmarshal w) (ad_Spec d) of
          Inl e \<Rightarrow> (Inl (ErrSpec e), t)
        | Inr sp \<Rightarrow>
          if indexOf sp (pl_Role req) = None then (Inl (ErrNoStage (pl_Role req)), t)
          else case aw_agora w of
            None \<Rightarrow> (Inr None, t)
          | Some ag \<Rightarrow>
            if \<not> ag_CompanyActive ag (ad_Company d) then (Inr None, t)
            else if pl_CallerScope req \<notin> set (ag_MemberScopesForRole ag (ad_Company d) (pl_Role req)) then (Inr None, t)
            else
              (case ClaimTop (aw_claim_others w) (aw_claim_db w) (ad_ID d) (pl_Role req) (pl_CallerScope req) (aw_now w)
                      (aw_others w 0 t) of
                 (DbErr, t1) \<Rightarrow> (Inl ErrDB, t1)
               | (DbNone, t1) \<Rightarrow> (Inr None, t1)
               | (DbSome it, t1) \<Rightarrow>
                   (Inr (Some \<lparr>pd_ItemID = wi_ID it, pd_Content = contentFor sp (pl_Role req), pd_Payload = wi_Payload it\<rparr>), t1)))"

subsection \<open>Submit and the terminal delivery\<close>

definition note_product :: string where
  "note_product =
     [CHR 0xE4, CHR 0xBA, CHR 0xA7, CHR 0xE5, CHR 0x87, CHR 0xBA]"

definition note_back :: string where
  "note_back =
     [CHR 0xE6, CHR 0x89, CHR 0x93, CHR 0xE5, CHR 0x9B, CHR 0x9E]"

definition note_park :: string where
  "note_park =
     [CHR 0xE5, CHR 0x81, CHR 0x9C, CHR 0xE6, CHR 0xB3, CHR 0x8A] @ '':''"

definition note_cancelled :: string where
  "note_cancelled =
     [CHR 0xE5, CHR 0x8F, CHR 0x96, CHR 0xE6, CHR 0xB6, CHR 0x88, CHR 0xE5, CHR 0x89, CHR 0x8D, CHR 0xE4, CHR 0xBA,
     CHR 0xA7, CHR 0xE5, CHR 0x87, CHR 0xBA]"

definition note_mid :: string where
  "note_mid =
     '' '' @ [CHR 0xC2, CHR 0xB7] @ '' ''"

definition report_head :: string where
  "report_head =
     [CHR 0xE3, CHR 0x80, CHR 0x90, CHR 0xE7, CHR 0xBC, CHR 0x96, CHR 0xE6, CHR 0x8E, CHR 0x92, CHR 0xE5, CHR 0xAE,
     CHR 0x8C, CHR 0xE6, CHR 0x88, CHR 0x90, CHR 0xE3, CHR 0x80, CHR 0x91]"

definition report_mid :: string where
  "report_mid =
     '' '' @ [CHR 0xC2, CHR 0xB7] @ '' '' @ [CHR 0xE7, CHR 0xBB, CHR 0x88, CHR 0xE7, CHR 0xAB, CHR 0xAF, CHR 0xE8,
     CHR 0xA7, CHR 0x92, CHR 0xE8, CHR 0x89, CHR 0xB2] @ '' ''"

definition hint_head :: string where
  "hint_head =
     [CHR 0x0A, CHR 0xE6, CHR 0x9C, CHR 0xAC, CHR 0xE7, CHR 0x8E, CHR 0xAF, CHR 0xE8, CHR 0x8A, CHR 0x82, CHR 0xE8,
     CHR 0xA6, CHR 0x81, CHR 0xE6, CHR 0xB1, CHR 0x82, CHR 0xEF, CHR 0xBC, CHR 0x9A]"

definition nudge_1 :: string where
  "nudge_1 =
     [CHR 0xE3, CHR 0x80, CHR 0x90, CHR 0xE4, CHR 0xBB, CHR 0xBB, CHR 0xE5, CHR 0x8A, CHR 0xA1, CHR 0xE6, CHR 0xB4,
     CHR 0xBE, CHR 0xE5, CHR 0x8F, CHR 0x91, CHR 0xE3, CHR 0x80, CHR 0x91, CHR 0xE4, CHR 0xBD, CHR 0xA0, CHR 0xE5,
     CHR 0x9C, CHR 0xA8, CHR 0xE7, CHR 0xBC, CHR 0x96, CHR 0xE6, CHR 0x8E, CHR 0x92, CHR 0xE3, CHR 0x80, CHR 0x8C]"

definition nudge_2 :: string where
  "nudge_2 =
     [CHR 0xE3, CHR 0x80, CHR 0x8D, CHR 0xE7, CHR 0x9A, CHR 0x84, CHR 0xE3, CHR 0x80, CHR 0x8C]"

definition nudge_3 :: string where
  "nudge_3 =
     [CHR 0xE3, CHR 0x80, CHR 0x8D, CHR 0xE7, CHR 0x8E, CHR 0xAF, CHR 0xE8, CHR 0x8A, CHR 0x82, CHR 0xE6, CHR 0x9C,
     CHR 0x89, CHR 0xE5, CHR 0xBE, CHR 0x85, CHR 0xE5, CHR 0xA4, CHR 0x84, CHR 0xE7, CHR 0x90, CHR 0x86, CHR 0xE4,
     CHR 0xBB, CHR 0xBB, CHR 0xE5, CHR 0x8A, CHR 0xA1, CHR 0xE3, CHR 0x80, CHR 0x82]"

definition nudge_4 :: string where
  "nudge_4 =
     [CHR 0x0A, CHR 0xE8, CHR 0xAF, CHR 0xB7, CHR 0xE8, CHR 0xB0, CHR 0x83, CHR 0xE7, CHR 0x94, CHR 0xA8] @
     '' arrangement_pull(arrangement_id='' @ [CHR 0x22]"

definition nudge_5 :: string where
  "nudge_5 =
     [CHR 0x22] @ '', role='' @ [CHR 0x22]"

definition nudge_6 :: string where
  "nudge_6 =
     [CHR 0x22] @ '') '' @ [CHR 0xE9, CHR 0xA2, CHR 0x86, CHR 0xE5, CHR 0x8F, CHR 0x96] @ '','' @ [CHR 0xE5, CHR
     0xAE, CHR 0x8C, CHR 0xE6, CHR 0x88, CHR 0x90, CHR 0xE5, CHR 0x90, CHR 0x8E, CHR 0xE7, CHR 0x94, CHR 0xA8] @
     '' arrangement_submit '' @ [CHR 0xE4, CHR 0xBA, CHR 0xA4, CHR 0xE5, CHR 0x9B, CHR 0x9E] @ ''(result=forward '' @
     [CHR 0xE9, CHR 0x80, CHR 0x9A, CHR 0xE8, CHR 0xBF, CHR 0x87] @ ''/'' @ [CHR 0xE5, CHR 0xBE, CHR 0x80, CHR 0xE4,
     CHR 0xB8, CHR 0x8B] @ '';result=back '' @ [CHR 0xE6, CHR 0x89, CHR 0x93, CHR 0xE5, CHR 0x9B, CHR 0x9E, CHR
     0xE4, CHR 0xB8, CHR 0x8A, CHR 0xE4, CHR 0xB8, CHR 0x80, CHR 0xE7, CHR 0x8E, CHR 0xAF, CHR 0xE8, CHR 0x8A, CHR
     0x82] @ '';result=park '' @ [CHR 0xE5, CHR 0x81, CHR 0x9A, CHR 0xE4, CHR 0xB8, CHR 0x8D, CHR 0xE5, CHR 0x8A,
     CHR 0xA8, CHR 0xE5, CHR 0x88, CHR 0x99, CHR 0xE5, CHR 0x81, CHR 0x9C, CHR 0xE6, CHR 0xB3, CHR 0x8A, CHR 0xE5,
     CHR 0xB9, CHR 0xB6, CHR 0xE5, CHR 0x86, CHR 0x99, CHR 0xE6, CHR 0x98, CHR 0x8E] @ '' status/reason)'' @ [CHR
     0xE3, CHR 0x80, CHR 0x82, CHR 0x0A, CHR 0xE2, CHR 0x9A, CHR 0xA0, CHR 0xEF, CHR 0xB8, CHR 0x8F] @ '' '' @ [CHR
     0xE4, CHR 0xBB, CHR 0xBB, CHR 0xE5, CHR 0x8A, CHR 0xA1, CHR 0xE5, CHR 0x8F, CHR 0xAA, CHR 0xE6, CHR 0x9C, CHR
     0x89, CHR 0xE5, CHR 0x9C, CHR 0xA8, CHR 0xE4, CHR 0xBD, CHR 0xA0, CHR 0xE8, CHR 0xB0, CHR 0x83, CHR 0xE7, CHR
     0x94, CHR 0xA8] @ '' arrangement_submit '' @ [CHR 0xE4, CHR 0xB9, CHR 0x8B, CHR 0xE5, CHR 0x90, CHR 0x8E, CHR
     0xE6, CHR 0x89, CHR 0x8D, CHR 0xE7, CHR 0xAE, CHR 0x97, CHR 0xE4, CHR 0xBA, CHR 0xA4, CHR 0xE4, CHR 0xBB, CHR
     0x98, CHR 0xE2, CHR 0x80, CHR 0x94, CHR 0xE2, CHR 0x80, CHR 0x94, CHR 0xE5, CHR 0x8D, CHR 0xB3, CHR 0xE4, CHR
     0xBD, CHR 0xBF, CHR 0xE6, CHR 0xB4, CHR 0xBB, CHR 0xE5, CHR 0x84, CHR 0xBF, CHR 0xE5, CHR 0x81, CHR 0x9A, CHR
     0xE5, CHR 0xAE, CHR 0x8C, CHR 0xE4, CHR 0xBA, CHR 0x86] @ '','' @ [CHR 0xE6, CHR 0xB2, CHR 0xA1] @ '' submit ''
     @ [CHR 0xE5, CHR 0xAE, CHR 0x83, CHR 0xE5, CHR 0xB0, CHR 0xB1, CHR 0xE4, CHR 0xB8, CHR 0x80, CHR 0xE7, CHR
     0x9B, CHR 0xB4, CHR 0xE6, CHR 0x8C, CHR 0x82, CHR 0xE5, CHR 0x9C, CHR 0xA8, CHR 0xE4, CHR 0xBD, CHR 0xA0, CHR
     0xE5, CHR 0x90, CHR 0x8D, CHR 0xE4, CHR 0xB8, CHR 0x8B, CHR 0xE3, CHR 0x80, CHR 0x81, CHR 0xE4, CHR 0xB8, CHR
     0x8D, CHR 0xE4, CHR 0xBC, CHR 0x9A, CHR 0xE5, CHR 0x89, CHR 0x8D, CHR 0xE8, CHR 0xBF, CHR 0x9B, CHR 0xE3, CHR
     0x80, CHR 0x82, CHR 0xE6, CHR 0x89, CHR 0x80, CHR 0xE4, CHR 0xBB, CHR 0xA5, CHR 0xE5, CHR 0x8A, CHR 0xA1, CHR
     0xE5, CHR 0xBF, CHR 0x85, CHR 0xE6, CHR 0x8A, CHR 0x8A] @ '' submit '' @ [CHR 0xE5, CHR 0xBD, CHR 0x93, CHR
     0xE4, CHR 0xBD, CHR 0x9C, CHR 0xE6, CHR 0x9C, CHR 0xAC, CHR 0xE8, CHR 0xBD, CHR 0xAE, CHR 0xE7, CHR 0x9A, CHR
     0x84, CHR 0xE6, CHR 0x9C, CHR 0x80, CHR 0xE5, CHR 0x90, CHR 0x8E, CHR 0xE4, CHR 0xB8, CHR 0x80, CHR 0xE6, CHR
     0xAD, CHR 0xA5, CHR 0xE3, CHR 0x80, CHR 0x82, CHR 0x0A, CHR 0xE8, CHR 0x8B, CHR 0xA5, CHR 0xE9, CHR 0xA2, CHR
     0x86, CHR 0xE5, CHR 0x8F, CHR 0x96, CHR 0xE4, CHR 0xB8, CHR 0xBA, CHR 0xE7, CHR 0xA9, CHR 0xBA] @ ''('' @ [CHR
     0xE5, CHR 0xB7, CHR 0xB2, CHR 0xE8, CHR 0xA2, CHR 0xAB, CHR 0xE5, CHR 0x90, CHR 0x8C, CHR 0xE4, CHR 0xBA, CHR
     0x8B, CHR 0xE5, CHR 0x8F, CHR 0x96, CHR 0xE8, CHR 0xB5, CHR 0xB0] @ ''),'' @ [CHR 0xE6, CHR 0x97, CHR 0xA0, CHR
     0xE9, CHR 0x9C, CHR 0x80, CHR 0xE5, CHR 0x8A, CHR 0xA8, CHR 0xE4, CHR 0xBD, CHR 0x9C, CHR 0xE3, CHR 0x80, CHR
     0x82]"

definition appendNote :: "string \<Rightarrow> string \<Rightarrow> string \<Rightarrow> string \<Rightarrow> string" where
  "appendNote payload role label txt' =
     (if TrimSpace txt' = [] then payload
      else payload @ [CHR 0x0A, CHR 0x0A] @ ''['' @ role @ note_mid @ label @ '']'' @ [CHR 0x0A] @ txt')"

record arrange_submit =
  sb_CallerScope :: string
  sb_ItemID :: string
  sb_Output :: string
  sb_Result :: string
  sb_Status :: string
  sb_Reason :: string

definition reserved_status :: "string list" where
  "reserved_status = [''queued'', ''in_flight'', ''unmet'', ''done'', ''dead'', ''cancelled'']"

text \<open>The switch of \<^verbatim>\<open>Submit\<close>: the bucket, status and payload the item gets, or the refusal.\<close>

definition submit_route :: "(string \<Rightarrow> bucket list option) \<Rightarrow> work_item \<Rightarrow> arr_def \<Rightarrow> arrange_submit \<Rightarrow> arr_error + string \<times> string \<times> string" where
  "submit_route unmarshal it d req =
     (if ad_Status d = ''cancelled'' then
        Inr (wi_Role it, ''cancelled'', appendNote (wi_Payload it) (wi_Role it) note_cancelled (sb_Output req))
      else if sb_Result req = ''back'' then
        (case parseSpec unmarshal (ad_Spec d) of
           Inl e \<Rightarrow> Inl (ErrSpec e)
         | Inr sp \<Rightarrow>
             (let payload = appendNote (wi_Payload it) (wi_Role it) note_back (sb_Reason req);
                  prev = prevRole sp (wi_Role it)
              in if prev \<noteq> [] then Inr (prev, ''queued'', payload)
                 else Inr (wi_Role it, ''rejected_no_upstream'', payload)))
      else if sb_Result req = ''park'' then
        (let st0 = TrimSpace (sb_Status req); st = (if st0 = [] then ''blocked'' else st0)
         in if st \<in> set reserved_status then Inl (ErrReservedStatus st)
            else Inr (wi_Role it, st, appendNote (wi_Payload it) (wi_Role it) (note_park @ st) (sb_Reason req)))
      else
        (case parseSpec unmarshal (ad_Spec d) of
           Inl e \<Rightarrow> Inl (ErrSpec e)
         | Inr sp \<Rightarrow>
             (let payload = appendNote (wi_Payload it) (wi_Role it) note_product (sb_Output req);
                  nxt = nextRole sp (wi_Role it)
              in if nxt \<noteq> [] then Inr (nxt, ''queued'', payload)
                 else Inr (wi_Role it, ''done'', payload))))"

definition internal_event :: "arr_world \<Rightarrow> string \<Rightarrow> string \<Rightarrow> string \<Rightarrow> message_event" where
  "internal_event w source chat body =
     zero_event\<lparr>ev_Source := source, ev_ChatID := chat, ev_MessageID := aw_FormatInt w (aw_clock w),
       ev_Text := body, ev_ReceivedAt := aw_clock w,
       ev_Dispatch := Some \<lparr>dm_CallerSessionID = [], dm_ForceNewSession = True, dm_NoReply = True\<rparr>\<rparr>"

text \<open>
  What the report to the bridge comes to: nobody to report to (the product stays in the item), the
  event was taken, or the emit failed, in which case the arrangement is left open.
\<close>

datatype report = NotReported | Reported message_event | ReportFailed

definition report_terminal :: "arr_world \<Rightarrow> arr_def \<Rightarrow> string \<Rightarrow> string \<Rightarrow> report" where
  "report_terminal w d role output =
     (case aw_agora w of
        None \<Rightarrow> NotReported
      | Some ag \<Rightarrow>
        (case ag_CompanyBridgeScope ag (ad_Company d) of
           None \<Rightarrow> NotReported
         | Some bridge \<Rightarrow>
           (case aw_gateway w of
              Emitter emit \<Rightarrow>
                (let ev = internal_event w ''internal'' bridge
                            (report_head @ ad_ID d @ report_mid @ role @ [CHR 0x0A, CHR 0x0A] @ TrimSpace output)
                 in if emit ev then Reported ev else ReportFailed)
            | _ \<Rightarrow> NotReported)))"

definition deliverTerminal :: "arr_world \<Rightarrow> arr_def \<Rightarrow> string \<Rightarrow> string \<Rightarrow> arr_tables \<Rightarrow> report \<times> arr_tables" where
  "deliverTerminal w d role output t =
     (case report_terminal w d role output of
        ReportFailed \<Rightarrow> (ReportFailed, t)
      | r \<Rightarrow>
        (case db_read (aw_db w CCountLive) (CountLiveForDef (ad_ID d)) t of
           None \<Rightarrow> (r, t)
         | Some n \<Rightarrow>
           if 0 < n then (r, t)
           else (r, snd (db_exec (aw_db w CComplete) (CompleteDef (ad_ID d) (aw_now w)) (aw_others w 3 t)))))"

definition Submit :: "arr_world \<Rightarrow> arrange_submit \<Rightarrow> arr_tables \<Rightarrow> (arr_error + report option) \<times> arr_tables" where
  "Submit w req t =
     (case found (db_read (aw_db w CGetItem) (GetItem (sb_ItemID req)) t) of
        None \<Rightarrow> (Inl (ErrNoItem (sb_ItemID req)), t)
      | Some it \<Rightarrow>
        if wi_ClaimedBy it \<noteq> sb_CallerScope req then (Inl (ErrNotYours (wi_ClaimedBy it)), t)
        else
          (let t1 = aw_others w 0 t in
           case found (db_read (aw_db w CGetDef) (GetDef (wi_ArrangementID it)) t1) of
             None \<Rightarrow> (Inl (ErrNoArrangement (wi_ArrangementID it)), t1)
           | Some d \<Rightarrow>
             (case submit_route (aw_unmarshal w) it d req of
                Inl e \<Rightarrow> (Inl e, t1)
              | Inr (role, status, payload) \<Rightarrow>
                (case db_exec (aw_db w CRoute) (RouteItem (wi_ID it) (sb_CallerScope req) role status payload (aw_now w))
                        (aw_others w 1 t1) of
                   (None, t2) \<Rightarrow> (Inl ErrDB, t2)
                 | (Some n, t2) \<Rightarrow>
                   if n \<noteq> 1 then (Inl ErrStateChanged, t2)
                   else if status = ''done'' then
                     (case deliverTerminal w d (wi_Role it) (sb_Output req) (aw_others w 2 t2) of (r, t3) \<Rightarrow> (Inr (Some r), t3))
                   else (Inr None, t2)))))"

subsection \<open>Cancel and the sweeps\<close>

definition Cancel :: "arr_world \<Rightarrow> string \<Rightarrow> arr_tables \<Rightarrow> arr_error option \<times> arr_tables" where
  "Cancel w a t =
     (case found (db_read (aw_db w CGetDef) (GetDef a) t) of
        None \<Rightarrow> (Some (ErrNoArrangement a), t)
      | Some _ \<Rightarrow>
        (case db_exec (aw_db w CCancelDef) (CancelDef a (aw_now w)) (aw_others w 0 t) of
           (None, t1) \<Rightarrow> (Some ErrDB, t1)
         | (Some _, t1) \<Rightarrow>
           (case db_exec (aw_db w CCancelLive) (CancelLive a (aw_now w)) (aw_others w 1 t1) of
              (None, t2) \<Rightarrow> (Some ErrDB, t2)
            | (Some _, t2) \<Rightarrow> (None, t2))))"

definition day_seconds :: int where
  "day_seconds = 24 * 60 * 60"

definition terminal_defs_sweep :: "arr_world \<Rightarrow> arr_tables \<Rightarrow> bool \<times> arr_tables" where
  "terminal_defs_sweep w t =
     (case db_exec (aw_db w CCloseStalled) (CloseStalledDefs (aw_now w - 30 * day_seconds) (aw_now w)) t of
        (None, t1) \<Rightarrow> (False, t1)
      | (Some _, t1) \<Rightarrow>
        (case PruneTerminalDefs (aw_db w CPruneItems) (aw_db w CPruneDefs) (aw_now w - 7 * day_seconds) t1 of
           (r, t2) \<Rightarrow> (r \<noteq> None, t2)))"

definition terminal_items_sweep :: "arr_world \<Rightarrow> arr_tables \<Rightarrow> bool \<times> arr_tables" where
  "terminal_items_sweep w t =
     (case db_exec (aw_db w CPruneItems) (PruneTerminal (aw_now w - 30 * day_seconds)) t of (r, t1) \<Rightarrow> (r \<noteq> None, t1))"

subsection \<open>Rows for the panel\<close>

record arrange_row =
  ar_ID :: string
  ar_Company :: string
  ar_Author :: string
  ar_Status :: string
  ar_Stages :: "string list"
  ar_Detail :: string

definition trim_newlines :: "string \<Rightarrow> string" where
  "trim_newlines s = rev (dropWhile (\<lambda>c. c = CHR 0x0A) (rev s))"

definition arrangement_row :: "(string \<Rightarrow> bucket list option) \<Rightarrow> arr_def \<Rightarrow> arrange_row" where
  "arrangement_row unmarshal d =
     (let row = \<lparr>ar_ID = ad_ID d, ar_Company = ad_Company d, ar_Author = ad_Author d, ar_Status = ad_Status d,
                 ar_Stages = [], ar_Detail = []\<rparr>
      in case parseSpec unmarshal (ad_Spec d) of
           Inl _ \<Rightarrow> row
         | Inr sp \<Rightarrow> row\<lparr>ar_Stages := spec_roles sp,
             ar_Detail := trim_newlines (concat (map (\<lambda>r. ''['' @ r @ ''] '' @ contentFor sp r @ [CHR 0x0A]) (spec_roles sp)))\<rparr>)"

definition arrangementRows :: "arr_world \<Rightarrow> arr_tables \<Rightarrow> arrange_row list option" where
  "arrangementRows w t =
     map_option (map (arrangement_row (aw_unmarshal w))) (db_read (aw_db w CListDefs) (ListDefs []) t)"

record arrange_item_row =
  ir_ItemID :: string
  ir_ArrangementID :: string
  ir_Role :: string
  ir_Status :: string
  ir_ClaimedBy :: string
  ir_AgeSeconds :: int
  ir_InFlightSeconds :: int

definition itemRow :: "work_item \<Rightarrow> int \<Rightarrow> arrange_item_row" where
  "itemRow it now =
     \<lparr>ir_ItemID = wi_ID it, ir_ArrangementID = wi_ArrangementID it, ir_Role = wi_Role it, ir_Status = wi_Status it,
      ir_ClaimedBy = wi_ClaimedBy it, ir_AgeSeconds = now - wi_CreatedAt it,
      ir_InFlightSeconds = (if wi_Status it = ''in_flight'' \<and> 0 < wi_ClaimedAt it then now - wi_ClaimedAt it else 0)\<rparr>"

definition arr_Status :: "arr_world \<Rightarrow> db_fault \<Rightarrow> arr_tables \<Rightarrow> arrange_row list \<times> arrange_item_row list" where
  "arr_Status w f t =
     (case arrangementRows w t of None \<Rightarrow> [] | Some rows \<Rightarrow> rows,
      case db_read f ListLive t of None \<Rightarrow> [] | Some is \<Rightarrow> map (\<lambda>it. itemRow it (aw_now w)) is)"

subsection \<open>The push queue (30-dispatch.go)\<close>

record push_item =
  pi_arrangementID :: string
  pi_role :: string
  pi_scope :: string

definition push_key :: "push_item \<Rightarrow> string" where
  "push_key p = pi_arrangementID p @ [CHR 0x00] @ pi_role p @ [CHR 0x00] @ pi_scope p"

record push_state =
  ps_pushQ :: "push_item list"
  ps_pushSet :: "(string, bool) gomap"
  ps_lastNudged :: "(string, int) gomap"

definition nudgeCooldownSec :: int where
  "nudgeCooldownSec = 30"

definition enqueuePush :: "push_item \<Rightarrow> int \<Rightarrow> push_state \<Rightarrow> push_state" where
  "enqueuePush p now m =
     (if ggetz False (ps_pushSet m) (push_key p) \<or> now - ggetz 0 (ps_lastNudged m) (pi_scope p) < nudgeCooldownSec then m
      else m\<lparr>ps_pushSet := gput (push_key p) True (ps_pushSet m), ps_pushQ := ps_pushQ m @ [p]\<rparr>)"

definition dequeuePush :: "int \<Rightarrow> push_state \<Rightarrow> push_item option \<times> push_state" where
  "dequeuePush now m =
     (case ps_pushQ m of
        [] \<Rightarrow> (None, m)
      | p # ps \<Rightarrow>
          (Some p, m\<lparr>ps_pushQ := ps, ps_pushSet := gdel (push_key p) (ps_pushSet m),
             ps_lastNudged := filter (\<lambda>(scope, ts). \<not> ts < now - nudgeCooldownSec) (ps_lastNudged m)\<rparr>))"

definition pullNudgeText :: "string \<Rightarrow> string \<Rightarrow> string \<Rightarrow> string" where
  "pullNudgeText a role content =
     (let hint = (if content \<noteq> [] then hint_head @ content else [])
      in nudge_1 @ a @ nudge_2 @ role @ nudge_3 @ hint @ nudge_4 @ a @ nudge_5 @ role @ nudge_6)"

definition drain_event :: "arr_world \<Rightarrow> arr_def \<Rightarrow> push_item \<Rightarrow> message_event" where
  "drain_event w d p =
     (let content = (case parseSpec (aw_unmarshal w) (ad_Spec d) of Inl _ \<Rightarrow> [] | Inr sp \<Rightarrow> contentFor sp (pi_role p))
      in internal_event w [] (pi_scope p) (pullNudgeText (pi_arrangementID p) (pi_role p) content))"

definition has_gateway :: "gateway_view \<Rightarrow> bool" where
  "has_gateway gw = (case gw of NoGateway \<Rightarrow> False | _ \<Rightarrow> True)"

definition drainOne :: "arr_world \<Rightarrow> arr_tables \<Rightarrow> push_state \<Rightarrow> message_event option \<times> push_state" where
  "drainOne w t m =
     (case dequeuePush (aw_now w) m of
        (None, m1) \<Rightarrow> (None, m1)
      | (Some p, m1) \<Rightarrow>
        (case (aw_gateway w, aw_running w, aw_agora w) of
           (gw, Some running, Some ag) \<Rightarrow>
             if \<not> has_gateway gw then (None, m1)
             else if running (pi_scope p) \<noteq> 0 then (None, m1)
             else if aw_now w - ggetz 0 (ps_lastNudged m1) (pi_scope p) < nudgeCooldownSec then (None, m1)
             else (case db_read (aw_db w CCountQueued) (CountQueued (pi_arrangementID p) (pi_role p)) t of
                     None \<Rightarrow> (None, m1)
                   | Some n \<Rightarrow>
                     if n = 0 then (None, m1)
                     else (case gw of
                             Emitter emit \<Rightarrow>
                               (case found (db_read (aw_db w CGetDef) (GetDef (pi_arrangementID p)) t) of
                                  None \<Rightarrow> (None, m1)
                                | Some d \<Rightarrow>
                                  if \<not> ag_CompanyActive ag (ad_Company d) then (None, m1)
                                  else
                                    (let ev = drain_event w d p
                                     in if \<not> emit ev then (None, m1)
                                        else (Some ev, m1\<lparr>ps_lastNudged := gput (pi_scope p) (aw_now w) (ps_lastNudged m1)\<rparr>)))
                           | _ \<Rightarrow> (None, m1)))
         | _ \<Rightarrow> (None, m1)))"

definition pushDepth :: "push_state \<Rightarrow> nat" where
  "pushDepth m = length (ps_pushQ m)"

subsection \<open>The selector\<close>

definition staleLeaseSeconds :: int where
  "staleLeaseSeconds = 30 * 60"

fun reclaim_stale :: "arr_world \<Rightarrow> (string \<Rightarrow> nat) \<Rightarrow> work_item list \<Rightarrow> arr_tables \<Rightarrow> arr_tables" where
  "reclaim_stale w running [] t = t"
| "reclaim_stale w running (it # is) t =
     reclaim_stale w running is
       (if running (wi_ClaimedBy it) \<noteq> 0 then t
        else snd (db_exec (aw_db w (CRequeue (wi_ID it))) (RequeueInFlight (wi_ID it) (aw_now w)) t))"

definition serviceable :: "arr_world \<Rightarrow> agora_view \<Rightarrow> arr_def \<Rightarrow> string \<Rightarrow> bool" where
  "serviceable w ag d role \<longleftrightarrow>
     ag_MemberScopesForRole ag (ad_Company d) role \<noteq> [] \<and> roleCanProcess w (ad_Company d) role = Inr True"

fun enqueue_idle :: "(string \<Rightarrow> nat) \<Rightarrow> string \<Rightarrow> string \<Rightarrow> int \<Rightarrow> string list \<Rightarrow> push_state \<Rightarrow> push_state" where
  "enqueue_idle running a role now [] m = m"
| "enqueue_idle running a role now (s # ss) m =
     enqueue_idle running a role now ss
       (if running s \<noteq> 0 then m
        else enqueuePush \<lparr>pi_arrangementID = a, pi_role = role, pi_scope = s\<rparr> now m)"

fun select_buckets :: "arr_world \<Rightarrow> agora_view \<Rightarrow> (string \<Rightarrow> nat) \<Rightarrow> arr_def list \<Rightarrow> (string \<times> string) list
    \<Rightarrow> push_state \<times> arr_tables \<Rightarrow> push_state \<times> arr_tables" where
  "select_buckets w ag running active [] s = s"
| "select_buckets w ag running active ((a, role) # bs) (m, t) =
     select_buckets w ag running active bs
       (case find (\<lambda>d. ad_ID d = a) active of
          None \<Rightarrow> (m, t)
        | Some d \<Rightarrow>
          if \<not> serviceable w ag d role then
            (m, snd (db_exec (aw_db w (CMarkUnmet a role)) (MarkUnmet a role (aw_now w)) t))
          else (enqueue_idle running a role (aw_now w) (ag_MemberScopesForRole ag (ad_Company d) role) m, t))"

fun heal_buckets :: "arr_world \<Rightarrow> agora_view \<Rightarrow> arr_def list \<Rightarrow> (string \<times> string) list \<Rightarrow> arr_tables \<Rightarrow> arr_tables" where
  "heal_buckets w ag active [] t = t"
| "heal_buckets w ag active ((a, role) # bs) t =
     heal_buckets w ag active bs
       (case find (\<lambda>d. ad_ID d = a) active of
          None \<Rightarrow> t
        | Some d \<Rightarrow>
          if \<not> serviceable w ag d role then t
          else snd (db_exec (aw_db w (CRequeueUnmet a role)) (RequeueUnmet a role (aw_now w)) t))"

definition selectRound :: "arr_world \<Rightarrow> push_state \<times> arr_tables \<Rightarrow> push_state \<times> arr_tables" where
  "selectRound w s =
     (case (aw_agora w, aw_running w, s) of
        (Some ag, Some running, (m, t)) \<Rightarrow>
          (let t1 = (case db_read (aw_db w CStale) (StaleInFlight (aw_now w - staleLeaseSeconds)) t of
                       None \<Rightarrow> t
                     | Some stale \<Rightarrow> reclaim_stale w running stale (aw_others w 0 t))
           in case db_read (aw_db w CListDefs) (ListDefs ''started'') t1 of
                None \<Rightarrow> (m, t1)
              | Some defs \<Rightarrow>
                (let active = filter (\<lambda>d. ag_CompanyActive ag (ad_Company d)) defs; t2 = aw_others w 1 t1
                 in case db_read (aw_db w CQueuedBuckets) QueuedBuckets t2 of
                      None \<Rightarrow> (m, t2)
                    | Some buckets \<Rightarrow>
                      (case select_buckets w ag running active buckets (m, aw_others w 2 t2) of
                         (m3, t3) \<Rightarrow>
                           (case db_read (aw_db w CUnmetBuckets) UnmetBuckets t3 of
                              None \<Rightarrow> (m3, t3)
                            | Some unmet \<Rightarrow> (m3, heal_buckets w ag active unmet (aw_others w 3 t3))))))
      | _ \<Rightarrow> s)"

subsection \<open>Settings (00-module.go)\<close>

definition minTick :: duration where
  "minTick = second"

definition maxTick :: duration where
  "maxTick = hour"

definition clampTick :: "duration \<Rightarrow> duration" where
  "clampTick d = (if d < minTick then minTick else if maxTick < d then maxTick else d)"

definition setMaxConcurrentArrangements :: "int \<Rightarrow> int" where
  "setMaxConcurrentArrangements n = (if n < 1 then 1 else n)"

definition defaultMaxConcurrentArrangements :: int where
  "defaultMaxConcurrentArrangements = 2"

subsection \<open>The specification is a chain of stages\<close>

lemma check_buckets_ok:
  "check_buckets seen n bs = None \<Longrightarrow> distinct (map bk_Role bs) \<and> set (map bk_Role bs) \<inter> set seen = {}
     \<and> (\<forall>b\<in>set bs. TrimSpace (bk_Role b) \<noteq> [])"
  by (induction seen n bs rule: check_buckets.induct) (auto split: if_splits)

lemma parseSpec_ok:
  assumes "parseSpec unmarshal raw = Inr sp"
  shows "sp \<noteq> []" "distinct (map bk_Role sp)" "\<And>b. b \<in> set sp \<Longrightarrow> bk_Role b \<noteq> []"
  using assms check_buckets_ok[of "[]" 0 sp] TrimSpace_Nil
  by (auto simp: parseSpec_def split: if_splits option.splits)

lemma indexOf_nth: "distinct (map bk_Role bs) \<Longrightarrow> i < length bs \<Longrightarrow> indexOf bs (bk_Role (bs ! i)) = Some i"
proof (induction bs arbitrary: i)
  case (Cons b bs)
  then show ?case by (cases i) (auto simp: image_iff dest: nth_mem)
qed simp

lemma indexOf_Some: "indexOf bs role = Some i \<Longrightarrow> i < length bs \<and> bk_Role (bs ! i) = role"
  by (induction bs arbitrary: i) (auto split: if_splits)

lemma next_stage:
  assumes "parseSpec unmarshal raw = Inr sp" "i < length sp"
  shows "nextRole sp (bk_Role (sp ! i)) = (if i + 1 < length sp then bk_Role (sp ! (i + 1)) else [])"
  using indexOf_nth[OF parseSpec_ok(2)[OF assms(1)] assms(2)] by (auto simp: nextRole_def)

text \<open>Sending an item back undoes sending it on.\<close>

lemma back_undoes_forward:
  assumes "parseSpec unmarshal raw = Inr sp" "nextRole sp role \<noteq> []"
  shows "prevRole sp (nextRole sp role) = role"
proof -
  obtain i where i: "indexOf sp role = Some i" "i + 1 < length sp" "nextRole sp role = bk_Role (sp ! (i + 1))"
    using assms(2) by (auto simp: nextRole_def split: option.splits if_splits)
  then show ?thesis
    using indexOf_nth[OF parseSpec_ok(2)[OF assms(1)], of "i + 1"] indexOf_Some[OF i(1)] by (simp add: prevRole_def)
qed

text \<open>\<open>forwarded\<close> is an item whose holders submit the outputs one after the other, each passing it on.\<close>

definition pass_on :: "string \<Rightarrow> arrange_submit" where
  "pass_on output = \<lparr>sb_CallerScope = [], sb_ItemID = [], sb_Output = output, sb_Result = ''forward'', sb_Status = [], sb_Reason = []\<rparr>"

fun forwarded :: "(string \<Rightarrow> bucket list option) \<Rightarrow> arr_def \<Rightarrow> string list \<Rightarrow> work_item \<Rightarrow> work_item option" where
  "forwarded unmarshal d [] it = Some it"
| "forwarded unmarshal d (o' # os) it =
     (case submit_route unmarshal it d (pass_on o') of
        Inl _ \<Rightarrow> None
      | Inr (role, status, payload) \<Rightarrow>
          forwarded unmarshal d os (it\<lparr>wi_Role := role, wi_Status := status, wi_Payload := payload\<rparr>))"

fun notes_from :: "bucket list \<Rightarrow> nat \<Rightarrow> string list \<Rightarrow> string \<Rightarrow> string" where
  "notes_from sp i [] payload = payload"
| "notes_from sp i (o' # os) payload = notes_from sp (i + 1) os (appendNote payload (bk_Role (sp ! i)) note_product o')"

lemma forward_step:
  assumes "parseSpec unmarshal (ad_Spec d) = Inr sp" "ad_Status d \<noteq> ''cancelled''" "i < length sp" "wi_Role it = bk_Role (sp ! i)"
  shows "submit_route unmarshal it d (pass_on o') =
    Inr (if i + 1 < length sp then (bk_Role (sp ! (i + 1)), ''queued'', appendNote (wi_Payload it) (wi_Role it) note_product o')
         else (wi_Role it, ''done'', appendNote (wi_Payload it) (wi_Role it) note_product o'))"
proof -
  have "i + 1 < length sp \<Longrightarrow> bk_Role (sp ! (i + 1)) \<noteq> []" using parseSpec_ok(3)[OF assms(1)] by simp
  then show ?thesis using assms next_stage[OF assms(1,3)] by (simp add: submit_route_def pass_on_def Let_def)
qed

lemma forwarded_from:
  assumes "parseSpec unmarshal (ad_Spec d) = Inr sp" "ad_Status d \<noteq> ''cancelled''"
  shows "i + length os < length sp \<Longrightarrow> wi_Role it = bk_Role (sp ! i) \<Longrightarrow> wi_Status it = ''queued'' \<Longrightarrow>
    \<exists>it'. forwarded unmarshal d os it = Some it' \<and> wi_Role it' = bk_Role (sp ! (i + length os)) \<and> wi_Status it' = ''queued''
      \<and> wi_Payload it' = notes_from sp i os (wi_Payload it)"
proof (induction os arbitrary: i it)
  case (Cons o' os)
  then have i: "i < length sp" "i + 1 < length sp" by simp_all
  show ?case
    using Cons.IH[of "i + 1" "it\<lparr>wi_Role := bk_Role (sp ! (i + 1)), wi_Status := ''queued'',
        wi_Payload := appendNote (wi_Payload it) (bk_Role (sp ! i)) note_product o'\<rparr>"]
      forward_step[OF assms i(1), of it o'] i Cons.prems by simp
qed simp

lemma forwarded_append:
  "forwarded unmarshal d (os @ os') it = (case forwarded unmarshal d os it of None \<Rightarrow> None | Some it' \<Rightarrow> forwarded unmarshal d os' it')"
  by (induction os arbitrary: it) (auto split: sum.splits)

lemma notes_from_append: "notes_from sp i (os @ os') p = notes_from sp (i + length os) os' (notes_from sp i os p)"
  by (induction os arbitrary: i p) auto


subsection \<open>The handlers are runs of the statement machine\<close>

definition legal_run :: "arr_tables \<Rightarrow> arr_tables \<Rightarrow> bool" where
  "legal_run t t' \<longleftrightarrow> (\<exists>ops. list_all legal_op ops \<and> t' = run_ops ops t)"

definition fair_world :: "arr_world \<Rightarrow> bool" where
  "fair_world w \<longleftrightarrow> (\<forall>n t. legal_run t (aw_others w n t) \<and> legal_run t (aw_claim_others w n t))"

named_theorems run_intros \<open>legal runs of the statements\<close>

lemma legal_run_refl [simp, run_intros]: "legal_run t t"
  unfolding legal_run_def by (intro exI[of _ "[]"]) simp

lemma legal_run_trans [trans]: "legal_run t t' \<Longrightarrow> legal_run t' t'' \<Longrightarrow> legal_run t t''"
proof -
  assume "legal_run t t'" "legal_run t' t''"
  then obtain a b where "list_all legal_op a" "t' = run_ops a t" "list_all legal_op b" "t'' = run_ops b t'"
    by (auto simp: legal_run_def)
  then show ?thesis unfolding legal_run_def by (intro exI[of _ "a @ b"]) simp
qed

lemma legal_run_op: "legal_op op \<Longrightarrow> legal_run t (exec_op op t)"
  unfolding legal_run_def by (intro exI[of _ "[op]"]) simp

lemma stmt_runs [run_intros]:
  "legal_run t (snd (InsertDef i c a ''started'' sp now t))"
  "legal_run t (snd (InsertItem i a r p pl now t))"
  "legal_run t (snd (delete_items (items_of a) t))"
  "legal_run t (snd (delete_defs (\<lambda>d. ad_ID d = a) t))"
  "legal_run t (snd (prune_def_items c' t))"
  "legal_run t (snd (delete_defs (terminal_before c') t))"
  "legal_run t (snd (CloseStalledDefs c' now t))"
  "legal_run t (snd (CancelDef a now t))"
  "legal_run t (snd (CompleteDef a now t))"
  "legal_run t (snd (RequeueUnmet a r now t))"
  "legal_run t (snd (RequeueInFlight i now t))"
  "legal_run t (snd (claim_item i c now t))"
  "legal_run t (snd (MarkUnmet a r now t))"
  "legal_run t (snd (CancelLive a now t))"
  "legal_run t (snd (PruneTerminal c' t))"
  using legal_run_op[of "OpInsertDef i c a ''started'' sp now" t] legal_run_op[of "OpInsertItem i a r p pl now" t]
    legal_run_op[of "OpDeleteDefItems a" t] legal_run_op[of "OpDeleteDefRow a" t] legal_run_op[of "OpPruneDefItems c'" t]
    legal_run_op[of "OpPruneDefs c'" t] legal_run_op[of "OpCloseStalled c' now" t] legal_run_op[of "OpCancelDef a now" t]
    legal_run_op[of "OpCompleteDef a now" t] legal_run_op[of "OpRequeueUnmet a r now" t] legal_run_op[of "OpRequeueInFlight i now" t]
    legal_run_op[of "OpClaim i c now" t] legal_run_op[of "OpMarkUnmet a r now" t] legal_run_op[of "OpCancelLive a now" t]
    legal_run_op[of "OpPruneTerminal c'" t]
  by simp_all

lemma route_run: "submit_status s \<Longrightarrow> legal_run t (snd (RouteItem i c r s pl now t))"
  using legal_run_op[of "OpRoute i c r s pl now" t] by simp

lemma db_exec_run: "db_exec f stmt t = (r, t') \<Longrightarrow> legal_run t (snd (stmt t)) \<Longrightarrow> legal_run t t'"
  by (auto simp: db_exec_def split: db_fault.splits)

lemma exec_runs:
  "db_exec f (InsertDef i c a ''started'' sp now) t = (v, t') \<Longrightarrow> legal_run t t'"
  "db_exec f (InsertItem i a r p pl now) t = (v, t') \<Longrightarrow> legal_run t t'"
  "db_exec f (delete_items (items_of a)) t = (u, t') \<Longrightarrow> legal_run t t'"
  "db_exec f (delete_defs (\<lambda>d. ad_ID d = a)) t = (u, t') \<Longrightarrow> legal_run t t'"
  "db_exec f (prune_def_items c') t = (u, t') \<Longrightarrow> legal_run t t'"
  "db_exec f (delete_defs (terminal_before c')) t = (u, t') \<Longrightarrow> legal_run t t'"
  "db_exec f (CloseStalledDefs c' now) t = (u, t') \<Longrightarrow> legal_run t t'"
  "db_exec f (CancelDef a now) t = (u, t') \<Longrightarrow> legal_run t t'"
  "db_exec f (CompleteDef a now) t = (u, t') \<Longrightarrow> legal_run t t'"
  "db_exec f (RequeueUnmet a r now) t = (u, t') \<Longrightarrow> legal_run t t'"
  "db_exec f (RequeueInFlight i now) t = (u, t') \<Longrightarrow> legal_run t t'"
  "db_exec f (claim_item i c now) t = (u, t') \<Longrightarrow> legal_run t t'"
  "db_exec f (MarkUnmet a r now) t = (u, t') \<Longrightarrow> legal_run t t'"
  "db_exec f (CancelLive a now) t = (u, t') \<Longrightarrow> legal_run t t'"
  "db_exec f (PruneTerminal c') t = (u, t') \<Longrightarrow> legal_run t t'"
  by (erule db_exec_run, rule stmt_runs)+

lemma exec_snd_runs:
  "legal_run t (snd (db_exec f (CompleteDef a now) t))"
  "legal_run t (snd (db_exec f (RequeueUnmet a r now) t))"
  "legal_run t (snd (db_exec f (RequeueInFlight i now) t))"
  "legal_run t (snd (db_exec f (MarkUnmet a r now) t))"
  by (simp_all add: db_exec_def stmt_runs split: db_fault.splits)

lemma exec_from:
  "legal_run t0 t \<Longrightarrow> legal_run t0 (snd (db_exec f (RequeueUnmet a r now) t))"
  "legal_run t0 t \<Longrightarrow> legal_run t0 (snd (db_exec f (RequeueInFlight i now) t))"
  "legal_run t0 t \<Longrightarrow> legal_run t0 (snd (db_exec f (MarkUnmet a r now) t))"
  by (blast intro: legal_run_trans exec_snd_runs)+

text \<open>The guard against reserved words: a submission never writes a status the engine would act on as its own.\<close>

lemma submit_route_status:
  "submit_route unmarshal it d req = Inr (role, status, payload) \<Longrightarrow> submit_status status"
  by (auto simp: submit_route_def submit_status_def reserved_status_def Let_def split: if_splits sum.splits)

lemma others_run:
  assumes "fair_world w" "legal_run t0 t"
  shows "legal_run t0 (aw_others w n t)" "legal_run t0 (aw_claim_others w n t)"
  using assms by (auto simp: fair_world_def intro: legal_run_trans)

lemma delete_def_run: "legal_run t (snd (DeleteDef f g a t))"
proof (cases "db_exec f (delete_items (items_of a)) t")
  case (Pair r t1)
  then have "legal_run t t1" by (rule exec_runs)
  then show ?thesis using Pair by (auto simp: DeleteDef_def split: option.splits prod.splits
      dest!: exec_runs(4) intro: legal_run_trans)
qed

lemma claim_loop_run:
  "fair_world w \<Longrightarrow> legal_run t0 t \<Longrightarrow> legal_run t0 (snd (claim_loop (aw_claim_others w) f a role c now n t))"
proof (induction n arbitrary: t)
  case (Suc n)
  show ?case
  proof (cases "\<exists>k. db_read (fst (f n)) (select_top a role) t = Some (Some k)")
    case True
    then obtain k where k: "db_read (fst (f n)) (select_top a role) t = Some (Some k)" by blast
    obtain r t1 where e: "db_exec (fst (snd (f n))) (claim_item k c now) (aw_claim_others w n t) = (r, t1)" by fastforce
    have "legal_run t0 t1"
      using others_run(2)[OF Suc.prems] exec_runs(12)[OF e] by (blast intro: legal_run_trans)
    then show ?thesis using Suc k e by (auto split: option.splits)
  next
    case False
    then show ?thesis using Suc.prems by (auto split: option.splits)
  qed
qed simp

lemma define_run:
  assumes "fair_world w" shows "legal_run t (snd (Define cap w req t))"
proof -
  note o = others_run(1)[OF assms]
  have 1: "legal_run t t1" if "db_exec f (InsertDef i c a ''started'' sp now) (aw_others w 0 t) = (r, t1)" for f i c a sp now r t1
    using exec_runs(1)[OF that] o[OF legal_run_refl] by (rule legal_run_trans[rotated])
  have 2: "legal_run t t2" if "legal_run t t1" "db_exec g (InsertItem j a' r' p pl now') (aw_others w n t1) = (r2, t2)"
    for n t1 g j a' r' p pl now' r2 t2
    using exec_runs(2)[OF that(2)] o[OF that(1)] by (rule legal_run_trans[rotated])
  have 3: "legal_run t (snd (DeleteDef f g a t2))" if "legal_run t t2" for f g a t2
    using that delete_def_run by (rule legal_run_trans)
  show ?thesis
    by (auto simp: Define_def Let_def split: sum.splits option.splits prod.splits intro: 3 dest!: 1 dest: 2)
qed

lemma inject_run:
  assumes "fair_world w" shows "legal_run t (snd (Inject w req t))"
proof -
  have "legal_run t t1" if "db_exec f (InsertItem i a r p pl now) (aw_others w 0 t) = (u, t1)" for f i a r p pl now u t1
    using exec_runs(2)[OF that] others_run(1)[OF assms legal_run_refl] by (rule legal_run_trans[rotated])
  then show ?thesis by (auto simp: Inject_def Let_def split: sum.splits option.splits prod.splits)
qed

lemma pull_run:
  assumes "fair_world w" shows "legal_run t (snd (Pull w req t))"
proof -
  have "legal_run t t1" if "ClaimTop (aw_claim_others w) f a role c now (aw_others w 0 t) = (u, t1)" for f a role c now u t1
    using claim_loop_run[OF assms others_run(1)[OF assms legal_run_refl, of t 0], of f a role c now 8] that
    by (simp add: ClaimTop_def)
  then show ?thesis by (auto simp: Pull_def split: sum.splits option.splits prod.splits db_result.splits)
qed

lemma deliver_run:
  assumes "fair_world w" shows "legal_run t (snd (deliverTerminal w d role output t))"
proof -
  have "legal_run t (snd (db_exec f (CompleteDef a now) (aw_others w 3 t)))" for f a now
    using others_run(1)[OF assms legal_run_refl] exec_snd_runs(1) by (rule legal_run_trans)
  then show ?thesis by (auto simp: deliverTerminal_def split: report.splits option.splits)
qed

lemma submit_run:
  assumes "fair_world w" shows "legal_run t (snd (Submit w req t))"
proof -
  note o = others_run(1)[OF assms]
  have 1: "legal_run t t2" if "submit_route um it d req = Inr (role, status, payload)"
    "db_exec f (RouteItem i c role status payload now) (aw_others w n (aw_others w 0 t)) = (r, t2)" for n um it d role status payload f i c now r t2
    using db_exec_run[OF that(2) route_run[OF submit_route_status[OF that(1)]]] o[OF o[OF legal_run_refl]]
    by (rule legal_run_trans[rotated])
  have 2: "legal_run t t3" if "legal_run t t2" "deliverTerminal w d role out (aw_others w n t2) = (r, t3)" for t2 d role out r t3 n
    using deliver_run[OF assms, of "aw_others w n t2" d role out] that o[OF that(1)] by (auto intro: legal_run_trans)
  show ?thesis using o[OF legal_run_refl]
    by (auto simp: Submit_def Let_def split: sum.splits option.splits prod.splits dest: 1 2)
qed

lemma cancel_run:
  assumes "fair_world w" shows "legal_run t (snd (Cancel w a t))"
proof -
  note o = others_run(1)[OF assms]
  have 1: "legal_run t t1" if "db_exec f (CancelDef a now) (aw_others w 0 t) = (r, t1)" for f now r t1
    using exec_runs(8)[OF that] o[OF legal_run_refl] by (rule legal_run_trans[rotated])
  have 2: "legal_run t t2" if "legal_run t t1" "db_exec g (CancelLive a now) (aw_others w n t1) = (r, t2)" for n t1 g now r t2
    using exec_runs(14)[OF that(2)] o[OF that(1)] by (rule legal_run_trans[rotated])
  show ?thesis by (auto simp: Cancel_def split: option.splits prod.splits dest!: 1 dest: 2)
qed

lemma sweep_runs: "legal_run t (snd (terminal_defs_sweep w t))" "legal_run t (snd (terminal_items_sweep w t))"
proof -
  have "legal_run t0 (snd (PruneTerminalDefs f g c t0))" for f g c t0
    by (auto simp: PruneTerminalDefs_def split: option.splits prod.splits dest!: exec_runs(5)
        intro: legal_run_trans) (metis exec_runs(6) legal_run_trans prod.collapse)
  then show "legal_run t (snd (terminal_defs_sweep w t))"
    by (auto simp: terminal_defs_sweep_def split: option.splits prod.splits dest!: exec_runs(7)) (metis legal_run_trans snd_conv)
  show "legal_run t (snd (terminal_items_sweep w t))"
    by (auto simp: terminal_items_sweep_def split: prod.splits dest: exec_runs(15))
qed

lemma reclaim_run: "legal_run t0 t \<Longrightarrow> legal_run t0 (reclaim_stale w running is t)"
  by (induction "is" arbitrary: t) (auto simp: exec_from)

lemma select_buckets_run: "legal_run t0 t \<Longrightarrow> legal_run t0 (snd (select_buckets w ag running active bs (m, t)))"
proof (induction bs arbitrary: m t)
  case (Cons b bs)
  then show ?case by (cases b) (auto simp: exec_from split: option.splits)
qed simp

lemma heal_buckets_run: "legal_run t0 t \<Longrightarrow> legal_run t0 (heal_buckets w ag active bs t)"
proof (induction bs arbitrary: t)
  case (Cons b bs)
  then show ?case by (cases b) (auto simp: exec_from split: option.splits)
qed simp

lemma select_round_run:
  assumes "fair_world w" shows "legal_run t (snd (selectRound w (m, t)))"
proof (cases "\<exists>ag running. aw_agora w = Some ag \<and> aw_running w = Some running")
  case True
  then obtain ag running where w: "aw_agora w = Some ag" "aw_running w = Some running" by blast
  note o = others_run(1)[OF assms]
  define t1 where "t1 = (case db_read (aw_db w CStale) (StaleInFlight (aw_now w - staleLeaseSeconds)) t of
    None \<Rightarrow> t | Some stale \<Rightarrow> reclaim_stale w running stale (aw_others w 0 t))"
  have 1: "legal_run t t1" using reclaim_run[OF o[OF legal_run_refl]] by (simp add: t1_def split: option.splits)
  have 2: "legal_run t t3" if "select_buckets w ag running active bs (m, aw_others w k (aw_others w n t1)) = (m3, t3)"
    for n k active bs m3 t3
    using select_buckets_run[OF o[OF o[OF 1]], of w ag running active bs m k n] that by simp
  show ?thesis
    using 1 by (auto simp: selectRound_def w Let_def t1_def[symmetric] split: option.splits prod.splits
        intro: o heal_buckets_run dest!: 2)
next
  case False
  then show ?thesis by (auto simp: selectRound_def split: option.splits)
qed

text \<open>
  Every handler of the module refines the statement machine: whatever the organisation, the clock,
  the gateway and the faults of the database answer, and whatever legal statements other processes slip
  in between its own, its effect on the tables is a legal run. So the invariants of the machine (keys
  unique, a claim on an item exactly while it is in flight or was cancelled in flight, resting items at
  rest, one accepted submission per claim) hold of the system, for all its handlers at once.
\<close>

theorem handlers_refine_machine:
  assumes "fair_world w"
  shows "legal_run t (snd (Define cap w df t)) \<and> legal_run t (snd (Inject w ij t)) \<and> legal_run t (snd (Pull w pl t))
    \<and> legal_run t (snd (Submit w sb t)) \<and> legal_run t (snd (Cancel w a t)) \<and> legal_run t (snd (selectRound w (m, t)))
    \<and> legal_run t (snd (terminal_defs_sweep w t)) \<and> legal_run t (snd (terminal_items_sweep w t))"
  using assms
  by (simp add: define_run inject_run pull_run submit_run cancel_run select_round_run sweep_runs)

subsection \<open>Who gets work, and who keeps it\<close>

text \<open>
  An item is handed out only for a started arrangement of an active company, at a stage it has, to a
  member of that stage's role.
\<close>

theorem pull_only_for_members:
  assumes "fst (Pull w req t) = Inr (Some it)"
  shows "\<exists>d ag sp. GetDef (pl_ArrangementID req) t = Some d \<and> ad_Status d = ''started'' \<and> aw_agora w = Some ag
    \<and> ag_CompanyActive ag (ad_Company d) \<and> pl_CallerScope req \<in> set (ag_MemberScopesForRole ag (ad_Company d) (pl_Role req))
    \<and> parseSpec (aw_unmarshal w) (ad_Spec d) = Inr sp \<and> indexOf sp (pl_Role req) \<noteq> None \<and> pd_Content it = contentFor sp (pl_Role req)"
  using assms
  by (auto simp: Pull_def found_def db_read_def split: option.splits if_splits sum.splits prod.splits db_result.splits)

text \<open>After a cancellation that reports success, no item of the arrangement is queued or in flight.\<close>

theorem cancel_stops_work:
  assumes "Cancel w a t = (None, t')" "i \<in> set (t_items t')" "wi_ArrangementID i = a"
  shows "\<not> runnable i"
proof -
  obtain n t1 where "db_exec (aw_db w CCancelLive) (CancelLive a (aw_now w)) t1 = (Some n, t')"
    using assms(1) by (auto simp: Cancel_def split: option.splits prod.splits)
  then have "t' = snd (CancelLive a (aw_now w) t1)" by (auto simp: db_exec_def split: db_fault.splits)
  then obtain k where "i = (if wi_ArrangementID k = a \<and> runnable k then k\<lparr>wi_Status := ''cancelled'', wi_UpdatedAt := aw_now w\<rparr> else k)"
    using assms(2) unfolding CancelLive_def update_items_def by fastforce
  then show ?thesis using assms(3) by (auto simp: runnable_def split: if_splits)
qed

lemma reclaim_spares:
  assumes "\<And>it. it \<in> set is \<Longrightarrow> wi_ID it = wi_ID i \<Longrightarrow> running (wi_ClaimedBy it) \<noteq> 0" "i \<in> set (t_items t)"
  shows "i \<in> set (t_items (reclaim_stale w running is t))"
  using assms
proof (induction "is" arbitrary: t)
  case (Cons it "is")
  have "i \<in> set (t_items (snd (db_exec f (RequeueInFlight (wi_ID it) now) t)))" if "running (wi_ClaimedBy it) = 0" for f now
    using that Cons.prems by (force simp: db_exec_def RequeueInFlight_def update_items_def split: db_fault.splits)
  then show ?case using Cons by simp
qed simp

lemma mark_spares:
  assumes "i \<in> set (t_items t)" "wi_Status i = ''in_flight''"
  shows "i \<in> set (t_items (snd (db_exec f (MarkUnmet a r now) t)))" "i \<in> set (t_items (snd (db_exec f (RequeueUnmet a r now) t)))"
  using assms by (force simp: db_exec_def MarkUnmet_def RequeueUnmet_def in_bucket_def update_items_def split: db_fault.splits)+

lemma select_spares:
  assumes "wi_Status i = ''in_flight''"
  shows "i \<in> set (t_items t) \<Longrightarrow> i \<in> set (t_items (snd (select_buckets w ag running active bs (m, t))))"
    "i \<in> set (t_items t) \<Longrightarrow> i \<in> set (t_items (heal_buckets w ag active bs t))"
proof (induction bs arbitrary: m t)
  case (Cons b bs)
  { case 1
    then show ?case using Cons.IH(1) mark_spares[OF _ assms] by (cases b) (auto split: option.splits) }
  { case 2
    then show ?case using Cons.IH(2) mark_spares[OF _ assms] by (cases b) (auto split: option.splits) }
qed simp_all

text \<open>
  A worker that is slow but alive keeps its item: a round of the selector that nobody interferes
  with leaves the row of an item in flight untouched as long as a turn runs at the scope that claimed
  it, however old the claim is. So no work with side effects is handed to a second worker while the
  first one is still at it.
\<close>

theorem live_worker_keeps_item:
  assumes "tables_ok t" "i \<in> set (t_items t)" "wi_Status i = ''in_flight''"
    "aw_running w = Some running" "running (wi_ClaimedBy i) \<noteq> 0" "\<And>n t. aw_others w n t = t"
  shows "i \<in> set (t_items (snd (selectRound w (m, t))))"
proof (cases "aw_agora w")
  case (Some ag)
  have "it = i" if "it \<in> set (t_items t)" "wi_ID it = wi_ID i" for it
    using assms(1,2) that by (auto simp: tables_ok_def distinct_map dest: inj_onD)
  then have 1: "i \<in> set (t_items (reclaim_stale w running (StaleInFlight c t) t))" for c
    using assms(2,5) by (intro reclaim_spares) (auto simp: StaleInFlight_def)
  define t1 where "t1 = (case db_read (aw_db w CStale) (StaleInFlight (aw_now w - staleLeaseSeconds)) t of
    None \<Rightarrow> t | Some stale \<Rightarrow> reclaim_stale w running stale (aw_others w 0 t))"
  have t1: "i \<in> set (t_items t1)" using 1 assms(2) by (simp add: t1_def db_read_def assms(6))
  have 2: "i \<in> set (t_items t3)" if "select_buckets w ag running active bs (m, aw_others w k (aw_others w n t1)) = (m3, t3)"
    for k n active bs m3 t3
    using select_spares(1)[OF assms(3) t1, of w ag running active bs m] that by (simp add: assms(6))
  have 3: "i \<in> set (t_items (aw_others w n t'))" if "i \<in> set (t_items t')" for n t' using that by (simp add: assms(6))
  show ?thesis using t1
    by (auto simp: selectRound_def assms(4) Some Let_def t1_def[symmetric] split: option.splits prod.splits
        intro: 3 select_spares(2)[OF assms(3)] dest!: 2)
next
  case None
  then show ?thesis using assms(2) by (simp add: selectRound_def)
qed

subsection \<open>The wakes\<close>

text \<open>The set of pending keys mirrors the queue, so a member has one pending wake per bucket.\<close>

definition push_ok :: "push_state \<Rightarrow> bool" where
  "push_ok m \<longleftrightarrow> distinct (map push_key (ps_pushQ m)) \<and> gmap_ok (ps_lastNudged m)
     \<and> (\<forall>k. ggetz False (ps_pushSet m) k \<longleftrightarrow> k \<in> set (map push_key (ps_pushQ m)))"

definition no_pushes :: push_state where
  "no_pushes = \<lparr>ps_pushQ = [], ps_pushSet = [], ps_lastNudged = []\<rparr>"

lemma enqueue_ok: "push_ok m \<Longrightarrow> push_ok (enqueuePush p now m)"
  by (auto simp: push_ok_def enqueuePush_def)

lemma dequeue_ok: "push_ok m \<Longrightarrow> push_ok (snd (dequeuePush now m))"
  by (cases "ps_pushQ m") (auto simp: push_ok_def dequeuePush_def)

text \<open>A step of the two goroutines on the queue: the selector enqueues, the drainer drains.\<close>

datatype push_step = PEnqueue push_item int | PDrain arr_world arr_tables

fun push_run :: "push_step list \<Rightarrow> push_state \<Rightarrow> (int \<times> message_event) list \<times> push_state" where
  "push_run [] m = ([], m)"
| "push_run (PEnqueue p now # ss) m = push_run ss (enqueuePush p now m)"
| "push_run (PDrain w t # ss) m =
     (case drainOne w t m of (e, m1) \<Rightarrow>
        (case push_run ss m1 of (es, m2) \<Rightarrow>
           ((case e of None \<Rightarrow> es | Some ev \<Rightarrow> (aw_now w, ev) # es), m2)))"

fun drain_times :: "push_step list \<Rightarrow> int list" where
  "drain_times [] = []"
| "drain_times (PEnqueue p now # ss) = drain_times ss"
| "drain_times (PDrain w t # ss) = aw_now w # drain_times ss"

lemma drain_cases:
  assumes "drainOne w t m = (e, m1)"
  shows "m1 = snd (dequeuePush (aw_now w) m) \<and> e = None
    \<or> (\<exists>ev. e = Some ev \<and> nudgeCooldownSec \<le> aw_now w - ggetz 0 (ps_lastNudged (snd (dequeuePush (aw_now w) m))) (ev_ChatID ev)
         \<and> m1 = (snd (dequeuePush (aw_now w) m))\<lparr>ps_lastNudged :=
             gput (ev_ChatID ev) (aw_now w) (ps_lastNudged (snd (dequeuePush (aw_now w) m)))\<rparr>)"
  using assms
  by (auto simp: drainOne_def Let_def drain_event_def internal_event_def split: prod.splits option.splits if_splits gateway_view.splits)

lemma drain_ok: "push_ok m \<Longrightarrow> push_ok (snd (drainOne w t m))"
  using drain_cases[of w t m "fst (drainOne w t m)" "snd (drainOne w t m)"] dequeue_ok[of m "aw_now w"]
  by (auto simp: push_ok_def)

text \<open>\<open>recalls\<close>: from \<open>now\<close> on, the stamp of an emission at \<open>ts\<close> is read for as long as the cooldown lasts.\<close>

definition recalls :: "push_state \<Rightarrow> int \<Rightarrow> string \<Rightarrow> int \<Rightarrow> bool" where
  "recalls m now scope ts \<longleftrightarrow> ts \<le> now \<and> (ts + nudgeCooldownSec > now \<longrightarrow> ts \<le> ggetz 0 (ps_lastNudged m) scope)"

lemma recalls_dequeue:
  assumes "push_ok m" "recalls m now scope ts" "now \<le> now'"
  shows "recalls (snd (dequeuePush now' m)) now' scope ts"
proof (cases "ps_pushQ m")
  case (Cons p ps)
  have "ggetz 0 (filter (\<lambda>(scope, ts). \<not> ts < now' - nudgeCooldownSec) (ps_lastNudged m)) scope = ggetz 0 (ps_lastNudged m) scope"
    if "ts \<le> ggetz 0 (ps_lastNudged m) scope" "now' < ts + nudgeCooldownSec"
  proof -
    have g: "gmap_ok (ps_lastNudged m)" using assms(1) by (simp add: push_ok_def)
    show ?thesis unfolding ggetz_def gget_filter_kv[OF g, of "\<lambda>s ts. \<not> ts < now' - nudgeCooldownSec" scope]
      using that by (cases "gget (ps_lastNudged m) scope") (simp_all add: ggetz_def)
  qed
  then show ?thesis using assms(2,3) Cons by (auto simp: recalls_def dequeuePush_def)
qed (use assms(2,3) in \<open>auto simp: recalls_def dequeuePush_def\<close>)

lemma recalls_drain:
  assumes "push_ok m" "recalls m now scope ts" "now \<le> aw_now w" "drainOne w t m = (e, m1)"
  shows "recalls m1 (aw_now w) scope ts"
  using recalls_dequeue[OF assms(1-3)] drain_cases[OF assms(4)] by (auto simp: recalls_def)

lemma wakes_from:
  assumes "push_ok m" "sorted (now # drain_times ss)" "recalls m now scope ts" "(ts', ev) \<in> set (fst (push_run ss m))" "ev_ChatID ev = scope"
  shows "ts + nudgeCooldownSec \<le> ts'"
  using assms(1-4)
proof (induction ss m arbitrary: now rule: push_run.induct)
  case (2 p n ss m)
  then show ?case using enqueue_ok[of m p n] by (auto simp: recalls_def enqueuePush_def split: if_splits)
next
  case (3 w t ss m)
  obtain e m1 where d: "drainOne w t m = (e, m1)" by fastforce
  have m1: "push_ok m1" "recalls m1 (aw_now w) scope ts"
    using drain_ok[OF 3(2), of w t] recalls_drain[OF 3(2,4) _ d] 3(3) d by simp_all
  show ?case
  proof (cases "e = Some ev \<and> ts' = aw_now w")
    case True
    then have "nudgeCooldownSec \<le> aw_now w - ggetz 0 (ps_lastNudged (snd (dequeuePush (aw_now w) m))) scope"
      using drain_cases[OF d] assms(5) by auto
    moreover have "recalls (snd (dequeuePush (aw_now w) m)) (aw_now w) scope ts"
      using recalls_dequeue[OF 3(2,4)] 3(3) by simp
    ultimately show ?thesis using True by (auto simp: recalls_def)
  next
    case False
    then have "(ts', ev) \<in> set (fst (push_run ss m1))" using 3(5) d by (auto split: prod.splits option.splits)
    then show ?thesis using 3(1)[OF d[symmetric] m1(1) _ m1(2)] 3(3) d by simp
  qed
qed simp

text \<open>
  A member is woken gently: in every interleaving of the selector and the drainer, with clocks that do
  not run backwards, two wakes for the same scope are at least the cooldown of thirty seconds apart,
  whatever arrangements they are for, and although the stamps of old wakes are dropped to keep the
  map small.
\<close>

theorem wakes_spaced:
  assumes "push_ok m" "sorted (drain_times ss)" "fst (push_run ss m) = pre @ (t1, e1) # mid @ (t2, e2) # post"
    "ev_ChatID e1 = ev_ChatID e2"
  shows "t1 + nudgeCooldownSec \<le> t2"
  using assms(1-3)
proof (induction ss m arbitrary: pre rule: push_run.induct)
  case (2 p n ss m)
  then show ?case using enqueue_ok by simp
next
  case (3 w t ss m)
  obtain e m1 where d: "drainOne w t m = (e, m1)" by fastforce
  obtain es m2 where r: "push_run ss m1 = (es, m2)" by fastforce
  have m1: "push_ok m1" using drain_ok[OF 3(2), of w t] d by simp
  note IH = 3(1)[OF d[symmetric] m1, unfolded r]
  show ?case
  proof (cases "e \<noteq> None \<and> pre = []")
    case True
    then obtain ev where ev: "e = Some ev" by blast
    then have t1: "t1 = aw_now w" "e1 = ev" and mid: "(t2, e2) \<in> set es" using 3(4) True d r by auto
    have "recalls m1 (aw_now w) (ev_ChatID ev) (aw_now w)" using drain_cases[OF d] ev by (auto simp: recalls_def)
    then show ?thesis using wakes_from[OF m1 _ _ _ refl, of "aw_now w" ss e2 "aw_now w" t2] 3(3) mid r t1 assms(4) by simp
  next
    case False
    then obtain pre' where "es = pre' @ (t1, e1) # mid @ (t2, e2) # post"
      using 3(4) d r by (cases pre) (auto split: option.splits)
    then show ?thesis using IH[of pre'] 3(3) by simp
  qed
qed simp

subsection \<open>Concrete runs\<close>

definition demo_buckets :: "bucket list" where
  "demo_buckets = [\<lparr>bk_Role = ''draft'', bk_Content = ''write it''\<rparr>, \<lparr>bk_Role = ''verify'', bk_Content = ''check it''\<rparr>]"

definition demo_def :: arr_def where
  "demo_def = \<lparr>ad_ID = ''arr_1'', ad_Company = ''acme'', ad_Author = ''u'', ad_Status = ''started'', ad_Spec = ''spec'',
     ad_CreatedAt = 10, ad_UpdatedAt = 10\<rparr>"

definition demo_work :: work_item where
  "demo_work = \<lparr>wi_ID = ''ari_1'', wi_ArrangementID = ''arr_1'', wi_Role = ''verify'', wi_Priority = 0, wi_Payload = [],
     wi_Status = ''in_flight'', wi_ClaimedBy = ''internal:dm:7'', wi_ClaimedAt = 20, wi_CreatedAt = 10, wi_UpdatedAt = 20\<rparr>"

definition demo_tables :: arr_tables where
  "demo_tables = \<lparr>t_defs = [demo_def], t_items = [demo_work]\<rparr>"

definition demo_agora :: agora_view where
  "demo_agora = \<lparr>ag_CompanyActive = (\<lambda>c. c = ''acme''), ag_MemberScopesForRole = (\<lambda>c r. [''internal:dm:7'']),
     ag_RoleProjection = (\<lambda>c r. [''tool:use:arrangement_pull'', ''tool:use:arrangement_submit'']),
     ag_CompanyBridgeScope = (\<lambda>c. None)\<rparr>"

definition demo_arr_world :: "int \<Rightarrow> (string \<Rightarrow> nat) \<Rightarrow> (nat \<Rightarrow> arr_tables \<Rightarrow> arr_tables) \<Rightarrow> arr_world" where
  "demo_arr_world now running others =
     \<lparr>aw_agora = Some demo_agora, aw_running = Some running, aw_gateway = Emitter (\<lambda>ev. True),
      aw_unmarshal = (\<lambda>raw. if raw = ''spec'' then Some demo_buckets else None), aw_db = (\<lambda>c. Fine),
      aw_claim_db = (\<lambda>n. (Fine, Fine, Fine)), aw_others = others, aw_claim_others = (\<lambda>n t. t),
      aw_now = now, aw_clock = 0, aw_newID = (\<lambda>p. p @ ''_2''), aw_FormatInt = (\<lambda>n. ''0'')\<rparr>"

lemma demo_parses: "parseSpec (\<lambda>raw. if raw = ''spec'' then Some demo_buckets else None) ''spec'' = Inr demo_buckets"
  by code_simp


theorem handlers_refine_machine_witness:
  "fair_world (demo_arr_world 30 (\<lambda>s. 0) (\<lambda>n t. t))
   \<and> legal_run demo_tables (snd (Cancel (demo_arr_world 30 (\<lambda>s. 0) (\<lambda>n t. t)) ''arr_1'' demo_tables))
   \<and> fst (Cancel (demo_arr_world 30 (\<lambda>s. 0) (\<lambda>n t. t)) ''arr_1'' demo_tables) = None"
proof -
  have f: "fair_world (demo_arr_world 30 (\<lambda>s. 0) (\<lambda>n t. t))" by (simp add: fair_world_def demo_arr_world_def)
  moreover have "fst (Cancel (demo_arr_world 30 (\<lambda>s. 0) (\<lambda>n t. t)) ''arr_1'' demo_tables) = None" by code_simp
  ultimately show ?thesis using handlers_refine_machine[OF f] by blast
qed

theorem live_worker_keeps_item_witness:
  "demo_work \<in> set (t_items (snd (selectRound (demo_arr_world 100000 (\<lambda>s. 1) (\<lambda>n t. t)) (no_pushes, demo_tables))))"
proof (rule live_worker_keeps_item[where running = "\<lambda>s. 1"])
  show "tables_ok demo_tables" by code_simp
qed (simp_all add: demo_tables_def demo_work_def demo_arr_world_def)

definition demo_queued :: arr_tables where
  "demo_queued = \<lparr>t_defs = [demo_def], t_items = [demo_work\<lparr>wi_Status := ''queued''\<rparr>]\<rparr>"

definition demo_wake :: push_item where
  "demo_wake = \<lparr>pi_arrangementID = ''arr_1'', pi_role = ''verify'', pi_scope = ''internal:dm:7''\<rparr>"

definition demo_steps :: "push_step list" where
  "demo_steps = [PEnqueue demo_wake 100, PDrain (demo_arr_world 108 (\<lambda>s. 0) (\<lambda>n t. t)) demo_queued,
     PEnqueue demo_wake 120, PDrain (demo_arr_world 124 (\<lambda>s. 0) (\<lambda>n t. t)) demo_queued,
     PEnqueue demo_wake 140, PDrain (demo_arr_world 148 (\<lambda>s. 0) (\<lambda>n t. t)) demo_queued]"

theorem wakes_spaced_witness:
  "map fst (fst (push_run demo_steps no_pushes)) = [108, 148] \<and> (108 :: int) + nudgeCooldownSec \<le> 148"
proof -
  have m: "map (\<lambda>(ts, ev). (ts, ev_ChatID ev)) (fst (push_run demo_steps no_pushes)) = [(108, ''internal:dm:7''), (148, ''internal:dm:7'')]"
    by code_simp
  then obtain e1 e2 where e: "fst (push_run demo_steps no_pushes) = [] @ (108, e1) # [] @ (148, e2) # []" "ev_ChatID e1 = ev_ChatID e2"
    by auto
  have "push_ok no_pushes" "sorted (drain_times demo_steps)"
    by (simp_all add: push_ok_def no_pushes_def demo_steps_def demo_arr_world_def)
  from wakes_spaced[OF this e] e show ?thesis by simp
qed

text \<open>
  The status check of \<^verbatim>\<open>Inject\<close> and its insert are two statements. When the last live item is finished
  in between, the arrangement is closed and the insert still succeeds: the caller gets the id of an
  item that no pull can reach any more, and that goes with the arrangement at the next sweep.
\<close>

definition last_item_done :: "nat \<Rightarrow> arr_tables \<Rightarrow> arr_tables" where
  "last_item_done n t = run_ops [OpRoute ''ari_1'' ''internal:dm:7'' ''verify'' ''done'' [] 30, OpCompleteDef ''arr_1'' 30] t"

definition demo_inject :: arrange_inject where
  "demo_inject = \<lparr>ij_ArrangementID = ''arr_1'', ij_Stage = ''verify'', ij_Payload = ''more'', ij_Priority = 0\<rparr>"

definition demo_pull :: arrange_pull where
  "demo_pull = \<lparr>pl_CallerScope = ''internal:dm:7'', pl_ArrangementID = ''arr_1'', pl_Role = ''verify''\<rparr>"

lemma inject_can_strand_item:
  "case Inject (demo_arr_world 30 (\<lambda>s. 0) last_item_done) demo_inject demo_tables of (r, t) \<Rightarrow>
     r = Inr ''ari_2'' \<and> CountQueued ''arr_1'' ''verify'' t = 1
     \<and> fst (Pull (demo_arr_world 40 (\<lambda>s. 0) (\<lambda>n t. t)) demo_pull t) = Inr None
     \<and> t_items (snd (terminal_defs_sweep (demo_arr_world 1000000 (\<lambda>s. 0) (\<lambda>n t. t)) t)) = []"
  by code_simp

end
