(* ===== verification/Channel_Pool.thy ===== *)
theory Channel_Pool
  imports Prelude "HOL-Library.Multiset"
begin

section \<open>The channel pool\<close>

text \<open>
  \<^verbatim>\<open>src/leaf/tools/40-pool.go\<close>: the keeper of live exec channels. The map of the pool is
  changed only under its mutex, so each critical section is one operation here; what happens
  outside the lock (building a channel, closing it) happens between two of them. \<open>acquire_fast\<close>
  and \<open>acquire_store\<close> are the two critical sections of \<^verbatim>\<open>Acquire\<close>, and the step relation
  interleaves those of any number of callers with \<^verbatim>\<open>Recycle\<close> and the sweeps. A channel's
  \<^verbatim>\<open>Alive()\<close> is a reading the operation makes: the argument \<open>alive\<close>. \<open>closed\<close> records the
  calls of \<^verbatim>\<open>Close\<close>.

  What the authority needs of a pool is the locale \<open>channel_keeper\<close>.
\<close>

definition channelIdle :: duration where
  "channelIdle = 10 * minute"

record channelKey =
  ck_Identity :: string
  ck_Space :: string
  ck_Kind :: string

record 'ch pooled =
  pl_ch :: 'ch
  pl_lastUsed :: gtime

record 'ch pool =
  chans :: "(channelKey, 'ch pooled) gomap"
  closed :: "'ch list"

definition newPool :: "'ch pool" where
  "newPool = \<lparr>chans = [], closed = []\<rparr>"

definition live :: "'ch pool \<Rightarrow> nat" where
  "live p = length (chans p)"

definition acquire_fast :: "('ch \<Rightarrow> bool) \<Rightarrow> gtime \<Rightarrow> 'ch pool \<Rightarrow> channelKey \<Rightarrow> 'ch option \<times> 'ch pool" where
  "acquire_fast alive now p key =
     (case gget (chans p) key of
        Some e \<Rightarrow> if alive (pl_ch e)
                  then (Some (pl_ch e), p\<lparr>chans := gput key (e\<lparr>pl_lastUsed := now\<rparr>) (chans p)\<rparr>)
                  else (None, p)
      | None \<Rightarrow> (None, p))"

definition acquire_store :: "('ch \<Rightarrow> bool) \<Rightarrow> gtime \<Rightarrow> 'ch pool \<Rightarrow> channelKey \<Rightarrow> 'ch \<Rightarrow> 'ch \<times> 'ch pool" where
  "acquire_store alive now p key ch =
     (case gget (chans p) key of
        Some e \<Rightarrow>
          if alive (pl_ch e)
          then (pl_ch e, p\<lparr>chans := gput key (e\<lparr>pl_lastUsed := now\<rparr>) (chans p), closed := closed p @ [ch]\<rparr>)
          else (ch, p\<lparr>chans := gput key \<lparr>pl_ch = ch, pl_lastUsed = now\<rparr> (chans p),
                       closed := closed p @ [pl_ch e]\<rparr>)
      | None \<Rightarrow> (ch, p\<lparr>chans := gput key \<lparr>pl_ch = ch, pl_lastUsed = now\<rparr> (chans p)\<rparr>))"

text \<open>\<^verbatim>\<open>Acquire\<close> as one caller runs it when no other operation interleaves; \<open>built\<close> is what its
  \<^verbatim>\<open>build\<close> returns.\<close>

definition Acquire :: "('ch \<Rightarrow> bool) \<Rightarrow> gtime \<Rightarrow> 'ch pool \<Rightarrow> channelKey \<Rightarrow> ('e + 'ch) \<Rightarrow> ('e + 'ch) \<times> 'ch pool" where
  "Acquire alive now p key built =
     (case acquire_fast alive now p key of
        (Some ch, p') \<Rightarrow> (Inr ch, p')
      | (None, p') \<Rightarrow>
          (case built of
             Inl e \<Rightarrow> (Inl e, p')
           | Inr ch \<Rightarrow> let (c, p'') = acquire_store alive now p' key ch in (Inr c, p'')))"

text \<open>Every sweep drops the entries that satisfy a predicate and closes their channels.\<close>

definition drop_where :: "(channelKey \<Rightarrow> 'ch pooled \<Rightarrow> bool) \<Rightarrow> 'ch pool \<Rightarrow> 'ch pool" where
  "drop_where P p = p\<lparr>
     chans := filter (\<lambda>(key, e). \<not> P key e) (chans p),
     closed := closed p @ map (\<lambda>(key, e). pl_ch e) (filter (\<lambda>(key, e). P key e) (chans p))\<rparr>"

definition Recycle :: "'ch pool \<Rightarrow> string \<Rightarrow> 'ch pool" where
  "Recycle p identity = drop_where (\<lambda>key e. ck_Identity key = identity) p"

definition sweepIdle :: "('ch \<Rightarrow> bool) \<Rightarrow> gtime \<Rightarrow> 'ch pool \<Rightarrow> 'ch pool" where
  "sweepIdle alive now p =
     (let cutoff = now - channelIdle
      in drop_where (\<lambda>key e. pl_lastUsed e < cutoff \<or> \<not> alive (pl_ch e)) p)"

definition closeAll :: "'ch pool \<Rightarrow> 'ch pool" where
  "closeAll p = drop_where (\<lambda>key e. True) p"

definition pool_ok :: "'ch pool \<Rightarrow> bool" where
  "pool_ok p \<longleftrightarrow> gmap_ok (chans p)"

definition held :: "'ch pool \<Rightarrow> 'ch list" where
  "held p = map (pl_ch \<circ> snd) (chans p)"

subsection \<open>Interface for the authority\<close>

locale channel_keeper =
  fixes ok :: "'p \<Rightarrow> bool"
    and holds :: "'p \<Rightarrow> channelKey \<Rightarrow> 'c option"
    and was_closed :: "'p \<Rightarrow> 'c set"
    and recycle :: "'p \<Rightarrow> string \<Rightarrow> 'p"
  assumes recycle_ok: "ok p \<Longrightarrow> ok (recycle p i)"
    and recycle_holds: "ok p \<Longrightarrow> holds (recycle p i) k = (if ck_Identity k = i then None else holds p k)"
    and recycle_closes: "ok p \<Longrightarrow> was_closed (recycle p i) =
          was_closed p \<union> {c. \<exists>k. ck_Identity k = i \<and> holds p k = Some c}"
begin

lemma recycle_all:
  assumes "ok p"
  shows "ok (fold (\<lambda>i q. recycle q i) is p)"
    and "holds (fold (\<lambda>i q. recycle q i) is p) k = (if ck_Identity k \<in> set is then None else holds p k)"
    and "was_closed (fold (\<lambda>i q. recycle q i) is p) =
           was_closed p \<union> {c. \<exists>k. ck_Identity k \<in> set is \<and> holds p k = Some c}"
proof -
  have "ok (fold (\<lambda>i q. recycle q i) is p)
    \<and> (\<forall>k. holds (fold (\<lambda>i q. recycle q i) is p) k = (if ck_Identity k \<in> set is then None else holds p k))
    \<and> was_closed (fold (\<lambda>i q. recycle q i) is p) =
           was_closed p \<union> {c. \<exists>k. ck_Identity k \<in> set is \<and> holds p k = Some c}"
    using assms
  proof (induction "is" arbitrary: p)
    case (Cons i "is")
    from Cons.IH[OF recycle_ok[OF Cons.prems], of i] Cons.prems show ?case
      by (auto simp: recycle_holds recycle_closes)
  qed simp
  then show "ok (fold (\<lambda>i q. recycle q i) is p)"
    "holds (fold (\<lambda>i q. recycle q i) is p) k = (if ck_Identity k \<in> set is then None else holds p k)"
    "was_closed (fold (\<lambda>i q. recycle q i) is p) =
           was_closed p \<union> {c. \<exists>k. ck_Identity k \<in> set is \<and> holds p k = Some c}" by auto
qed

end

definition holds :: "'ch pool \<Rightarrow> channelKey \<Rightarrow> 'ch option" where
  "holds p key = map_option pl_ch (gget (chans p) key)"

lemma holds_mem: "pool_ok p \<Longrightarrow> holds p k = Some c \<longleftrightarrow> (\<exists>e. (k, e) \<in> set (chans p) \<and> pl_ch e = c)"
  by (auto simp: holds_def pool_ok_def)

lemma drop_where_ok: "pool_ok p \<Longrightarrow> pool_ok (drop_where P p)"
  by (simp add: pool_ok_def drop_where_def)

interpretation keeper: channel_keeper pool_ok holds "\<lambda>p. set (closed p)" Recycle
proof unfold_locales
  fix p :: "'a pool" and i k
  assume p: "pool_ok p"
  show "pool_ok (Recycle p i)" using p by (simp add: Recycle_def drop_where_ok)
  show "holds (Recycle p i) k = (if ck_Identity k = i then None else holds p k)"
    using gget_filter_keys[of "\<lambda>k. ck_Identity k \<noteq> i" "chans p" k]
    by (simp add: holds_def Recycle_def drop_where_def)
  show "set (closed (Recycle p i)) = set (closed p) \<union> {c. \<exists>k. ck_Identity k = i \<and> holds p k = Some c}"
    using p by (auto simp: holds_mem Recycle_def drop_where_def image_iff)
qed

subsection \<open>Interleavings: no channel is lost and none is closed twice\<close>

text \<open>The state of a run: the pool, the channels built and not yet stored (with their keys), and
  every channel opened so far. A build gives a channel that was not opened before.\<close>

inductive pool_step ::
  "'ch pool \<times> (channelKey \<times> 'ch) list \<times> 'ch list \<Rightarrow> 'ch pool \<times> (channelKey \<times> 'ch) list \<times> 'ch list \<Rightarrow> bool"
where
  fast: "acquire_fast alive now p key = (r, p') \<Longrightarrow> pool_step (p, fl, op) (p', fl, op)"
| build: "ch \<notin> set op \<Longrightarrow> pool_step (p, fl, op) (p, (key, ch) # fl, ch # op)"
| store: "(key, ch) \<in> set fl \<Longrightarrow> acquire_store alive now p key ch = (r, p') \<Longrightarrow>
    pool_step (p, fl, op) (p', remove1 (key, ch) fl, op)"
| recycle: "pool_step (p, fl, op) (Recycle p i, fl, op)"
| sweep: "pool_step (p, fl, op) (sweepIdle alive now p, fl, op)"
| shut: "pool_step (p, fl, op) (closeAll p, fl, op)"

inductive_cases pool_stepE: "pool_step (p, fl, op) s'"

inductive pool_run :: "'ch pool \<times> (channelKey \<times> 'ch) list \<times> 'ch list \<Rightarrow> bool" where
  init: "pool_run (newPool, [], [])"
| more: "pool_run s \<Longrightarrow> pool_step s s' \<Longrightarrow> pool_run s'"

definition accounted :: "'ch pool \<Rightarrow> (channelKey \<times> 'ch) list \<Rightarrow> 'ch list \<Rightarrow> bool" where
  "accounted p fl op \<longleftrightarrow> pool_ok p \<and> distinct op
     \<and> mset op = mset (held p) + mset (closed p) + mset (map snd fl)"

lemma gput_split:
  assumes "gget m k = Some e"
  obtains xs ys where "m = xs @ (k, e) # ys" and "\<And>v. gput k v m = xs @ (k, v) # ys"
proof -
  have "\<exists>xs ys. m = xs @ (k, e) # ys \<and> (\<forall>v. gput k v m = xs @ (k, v) # ys)"
    using assms
  proof (induction m)
    case (Cons x m)
    show ?case
    proof (cases "fst x = k")
      case True
      with Cons.prems show ?thesis by (intro exI[of _ "[]"] exI[of _ m]) (cases x; auto)
    next
      case False
      with Cons obtain xs ys where "m = xs @ (k, e) # ys" "\<forall>v. gput k v m = xs @ (k, v) # ys"
        by (cases x) auto
      with False show ?thesis by (intro exI[of _ "x # xs"] exI[of _ ys]) (cases x; auto)
    qed
  qed simp
  with that show ?thesis by blast
qed

lemma gput_fresh: "gget m k = None \<Longrightarrow> gput k v m = m @ [(k, v)]"
  by (induction m) (auto split: if_splits)

lemma mset_held_put_some:
  "gget (chans p) key = Some e \<Longrightarrow>
     mset (held (p\<lparr>chans := gput key v (chans p)\<rparr>)) + {#pl_ch e#} = mset (held p) + {#pl_ch v#}"
  by (erule gput_split[of "chans p"]) (simp add: held_def)

lemma held_closed_irrelevant [simp]: "held (p\<lparr>closed := c\<rparr>) = held p"
  by (simp add: held_def)

lemma accounted_fast:
  assumes "accounted p fl op" and "acquire_fast alive now p key = (r, p')"
  shows "accounted p' fl op"
proof (cases "gget (chans p) key")
  case (Some e)
  from mset_held_put_some[OF this, of "e\<lparr>pl_lastUsed := now\<rparr>"] assms Some show ?thesis
    by (auto simp: accounted_def acquire_fast_def pool_ok_def split: if_splits)
qed (use assms in \<open>auto simp: acquire_fast_def\<close>)

lemma accounted_store:
  assumes "accounted p fl op" and "(key, ch) \<in> set fl" and "acquire_store alive now p key ch = (r, p')"
  shows "accounted p' (remove1 (key, ch) fl) op"
proof -
  have fl: "mset (map snd fl) = mset (map snd (remove1 (key, ch) fl)) + {#ch#}"
    using assms(2) by (induction fl) auto
  show ?thesis
  proof (cases "gget (chans p) key")
    case (Some e)
    from mset_held_put_some[OF this, of "e\<lparr>pl_lastUsed := now\<rparr>"]
      mset_held_put_some[OF this, of "\<lparr>pl_ch = ch, pl_lastUsed = now\<rparr>"] assms(1,3) Some fl
    show ?thesis
      by (auto simp: accounted_def acquire_store_def pool_ok_def held_def ac_simps split: if_splits)
  next
    case None
    with assms(1,3) fl show ?thesis
      by (auto simp: accounted_def acquire_store_def pool_ok_def held_def gput_fresh)
  qed
qed

lemma accounted_drop: "accounted p fl op \<Longrightarrow> accounted (drop_where P p) fl op"
proof -
  have "mset (map (pl_ch \<circ> snd) m) = mset (map (pl_ch \<circ> snd) (filter (\<lambda>(k, e). \<not> P k e) m))
          + mset (map (\<lambda>(k, e). pl_ch e) (filter (\<lambda>(k, e). P k e) m))" for m
    by (induction m) auto
  from this[of "chans p"] show "accounted p fl op \<Longrightarrow> accounted (drop_where P p) fl op"
    by (auto simp: accounted_def held_def drop_where_def pool_ok_def)
qed

lemma pool_run_accounted: "pool_run s \<Longrightarrow> accounted (fst s) (fst (snd s)) (snd (snd s))"
proof (induction rule: pool_run.induct)
  case init
  then show ?case by (simp add: accounted_def newPool_def pool_ok_def held_def)
next
  case (more s s')
  obtain p fl op where s: "s = (p, fl, op)" by (metis prod_cases3)
  with more have a: "accounted p fl op" by simp
  have b: "accounted p ((key, ch) # fl) (ch # op)" if "ch \<notin> set op" for key ch
    using a that by (simp add: accounted_def)
  from more.hyps(2)[unfolded s] show ?case
    by (rule pool_stepE)
      (auto simp: Recycle_def sweepIdle_def closeAll_def Let_def
         intro: b accounted_drop[OF a] accounted_fast[OF a] accounted_store[OF a])
qed

text \<open>
  In every interleaving of any number of \<^verbatim>\<open>Acquire\<close> calls with revocations, idle sweeps and
  the shutdown, each channel ever built is at every moment in exactly one place: pooled under one key,
  closed by the pool exactly once, or still in the hands of the call that built it. So after the
  shutdown's \<^verbatim>\<open>closeAll\<close>, with no build under way, every channel has been closed once.
\<close>

theorem pool_never_leaks:
  assumes "pool_run (p, inflight, opened)"
  shows "mset opened = mset (held p) + mset (closed p) + mset (map snd inflight)
    \<and> distinct (held p @ closed p @ map snd inflight)
    \<and> (inflight = [] \<longrightarrow> chans (closeAll p) = [] \<and> mset (closed (closeAll p)) = mset opened)"
proof -
  from pool_run_accounted[OF assms] have a: "accounted p inflight opened" by simp
  then have m: "mset opened = mset (held p @ closed p @ map snd inflight)" and "distinct opened"
    by (simp_all add: accounted_def ac_simps)
  then have "distinct (held p @ closed p @ map snd inflight)" by (metis mset_eq_imp_distinct_iff)
  moreover have "chans (closeAll p) = []" by (simp add: closeAll_def drop_where_def)
  moreover have "accounted (closeAll p) inflight opened" using a by (simp add: closeAll_def accounted_drop)
  ultimately show ?thesis using m a by (auto simp: accounted_def held_def)
qed

definition demo_key :: "string \<Rightarrow> channelKey" where
  "demo_key who = \<lparr>ck_Identity = who, ck_Space = ''build'', ck_Kind = ''exec''\<rparr>"

theorem pool_never_leaks_witness:
  "\<exists>p. pool_run (p, [], [2, 1 :: nat]) \<and> distinct (held p @ closed p) \<and> set (held p @ closed p) = {1, 2}
     \<and> holds p (demo_key ''alice'') = Some 1"
proof -
  let ?k = "demo_key ''alice''"
  let ?p1 = "\<lparr>chans = [(?k, \<lparr>pl_ch = 1 :: nat, pl_lastUsed = 5\<rparr>)], closed = []\<rparr>"
  let ?p2 = "\<lparr>chans = [(?k, \<lparr>pl_ch = 1 :: nat, pl_lastUsed = 6\<rparr>)], closed = [2]\<rparr>"
  have s1: "acquire_store (\<lambda>_. True) 5 newPool ?k 1 = (1 :: nat, ?p1)"
    by (simp add: acquire_store_def newPool_def)
  have s2: "acquire_store (\<lambda>_. True) 6 ?p1 ?k 2 = (1, ?p2)" by (simp add: acquire_store_def)
  have "pool_run (newPool, [(?k, 1 :: nat)], [1])" by (rule more[OF init]) (rule build, simp)
  then have "pool_run (newPool, [(?k, 2), (?k, 1)], [2, 1 :: nat])" by (rule more) (rule build, simp)
  then have "pool_run (?p1, remove1 (?k, 1) [(?k, 2), (?k, 1)], [2, 1])"
    by (rule more) (rule store[OF _ s1], simp)
  then have "pool_run (?p2, remove1 (?k, 2) (remove1 (?k, 1) [(?k, 2), (?k, 1)]), [2, 1])"
    by (rule more) (rule store[OF _ s2], simp)
  then have r: "pool_run (?p2, [], [2, 1])" by simp
  from pool_never_leaks[OF r] have "distinct (held ?p2 @ closed ?p2)" by simp
  moreover have "set (held ?p2 @ closed ?p2) = {1, 2}" by (auto simp: held_def)
  moreover have "holds ?p2 ?k = Some 1" by (simp add: holds_def)
  ultimately show ?thesis using r by blast
qed

subsection \<open>Sequential behaviour\<close>

lemma Acquire_holds:
  "Acquire alive now p key built = (Inr ch, p') \<Longrightarrow> holds p' key = Some ch"
  by (auto simp: Acquire_def acquire_fast_def acquire_store_def holds_def Let_def
      split: option.splits if_splits sum.splits prod.splits)

lemma Acquire_frame:
  "Acquire alive now p key built = (r, p') \<Longrightarrow> k \<noteq> key \<Longrightarrow> holds p' k = holds p k"
  by (auto simp: Acquire_def acquire_fast_def acquire_store_def holds_def Let_def
      split: option.splits if_splits sum.splits prod.splits)

lemma Acquire_ok: "Acquire alive now p key built = (r, p') \<Longrightarrow> pool_ok p \<Longrightarrow> pool_ok p'"
  by (auto simp: Acquire_def acquire_fast_def acquire_store_def pool_ok_def Let_def
      split: option.splits if_splits sum.splits prod.splits)

text \<open>
  The window the pool leaves open: a build that is under way while its principal is revoked is
  stored after the revocation, so the pool then holds a live channel of that principal which no
  \<^verbatim>\<open>Recycle\<close> has closed.
\<close>

theorem revocation_misses_inflight_build:
  assumes "pool_ok p" and "ck_Identity key = i"
    and "acquire_store alive now (Recycle p i) key ch = (r, p')"
  shows "r = ch \<and> holds p' key = Some ch \<and> closed p' = closed (Recycle p i)"
proof -
  have "gget (chans (Recycle p i)) key = None"
    using keeper.recycle_holds[OF assms(1), of i key] assms(2) by (simp add: holds_def)
  with assms(3) show ?thesis by (auto simp: acquire_store_def holds_def)
qed

theorem revocation_misses_inflight_build_witness:
  "\<exists>p'. acquire_store (\<lambda>_. True) 5 (Recycle newPool ''alice'') (demo_key ''alice'') (1::nat) = (1, p')
     \<and> holds p' (demo_key ''alice'') = Some 1"
proof -
  let ?r = "acquire_store (\<lambda>_. True) 5 (Recycle newPool ''alice'') (demo_key ''alice'') (1::nat)"
  have "pool_ok newPool" by (simp add: pool_ok_def newPool_def)
  from revocation_misses_inflight_build[OF this, of "demo_key ''alice''" "''alice''" "\<lambda>_. True" 5 1 "fst ?r" "snd ?r"]
  show ?thesis by (intro exI[of _ "snd ?r"]) (simp add: demo_key_def prod_eq_iff)
qed

end
