(* ===== verification/Claim_Token.thy ===== *)
theory Claim_Token
  imports Prelude
begin

section \<open>Claim tokens\<close>

text \<open>
  \<^verbatim>\<open>src/leaf/claimtoken/10-module.go\<close>: minting, verifying, consuming and sweeping of bearer
  tokens. Each operation holds the mutex of the store. The random token of \<^verbatim>\<open>randToken\<close> is an
  argument of \<open>Mint\<close>. Expiry is kept in whole seconds, as the code does, while the clock has
  nanoseconds. What the gate relies on is the locale \<open>claim_tokens\<close>.
\<close>

definition sweepPeriod :: duration where
  "sweepPeriod = 10 * minute"

record 'p entry =
  e_kind :: string
  e_payload :: 'p
  e_expUnix :: int

type_synonym 'p toks = "(string, 'p entry) gomap"

definition unix :: "gtime \<Rightarrow> int" where
  "unix t = t div second"

definition Mint :: "string \<Rightarrow> gtime \<Rightarrow> 'p toks \<Rightarrow> string \<Rightarrow> 'p \<Rightarrow> duration \<Rightarrow> string \<times> 'p toks" where
  "Mint randTok now m kind payload ttl =
     (randTok, gput randTok \<lparr>e_kind = kind, e_payload = payload, e_expUnix = unix (now + ttl)\<rparr> m)"

definition Verify :: "gtime \<Rightarrow> 'p toks \<Rightarrow> string \<Rightarrow> (string \<times> 'p) option \<times> 'p toks" where
  "Verify now m token =
     (if token = [] then (None, m)
      else case gget m token of
             None \<Rightarrow> (None, m)
           | Some e \<Rightarrow> if e_expUnix e \<le> unix now then (None, gdel token m)
                       else (Some (e_kind e, e_payload e), m))"

definition Consume :: "'p toks \<Rightarrow> string \<Rightarrow> 'p toks" where
  "Consume m token = (if token = [] then m else gdel token m)"

definition sweep :: "gtime \<Rightarrow> 'p toks \<Rightarrow> 'p toks" where
  "sweep now m = filter (\<lambda>(tok, e). \<not> e_expUnix e \<le> unix now) m"

text \<open>What a token is worth at an instant.\<close>

definition worth :: "'p toks \<Rightarrow> gtime \<Rightarrow> string \<Rightarrow> (string \<times> 'p) option" where
  "worth m now token =
     (if token = [] then None
      else case gget m token of
             None \<Rightarrow> None
           | Some e \<Rightarrow> if unix now < e_expUnix e then Some (e_kind e, e_payload e) else None)"

subsection \<open>The contract its clients use\<close>

locale claim_tokens =
  fixes ok :: "'s \<Rightarrow> bool"
    and worth_of :: "'s \<Rightarrow> gtime \<Rightarrow> string \<Rightarrow> (string \<times> 'p) option"
    and mint :: "string \<Rightarrow> gtime \<Rightarrow> 's \<Rightarrow> string \<Rightarrow> 'p \<Rightarrow> duration \<Rightarrow> string \<times> 's"
    and verify :: "gtime \<Rightarrow> 's \<Rightarrow> string \<Rightarrow> (string \<times> 'p) option \<times> 's"
    and consume :: "'s \<Rightarrow> string \<Rightarrow> 's"
  assumes verify_result: "fst (verify now s t) = worth_of s now t"
    and verify_keeps: "now \<le> later \<Longrightarrow> worth_of (snd (verify now s t)) later u = worth_of s later u"
    and verify_ok: "ok s \<Longrightarrow> ok (snd (verify now s t))"
    and mint_token: "fst (mint rt now s k p ttl) = rt"
    and mint_worth: "rt \<noteq> [] \<Longrightarrow> worth_of (snd (mint rt now s k p ttl)) later u =
          (if u = rt then (if unix later < unix (now + ttl) then Some (k, p) else None) else worth_of s later u)"
    and mint_ok: "ok s \<Longrightarrow> ok (snd (mint rt now s k p ttl))"
    and consume_worth: "worth_of (consume s t) later u = (if u = t then None else worth_of s later u)"
    and consume_ok: "ok s \<Longrightarrow> ok (consume s t)"
begin

lemma consumed_is_dead: "worth_of (consume s t) later t = None"
  by (simp add: consume_worth)

lemma verify_twice: "now \<le> later \<Longrightarrow> fst (verify later (snd (verify now s t)) u) = fst (verify later s u)"
  by (simp add: verify_result verify_keeps)

lemma remint_retires:
  "rt \<noteq> [] \<Longrightarrow> old \<noteq> rt \<Longrightarrow> worth_of (snd (mint rt now (consume s old) k p ttl)) later old = None"
  by (simp add: mint_worth consume_worth)

end

lemma worth_gdel: "worth (gdel t m) now u = (if u = t then None else worth m now u)"
  by (simp add: worth_def)

lemma unix_mono: "a \<le> b \<Longrightarrow> unix a \<le> unix b"
  by (simp add: unix_def second_def zdiv_mono1)

interpretation ct: claim_tokens gmap_ok worth Mint Verify Consume
proof unfold_locales
  fix now later :: gtime and s :: "'a toks" and t u
  show "now \<le> later \<Longrightarrow> worth (snd (Verify now s t)) later u = worth s later u"
    using unix_mono[of now later] by (auto simp: Verify_def worth_gdel) (auto simp: worth_def split: option.splits)
qed (auto simp: Verify_def worth_def Mint_def Consume_def split: option.splits)

lemma worth_sweep: "gmap_ok m \<Longrightarrow> now \<le> later \<Longrightarrow> worth (sweep now m) later u = worth m later u"
  using unix_mono[of now later]
  by (auto simp: worth_def sweep_def gget_filter_kv[of m "\<lambda>t e. \<not> e_expUnix e \<le> unix now"] split: option.splits)

subsection \<open>Runs\<close>

datatype 'p op =
    OpMint string gtime string 'p duration
  | OpVerify gtime string
  | OpConsume gtime string
  | OpSweep gtime

fun op_time :: "'p op \<Rightarrow> gtime" where
  "op_time (OpMint rt now k p ttl) = now"
| "op_time (OpVerify now t) = now"
| "op_time (OpConsume now t) = now"
| "op_time (OpSweep now) = now"

fun run_op :: "'p op \<Rightarrow> 'p toks \<Rightarrow> 'p toks" where
  "run_op (OpMint rt now k p ttl) m = snd (Mint rt now m k p ttl)"
| "run_op (OpVerify now t) m = snd (Verify now m t)"
| "run_op (OpConsume now t) m = Consume m t"
| "run_op (OpSweep now) m = sweep now m"

fun touches :: "string \<Rightarrow> 'p op \<Rightarrow> bool" where
  "touches tok (OpMint rt now k p ttl) = (rt = tok)"
| "touches tok (OpConsume now t) = (t = tok)"
| "touches tok _ = False"

fun mints :: "string \<Rightarrow> 'p op \<Rightarrow> bool" where
  "mints tok (OpMint rt now k p ttl) = (rt = tok)"
| "mints tok _ = False"

lemma run_op_ok: "gmap_ok m \<Longrightarrow> gmap_ok (run_op a m)"
  by (cases a) (auto simp: Mint_def Verify_def Consume_def sweep_def split: option.splits)

lemma run_op_untouched:
  assumes "gmap_ok m" and "\<not> touches tok a" and "op_time a \<le> later"
  shows "worth (run_op a m) later tok = worth m later tok"
proof (cases a)
  case (OpMint rt now k p ttl)
  with assms show ?thesis by (cases "rt = []") (auto simp: ct.mint_worth Mint_def worth_def)
next
  case (OpVerify now t)
  with assms show ?thesis by (simp add: ct.verify_keeps)
next
  case (OpConsume now t)
  with assms show ?thesis by (simp add: ct.consume_worth)
next
  case (OpSweep now)
  with assms show ?thesis by (simp add: worth_sweep)
qed

lemma run_untouched:
  "gmap_ok m \<Longrightarrow> \<forall>a \<in> set ops. \<not> touches tok a \<and> op_time a \<le> later \<Longrightarrow>
     worth (fold run_op ops m) later tok = worth m later tok"
  by (induction ops arbitrary: m) (auto simp: run_op_untouched run_op_ok)

lemma run_op_dead:
  assumes "gmap_ok m" and "\<not> mints tok a" and "gget m tok = None"
  shows "gget (run_op a m) tok = None"
proof (cases a)
  case (OpSweep now)
  with assms show ?thesis
    by (simp add: sweep_def gget_filter_kv[of m "\<lambda>t e. \<not> e_expUnix e \<le> unix now"])
qed (use assms in \<open>auto simp: Mint_def Verify_def Consume_def split: option.splits\<close>)

lemma run_dead:
  "gmap_ok m \<Longrightarrow> \<forall>a \<in> set ops. \<not> mints tok a \<Longrightarrow> gget m tok = None \<Longrightarrow> gget (fold run_op ops m) tok = None"
  by (induction ops arbitrary: m) (auto simp: run_op_dead run_op_ok)

text \<open>
  C40. A token lives exactly its time and dies with its first use. After a mint, and whatever other
  operations of the store happen in between (other mints and redemptions, failed guesses, sweeps),
  verifying it gives back the frozen kind and payload until its expiry second and nothing from then
  on: never at or after \<open>now + ttl\<close>, always up to a second before. Once consumed it never verifies
  again.
\<close>

theorem claim_token_lifetime:
  assumes "gmap_ok m" and "tok \<noteq> []"
    and "\<forall>a \<in> set ops. \<not> touches tok a \<and> op_time a \<le> later"
    and "\<forall>a \<in> set ops'. \<not> mints tok a"
    and m'_def: "m' = fold run_op ops (snd (Mint tok now m kind payload ttl))"
  shows "fst (Verify later m' tok) = (if unix later < unix (now + ttl) then Some (kind, payload) else None)
    \<and> (now + ttl \<le> later \<longrightarrow> fst (Verify later m' tok) = None)
    \<and> (later + second \<le> now + ttl \<longrightarrow> fst (Verify later m' tok) = Some (kind, payload))
    \<and> fst (Verify t (fold run_op ops' (Consume m' tok)) tok) = None"
proof -
  have ok: "gmap_ok (snd (Mint tok now m kind payload ttl))" using assms(1) by (rule ct.mint_ok)
  have v: "fst (Verify later m' tok) = (if unix later < unix (now + ttl) then Some (kind, payload) else None)"
    using run_untouched[OF ok assms(3)] assms(2) by (simp add: ct.verify_result ct.mint_worth m'_def)
  have a: "unix (now + ttl) \<le> unix later" if "now + ttl \<le> later" using that by (rule unix_mono)
  have b: "unix later < unix (now + ttl)" if "later + second \<le> now + ttl"
    using unix_mono[OF that] by (simp add: unix_def second_def)
  have run_ok: "gmap_ok (fold run_op xs n)" if "gmap_ok n" for xs and n :: "'a toks"
    using that by (induction xs arbitrary: n) (auto simp: run_op_ok)
  have "gmap_ok (Consume m' tok)" "gget (Consume m' tok) tok = None"
    using run_ok[OF ok, of ops] assms(2) by (simp_all add: m'_def Consume_def)
  from run_dead[OF this(1) assms(4) this(2)] have "fst (Verify t (fold run_op ops' (Consume m' tok)) tok) = None"
    by (simp add: Verify_def)
  with v a b show ?thesis by auto
qed

theorem claim_token_lifetime_witness:
  "fst (Verify (3 * second) (run_op (OpSweep (2 * second)) (snd (Mint ''t1'' second [] ''admit'' (7::nat) (10 * second)))) ''t1'')
     = Some (''admit'', 7)"
proof -
  have "\<forall>a \<in> set [OpSweep (2 * second)]. \<not> touches ''t1'' a \<and> op_time a \<le> 3 * second"
    by (simp add: second_def)
  from claim_token_lifetime[of "[]" "''t1''" "[OpSweep (2 * second)]" "3 * second" "[]" _ second "''admit''" "7::nat" "10 * second" 0,
      OF _ _ this _ refl]
  show ?thesis by (simp add: second_def unix_def)
qed

end
