(* ===== verification/Gate_Policy.thy ===== *)
theory Gate_Policy
  imports Prelude
begin

section \<open>The access policy of a source\<close>

text \<open>
  \<^verbatim>\<open>src/leaf/gate/10-policy.go\<close>: identity comparison, the lists, the per-chat overrides and the
  three questions asked of a policy. The zero value of a policy is closed. \<^verbatim>\<open>LoadAll\<close> is a
  function of the directory: a list of file names with their contents.
\<close>

definition idEqual :: "string \<Rightarrow> string \<Rightarrow> bool" where
  "idEqual a b \<longleftrightarrow> a = b \<or> (contains_char a (CHR ''@'') \<and> equal_fold a b)"

fun idlist_Contains :: "string list \<Rightarrow> string \<Rightarrow> bool" where
  "idlist_Contains [] i = False"
| "idlist_Contains (x # l) i = (if idEqual x i then True else idlist_Contains l i)"

record group =
  g_AllowAll :: bool
  g_Allowlist :: "string list"
  g_AllowlistAdd :: "string list"
  g_Denylist :: "string list"
  g_Admins :: "string list"

record gpolicy =
  p_AllowAll :: bool
  p_Allowlist :: "string list"
  p_Denylist :: "string list"
  p_Admins :: "string list"
  p_Groups :: "(string, group) gomap"
  p_Onboarding :: bool

definition zero_policy :: gpolicy where
  "zero_policy = \<lparr>p_AllowAll = False, p_Allowlist = [], p_Denylist = [], p_Admins = [], p_Groups = [],
     p_Onboarding = False\<rparr>"

definition policy_IsAdmin :: "gpolicy \<Rightarrow> string \<Rightarrow> string \<Rightarrow> bool" where
  "policy_IsAdmin p chatID userID =
     (if idlist_Contains (p_Admins p) userID then True
      else case gget (p_Groups p) chatID of
             Some g \<Rightarrow> idlist_Contains (g_Admins g) userID
           | None \<Rightarrow> False)"

definition Denied :: "gpolicy \<Rightarrow> string \<Rightarrow> string \<Rightarrow> bool" where
  "Denied p chatID userID =
     (if idlist_Contains (p_Denylist p) userID then True
      else case gget (p_Groups p) chatID of
             Some g \<Rightarrow> idlist_Contains (g_Denylist g) userID
           | None \<Rightarrow> False)"

definition Authorized :: "gpolicy \<Rightarrow> string \<Rightarrow> string \<Rightarrow> bool" where
  "Authorized p chatID userID =
     (let source_level = (if p_AllowAll p then True else idlist_Contains (p_Allowlist p) userID)
      in if idlist_Contains (p_Denylist p) userID then False
         else case gget (p_Groups p) chatID of
                None \<Rightarrow> source_level
              | Some g \<Rightarrow>
                  if idlist_Contains (g_Denylist g) userID then False
                  else if idlist_Contains (g_AllowlistAdd g) userID then True
                  else if g_AllowAll g then True
                  else if g_Allowlist g \<noteq> [] \<and> \<not> idlist_Contains (g_Allowlist g) userID then False
                  else source_level)"

datatype 'raw policy_file = PFile 'raw | PUnreadable

fun LoadAll :: "('raw \<Rightarrow> gpolicy option) \<Rightarrow> (string \<times> 'raw policy_file) list \<Rightarrow> (string, gpolicy) gomap
    \<Rightarrow> string + (string, gpolicy) gomap" where
  "LoadAll unmarshal [] out = Inr out"
| "LoadAll unmarshal ((name, f) # files) out =
     (case f of
        PUnreadable \<Rightarrow> Inl name
      | PFile raw \<Rightarrow> (case unmarshal raw of
                        None \<Rightarrow> Inl name
                      | Some p \<Rightarrow> LoadAll unmarshal files (gput name p out)))"

subsection \<open>Identities\<close>

lemma lower_char_at: "lower_char c = CHR ''@'' \<longleftrightarrow> c = CHR ''@''"
proof -
  have "char_of (n + 32) \<noteq> CHR ''@''" if "65 \<le> n" "n \<le> 90" for n :: nat
  proof
    assume "char_of (n + 32) = CHR ''@''"
    then have "of_char (char_of (n + 32) :: char) = (64 :: nat)" by simp
    with that show False by simp
  qed
  then show ?thesis by (auto simp: lower_char_def Let_def)
qed

lemma fold_contains_at: "equal_fold a b \<Longrightarrow> contains_char a (CHR ''@'') \<longleftrightarrow> contains_char b (CHR ''@'')"
proof -
  have "CHR ''@'' \<in> set (to_lower s) \<longleftrightarrow> CHR ''@'' \<in> set s" for s
    by (simp add: to_lower_def image_iff) (metis lower_char_at)
  then show "equal_fold a b \<Longrightarrow> contains_char a (CHR ''@'') \<longleftrightarrow> contains_char b (CHR ''@'')"
    unfolding equal_fold_def contains_char_def by metis
qed

lemma idEqual_refl [simp]: "idEqual a a"
  by (simp add: idEqual_def)

lemma idEqual_sym: "idEqual a b \<longleftrightarrow> idEqual b a"
  using fold_contains_at[of a b] by (auto simp: idEqual_def equal_fold_sym)

lemma idEqual_trans: "idEqual a b \<Longrightarrow> idEqual b c \<Longrightarrow> idEqual a c"
  unfolding idEqual_def by (metis equal_fold_trans fold_contains_at)

lemma idlist_Contains_iff: "idlist_Contains l i \<longleftrightarrow> (\<exists>x \<in> set l. idEqual x i)"
  by (induction l) auto

lemma idlist_Contains_cong: "idEqual a b \<Longrightarrow> idlist_Contains l a \<longleftrightarrow> idlist_Contains l b"
  unfolding idlist_Contains_iff by (meson idEqual_sym idEqual_trans)

lemma Denied_not_Authorized: "Denied p c u \<Longrightarrow> \<not> Authorized p c u"
  by (auto simp: Denied_def Authorized_def Let_def split: if_splits option.splits)

text \<open>
  The policy answers by identity, and the denylist wins: two spellings of the same identity (the
  same string, or addresses with an at sign equal up to letter case) always get the same three
  answers, a denied sender is never authorized, and the closed zero policy authorizes and denies
  nobody and has no admin.
\<close>

theorem policy_answers_by_identity:
  assumes "idEqual u v"
  shows "Authorized p c u = Authorized p c v \<and> Denied p c u = Denied p c v
    \<and> policy_IsAdmin p c u = policy_IsAdmin p c v
    \<and> \<not> (Denied p c u \<and> Authorized p c u)
    \<and> \<not> Authorized zero_policy c u \<and> \<not> Denied zero_policy c u \<and> \<not> policy_IsAdmin zero_policy c u"
proof -
  note C = idlist_Contains_cong[OF assms]
  have "Authorized p c u = Authorized p c v" unfolding Authorized_def C ..
  moreover have "Denied p c u = Denied p c v" unfolding Denied_def C ..
  moreover have "policy_IsAdmin p c u = policy_IsAdmin p c v" unfolding policy_IsAdmin_def C ..
  ultimately show ?thesis using Denied_not_Authorized[of p c u]
    by (auto simp: Authorized_def Denied_def policy_IsAdmin_def zero_policy_def)
qed

theorem policy_answers_by_identity_witness:
  "Authorized (zero_policy\<lparr>p_Allowlist := [''Ann@x.org'']\<rparr>) ''c'' ''ann@X.org''
     = Authorized (zero_policy\<lparr>p_Allowlist := [''Ann@x.org'']\<rparr>) ''c'' ''Ann@x.org''"
proof -
  have "idEqual ''ann@X.org'' ''Ann@x.org''" by code_simp
  from policy_answers_by_identity[OF this] show ?thesis by blast
qed

subsection \<open>What a grant changes\<close>

lemma allowlist_grant:
  "\<not> Denied p c u \<Longrightarrow> (\<forall>g. gget (p_Groups p) c = Some g \<longrightarrow> g_Allowlist g = [] \<or> idlist_Contains (g_Allowlist g) u) \<Longrightarrow>
     Authorized (p\<lparr>p_Allowlist := p_Allowlist p @ [u]\<rparr>) c u"
  by (auto simp: Authorized_def Denied_def Let_def idlist_Contains_iff split: option.splits if_splits)

lemma group_grant:
  "\<not> Denied p c u \<Longrightarrow> gget (p_Groups p) c = Some g \<Longrightarrow>
     Authorized (p\<lparr>p_Groups := gput c (g\<lparr>g_AllowlistAdd := g_AllowlistAdd g @ [u]\<rparr>) (p_Groups p)\<rparr>) c u"
  by (auto simp: Authorized_def Denied_def Let_def idlist_Contains_iff split: if_splits)

end
