(* ===== verification/Gate_Rejected.thy ===== *)
theory Gate_Rejected
  imports Gate_Policy
begin

section \<open>The feed of rejected senders\<close>

text \<open>
  \<^verbatim>\<open>src/leaf/gate/20-rejected.go\<close>: a bounded map of turned-away senders with the rate limit of
  the bounce notice and the current admit token of each. Every operation holds the mutex. The sort
  of \<^verbatim>\<open>List\<close> is stable here; Go leaves ties open.
\<close>

definition bounceReplyTTL :: duration where
  "bounceReplyTTL = 2 * minute"

record rejectedSender =
  r_Source :: string
  r_ChatID :: string
  r_UserID :: string
  r_UserName :: string
  r_ChatType :: string
  r_Count :: nat
  r_FirstSeen :: gtime
  r_LastSeen :: gtime
  r_LastReplied :: gtime
  r_Token :: string

record rejectedSenders =
  rs_max :: int
  rs_m :: "(string, rejectedSender) gomap"

definition NewRejectedSenders :: "int \<Rightarrow> rejectedSenders" where
  "NewRejectedSenders mx = \<lparr>rs_max = (if mx \<le> 0 then 50 else mx), rs_m = []\<rparr>"

definition rejKey :: "string \<Rightarrow> string \<Rightarrow> string \<Rightarrow> string" where
  "rejKey source chatID userID = source @ ''|'' @ chatID @ ''|'' @ userID"

fun oldest_loop :: "(string \<times> rejectedSender) list \<Rightarrow> string \<Rightarrow> gtime \<Rightarrow> string" where
  "oldest_loop [] oldestKey oldest = oldestKey"
| "oldest_loop ((k, e) # rest) oldestKey oldest =
     (if oldestKey = [] \<or> r_FirstSeen e < oldest then oldest_loop rest k (r_FirstSeen e)
      else oldest_loop rest oldestKey oldest)"

definition evictOldestLocked :: "rejectedSenders \<Rightarrow> rejectedSenders" where
  "evictOldestLocked r =
     (let k = oldest_loop (rs_m r) [] zero_time
      in if k \<noteq> [] then r\<lparr>rs_m := gdel k (rs_m r)\<rparr> else r)"

definition Record :: "gtime \<Rightarrow> rejectedSenders \<Rightarrow> string \<Rightarrow> string \<Rightarrow> string \<Rightarrow> string \<Rightarrow> string \<Rightarrow> bool \<times> rejectedSenders" where
  "Record now r source chatID userID userName chatType =
     (if userID = [] then (False, r)
      else let key = rejKey source chatID userID
           in case gget (rs_m r) key of
                Some e \<Rightarrow>
                  let e1 = e\<lparr>r_Count := Suc (r_Count e), r_LastSeen := now,
                             r_UserName := (if userName \<noteq> [] then userName else r_UserName e),
                             r_ChatType := (if chatType \<noteq> [] then chatType else r_ChatType e)\<rparr>
                  in if bounceReplyTTL \<le> now - r_LastReplied e1
                     then (True, r\<lparr>rs_m := gput key (e1\<lparr>r_LastReplied := now\<rparr>) (rs_m r)\<rparr>)
                     else (False, r\<lparr>rs_m := gput key e1 (rs_m r)\<rparr>)
              | None \<Rightarrow>
                  let r1 = (if rs_max r \<le> int (length (rs_m r)) then evictOldestLocked r else r)
                  in (True, r1\<lparr>rs_m := gput key
                        \<lparr>r_Source = source, r_ChatID = chatID, r_UserID = userID, r_UserName = userName,
                         r_ChatType = chatType, r_Count = 1, r_FirstSeen = now, r_LastSeen = now,
                         r_LastReplied = now, r_Token = []\<rparr> (rs_m r1)\<rparr>))"

definition SetToken :: "rejectedSenders \<Rightarrow> string \<Rightarrow> string \<Rightarrow> string \<Rightarrow> string \<Rightarrow> (string \<times> bool) \<times> rejectedSenders" where
  "SetToken r source chatID userID token =
     (case gget (rs_m r) (rejKey source chatID userID) of
        Some e \<Rightarrow> ((r_Token e, True),
                   r\<lparr>rs_m := gput (rejKey source chatID userID) (e\<lparr>r_Token := token\<rparr>) (rs_m r)\<rparr>)
      | None \<Rightarrow> (([], False), r))"

definition rejected_List :: "rejectedSenders \<Rightarrow> rejectedSender list" where
  "rejected_List r = sort_key (\<lambda>e. - r_LastSeen e) (map snd (rs_m r))"

definition ForgetUser :: "rejectedSenders \<Rightarrow> string \<Rightarrow> string \<Rightarrow> rejectedSenders" where
  "ForgetUser r source userID =
     r\<lparr>rs_m := filter (\<lambda>(k, e). \<not> (r_Source e = source \<and> idEqual (r_UserID e) userID)) (rs_m r)\<rparr>"

definition ForgetUserInChat :: "rejectedSenders \<Rightarrow> string \<Rightarrow> string \<Rightarrow> string \<Rightarrow> rejectedSenders" where
  "ForgetUserInChat r source chatID userID =
     r\<lparr>rs_m := filter (\<lambda>(k, e). \<not> (r_Source e = source \<and> r_ChatID e = chatID \<and> idEqual (r_UserID e) userID)) (rs_m r)\<rparr>"

subsection \<open>Eviction\<close>

lemma rejKey_ne [simp]: "rejKey s c u \<noteq> []"
  by (simp add: rejKey_def)

lemma oldest_loop_acc:
  "ok \<noteq> [] \<Longrightarrow> \<forall>(k, e) \<in> set xs. k \<noteq> [] \<Longrightarrow>
     (oldest_loop xs ok t = ok \<and> (\<forall>(k, e) \<in> set xs. t \<le> r_FirstSeen e))
     \<or> (\<exists>e. (oldest_loop xs ok t, e) \<in> set xs \<and> r_FirstSeen e < t \<and> (\<forall>(k, e') \<in> set xs. r_FirstSeen e \<le> r_FirstSeen e'))"
proof (induction xs ok t rule: oldest_loop.induct)
  case (2 k e rest ok t)
  show ?case
  proof (cases "r_FirstSeen e < t")
    case True
    have "oldest_loop ((k, e) # rest) ok t = oldest_loop rest k (r_FirstSeen e)" using True by simp
    moreover have "k \<noteq> []" "\<forall>(k, e) \<in> set rest. k \<noteq> []" using 2(4) by auto
    note IH = 2(1)[OF disjI2[OF True] this]
    ultimately have o: "oldest_loop ((k, e) # rest) ok t = oldest_loop rest k (r_FirstSeen e)" by simp
    from IH show ?thesis
    proof
      assume a: "oldest_loop rest k (r_FirstSeen e) = k \<and> (\<forall>(k, e') \<in> set rest. r_FirstSeen e \<le> r_FirstSeen e')"
      have "(oldest_loop ((k, e) # rest) ok t, e) \<in> set ((k, e) # rest)" using a o by simp
      moreover have "\<forall>(k, e') \<in> set ((k, e) # rest). r_FirstSeen e \<le> r_FirstSeen e'" using a by simp
      ultimately show ?thesis using True by blast
    next
      assume "\<exists>x. (oldest_loop rest k (r_FirstSeen e), x) \<in> set rest \<and> r_FirstSeen x < r_FirstSeen e
          \<and> (\<forall>(k, e') \<in> set rest. r_FirstSeen x \<le> r_FirstSeen e')"
      then obtain x where x: "(oldest_loop rest k (r_FirstSeen e), x) \<in> set rest" "r_FirstSeen x < r_FirstSeen e"
        "\<forall>(k, e') \<in> set rest. r_FirstSeen x \<le> r_FirstSeen e'" by blast
      have "(oldest_loop ((k, e) # rest) ok t, x) \<in> set ((k, e) # rest)" using x(1) o by simp
      moreover have "\<forall>(k, e') \<in> set ((k, e) # rest). r_FirstSeen x \<le> r_FirstSeen e'" using x(2,3) by simp
      moreover have "r_FirstSeen x < t" using x(2) True by simp
      ultimately show ?thesis by blast
    qed
  next
    case False
    with 2(3) have n: "\<not> (ok = [] \<or> r_FirstSeen e < t)" by simp
    have "\<forall>(k, e) \<in> set rest. k \<noteq> []" using 2(4) by auto
    note IH = 2(2)[OF n 2(3) this]
    have "oldest_loop ((k, e) # rest) ok t = oldest_loop rest ok t" using n by simp
    then have o: "oldest_loop ((k, e) # rest) ok t = oldest_loop rest ok t" .
    from IH show ?thesis
    proof
      assume "oldest_loop rest ok t = ok \<and> (\<forall>(k, e') \<in> set rest. t \<le> r_FirstSeen e')"
      then show ?thesis using o False by simp
    next
      assume "\<exists>x. (oldest_loop rest ok t, x) \<in> set rest \<and> r_FirstSeen x < t
          \<and> (\<forall>(k, e') \<in> set rest. r_FirstSeen x \<le> r_FirstSeen e')"
      then obtain x where x: "(oldest_loop rest ok t, x) \<in> set rest" "r_FirstSeen x < t"
        "\<forall>(k, e') \<in> set rest. r_FirstSeen x \<le> r_FirstSeen e'" by blast
      have "(oldest_loop ((k, e) # rest) ok t, x) \<in> set ((k, e) # rest)" using x(1) o by simp
      moreover have "\<forall>(k, e') \<in> set ((k, e) # rest). r_FirstSeen x \<le> r_FirstSeen e'" using x(2,3) False by simp
      ultimately show ?thesis using x(2) by blast
    qed
  qed
qed simp

lemma oldest_loop_min:
  assumes "xs \<noteq> []" and "\<forall>(k, e) \<in> set xs. k \<noteq> []"
  shows "\<exists>e. (oldest_loop xs [] t, e) \<in> set xs \<and> (\<forall>(k, e') \<in> set xs. r_FirstSeen e \<le> r_FirstSeen e')"
proof -
  obtain k e rest where xs: "xs = (k, e) # rest" using assms(1) by (cases xs) auto
  have "oldest_loop xs [] t = oldest_loop rest k (r_FirstSeen e)" by (simp add: xs)
  moreover have "k \<noteq> []" "\<forall>(k, e) \<in> set rest. k \<noteq> []" using assms(2) xs by auto
  ultimately show ?thesis using oldest_loop_acc[of k rest "r_FirstSeen e"] xs
    by simp (elim disjE; fastforce)
qed

subsection \<open>The feed stays bounded\<close>

definition feed_ok :: "rejectedSenders \<Rightarrow> bool" where
  "feed_ok r \<longleftrightarrow> gmap_ok (rs_m r) \<and> 0 < rs_max r \<and> int (length (rs_m r)) \<le> rs_max r
     \<and> (\<forall>(k, e) \<in> set (rs_m r). k = rejKey (r_Source e) (r_ChatID e) (r_UserID e))"

lemma feed_ok_new: "feed_ok (NewRejectedSenders mx)"
  by (simp add: feed_ok_def NewRejectedSenders_def)

lemma feed_keys_ne: "feed_ok r \<Longrightarrow> \<forall>(k, e) \<in> set (rs_m r). k \<noteq> []"
proof -
  assume r: "feed_ok r"
  have "k \<noteq> []" if "(k, e) \<in> set (rs_m r)" for k e
  proof -
    from r that have "k = rejKey (r_Source e) (r_ChatID e) (r_UserID e)" by (auto simp: feed_ok_def)
    then show ?thesis by simp
  qed
  then show ?thesis by blast
qed

lemma gput_mem: "(j, x) \<in> set (gput k v m) \<Longrightarrow> (j = k \<and> x = v) \<or> (j, x) \<in> set m"
  by (induction m) (auto split: if_splits)

lemma gdel_mem: "(j, x) \<in> set (gdel k m) \<Longrightarrow> (j, x) \<in> set m"
  by (auto simp: AList.delete_eq)

lemma evict_spec:
  assumes "feed_ok r" and "rs_m r \<noteq> []"
  shows "feed_ok (evictOldestLocked r)" and "length (rs_m (evictOldestLocked r)) < length (rs_m r)"
    and "rs_max (evictOldestLocked r) = rs_max r"
    and "\<exists>k e. gget (rs_m r) k = Some e \<and> rs_m (evictOldestLocked r) = gdel k (rs_m r)
           \<and> (\<forall>(j, e') \<in> set (rs_m r). r_FirstSeen e \<le> r_FirstSeen e')"
proof -
  let ?k = "oldest_loop (rs_m r) [] zero_time"
  from oldest_loop_min[OF assms(2) feed_keys_ne[OF assms(1)]] obtain e where
    e: "(?k, e) \<in> set (rs_m r)" "\<forall>(j, e') \<in> set (rs_m r). r_FirstSeen e \<le> r_FirstSeen e'" by blast
  have ne: "?k \<noteq> []" using e(1) feed_keys_ne[OF assms(1)] by auto
  then have r: "evictOldestLocked r = r\<lparr>rs_m := gdel ?k (rs_m r)\<rparr>" by (simp add: evictOldestLocked_def Let_def)
  have "?k \<in> set (gkeys (rs_m r))" using e(1) by force
  from length_gdel_less[OF this] show "length (rs_m (evictOldestLocked r)) < length (rs_m r)" by (simp add: r)
  with assms(1) show "feed_ok (evictOldestLocked r)"
    by (auto simp: feed_ok_def r dest: gdel_mem)
  show "rs_max (evictOldestLocked r) = rs_max r" by (simp add: r)
  show "\<exists>k e. gget (rs_m r) k = Some e \<and> rs_m (evictOldestLocked r) = gdel k (rs_m r)
           \<and> (\<forall>(j, e') \<in> set (rs_m r). r_FirstSeen e \<le> r_FirstSeen e')"
    using e r assms(1) by (intro exI[of _ ?k] exI[of _ e]) (simp add: feed_ok_def)
qed

lemma feed_ok_put:
  assumes "feed_ok r" and "k = rejKey (r_Source e) (r_ChatID e) (r_UserID e)"
    and "ghas (rs_m r) k \<or> int (length (rs_m r)) < rs_max r"
  shows "feed_ok (r\<lparr>rs_m := gput k e (rs_m r)\<rparr>)"
  using assms by (auto simp: feed_ok_def length_gput ghas_iff dest: gput_mem)

lemma feed_entry: "feed_ok r \<Longrightarrow> gget (rs_m r) k = Some e \<Longrightarrow> k = rejKey (r_Source e) (r_ChatID e) (r_UserID e)"
  by (auto simp: feed_ok_def dest: map_of_SomeD)

lemma feed_ok_Record: "feed_ok r \<Longrightarrow> Record now r s c u n ct = (b, r') \<Longrightarrow> feed_ok r'"
proof (cases "gget (rs_m r) (rejKey s c u)")
  case (Some e)
  assume r: "feed_ok r" "Record now r s c u n ct = (b, r')"
  have k: "rejKey s c u = rejKey (r_Source e) (r_ChatID e) (r_UserID e)" using feed_entry[OF r(1) Some] .
  have h: "ghas (rs_m r) (rejKey s c u)" using Some by (simp add: ghas_def)
  have put: "feed_ok (r\<lparr>rs_m := gput (rejKey s c u) e' (rs_m r)\<rparr>)"
    if "r_Source e' = r_Source e" "r_ChatID e' = r_ChatID e" "r_UserID e' = r_UserID e" for e'
    using feed_ok_put[OF r(1), of "rejKey s c u" e'] k h that by simp
  have "r' = r \<or> (\<exists>e'. r' = r\<lparr>rs_m := gput (rejKey s c u) e' (rs_m r)\<rparr>
      \<and> r_Source e' = r_Source e \<and> r_ChatID e' = r_ChatID e \<and> r_UserID e' = r_UserID e)"
    using r(2) Some by (simp add: Record_def Let_def split: if_splits) (auto intro!: exI)
  with put r(1) show ?thesis by auto
next
  case None
  assume r: "feed_ok r" "Record now r s c u n ct = (b, r')"
  let ?r1 = "if rs_max r \<le> int (length (rs_m r)) then evictOldestLocked r else r"
  have "feed_ok ?r1 \<and> int (length (rs_m ?r1)) < rs_max ?r1"
  proof (cases "rs_max r \<le> int (length (rs_m r))")
    case True
    then have "rs_m r \<noteq> []" using r(1) by (auto simp: feed_ok_def)
    from evict_spec(1-3)[OF r(1) this] r(1) True show ?thesis by (auto simp: feed_ok_def)
  qed (use r(1) in simp)
  note f = this
  show ?thesis
  proof (cases "u = []")
    case True
    with r show ?thesis by (simp add: Record_def)
  next
    case False
    with r(2) None have "\<exists>e. r' = ?r1\<lparr>rs_m := gput (rejKey s c u) e (rs_m ?r1)\<rparr>
        \<and> r_Source e = s \<and> r_ChatID e = c \<and> r_UserID e = u"
      by (simp add: Record_def Let_def) (auto intro!: exI)
    with f feed_ok_put[of ?r1 "rejKey s c u"] show ?thesis by auto
  qed
qed

lemma feed_ok_SetToken: "feed_ok r \<Longrightarrow> SetToken r s c u t = (x, r') \<Longrightarrow> feed_ok r'"
proof (cases "gget (rs_m r) (rejKey s c u)")
  case (Some e)
  assume r: "feed_ok r" "SetToken r s c u t = (x, r')"
  from r(2) Some have "r' = r\<lparr>rs_m := gput (rejKey s c u) (e\<lparr>r_Token := t\<rparr>) (rs_m r)\<rparr>" by (simp add: SetToken_def)
  moreover have "feed_ok (r\<lparr>rs_m := gput (rejKey s c u) (e\<lparr>r_Token := t\<rparr>) (rs_m r)\<rparr>)"
    by (rule feed_ok_put[OF r(1)]) (use feed_entry[OF r(1) Some] Some in \<open>simp_all add: ghas_def\<close>)
  ultimately show ?thesis by simp
qed (auto simp: SetToken_def)

lemma feed_ok_Forget: "feed_ok r \<Longrightarrow> feed_ok (ForgetUser r s u) \<and> feed_ok (ForgetUserInChat r s c u)"
proof -
  have "int (length (filter P (rs_m r))) \<le> rs_max r" if "int (length (rs_m r)) \<le> rs_max r" for P
    using that length_filter_le[of P "rs_m r"] by linarith
  then show "feed_ok r \<Longrightarrow> feed_ok (ForgetUser r s u) \<and> feed_ok (ForgetUserInChat r s c u)"
    unfolding feed_ok_def ForgetUser_def ForgetUserInChat_def by auto
qed

subsection \<open>Runs of the feed\<close>

datatype feed_op =
    FRecord gtime string string string string string
  | FSetToken string string string string
  | FForgetUser string string
  | FForgetInChat string string string

fun feed_step :: "feed_op \<Rightarrow> rejectedSenders \<Rightarrow> bool \<times> rejectedSenders" where
  "feed_step (FRecord now s c u n ct) r = Record now r s c u n ct"
| "feed_step (FSetToken s c u t) r = (False, snd (SetToken r s c u t))"
| "feed_step (FForgetUser s u) r = (False, ForgetUser r s u)"
| "feed_step (FForgetInChat s c u) r = (False, ForgetUserInChat r s c u)"

fun feed_run :: "feed_op list \<Rightarrow> rejectedSenders \<Rightarrow> rejectedSenders" where
  "feed_run [] r = r"
| "feed_run (a # as) r = feed_run as (snd (feed_step a r))"

lemma feed_ok_step: "feed_ok r \<Longrightarrow> feed_ok (snd (feed_step a r))"
proof (cases a)
  case (FRecord now s c u n ct)
  assume "feed_ok r"
  with FRecord show ?thesis using feed_ok_Record[of r now s c u n ct] by (cases "Record now r s c u n ct") simp
next
  case (FSetToken s c u t)
  assume "feed_ok r"
  with FSetToken show ?thesis using feed_ok_SetToken[of r s c u t] by (cases "SetToken r s c u t") simp
qed (simp_all add: feed_ok_Forget)

text \<open>
  The feed of rejected senders is bounded and consistent under every sequence of operations: it
  never holds more than its maximum (50 when the configured one is not positive), its keys are
  distinct, and each entry is filed under the key of its own source, chat and user.
\<close>

theorem rejected_feed_bounded:
  "int (length (rs_m (feed_run ops (NewRejectedSenders mx)))) \<le> (if mx \<le> 0 then 50 else mx)
   \<and> gmap_ok (rs_m (feed_run ops (NewRejectedSenders mx)))
   \<and> list_all (\<lambda>(k, e). k = rejKey (r_Source e) (r_ChatID e) (r_UserID e)) (rs_m (feed_run ops (NewRejectedSenders mx)))"
proof -
  have max_step: "rs_max (snd (feed_step a r)) = rs_max r" for a r
    by (cases a) (auto simp: Record_def SetToken_def ForgetUser_def ForgetUserInChat_def Let_def
        evictOldestLocked_def split: option.splits)
  have ok: "feed_ok (feed_run as r)" if "feed_ok r" for as r
    using that by (induction as arbitrary: r) (auto simp: feed_ok_step)
  have mx: "rs_max (feed_run as r) = rs_max r" for as r
    by (induction as arbitrary: r) (auto simp: max_step)
  show ?thesis
    using ok[OF feed_ok_new, of ops mx] mx[of ops "NewRejectedSenders mx"]
    by (auto simp: feed_ok_def NewRejectedSenders_def list_all_iff)
qed

subsection \<open>The bounce notice is rate limited\<close>

fun reply_times :: "string \<Rightarrow> feed_op list \<Rightarrow> rejectedSenders \<Rightarrow> gtime list" where
  "reply_times key [] r = []"
| "reply_times key (a # as) r =
     (case a of
        FRecord now s c u n ct \<Rightarrow>
          if rejKey s c u = key \<and> fst (feed_step a r) then [now] else []
      | _ \<Rightarrow> []) @ reply_times key as (snd (feed_step a r))"

fun keeps :: "string \<Rightarrow> feed_op list \<Rightarrow> rejectedSenders \<Rightarrow> bool" where
  "keeps key [] r = True"
| "keeps key (a # as) r =
     ((ghas (rs_m r) key \<longrightarrow> ghas (rs_m (snd (feed_step a r))) key) \<and> keeps key as (snd (feed_step a r)))"

definition last_reply :: "rejectedSenders \<Rightarrow> string \<Rightarrow> gtime option" where
  "last_reply r key = map_option r_LastReplied (gget (rs_m r) key)"

lemma evict_get: "gget (rs_m (evictOldestLocked r)) k = Some e \<Longrightarrow> gget (rs_m r) k = Some e"
  by (auto simp: evictOldestLocked_def Let_def split: if_splits)

lemma step_last_reply:
  assumes "feed_ok r" and "ghas (rs_m (snd (feed_step a r))) key" and "ghas (rs_m r) key"
  shows "last_reply (snd (feed_step a r)) key =
    (case a of FRecord now s c u n ct \<Rightarrow> if rejKey s c u = key \<and> fst (feed_step a r) then Some now else last_reply r key
     | _ \<Rightarrow> last_reply r key)"
proof -
  obtain e where e: "gget (rs_m r) key = Some e" using assms(3) by (auto simp: ghas_def)
  have filt: "gget (filter P (rs_m r)) key = Some e" if h: "ghas (filter P (rs_m r)) key" for P
  proof -
    from h obtain x where x: "gget (filter P (rs_m r)) key = Some x" by (auto simp: ghas_def)
    then have "(key, x) \<in> set (rs_m r)" by (auto dest: map_of_SomeD)
    then have "gget (rs_m r) key = Some x" using assms(1) by (simp add: feed_ok_def)
    with x e show ?thesis by simp
  qed
  show ?thesis
  proof (cases a)
    case (FRecord now s c u n ct)
    have "y = e" if "gget (rs_m (evictOldestLocked r)) key = Some y" for y using evict_get[OF that] e by simp
    with FRecord assms(2) e show ?thesis
      by (auto simp: last_reply_def Record_def Let_def ghas_def split: option.splits if_splits)
  next
    case (FSetToken s c u t)
    with assms(2) e show ?thesis by (auto simp: last_reply_def SetToken_def split: option.splits)
  next
    case (FForgetUser s u)
    with assms(2) e show ?thesis by (simp add: last_reply_def ForgetUser_def filt)
  next
    case (FForgetInChat s c u)
    with assms(2) e show ?thesis by (simp add: last_reply_def ForgetUserInChat_def filt)
  qed
qed

lemma record_replies_late:
  "fst (Record now r s c u n ct) \<Longrightarrow> last_reply r (rejKey s c u) = Some t \<Longrightarrow> t + bounceReplyTTL \<le> now"
  by (auto simp: Record_def last_reply_def Let_def split: if_splits)

lemma replies_spaced_from:
  assumes "feed_ok r" and "keeps key ops r" and "last_reply r key = Some t"
  shows "sorted_wrt (\<lambda>a b. a + bounceReplyTTL \<le> b) (t # reply_times key ops r)"
  using assms
proof (induction ops arbitrary: r t)
  case (Cons a as)
  let ?r' = "snd (feed_step a r)"
  have h: "ghas (rs_m r) key" using Cons.prems(3) by (auto simp: last_reply_def ghas_def)
  with Cons.prems(2) have h': "ghas (rs_m ?r') key" "keeps key as ?r'" by auto
  note L = step_last_reply[OF Cons.prems(1) h'(1) h]
  note IH = Cons.IH[OF feed_ok_step[OF Cons.prems(1)] h'(2)]
  have pos: "0 \<le> bounceReplyTTL" by (simp add: bounceReplyTTL_def duration_defs)
  show ?case
  proof (cases "\<exists>now s c u n ct. a = FRecord now s c u n ct \<and> rejKey s c u = key \<and> fst (feed_step a r)")
    case True
    then obtain now s c u n ct where a: "a = FRecord now s c u n ct" "rejKey s c u = key" "fst (feed_step a r)" by blast
    have late: "t + bounceReplyTTL \<le> now" using record_replies_late[of now r s c u n ct t] a Cons.prems(3) by simp
    have "sorted_wrt (\<lambda>a b. a + bounceReplyTTL \<le> b) (now # reply_times key as ?r')" using IH[of now] L a by simp
    moreover have "reply_times key (a # as) r = now # reply_times key as ?r'" using a by simp
    ultimately show ?thesis using late pos by fastforce
  next
    case False
    then have "reply_times key (a # as) r = reply_times key as ?r'" by (cases a) auto
    moreover have "last_reply ?r' key = Some t" using L False Cons.prems(3) by (cases a) auto
    ultimately show ?thesis using IH[of t] by simp
  qed
qed simp

text \<open>
  A turned-away sender cannot make bob spam a room: as long as their entry stays in the feed, the
  instants at which a bounce notice is sent for one source, chat and user are at least
  \<^verbatim>\<open>bounceReplyTTL\<close> apart, whatever other traffic the feed sees.
\<close>

theorem bounce_rate_limited:
  assumes "feed_ok r" and "keeps key ops r"
  shows "sorted_wrt (\<lambda>a b. a + bounceReplyTTL \<le> b) (reply_times key ops r)"
  using assms
proof (induction ops arbitrary: r)
  case (Cons a as)
  let ?r' = "snd (feed_step a r)"
  show ?case
  proof (cases "ghas (rs_m r) key")
    case True
    then obtain t where "last_reply r key = Some t" by (auto simp: ghas_def last_reply_def)
    from replies_spaced_from[OF Cons.prems this] show ?thesis by simp
  next
    case False
    note IH = Cons.IH[OF feed_ok_step[OF Cons.prems(1)]]
    show ?thesis
    proof (cases "\<exists>now s c u n ct. a = FRecord now s c u n ct \<and> rejKey s c u = key \<and> fst (feed_step a r)")
      case True
      then obtain now s c u n ct where a: "a = FRecord now s c u n ct" "rejKey s c u = key" "fst (feed_step a r)" by blast
      have "last_reply ?r' key = Some now"
        using a False by (auto simp: Record_def last_reply_def ghas_def Let_def split: if_splits)
      from replies_spaced_from[OF feed_ok_step[OF Cons.prems(1)] _ this, of as] Cons.prems(2)
      have "sorted_wrt (\<lambda>a b. a + bounceReplyTTL \<le> b) (now # reply_times key as ?r')" by simp
      moreover have "reply_times key (a # as) r = now # reply_times key as ?r'" using a by simp
      ultimately show ?thesis by (simp only:)
    next
      case False
      then have "reply_times key (a # as) r = reply_times key as ?r'" by (cases a) auto
      with IH Cons.prems(2) show ?thesis by simp
    qed
  qed
qed simp

theorem bounce_rate_limited_witness:
  "reply_times (rejKey ''tg'' ''c'' ''u'')
     [FRecord 1 ''tg'' ''c'' ''u'' [] [], FRecord second ''tg'' ''c'' ''u'' [] [], FRecord (3 * minute) ''tg'' ''c'' ''u'' [] []]
     (NewRejectedSenders 2) = [1, 3 * minute]
   \<and> 1 + bounceReplyTTL \<le> 3 * minute"
proof -
  let ?k = "rejKey ''tg'' ''c'' ''u''"
  let ?ops = "[FRecord 1 ''tg'' ''c'' ''u'' [] [], FRecord second ''tg'' ''c'' ''u'' [] [], FRecord (3 * minute) ''tg'' ''c'' ''u'' [] []]"
  have t: "reply_times ?k ?ops (NewRejectedSenders 2) = [1, 3 * minute]"
    by (simp add: Record_def NewRejectedSenders_def Let_def bounceReplyTTL_def duration_defs)
  have "keeps ?k ?ops (NewRejectedSenders 2)"
    by (simp add: Record_def NewRejectedSenders_def Let_def bounceReplyTTL_def duration_defs ghas_def)
  from bounce_rate_limited[OF feed_ok_new this] t show ?thesis by simp
qed

end
