(* ===== verification/Slash_Registry.thy ===== *)
theory Slash_Registry
  imports Prelude
begin

section \<open>Slash commands\<close>

text \<open>
  \<^verbatim>\<open>src/leaf/slash/10-registry.go\<close>: the table of commands, the parsing of a command line, the
  dispatch with its admin gate, the help listing, and the rewriting of line boundaries. A handler
  is a number here (an identity); running it is the outcome \<open>Ran\<close>.
\<close>

record slashCommand =
  sc_Name :: string
  sc_AdminOnly :: bool
  sc_Handler :: "nat option"

type_synonym slash_table = "(string, slashCommand) gomap"

datatype slash_panic = InvalidCommand string | DuplicateCommand string

definition bad_name_char :: "char \<Rightarrow> bool" where
  "bad_name_char c \<longleftrightarrow> c \<in> {CHR '' '', CHR 0x09, CHR 0x0A, CHR ''@'', CHR ''/''}"

definition slash_Register :: "slash_table \<Rightarrow> slashCommand \<Rightarrow> slash_panic + slash_table" where
  "slash_Register r cmd =
     (if sc_Name cmd = [] \<or> sc_Handler cmd = None \<or> list_ex bad_name_char (sc_Name cmd)
      then Inl (InvalidCommand (sc_Name cmd))
      else let name = to_lower (sc_Name cmd)
           in if ghas r name then Inl (DuplicateCommand (sc_Name cmd))
              else Inr (gput name cmd r))"

definition trim_slash :: "string \<Rightarrow> string" where
  "trim_slash s = (case s of c # t \<Rightarrow> if c = CHR ''/'' then t else s | [] \<Rightarrow> [])"

definition break_char :: "char \<Rightarrow> bool" where
  "break_char c \<longleftrightarrow> c \<in> {CHR '' '', CHR 0x09, CHR 0x0A}"

definition parseCommand :: "string \<Rightarrow> string \<times> string" where
  "parseCommand text0 =
     (let text = trim_slash (trim_space text0);
          word = takeWhile (\<lambda>c. \<not> break_char c) text;
          args = (if list_ex break_char text then trim_space (drop (Suc (length word)) text) else []);
          name = takeWhile (\<lambda>c. c \<noteq> CHR ''@'') word
      in (to_lower name, args))"

datatype dispatch_result = UnknownCommand string | AdminOnlyCommand string | RanHandler nat string

definition Dispatch :: "slash_table \<Rightarrow> bool \<Rightarrow> string \<Rightarrow> dispatch_result" where
  "Dispatch r isAdmin text =
     (let (name, args) = parseCommand text
      in case gget r name of
           None \<Rightarrow> UnknownCommand name
         | Some cmd \<Rightarrow>
             if sc_AdminOnly cmd \<and> \<not> isAdmin then AdminOnlyCommand name
             else RanHandler (the (sc_Handler cmd)) args)"

definition slash_List :: "slash_table \<Rightarrow> slashCommand list" where
  "slash_List r = sort_key sc_Name (map snd r)"

text \<open>The commands \<^verbatim>\<open>/help\<close> lists for a sender.\<close>

definition slashHelp :: "slash_table \<Rightarrow> bool \<Rightarrow> slashCommand list" where
  "slashHelp r isAdmin = filter (\<lambda>c. \<not> (sc_AdminOnly c \<and> \<not> isAdmin)) (slash_List r)"

definition hardBreak :: "string \<Rightarrow> string \<Rightarrow> string" where
  "hardBreak sep text = concat (map (\<lambda>c. if c = CHR 0x0A then sep else [c]) text)"

fun register_seq :: "slash_table \<Rightarrow> slashCommand list \<Rightarrow> slash_panic + slash_table" where
  "register_seq r [] = Inr r"
| "register_seq r (c # cs) = (case slash_Register r c of Inl p \<Rightarrow> Inl p | Inr r' \<Rightarrow> register_seq r' cs)"

subsection \<open>Parsing\<close>

lemma takeWhile_stop: "\<forall>c \<in> set a. P c \<Longrightarrow> \<not> P d \<Longrightarrow> takeWhile P (a @ d # b) = a"
  by (simp add: takeWhile_append)

lemma trim_space_clean: "s \<noteq> [] \<Longrightarrow> \<not> is_space (hd s) \<Longrightarrow> \<not> is_space (last s) \<Longrightarrow> trim_space s = s"
proof -
  assume "s \<noteq> []" "\<not> is_space (hd s)" "\<not> is_space (last s)"
  then have "dropWhile is_space s = s" "dropWhile is_space (rev s) = rev s"
    by (simp_all add: dropWhile_eq_self_iff hd_rev)
  then show "trim_space s = s" by (simp add: trim_space_def)
qed

lemma break_is_space: "break_char c \<Longrightarrow> is_space c"
  by (auto simp: break_char_def is_space_def)

lemma bad_covers_break: "break_char c \<Longrightarrow> bad_name_char c"
  by (auto simp: break_char_def bad_name_char_def)

text \<open>A command line as a user types it: the spelling, an optional bot suffix, and arguments.\<close>

lemma parse_line:
  assumes "spell \<noteq> []" and "\<forall>c \<in> set spell. \<not> is_space c \<and> c \<noteq> CHR ''@''"
    and "\<forall>c \<in> set botname. \<not> is_space c" and "args \<noteq> []" "trim_space args = args" "\<not> is_space (last args)"
  shows "parseCommand (''/'' @ spell @ (if botname = [] then [] else CHR ''@'' # botname) @ '' '' @ args) = (to_lower spell, args)"
    and "parseCommand (''/'' @ spell @ (if botname = [] then [] else CHR ''@'' # botname)) = (to_lower spell, [])"
proof -
  define b where "b = (if botname = [] then [] else CHR ''@'' # botname)"
  define w where "w = spell @ b"
  have w: "\<forall>c \<in> set w. \<not> is_space c" using assms(2,3) by (auto simp: is_space_def w_def b_def)
  then have nb: "\<forall>c \<in> set w. \<not> break_char c" using break_is_space by blast
  have name: "takeWhile (\<lambda>c. c \<noteq> CHR ''@'') w = spell" using assms(2) by (auto simp: takeWhile_append w_def b_def)
  have lw: "\<not> is_space (last (''/'' @ w))" using w assms(1) by (simp add: last_append w_def)
  have "takeWhile (\<lambda>c. \<not> break_char c) (w @ '' '' @ args) = w"
    using takeWhile_stop[of w "\<lambda>c. \<not> break_char c" "CHR '' ''" args] nb by (simp add: break_char_def)
  moreover have "trim_space (''/'' @ w @ '' '' @ args) = ''/'' @ w @ '' '' @ args"
    using assms(4,6) by (intro trim_space_clean) (auto simp: is_space_def)
  ultimately have "parseCommand (''/'' @ w @ '' '' @ args) = (to_lower spell, args)"
    using name assms(5) by (simp add: parseCommand_def trim_slash_def Let_def break_char_def)
  then show "parseCommand (''/'' @ spell @ (if botname = [] then [] else CHR ''@'' # botname) @ '' '' @ args) = (to_lower spell, args)"
    by (simp add: w_def b_def)
  have "takeWhile (\<lambda>c. \<not> break_char c) w = w" using nb by (simp add: takeWhile_eq_all_conv)
  moreover have "\<not> list_ex break_char w" using nb by (auto simp: list_ex_iff)
  moreover have "trim_space (''/'' @ w) = ''/'' @ w" using lw by (intro trim_space_clean) (auto simp: is_space_def)
  ultimately have "parseCommand (''/'' @ w) = (to_lower spell, [])"
    using name by (simp add: parseCommand_def trim_slash_def Let_def takeWhile_eq_all_conv[THEN iffD2])
  then show "parseCommand (''/'' @ spell @ (if botname = [] then [] else CHR ''@'' # botname)) = (to_lower spell, [])"
    by (simp add: w_def b_def)
qed

lemma Dispatch_parsed:
  "parseCommand text = (name, args) \<Longrightarrow> gget r name = Some cmd \<Longrightarrow>
     Dispatch r isAdmin text = (if sc_AdminOnly cmd \<and> \<not> isAdmin then AdminOnlyCommand name
       else RanHandler (the (sc_Handler cmd)) args)"
  by (simp add: Dispatch_def)

lemma register_seq_get:
  "register_seq r cs = Inr r' \<Longrightarrow> c \<in> set cs \<Longrightarrow> gget r' (to_lower (sc_Name c)) = Some c"
proof (induction cs arbitrary: r)
  case (Cons d cs)
  from Cons.prems(1) obtain r1 where r1: "slash_Register r d = Inr r1" "register_seq r1 cs = Inr r'"
    by (auto split: sum.splits)
  have keep: "register_seq q ds = Inr q' \<Longrightarrow> gget q k = Some v \<Longrightarrow> gget q' k = Some v" for q q' ds k v
  proof (induction ds arbitrary: q)
    case (Cons a ds)
    from Cons.prems(1) obtain q1 where q1: "slash_Register q a = Inr q1" "register_seq q1 ds = Inr q'"
      by (auto split: sum.splits)
    from q1(1) Cons.prems(2) have "gget q1 k = Some v"
      by (auto simp: slash_Register_def Let_def ghas_def split: if_splits)
    with Cons.IH[OF q1(2)] show ?case by simp
  qed simp
  show ?case
  proof (cases "c = d")
    case True
    with r1(1) have "gget r1 (to_lower (sc_Name c)) = Some c"
      by (auto simp: slash_Register_def Let_def split: if_splits)
    with keep[OF r1(2)] show ?thesis by simp
  qed (use Cons r1 in auto)
qed simp

text \<open>
  Every registered command is reachable, and only through the admin gate: on a table built by
  registrations that did not panic, a line that spells the command's name in any letter case, with
  or without a \<^verbatim>\<open>@bot\<close> suffix, followed by arguments, runs exactly that command's handler with
  exactly those arguments, unless it is admin-only and the sender is not an admin.
\<close>

theorem slash_registered_is_reachable:
  assumes "register_seq [] cmds = Inr r" and "cmd \<in> set cmds" and "equal_fold spell (sc_Name cmd)"
    and "\<forall>c \<in> set spell. \<not> is_space c \<and> c \<noteq> CHR ''@''" and "\<forall>c \<in> set botname. \<not> is_space c"
    and "args \<noteq> []" and "trim_space args = args" and "\<not> is_space (last args)"
  shows "Dispatch r isAdmin (''/'' @ spell @ (if botname = [] then [] else CHR ''@'' # botname) @ '' '' @ args) =
      (if sc_AdminOnly cmd \<and> \<not> isAdmin then AdminOnlyCommand (to_lower (sc_Name cmd))
       else RanHandler (the (sc_Handler cmd)) args)
    \<and> Dispatch r isAdmin (''/'' @ spell @ (if botname = [] then [] else CHR ''@'' # botname)) =
      (if sc_AdminOnly cmd \<and> \<not> isAdmin then AdminOnlyCommand (to_lower (sc_Name cmd))
       else RanHandler (the (sc_Handler cmd)) [])"
proof -
  have valid: "register_seq q ds = Inr q' \<Longrightarrow> d \<in> set ds \<Longrightarrow> sc_Name d \<noteq> []" for q q' ds d
    by (induction ds arbitrary: q) (auto simp: slash_Register_def Let_def split: if_splits sum.splits)
  have "spell \<noteq> []" using valid[OF assms(1,2)] assms(3) by (auto simp: equal_fold_def to_lower_def)
  note P = parse_line[OF this assms(4-8)]
  have "gget r (to_lower spell) = Some cmd"
    using register_seq_get[OF assms(1,2)] assms(3) by (simp add: equal_fold_def)
  note D = Dispatch_parsed[OF P(1) this, of isAdmin] Dispatch_parsed[OF P(2) this, of isAdmin]
  have "to_lower spell = to_lower (sc_Name cmd)" using assms(3) by (simp add: equal_fold_def)
  with D show ?thesis by metis
qed

theorem slash_registered_is_reachable_witness:
  "Dispatch [(''help'', \<lparr>sc_Name = ''help'', sc_AdminOnly = False, sc_Handler = Some 4\<rparr>)] False ''/HELP@bob me'' = RanHandler 4 ''me''"
proof -
  let ?c = "\<lparr>sc_Name = ''help'', sc_AdminOnly = False, sc_Handler = Some 4\<rparr>"
  have "register_seq [] [?c] = Inr [(''help'', ?c)]" by code_simp
  moreover have "equal_fold ''HELP'' ''help''" by code_simp
  ultimately show ?thesis
    using slash_registered_is_reachable[of "[?c]" "[(''help'', ?c)]" ?c "''HELP''" "''bob''" "''me''" False]
    by (simp add: is_space_def trim_space_def)
qed

text \<open>
  Rewriting line boundaries distributes over concatenation, so a reply streamed in chunks and
  then finished carries the streamed bytes as its exact prefix; and with the newline itself as the
  separator it is the identity.
\<close>

theorem hardBreak_distributes:
  "hardBreak sep (a @ b) = hardBreak sep a @ hardBreak sep b \<and> hardBreak [CHR 0x0A] a = a"
  by (induction a) (auto simp: hardBreak_def)

end
