(* ===== verification/Gate_Screen.thy ===== *)
theory Gate_Screen
  imports Gate_Rejected Claim_Token Slash_Registry
begin

section \<open>Screening an inbound event\<close>

text \<open>
  \<^verbatim>\<open>src/leaf/gate/30-screen.go\<close>, \<^verbatim>\<open>36-batch.go\<close> and the command of \<^verbatim>\<open>40-module.go\<close>: the
  triage of every inbound message (denylist, then redemption of a token's batch, then the
  allowlist), the bounce with its admit token, and the parsing of \<^verbatim>\<open>/gate allow\<close>.

  The commands of a batch run through the slash registry, whose handlers belong to every module:
  \<open>dispatch\<close> is a parameter, a function of the event, the authority and the screener (a command
  such as \<^verbatim>\<open>/gate allow\<close> changes the screener's own policies and feed) that says whether the
  command succeeded and what it replied; \<open>registry_dispatch\<close> is the registry of
  \<open>Slash_Registry\<close> in that place, with what the handlers do as its argument. Localised texts are data: a receipt is its list of lines,
  a bounce names the applicant and carries the token. The tokens are those of the facility
  (\<open>Claim_Token\<close>), used through its locale's facts.
\<close>

record batchPayload =
  b_Commands :: "string list"
  b_Desc :: string
  b_AsAdmin :: bool

datatype payload = PBatch batchPayload | POther nat

record event =
  ev_Source :: string
  ev_ChatID :: string
  ev_UserID :: string
  ev_UserName :: string
  ev_ChatType :: string
  ev_Text :: string
  ev_IsAdmin :: bool

record screener =
  scr_policies :: "(string, gpolicy) gomap"
  scr_slash :: bool
  scr_rejected :: rejectedSenders
  scr_tokens :: "payload toks option"

type_synonym dispatcher = "event \<Rightarrow> bool \<Rightarrow> screener \<Rightarrow> (bool \<times> string) \<times> screener"

record receipt =
  rc_desc :: string
  rc_lines :: "(bool \<times> string option \<times> string) list"

datatype screen_action = ScreenPass | ScreenDrop | ScreenRedeemed

datatype screen_reason = ReasonNone | ReasonDenied | ReasonUnauthorized

datatype reply = NoReply | Receipt receipt | Bounce string string

record verdict =
  v_Action :: screen_action
  v_Reason :: screen_reason
  v_Reply :: reply
  v_Onboarding :: bool

definition admitKind :: string where
  "admitKind = ''gate-admit''"

definition admitTokenTTL :: duration where
  "admitTokenTTL = 10 * minute"

definition policyFor :: "screener \<Rightarrow> string \<Rightarrow> gpolicy" where
  "policyFor s source = ggetz zero_policy (scr_policies s) source"

definition swapPolicies :: "screener \<Rightarrow> (string, gpolicy) gomap \<Rightarrow> screener" where
  "swapPolicies s p = s\<lparr>scr_policies := p\<rparr>"

definition screener_IsAdmin :: "screener \<Rightarrow> string \<Rightarrow> string \<Rightarrow> string \<Rightarrow> bool" where
  "screener_IsAdmin s source chatID userID = policy_IsAdmin (policyFor s source) chatID userID"

definition isGroupChat :: "string \<Rightarrow> bool" where
  "isGroupChat t \<longleftrightarrow> t = ''group''"

subsection \<open>Running a batch\<close>

fun batch_loop :: "dispatcher \<Rightarrow> event \<Rightarrow> bool \<Rightarrow> bool \<Rightarrow> string list \<Rightarrow> bool \<Rightarrow> bool
    \<Rightarrow> (bool \<times> string option \<times> string) list \<Rightarrow> screener
    \<Rightarrow> bool \<times> bool \<times> (bool \<times> string option \<times> string) list \<times> screener" where
  "batch_loop dispatch ev realAdmin asAdmin [] allOK anyOK lines s = (allOK, anyOK, lines, s)"
| "batch_loop dispatch ev realAdmin asAdmin (cmd0 # cmds) allOK anyOK lines s =
     (let cmd = trim_space cmd0
      in if cmd = [] then batch_loop dispatch ev realAdmin asAdmin cmds allOK anyOK lines s
         else let ((ok, out), s') = dispatch (ev\<lparr>ev_Text := cmd, ev_IsAdmin := asAdmin\<rparr>) asAdmin s;
                  line = (ok, if realAdmin then Some cmd else None, trim_space out)
              in batch_loop dispatch ev realAdmin asAdmin cmds
                   (if ok then allOK else False) (if ok then True else anyOK) (lines @ [line]) s')"

definition runBatch :: "dispatcher \<Rightarrow> screener \<Rightarrow> batchPayload \<Rightarrow> event \<Rightarrow> receipt \<times> bool \<times> bool \<times> screener" where
  "runBatch dispatch s batch ev =
     (let realAdmin = screener_IsAdmin s (ev_Source ev) (ev_ChatID ev) (ev_UserID ev);
          asAdmin = (b_AsAdmin batch \<or> realAdmin);
          (allOK, anyOK, lines, s') = batch_loop dispatch ev realAdmin asAdmin (b_Commands batch) True False [] s
      in (\<lparr>rc_desc = trim_space (b_Desc batch), rc_lines = lines\<rparr>, allOK, realAdmin \<or> anyOK, s'))"

subsection \<open>Bouncing\<close>

definition bounce_cmd :: "event \<Rightarrow> string" where
  "bounce_cmd ev =
     (if isGroupChat (ev_ChatType ev)
      then ''/gate allow '' @ ev_Source ev @ '' '' @ ev_ChatID ev @ '' '' @ ev_UserID ev
      else ''/gate allow '' @ ev_Source ev @ '' '' @ ev_UserID ev)"

definition bounce_who :: "event \<Rightarrow> string" where
  "bounce_who ev = (let who = trim_space (ev_UserName ev) in if who = [] then ev_UserID ev else who)"

definition mintBounce :: "gtime \<Rightarrow> string \<Rightarrow> screener \<Rightarrow> event \<Rightarrow> reply \<times> screener" where
  "mintBounce now randTok s ev =
     (case scr_tokens s of
        None \<Rightarrow> (NoReply, s)
      | Some toks \<Rightarrow>
          let (tok, toks1) = Mint randTok now toks admitKind
                (PBatch \<lparr>b_Commands = [bounce_cmd ev], b_Desc = bounce_who ev, b_AsAdmin = False\<rparr>) admitTokenTTL;
              ((prev, found), rej) = SetToken (scr_rejected s) (ev_Source ev) (ev_ChatID ev) (ev_UserID ev) tok;
              toks2 = (if prev \<noteq> [] \<and> prev \<noteq> tok then Consume toks1 prev else toks1)
          in (Bounce (bounce_who ev) tok, s\<lparr>scr_rejected := rej, scr_tokens := Some toks2\<rparr>))"

subsection \<open>The triage\<close>

definition redeem :: "dispatcher \<Rightarrow> gtime \<Rightarrow> screener \<Rightarrow> event \<Rightarrow> verdict option \<times> screener" where
  "redeem dispatch now s ev =
     (case scr_tokens s of
        None \<Rightarrow> (None, s)
      | Some toks \<Rightarrow>
          let tok = trim_space (ev_Text ev)
          in if \<not> scr_slash s \<or> tok = [] then (None, s)
             else let (r, toks1) = Verify now toks tok;
                      s1 = s\<lparr>scr_tokens := Some toks1\<rparr>
                  in case r of
                       Some (kind, PBatch batch) \<Rightarrow>
                         let (receipt, burn, deliver, s2) = runBatch dispatch s1 batch ev
                         in if deliver
                            then (Some \<lparr>v_Action = ScreenRedeemed, v_Reason = ReasonNone, v_Reply = Receipt receipt,
                                        v_Onboarding = False\<rparr>,
                                  if burn then s2\<lparr>scr_tokens := map_option (\<lambda>t. Consume t tok) (scr_tokens s2)\<rparr> else s2)
                            else (None, s2)
                     | _ \<Rightarrow> (None, s1))"

definition Screen :: "dispatcher \<Rightarrow> gtime \<Rightarrow> string \<Rightarrow> screener \<Rightarrow> event \<Rightarrow> verdict \<times> screener" where
  "Screen dispatch now randTok s ev =
     (let p = policyFor s (ev_Source ev)
      in if Denied p (ev_ChatID ev) (ev_UserID ev)
         then (\<lparr>v_Action = ScreenDrop, v_Reason = ReasonDenied, v_Reply = NoReply, v_Onboarding = False\<rparr>, s)
         else case redeem dispatch now s ev of
                (Some v, s1) \<Rightarrow> (v, s1)
              | (None, s1) \<Rightarrow>
                  if \<not> Authorized p (ev_ChatID ev) (ev_UserID ev) then
                    if p_Onboarding p
                    then (\<lparr>v_Action = ScreenPass, v_Reason = ReasonNone, v_Reply = NoReply, v_Onboarding = True\<rparr>, s1)
                    else let (shouldReply, rej) = Record now (scr_rejected s1) (ev_Source ev) (ev_ChatID ev)
                               (ev_UserID ev) (ev_UserName ev) (ev_ChatType ev);
                             s2 = s1\<lparr>scr_rejected := rej\<rparr>;
                             (reply, s3) = (if shouldReply then mintBounce now randTok s2 ev else (NoReply, s2))
                         in (\<lparr>v_Action = ScreenDrop, v_Reason = ReasonUnauthorized, v_Reply = reply, v_Onboarding = False\<rparr>, s3)
                  else (\<lparr>v_Action = ScreenPass, v_Reason = ReasonNone, v_Reply = NoReply, v_Onboarding = False\<rparr>, s1))"

subsection \<open>The grant command\<close>

text \<open>\<^verbatim>\<open>strings.Fields\<close>: the maximal runs of bytes that are not white space.\<close>

fun fields_acc :: "string \<Rightarrow> string \<Rightarrow> string list" where
  "fields_acc w [] = (if w = [] then [] else [w])"
| "fields_acc w (c # s) =
     (if is_space c then (if w = [] then fields_acc [] s else w # fields_acc [] s)
      else fields_acc (w @ [c]) s)"

definition fields :: "string \<Rightarrow> string list" where
  "fields s = fields_acc [] s"

datatype gate_grant = GrantSource string string | GrantInChat string string string | GateUsage

definition slashGate :: "string \<Rightarrow> gate_grant" where
  "slashGate args =
     (case fields args of
        a # rest \<Rightarrow>
          if a \<noteq> ''allow'' then GateUsage
          else (case rest of
                  [source, uid] \<Rightarrow> GrantSource source uid
                | [source, chatID, uid] \<Rightarrow> GrantInChat source chatID uid
                | _ \<Rightarrow> GateUsage)
      | [] \<Rightarrow> GateUsage)"

subsection \<open>Batches\<close>

lemma batch_loop_spec:
  "batch_loop dispatch ev ra aa cmds allOK anyOK lines s = (allOK', anyOK', lines', s') \<Longrightarrow>
     (\<exists>new. lines' = lines @ new
        \<and> length new = length (filter (\<lambda>c. trim_space c \<noteq> []) cmds)
        \<and> (allOK' \<longleftrightarrow> allOK \<and> list_all fst new) \<and> (anyOK' \<longleftrightarrow> anyOK \<or> list_ex fst new)
        \<and> (\<not> ra \<longrightarrow> list_all (\<lambda>l. fst (snd l) = None) new))"
proof (induction dispatch ev ra aa cmds allOK anyOK lines s rule: batch_loop.induct)
  case (2 dispatch ev ra aa cmd cmds allOK anyOK lines s)
  show ?case
  proof (cases "trim_space cmd = []")
    case True
    with 2 show ?thesis by simp
  next
    case False
    obtain ok out s1 where d: "dispatch (ev\<lparr>ev_Text := trim_space cmd, ev_IsAdmin := aa\<rparr>) aa s = ((ok, out), s1)"
      by (metis prod.collapse)
    let ?line = "(ok, if ra then Some (trim_space cmd) else None, trim_space out)"
    from 2(3) False d have r: "batch_loop dispatch ev ra aa cmds (if ok then allOK else False) (if ok then True else anyOK)
        (lines @ [?line]) s1 = (allOK', anyOK', lines', s')" by (simp add: Let_def)
    from 2(2)[OF refl False d[symmetric] refl refl refl r]
    obtain new where n: "lines' = (lines @ [?line]) @ new"
      "length new = length (filter (\<lambda>c. trim_space c \<noteq> []) cmds)"
      "allOK' \<longleftrightarrow> (if ok then allOK else False) \<and> list_all fst new"
      "anyOK' \<longleftrightarrow> (if ok then True else anyOK) \<or> list_ex fst new"
      "\<not> ra \<longrightarrow> list_all (\<lambda>l. fst (snd l) = None) new" by blast
    show ?thesis using n False by (intro exI[of _ "?line # new"]) auto
  qed
qed simp

text \<open>
  The receipt of a redeemed batch accounts for every command: one line per non-blank command;
  the token is to be burnt exactly when every command succeeded; the receipt is delivered exactly
  when the redeemer is a real admin or some command succeeded; and unless the redeemer is a real
  admin no line shows a command.
\<close>

theorem run_batch_receipt:
  assumes "runBatch dispatch s batch ev = (rcpt, burn, deliver, s')"
  shows "length (rc_lines rcpt) = length (filter (\<lambda>c. trim_space c \<noteq> []) (b_Commands batch))
    \<and> (burn \<longleftrightarrow> list_all fst (rc_lines rcpt))
    \<and> (deliver \<longleftrightarrow> screener_IsAdmin s (ev_Source ev) (ev_ChatID ev) (ev_UserID ev) \<or> list_ex fst (rc_lines rcpt))
    \<and> (\<not> screener_IsAdmin s (ev_Source ev) (ev_ChatID ev) (ev_UserID ev)
         \<longrightarrow> list_all (\<lambda>l. fst (snd l) = None) (rc_lines rcpt))"
proof -
  let ?ra = "screener_IsAdmin s (ev_Source ev) (ev_ChatID ev) (ev_UserID ev)"
  obtain a b ls t where l: "batch_loop dispatch ev ?ra (b_AsAdmin batch \<or> ?ra) (b_Commands batch) True False [] s = (a, b, ls, t)"
    by (metis prod_cases4)
  from batch_loop_spec[OF l] assms l show ?thesis by (auto simp: runBatch_def Let_def)
qed

definition demo_event :: event where
  "demo_event = \<lparr>ev_Source = ''tg'', ev_ChatID = ''c1'', ev_UserID = ''u1'', ev_UserName = ''Eve'', ev_ChatType = ''dm'',
     ev_Text = ''t1'', ev_IsAdmin = False\<rparr>"

definition demo_screener :: screener where
  "demo_screener = \<lparr>scr_policies = [(''tg'', zero_policy\<lparr>p_Admins := [''root'']\<rparr>)], scr_slash = True,
     scr_rejected = NewRejectedSenders 5,
     scr_tokens = Some [(''t1'', \<lparr>e_kind = admitKind, e_payload = PBatch \<lparr>b_Commands = [''/gate allow tg u1''],
       b_Desc = [], b_AsAdmin = False\<rparr>, e_expUnix = 100\<rparr>)]\<rparr>"

text \<open>A registry that runs a command for an admin only, with no effect on the screener.\<close>

definition admin_only_dispatch :: dispatcher where
  "admin_only_dispatch ev isAdmin s = ((isAdmin, ''ok''), s)"

theorem run_batch_receipt_witness:
  "let r = runBatch admin_only_dispatch demo_screener \<lparr>b_Commands = [''/gate allow tg u1'', '' ''], b_Desc = [], b_AsAdmin = True\<rparr> demo_event
   in length (rc_lines (fst r)) = 1 \<and> list_all (\<lambda>l. fst (snd l) = None) (rc_lines (fst r))"
proof -
  let ?b = "\<lparr>b_Commands = [''/gate allow tg u1'', '' ''], b_Desc = [], b_AsAdmin = True\<rparr>"
  let ?r = "runBatch admin_only_dispatch demo_screener ?b demo_event"
  have e: "?r = (fst ?r, fst (snd ?r), fst (snd (snd ?r)), snd (snd (snd ?r)))" by simp
  have "\<not> screener_IsAdmin demo_screener (ev_Source demo_event) (ev_ChatID demo_event) (ev_UserID demo_event)"
    by (simp add: screener_IsAdmin_def policyFor_def demo_screener_def demo_event_def ggetz_def policy_IsAdmin_def
        idEqual_def contains_char_def zero_policy_def)
  moreover have "length (filter (\<lambda>c. trim_space c \<noteq> []) (b_Commands ?b)) = 1"
    by (simp add: trim_space_def is_space_def)
  ultimately show ?thesis using run_batch_receipt[OF e] by (simp only: Let_def) simp
qed

subsection \<open>The order of the gate\<close>

text \<open>
  The denylist beats everything and is silent: an event of a denied sender is dropped with no
  reply and without any effect, even when its text is a live token.
\<close>

theorem denied_sender_is_inert:
  assumes "Denied (policyFor s (ev_Source ev)) (ev_ChatID ev) (ev_UserID ev)"
  shows "Screen dispatch now randTok s ev =
    (\<lparr>v_Action = ScreenDrop, v_Reason = ReasonDenied, v_Reply = NoReply, v_Onboarding = False\<rparr>, s)"
  using assms by (simp add: Screen_def Let_def)

theorem denied_sender_is_inert_witness:
  "v_Action (fst (Screen admin_only_dispatch 0 ''t9''
     (demo_screener\<lparr>scr_policies := [(''tg'', zero_policy\<lparr>p_Denylist := [''u1'']\<rparr>)]\<rparr>) demo_event)) = ScreenDrop"
proof -
  let ?s = "demo_screener\<lparr>scr_policies := [(''tg'', zero_policy\<lparr>p_Denylist := [''u1'']\<rparr>)]\<rparr>"
  have "Denied (policyFor ?s (ev_Source demo_event)) (ev_ChatID demo_event) (ev_UserID demo_event)"
    by (simp add: Denied_def policyFor_def ggetz_def demo_event_def)
  from denied_sender_is_inert[OF this] show ?thesis by simp
qed

lemma redeem_action: "redeem dispatch now s ev = (Some v, s') \<Longrightarrow> v_Action v = ScreenRedeemed"
  by (auto simp: redeem_def Let_def split: option.splits prod.splits payload.splits if_splits)

lemma redeem_worth:
  assumes "redeem dispatch now s ev = (Some v, s')"
  shows "\<exists>toks kind batch. scr_tokens s = Some toks \<and> worth toks now (trim_space (ev_Text ev)) = Some (kind, PBatch batch)"
proof -
  from assms obtain toks where t: "scr_tokens s = Some toks" by (auto simp: redeem_def split: option.splits)
  with assms have "\<exists>kind batch. fst (Verify now toks (trim_space (ev_Text ev))) = Some (kind, PBatch batch)"
    by (auto simp: redeem_def Let_def split: option.splits prod.splits payload.splits if_splits)
  with t show ?thesis by (simp add: ct.verify_result)
qed

text \<open>
  C1. Nobody passes the gate by accident: a passed event comes from a sender who is not denied and is
  authorized by the policy of its source, or whose source opted into onboarding, and then it is
  marked as such; an event is redeemed only when its text is a token worth a batch at that instant;
  in particular a source without a policy lets nobody through.
\<close>

theorem screen_passes_only_authorized:
  assumes "Screen dispatch now randTok s ev = (v, s')"
  shows "case v_Action v of
      ScreenPass \<Rightarrow> \<not> Denied (policyFor s (ev_Source ev)) (ev_ChatID ev) (ev_UserID ev)
        \<and> (v_Onboarding v \<longleftrightarrow> \<not> Authorized (policyFor s (ev_Source ev)) (ev_ChatID ev) (ev_UserID ev))
        \<and> (v_Onboarding v \<longrightarrow> p_Onboarding (policyFor s (ev_Source ev)))
        \<and> ghas (scr_policies s) (ev_Source ev)
    | ScreenRedeemed \<Rightarrow> (\<exists>toks kind batch. scr_tokens s = Some toks
        \<and> worth toks now (trim_space (ev_Text ev)) = Some (kind, PBatch batch))
    | ScreenDrop \<Rightarrow> Denied (policyFor s (ev_Source ev)) (ev_ChatID ev) (ev_UserID ev)
        \<or> (\<not> Authorized (policyFor s (ev_Source ev)) (ev_ChatID ev) (ev_UserID ev)
           \<and> \<not> p_Onboarding (policyFor s (ev_Source ev)))"
proof -
  let ?p = "policyFor s (ev_Source ev)"
  have zero: "ghas (scr_policies s) (ev_Source ev)" if "Authorized ?p (ev_ChatID ev) (ev_UserID ev) \<or> p_Onboarding ?p"
  proof (rule ccontr)
    assume "\<not> ghas (scr_policies s) (ev_Source ev)"
    then have "?p = zero_policy" by (simp add: policyFor_def ggetz_def ghas_def)
    with that show False by (simp add: Authorized_def zero_policy_def)
  qed
  obtain r s1 where r: "redeem dispatch now s ev = (r, s1)" by fastforce
  show ?thesis
  proof (cases "Denied ?p (ev_ChatID ev) (ev_UserID ev)")
    case True
    with assms show ?thesis by (auto simp: Screen_def Let_def)
  next
    case False
    show ?thesis
    proof (cases r)
      case (Some v')
      with assms r False have "v = v'" by (simp add: Screen_def Let_def)
      with redeem_action[of dispatch now s ev v' s1] redeem_worth[of dispatch now s ev v' s1] r Some show ?thesis by simp
    next
      case None
      with assms r False zero show ?thesis
        by (auto simp: Screen_def Let_def split: if_splits prod.splits)
    qed
  qed
qed

theorem screen_passes_only_authorized_witness:
  "let s = demo_screener\<lparr>scr_policies := [(''tg'', zero_policy\<lparr>p_Allowlist := [''u1'']\<rparr>)], scr_slash := False\<rparr>
   in v_Action (fst (Screen admin_only_dispatch 0 ''t9'' s demo_event)) = ScreenPass
      \<and> Authorized (policyFor s ''tg'') ''c1'' ''u1''"
proof -
  let ?s = "demo_screener\<lparr>scr_policies := [(''tg'', zero_policy\<lparr>p_Allowlist := [''u1'']\<rparr>)], scr_slash := False\<rparr>"
  let ?r = "Screen admin_only_dispatch 0 ''t9'' ?s demo_event"
  have a: "v_Action (fst ?r) = ScreenPass \<and> \<not> v_Onboarding (fst ?r)"
    by (simp add: Screen_def redeem_def policyFor_def ggetz_def demo_screener_def demo_event_def Denied_def
        Authorized_def zero_policy_def Let_def)
  have "?r = (fst ?r, snd ?r)" by simp
  from screen_passes_only_authorized[OF this] a show ?thesis by (simp add: demo_event_def)
qed

subsection \<open>A leaked code is worth nothing\<close>

text \<open>The registry of \<^verbatim>\<open>src/leaf/slash/10-registry.go\<close> as the dispatcher of a batch: \<open>run\<close> is what the
  handlers do; an unknown command and an admin-only one of a sender without authority fail before any handler.\<close>

definition registry_dispatch ::
  "slash_table \<Rightarrow> (nat \<Rightarrow> event \<Rightarrow> string \<Rightarrow> screener \<Rightarrow> (bool \<times> string) \<times> screener) \<Rightarrow> dispatcher" where
  "registry_dispatch reg run ev isAdmin s =
     (case Dispatch reg isAdmin (ev_Text ev) of
        UnknownCommand name \<Rightarrow> ((False, ''slash.dispatch.unknown''), s)
      | AdminOnlyCommand name \<Rightarrow> ((False, ''slash.dispatch.admin_only''), s)
      | RanHandler h args \<Rightarrow> run h ev args s)"

definition refuses :: "dispatcher \<Rightarrow> event \<Rightarrow> string list \<Rightarrow> bool" where
  "refuses dispatch ev cmds \<longleftrightarrow> (\<forall>c \<in> set cmds. \<forall>s. \<exists>out.
     dispatch (ev\<lparr>ev_Text := trim_space c, ev_IsAdmin := False\<rparr>) False s = ((False, out), s))"

lemma admin_only_refused:
  assumes "\<forall>c \<in> set cmds. \<exists>cmd. gget reg (fst (parseCommand (trim_space c))) = Some cmd \<and> sc_AdminOnly cmd"
  shows "refuses (registry_dispatch reg run) ev cmds"
  using assms by (fastforce simp: refuses_def registry_dispatch_def Dispatch_def case_prod_beta)

lemma trim_space_solid:
  assumes "a \<noteq> []" and "\<not> is_space (hd a)" and "\<not> is_space (last a)"
  shows "\<exists>t. trim_space (a @ s) = a @ t \<and> prefix t s"
proof -
  have d: "dropWhile is_space (a @ s) = a @ s" using assms(1,2) by (cases a) auto
  have "dropWhile is_space (rev a) = rev a" using assms(1,3) by (cases a rule: rev_cases) auto
  then have "dropWhile is_space (rev s @ rev a) = dropWhile is_space (rev s) @ rev a"
    by (simp add: dropWhile_append dropWhile_eq_Nil_conv)
  then have "trim_space (a @ s) = a @ rev (dropWhile is_space (rev s))" by (simp add: trim_space_def d)
  moreover have "prefix (rev (dropWhile is_space (rev s))) s" by (metis suffix_dropWhile suffix_to_prefix rev_rev_ident)
  ultimately show ?thesis by blast
qed

lemma bounce_cmd_is_gate: "fst (parseCommand (trim_space (bounce_cmd ev))) = ''gate''"
proof -
  have "\<exists>s. bounce_cmd ev = ''/gate allow'' @ s" by (cases "isGroupChat (ev_ChatType ev)") (simp_all add: bounce_cmd_def)
  then obtain s where c: "bounce_cmd ev = ''/gate allow'' @ s" by blast
  have solid: "''/gate allow'' \<noteq> []" "\<not> is_space (hd ''/gate allow'')" "\<not> is_space (last ''/gate allow'')"
    by (simp_all add: is_space_def)
  obtain t where t: "trim_space (bounce_cmd ev) = ''/gate allow'' @ t" using trim_space_solid[OF solid, of s] c by auto
  obtain u where u: "trim_space (''/gate allow'' @ t) = ''/gate allow'' @ u" using trim_space_solid[OF solid, of t] by auto
  show ?thesis
    unfolding t parseCommand_def u by (simp add: trim_slash_def break_char_def Let_def to_lower_def lower_char_def between_def)
qed

text \<open>The code the sender's own entry of the feed carries.\<close>

definition carried :: "screener \<Rightarrow> event \<Rightarrow> string" where
  "carried s ev = (case gget (rs_m (scr_rejected s)) (rejKey (ev_Source ev) (ev_ChatID ev) (ev_UserID ev)) of
     Some e \<Rightarrow> r_Token e | None \<Rightarrow> [])"

lemma carried_Record:
  assumes "Record now (scr_rejected s) (ev_Source ev) (ev_ChatID ev) (ev_UserID ev) n t = (b, rej)"
  shows "carried (s\<lparr>scr_rejected := rej\<rparr>) ev = carried s ev"
  using assms by (auto simp: carried_def Record_def Let_def split: option.splits if_splits)

lemma mintBounce_worth:
  assumes "scr_tokens s = Some toks" and "randTok \<noteq> []" and "mintBounce now randTok s ev = (reply, s')"
    and "u \<noteq> randTok" and "u \<noteq> carried s ev"
  shows "\<exists>toks'. scr_tokens s' = Some toks' \<and> (\<forall>later. worth toks' later u = worth toks later u)"
proof -
  let ?p = "PBatch \<lparr>b_Commands = [bounce_cmd ev], b_Desc = bounce_who ev, b_AsAdmin = False\<rparr>"
  obtain t1 where mint: "Mint randTok now toks admitKind ?p admitTokenTTL = (randTok, t1)" by (metis ct.mint_token prod.collapse)
  have w1: "worth t1 later u = worth toks later u" for later
    using ct.mint_worth[OF assms(2), of now toks admitKind ?p admitTokenTTL later u] assms(4) by (simp add: mint)
  obtain prev found rej where st:
    "SetToken (scr_rejected s) (ev_Source ev) (ev_ChatID ev) (ev_UserID ev) randTok = ((prev, found), rej)"
    by (metis prod.exhaust)
  have "prev = carried s ev" using st by (auto simp: SetToken_def carried_def split: option.splits)
  then have "worth (if prev \<noteq> [] \<and> prev \<noteq> randTok then Consume t1 prev else t1) later u = worth toks later u" for later
    using w1 assms(5) by (simp add: ct.consume_worth)
  moreover have "scr_tokens s' = Some (if prev \<noteq> [] \<and> prev \<noteq> randTok then Consume t1 prev else t1)"
    using assms(1,3) by (auto simp: mintBounce_def mint st Let_def)
  ultimately show ?thesis by blast
qed

lemma batch_loop_refused:
  "refuses dispatch ev cmds \<Longrightarrow>
     \<exists>allOK' lines'. batch_loop dispatch ev False False cmds allOK anyOK lines s = (allOK', anyOK, lines', s)"
proof (induction cmds arbitrary: allOK anyOK lines)
  case (Cons c cmds)
  then have IH: "\<exists>allOK' lines'. batch_loop dispatch ev False False cmds a b l s = (allOK', b, lines', s)" for a b l
    by (simp add: refuses_def)
  from Cons.prems obtain out where "dispatch (ev\<lparr>ev_Text := trim_space c, ev_IsAdmin := False\<rparr>) False s = ((False, out), s)"
    unfolding refuses_def by (meson list.set_intros(1))
  with IH show ?case by (cases "trim_space c = []") (simp_all add: Let_def)
qed simp

text \<open>A batch the registry refuses leaves no trace: the event is screened as if it had no text.\<close>

lemma refused_code_screened:
  assumes "scr_tokens s = Some toks" and "worth toks now (trim_space (ev_Text ev)) = Some (kind, PBatch batch)"
    and "\<not> b_AsAdmin batch" and "refuses dispatch ev (b_Commands batch)"
    and "\<not> screener_IsAdmin s (ev_Source ev) (ev_ChatID ev) (ev_UserID ev)"
  shows "redeem dispatch now s ev = (None, s)"
    and "Screen dispatch now randTok s ev = Screen dispatch now randTok s (ev\<lparr>ev_Text := []\<rparr>)"
proof -
  let ?t = "trim_space (ev_Text ev)"
  have t: "?t \<noteq> []" using assms(2) by (auto simp: worth_def)
  have v: "Verify now toks ?t = (Some (kind, PBatch batch), toks)"
    using assms(2) t by (auto simp: Verify_def worth_def split: option.splits if_splits)
  have s: "s\<lparr>scr_tokens := Some toks\<rparr> = s" using assms(1) by (cases s) simp
  obtain a ls where "batch_loop dispatch ev False False (b_Commands batch) True False [] s = (a, False, ls, s)"
    using batch_loop_refused[OF assms(4)] by blast
  then have rb: "\<exists>rcpt burn. runBatch dispatch s batch ev = (rcpt, burn, False, s)"
    using assms(3,5) by (auto simp: runBatch_def Let_def)
  then obtain rcpt burn where "runBatch dispatch (s\<lparr>scr_tokens := Some toks\<rparr>) batch ev = (rcpt, burn, False, s)"
    unfolding s by blast
  then show r1: "redeem dispatch now s ev = (None, s)"
    using assms(1) t v by (cases "scr_slash s") (simp_all add: redeem_def Let_def)
  have r2: "redeem dispatch now s (ev\<lparr>ev_Text := []\<rparr>) = (None, s)"
    using assms(1) by (simp add: redeem_def)
  have "mintBounce now randTok x (ev\<lparr>ev_Text := []\<rparr>) = mintBounce now randTok x ev" for x
  proof -
    have "bounce_cmd (ev\<lparr>ev_Text := []\<rparr>) = bounce_cmd ev" "bounce_who (ev\<lparr>ev_Text := []\<rparr>) = bounce_who ev"
      by (simp_all add: bounce_cmd_def bounce_who_def Let_def)
    then show ?thesis by (cases "scr_tokens x") (simp_all add: mintBounce_def Let_def)
  qed
  then show "Screen dispatch now randTok s ev = Screen dispatch now randTok s (ev\<lparr>ev_Text := []\<rparr>)"
    using r1 r2 by (simp add: Screen_def Let_def cong: if_cong)
qed

lemma unredeemed_keeps_worth:
  assumes "redeem dispatch now s ev = (None, s)" and "Screen dispatch now randTok s ev = (v, s')"
    and "scr_tokens s = Some toks" and "randTok \<noteq> []" and "u \<noteq> randTok" and "u \<noteq> carried s ev"
  shows "\<exists>toks'. scr_tokens s' = Some toks' \<and> (\<forall>later. worth toks' later u = worth toks later u)"
proof -
  obtain b rej where rec: "Record now (scr_rejected s) (ev_Source ev) (ev_ChatID ev) (ev_UserID ev) (ev_UserName ev) (ev_ChatType ev)
      = (b, rej)" by fastforce
  let ?s2 = "s\<lparr>scr_rejected := rej\<rparr>"
  have "s' = s \<or> s' = ?s2 \<or> (\<exists>reply. mintBounce now randTok ?s2 ev = (reply, s'))"
    using assms(1,2) rec by (auto simp: Screen_def Let_def split: if_splits prod.splits)
  then show ?thesis
    using assms(3) mintBounce_worth[of ?s2 toks randTok now ev _ s' u] assms(4-6) carried_Record[OF rec] by auto
qed

text \<open>
  C36. A bounce code is safe to show in public. Somebody who is no operator pastes a live code that was minted
  for whatever applicant, and the command \<^verbatim>\<open>gate\<close> stands in the registry as admin-only: then no handler
  runs and the event is screened exactly as if it had no text, so the code redeems nothing; and after the
  screen the code is worth what it was worth before, at every later instant, unless it is the very code the
  sender's own bounce replaces.
\<close>

theorem leaked_code_is_inert:
  assumes "scr_tokens s = Some toks" and "gget reg ''gate'' = Some cmd" and "sc_AdminOnly cmd"
    and "worth toks now tok = Some (kind, PBatch \<lparr>b_Commands = [bounce_cmd applicant], b_Desc = desc, b_AsAdmin = False\<rparr>)"
    and "tok = trim_space (ev_Text ev)"
    and "\<not> screener_IsAdmin s (ev_Source ev) (ev_ChatID ev) (ev_UserID ev)"
    and "randTok \<noteq> []" and "randTok \<noteq> tok" and "Screen (registry_dispatch reg run) now randTok s ev = (v, s')"
  shows "Screen (registry_dispatch reg run) now randTok s (ev\<lparr>ev_Text := []\<rparr>) = (v, s') \<and> v_Action v \<noteq> ScreenRedeemed
    \<and> (carried s ev \<noteq> tok \<longrightarrow>
         (\<exists>toks'. scr_tokens s' = Some toks' \<and> (\<forall>later. worth toks' later tok = worth toks later tok)))"
proof -
  have ref: "refuses (registry_dispatch reg run) ev [bounce_cmd applicant]"
    by (rule admin_only_refused) (simp add: bounce_cmd_is_gate assms(2,3))
  have w: "worth toks now (trim_space (ev_Text ev))
      = Some (kind, PBatch \<lparr>b_Commands = [bounce_cmd applicant], b_Desc = desc, b_AsAdmin = False\<rparr>)"
    using assms(4,5) by simp
  note r = refused_code_screened[OF assms(1) w _ _ assms(6), of "registry_dispatch reg run"]
  have red: "redeem (registry_dispatch reg run) now s ev = (None, s)" using r(1) ref by simp
  have "v_Action v \<noteq> ScreenRedeemed"
    using assms(9) red by (auto simp: Screen_def Let_def split: if_splits prod.splits)
  moreover have "Screen (registry_dispatch reg run) now randTok s (ev\<lparr>ev_Text := []\<rparr>) = (v, s')"
    using r(2)[of randTok] ref assms(9) by simp
  ultimately show ?thesis
    using unredeemed_keeps_worth[OF red assms(9,1,7), of tok] assms(8) by auto
qed

text \<open>A registry with \<^verbatim>\<open>/gate\<close>, and a stranger who pastes the code of somebody else.\<close>

definition demo_registry :: slash_table where
  "demo_registry = [(''gate'', \<lparr>sc_Name = ''gate'', sc_AdminOnly = True, sc_Handler = Some 1\<rparr>)]"

theorem leaked_code_is_inert_witness:
  "\<exists>v s' toks'. Screen (registry_dispatch demo_registry (\<lambda>h e args s. ((True, []), s))) 0 ''t9'' demo_screener
        (demo_event\<lparr>ev_UserID := ''u2''\<rparr>) = (v, s')
     \<and> v_Action v \<noteq> ScreenRedeemed \<and> scr_tokens s' = Some toks'
     \<and> worth toks' 0 ''t1'' = worth (the (scr_tokens demo_screener)) 0 ''t1''"
proof -
  let ?ev = "demo_event\<lparr>ev_UserID := ''u2''\<rparr>" and ?d = "registry_dispatch demo_registry (\<lambda>h e args s. ((True, []), s))"
  have w: "worth (the (scr_tokens demo_screener)) 0 ''t1'' =
      Some (admitKind, PBatch \<lparr>b_Commands = [bounce_cmd demo_event], b_Desc = [], b_AsAdmin = False\<rparr>)"
    and tok: "''t1'' = trim_space (ev_Text ?ev)" and own: "carried demo_screener ?ev \<noteq> ''t1''"
    by (simp_all add: demo_screener_def demo_event_def worth_def trim_space_def is_space_def unix_def bounce_cmd_def
        isGroupChat_def carried_def NewRejectedSenders_def)
  have d: "scr_tokens demo_screener = Some (the (scr_tokens demo_screener))" by (simp add: demo_screener_def)
  have n: "\<not> screener_IsAdmin demo_screener (ev_Source ?ev) (ev_ChatID ?ev) (ev_UserID ?ev)"
    by (simp add: screener_IsAdmin_def policyFor_def demo_screener_def demo_event_def ggetz_def policy_IsAdmin_def
        idEqual_def contains_char_def zero_policy_def)
  have g: "gget demo_registry ''gate'' = Some \<lparr>sc_Name = ''gate'', sc_AdminOnly = True, sc_Handler = Some 1\<rparr>"
    by (simp add: demo_registry_def)
  obtain v s' where r: "Screen ?d 0 ''t9'' demo_screener ?ev = (v, s')" by fastforce
  from leaked_code_is_inert[OF d g _ w tok n _ _ r] own
  obtain toks' where "v_Action v \<noteq> ScreenRedeemed" "scr_tokens s' = Some toks'"
    "worth toks' 0 ''t1'' = worth (the (scr_tokens demo_screener)) 0 ''t1''" by auto
  with r show ?thesis by blast
qed

subsection \<open>At most one live code per bounced sender\<close>

text \<open>
  Every bounce retires the code it replaces: it mints one fresh token that lives for
  \<^verbatim>\<open>admitTokenTTL\<close> and carries only the non-admin admit batch of this very sender, stamps it on the
  sender's feed entry, and kills the token that entry carried before; every other token keeps its worth.
\<close>

theorem bounce_retires_previous_code:
  assumes "scr_tokens s = Some toks" and "randTok \<noteq> []"
    and "gget (rs_m (scr_rejected s)) (rejKey (ev_Source ev) (ev_ChatID ev) (ev_UserID ev)) = Some e"
    and "r_Token e \<noteq> randTok" and "mintBounce now randTok s ev = (reply, s')"
  shows "\<exists>toks'. scr_tokens s' = Some toks' \<and> reply = Bounce (bounce_who ev) randTok
    \<and> (\<forall>later u. worth toks' later u =
         (if u = randTok then
            (if unix later < unix (now + admitTokenTTL)
             then Some (admitKind, PBatch \<lparr>b_Commands = [bounce_cmd ev], b_Desc = bounce_who ev, b_AsAdmin = False\<rparr>)
             else None)
          else if u = r_Token e then None else worth toks later u))
    \<and> map_option r_Token (gget (rs_m (scr_rejected s')) (rejKey (ev_Source ev) (ev_ChatID ev) (ev_UserID ev))) = Some randTok"
proof -
  let ?p = "PBatch \<lparr>b_Commands = [bounce_cmd ev], b_Desc = bounce_who ev, b_AsAdmin = False\<rparr>"
  let ?k = "rejKey (ev_Source ev) (ev_ChatID ev) (ev_UserID ev)"
  let ?rej = "(scr_rejected s)\<lparr>rs_m := gput ?k (e\<lparr>r_Token := randTok\<rparr>) (rs_m (scr_rejected s))\<rparr>"
  obtain t1 where mint: "Mint randTok now toks admitKind ?p admitTokenTTL = (randTok, t1)" by (metis ct.mint_token prod.collapse)
  define t2 where "t2 = (if r_Token e \<noteq> [] \<and> r_Token e \<noteq> randTok then Consume t1 (r_Token e) else t1)"
  have st: "SetToken (scr_rejected s) (ev_Source ev) (ev_ChatID ev) (ev_UserID ev) randTok = ((r_Token e, True), ?rej)"
    using assms(3) by (simp add: SetToken_def)
  have mb: "mintBounce now randTok s ev = (Bounce (bounce_who ev) randTok, s\<lparr>scr_rejected := ?rej, scr_tokens := Some t2\<rparr>)"
    by (simp add: mintBounce_def assms(1) mint st Let_def t2_def)
  have w1: "worth t1 later u = (if u = randTok then (if unix later < unix (now + admitTokenTTL) then Some (admitKind, ?p) else None)
      else worth toks later u)" for later u
    using ct.mint_worth[OF assms(2), of now toks admitKind ?p admitTokenTTL] by (simp add: mint)
  have "worth t2 later u = (if u = randTok then (if unix later < unix (now + admitTokenTTL) then Some (admitKind, ?p) else None)
      else if u = r_Token e then None else worth toks later u)" for later u
    using assms(2,4) w1[of later u] ct.consume_worth[of t1 "r_Token e" later u] by (auto simp: t2_def worth_def[of _ _ "[]"])
  then show ?thesis using mb assms(5) by (intro exI[of _ t2]) auto
qed

theorem bounce_retires_previous_code_witness:
  "let e = \<lparr>r_Source = ''tg'', r_ChatID = ''c1'', r_UserID = ''u1'', r_UserName = [], r_ChatType = ''dm'', r_Count = 1,
         r_FirstSeen = 0, r_LastSeen = 0, r_LastReplied = 0, r_Token = ''t1''\<rparr>;
       s = demo_screener\<lparr>scr_rejected := \<lparr>rs_max = 5, rs_m = [(rejKey ''tg'' ''c1'' ''u1'', e)]\<rparr>\<rparr>
   in \<exists>toks'. scr_tokens (snd (mintBounce 0 ''t2'' s demo_event)) = Some toks' \<and> worth toks' 0 ''t1'' = None"
proof -
  let ?e = "\<lparr>r_Source = ''tg'', r_ChatID = ''c1'', r_UserID = ''u1'', r_UserName = [], r_ChatType = ''dm'', r_Count = 1,
         r_FirstSeen = 0, r_LastSeen = 0, r_LastReplied = 0, r_Token = ''t1''\<rparr>"
  let ?s = "demo_screener\<lparr>scr_rejected := \<lparr>rs_max = 5, rs_m = [(rejKey ''tg'' ''c1'' ''u1'', ?e)]\<rparr>\<rparr>"
  have "scr_tokens ?s = Some (the (scr_tokens demo_screener))" by (simp add: demo_screener_def)
  moreover have "gget (rs_m (scr_rejected ?s)) (rejKey (ev_Source demo_event) (ev_ChatID demo_event) (ev_UserID demo_event)) = Some ?e"
    by (simp add: demo_event_def)
  moreover have "mintBounce 0 ''t2'' ?s demo_event = (fst (mintBounce 0 ''t2'' ?s demo_event), snd (mintBounce 0 ''t2'' ?s demo_event))"
    by simp
  ultimately obtain toks' where t: "scr_tokens (snd (mintBounce 0 ''t2'' ?s demo_event)) = Some toks'"
    and w: "\<forall>later u. worth toks' later u = (if u = ''t2'' then
            (if unix later < unix (0 + admitTokenTTL)
             then Some (admitKind, PBatch \<lparr>b_Commands = [bounce_cmd demo_event], b_Desc = bounce_who demo_event, b_AsAdmin = False\<rparr>)
             else None)
          else if u = r_Token ?e then None else worth (the (scr_tokens demo_screener)) later u)"
    using bounce_retires_previous_code[of ?s "the (scr_tokens demo_screener)" "''t2''" demo_event ?e 0
        "fst (mintBounce 0 ''t2'' ?s demo_event)" "snd (mintBounce 0 ''t2'' ?s demo_event)"] that by (simp, blast)
  have "worth toks' 0 ''t1'' = None" using w by simp
  with t show ?thesis by (simp only: Let_def) blast
qed

subsection \<open>The frozen target\<close>

lemma fields_acc_word: "\<forall>c \<in> set v. \<not> is_space c \<Longrightarrow> fields_acc w (v @ s) = fields_acc (w @ v) s"
  by (induction v arbitrary: w) auto

lemma fields_Cons: "v \<noteq> [] \<Longrightarrow> \<forall>c \<in> set v. \<not> is_space c \<Longrightarrow> fields (v @ '' '' @ s) = v # fields s"
  by (simp add: fields_def fields_acc_word is_space_def)

lemma fields_last: "v \<noteq> [] \<Longrightarrow> \<forall>c \<in> set v. \<not> is_space c \<Longrightarrow> fields v = [v]"
  using fields_acc_word[of v "[]" "[]"] by (simp add: fields_def)

definition plain_id :: "string \<Rightarrow> bool" where
  "plain_id i \<longleftrightarrow> i \<noteq> [] \<and> list_all (\<lambda>c. \<not> is_space c) i"

lemma plain_idD: "plain_id i \<Longrightarrow> i \<noteq> []" "plain_id i \<Longrightarrow> \<forall>c \<in> set i. \<not> is_space c"
  by (simp_all add: plain_id_def list_all_iff)

text \<open>
  The code admits exactly the sender it was minted for: for ids without white space, the command
  frozen in a bounce token, parsed by the slash registry and by the \<^verbatim>\<open>/gate\<close> handler, is the grant
  of this user on this source, in this chat only when the sender was bounced in a group.
\<close>

theorem bounce_command_roundtrip:
  assumes "plain_id (ev_Source ev)" and "plain_id (ev_ChatID ev)" and "plain_id (ev_UserID ev)"
  shows "fst (parseCommand (bounce_cmd ev)) = ''gate''
    \<and> slashGate (snd (parseCommand (bounce_cmd ev))) =
        (if isGroupChat (ev_ChatType ev) then GrantInChat (ev_Source ev) (ev_ChatID ev) (ev_UserID ev)
         else GrantSource (ev_Source ev) (ev_UserID ev))"
proof -
  note S = plain_idD[OF assms(1)] and C = plain_idD[OF assms(2)] and U = plain_idD[OF assms(3)]
  have allow: "''allow'' \<noteq> []" "\<forall>c \<in> set ''allow''. \<not> is_space c" by (simp_all add: is_space_def)
  have last: "\<not> is_space (last (xs @ ev_UserID ev))" for xs using U by (simp add: last_append)
  have parse: "parseCommand (''/gate '' @ ''allow '' @ xs @ ev_UserID ev) = (''gate'', ''allow '' @ xs @ ev_UserID ev)" for xs
  proof -
    have "trim_space (''allow '' @ xs @ ev_UserID ev) = ''allow '' @ xs @ ev_UserID ev"
      using last[of "''allow '' @ xs"] by (intro trim_space_clean) (auto simp: is_space_def)
    moreover have "to_lower ''gate'' = ''gate''" by (simp add: to_lower_def lower_char_def)
    ultimately show ?thesis
      using parse_line(1)[of "''gate''" "[]" "''allow '' @ xs @ ev_UserID ev"] last[of "''allow '' @ xs"]
      by (simp add: is_space_def)
  qed
  have f2: "fields (''allow'' @ '' '' @ ev_Source ev @ '' '' @ ev_UserID ev) = [''allow'', ev_Source ev, ev_UserID ev]"
    by (simp only: fields_Cons[OF allow] fields_Cons[OF S] fields_last[OF U])
  have f3: "fields (''allow'' @ '' '' @ ev_Source ev @ '' '' @ ev_ChatID ev @ '' '' @ ev_UserID ev)
      = [''allow'', ev_Source ev, ev_ChatID ev, ev_UserID ev]"
    by (simp only: fields_Cons[OF allow] fields_Cons[OF S] fields_Cons[OF C] fields_last[OF U])
  show ?thesis
    using parse[of "ev_Source ev @ '' ''"] parse[of "ev_Source ev @ '' '' @ ev_ChatID ev @ '' ''"] f2 f3
    by (simp add: bounce_cmd_def slashGate_def)
qed

theorem bounce_command_roundtrip_witness:
  "slashGate (snd (parseCommand (bounce_cmd demo_event))) = GrantSource ''tg'' ''u1''"
proof -
  have "plain_id (ev_Source demo_event)" "plain_id (ev_ChatID demo_event)" "plain_id (ev_UserID demo_event)"
    by (simp_all add: plain_id_def demo_event_def is_space_def)
  from bounce_command_roundtrip[OF this] show ?thesis by (simp add: demo_event_def isGroupChat_def)
qed

end
