(* ===== verification/I18n.thy ===== *)
theory I18n
  imports Go_Runes
begin

section \<open>Translation catalogue\<close>

text \<open>
  \<^verbatim>\<open>src/i18n\<close>: the string table with its overlay and the per-chat pins, the lookup \<^verbatim>\<open>T\<close> with its
  fallback chain, and the script detector. \<^verbatim>\<open>fmt.Sprintf\<close> and the table of Han characters of the
  Unicode version the toolchain carries are arguments.
\<close>

type_synonym entry = "(string, string) gomap"

type_synonym entries = "(string, entry) gomap"

record catalog =
  ct_entries :: entries
  ct_overrides :: "(string, string) gomap"

subsection \<open>Loading\<close>

text \<open>What reading and decoding an optional file yields; an absent file is no error.\<close>

datatype 'a file_read = Absent | Unreadable | Malformed | Parsed 'a

datatype load_error = Read_strings | Parse_strings | Read_overrides | Parse_overrides | Parse_embedded

definition merge_entry :: "entry \<Rightarrow> entry \<Rightarrow> entry" where
  "merge_entry existing v = fold (\<lambda>(lang, text). gput lang text) v existing"

definition overlay_one :: "string \<times> entry \<Rightarrow> entries \<Rightarrow> entries" where
  "overlay_one kv entries =
     (let (k, v) = kv
      in if k = ''_README'' then entries
         else gput k (case gget entries k of Some existing \<Rightarrow> merge_entry existing v | None \<Rightarrow> v) entries)"

definition Load_i18n :: "entries option \<Rightarrow> bool \<Rightarrow> entries file_read \<Rightarrow> (string, string) gomap file_read
    \<Rightarrow> catalog option \<times> load_error list" where
  "Load_i18n embedded has_home strings overrides =
     (case embedded of
        None \<Rightarrow> (None, [Parse_embedded])
      | Some emb \<Rightarrow>
          let base = gdel ''_README'' emb;
              (es, e1) = (if has_home then
                            (case strings of
                               Absent \<Rightarrow> (base, [])
                             | Unreadable \<Rightarrow> (base, [Read_strings])
                             | Malformed \<Rightarrow> (base, [Parse_strings])
                             | Parsed ov \<Rightarrow> (fold overlay_one ov base, []))
                          else (base, []));
              (os, e2) = (if has_home then
                            (case overrides of
                               Absent \<Rightarrow> ([], [])
                             | Unreadable \<Rightarrow> ([], [Read_overrides])
                             | Malformed \<Rightarrow> ([], [Parse_overrides])
                             | Parsed ov \<Rightarrow> (fold (\<lambda>(k, v). gput k v) ov [], []))
                          else ([], []))
          in (Some \<lparr> ct_entries = es, ct_overrides = os \<rparr>, e1 @ e2))"

text \<open>\<^verbatim>\<open>Reload\<close> replaces the live catalogue by whatever was loaded.\<close>

definition Reload_i18n :: "catalog option \<Rightarrow> catalog option \<times> load_error list \<Rightarrow> catalog option \<times> load_error list" where
  "Reload_i18n live loaded = (case loaded of (Some c, e) \<Rightarrow> (Some c, e) | (None, e) \<Rightarrow> (live, e))"

subsection \<open>Looking up\<close>

definition lang_chain :: "string \<Rightarrow> string list" where
  "lang_chain lang =
     (if lang = [] \<or> lang = ''en'' \<or> lang = ''default'' then [''default'']
      else let base = takeWhile (\<lambda>c. c \<noteq> CHR ''-'') lang
           in [lang] @ (if CHR ''-'' \<in> set lang \<and> base \<noteq> [] then [base] else []) @ [''default''])"

fun chain_text :: "entry \<Rightarrow> string list \<Rightarrow> string option" where
  "chain_text e [] = None"
| "chain_text e (l # ls) =
     (case gget e l of
        None \<Rightarrow> chain_text e ls
      | Some text \<Rightarrow> if text = [] then chain_text e ls else Some text)"

definition argsContainMarker :: "string list \<Rightarrow> bool" where
  "argsContainMarker args = list_ex (\<lambda>a. str_contains a ''%!'') args"

definition catalog_T :: "(string \<Rightarrow> string list \<Rightarrow> string) \<Rightarrow> catalog \<Rightarrow> string \<Rightarrow> string \<Rightarrow> string list \<Rightarrow> string" where
  "catalog_T sprintf c key lang args =
     (case gget (ct_entries c) key of
        None \<Rightarrow> key
      | Some entry \<Rightarrow>
          (case chain_text entry (lang_chain lang) of
             None \<Rightarrow> key
           | Some text \<Rightarrow>
               if args = [] then text
               else let out = sprintf text args
                    in if str_contains out ''%!'' \<and> \<not> argsContainMarker args then text else out))"

definition i18n_T :: "(string \<Rightarrow> string list \<Rightarrow> string) \<Rightarrow> catalog option \<Rightarrow> string \<Rightarrow> string \<Rightarrow> string list \<Rightarrow> string" where
  "i18n_T sprintf live key lang args =
     (case live of None \<Rightarrow> key | Some c \<Rightarrow> catalog_T sprintf c key lang args)"

definition catalog_override :: "catalog \<Rightarrow> string \<Rightarrow> string \<Rightarrow> string" where
  "catalog_override c source chatID = ggetz [] (ct_overrides c) (source @ '':'' @ chatID)"

definition Override :: "catalog option \<Rightarrow> string \<Rightarrow> string \<Rightarrow> string" where
  "Override live source chatID = (case live of None \<Rightarrow> [] | Some c \<Rightarrow> catalog_override c source chatID)"

definition ascii_letter :: "string \<Rightarrow> bool" where
  "ascii_letter r = (case r of [c] \<Rightarrow> between 0x61 0x7A c \<or> between 0x41 0x5A c | _ \<Rightarrow> False)"

definition Detect :: "(string \<Rightarrow> bool) \<Rightarrow> string \<Rightarrow> string" where
  "Detect is_han text =
     (let rs = to_runes text;
          han = length (filter is_han rs);
          latin = length (filter (\<lambda>r. \<not> is_han r \<and> ascii_letter r) rs)
      in if han = 0 \<and> latin = 0 then []
         else if latin \<le> han then ''zh''
         else ''default'')"

subsection \<open>The overlay\<close>

text \<open>The text the table holds for a key in one language.\<close>

definition text_of :: "entries \<Rightarrow> string \<Rightarrow> string \<Rightarrow> string option" where
  "text_of es k lang = Option.bind (gget es k) (\<lambda>e. gget e lang)"

lemma gget_fresh: "k \<notin> set (gkeys m) \<Longrightarrow> gget m k = None"
  by (simp add: map_of_eq_None_iff)

lemma merge_entry_get:
  "gmap_ok v \<Longrightarrow> gget (merge_entry e v) lang = (case gget v lang of Some t \<Rightarrow> Some t | None \<Rightarrow> gget e lang)"
proof (induction v arbitrary: e)
  case (Cons a v)
  obtain l t where a: "a = (l, t)" by (cases a)
  have ok: "gmap_ok v" and fresh: "gget v l = None"
    using Cons.prems by (simp_all add: a gget_fresh)
  have "merge_entry e (a # v) = merge_entry (gput l t e) v"
    by (simp add: merge_entry_def a)
  then show ?case
    using Cons.IH[OF ok, of "gput l t e"] fresh by (cases "l = lang"; cases "gget v lang") (simp_all add: a)
qed (simp add: merge_entry_def)

lemma overlay_one_text:
  assumes "gmap_ok v"
  shows "text_of (overlay_one (j, v) es) k lang =
    (if j = k \<and> k \<noteq> ''_README'' then
       (case gget v lang of Some t \<Rightarrow> Some t | None \<Rightarrow> text_of es k lang)
     else text_of es k lang)"
proof (cases "gget es k")
  case None
  then show ?thesis
    by (cases "gget v lang"; cases "k = j") (simp_all add: overlay_one_def text_of_def)
next
  case (Some e)
  then show ?thesis
    by (cases "gget v lang"; cases "k = j") (simp_all add: overlay_one_def text_of_def merge_entry_get[OF assms])
qed

lemma overlay_text:
  assumes "gmap_ok ov" and "\<forall>e \<in> snd ` set ov. gmap_ok e" and "k \<noteq> ''_README''"
  shows "text_of (fold overlay_one ov es) k lang =
    (case text_of ov k lang of Some t \<Rightarrow> Some t | None \<Rightarrow> text_of es k lang)"
  using assms
proof (induction ov arbitrary: es)
  case (Cons a ov)
  obtain j v where a: "a = (j, v)" by (cases a)
  have ok: "gmap_ok ov" "\<forall>e \<in> snd ` set ov. gmap_ok e" "gmap_ok v" and fresh: "text_of ov j lang = None"
    using Cons.prems by (simp_all add: a text_of_def gget_fresh)
  have cons: "text_of (a # ov) k lang = (if j = k then gget v lang else text_of ov k lang)"
    by (simp add: text_of_def a)
  show ?case
    using Cons.IH[OF ok(1,2) Cons.prems(3), of "overlay_one a es"] fresh cons
    by (cases "j = k"; cases "text_of ov k lang") (simp_all add: a overlay_one_text[OF ok(3)] Cons.prems(3))
qed (simp add: text_of_def)

lemma chain_text_some:
  assumes "l \<in> set ls" and "gget e l = Some text" and "text \<noteq> []"
  shows "\<exists>t. chain_text e ls = Some t"
  using assms by (induction ls) (auto split: option.splits)

lemma chain_text_nonempty: "chain_text e ls = Some t \<Longrightarrow> t \<noteq> []"
  by (induction ls) (auto split: option.splits if_splits)

lemma chain_has_default: "''default'' \<in> set (lang_chain lang)"
  by (simp add: lang_chain_def Let_def)

text \<open>
  A readable overlay wins for exactly the texts it gives and leaves every other text of the embedded
  table; an overlay that cannot be read or parsed costs only itself, with an error reported and the
  pins of the other file still in force.
\<close>

theorem overlay_costs_only_itself:
  assumes "k \<noteq> ''_README''"
    and "\<And>ov. strings = Parsed ov \<Longrightarrow> gmap_ok ov \<and> (\<forall>e \<in> snd ` set ov. gmap_ok e)"
    and "Load_i18n (Some emb) True strings overrides = (r, errs)"
  shows "\<exists>c. r = Some c
     \<and> text_of (ct_entries c) k lang =
         (case strings of
            Parsed ov \<Rightarrow> (case text_of ov k lang of Some t \<Rightarrow> Some t | None \<Rightarrow> text_of emb k lang)
          | _ \<Rightarrow> text_of emb k lang)
     \<and> (Read_strings \<in> set errs \<longleftrightarrow> strings = Unreadable)
     \<and> (Parse_strings \<in> set errs \<longleftrightarrow> strings = Malformed)
     \<and> (\<forall>ov. overrides = Parsed ov \<longrightarrow> ct_overrides c = fold (\<lambda>(k, v). gput k v) ov [])"
proof -
  have del: "text_of (gdel ''_README'' emb) k lang = text_of emb k lang"
    using assms(1) by (simp add: text_of_def gomap_simps)
  have ov: "text_of (fold overlay_one ov (gdel ''_README'' emb)) k lang =
      (case text_of ov k lang of Some t \<Rightarrow> Some t | None \<Rightarrow> text_of emb k lang)" if "strings = Parsed ov" for ov
    using overlay_text[of ov k "gdel ''_README'' emb" lang] assms(1) assms(2)[OF that] del
    by (cases "text_of ov k lang") simp_all
  show ?thesis
    using assms(3) del ov
    by (cases strings; cases overrides) (auto simp: Load_i18n_def)
qed

theorem overlay_costs_only_itself_witness:
  "\<exists>c. fst (Load_i18n (Some [(''k'', [(''default'', ''hi''), (''zh'', ''nihao'')])]) True
               (Parsed [(''k'', [(''default'', ''hello'')])]) Malformed) = Some c
     \<and> text_of (ct_entries c) ''k'' ''zh'' = Some ''nihao''"
proof -
  let ?l = "Load_i18n (Some [(''k'', [(''default'', ''hi''), (''zh'', ''nihao'')])]) True
               (Parsed [(''k'', [(''default'', ''hello'')])]) Malformed"
  show ?thesis
    using overlay_costs_only_itself[of "''k''" "Parsed [(''k'', [(''default'', ''hello'')])]"
        "[(''k'', [(''default'', ''hi''), (''zh'', ''nihao'')])]" Malformed "fst ?l" "snd ?l" "''zh''"]
    by (auto simp: text_of_def)
qed

text \<open>
  No message is ever blank: a lookup without arguments yields the first text of the fallback chain that
  is not blank, and the key itself when there is none.
\<close>

theorem message_never_blank:
  assumes "key \<noteq> []"
  shows "i18n_T sprintf live key lang [] \<noteq> []"
  using assms
  by (auto simp: i18n_T_def catalog_T_def dest: chain_text_nonempty split: option.splits)

theorem message_never_blank_witness: "i18n_T (\<lambda>t as. t) None ''a.b'' ''zh'' [] \<noteq> []"
  using message_never_blank[of "''a.b''" "\<lambda>t as. t" None "''zh''"] by simp

text \<open>A variant falls back to its base language.\<close>

lemma variant_falls_back: "lang_chain ''zh-funky'' = [''zh-funky'', ''zh'', ''default'']"
  by (simp add: lang_chain_def)

text \<open>The detector answers one of three values, and nothing exactly when no rune carries a script.\<close>

lemma Detect_range: "Detect h t \<in> {[], ''zh'', ''default''}"
  by (simp add: Detect_def Let_def)

lemma Detect_empty: "Detect h t = [] \<longleftrightarrow> (\<forall>r \<in> set (to_runes t). \<not> h r \<and> \<not> ascii_letter r)"
  by (auto simp: Detect_def Let_def filter_empty_conv)

end
