(* ===== verification/Session_Routing.thy ===== *)
theory Session_Routing
  imports Contract_Message
begin

section \<open>Routing an event to a session\<close>

text \<open>
  \<^verbatim>\<open>src/leaf/session/20-resolver.go\<close> and \<^verbatim>\<open>50-sid.go\<close>, the scope of a command
  (\<^verbatim>\<open>80-slash.go\<close>), the fresh-session cache of \<^verbatim>\<open>40-submit.go\<close> and the reply targets of
  \<^verbatim>\<open>30-arbiter.go\<close>: which session an inbound event joins, when a fresh one is opened, and where
  the reply of a turn goes.

  A database read is an answer the function is given: a failure, a miss or a row. \<^verbatim>\<open>ResolveSession\<close>
  reads the row of a session twice, before and after the revival of an archived session, so it takes
  two views of the store. The group router of the organisation is an optional function.
\<close>

datatype index_answer = IdxErr | IdxMiss | IdxHit string

text \<open>The columns of a session row that this code reads.\<close>

record session_info =
  si_Key :: string
  si_Source :: string
  si_UserID :: string
  si_CallerID :: string
  si_AdminOwned :: bool
  si_PreferModelTags :: "string list"
  si_TurnMode :: string

datatype row_answer = RowErr | NoRow | Row session_info

record store_view =
  sv_SessionForMessage :: "string \<Rightarrow> string \<Rightarrow> index_answer"
  sv_SessionByID :: "string \<Rightarrow> row_answer"
  sv_ArchivedSessionScope :: "string \<Rightarrow> string option"
  sv_CurrentSession :: "string \<Rightarrow> unit + string option"

text \<open>\<^verbatim>\<open>RouteGroupScope\<close> of the organisation: the sub-scope it names and whether it routes.\<close>

type_synonym group_router = "message_event \<Rightarrow> string \<times> bool"

record resolution =
  rs_Key :: string
  rs_SessionID :: string
  rs_Drop :: bool
  rs_OpenNew :: bool

subsection \<open>The base resolution\<close>

abbreviation keyed :: "string \<Rightarrow> resolution" where
  "keyed key \<equiv> \<lparr> rs_Key = key, rs_SessionID = [], rs_Drop = False, rs_OpenNew = False \<rparr>"

text \<open>The loop over the replied-to message and its ancestors: the first one that is not a miss.\<close>

fun first_ancestor :: "(string \<Rightarrow> index_answer) \<Rightarrow> string list \<Rightarrow> index_answer" where
  "first_ancestor look [] = IdxMiss"
| "first_ancestor look (m # ms) =
     (if m = [] then first_ancestor look ms
      else case look m of IdxMiss \<Rightarrow> first_ancestor look ms | a \<Rightarrow> a)"

definition ancestors :: "message_event \<Rightarrow> string list" where
  "ancestors ev = ev_ReplyToID ev # ev_ReplyRefs ev"

definition resolve_reply :: "store_view \<Rightarrow> string \<Rightarrow> message_event \<Rightarrow> resolution" where
  "resolve_reply st key ev =
     (case first_ancestor (sv_SessionForMessage st key) (ancestors ev) of
        IdxErr \<Rightarrow> keyed key
      | IdxHit sid \<Rightarrow> (keyed key)\<lparr>rs_SessionID := sid\<rparr>
      | IdxMiss \<Rightarrow> (keyed key)\<lparr>rs_OpenNew := True\<rparr>)"

definition resolveBase :: "store_view \<Rightarrow> message_event \<Rightarrow> resolution" where
  "resolveBase st ev =
     (let key = RoutingScope ev
      in if IsInternal ev \<and> ev_ChatID ev \<noteq> [] then
           (keyed key)\<lparr>rs_OpenNew := (case ev_Dispatch ev of Some d \<Rightarrow> dm_ForceNewSession d | None \<Rightarrow> False)\<rparr>
         else if ev_ChatType ev = ChatDM then
           (if ev_DMReplyRouting ev then resolve_reply st key ev else keyed key)
         else resolve_reply st key ev)"

subsection \<open>Members of a group and archived sessions\<close>

definition archivedMemberSubScope :: "store_view \<Rightarrow> string \<Rightarrow> string \<Rightarrow> string option" where
  "archivedMemberSubScope st sid base =
     (case sv_ArchivedSessionScope st sid of
        None \<Rightarrow> None
      | Some scope \<Rightarrow>
          if scope = [] then None
          else (case SplitMemberSubScope scope of
                  Some (b, _) \<Rightarrow> if b \<noteq> base then None else Some scope
                | None \<Rightarrow> None))"

definition freshGroupSubScope :: "group_router option \<Rightarrow> message_event \<Rightarrow> string option" where
  "freshGroupSubScope gr ev =
     (case gr of
        None \<Rightarrow> None
      | Some route \<Rightarrow> (case route ev of (sub, found) \<Rightarrow> if \<not> found \<or> sub = [] then None else Some sub))"

definition replyHitOwnKey :: "store_view \<Rightarrow> string \<Rightarrow> string option" where
  "replyHitOwnKey st sid =
     (case sv_SessionByID st sid of
        Row s \<Rightarrow> if si_Key s = [] then None else Some (si_Key s)
      | _ \<Rightarrow> None)"

text \<open>\<^verbatim>\<open>ensureLive\<close>; \<open>restore\<close> is the revival hook and what it reports for the session.\<close>

definition ensureLive :: "store_view \<Rightarrow> (string \<Rightarrow> bool) option \<Rightarrow> resolution \<Rightarrow> resolution" where
  "ensureLive st restore r =
     (case sv_SessionByID st (rs_SessionID r) of
        Row _ \<Rightarrow> r
      | RowErr \<Rightarrow> r
      | NoRow \<Rightarrow>
          (case restore of
             Some f \<Rightarrow> if f (rs_SessionID r) then r else (keyed (rs_Key r))\<lparr>rs_OpenNew := True\<rparr>
           | None \<Rightarrow> (keyed (rs_Key r))\<lparr>rs_OpenNew := True\<rparr>))"

definition with_key :: "resolution \<Rightarrow> string option \<Rightarrow> resolution" where
  "with_key r key = (case key of Some k \<Rightarrow> r\<lparr>rs_Key := k\<rparr> | None \<Rightarrow> r)"

definition ResolveSession ::
    "store_view \<Rightarrow> store_view \<Rightarrow> (string \<Rightarrow> bool) option \<Rightarrow> group_router option \<Rightarrow> message_event \<Rightarrow> resolution" where
  "ResolveSession st st' restore gr ev =
     (let r0 = resolveBase st ev;
          grp = IsGroupChat (ev_ChatType ev);
          r1 = (if \<not> rs_Drop r0 \<and> rs_SessionID r0 = [] \<and> grp then with_key r0 (freshGroupSubScope gr ev) else r0)
      in if rs_SessionID r1 = [] \<or> rs_Drop r1 then r1
         else
           let r2 = ensureLive st restore r1
           in if rs_SessionID r2 \<noteq> [] \<and> grp \<and> gr \<noteq> None then with_key r2 (replyHitOwnKey st' (rs_SessionID r2))
              else if rs_OpenNew r2 \<and> grp \<and> gr \<noteq> None then
                (case archivedMemberSubScope st' (rs_SessionID r1) (rs_Key r2) of
                   Some key \<Rightarrow> r2\<lparr>rs_Key := key\<rparr>
                 | None \<Rightarrow> with_key r2 (freshGroupSubScope gr ev))
              else r2)"

text \<open>The scope of a command, which must not revive anything.\<close>

definition peekScope :: "store_view \<Rightarrow> group_router option \<Rightarrow> resolution \<Rightarrow> message_event \<Rightarrow> string" where
  "peekScope st gr res ev =
     (if \<not> IsGroupChat (ev_ChatType ev) then rs_Key res
      else if rs_SessionID res \<noteq> [] then
        (case replyHitOwnKey st (rs_SessionID res) of Some key \<Rightarrow> key | None \<Rightarrow> rs_Key res)
      else (case freshGroupSubScope gr ev of Some sub \<Rightarrow> sub | None \<Rightarrow> rs_Key res))"

definition readScope :: "store_view \<Rightarrow> group_router option \<Rightarrow> message_event \<Rightarrow> string" where
  "readScope st gr ev = peekScope st gr (resolveBase st ev) ev"

subsection \<open>The active session of a scope\<close>

text \<open>\<^verbatim>\<open>resolveActiveSidOnce\<close>; \<open>open_new\<close> is the result of opening a session, consulted on a miss
  only.\<close>

definition resolveActiveSidOnce :: "store_view \<Rightarrow> string \<Rightarrow> unit + string \<Rightarrow> unit + string" where
  "resolveActiveSidOnce st scope open_new =
     (case sv_CurrentSession st scope of
        Inl e \<Rightarrow> Inl e
      | Inr (Some cur) \<Rightarrow> Inr cur
      | Inr None \<Rightarrow> open_new)"

text \<open>The fresh sessions that later events of the same album, or of the same sender in onboarding,
  join: \<^verbatim>\<open>albumSids\<close> with its expiry.\<close>

record albumSidEntry =
  as_sid :: string
  as_at :: gtime

definition albumSidTTL :: duration where
  "albumSidTTL = 5 * minute"

definition albumSid :: "gtime \<Rightarrow> (string, albumSidEntry) gomap \<Rightarrow> string \<Rightarrow> string option" where
  "albumSid now m key =
     (case gget m key of
        None \<Rightarrow> None
      | Some e \<Rightarrow> if now - as_at e > albumSidTTL then None else Some (as_sid e))"

definition rememberAlbumSid :: "gtime \<Rightarrow> (string, albumSidEntry) gomap \<Rightarrow> string \<Rightarrow> string
    \<Rightarrow> (string, albumSidEntry) gomap" where
  "rememberAlbumSid now m key sid =
     gput key \<lparr> as_sid = sid, as_at = now \<rparr> (filter (\<lambda>(k, e). \<not> (now - as_at e > albumSidTTL)) m)"

definition reuse_key :: "string \<Rightarrow> message_event \<Rightarrow> string option" where
  "reuse_key scope ev =
     (if ev_MediaGroupID ev \<noteq> [] then Some (''album'' @ [CHR 0x00] @ scope @ [CHR 0x00] @ ev_MediaGroupID ev)
      else if ev_Onboarding ev then
        Some (''onboard'' @ [CHR 0x00] @ scope @ [CHR 0x00] @ ev_Source ev @ [CHR 0x00] @ ev_UserID ev)
      else None)"

text \<open>\<^verbatim>\<open>openNewSid\<close>: the singleflight group runs one call per key at a time. The result says
  whether a session was opened; \<open>open_new\<close> is the store's answer when one is.\<close>

definition openNewSid :: "gtime \<Rightarrow> (string, albumSidEntry) gomap \<Rightarrow> string \<Rightarrow> message_event \<Rightarrow> unit + string
    \<Rightarrow> (unit + string) \<times> bool \<times> (string, albumSidEntry) gomap" where
  "openNewSid now m scope ev open_new =
     (case reuse_key scope ev of
        None \<Rightarrow> (open_new, True, m)
      | Some key \<Rightarrow>
          (case albumSid now m key of
             Some sid \<Rightarrow> (Inr sid, False, m)
           | None \<Rightarrow>
               (case open_new of
                  Inl e \<Rightarrow> (Inl e, True, m)
                | Inr sid \<Rightarrow> (Inr sid, True, rememberAlbumSid now m key sid))))"

subsection \<open>Where the reply goes\<close>

definition replyTarget :: "bool \<Rightarrow> message_event \<Rightarrow> target" where
  "replyTarget caps_ReplyTo ev =
     (let t = ReplyTarget ev
      in if caps_ReplyTo \<and> ev_MessageID ev \<noteq> [] then t\<lparr>tg_ReplyToID := ev_MessageID ev\<rparr> else t)"

definition targetFor :: "store_view \<Rightarrow> string \<Rightarrow> message_event \<Rightarrow> bool \<Rightarrow> target" where
  "targetFor st sid ev caps_ReplyTo =
     (if \<not> IsInternal ev then replyTarget caps_ReplyTo ev
      else case sv_SessionByID st sid of
             Row info \<Rightarrow>
               if si_CallerID info \<noteq> [] then
                 (case sv_SessionByID st (si_CallerID info) of
                    Row caller \<Rightarrow>
                      if si_Key caller = [] then no_target
                      else no_target\<lparr>tg_Source := SourceNameInternal, tg_ChatID := si_Key caller\<rparr>
                  | _ \<Rightarrow> no_target)
               else (case targetFromScope (si_Source info) (si_Key info) of
                       Some t \<Rightarrow> t
                     | None \<Rightarrow> no_target)
           | _ \<Rightarrow> no_target)"

text \<open>\<^verbatim>\<open>batchSource\<close>: the source a batch speaks through, by name; \<open>known\<close> says which names
  resolve.\<close>

fun batchSource :: "(string \<Rightarrow> bool) \<Rightarrow> message_event list \<Rightarrow> string \<Rightarrow> string" where
  "batchSource known [] fallback = fallback"
| "batchSource known (ev # evs) fallback =
     (if IsInternal ev then batchSource known evs fallback
      else if known (ev_Source ev) then ev_Source ev
      else batchSource known evs fallback)"

subsection \<open>When a fresh session is opened\<close>

text \<open>The event takes part in reply routing: every group message, and a direct message of a source
  that asks for it.\<close>

definition reply_routed :: "message_event \<Rightarrow> bool" where
  "reply_routed ev \<longleftrightarrow>
     \<not> (IsInternal ev \<and> ev_ChatID ev \<noteq> []) \<and> (ev_ChatType ev = ChatDM \<longrightarrow> ev_DMReplyRouting ev)"

text \<open>The session is known to be gone: the store has no row and nothing revived it.\<close>

definition gone :: "store_view \<Rightarrow> (string \<Rightarrow> bool) option \<Rightarrow> string \<Rightarrow> bool" where
  "gone st restore sid \<longleftrightarrow>
     sv_SessionByID st sid = NoRow \<and> (case restore of Some f \<Rightarrow> \<not> f sid | None \<Rightarrow> True)"

abbreviation replied_to :: "store_view \<Rightarrow> message_event \<Rightarrow> index_answer" where
  "replied_to st ev \<equiv> first_ancestor (sv_SessionForMessage st (RoutingScope ev)) (ancestors ev)"

lemma with_key_simps [simp]:
  "rs_SessionID (with_key r k) = rs_SessionID r" "rs_Drop (with_key r k) = rs_Drop r"
  "rs_OpenNew (with_key r k) = rs_OpenNew r"
  by (simp_all add: with_key_def split: option.split)

lemma base_reply_routed: "reply_routed ev \<Longrightarrow> resolveBase st ev = resolve_reply st (RoutingScope ev) ev"
  by (auto simp: resolveBase_def reply_routed_def Let_def)

lemma ensureLive_cases:
  "ensureLive st restore r =
     (if gone st restore (rs_SessionID r) then (keyed (rs_Key r))\<lparr>rs_OpenNew := True\<rparr> else r)"
  by (auto simp: ensureLive_def gone_def split: row_answer.split option.split)

lemma resolve_joined:
  assumes "resolveBase st ev = r" and "rs_SessionID r \<noteq> []" and "\<not> rs_Drop r"
  shows "rs_SessionID (ResolveSession st st' restore gr ev) =
           (if gone st restore (rs_SessionID r) then [] else rs_SessionID r)"
    and "rs_OpenNew (ResolveSession st st' restore gr ev) =
           (if gone st restore (rs_SessionID r) then True else rs_OpenNew r)"
    and "\<not> rs_Drop (ResolveSession st st' restore gr ev)"
  using assms by (auto simp: ResolveSession_def Let_def ensureLive_cases split: option.split)

lemma resolve_unjoined:
  assumes "resolveBase st ev = r" and "rs_SessionID r = []"
  shows "rs_SessionID (ResolveSession st st' restore gr ev) = []"
    and "rs_OpenNew (ResolveSession st st' restore gr ev) = rs_OpenNew r"
    and "rs_Drop (ResolveSession st st' restore gr ev) = rs_Drop r"
  using assms by (auto simp: ResolveSession_def Let_def)

text \<open>What the index answers about the messages an event answers, nearest first, without the misses: the
  sessions and the failed reads.\<close>

definition index_answers :: "store_view \<Rightarrow> message_event \<Rightarrow> index_answer list" where
  "index_answers st ev = filter (\<lambda>a. a \<noteq> IdxMiss)
     (map (sv_SessionForMessage st (RoutingScope ev)) (filter (\<lambda>m. m \<noteq> []) (ev_ReplyToID ev # ev_ReplyRefs ev)))"

lemma first_ancestor_answers:
  "first_ancestor look ms = (case filter (\<lambda>a. a \<noteq> IdxMiss) (map look (filter (\<lambda>m. m \<noteq> []) ms)) of
      [] \<Rightarrow> IdxMiss | a # _ \<Rightarrow> a)"
proof (induction ms)
  case (Cons m ms)
  then show ?case by (cases "look m") simp_all
qed simp

lemma replied_to_answers: "replied_to st ev = (case index_answers st ev of [] \<Rightarrow> IdxMiss | a # _ \<Rightarrow> a)"
  by (simp only: first_ancestor_answers index_answers_def ancestors_def)

lemma index_answers_hit: "IdxMiss \<notin> set (index_answers st ev)"
  by (auto simp: index_answers_def)

text \<open>C35. Reply routing opens a fresh session exactly when it should: when the index knows none of the
  messages the event answers and every look-up of it succeeded, or when the first answer that is no miss, in
  the order of the references, names a session that is known to be gone and could not be revived. When that
  answer names a session otherwise, the event joins it. A failed read never forks the conversation: when the
  first answer that is no miss is a failed read of the index, the event continues the active session of its
  scope, whatever the later references would have answered; when the row of the named session cannot be read,
  the event joins that session all the same. No event is dropped.\<close>

theorem fresh_session_iff:
  assumes "reply_routed ev" and "IdxHit [] \<notin> set (index_answers st ev)"
    and r_def: "r = ResolveSession st st' restore gr ev"
  shows "(rs_OpenNew r \<longleftrightarrow> (case index_answers st ev of
              [] \<Rightarrow> True | IdxHit sid # _ \<Rightarrow> gone st restore sid | _ \<Rightarrow> False))
    \<and> rs_SessionID r = (case index_answers st ev of
              IdxHit sid # _ \<Rightarrow> if gone st restore sid then [] else sid | _ \<Rightarrow> [])
    \<and> \<not> rs_Drop r"
proof -
  note base = base_reply_routed[OF assms(1), of st]
  note joined = resolve_joined[OF base, of st' restore gr, folded r_def]
  note unjoined = resolve_unjoined[OF base, of st' restore gr, folded r_def]
  show ?thesis
  proof (cases "index_answers st ev")
    case Nil
    then show ?thesis using unjoined by (simp add: resolve_reply_def replied_to_answers)
  next
    case (Cons a as)
    then show ?thesis
      using joined unjoined assms(2) index_answers_hit[of st ev]
      by (cases a) (auto simp: resolve_reply_def replied_to_answers)
  qed
qed

definition demo_view :: store_view where
  "demo_view = \<lparr> sv_SessionForMessage = (\<lambda>k m. if m = ''7'' then IdxHit ''s1'' else IdxMiss),
     sv_SessionByID = (\<lambda>sid. if sid = ''s1'' then Row \<lparr> si_Key = ''tg:group:1#ann'', si_Source = ''tg'', si_UserID = [],
        si_CallerID = [], si_AdminOwned = False, si_PreferModelTags = [], si_TurnMode = [] \<rparr> else NoRow),
     sv_ArchivedSessionScope = (\<lambda>_. None), sv_CurrentSession = (\<lambda>_. Inr None) \<rparr>"

definition demo_group_reply :: message_event where
  "demo_group_reply = zero_event\<lparr>ev_Source := ''tg'', ev_ChatType := ChatGroup, ev_ChatID := ''1'', ev_ReplyRefs := [''6'', ''7'']\<rparr>"

lemmas demo_routing = demo_view_def demo_group_reply_def zero_event_def ancestors_def

text \<open>The same references with an index that fails on the first of them.\<close>

definition demo_blip :: store_view where
  "demo_blip = demo_view\<lparr>sv_SessionForMessage := (\<lambda>k m. if m = ''7'' then IdxHit ''s1'' else IdxErr)\<rparr>"

theorem fresh_session_iff_witness:
  "rs_SessionID (ResolveSession demo_view demo_view None None demo_group_reply) = ''s1''
   \<and> rs_SessionID (ResolveSession demo_blip demo_blip None None demo_group_reply) = []
   \<and> \<not> rs_OpenNew (ResolveSession demo_blip demo_blip None None demo_group_reply)"
proof -
  have routed: "reply_routed demo_group_reply" by (simp add: reply_routed_def demo_routing IsInternal_def IsInternalSource_def)
  have a: "index_answers demo_view demo_group_reply = [IdxHit ''s1'']"
    "index_answers demo_blip demo_group_reply = [IdxErr, IdxHit ''s1'']"
    by (simp_all add: index_answers_def demo_routing demo_blip_def)
  have live: "\<not> gone demo_view None ''s1''" by (simp add: demo_routing gone_def)
  show ?thesis
    using fresh_session_iff[OF routed _ refl, of demo_view demo_view None None]
      fresh_session_iff[OF routed _ refl, of demo_blip demo_blip None None] live
    by (simp add: a)
qed

subsection \<open>The scope of the resolution\<close>

text \<open>The scope an event is routed to belongs to it: it is the event's own chat scope, the member
  sub-scope the group router names, the recorded scope of the session the event joins, or, when that
  session is gone, a member sub-scope of this very chat taken from the archive, never that of another
  group.\<close>

theorem resolved_scope_belongs:
  "rs_Key (ResolveSession st st' restore gr ev) = RoutingScope ev
   \<or> freshGroupSubScope gr ev = Some (rs_Key (ResolveSession st st' restore gr ev))
   \<or> replyHitOwnKey st' (rs_SessionID (ResolveSession st st' restore gr ev))
        = Some (rs_Key (ResolveSession st st' restore gr ev))
   \<or> (\<exists>m. SplitMemberSubScope (rs_Key (ResolveSession st st' restore gr ev)) = Some (RoutingScope ev, m))"
proof -
  have key: "rs_Key (resolveBase st ev) = RoutingScope ev"
    by (simp add: resolveBase_def resolve_reply_def Let_def split: index_answer.split)
  have arch: "archivedMemberSubScope v sid base = Some k \<Longrightarrow> \<exists>m. SplitMemberSubScope k = Some (base, m)"
    for v sid base k
    by (auto simp: archivedMemberSubScope_def split: option.splits if_splits prod.splits)
  show ?thesis
    using key arch[of st' "rs_SessionID (resolveBase st ev)" "RoutingScope ev"]
    by (auto simp: ResolveSession_def Let_def ensureLive_cases with_key_def split: option.splits)
qed

text \<open>A command acts on the scope the turn of the same message would run under: with a group
  router installed, and whenever the session the message answers still has its row, the read-only
  scope of a command and the scope of the full resolution are the same.\<close>

theorem command_scope_is_turn_scope:
  assumes "gr \<noteq> None"
    and "rs_SessionID (resolveBase st ev) \<noteq> [] \<Longrightarrow> \<exists>s. sv_SessionByID st (rs_SessionID (resolveBase st ev)) = Row s"
  shows "readScope st gr ev = rs_Key (ResolveSession st st restore gr ev)"
proof -
  have drop: "\<not> rs_Drop (resolveBase st ev)"
    by (simp add: resolveBase_def resolve_reply_def Let_def split: index_answer.split)
  have live: "rs_SessionID (resolveBase st ev) \<noteq> [] \<Longrightarrow> \<not> gone st restore (rs_SessionID (resolveBase st ev))"
    using assms(2) by (auto simp: gone_def)
  have openNew: "rs_SessionID (resolveBase st ev) \<noteq> [] \<Longrightarrow> \<not> rs_OpenNew (resolveBase st ev)"
    by (auto simp: resolveBase_def resolve_reply_def Let_def split: index_answer.splits if_splits)
  show ?thesis
    using assms(1) drop live openNew
    by (auto simp: readScope_def peekScope_def ResolveSession_def Let_def ensureLive_cases with_key_def
        split: option.split)
qed

theorem command_scope_is_turn_scope_witness:
  "readScope demo_view (Some (\<lambda>_. ([], False))) demo_group_reply
     = rs_Key (ResolveSession demo_view demo_view None (Some (\<lambda>_. ([], False))) demo_group_reply)"
  by (rule command_scope_is_turn_scope)
    (simp_all add: resolveBase_def resolve_reply_def demo_routing IsInternal_def IsInternalSource_def)

text \<open>Without a group router the two differ: the command still follows the recorded scope of the
  session, while the turn runs under the bare group scope.\<close>

lemma command_scope_without_router:
  "readScope demo_view None demo_group_reply = ''tg:group:1#ann''
   \<and> rs_Key (ResolveSession demo_view demo_view None None demo_group_reply) = ''tg:group:1''"
  by (simp add: readScope_def peekScope_def ResolveSession_def ensureLive_def resolveBase_def resolve_reply_def
      replyHitOwnKey_def IsGroupChat_def RoutingScope_def ScopeFor_def IsInternal_def IsInternalSource_def
      demo_routing Let_def)

subsection \<open>One fresh session per album\<close>

text \<open>A sequence of openings, each at its own instant with the store's answer should one be opened.\<close>

fun open_all :: "(string, albumSidEntry) gomap \<Rightarrow> (gtime \<times> string \<times> message_event \<times> (unit + string)) list
    \<Rightarrow> (string, albumSidEntry) gomap" where
  "open_all m [] = m"
| "open_all m ((now, scope, ev, answer) # calls) = open_all (snd (snd (openNewSid now m scope ev answer))) calls"

lemma openNewSid_keeps:
  assumes "gmap_ok m" and "gget m key = Some e" and "now \<le> as_at e + albumSidTTL"
  shows "gget (snd (snd (openNewSid now m scope ev answer))) key = Some e
    \<and> gmap_ok (snd (snd (openNewSid now m scope ev answer)))"
proof -
  have keep: "gget (rememberAlbumSid now m k sid) key = Some e" if "albumSid now m k = None" for k sid
  proof -
    have "k \<noteq> key" using that assms(2,3) by (auto simp: albumSid_def)
    moreover have "gget (filter (\<lambda>(k, e). \<not> (now - as_at e > albumSidTTL)) m) key = Some e"
      unfolding gget_filter_kv[OF assms(1)] using assms(2,3) by simp
    ultimately show ?thesis unfolding rememberAlbumSid_def gget_gput by simp
  qed
  have "gmap_ok (rememberAlbumSid now m k sid)" for k sid
    using assms(1) by (auto simp: rememberAlbumSid_def)
  then show ?thesis using assms(1,2) keep unfolding openNewSid_def
    by (simp del: map_of_eq_Some_iff split: option.split sum.split)
qed

lemma open_all_keeps:
  assumes "gmap_ok m" and "gget m key = Some e" and "\<And>c. c \<in> set calls \<Longrightarrow> fst c \<le> as_at e + albumSidTTL"
  shows "gget (open_all m calls) key = Some e \<and> gmap_ok (open_all m calls)"
  using assms
proof (induction m calls rule: open_all.induct)
  case (2 m now scope ev answer calls)
  have "gget (snd (snd (openNewSid now m scope ev answer))) key = Some e
    \<and> gmap_ok (snd (snd (openNewSid now m scope ev answer)))"
    using 2(2,3) 2(4)[of "(now, scope, ev, answer)"] by (intro openNewSid_keeps) auto
  then show ?case using 2(1) 2(4) by simp
qed simp

text \<open>The events of one album, and the messages of one sender in onboarding, converge on one
  session: once the first of them has opened it, every later one within five minutes gets the same
  session and opens none, whatever other albums and senders do in between.\<close>

theorem album_converges:
  assumes "gmap_ok m" and "reuse_key scope ev = Some key" and "reuse_key scope ev' = Some key"
    and "openNewSid t0 m scope ev answer = (Inr sid, True, m1)"
    and "\<And>c. c \<in> set calls \<Longrightarrow> fst c \<le> t0 + albumSidTTL" and "now \<le> t0 + albumSidTTL"
  shows "openNewSid now (open_all m1 calls) scope ev' answer' = (Inr sid, False, open_all m1 calls)"
proof -
  have m1: "m1 = rememberAlbumSid t0 m key sid"
    using assms(2,4) by (auto simp: openNewSid_def split: option.splits sum.splits)
  then have "gget m1 key = Some \<lparr> as_sid = sid, as_at = t0 \<rparr>" and "gmap_ok m1"
    using assms(1) by (auto simp: rememberAlbumSid_def)
  then have "gget (open_all m1 calls) key = Some \<lparr> as_sid = sid, as_at = t0 \<rparr>"
    using open_all_keeps[of m1 key "\<lparr> as_sid = sid, as_at = t0 \<rparr>" calls] assms(5) by simp
  then show ?thesis using assms(3,6) by (simp add: openNewSid_def albumSid_def)
qed

theorem album_converges_witness:
  "let ev = zero_event\<lparr>ev_MediaGroupID := ''g''\<rparr>; m1 = snd (snd (openNewSid 5 [] ''s'' ev (Inr ''x'')))
   in openNewSid 9 (open_all m1 []) ''s'' ev (Inr ''y'') = (Inr ''x'', False, m1)"
proof -
  let ?ev = "zero_event\<lparr>ev_MediaGroupID := ''g''\<rparr>"
  obtain key where key: "reuse_key ''s'' ?ev = Some key" by (simp add: reuse_key_def)
  have first: "openNewSid 5 [] ''s'' ?ev (Inr ''x'') = (Inr ''x'', True, rememberAlbumSid 5 [] key ''x'')"
    using key by (simp add: openNewSid_def albumSid_def)
  have "openNewSid 9 (open_all (rememberAlbumSid 5 [] key ''x'') []) ''s'' ?ev (Inr ''y'')
      = (Inr ''x'', False, open_all (rememberAlbumSid 5 [] key ''x'') [])"
    by (rule album_converges[OF _ key key first]) (simp_all add: albumSidTTL_def duration_defs)
  then show ?thesis by (simp add: first)
qed

subsection \<open>Replies of internal wakes\<close>

lemma targetFromScope_source: "targetFromScope src scope = Some t \<Longrightarrow> tg_Source t = src"
  by (auto simp: targetFromScope_def Let_def split: if_splits prod.splits)

text \<open>A session woken from inside never answers itself: its reply is dropped, goes to the chat of
  its own source, or goes over the internal bridge to the scope of the session that called it. A
  session whose scope is not of the internal source is addressed over the bridge only as a caller.\<close>

theorem internal_wake_never_self_addressed:
  assumes "IsInternal ev" and "sv_SessionByID st sid = Row info"
    and "targetFromScope SourceNameInternal (si_Key info) = None"
    and "targetFor st sid ev caps = t" and "t \<noteq> no_target"
  shows "if si_CallerID info = [] then tg_Source t = si_Source info \<and> si_Source info \<noteq> SourceNameInternal
         else tg_Source t = SourceNameInternal
           \<and> (\<exists>caller. sv_SessionByID st (si_CallerID info) = Row caller \<and> si_Key caller = tg_ChatID t)"
  using assms
  by (auto simp: targetFor_def no_target_def dest: targetFromScope_source split: row_answer.splits option.splits if_splits)

theorem internal_wake_never_self_addressed_witness:
  "tg_Source (targetFor demo_view ''s1'' (zero_event\<lparr>ev_Source := SourceNameInternal\<rparr>) False) = ''tg''"
proof -
  let ?ev = "zero_event\<lparr>ev_Source := SourceNameInternal\<rparr>"
  let ?t = "targetFor demo_view ''s1'' ?ev False"
  obtain info where info: "sv_SessionByID demo_view ''s1'' = Row info" "si_CallerID info = []" "si_Source info = ''tg''"
      "si_Key info = ''tg:group:1#ann''"
    by (simp add: demo_view_def)
  have i: "IsInternal ?ev" by (simp add: IsInternal_def IsInternalSource_def)
  have n: "targetFromScope SourceNameInternal (si_Key info) = None" by (simp add: info targetFromScope_def)
  have "?t \<noteq> no_target"
    using i by (simp add: targetFor_def demo_view_def targetFromScope_def no_target_def Let_def)
  from internal_wake_never_self_addressed[OF i info(1) n refl this] show ?thesis by (simp add: info)
qed

end
