(* ===== verification/Prompt_Sanitize.thy ===== *)
theory Prompt_Sanitize
  imports Contract_Message
begin

section \<open>Hygiene of prompt text\<close>

text \<open>
  \<^verbatim>\<open>src/heartwood/prompt/20-sanitize.go\<close>: the functions that render an untrusted display name or
  a quoted message into the structured prompt. The theorems say that what comes out cannot open a new
  prompt line and cannot forge the brackets of the structure, whatever bytes came in.
\<close>

definition ellipsis :: string where
  "ellipsis = [CHR 0xE2, CHR 0x80, CHR 0xA6]"

definition line_separator :: "string \<Rightarrow> bool" where
  "line_separator r \<longleftrightarrow> r = [CHR 0xE2, CHR 0x80, CHR 0xA8] \<or> r = [CHR 0xE2, CHR 0x80, CHR 0xA9]"

definition breaks_line :: "string \<Rightarrow> bool" where
  "breaks_line r \<longleftrightarrow> IsControl r \<or> line_separator r"

definition StripControl :: "string \<Rightarrow> string" where
  "StripControl s = concat (filter (\<lambda>r. \<not> breaks_line r) (to_runes s))"

text \<open>The two \<^verbatim>\<open>strings.NewReplacer\<close> tables; every pattern is one ASCII byte.\<close>

definition speaker_replacement :: "char \<Rightarrow> string" where
  "speaker_replacement c =
     (if c = CHR ''['' \<or> c = CHR '']'' then []
      else if c = CHR 0x0A \<or> c = CHR 0x0D then '' ''
      else [c])"

definition quoted_replacement :: "char \<Rightarrow> string" where
  "quoted_replacement c = (if c = CHR 0x22 then [CHR 0x27] else speaker_replacement c)"

definition SanitizeSpeaker :: "string \<Rightarrow> string" where
  "SanitizeSpeaker s0 =
     (let s1 = concat (map speaker_replacement s0);
          s2 = TrimSpace (StripControl s1);
          r = to_runes s2
      in if 48 < length r then TrimSpace (concat (take 48 r)) else s2)"

definition SanitizeQuoted :: "string \<Rightarrow> nat \<Rightarrow> string" where
  "SanitizeQuoted s0 mx =
     (let s1 = concat (map quoted_replacement s0);
          s2 = TrimSpace (StripControl s1);
          r = to_runes s2
      in if mx < length r then TrimSpace (concat (take mx r)) @ ellipsis else s2)"

definition quotedKindMax :: nat where
  "quotedKindMax = 40"

definition QuotedMax :: nat where
  "QuotedMax = 120"

definition QuotedMediaNote :: "string \<Rightarrow> bool \<Rightarrow> string" where
  "QuotedMediaNote kind0 inAttachments =
     (if kind0 = [] then []
      else let r = to_runes kind0;
               kind = (if quotedKindMax < length r then TrimSpace (concat (take quotedKindMax r)) @ ellipsis else kind0);
               open_paren = [CHR 0xEF, CHR 0xBC, CHR 0x88];
               close_paren = [CHR 0xEF, CHR 0xBC, CHR 0x89]
           in if inAttachments then open_paren @ kind @ close_paren
              else open_paren @ kind @
                [CHR 0xEF, CHR 0xBC, CHR 0x8C, CHR 0xE4, CHR 0xB8, CHR 0x8D, CHR 0xE6, CHR 0x98, CHR 0xAF,
                 CHR 0xE6, CHR 0x9C, CHR 0xAC, CHR 0xE8, CHR 0xBD, CHR 0xAE, CHR 0xE9, CHR 0x99, CHR 0x84,
                 CHR 0xE4, CHR 0xBB, CHR 0xB6] @ close_paren)"

definition ReplyLine :: "message_event \<Rightarrow> string" where
  "ReplyLine ev =
     (let quote = SanitizeQuoted (ev_ReplyToText ev) QuotedMax
      in if quote = [] then []
         else let who = SanitizeQuoted (ev_ReplyToUser ev) 48
              in if who \<noteq> [] then ''[In reply to '' @ who @ '': '' @ [CHR 0x22] @ quote @ [CHR 0x22] @ '']''
                 else ''[In reply to: '' @ [CHR 0x22] @ quote @ [CHR 0x22] @ '']'')"

subsection \<open>Clean text\<close>

text \<open>What a sanitised string promises: valid UTF-8, no rune that breaks the line, none of the bytes
  of \<open>B\<close>.\<close>

definition clean_text :: "char set \<Rightarrow> string \<Rightarrow> bool" where
  "clean_text B s \<longleftrightarrow> valid_utf8 s \<and> (\<forall>r \<in> set (runes s). \<not> breaks_line r) \<and> set s \<inter> B = {}"

lemma clean_text_concat:
  assumes "\<And>r. r \<in> set rs \<Longrightarrow> rune_ok r \<and> \<not> breaks_line r \<and> set r \<inter> B = {}"
  shows "clean_text B (concat rs)"
  using assms runes_concat[of rs] valid_utf8_concat[of rs] by (auto simp: clean_text_def)

lemma clean_text_append: "clean_text B a \<Longrightarrow> clean_text B b \<Longrightarrow> clean_text B (a @ b)"
  by (auto simp: clean_text_def runes_append valid_utf8_append)

lemma clean_text_runes:
  assumes "clean_text B s" and "r \<in> set (runes s)"
  shows "rune_ok r \<and> \<not> breaks_line r \<and> set r \<inter> B = {}"
  using assms set_runes[of r s] by (auto simp: clean_text_def valid_utf8_def)

lemma clean_text_subset:
  assumes "clean_text B s" and "set rs \<subseteq> set (runes s)"
  shows "clean_text B (concat rs)"
  using assms clean_text_runes by (intro clean_text_concat) blast

lemma clean_text_trim: "clean_text B s \<Longrightarrow> clean_text B (TrimSpace s)"
  unfolding TrimSpace_def by (rule clean_text_subset[OF _ set_trim_runes])

lemma to_runes_valid: "valid_utf8 s \<Longrightarrow> to_runes s = runes s"
  by (simp add: to_runes_def valid_utf8_def map_idI)

lemma clean_text_take: "clean_text B s \<Longrightarrow> clean_text B (TrimSpace (concat (take n (to_runes s))))"
  by (intro clean_text_trim clean_text_subset[of B s])
    (auto simp: to_runes_valid clean_text_def dest: in_set_takeD)

lemma strip_control_clean:
  assumes "B \<inter> set s = {}" and "B \<inter> set rune_error = {}"
  shows "clean_text B (StripControl s)"
  unfolding StripControl_def
  using assms set_to_runes[of _ s] to_runes_ok[of _ s] by (intro clean_text_concat) fastforce

lemma clean_ellipsis: "B \<inter> set ellipsis = {} \<Longrightarrow> clean_text B ellipsis"
proof -
  assume a: "B \<inter> set ellipsis = {}"
  have "clean_text B (concat [ellipsis])"
    using a by (intro clean_text_concat)
      (auto simp: ellipsis_def rune_tail_def between_def breaks_line_def IsControl_def line_separator_def)
  then show ?thesis by simp
qed

abbreviation speaker_bytes :: "char set" where
  "speaker_bytes \<equiv> {CHR ''['', CHR '']'', CHR 0x0A, CHR 0x0D}"

abbreviation quoted_bytes :: "char set" where
  "quoted_bytes \<equiv> insert (CHR 0x22) speaker_bytes"

lemma speaker_replaced: "speaker_bytes \<inter> set (concat (map speaker_replacement s)) = {}"
  by (auto simp: speaker_replacement_def)

lemma quoted_replaced: "quoted_bytes \<inter> set (concat (map quoted_replacement s)) = {}"
  by (auto simp: quoted_replacement_def speaker_replacement_def)

lemma sanitize_quoted_clean: "clean_text quoted_bytes (SanitizeQuoted s mx)"
proof -
  have "clean_text quoted_bytes (TrimSpace (StripControl (concat (map quoted_replacement s))))"
    by (intro clean_text_trim strip_control_clean quoted_replaced) (simp add: rune_error_def)
  moreover have "clean_text quoted_bytes ellipsis" by (rule clean_ellipsis) (simp add: ellipsis_def)
  ultimately show ?thesis
    by (simp add: SanitizeQuoted_def Let_def clean_text_append clean_text_take)
qed

lemma length_trim_take: "length (runes (TrimSpace (concat (take n (to_runes s))))) \<le> n"
proof -
  have ok: "\<And>r. r \<in> set (take n (to_runes s)) \<Longrightarrow> rune_ok r" using to_runes_ok in_set_takeD by metis
  then have "TrimSpace (concat (take n (to_runes s))) = concat (trim_runes (take n (to_runes s)))"
    by (rule TrimSpace_concat)
  moreover have "runes (concat (trim_runes (take n (to_runes s)))) = trim_runes (take n (to_runes s))"
    using ok set_trim_runes by (intro runes_concat) blast
  ultimately show ?thesis using length_trim_runes[of "take n (to_runes s)"] by simp
qed

lemma length_to_runes [simp]: "length (to_runes s) = length (runes s)"
  by (simp add: to_runes_def)

lemma sanitize_quoted_length: "length (runes (SanitizeQuoted s mx)) \<le> Suc mx"
proof -
  let ?t = "TrimSpace (StripControl (concat (map quoted_replacement s)))"
  have "clean_text quoted_bytes ?t"
    by (intro clean_text_trim strip_control_clean quoted_replaced) (simp add: rune_error_def)
  then have "valid_utf8 (TrimSpace (concat (take mx (to_runes ?t))))"
    using clean_text_take by (auto simp: clean_text_def)
  moreover have "length (runes ellipsis) = 1"
    by (simp add: ellipsis_def rune_tail_def between_def)
  ultimately show ?thesis
    using length_trim_take[of mx ?t] by (simp add: SanitizeQuoted_def Let_def runes_append)
qed

text \<open>A display name cannot forge the speaker structure of the prompt: whatever bytes it is made
  of, the sanitised name is valid UTF-8 of at most 48 runes on one line, without square brackets and
  without white space at its ends.\<close>

theorem speaker_cannot_spoof:
  "clean_text speaker_bytes (SanitizeSpeaker s)
   \<and> length (runes (SanitizeSpeaker s)) \<le> 48
   \<and> TrimSpace (SanitizeSpeaker s) = SanitizeSpeaker s"
proof -
  let ?t = "StripControl (concat (map speaker_replacement s))"
  have t: "clean_text speaker_bytes ?t"
    by (intro strip_control_clean speaker_replaced) (simp add: rune_error_def)
  have tt: "clean_text speaker_bytes (TrimSpace ?t)" by (rule clean_text_trim[OF t])
  have idem: "TrimSpace (TrimSpace u) = TrimSpace u" if "valid_utf8 u" for u
  proof -
    have "runes (TrimSpace u) = trim_runes (runes u)"
      unfolding TrimSpace_def using that set_trim_runes by (intro runes_concat) (auto simp: valid_utf8_def)
    then show ?thesis by (simp add: TrimSpace_def[of "TrimSpace u"] trim_runes_idem) (simp add: TrimSpace_def)
  qed
  have "valid_utf8 (concat (take 48 (to_runes (TrimSpace ?t))))"
    by (intro valid_utf8_concat to_runes_ok[of _ "TrimSpace ?t"]) (rule in_set_takeD)
  then show ?thesis
    using t tt clean_text_take[OF tt, of 48] length_trim_take[of 48 "TrimSpace ?t"] idem
    by (auto simp: SanitizeSpeaker_def Let_def clean_text_def)
qed

lemma ascii_clean:
  assumes "\<And>c. c \<in> set s \<Longrightarrow> 32 \<le> (of_char c :: nat) \<and> (of_char c :: nat) < 127" and "set s \<inter> B = {}"
  shows "clean_text B s"
proof -
  have r: "runes s = map (\<lambda>c. [c]) s" using assms(1) by (intro runes_ascii) fastforce
  have v: "valid_utf8 s" using assms(1) by (intro valid_utf8_ascii) fastforce
  have "\<not> breaks_line [c]" if "c \<in> set s" for c
    using assms(1)[OF that] by (auto simp: breaks_line_def IsControl_def line_separator_def between_def)
  then show ?thesis using r v assms(2) by (auto simp: clean_text_def)
qed

text \<open>The quoted-reply line stays one bracketed line: for every event it is empty, or an opening
  bracket, a body with no bracket and no line break in it, and a closing bracket, of at most 188
  runes in all; the quoted text itself contains no double quote, so it cannot end its own quotation.\<close>

theorem reply_line_is_one_line:
  "ReplyLine ev = [] \<or>
   (\<exists>body. ReplyLine ev = ''['' @ body @ '']'' \<and> clean_text speaker_bytes body
      \<and> length (runes (ReplyLine ev)) \<le> 188
      \<and> length (filter (\<lambda>c. c = CHR 0x22) body) = 2)"
proof (cases "SanitizeQuoted (ev_ReplyToText ev) QuotedMax = []")
  case True
  then show ?thesis by (simp add: ReplyLine_def)
next
  case False
  define q where "q = SanitizeQuoted (ev_ReplyToText ev) QuotedMax"
  define w where "w = SanitizeQuoted (ev_ReplyToUser ev) 48"
  have q: "clean_text quoted_bytes q" "length (runes q) \<le> 121"
    using sanitize_quoted_clean sanitize_quoted_length[of _ QuotedMax] by (simp_all add: q_def QuotedMax_def)
  have w: "clean_text quoted_bytes w" "length (runes w) \<le> 49"
    using sanitize_quoted_clean sanitize_quoted_length[of _ 48] by (simp_all add: w_def)
  have weak: "clean_text speaker_bytes s" if "clean_text quoted_bytes s" for s
    using that by (auto simp: clean_text_def)
  have noq: "filter (\<lambda>c. c = CHR 0x22) s = []" if "clean_text quoted_bytes s" for s
    using that by (auto simp: clean_text_def filter_empty_conv)
  define lead where "lead = (if w \<noteq> [] then ''In reply to '' @ w @ '': '' else ''In reply to: '')"
  have lit: "clean_text speaker_bytes ''In reply to ''" "clean_text speaker_bytes '': ''"
    "clean_text speaker_bytes ''In reply to: ''" "clean_text speaker_bytes [CHR 0x22]"
    by (rule ascii_clean; force)+
  have lead: "clean_text speaker_bytes lead" "length (runes lead) \<le> 63" "filter (\<lambda>c. c = CHR 0x22) lead = []"
  proof -
    show "clean_text speaker_bytes lead"
      unfolding lead_def
      by (cases "w = []") (use lit clean_text_append[OF lit(1) clean_text_append[OF weak[OF w(1)] lit(2)]] in simp_all)
    have "valid_utf8 w" using w(1) by (simp add: clean_text_def)
    then show "length (runes lead) \<le> 63" using w(2) by (simp add: lead_def runes_append)
    show "filter (\<lambda>c. c = CHR 0x22) lead = []" using noq[OF w(1)] by (simp add: lead_def)
  qed
  define body where "body = lead @ [CHR 0x22] @ q @ [CHR 0x22]"
  have line: "ReplyLine ev = ''['' @ body @ '']''"
    using False by (simp add: ReplyLine_def body_def lead_def q_def w_def Let_def)
  have clean: "clean_text speaker_bytes body"
    unfolding body_def using lead(1) lit(4) weak[OF q(1)] by (intro clean_text_append) auto
  have "runes (''['' @ body @ '']'') = [''[''] @ runes body @ ['']'']"
    using clean by (simp add: clean_text_def runes_append)
  moreover have "length (runes body) \<le> 186"
    using lead q by (simp add: body_def clean_text_def runes_append)
  ultimately have "length (runes (ReplyLine ev)) \<le> 188" by (simp add: line)
  moreover have "length (filter (\<lambda>c. c = CHR 0x22) body) = 2"
    using lead(3) noq[OF q(1)] by (simp add: body_def)
  ultimately show ?thesis using line clean by blast
qed

end
