(* ===== verification/Session_Queue.thy ===== *)
theory Session_Queue
  imports Session_Routing Prompt_Sanitize "HOL-Library.Multiset"
begin

section \<open>The busy queue of a session\<close>

text \<open>
  \<^verbatim>\<open>src/leaf/session/55-queue.go\<close> and the batching half of \<^verbatim>\<open>30-arbiter.go\<close>: what happens to the
  messages that arrive while a turn of their session runs. The queue of a session is a list of
  events; the notices are values, sent where the code sends them.
\<close>

abbreviation SessionModeManual :: string where "SessionModeManual \<equiv> ''manual''"
abbreviation SessionModeAuto :: string where "SessionModeAuto \<equiv> ''auto''"
abbreviation SessionModeNone :: string where "SessionModeNone \<equiv> ''none''"

subsection \<open>Deduplication and notices\<close>

definition queueContent :: "message_event \<Rightarrow> string" where
  "queueContent ev =
     (let caption = TrimSpace (ev_Text ev);
          names = filter (\<lambda>n. n \<noteq> []) (map at_FileName (ev_Attachments ev))
      in if caption = [] \<or> caption = NoCaptionStandIn then []
         else if names = [] then caption
         else caption @ '' ['' @ join '', '' names @ '']'')"

fun queueDedup_loop :: "string \<Rightarrow> message_event \<Rightarrow> message_event list \<Rightarrow> bool" where
  "queueDedup_loop content ev [] = False"
| "queueDedup_loop content ev (e # es) =
     (if queueContent e \<noteq> content then queueDedup_loop content ev es
      else if ev_UserID e \<noteq> ev_UserID ev then queueDedup_loop content ev es
      else if ev_Attachments ev \<noteq> [] \<or> ev_Attachments e \<noteq> [] then
        (if ev_MessageID ev \<noteq> [] \<and> ev_MessageID e = ev_MessageID ev then True
         else queueDedup_loop content ev es)
      else True)"

definition queueDedup :: "message_event list \<Rightarrow> message_event \<Rightarrow> bool" where
  "queueDedup pending ev =
     (let content = queueContent ev in if content = [] then False else queueDedup_loop content ev pending)"

definition notifies :: "string \<Rightarrow> bool" where
  "notifies mode \<longleftrightarrow> mode = SessionModeManual \<or> mode = SessionModeNone"

datatype notice = NQueued | NAckN nat nat | NFull nat | NCleared nat

text \<open>What the notice functions send; \<open>known\<close> says whether the source of the event resolves.\<close>

definition notifyQueued :: "nat \<Rightarrow> bool \<Rightarrow> message_event \<Rightarrow> string \<Rightarrow> nat \<Rightarrow> notice option" where
  "notifyQueued maxBatch known ev mode depth =
     (if ev_Onboarding ev \<or> \<not> notifies mode then None
      else if \<not> known then None
      else Some (if depth > 1 then NAckN depth maxBatch else NQueued))"

definition notifyQueueFull :: "nat \<Rightarrow> bool \<Rightarrow> message_event \<Rightarrow> string \<Rightarrow> notice option" where
  "notifyQueueFull maxBatch known ev mode =
     (if ev_Onboarding ev \<or> \<not> notifies mode then None
      else if \<not> known then None
      else Some (NFull maxBatch))"

definition notifyCleared :: "bool \<Rightarrow> string \<Rightarrow> nat \<Rightarrow> notice option" where
  "notifyCleared known mode n =
     (if \<not> notifies mode \<or> n = 0 \<or> \<not> known then None else Some (NCleared n))"

fun album_count :: "string \<Rightarrow> message_event list \<Rightarrow> nat \<Rightarrow> bool" where
  "album_count g [] n = False"
| "album_count g (e # es) n =
     (if ev_MediaGroupID e = g then (if 2 \<le> n + 1 then True else album_count g es (n + 1))
      else album_count g es n)"

definition sameAlbumAlreadyNoticed :: "message_event list \<Rightarrow> message_event \<Rightarrow> bool" where
  "sameAlbumAlreadyNoticed pending ev =
     (if ev_MediaGroupID ev = [] then False else album_count (ev_MediaGroupID ev) pending 0)"

subsection \<open>The nudge lane\<close>

definition nudgeEligible :: "message_event \<Rightarrow> bool" where
  "nudgeEligible ev =
     (if IsInternal ev then False
      else if ev_Attachments ev \<noteq> [] then False
      else let t = TrimSpace (ev_Text ev) in t \<noteq> [] \<and> t \<noteq> NoCaptionStandIn)"

definition nudgeText :: "message_event \<Rightarrow> string" where
  "nudgeText ev =
     (let txt = TrimSpace (ev_Text ev); line = ReplyLine ev
      in if line = [] then txt else if txt = [] then line else line @ [CHR 0x0A] @ txt)"

text \<open>The ids of the messages queued when a turn starts; messages without id are not recorded.\<close>

definition preTurn_ids :: "message_event list \<Rightarrow> string list" where
  "preTurn_ids pending = filter (\<lambda>i. i \<noteq> []) (map ev_MessageID pending)"

text \<open>The search and removal of \<^verbatim>\<open>takeNudge\<close>.\<close>

fun takeNudge_queue :: "string list \<Rightarrow> message_event list \<Rightarrow> (message_event \<times> message_event list) option" where
  "takeNudge_queue preTurn [] = None"
| "takeNudge_queue preTurn (e # q) =
     (if nudgeEligible e \<and> ev_MessageID e \<notin> set preTurn then Some (e, q)
      else case takeNudge_queue preTurn q of
             None \<Rightarrow> None
           | Some (ev, q') \<Rightarrow> Some (ev, e # q'))"

subsection \<open>Batches\<close>

definition sameSender :: "message_event \<Rightarrow> message_event \<Rightarrow> bool" where
  "sameSender a b \<longleftrightarrow> ev_Source a = ev_Source b \<and> ev_UserID a = ev_UserID b"

definition drain_image :: "attachment \<Rightarrow> bool" where
  "drain_image a \<longleftrightarrow> at_Kind a = ''image'' \<or> (at_Kind a = ''document'' \<and> has_prefix (at_MIME a) ''image/'')"

definition batchHasImage :: "message_event list \<Rightarrow> bool" where
  "batchHasImage batch = list_ex (\<lambda>ev. list_ex drain_image (ev_Attachments ev)) batch"

fun split_loop :: "message_event \<Rightarrow> message_event list \<Rightarrow> message_event list \<times> message_event list" where
  "split_loop anchor [] = ([], [])"
| "split_loop anchor (ev # evs) =
     (case split_loop anchor evs of
        (nxt, rest) \<Rightarrow> if sameSender ev anchor then (ev # nxt, rest) else (nxt, ev # rest))"

definition splitBySender :: "message_event list \<Rightarrow> message_event list \<times> message_event list" where
  "splitBySender pending = split_loop (hd pending) pending"

definition pickNextDrainBatch :: "message_event list \<Rightarrow> bool
    \<Rightarrow> message_event list \<times> message_event list \<times> bool" where
  "pickNextDrainBatch pending hadDropsIn =
     (case pending of
        [] \<Rightarrow> ([], [], False)
      | e # rest \<Rightarrow>
          if ev_MediaGroupID e \<noteq> [] \<or> batchHasImage pending then
            (if rest = [] then ([e], [], hadDropsIn) else ([e], rest, False))
          else
            (case splitBySender pending of
               (nxt, remaining) \<Rightarrow>
                 if remaining = [] then (nxt, [], hadDropsIn) else (nxt, remaining, False)))"

subsection \<open>A batch and what stays queued\<close>

lemma split_loop_filter:
  "split_loop a evs = (filter (\<lambda>e. sameSender e a) evs, filter (\<lambda>e. \<not> sameSender e a) evs)"
  by (induction evs) simp_all

lemma sameSender_refl [simp]: "sameSender e e"
  by (simp add: sameSender_def)

lemma sameSender_sym: "sameSender a b \<longleftrightarrow> sameSender b a"
  by (auto simp: sameSender_def)

lemma sameSender_trans: "sameSender a b \<Longrightarrow> sameSender b c \<Longrightarrow> sameSender a c"
  by (simp add: sameSender_def)

text \<open>The two shapes of a drain.\<close>

lemma pick_cases:
  obtains (one) e rest where "pending = e # rest" "ev_MediaGroupID e \<noteq> [] \<or> batchHasImage pending"
      "pickNextDrainBatch pending hd_in = ([e], rest, if rest = [] then hd_in else False)"
  | (sender) e rest where "pending = e # rest" "\<not> batchHasImage pending"
      "pickNextDrainBatch pending hd_in =
         (filter (\<lambda>x. sameSender x e) pending, filter (\<lambda>x. \<not> sameSender x e) pending,
          if filter (\<lambda>x. \<not> sameSender x e) pending = [] then hd_in else False)"
  | (none) "pending = []" "pickNextDrainBatch pending hd_in = ([], [], False)"
proof (cases pending)
  case (Cons e rest)
  then show ?thesis
    using one[of e rest] sender[of e rest]
    by (cases "ev_MediaGroupID e \<noteq> [] \<or> batchHasImage pending")
      (simp_all add: pickNextDrainBatch_def splitBySender_def split_loop_filter)
qed (use none in \<open>simp add: pickNextDrainBatch_def\<close>)

lemma pick_nonempty:
  "pending \<noteq> [] \<Longrightarrow> fst (pickNextDrainBatch pending d) \<noteq> []"
  by (cases rule: pick_cases[of pending d]) auto

lemma pick_mset:
  "pickNextDrainBatch pending d = (nxt, rem, d') \<Longrightarrow> mset nxt + mset rem = mset pending"
  by (cases rule: pick_cases[of pending d]) (auto simp: mset_filter multiset_partition[symmetric])

lemma pick_single_sender:
  "pickNextDrainBatch pending d = (nxt, rem, d') \<Longrightarrow> a \<in> set nxt \<Longrightarrow> b \<in> set nxt \<Longrightarrow> sameSender a b"
  by (cases rule: pick_cases[of pending d]) (auto simp: sameSender_def)

lemma pick_image_alone:
  "pickNextDrainBatch pending d = (nxt, rem, d') \<Longrightarrow> batchHasImage nxt \<Longrightarrow> length nxt = 1"
  by (cases rule: pick_cases[of pending d]) (auto simp: batchHasImage_def list_ex_iff)

subsection \<open>Taking messages out of the queue\<close>

text \<open>Two operations take messages out of the queue of a session, the drain and the nudge. What the
  arbiter relies on is the same for both: something is taken, and what was taken and what is left
  make up what was there.\<close>

locale queue_taker =
  fixes taker :: "'e list \<Rightarrow> ('e list \<times> 'e list) option"
  assumes taken_mset: "taker q = Some (taken, rest) \<Longrightarrow> mset taken + mset rest = mset q"
    and taken_some: "taker q = Some (taken, rest) \<Longrightarrow> taken \<noteq> []"
begin

lemma rest_count:
  assumes "taker q = Some (taken, rest)"
  shows "length (filter P taken) + length (filter P rest) = length (filter P q)"
proof -
  have "size (filter_mset P (mset taken + mset rest)) = size (filter_mset P (mset q))"
    by (simp add: taken_mset[OF assms])
  then show ?thesis by (simp flip: mset_filter)
qed

lemma rest_shorter:
  assumes "taker q = Some (taken, rest)"
  shows "length rest < length q"
  using rest_count[OF assms, of "\<lambda>_. True"] taken_some[OF assms] by (cases taken) auto

lemma taken_from:
  assumes "taker q = Some (taken, rest)"
  shows "set taken \<union> set rest = set q"
  using arg_cong[OF taken_mset[OF assms], of set_mset] by simp

end

definition drain_take :: "bool \<Rightarrow> message_event list \<Rightarrow> (message_event list \<times> message_event list) option" where
  "drain_take d q = (if q = [] then None else case pickNextDrainBatch q d of (nxt, rem, _) \<Rightarrow> Some (nxt, rem))"

definition nudge_take :: "string list \<Rightarrow> message_event list \<Rightarrow> (message_event list \<times> message_event list) option" where
  "nudge_take pre q = map_option (\<lambda>(ev, rest). ([ev], rest)) (takeNudge_queue pre q)"

lemma takeNudge_queue_Some:
  "takeNudge_queue pre q = Some (ev, q') \<Longrightarrow>
     \<exists>a b. q = a @ ev # b \<and> q' = a @ b \<and> nudgeEligible ev \<and> ev_MessageID ev \<notin> set pre
       \<and> (\<forall>x \<in> set a. \<not> (nudgeEligible x \<and> ev_MessageID x \<notin> set pre))"
proof (induction q arbitrary: q')
  case (Cons e q)
  show ?case
  proof (cases "nudgeEligible e \<and> ev_MessageID e \<notin> set pre")
    case True
    then show ?thesis using Cons.prems by (intro exI[of _ "[]"] exI[of _ q]) auto
  next
    case False
    then obtain q1 where q1: "takeNudge_queue pre q = Some (ev, q1)" "q' = e # q1"
      using Cons.prems by (auto split: option.splits prod.splits if_splits)
    from Cons.IH[OF q1(1)] obtain a b where "q = a @ ev # b" "q1 = a @ b" "nudgeEligible ev" "ev_MessageID ev \<notin> set pre"
        "\<forall>x \<in> set a. \<not> (nudgeEligible x \<and> ev_MessageID x \<notin> set pre)" by blast
    then show ?thesis using False q1(2) by (intro exI[of _ "e # a"] exI[of _ b]) auto
  qed
qed simp

interpretation drain: queue_taker "drain_take d"
  using pick_nonempty[where d = d]
  by unfold_locales (force simp: drain_take_def pick_mset split: if_splits prod.splits)+

interpretation nudge: queue_taker "nudge_take pre"
  by unfold_locales (auto simp: nudge_take_def dest!: takeNudge_queue_Some)

lemma pick_taken:
  "pickNextDrainBatch pending d = (nxt, rem, d') \<Longrightarrow> pending \<noteq> [] \<Longrightarrow> drain_take d pending = Some (nxt, rem)"
  by (simp add: drain_take_def)

lemmas pick_shrinks = drain.rest_shorter[OF pick_taken]

lemma pick_drops:
  assumes "pickNextDrainBatch pending d = (nxt, rem, d')" and "pending \<noteq> []"
  shows "d' \<longleftrightarrow> d \<and> rem = []"
  using assms by (cases rule: pick_cases[of pending d]) (auto split: if_splits)

text \<open>Within one sender nothing overtakes anything.\<close>

lemma pick_sender_order:
  assumes "pickNextDrainBatch pending d = (nxt, rem, d')"
  shows "filter (\<lambda>x. sameSender x s) nxt @ filter (\<lambda>x. sameSender x s) rem = filter (\<lambda>x. sameSender x s) pending"
proof (cases rule: pick_cases[of pending d])
  case (sender e rest)
  then have nr: "nxt = filter (\<lambda>x. sameSender x e) pending" "rem = filter (\<lambda>x. \<not> sameSender x e) pending"
    using assms by auto
  show ?thesis
  proof (cases "sameSender e s")
    case True
    then have "\<And>x. sameSender x s \<longleftrightarrow> sameSender x e" by (auto simp: sameSender_def)
    then show ?thesis by (simp add: nr)
  next
    case False
    then have "\<And>x. \<not> (sameSender x e \<and> sameSender x s)" by (auto simp: sameSender_def)
    then have "filter (\<lambda>x. sameSender x s) nxt = []"
      and "filter (\<lambda>x. \<not> sameSender x e \<and> sameSender x s) pending = filter (\<lambda>x. sameSender x s) pending"
      by (auto simp: nr filter_empty_conv intro: filter_cong)
    then show ?thesis by (simp add: nr conj_commute)
  qed
qed (use assms in auto)

subsection \<open>Draining a queue\<close>

text \<open>The chain of follow-up turns over a queue to which nothing is added: the batches with their
  drop flags.\<close>

function drain_all :: "message_event list \<Rightarrow> bool \<Rightarrow> (message_event list \<times> bool) list" where
  "drain_all pending d =
     (if pending = [] then []
      else case pickNextDrainBatch pending d of
             (nxt, rem, d') \<Rightarrow> (nxt, d') # drain_all rem d)"
  by pat_completeness auto
termination
  by (relation "measure (length \<circ> fst)") (auto dest: pick_shrinks[OF sym])

lemmas drain_all_simps = drain_all.simps
declare drain_all.simps [simp del]

lemma drain_all_Nil [simp]: "drain_all [] d = []"
  by (simp add: drain_all_simps)

lemma drain_all_step:
  "pending \<noteq> [] \<Longrightarrow> pickNextDrainBatch pending d = (nxt, rem, d') \<Longrightarrow>
     drain_all pending d = (nxt, d') # drain_all rem d"
  by (simp add: drain_all_simps[of pending])

lemma drain_all_induct [case_names empty batch]:
  assumes "P []"
    and "\<And>pending nxt rem d'. pending \<noteq> [] \<Longrightarrow> pickNextDrainBatch pending d = (nxt, rem, d') \<Longrightarrow> P rem \<Longrightarrow> P pending"
  shows "P pending"
proof (induction pending rule: length_induct)
  case (1 pending)
  show ?case
  proof (cases "pending = []")
    case False
    obtain nxt rem d' where p: "pickNextDrainBatch pending d = (nxt, rem, d')" by (cases "pickNextDrainBatch pending d")
    then show ?thesis using assms(2)[OF False p] 1 pick_shrinks[OF p False] by blast
  qed (use assms(1) in simp)
qed

lemma drain_all_mset: "mset (concat (map fst (drain_all pending d))) = mset pending"
  by (induction pending rule: drain_all_induct[where d = d])
    (simp_all add: drain_all_step, metis pick_mset)

lemma drain_all_order:
  "filter (\<lambda>x. sameSender x s) (concat (map fst (drain_all pending d))) = filter (\<lambda>x. sameSender x s) pending"
  by (induction pending rule: drain_all_induct[where d = d])
    (simp_all add: drain_all_step pick_sender_order)

lemma drain_all_length: "length (drain_all pending d) \<le> length pending"
proof (induction pending rule: drain_all_induct[where d = d])
  case (batch pending nxt rem d')
  then show ?case using pick_shrinks[OF batch(2,1)] by (simp add: drain_all_step)
qed simp

lemma drain_all_flags:
  "pending \<noteq> [] \<Longrightarrow> map snd (drain_all pending d) = replicate (length (drain_all pending d) - 1) False @ [d]"
proof (induction pending rule: drain_all_induct[where d = d])
  case (batch pending nxt rem d')
  note d' = pick_drops[OF batch(2,1)]
  show ?case
  proof (cases "rem = []")
    case True
    then show ?thesis using d' by (simp add: drain_all_step[OF batch(1,2)])
  next
    case False
    then have "drain_all rem d \<noteq> []" by (simp add: drain_all_simps[of rem] split: prod.split)
    then obtain n where "length (drain_all rem d) = Suc n" by (cases "drain_all rem d") auto
    then show ?thesis using batch(3)[OF False] d' False by (simp add: drain_all_step[OF batch(1,2)])
  qed
qed simp

lemma drain_all_batches:
  "(b, f) \<in> set (drain_all pending d) \<Longrightarrow>
     b \<noteq> [] \<and> (\<forall>x \<in> set b. \<forall>y \<in> set b. sameSender x y) \<and> (batchHasImage b \<longrightarrow> length b = 1)"
proof (induction pending rule: drain_all_induct[where d = d])
  case (batch pending nxt rem d')
  show ?case
  proof (cases "(b, f) \<in> set (drain_all rem d)")
    case False
    then have "b = nxt" using batch.prems by (simp add: drain_all_step[OF batch(1,2)])
    then show ?thesis
      using pick_nonempty[OF batch(1), of d] pick_single_sender[OF batch(2)] pick_image_alone[OF batch(2)] batch(2)
      by auto
  qed (use batch(3) in simp)
qed simp

text \<open>C32. Every queued message is served exactly once, in order: the follow-up turns over a queue
  together contain its messages and no others, each sender's messages in the order they arrived, in
  at most as many turns as there are messages; every turn has messages of one sender only, and an
  image is alone in its turn.\<close>

theorem drain_serves_each_once:
  "mset (concat (map fst (drain_all pending d))) = mset pending
   \<and> (\<forall>s. filter (\<lambda>x. sameSender x s) (concat (map fst (drain_all pending d))) = filter (\<lambda>x. sameSender x s) pending)
   \<and> length (drain_all pending d) \<le> length pending
   \<and> list_all (\<lambda>(b, f). b \<noteq> [] \<and> list_all (sameSender (hd b)) b \<and> (if batchHasImage b then length b = 1 else True))
       (drain_all pending d)"
proof -
  have "list_all (\<lambda>(b, f). b \<noteq> [] \<and> list_all (sameSender (hd b)) b \<and> (if batchHasImage b then length b = 1 else True))
      (drain_all pending d)"
    using drain_all_batches by (auto simp: list_all_iff)
  then show ?thesis using drain_all_mset drain_all_order drain_all_length by blast
qed

text \<open>An overflow is announced once, at the end: of the follow-up turns over a queue exactly the
  last one carries the drop flag, with the value the queue was marked with.\<close>

theorem drops_announced_last:
  assumes "pending \<noteq> []"
  shows "map snd (drain_all pending d) = replicate (length (drain_all pending d) - 1) False @ [d]"
  by (rule drain_all_flags[OF assms])

theorem drops_announced_last_witness:
  "map snd (drain_all [zero_event, zero_event\<lparr>ev_UserID := ''b''\<rparr>] True)
     = replicate (length (drain_all [zero_event, zero_event\<lparr>ev_UserID := ''b''\<rparr>] True) - 1) False @ [True]"
  by (rule drops_announced_last) simp

subsection \<open>Deduplication loses no content\<close>

lemma queueDedup_iff:
  "queueDedup pending ev \<longleftrightarrow>
     queueContent ev \<noteq> [] \<and>
     (\<exists>e \<in> set pending. queueContent e = queueContent ev \<and> ev_UserID e = ev_UserID ev \<and>
        (if ev_Attachments ev = [] \<and> ev_Attachments e = [] then True
         else ev_MessageID ev \<noteq> [] \<and> ev_MessageID e = ev_MessageID ev))"
proof -
  have "queueDedup_loop c ev es \<longleftrightarrow>
     (\<exists>e \<in> set es. queueContent e = c \<and> ev_UserID e = ev_UserID ev \<and>
        (if ev_Attachments ev = [] \<and> ev_Attachments e = [] then True
         else ev_MessageID ev \<noteq> [] \<and> ev_MessageID e = ev_MessageID ev))" for c es
    by (induction es) auto
  then show ?thesis by (simp add: queueDedup_def Let_def)
qed

text \<open>A message is dropped as a duplicate only when the same user already has the same words
  queued and either both are plain text or they are the same delivered message; a message with a file
  is never dropped for its caption alone, and a message without caption never at all.\<close>

theorem dedup_loses_nothing:
  assumes "queueDedup pending ev"
  shows "\<exists>e \<in> set pending. ev_UserID e = ev_UserID ev
     \<and> (if ev_Attachments ev = [] \<and> ev_Attachments e = [] then TrimSpace (ev_Text e) = TrimSpace (ev_Text ev)
        else ev_MessageID e = ev_MessageID ev \<and> ev_MessageID ev \<noteq> [])"
proof -
  obtain e where e: "e \<in> set pending" "queueContent e = queueContent ev" "ev_UserID e = ev_UserID ev"
      "if ev_Attachments ev = [] \<and> ev_Attachments e = [] then True
         else ev_MessageID ev \<noteq> [] \<and> ev_MessageID e = ev_MessageID ev" and ne: "queueContent ev \<noteq> []"
    using assms by (auto simp: queueDedup_iff)
  have "TrimSpace (ev_Text e) = TrimSpace (ev_Text ev)" if "ev_Attachments ev = []" "ev_Attachments e = []"
    using e(2) ne that by (auto simp: queueContent_def Let_def split: if_splits)
  then show ?thesis using e by (intro bexI[OF _ e(1)]) (auto split: if_splits)
qed

theorem dedup_loses_nothing_witness:
  "\<exists>e \<in> set [zero_event\<lparr>ev_Text := ''go''\<rparr>]. ev_UserID e = [] \<and> TrimSpace (ev_Text e) = TrimSpace '' go''"
proof -
  have "queueContent (zero_event\<lparr>ev_Text := '' go''\<rparr>) = ''go'' \<and> queueContent (zero_event\<lparr>ev_Text := ''go''\<rparr>) = ''go''"
    by code_simp
  then have "queueDedup [zero_event\<lparr>ev_Text := ''go''\<rparr>] (zero_event\<lparr>ev_Text := '' go''\<rparr>)"
    by (simp add: queueDedup_iff zero_event_def)
  from dedup_loses_nothing[OF this] show ?thesis by (simp add: zero_event_def)
qed

subsection \<open>The nudge lane takes one message\<close>

text \<open>A nudge takes one message out of the queue and leaves the rest in order: it is the first
  plain-text message of a human whose id was not queued when the turn began, so what has an id and was
  waiting before the turn is never pulled forward.\<close>

theorem nudge_takes_one_late_text:
  assumes "takeNudge_queue (preTurn_ids before) q = Some (ev, q')"
  shows "(\<exists>a b. q = a @ ev # b \<and> q' = a @ b) \<and> \<not> IsInternal ev \<and> ev_Attachments ev = [] \<and> TrimSpace (ev_Text ev) \<noteq> []
    \<and> (ev \<notin> set before \<or> ev_MessageID ev = [])"
  using takeNudge_queue_Some[OF assms]
  by (auto simp: nudgeEligible_def preTurn_ids_def Let_def split: if_splits)

theorem nudge_takes_one_late_text_witness:
  "let old = zero_event\<lparr>ev_MessageID := ''1'', ev_Text := ''a''\<rparr>; new = zero_event\<lparr>ev_MessageID := ''2'', ev_Text := ''b''\<rparr>
   in takeNudge_queue (preTurn_ids [old]) [old, new] = Some (new, [old]) \<and> new \<notin> set [old]"
proof -
  have e: "takeNudge_queue (preTurn_ids [zero_event\<lparr>ev_MessageID := ''1'', ev_Text := ''a''\<rparr>])
      [zero_event\<lparr>ev_MessageID := ''1'', ev_Text := ''a''\<rparr>, zero_event\<lparr>ev_MessageID := ''2'', ev_Text := ''b''\<rparr>]
      = Some (zero_event\<lparr>ev_MessageID := ''2'', ev_Text := ''b''\<rparr>, [zero_event\<lparr>ev_MessageID := ''1'', ev_Text := ''a''\<rparr>])"
    by code_simp
  from nudge_takes_one_late_text[OF e] e show ?thesis by (simp add: zero_event_def)
qed

text \<open>A message without id that was already waiting is taken all the same.\<close>

lemma nudge_takes_queued_without_id:
  "takeNudge_queue (preTurn_ids [zero_event\<lparr>ev_Text := ''a''\<rparr>]) [zero_event\<lparr>ev_Text := ''a''\<rparr>]
     = Some (zero_event\<lparr>ev_Text := ''a''\<rparr>, [])"
  by code_simp

text \<open>The image test of the drain is narrower than the shared content predicate: a sticker, or a MIME
  type in capitals, is image content that does not force a turn of its own.\<close>

lemma drain_image_content: "drain_image a \<Longrightarrow> at_MIME a = to_lower (at_MIME a) \<Longrightarrow> IsImageContent a"
  by (auto simp: drain_image_def IsImageContent_def)

lemma drain_image_misses:
  "IsImageContent (zero_attachment\<lparr>at_Kind := ''document'', at_MIME := ''IMAGE/HEIC''\<rparr>)
   \<and> \<not> drain_image (zero_attachment\<lparr>at_Kind := ''document'', at_MIME := ''IMAGE/HEIC''\<rparr>)"
  by code_simp

end
