(* ===== verification/Session_Arbiter.thy ===== *)
theory Session_Arbiter
  imports Session_Queue "HOL-Library.Word"
begin

section \<open>The arbiter of turns\<close>

text \<open>
  \<^verbatim>\<open>src/leaf/session/10-manager.go\<close>, \<^verbatim>\<open>40-submit.go\<close>, \<^verbatim>\<open>30-arbiter.go\<close>,
  \<^verbatim>\<open>70-shutdown.go\<close>, \<^verbatim>\<open>85-snapshot.go\<close> and the closing command of \<^verbatim>\<open>80-slash.go\<close>: the in-memory
  state of the session manager and its operations, one definition per critical section of its mutex.
  The next theory runs them concurrently.

  The turn counter is a 64-bit word. The cancel function of a running turn is the number of that
  turn. Store reads and writes, the transcriber and the placement of attachments are answers the
  operations are given.
\<close>

record sid_meta =
  sm_Scope :: string
  sm_StartedAt :: gtime
  sm_turn :: "64 word"
  sm_mode :: string

record session_manager =
  mg_MaxBatch :: nat
  mg_busy :: "(string, bool) gomap"
  mg_pending :: "(string, message_event list) gomap"
  mg_nudged :: "(string, string list) gomap"
  mg_dropped :: "(string, bool) gomap"
  mg_sidMeta :: "(string, sid_meta) gomap"
  mg_closing :: "(string, bool) gomap"
  mg_cancels :: "(string, nat) gomap"
  mg_armedPrefer :: "(string \<times> string, string list) gomap"
  mg_turnSeq :: "64 word"

text \<open>\<^verbatim>\<open>Config.clamped\<close> and \<^verbatim>\<open>NewManager\<close>.\<close>

definition clamped :: "int \<Rightarrow> nat" where
  "clamped maxBatch = (if maxBatch < 1 then 40 else nat maxBatch)"

definition NewManager :: "int \<Rightarrow> session_manager" where
  "NewManager maxBatch = \<lparr> mg_MaxBatch = clamped maxBatch, mg_busy = [], mg_pending = [], mg_nudged = [],
     mg_dropped = [], mg_sidMeta = [], mg_closing = [], mg_cancels = [], mg_armedPrefer = [], mg_turnSeq = 0 \<rparr>"

abbreviation is_busy :: "session_manager \<Rightarrow> string \<Rightarrow> bool" where
  "is_busy m sid \<equiv> ggetz False (mg_busy m) sid"

abbreviation is_closing :: "session_manager \<Rightarrow> string \<Rightarrow> bool" where
  "is_closing m sid \<equiv> ggetz False (mg_closing m) sid"

abbreviation was_dropped :: "session_manager \<Rightarrow> string \<Rightarrow> bool" where
  "was_dropped m sid \<equiv> ggetz False (mg_dropped m) sid"

abbreviation queue_of :: "session_manager \<Rightarrow> string \<Rightarrow> message_event list" where
  "queue_of m sid \<equiv> ggetz [] (mg_pending m) sid"

abbreviation zero_meta :: sid_meta where
  "zero_meta \<equiv> \<lparr> sm_Scope = [], sm_StartedAt = 0, sm_turn = 0, sm_mode = [] \<rparr>"

subsection \<open>Submitting an event\<close>

text \<open>The transcripts are folded into the text: the sender's own words replace a missing caption,
  other words follow it.\<close>

definition fold_transcript :: "(string \<times> string) option \<Rightarrow> message_event \<Rightarrow> message_event" where
  "fold_transcript transcribe ev =
     (case transcribe of
        None \<Rightarrow> ev
      | Some (instruction, material) \<Rightarrow>
          let ev1 = (if instruction \<noteq> [] then
                       (let cur = TrimSpace (ev_Text ev)
                        in if cur = [] \<or> cur = NoCaptionStandIn then ev\<lparr>ev_Text := instruction\<rparr>
                           else ev\<lparr>ev_Text := cur @ [CHR 0x0A, CHR 0x0A] @ instruction\<rparr>)
                     else ev)
          in if material \<noteq> [] then
               (let cur = TrimSpace (ev_Text ev1)
                in if cur = [] then ev1\<lparr>ev_Text := NoCaptionStandIn @ [CHR 0x0A, CHR 0x0A] @ material\<rparr>
                   else ev1\<lparr>ev_Text := cur @ [CHR 0x0A, CHR 0x0A] @ material\<rparr>)
             else ev1)"

text \<open>A message without text and attachments is discarded, one without text gets the stand-in.\<close>

definition stand_in :: "message_event \<Rightarrow> message_event option" where
  "stand_in ev =
     (if TrimSpace (ev_Text ev) = [] then
        (if ev_Attachments ev = [] then None else Some (ev\<lparr>ev_Text := NoCaptionStandIn\<rparr>))
      else Some ev)"

datatype dispatch =
    DClosing
  | DDeduped
  | DQueued nat bool string
  | DDropped string
  | DClaimed "64 word"

text \<open>The critical section of \<^verbatim>\<open>submit\<close>: join the queue of a busy session or claim an idle one.\<close>

definition submit_dispatch :: "gtime \<Rightarrow> session_manager \<Rightarrow> string \<Rightarrow> string \<Rightarrow> message_event \<Rightarrow> dispatch \<times> session_manager" where
  "submit_dispatch now m scope sid ev =
     (if is_closing m sid then (DClosing, m)
      else if is_busy m sid then
        (let mode = sm_mode (ggetz zero_meta (mg_sidMeta m) sid)
         in if IsInternal ev \<or> length (queue_of m sid) < mg_MaxBatch m then
              (if \<not> IsInternal ev \<and> queueDedup (queue_of m sid) ev then (DDeduped, m)
               else let q = queue_of m sid @ [ev]
                    in (DQueued (length q) (sameAlbumAlreadyNoticed q ev) mode,
                        m\<lparr>mg_pending := gput sid q (mg_pending m)\<rparr>))
            else (DDropped mode, m\<lparr>mg_dropped := gput sid True (mg_dropped m)\<rparr>))
      else let token = mg_turnSeq m + 1
           in (DClaimed token,
               m\<lparr>mg_turnSeq := token, mg_busy := gput sid True (mg_busy m),
                 mg_sidMeta := gput sid \<lparr> sm_Scope = scope, sm_StartedAt = now, sm_turn = token, sm_mode = [] \<rparr> (mg_sidMeta m)\<rparr>))"

text \<open>The notice sent after the critical section.\<close>

definition dispatch_notice :: "nat \<Rightarrow> bool \<Rightarrow> message_event \<Rightarrow> dispatch \<Rightarrow> notice option" where
  "dispatch_notice maxBatch known ev d =
     (case d of
        DQueued depth albumNoticed mode \<Rightarrow>
          if \<not> IsInternal ev \<and> \<not> albumNoticed then notifyQueued maxBatch known ev mode depth else None
      | DDropped mode \<Rightarrow> notifyQueueFull maxBatch known ev mode
      | _ \<Rightarrow> None)"

text \<open>What \<^verbatim>\<open>submit\<close> is told by the store, the turn handler and its context at each attempt, and the
  state of the manager it finds there.\<close>

record submit_env =
  se_resolution :: resolution
  se_open :: "unit + string"
  se_active :: "nat \<Rightarrow> unit + string"
  se_blocked :: "nat \<Rightarrow> string \<Rightarrow> bool"
  se_state :: "nat \<Rightarrow> session_manager"
  se_now :: "nat \<Rightarrow> gtime"
  se_done :: "nat \<Rightarrow> bool"

datatype submit_result =
    SResolveFailed
  | SBlocked string
  | SClosedOut string
  | SCancelled
  | SDispatched nat string dispatch

definition maxCloseRetries :: nat where
  "maxCloseRetries = 4"

definition submit_sid :: "submit_env \<Rightarrow> nat \<Rightarrow> unit + string" where
  "submit_sid env attempt =
     (if rs_SessionID (se_resolution env) \<noteq> [] then Inr (rs_SessionID (se_resolution env))
      else if rs_OpenNew (se_resolution env) then se_open env
      else se_active env attempt)"

function submit_loop :: "submit_env \<Rightarrow> message_event \<Rightarrow> nat \<Rightarrow> submit_result" where
  "submit_loop env ev attempt =
     (case submit_sid env attempt of
        Inl _ \<Rightarrow> SResolveFailed
      | Inr sid \<Rightarrow>
          if se_blocked env attempt sid then SBlocked sid
          else case fst (submit_dispatch (se_now env attempt) (se_state env attempt) (rs_Key (se_resolution env)) sid ev) of
                 DClosing \<Rightarrow>
                   if rs_SessionID (se_resolution env) \<noteq> [] \<or> maxCloseRetries \<le> attempt then SClosedOut sid
                   else if se_done env attempt then SCancelled
                   else submit_loop env ev (attempt + 1)
               | d \<Rightarrow> SDispatched attempt sid d)"
  by pat_completeness auto
termination
  by (relation "measure (\<lambda>(env, ev, attempt). maxCloseRetries - attempt)") (auto simp: maxCloseRetries_def)

text \<open>\<^verbatim>\<open>submit\<close> up to the start of a turn; \<open>None\<close> is an event that is silently discarded.\<close>

definition submit :: "bool \<Rightarrow> submit_env \<Rightarrow> (string \<times> string) option \<Rightarrow> (attachment list \<Rightarrow> attachment list) option
    \<Rightarrow> message_event \<Rightarrow> (message_event \<times> submit_result) option" where
  "submit known env transcribe place ev0 =
     (if \<not> known then None
      else if rs_Drop (se_resolution env) then None
      else let ev1 = fold_transcript transcribe ev0;
               ev2 = (case place of Some f \<Rightarrow> ev1\<lparr>ev_Attachments := f (ev_Attachments ev1)\<rparr> | None \<Rightarrow> ev1)
           in case stand_in ev2 of
                None \<Rightarrow> None
              | Some ev \<Rightarrow> Some (ev, submit_loop env ev 0))"

subsection \<open>The life of a turn\<close>

text \<open>The registration of the cancel function: whether the session is already closing, and the ids
  queued before the turn.\<close>

definition turn_register :: "nat \<Rightarrow> string \<Rightarrow> session_manager \<Rightarrow> bool \<times> string list \<times> session_manager" where
  "turn_register tid sid m =
     (is_closing m sid, preTurn_ids (queue_of m sid), m\<lparr>mg_cancels := gput sid tid (mg_cancels m)\<rparr>)"

definition OnMode :: "string \<Rightarrow> string \<Rightarrow> 64 word \<Rightarrow> session_manager \<Rightarrow> session_manager" where
  "OnMode mode sid turn m =
     (case gget (mg_sidMeta m) sid of
        Some meta \<Rightarrow>
          if sm_turn meta = turn then m\<lparr>mg_sidMeta := gput sid (meta\<lparr>sm_mode := mode\<rparr>) (mg_sidMeta m)\<rparr> else m
      | None \<Rightarrow> m)"

definition takeNudge :: "string \<Rightarrow> string list \<Rightarrow> session_manager \<Rightarrow> message_event option \<times> session_manager" where
  "takeNudge sid preTurn m =
     (case takeNudge_queue preTurn (queue_of m sid) of
        None \<Rightarrow> (None, m)
      | Some (ev, q) \<Rightarrow>
          (Some ev,
           m\<lparr>mg_pending := (if q = [] then gdel sid (mg_pending m) else gput sid q (mg_pending m)),
             mg_nudged := (if ev_MessageID ev \<noteq> []
                           then gput sid (ggetz [] (mg_nudged m) sid @ [ev_MessageID ev]) (mg_nudged m)
                           else mg_nudged m)\<rparr>))"

text \<open>The critical section after \<^verbatim>\<open>RunTurn\<close> returned: the cancel function is called and removed.\<close>

definition turn_release :: "string \<Rightarrow> session_manager \<Rightarrow> session_manager" where
  "turn_release sid m = m\<lparr>mg_cancels := gdel sid (mg_cancels m)\<rparr>"

text \<open>\<^verbatim>\<open>removeServedPending\<close>: the ids whose rows of the write-ahead log are removed.\<close>

definition removeServedPending :: "string \<Rightarrow> message_event list \<Rightarrow> session_manager \<Rightarrow> string list \<times> session_manager" where
  "removeServedPending sid batch m =
     (filter (\<lambda>i. i \<noteq> []) (map ev_MessageID batch) @ ggetz [] (mg_nudged m) sid,
      m\<lparr>mg_nudged := gdel sid (mg_nudged m)\<rparr>)"

text \<open>The cleared-queue acknowledgement after a drain turn.\<close>

definition cleared_ack :: "bool \<Rightarrow> bool \<Rightarrow> bool \<Rightarrow> bool \<Rightarrow> string \<Rightarrow> message_event list \<Rightarrow> notice option" where
  "cleared_ack known isDrain flowProduced aborted turnMode batch =
     (if isDrain \<and> length batch > 1 \<and> flowProduced \<and> \<not> aborted then notifyCleared known turnMode (length batch)
      else None)"

definition owns :: "string \<Rightarrow> 64 word \<Rightarrow> session_manager \<Rightarrow> bool" where
  "owns sid turn m = (case gget (mg_sidMeta m) sid of Some meta \<Rightarrow> sm_turn meta = turn | None \<Rightarrow> False)"

text \<open>\<^verbatim>\<open>drainSidAfterTurn\<close>: the follow-up batch, if one is started, with its drop flag.\<close>

definition drainSidAfterTurn :: "bool \<Rightarrow> string \<Rightarrow> 64 word \<Rightarrow> session_manager
    \<Rightarrow> (message_event list \<times> bool) option \<times> session_manager" where
  "drainSidAfterTurn ctx_err sid turn m =
     (if ctx_err then (None, m)
      else if is_closing m sid then
        (if \<not> owns sid turn m then (None, m)
         else (None, m\<lparr>mg_pending := gdel sid (mg_pending m), mg_dropped := gdel sid (mg_dropped m),
                        mg_busy := gdel sid (mg_busy m), mg_sidMeta := gdel sid (mg_sidMeta m),
                        mg_closing := gdel sid (mg_closing m)\<rparr>))
      else if \<not> owns sid turn m then (None, m)
      else if queue_of m sid \<noteq> [] then
        (case pickNextDrainBatch (queue_of m sid) (was_dropped m sid) of
           (nxt, remaining, hadDrops) \<Rightarrow>
             (Some (nxt, hadDrops),
              if remaining = [] then m\<lparr>mg_pending := gdel sid (mg_pending m), mg_dropped := gdel sid (mg_dropped m)\<rparr>
              else m\<lparr>mg_pending := gput sid remaining (mg_pending m)\<rparr>))
      else (None, m\<lparr>mg_busy := gdel sid (mg_busy m), mg_sidMeta := gdel sid (mg_sidMeta m),
                     mg_dropped := gdel sid (mg_dropped m)\<rparr>))"

text \<open>\<^verbatim>\<open>recoverTurn\<close> after a panic: the batch redispatched under a new token, if any.\<close>

definition recoverTurn :: "bool \<Rightarrow> gtime \<Rightarrow> string \<Rightarrow> string \<Rightarrow> 64 word \<Rightarrow> session_manager
    \<Rightarrow> (message_event list \<times> bool \<times> 64 word) option \<times> session_manager" where
  "recoverTurn ctx_err now scope sid turn m0 =
     (let m = m0\<lparr>mg_cancels := gdel sid (mg_cancels m0)\<rparr>
      in if \<not> owns sid turn m then (None, m)
         else
           let hadDropped = was_dropped m sid;
               closing = is_closing m sid;
               pending = queue_of m sid;
               m1 = m\<lparr>mg_busy := gdel sid (mg_busy m), mg_sidMeta := gdel sid (mg_sidMeta m),
                      mg_dropped := gdel sid (mg_dropped m), mg_nudged := gdel sid (mg_nudged m),
                      mg_closing := gdel sid (mg_closing m)\<rparr>
           in if \<not> closing \<and> \<not> ctx_err \<and> pending \<noteq> [] then
                (case pickNextDrainBatch pending hadDropped of
                   (redispatch, remaining, hadDrops) \<Rightarrow>
                     let token = mg_turnSeq m + 1
                     in (Some (redispatch, hadDrops, token),
                         m1\<lparr>mg_pending := (if remaining \<noteq> [] then gput sid remaining (mg_pending m) else gdel sid (mg_pending m)),
                            mg_dropped := (if remaining \<noteq> [] \<and> hadDropped then gput sid True (mg_dropped m1) else mg_dropped m1),
                            mg_turnSeq := token,
                            mg_busy := gput sid True (mg_busy m1),
                            mg_sidMeta := gput sid \<lparr> sm_Scope = scope, sm_StartedAt = now, sm_turn = token, sm_mode = [] \<rparr> (mg_sidMeta m1)\<rparr>))
              else (None, m1\<lparr>mg_pending := gdel sid (mg_pending m)\<rparr>))"

subsection \<open>Reads and the closing command\<close>

definition RunningAtScope :: "session_manager \<Rightarrow> string \<Rightarrow> nat" where
  "RunningAtScope m scope =
     (if scope = [] then 0
      else length (filter (\<lambda>(sid, _). case gget (mg_sidMeta m) sid of Some meta \<Rightarrow> sm_Scope meta = scope | None \<Rightarrow> False)
             (mg_busy m)))"

definition SidInFlight :: "session_manager \<Rightarrow> string \<Rightarrow> bool" where
  "SidInFlight m sid \<longleftrightarrow> is_busy m sid \<or> is_closing m sid"

record session_snapshot =
  ss_Busy :: nat
  ss_PendingEvents :: nat
  ss_Dropped :: nat
  ss_Tracked :: nat

definition Snapshot :: "session_manager \<Rightarrow> session_snapshot" where
  "Snapshot m = \<lparr> ss_Busy = length (filter snd (mg_busy m)),
     ss_PendingEvents = sum_list (map (length \<circ> snd) (mg_pending m)),
     ss_Dropped = length (filter snd (mg_dropped m)), ss_Tracked = length (mg_sidMeta m) \<rparr>"

text \<open>What \<^verbatim>\<open>logUnprocessed\<close> counts at shutdown: messages and sessions.\<close>

definition logUnprocessed :: "session_manager \<Rightarrow> nat \<times> nat" where
  "logUnprocessed m =
     (let qs = filter (\<lambda>(_, b). b \<noteq> []) (mg_pending m) in (sum_list (map (length \<circ> snd) qs), length qs))"

text \<open>\<^verbatim>\<open>slashCloseSession\<close>: the session whose turn is stopped, the cancel function that is called,
  and the new state. The order of the map decides between two sessions of one scope.\<close>

definition slashCloseSession :: "string \<Rightarrow> session_manager \<Rightarrow> (string \<times> nat option) option \<times> session_manager" where
  "slashCloseSession scope m =
     (let m1 = m\<lparr>mg_armedPrefer := filter (\<lambda>(k, _). fst k \<noteq> scope) (mg_armedPrefer m)\<rparr>
      in case find (\<lambda>(sid, meta). sm_Scope meta = scope \<and> is_busy m sid) (mg_sidMeta m) of
           None \<Rightarrow> (None, m1)
         | Some (target, _) \<Rightarrow>
             (Some (target, gget (mg_cancels m) target), m1\<lparr>mg_closing := gput target True (mg_closing m)\<rparr>))"

subsection \<open>The write-ahead log of running messages\<close>

text \<open>A row is keyed by scope and message id. \<^verbatim>\<open>recordPending\<close> before a turn, the removal after it.\<close>

type_synonym wal = "(string \<times> string) set"

definition recordPending :: "string \<Rightarrow> message_event \<Rightarrow> wal \<Rightarrow> wal" where
  "recordPending scope ev wal =
     (if IsInternal ev \<or> ev_MessageID ev = [] then wal else insert (scope, ev_MessageID ev) wal)"

fun record_batch :: "string \<Rightarrow> message_event list \<Rightarrow> wal \<Rightarrow> wal" where
  "record_batch scope [] wal = wal"
| "record_batch scope (ev # evs) wal = record_batch scope evs (recordPending scope ev wal)"

definition RemovePending :: "string \<Rightarrow> string list \<Rightarrow> wal \<Rightarrow> wal" where
  "RemovePending scope ids wal = {(s, i) \<in> wal. \<not> (s = scope \<and> i \<in> set ids)}"

subsection \<open>Submission ends\<close>

declare submit_loop.simps [simp del]

lemma submit_loop_attempts:
  "attempt \<le> maxCloseRetries \<Longrightarrow> submit_loop env ev attempt = SDispatched k sid d \<Longrightarrow>
     attempt \<le> k \<and> k \<le> maxCloseRetries \<and> d \<noteq> DClosing
     \<and> d = fst (submit_dispatch (se_now env k) (se_state env k) (rs_Key (se_resolution env)) sid ev)"
proof (induction env ev attempt rule: submit_loop.induct)
  case (1 env ev attempt)
  show ?case
  proof (cases "submit_sid env attempt")
    case (Inr s)
    define d0 where "d0 = fst (submit_dispatch (se_now env attempt) (se_state env attempt) (rs_Key (se_resolution env)) s ev)"
    have nb: "\<not> se_blocked env attempt s"
      using 1(3) Inr by (auto simp: submit_loop.simps[of env ev attempt] split: if_splits)
    show ?thesis
    proof (cases "d0 = DClosing")
      case True
      then have go: "rs_SessionID (se_resolution env) = []" "\<not> maxCloseRetries \<le> attempt" "\<not> se_done env attempt"
        and eq: "submit_loop env ev (attempt + 1) = SDispatched k sid d"
        using 1(3) Inr nb by (auto simp: submit_loop.simps[of env ev attempt] d0_def[symmetric] split: if_splits)
      have "attempt + 1 \<le> k \<and> k \<le> maxCloseRetries \<and> d \<noteq> DClosing
        \<and> d = fst (submit_dispatch (se_now env k) (se_state env k) (rs_Key (se_resolution env)) sid ev)"
        using 1(1)[OF Inr nb] True go eq by (simp add: d0_def) metis
      then show ?thesis by (metis add_leD1)
    next
      case False
      then have "submit_loop env ev attempt = SDispatched attempt s d0"
        using Inr nb by (cases d0) (simp_all add: submit_loop.simps[of env ev attempt] d0_def[symmetric])
      then show ?thesis using 1(2,3) False by (auto simp: d0_def)
    qed
  qed (use 1(3) in \<open>simp add: submit_loop.simps[of env ev attempt]\<close>)
qed

subsection \<open>The log is consumed as it was written\<close>

lemma record_batch_rows:
  "record_batch scope batch wal =
     wal \<union> {(scope, ev_MessageID ev) | ev. ev \<in> set batch \<and> \<not> IsInternal ev \<and> ev_MessageID ev \<noteq> []}"
  by (induction batch arbitrary: wal) (auto simp: recordPending_def)

text \<open>The write-ahead log is consumed as it was written: after a turn is served, no row of its
  batch is left in the log, and no row of another scope or of another message is touched, whatever
  was pulled forward by a nudge.\<close>

theorem log_cleared_after_turn:
  assumes "removeServedPending sid batch m = (ids, m')"
  shows "RemovePending scope ids (record_batch scope batch wal)
     = {(s, i) \<in> wal. \<not> (s = scope \<and> i \<in> set ids)}
   \<and> RemovePending scope ids (record_batch scope batch wal) \<inter> {scope} \<times> (ev_MessageID ` set batch - {[]}) = {}"
  using assms by (auto simp: removeServedPending_def RemovePending_def record_batch_rows)

theorem log_cleared_after_turn_witness:
  "RemovePending ''s'' [''1''] (record_batch ''s'' [zero_event\<lparr>ev_MessageID := ''1''\<rparr>] {(''s'', ''2'')}) = {(''s'', ''2'')}"
proof -
  have "removeServedPending ''x'' [zero_event\<lparr>ev_MessageID := ''1''\<rparr>] (NewManager 0) = ([''1''], (NewManager 0)\<lparr>mg_nudged := []\<rparr>)"
    by (simp add: removeServedPending_def NewManager_def)
  from log_cleared_after_turn[OF this, of "''s''" "{(''s'', ''2'')}"] show ?thesis by auto
qed

text \<open>A message discarded at the door had neither text nor attachment, and the text of every other
  message is not blank.\<close>

lemma stand_in_Some: "stand_in ev = Some ev' \<Longrightarrow> TrimSpace (ev_Text ev') \<noteq> []"
proof -
  have "TrimSpace NoCaptionStandIn = NoCaptionStandIn" by code_simp
  then have "TrimSpace NoCaptionStandIn \<noteq> []" by (simp add: NoCaptionStandIn_def)
  then show "stand_in ev = Some ev' \<Longrightarrow> ?thesis" by (auto simp: stand_in_def split: if_splits)
qed

end
