(* ===== verification/Session_Protocol.thy ===== *)
theory Session_Protocol
  imports Session_Arbiter
begin

section \<open>Turns running concurrently\<close>

text \<open>
  The goroutines of the arbiter as a transition system. A running invocation of
  \<^verbatim>\<open>runTurnAndDrain\<close> is a \<open>turn\<close> with its own phase; each step is one critical section of the
  manager's mutex, made by a turn, by a submitting goroutine, by the closing command or by shutdown,
  in any order. A turn may panic in any phase. Three books, which the code does not keep, record per
  session the messages accepted, handed to a turn that returned (or pulled in by a nudge), and given
  up by a close, a panic or the end of the process.
\<close>

datatype phase = Spawned | Running | Returned | Served

record turn =
  tt_id :: nat
  tt_sid :: string
  tt_scope :: string
  tt_token :: "64 word"
  tt_batch :: "message_event list"
  tt_phase :: phase
  tt_preTurn :: "string list"
  tt_cancelled :: bool

type_synonym book = "string \<Rightarrow> message_event multiset"

record arb_world =
  w_mgr :: session_manager
  w_turns :: "turn list"
  w_next :: nat
  w_down :: bool
  w_accepted :: book
  w_handed :: book
  w_lost :: book

definition world_init :: "int \<Rightarrow> arb_world" where
  "world_init maxBatch = \<lparr> w_mgr = NewManager maxBatch, w_turns = [], w_next = 0, w_down = False,
     w_accepted = (\<lambda>_. {#}), w_handed = (\<lambda>_. {#}), w_lost = (\<lambda>_. {#}) \<rparr>"

definition put_turn :: "turn \<Rightarrow> turn list \<Rightarrow> turn list" where
  "put_turn t ts = map (\<lambda>u. if tt_id u = tt_id t then t else u) ts"

definition del_turn :: "turn \<Rightarrow> turn list \<Rightarrow> turn list" where
  "del_turn t ts = filter (\<lambda>u. tt_id u \<noteq> tt_id t) ts"

definition add_book :: "string \<Rightarrow> message_event list \<Rightarrow> book \<Rightarrow> book" where
  "add_book sid evs b = b(sid := b sid + mset evs)"

definition spawn :: "string \<Rightarrow> string \<Rightarrow> 64 word \<Rightarrow> message_event list \<Rightarrow> arb_world \<Rightarrow> arb_world" where
  "spawn sid scope token batch w =
     w\<lparr>w_turns := w_turns w @ [\<lparr> tt_id = w_next w, tt_sid = sid, tt_scope = scope, tt_token = token,
          tt_batch = batch, tt_phase = Spawned, tt_preTurn = [], tt_cancelled = w_down w \<rparr>],
       w_next := Suc (w_next w)\<rparr>"

text \<open>What \<^verbatim>\<open>submit\<close> does with the outcome of its critical section.\<close>

definition after_submit :: "string \<Rightarrow> string \<Rightarrow> message_event \<Rightarrow> dispatch \<Rightarrow> arb_world \<Rightarrow> arb_world" where
  "after_submit scope sid ev d w =
     (case d of
        DClaimed token \<Rightarrow> spawn sid scope token [ev] (w\<lparr>w_accepted := add_book sid [ev] (w_accepted w)\<rparr>)
      | DQueued _ _ _ \<Rightarrow> w\<lparr>w_accepted := add_book sid [ev] (w_accepted w)\<rparr>
      | _ \<Rightarrow> w)"

definition in_run :: "turn \<Rightarrow> bool" where
  "in_run t \<longleftrightarrow> tt_phase t = Spawned \<or> tt_phase t = Running"

text \<open>The queue of a session is given up when its state is released with messages still in it.\<close>

definition given_up :: "string \<Rightarrow> session_manager \<Rightarrow> session_manager \<Rightarrow> message_event list" where
  "given_up sid m m' = (if is_busy m' sid then [] else queue_of m sid)"

inductive arb_step :: "arb_world \<Rightarrow> arb_world \<Rightarrow> bool" where
  Submit: "submit_dispatch now (w_mgr w) scope sid ev = (d, m') \<Longrightarrow>
     arb_step w (after_submit scope sid ev d (w\<lparr>w_mgr := m'\<rparr>))"
| Begin: "t \<in> set (w_turns w) \<Longrightarrow> tt_phase t = Spawned \<Longrightarrow>
     turn_register (tt_id t) (tt_sid t) (w_mgr w) = (alreadyClosing, pre, m') \<Longrightarrow>
     arb_step w (w\<lparr>w_mgr := m', w_turns := put_turn (t\<lparr>tt_phase := Running, tt_preTurn := pre,
        tt_cancelled := (tt_cancelled t \<or> alreadyClosing)\<rparr>) (w_turns w)\<rparr>)"
| Mode: "t \<in> set (w_turns w) \<Longrightarrow> tt_phase t = Running \<Longrightarrow>
     arb_step w (w\<lparr>w_mgr := OnMode mode (tt_sid t) (tt_token t) (w_mgr w)\<rparr>)"
| Nudge: "t \<in> set (w_turns w) \<Longrightarrow> tt_phase t = Running \<Longrightarrow>
     takeNudge (tt_sid t) (tt_preTurn t) (w_mgr w) = (Some ev, m') \<Longrightarrow>
     arb_step w (w\<lparr>w_mgr := m', w_handed := add_book (tt_sid t) [ev] (w_handed w)\<rparr>)"
| Return: "t \<in> set (w_turns w) \<Longrightarrow> tt_phase t = Running \<Longrightarrow>
     arb_step w (w\<lparr>w_mgr := turn_release (tt_sid t) (w_mgr w), w_turns := put_turn (t\<lparr>tt_phase := Returned\<rparr>) (w_turns w),
        w_handed := add_book (tt_sid t) (tt_batch t) (w_handed w)\<rparr>)"
| Serve: "t \<in> set (w_turns w) \<Longrightarrow> tt_phase t = Returned \<Longrightarrow>
     arb_step w (w\<lparr>w_mgr := snd (removeServedPending (tt_sid t) (tt_batch t) (w_mgr w)),
        w_turns := put_turn (t\<lparr>tt_phase := Served\<rparr>) (w_turns w)\<rparr>)"
| Drain_stop: "t \<in> set (w_turns w) \<Longrightarrow> tt_phase t = Served \<Longrightarrow>
     drainSidAfterTurn (w_down w) (tt_sid t) (tt_token t) (w_mgr w) = (None, m') \<Longrightarrow>
     arb_step w (w\<lparr>w_mgr := m', w_turns := del_turn t (w_turns w),
        w_lost := add_book (tt_sid t) (given_up (tt_sid t) (w_mgr w) m') (w_lost w)\<rparr>)"
| Drain_next: "t \<in> set (w_turns w) \<Longrightarrow> tt_phase t = Served \<Longrightarrow>
     drainSidAfterTurn (w_down w) (tt_sid t) (tt_token t) (w_mgr w) = (Some (nxt, hadDrops), m') \<Longrightarrow>
     arb_step w (spawn (tt_sid t) (tt_scope t) (tt_token t) nxt (w\<lparr>w_mgr := m', w_turns := del_turn t (w_turns w)\<rparr>))"
| Panic_stop: "t \<in> set (w_turns w) \<Longrightarrow>
     recoverTurn (w_down w) now (tt_scope t) (tt_sid t) (tt_token t) (w_mgr w) = (None, m') \<Longrightarrow>
     arb_step w (w\<lparr>w_mgr := m', w_turns := del_turn t (w_turns w),
        w_lost := add_book (tt_sid t) ((if in_run t then tt_batch t else []) @ given_up (tt_sid t) (w_mgr w) m') (w_lost w)\<rparr>)"
| Panic_next: "t \<in> set (w_turns w) \<Longrightarrow>
     recoverTurn (w_down w) now (tt_scope t) (tt_sid t) (tt_token t) (w_mgr w) = (Some (redispatch, hadDrops, token), m') \<Longrightarrow>
     arb_step w (spawn (tt_sid t) (tt_scope t) token redispatch (w\<lparr>w_mgr := m', w_turns := del_turn t (w_turns w),
        w_lost := add_book (tt_sid t) (if in_run t then tt_batch t else []) (w_lost w)\<rparr>))"
| Close: "slashCloseSession scope (w_mgr w) = (r, m') \<Longrightarrow>
     arb_step w (w\<lparr>w_mgr := m', w_turns := (case r of
        Some (_, Some i) \<Rightarrow> map (\<lambda>u. if tt_id u = i then u\<lparr>tt_cancelled := True\<rparr> else u) (w_turns w)
      | _ \<Rightarrow> w_turns w)\<rparr>)"
| Shutdown: "arb_step w (w\<lparr>w_down := True, w_turns := map (\<lambda>u. u\<lparr>tt_cancelled := True\<rparr>) (w_turns w)\<rparr>)"

inductive arb_reach :: "int \<Rightarrow> arb_world \<Rightarrow> bool" for maxBatch where
  start: "arb_reach maxBatch (world_init maxBatch)"
| next_step: "arb_reach maxBatch w \<Longrightarrow> arb_step w w' \<Longrightarrow> arb_reach maxBatch w'"

subsection \<open>What holds of one session\<close>

text \<open>The state the manager keeps of one session, and the turns that run for it.\<close>

record sview =
  v_busy :: "bool option"
  v_pending :: "message_event list option"
  v_nudged :: "string list option"
  v_dropped :: "bool option"
  v_meta :: "sid_meta option"
  v_closing :: "bool option"
  v_cancel :: "nat option"

definition view :: "session_manager \<Rightarrow> string \<Rightarrow> sview" where
  "view m sid = \<lparr> v_busy = gget (mg_busy m) sid, v_pending = gget (mg_pending m) sid,
     v_nudged = gget (mg_nudged m) sid, v_dropped = gget (mg_dropped m) sid, v_meta = gget (mg_sidMeta m) sid,
     v_closing = gget (mg_closing m) sid, v_cancel = gget (mg_cancels m) sid \<rparr>"

definition turns_at :: "turn list \<Rightarrow> string \<Rightarrow> turn list" where
  "turns_at ts sid = filter (\<lambda>t. tt_sid t = sid) ts"

definition v_queue :: "sview \<Rightarrow> message_event list" where
  "v_queue v = (case v_pending v of None \<Rightarrow> [] | Some q \<Rightarrow> q)"

definition inflight :: "turn list \<Rightarrow> message_event multiset" where
  "inflight ts = sum_list (map (\<lambda>t. if in_run t then mset (tt_batch t) else {#}) ts)"

definition humans :: "message_event list \<Rightarrow> nat" where
  "humans q = length (filter (\<lambda>e. \<not> IsInternal e) q)"

definition single_sender :: "message_event list \<Rightarrow> bool" where
  "single_sender b \<longleftrightarrow> (\<forall>x \<in> set b. \<forall>y \<in> set b. sameSender x y)"

text \<open>A turn holds its session.\<close>

definition turn_holds :: "sview \<Rightarrow> turn \<Rightarrow> bool" where
  "turn_holds v t \<longleftrightarrow>
     v_busy v = Some True
   \<and> (\<exists>meta. v_meta v = Some meta \<and> sm_turn meta = tt_token t \<and> sm_Scope meta = tt_scope t)
   \<and> v_cancel v = (if tt_phase t = Running then Some (tt_id t) else None)
   \<and> (tt_phase t = Running \<and> v_closing v \<noteq> None \<longrightarrow> tt_cancelled t)
   \<and> (tt_phase t = Served \<longrightarrow> v_nudged v = None)
   \<and> tt_batch t \<noteq> [] \<and> single_sender (tt_batch t)"

definition idle_ok :: "sview \<Rightarrow> bool" where
  "idle_ok v \<longleftrightarrow>
     (if v_busy v = None then v_pending v = None \<and> v_nudged v = None \<and> v_dropped v = None \<and> v_meta v = None \<and> v_closing v = None
      else v_busy v = Some True \<and> v_meta v \<noteq> None)"

definition queue_ok :: "nat \<Rightarrow> sview \<Rightarrow> bool" where
  "queue_ok B v \<longleftrightarrow> v_pending v \<noteq> Some [] \<and> humans (v_queue v) \<le> B \<and> v_closing v \<noteq> Some False"

definition session_ok :: "nat \<Rightarrow> bool \<Rightarrow> sview \<Rightarrow> turn list \<Rightarrow> bool" where
  "session_ok B down v ts \<longleftrightarrow>
     (case ts of
        [] \<Rightarrow> v_cancel v = None \<and> (down \<or> v_busy v = None)
      | [t] \<Rightarrow> turn_holds v t
      | _ \<Rightarrow> False)
   \<and> idle_ok v \<and> queue_ok B v"

definition books_ok :: "arb_world \<Rightarrow> string \<Rightarrow> bool" where
  "books_ok w sid \<longleftrightarrow>
     w_accepted w sid = inflight (turns_at (w_turns w) sid) + mset (v_queue (view (w_mgr w) sid))
       + w_handed w sid + w_lost w sid"

definition ids_ok :: "arb_world \<Rightarrow> bool" where
  "ids_ok w \<longleftrightarrow> distinct (map tt_id (w_turns w)) \<and> (\<forall>t \<in> set (w_turns w). tt_id t < w_next w)
     \<and> gmap_ok (mg_busy (w_mgr w)) \<and> gmap_ok (mg_sidMeta (w_mgr w))"

definition world_ok :: "arb_world \<Rightarrow> bool" where
  "world_ok w \<longleftrightarrow> ids_ok w \<and>
     (\<forall>sid. session_ok (mg_MaxBatch (w_mgr w)) (w_down w) (view (w_mgr w) sid) (turns_at (w_turns w) sid) \<and> books_ok w sid)"

subsection \<open>The turns of one session\<close>

lemma turns_at_put:
  assumes "distinct (map tt_id ts)" and "t \<in> set ts" and "tt_id t' = tt_id t" and "tt_sid t' = tt_sid t"
  shows "turns_at (put_turn t' ts) s = map (\<lambda>u. if tt_id u = tt_id t then t' else u) (turns_at ts s)"
proof -
  have same: "u = t" if "u \<in> set ts" "tt_id u = tt_id t" for u
    using that assms(1,2) by (auto simp: distinct_map inj_on_def)
  then have "filter (\<lambda>u. tt_sid (if tt_id u = tt_id t then t' else u) = s) ts = filter (\<lambda>u. tt_sid u = s) ts"
    using assms(4) by (intro filter_cong) auto
  then show ?thesis using assms(3) by (simp add: turns_at_def put_turn_def filter_map comp_def)
qed

lemma turns_at_put_other:
  assumes "distinct (map tt_id ts)" and "t \<in> set ts" and "tt_id t' = tt_id t" and "tt_sid t' = tt_sid t"
    and "s \<noteq> tt_sid t"
  shows "turns_at (put_turn t' ts) s = turns_at ts s"
proof -
  have "u \<in> set (turns_at ts s) \<Longrightarrow> tt_id u \<noteq> tt_id t" for u
    using assms(1,2,5) by (auto simp: turns_at_def distinct_map inj_on_def)
  then show ?thesis by (simp add: turns_at_put[OF assms(1-4)] map_idI)
qed

lemma turns_at_del_other:
  assumes "distinct (map tt_id ts)" and "t \<in> set ts" and "s \<noteq> tt_sid t"
  shows "turns_at (del_turn t ts) s = turns_at ts s"
proof -
  have "tt_id u \<noteq> tt_id t" if "u \<in> set ts" "tt_sid u = s" for u
    using that assms by (auto simp: distinct_map inj_on_def)
  then show ?thesis by (auto simp: turns_at_def del_turn_def intro: filter_cong)
qed

lemma turns_at_del_only: "turns_at ts (tt_sid t) = [t] \<Longrightarrow> turns_at (del_turn t ts) (tt_sid t) = []"
proof -
  assume a: "turns_at ts (tt_sid t) = [t]"
  have "turns_at (del_turn t ts) (tt_sid t) = filter (\<lambda>u. tt_id u \<noteq> tt_id t) (turns_at ts (tt_sid t))"
    by (simp add: turns_at_def del_turn_def conj_commute)
  then show ?thesis by (simp add: a)
qed

lemma turns_at_append: "turns_at (ts @ us) s = turns_at ts s @ turns_at us s"
  by (simp add: turns_at_def)

lemma put_turn_ids: "tt_id t' = tt_id t \<Longrightarrow> map tt_id (put_turn t' ts) = map tt_id ts"
  by (simp add: put_turn_def)

lemma set_put_turn: "u \<in> set (put_turn t ts) \<Longrightarrow> u = t \<or> u \<in> set ts"
  by (auto simp: put_turn_def)

lemma set_del_turn: "u \<in> set (del_turn t ts) \<Longrightarrow> u \<in> set ts"
  by (auto simp: del_turn_def)

lemma inflight_simps [simp]:
  "inflight [] = {#}" "inflight (t # ts) = (if in_run t then mset (tt_batch t) else {#}) + inflight ts"
  by (simp_all add: inflight_def)

lemma queue_view: "queue_of m sid = v_queue (view m sid)"
  by (simp add: ggetz_def v_queue_def view_def)

lemma busy_view: "is_busy m sid \<longleftrightarrow> v_busy (view m sid) = Some True"
  by (simp add: ggetz_def view_def split: option.split)

lemma closing_view: "v_closing (view m sid) \<noteq> Some False \<Longrightarrow> is_closing m sid \<longleftrightarrow> v_closing (view m sid) \<noteq> None"
  by (auto simp: ggetz_def view_def split: option.splits)

lemma owns_holds: "turn_holds (view m (tt_sid t)) t \<Longrightarrow> owns (tt_sid t) (tt_token t) m"
  by (auto simp: turn_holds_def owns_def view_def)

text \<open>A turn that runs is the only one of its session and holds it.\<close>

lemma the_turn:
  assumes "world_ok w" and "t \<in> set (w_turns w)"
  shows "turns_at (w_turns w) (tt_sid t) = [t]" and "turn_holds (view (w_mgr w) (tt_sid t)) t"
proof -
  have s: "session_ok (mg_MaxBatch (w_mgr w)) (w_down w) (view (w_mgr w) (tt_sid t)) (turns_at (w_turns w) (tt_sid t))"
    using assms(1) by (simp add: world_ok_def)
  moreover have "t \<in> set (turns_at (w_turns w) (tt_sid t))" using assms(2) by (simp add: turns_at_def)
  ultimately show one: "turns_at (w_turns w) (tt_sid t) = [t]"
    by (auto simp: session_ok_def split: list.splits)
  show "turn_holds (view (w_mgr w) (tt_sid t)) t" using s one by (simp add: session_ok_def)
qed

lemma world_ok_session:
  "world_ok w \<Longrightarrow> session_ok (mg_MaxBatch (w_mgr w)) (w_down w) (view (w_mgr w) sid) (turns_at (w_turns w) sid)"
  by (simp add: world_ok_def)

lemma world_ok_books: "world_ok w \<Longrightarrow> books_ok w sid"
  by (simp add: world_ok_def)

text \<open>A step touches one session.\<close>

lemma world_ok_update:
  assumes ok: "world_ok w"
    and const: "mg_MaxBatch (w_mgr w') = mg_MaxBatch (w_mgr w)" "w_down w' = w_down w"
    and ids: "ids_ok w'"
    and other: "\<And>s. s \<noteq> sid \<Longrightarrow> view (w_mgr w') s = view (w_mgr w) s \<and> turns_at (w_turns w') s = turns_at (w_turns w) s
        \<and> w_accepted w' s = w_accepted w s \<and> w_handed w' s = w_handed w s \<and> w_lost w' s = w_lost w s"
    and here: "session_ok (mg_MaxBatch (w_mgr w)) (w_down w) (view (w_mgr w') sid) (turns_at (w_turns w') sid)"
    and books: "books_ok w' sid"
  shows "world_ok w'"
proof -
  have "session_ok (mg_MaxBatch (w_mgr w')) (w_down w') (view (w_mgr w') s) (turns_at (w_turns w') s) \<and> books_ok w' s" for s
  proof (cases "s = sid")
    case False
    then show ?thesis using ok other[OF False] const by (simp add: world_ok_def books_ok_def)
  qed (use here books const in simp)
  then show ?thesis using ids by (simp add: world_ok_def)
qed

lemma add_book_simps [simp]:
  "add_book sid evs b sid = b sid + mset evs" "s \<noteq> sid \<Longrightarrow> add_book sid evs b s = b s"
  by (simp_all add: add_book_def)

lemma ids_ok_put:
  "ids_ok w \<Longrightarrow> t \<in> set (w_turns w) \<Longrightarrow> tt_id t' = tt_id t \<Longrightarrow> mg_busy m' = mg_busy (w_mgr w) \<Longrightarrow>
     gmap_ok (mg_sidMeta m') \<Longrightarrow>
     ids_ok (w\<lparr>w_mgr := m', w_turns := put_turn t' (w_turns w), w_handed := h\<rparr>)"
  by (auto simp: ids_ok_def put_turn_ids dest!: set_put_turn)

subsection \<open>Preservation, step by step\<close>

lemma humans_append [simp]: "humans (a @ b) = humans a + humans b"
  by (simp add: humans_def)

lemma humans_single [simp]: "humans [e] = (if IsInternal e then 0 else 1)"
  by (simp add: humans_def)

lemma humans_le: "humans q \<le> length q"
  by (simp add: humans_def)

lemma view_submit_other:
  "submit_dispatch now m scope sid ev = (d, m') \<Longrightarrow> s \<noteq> sid \<Longrightarrow> view m' s = view m s"
  by (auto simp: submit_dispatch_def Let_def view_def split: if_splits)

lemma submit_ids:
  "submit_dispatch now m scope sid ev = (d, m') \<Longrightarrow> gmap_ok (mg_busy m) \<Longrightarrow> gmap_ok (mg_sidMeta m) \<Longrightarrow>
     gmap_ok (mg_busy m') \<and> gmap_ok (mg_sidMeta m') \<and> mg_MaxBatch m' = mg_MaxBatch m"
  by (auto simp: submit_dispatch_def Let_def split: if_splits)

lemma step_submit:
  assumes ok: "world_ok w" and d: "submit_dispatch now (w_mgr w) scope sid ev = (d, m')"
  shows "world_ok (after_submit scope sid ev d (w\<lparr>w_mgr := m'\<rparr>))"
proof (rule world_ok_update[OF ok, where sid = sid])
  let ?m = "w_mgr w" and ?w' = "after_submit scope sid ev d (w\<lparr>w_mgr := m'\<rparr>)"
  have idw: "ids_ok w" using ok by (simp add: world_ok_def)
  note mi = submit_ids[OF d]
  show "mg_MaxBatch (w_mgr ?w') = mg_MaxBatch ?m" "w_down ?w' = w_down w"
    using mi idw by (simp_all add: after_submit_def spawn_def ids_ok_def split: dispatch.split)
  show "ids_ok ?w'"
    using mi idw by (auto simp: after_submit_def spawn_def ids_ok_def split: dispatch.split)
  show "view (w_mgr ?w') s = view ?m s \<and> turns_at (w_turns ?w') s = turns_at (w_turns w) s
      \<and> w_accepted ?w' s = w_accepted w s \<and> w_handed ?w' s = w_handed w s \<and> w_lost ?w' s = w_lost w s"
    if "s \<noteq> sid" for s
    using view_submit_other[OF d that] that
    by (simp add: after_submit_def spawn_def turns_at_append split: dispatch.split) (simp add: turns_at_def)
  have so: "session_ok (mg_MaxBatch ?m) (w_down w) (view ?m sid) (turns_at (w_turns w) sid)"
    and bo: "books_ok w sid"
    using ok by (simp_all add: world_ok_def)
  have cl: "is_closing ?m sid \<longleftrightarrow> v_closing (view ?m sid) \<noteq> None"
    using so by (intro closing_view) (simp add: session_ok_def queue_ok_def)
  have both: "session_ok (mg_MaxBatch ?m) (w_down w) (view (w_mgr ?w') sid) (turns_at (w_turns ?w') sid) \<and> books_ok ?w' sid"
  proof (cases d)
    case DClosing
    then have "m' = ?m" using d by (auto simp: submit_dispatch_def Let_def split: if_splits)
    then show ?thesis using DClosing so bo by (simp add: after_submit_def books_ok_def)
  next
    case DDeduped
    then have "m' = ?m" using d by (auto simp: submit_dispatch_def Let_def split: if_splits)
    then show ?thesis using DDeduped so bo by (simp add: after_submit_def books_ok_def)
  next
    case (DDropped mode)
    then have b: "is_busy ?m sid" and v: "view m' sid = (view ?m sid)\<lparr>v_dropped := Some True\<rparr>"
      using d by (auto simp: submit_dispatch_def Let_def view_def split: if_splits)
    have "session_ok (mg_MaxBatch ?m) (w_down w) (view m' sid) (turns_at (w_turns w) sid)"
      using so b unfolding v busy_view
      by (auto simp: session_ok_def idle_ok_def queue_ok_def turn_holds_def v_queue_def split: list.splits)
    moreover have "v_queue (view m' sid) = v_queue (view ?m sid)" unfolding v by (simp add: v_queue_def)
    ultimately show ?thesis using DDropped bo by (simp add: after_submit_def books_ok_def)
  next
    case (DQueued n al mode)
    then have b: "is_busy ?m sid" and v: "view m' sid = (view ?m sid)\<lparr>v_pending := Some (queue_of ?m sid @ [ev])\<rparr>"
      and bound: "IsInternal ev \<or> length (queue_of ?m sid) < mg_MaxBatch ?m"
      using d by (auto simp: submit_dispatch_def Let_def view_def split: if_splits)
    have q: "v_queue (view m' sid) = v_queue (view ?m sid) @ [ev]" unfolding v by (simp add: v_queue_def queue_view)
    have "humans (v_queue (view ?m sid) @ [ev]) \<le> mg_MaxBatch ?m"
      using bound so humans_le[of "v_queue (view ?m sid)"] unfolding queue_view
      by (auto simp: session_ok_def queue_ok_def)
    then have "session_ok (mg_MaxBatch ?m) (w_down w) (view m' sid) (turns_at (w_turns w) sid)"
      using so b q unfolding busy_view
      by (auto simp: v session_ok_def idle_ok_def queue_ok_def turn_holds_def split: list.splits)
    then show ?thesis using DQueued bo q by (simp add: after_submit_def books_ok_def ac_simps)
  next
    case (DClaimed token)
    then have nb: "\<not> is_busy ?m sid" and nc: "\<not> is_closing ?m sid"
      and v: "view m' sid = (view ?m sid)\<lparr>v_busy := Some True,
         v_meta := Some \<lparr> sm_Scope = scope, sm_StartedAt = now, sm_turn = token, sm_mode = [] \<rparr>\<rparr>"
      using d by (auto simp: submit_dispatch_def Let_def view_def split: if_splits)
    have none: "turns_at (w_turns w) sid = []" "v_busy (view ?m sid) = None"
      using so nb unfolding busy_view
      by (auto simp: session_ok_def idle_ok_def turn_holds_def split: list.splits if_splits)
    have idle: "v_pending (view ?m sid) = None" "v_closing (view ?m sid) = None" "v_cancel (view ?m sid) = None"
      using so none by (auto simp: session_ok_def idle_ok_def)
    have ts: "turns_at (w_turns ?w') sid = [\<lparr> tt_id = w_next w, tt_sid = sid, tt_scope = scope, tt_token = token,
        tt_batch = [ev], tt_phase = Spawned, tt_preTurn = [], tt_cancelled = w_down w \<rparr>]"
      using none(1) DClaimed by (simp add: after_submit_def spawn_def turns_at_append) (simp add: turns_at_def)
    have "session_ok (mg_MaxBatch ?m) (w_down w) (view m' sid) (turns_at (w_turns ?w') sid)"
      using so none idle unfolding ts v
      by (simp add: session_ok_def idle_ok_def queue_ok_def turn_holds_def v_queue_def single_sender_def)
    moreover have "books_ok ?w' sid"
      using bo none(1) idle DClaimed v ts
      by (simp add: after_submit_def spawn_def books_ok_def v_queue_def in_run_def ac_simps)
    ultimately show ?thesis using DClaimed by (simp add: after_submit_def spawn_def)
  qed
  then show "session_ok (mg_MaxBatch ?m) (w_down w) (view (w_mgr ?w') sid) (turns_at (w_turns ?w') sid)" and "books_ok ?w' sid"
    by simp_all
qed

text \<open>A step of a turn that goes on.\<close>

lemma step_turn:
  assumes ok: "world_ok w" and t: "t \<in> set (w_turns w)" and t': "tt_id t' = tt_id t" "tt_sid t' = tt_sid t"
    and m': "mg_busy m' = mg_busy (w_mgr w)" "gmap_ok (mg_sidMeta m')" "mg_MaxBatch m' = mg_MaxBatch (w_mgr w)"
    and other: "\<And>s. s \<noteq> tt_sid t \<Longrightarrow> view m' s = view (w_mgr w) s"
    and here: "turn_holds (view m' (tt_sid t)) t'" "idle_ok (view m' (tt_sid t))" "queue_ok (mg_MaxBatch (w_mgr w)) (view m' (tt_sid t))"
    and books: "inflight [t] + mset (v_queue (view (w_mgr w) (tt_sid t)))
       = inflight [t'] + mset (v_queue (view m' (tt_sid t))) + mset evs"
  shows "world_ok (w\<lparr>w_mgr := m', w_turns := put_turn t' (w_turns w), w_handed := add_book (tt_sid t) evs (w_handed w)\<rparr>)"
    (is "world_ok ?w'")
proof (rule world_ok_update[OF ok, where sid = "tt_sid t"])
  have ids: "ids_ok w" and d: "distinct (map tt_id (w_turns w))" using ok by (auto simp: world_ok_def ids_ok_def)
  have one: "turns_at (put_turn t' (w_turns w)) (tt_sid t) = [t']"
    using turns_at_put[OF d t t', of "tt_sid t"] the_turn(1)[OF ok t] by simp
  show "ids_ok ?w'" by (rule ids_ok_put[OF ids t t'(1) m'(1,2)])
  show "view (w_mgr ?w') s = view (w_mgr w) s \<and> turns_at (w_turns ?w') s = turns_at (w_turns w) s
      \<and> w_accepted ?w' s = w_accepted w s \<and> w_handed ?w' s = w_handed w s \<and> w_lost ?w' s = w_lost w s"
    if "s \<noteq> tt_sid t" for s
    using that other[OF that] turns_at_put_other[OF d t t' that] by simp
  show "session_ok (mg_MaxBatch (w_mgr w)) (w_down w) (view (w_mgr ?w') (tt_sid t)) (turns_at (w_turns ?w') (tt_sid t))"
    using one here by (simp add: session_ok_def)
  show "books_ok ?w' (tt_sid t)"
    using world_ok_books[OF ok, of "tt_sid t"] one the_turn(1)[OF ok t] books
    by (simp add: books_ok_def ac_simps)
qed (use m' in simp_all)

lemma put_turn_self:
  assumes "distinct (map tt_id ts)" and "t \<in> set ts"
  shows "put_turn t ts = ts"
proof -
  have "(if tt_id u = tt_id t then t else u) = u" if "u \<in> set ts" for u
    using that assms by (auto simp: distinct_map inj_on_def)
  then show ?thesis unfolding put_turn_def by (intro map_idI) auto
qed

lemma add_book_Nil [simp]: "add_book sid [] b = b"
  by (auto simp: add_book_def)

lemma world_same [simp]:
  "w\<lparr>w_mgr := m, w_turns := w_turns w, w_handed := h\<rparr> = w\<lparr>w_mgr := m, w_handed := h\<rparr>"
  "w\<lparr>w_mgr := m, w_turns := ts, w_handed := w_handed w\<rparr> = w\<lparr>w_mgr := m, w_turns := ts\<rparr>"
  "w\<lparr>w_mgr := m, w_handed := w_handed w\<rparr> = w\<lparr>w_mgr := m\<rparr>"
  "w\<lparr>w_mgr := m, w_turns := ts, w_lost := w_lost w\<rparr> = w\<lparr>w_mgr := m, w_turns := ts\<rparr>"
  by (cases w; simp)+

lemma turn_facts:
  assumes "world_ok w" and "t \<in> set (w_turns w)"
  shows "distinct (map tt_id (w_turns w))" "gmap_ok (mg_sidMeta (w_mgr w))"
    "turn_holds (view (w_mgr w) (tt_sid t)) t" "idle_ok (view (w_mgr w) (tt_sid t))"
    "queue_ok (mg_MaxBatch (w_mgr w)) (view (w_mgr w) (tt_sid t))"
  using assms the_turn[OF assms] world_ok_session[OF assms(1), of "tt_sid t"]
  by (auto simp: world_ok_def ids_ok_def session_ok_def)

lemma step_begin:
  assumes ok: "world_ok w" and t: "t \<in> set (w_turns w)" and ph: "tt_phase t = Spawned"
    and r: "turn_register (tt_id t) (tt_sid t) (w_mgr w) = (alreadyClosing, pre, m')"
  shows "world_ok (w\<lparr>w_mgr := m', w_turns := put_turn (t\<lparr>tt_phase := Running, tt_preTurn := pre,
        tt_cancelled := (tt_cancelled t \<or> alreadyClosing)\<rparr>) (w_turns w)\<rparr>)"
proof -
  note f = turn_facts[OF ok t]
  have c: "alreadyClosing \<longleftrightarrow> v_closing (view (w_mgr w) (tt_sid t)) \<noteq> None"
    using r closing_view[of "w_mgr w" "tt_sid t"] f(5) by (auto simp: turn_register_def queue_ok_def)
  have v: "view m' (tt_sid t) = (view (w_mgr w) (tt_sid t))\<lparr>v_cancel := Some (tt_id t)\<rparr>"
    and o: "\<And>s. s \<noteq> tt_sid t \<Longrightarrow> view m' s = view (w_mgr w) s"
    and m': "mg_busy m' = mg_busy (w_mgr w)" "mg_sidMeta m' = mg_sidMeta (w_mgr w)" "mg_MaxBatch m' = mg_MaxBatch (w_mgr w)"
    using r by (auto simp: turn_register_def view_def)
  show ?thesis
    using step_turn[OF ok t, where t' = "t\<lparr>tt_phase := Running, tt_preTurn := pre, tt_cancelled := (tt_cancelled t \<or> alreadyClosing)\<rparr>"
        and m' = m' and evs = "[]"] f ph m' o c
    by (simp add: v turn_holds_def idle_ok_def queue_ok_def v_queue_def in_run_def)
qed

lemma step_mode:
  assumes ok: "world_ok w" and t: "t \<in> set (w_turns w)"
  shows "world_ok (w\<lparr>w_mgr := OnMode mode (tt_sid t) (tt_token t) (w_mgr w)\<rparr>)"
proof -
  note f = turn_facts[OF ok t]
  obtain meta where meta: "gget (mg_sidMeta (w_mgr w)) (tt_sid t) = Some meta" "sm_turn meta = tt_token t" "sm_Scope meta = tt_scope t"
    using f(3) by (auto simp: turn_holds_def view_def)
  let ?m' = "OnMode mode (tt_sid t) (tt_token t) (w_mgr w)"
  have e: "?m' = (w_mgr w)\<lparr>mg_sidMeta := gput (tt_sid t) (meta\<lparr>sm_mode := mode\<rparr>) (mg_sidMeta (w_mgr w))\<rparr>"
    using meta by (simp add: OnMode_def)
  have v: "view ?m' (tt_sid t) = (view (w_mgr w) (tt_sid t))\<lparr>v_meta := Some (meta\<lparr>sm_mode := mode\<rparr>)\<rparr>"
    and o: "\<And>s. s \<noteq> tt_sid t \<Longrightarrow> view ?m' s = view (w_mgr w) s"
    and m': "mg_busy ?m' = mg_busy (w_mgr w)" "gmap_ok (mg_sidMeta ?m')" "mg_MaxBatch ?m' = mg_MaxBatch (w_mgr w)"
    using f(2) unfolding e by (auto simp: view_def)
  show ?thesis
    using step_turn[OF ok t refl refl m' o, where evs = "[]"] f meta
    by (simp add: v turn_holds_def idle_ok_def queue_ok_def v_queue_def put_turn_self[OF f(1) t])
qed

lemma step_nudge:
  assumes ok: "world_ok w" and t: "t \<in> set (w_turns w)" and ph: "tt_phase t = Running"
    and n: "takeNudge (tt_sid t) (tt_preTurn t) (w_mgr w) = (Some ev, m')"
  shows "world_ok (w\<lparr>w_mgr := m', w_handed := add_book (tt_sid t) [ev] (w_handed w)\<rparr>)"
proof -
  note f = turn_facts[OF ok t]
  obtain q where q: "takeNudge_queue (tt_preTurn t) (queue_of (w_mgr w) (tt_sid t)) = Some (ev, q)"
    using n by (auto simp: takeNudge_def split: option.splits prod.splits)
  obtain a b where ab: "queue_of (w_mgr w) (tt_sid t) = a @ ev # b" "q = a @ b"
    using takeNudge_queue_Some[OF q] by blast
  have nq: "v_queue (view m' (tt_sid t)) = q" and np: "v_pending (view m' (tt_sid t)) \<noteq> Some []"
    using n q by (auto simp: takeNudge_def v_queue_def view_def split: if_splits)
  have v: "\<exists>p x. view m' (tt_sid t) = (view (w_mgr w) (tt_sid t))\<lparr>v_pending := p, v_nudged := x\<rparr>"
    using n q by (auto simp: takeNudge_def view_def)
  then obtain p x where v: "view m' (tt_sid t) = (view (w_mgr w) (tt_sid t))\<lparr>v_pending := p, v_nudged := x\<rparr>" by blast
  have o: "\<And>s. s \<noteq> tt_sid t \<Longrightarrow> view m' s = view (w_mgr w) s"
    and m': "mg_busy m' = mg_busy (w_mgr w)" "gmap_ok (mg_sidMeta m')" "mg_MaxBatch m' = mg_MaxBatch (w_mgr w)"
    using n q f(2) by (auto simp: takeNudge_def view_def)
  have old: "v_queue (view (w_mgr w) (tt_sid t)) = a @ ev # b" using ab by (simp add: queue_view)
  have "turn_holds (view m' (tt_sid t)) t" "idle_ok (view m' (tt_sid t))"
    using f(3,4) ph by (auto simp: v turn_holds_def idle_ok_def)
  moreover have "queue_ok (mg_MaxBatch (w_mgr w)) (view m' (tt_sid t))"
    using f(5) np nq old ab(2) humans_append[of a "ev # b"] humans_append[of "[ev]" b] by (auto simp: queue_ok_def v)
  ultimately show ?thesis
    using step_turn[OF ok t refl refl m' o, where evs = "[ev]"] nq old ab(2)
    by (simp add: put_turn_self[OF f(1) t])
qed

lemma step_return:
  assumes ok: "world_ok w" and t: "t \<in> set (w_turns w)" and ph: "tt_phase t = Running"
  shows "world_ok (w\<lparr>w_mgr := turn_release (tt_sid t) (w_mgr w), w_turns := put_turn (t\<lparr>tt_phase := Returned\<rparr>) (w_turns w),
        w_handed := add_book (tt_sid t) (tt_batch t) (w_handed w)\<rparr>)"
proof -
  note f = turn_facts[OF ok t]
  let ?m' = "turn_release (tt_sid t) (w_mgr w)"
  have v: "view ?m' (tt_sid t) = (view (w_mgr w) (tt_sid t))\<lparr>v_cancel := None\<rparr>"
    and o: "\<And>s. s \<noteq> tt_sid t \<Longrightarrow> view ?m' s = view (w_mgr w) s"
    and m': "mg_busy ?m' = mg_busy (w_mgr w)" "gmap_ok (mg_sidMeta ?m')" "mg_MaxBatch ?m' = mg_MaxBatch (w_mgr w)"
    using f(2) by (auto simp: turn_release_def view_def)
  show ?thesis
    using step_turn[OF ok t _ _ m' o, where t' = "t\<lparr>tt_phase := Returned\<rparr>" and evs = "tt_batch t"] f ph
    by (simp add: v turn_holds_def idle_ok_def queue_ok_def v_queue_def in_run_def)
qed

lemma step_serve:
  assumes ok: "world_ok w" and t: "t \<in> set (w_turns w)" and ph: "tt_phase t = Returned"
  shows "world_ok (w\<lparr>w_mgr := snd (removeServedPending (tt_sid t) (tt_batch t) (w_mgr w)),
        w_turns := put_turn (t\<lparr>tt_phase := Served\<rparr>) (w_turns w)\<rparr>)"
proof -
  note f = turn_facts[OF ok t]
  let ?m' = "snd (removeServedPending (tt_sid t) (tt_batch t) (w_mgr w))"
  have v: "view ?m' (tt_sid t) = (view (w_mgr w) (tt_sid t))\<lparr>v_nudged := None\<rparr>"
    and o: "\<And>s. s \<noteq> tt_sid t \<Longrightarrow> view ?m' s = view (w_mgr w) s"
    and m': "mg_busy ?m' = mg_busy (w_mgr w)" "gmap_ok (mg_sidMeta ?m')" "mg_MaxBatch ?m' = mg_MaxBatch (w_mgr w)"
    using f(2) by (auto simp: removeServedPending_def view_def)
  show ?thesis
    using step_turn[OF ok t _ _ m' o, where t' = "t\<lparr>tt_phase := Served\<rparr>" and evs = "[]"] f ph
    by (simp add: v turn_holds_def idle_ok_def queue_ok_def v_queue_def in_run_def)
qed

text \<open>A turn that ends, without and with a follow-up.\<close>

lemma step_stop:
  assumes ok: "world_ok w" and t: "t \<in> set (w_turns w)"
    and m': "gmap_ok (mg_busy m')" "gmap_ok (mg_sidMeta m')" "mg_MaxBatch m' = mg_MaxBatch (w_mgr w)"
    and other: "\<And>s. s \<noteq> tt_sid t \<Longrightarrow> view m' s = view (w_mgr w) s"
    and here: "session_ok (mg_MaxBatch (w_mgr w)) (w_down w) (view m' (tt_sid t)) []"
    and books: "inflight [t] + mset (v_queue (view (w_mgr w) (tt_sid t))) = mset (v_queue (view m' (tt_sid t))) + mset evs"
  shows "world_ok (w\<lparr>w_mgr := m', w_turns := del_turn t (w_turns w), w_lost := add_book (tt_sid t) evs (w_lost w)\<rparr>)"
    (is "world_ok ?w'")
proof (rule world_ok_update[OF ok, where sid = "tt_sid t"])
  have d: "distinct (map tt_id (w_turns w))" using turn_facts(1)[OF ok t] .
  have one: "turns_at (del_turn t (w_turns w)) (tt_sid t) = []"
    by (rule turns_at_del_only[OF the_turn(1)[OF ok t]])
  show "ids_ok ?w'"
    using ok m' by (auto simp: world_ok_def ids_ok_def del_turn_def distinct_map intro: inj_on_subset)
  show "view (w_mgr ?w') s = view (w_mgr w) s \<and> turns_at (w_turns ?w') s = turns_at (w_turns w) s
      \<and> w_accepted ?w' s = w_accepted w s \<and> w_handed ?w' s = w_handed w s \<and> w_lost ?w' s = w_lost w s"
    if "s \<noteq> tt_sid t" for s
    using that other[OF that] turns_at_del_other[OF d t that] by simp
  show "session_ok (mg_MaxBatch (w_mgr w)) (w_down w) (view (w_mgr ?w') (tt_sid t)) (turns_at (w_turns ?w') (tt_sid t))"
    using one here by simp
  show "books_ok ?w' (tt_sid t)"
    using world_ok_books[OF ok, of "tt_sid t"] one the_turn(1)[OF ok t] books
    by (simp add: books_ok_def ac_simps)
qed (use m' in simp_all)

lemma step_next:
  assumes ok: "world_ok w" and t: "t \<in> set (w_turns w)"
    and m': "gmap_ok (mg_busy m')" "gmap_ok (mg_sidMeta m')" "mg_MaxBatch m' = mg_MaxBatch (w_mgr w)"
    and other: "\<And>s. s \<noteq> tt_sid t \<Longrightarrow> view m' s = view (w_mgr w) s"
    and here: "v_busy (view m' (tt_sid t)) = Some True"
      "\<exists>meta. v_meta (view m' (tt_sid t)) = Some meta \<and> sm_turn meta = token \<and> sm_Scope meta = tt_scope t"
      "v_cancel (view m' (tt_sid t)) = None" "queue_ok (mg_MaxBatch (w_mgr w)) (view m' (tt_sid t))"
    and batch: "nxt \<noteq> []" "single_sender nxt"
    and books: "inflight [t] + mset (v_queue (view (w_mgr w) (tt_sid t)))
       = mset nxt + mset (v_queue (view m' (tt_sid t))) + mset evs"
  shows "world_ok (spawn (tt_sid t) (tt_scope t) token nxt
     (w\<lparr>w_mgr := m', w_turns := del_turn t (w_turns w), w_lost := add_book (tt_sid t) evs (w_lost w)\<rparr>))"
    (is "world_ok ?w'")
proof (rule world_ok_update[OF ok, where sid = "tt_sid t"])
  let ?t' = "\<lparr> tt_id = w_next w, tt_sid = tt_sid t, tt_scope = tt_scope t, tt_token = token, tt_batch = nxt,
     tt_phase = Spawned, tt_preTurn = [], tt_cancelled = w_down w \<rparr>"
  have d: "distinct (map tt_id (w_turns w))" using turn_facts(1)[OF ok t] .
  have ts: "w_turns ?w' = del_turn t (w_turns w) @ [?t']" by (simp add: spawn_def)
  have one: "turns_at (w_turns ?w') (tt_sid t) = [?t']"
    using turns_at_del_only[OF the_turn(1)[OF ok t]] unfolding ts turns_at_append by (simp add: turns_at_def)
  have ids: "ids_ok w" using ok by (simp add: world_ok_def)
  then have di: "distinct (map tt_id (del_turn t (w_turns w)))"
    and lt: "\<And>u. u \<in> set (del_turn t (w_turns w)) \<Longrightarrow> tt_id u < w_next w"
    by (auto simp: ids_ok_def del_turn_def distinct_map intro: inj_on_subset)
  show "ids_ok ?w'" using m' di by (auto simp: ids_ok_def spawn_def less_Suc_eq dest: lt)
  show "view (w_mgr ?w') s = view (w_mgr w) s \<and> turns_at (w_turns ?w') s = turns_at (w_turns w) s
      \<and> w_accepted ?w' s = w_accepted w s \<and> w_handed ?w' s = w_handed w s \<and> w_lost ?w' s = w_lost w s"
    if "s \<noteq> tt_sid t" for s
    using that other[OF that] turns_at_del_other[OF d t that] unfolding ts turns_at_append
    by (simp add: spawn_def) (simp add: turns_at_def)
  show "session_ok (mg_MaxBatch (w_mgr w)) (w_down w) (view (w_mgr ?w') (tt_sid t)) (turns_at (w_turns ?w') (tt_sid t))"
    using here batch unfolding one by (auto simp: spawn_def session_ok_def turn_holds_def idle_ok_def)
  have "w_mgr ?w' = m'" "w_accepted ?w' = w_accepted w" "w_handed ?w' = w_handed w"
    "w_lost ?w' = add_book (tt_sid t) evs (w_lost w)" by (simp_all add: spawn_def)
  then show "books_ok ?w' (tt_sid t)"
    using world_ok_books[OF ok, of "tt_sid t"] one the_turn(1)[OF ok t] books
    by (simp add: books_ok_def in_run_def ac_simps)
qed (use m' in \<open>simp_all add: spawn_def\<close>)

lemma session_ok_cleared:
  "v_busy v = None \<Longrightarrow> v_pending v = None \<Longrightarrow> v_nudged v = None \<Longrightarrow> v_dropped v = None \<Longrightarrow> v_meta v = None \<Longrightarrow>
     v_closing v = None \<Longrightarrow> v_cancel v = None \<Longrightarrow> session_ok B down v []"
  by (simp add: session_ok_def idle_ok_def queue_ok_def v_queue_def humans_def)

lemma view_drain_other:
  "drainSidAfterTurn c sid turn m = (r, m') \<Longrightarrow> s \<noteq> sid \<Longrightarrow> view m' s = view m s"
  by (auto simp: drainSidAfterTurn_def view_def split: if_splits prod.splits)

lemma drain_consts:
  "drainSidAfterTurn c sid turn m = (r, m') \<Longrightarrow> gmap_ok (mg_busy m) \<Longrightarrow> gmap_ok (mg_sidMeta m) \<Longrightarrow>
     gmap_ok (mg_busy m') \<and> gmap_ok (mg_sidMeta m') \<and> mg_MaxBatch m' = mg_MaxBatch m"
  by (auto simp: drainSidAfterTurn_def split: if_splits prod.splits)

lemma maps_ok: "world_ok w \<Longrightarrow> gmap_ok (mg_busy (w_mgr w)) \<and> gmap_ok (mg_sidMeta (w_mgr w))"
  by (simp add: world_ok_def ids_ok_def)

lemma drain_stop_view:
  assumes h: "turn_holds (view m (tt_sid t)) t" and ph: "tt_phase t = Served"
    and i: "idle_ok (view m (tt_sid t))" "queue_ok B (view m (tt_sid t))"
    and d: "drainSidAfterTurn down (tt_sid t) (tt_token t) m = (None, m')"
  shows "session_ok B down (view m' (tt_sid t)) []
    \<and> mset (v_queue (view m (tt_sid t))) = mset (v_queue (view m' (tt_sid t))) + mset (given_up (tt_sid t) m m')"
proof (cases down)
  case True
  then have "m' = m" using d by (simp add: drainSidAfterTurn_def)
  then show ?thesis using True h ph i by (simp add: session_ok_def turn_holds_def given_up_def busy_view)
next
  case False
  note o = owns_holds[OF h]
  have cl: "is_closing m (tt_sid t) \<longleftrightarrow> v_closing (view m (tt_sid t)) \<noteq> None"
    using i(2) by (intro closing_view) (simp add: queue_ok_def)
  have pend: "v_pending (view m (tt_sid t)) \<noteq> Some []" using i(2) by (simp add: queue_ok_def)
  have cleared: "v_busy (view m' (tt_sid t)) = None \<and> v_pending (view m' (tt_sid t)) = None \<and> v_dropped (view m' (tt_sid t)) = None
      \<and> v_meta (view m' (tt_sid t)) = None \<and> v_closing (view m' (tt_sid t)) = None
      \<and> v_nudged (view m' (tt_sid t)) = None \<and> v_cancel (view m' (tt_sid t)) = None"
  proof (cases "is_closing m (tt_sid t)")
    case True
    then have "m' = m\<lparr>mg_pending := gdel (tt_sid t) (mg_pending m), mg_dropped := gdel (tt_sid t) (mg_dropped m),
        mg_busy := gdel (tt_sid t) (mg_busy m), mg_sidMeta := gdel (tt_sid t) (mg_sidMeta m),
        mg_closing := gdel (tt_sid t) (mg_closing m)\<rparr>"
      using d False o by (simp add: drainSidAfterTurn_def)
    then show ?thesis using h ph by (simp add: view_def turn_holds_def)
  next
    case nc: False
    have q: "queue_of m (tt_sid t) = []"
      using d False o nc by (auto simp: drainSidAfterTurn_def split: if_splits prod.splits)
    then have "m' = m\<lparr>mg_busy := gdel (tt_sid t) (mg_busy m), mg_sidMeta := gdel (tt_sid t) (mg_sidMeta m),
        mg_dropped := gdel (tt_sid t) (mg_dropped m)\<rparr>"
      using d False o nc by (simp add: drainSidAfterTurn_def)
    moreover have "gget (mg_pending m) (tt_sid t) = None"
      using q pend by (auto simp: ggetz_def view_def split: option.splits)
    moreover have "gget (mg_closing m) (tt_sid t) = None" using nc cl by (simp add: view_def)
    ultimately show ?thesis using h ph by (simp add: view_def turn_holds_def)
  qed
  moreover have "\<not> is_busy m' (tt_sid t)" using cleared by (simp add: busy_view)
  ultimately show ?thesis
    by (simp add: session_ok_cleared given_up_def queue_view) (simp add: v_queue_def)
qed

lemma step_drain_stop:
  assumes ok: "world_ok w" and t: "t \<in> set (w_turns w)" and ph: "tt_phase t = Served"
    and d: "drainSidAfterTurn (w_down w) (tt_sid t) (tt_token t) (w_mgr w) = (None, m')"
  shows "world_ok (w\<lparr>w_mgr := m', w_turns := del_turn t (w_turns w),
        w_lost := add_book (tt_sid t) (given_up (tt_sid t) (w_mgr w) m') (w_lost w)\<rparr>)"
proof -
  note f = turn_facts[OF ok t] and c = drain_consts[OF d] and mo = maps_ok[OF ok]
  show ?thesis
    using drain_stop_view[OF f(3) ph f(4,5) d] c mo ph
    by (intro step_stop[OF ok t] view_drain_other[OF d]) (simp_all add: in_run_def)
qed

lemma pick_queue_ok:
  assumes "pickNextDrainBatch q d = (nxt, rem, d')" and "humans q \<le> B"
  shows "humans rem \<le> B"
proof (cases "q = []")
  case False
  from drain.rest_count[OF pick_taken[OF assms(1) False], of "\<lambda>e. \<not> IsInternal e"] show ?thesis
    using assms(2) by (simp add: humans_def)
qed (use assms in \<open>simp add: pickNextDrainBatch_def\<close>)

lemma pick_single: "pickNextDrainBatch q d = (nxt, rem, d') \<Longrightarrow> single_sender nxt"
  unfolding single_sender_def by (blast intro: pick_single_sender)

lemma step_drain_next:
  assumes ok: "world_ok w" and t: "t \<in> set (w_turns w)" and ph: "tt_phase t = Served"
    and d: "drainSidAfterTurn (w_down w) (tt_sid t) (tt_token t) (w_mgr w) = (Some (nxt, hadDrops), m')"
  shows "world_ok (spawn (tt_sid t) (tt_scope t) (tt_token t) nxt (w\<lparr>w_mgr := m', w_turns := del_turn t (w_turns w)\<rparr>))"
proof -
  note f = turn_facts[OF ok t] and c = drain_consts[OF d] and mo = maps_ok[OF ok]
  let ?m = "w_mgr w" and ?sid = "tt_sid t"
  have pre: "\<not> w_down w" "\<not> is_closing ?m ?sid" "queue_of ?m ?sid \<noteq> []"
    using d owns_holds[OF f(3)] by (auto simp: drainSidAfterTurn_def split: if_splits prod.splits)
  obtain rem where p: "pickNextDrainBatch (queue_of ?m ?sid) (was_dropped ?m ?sid) = (nxt, rem, hadDrops)"
    and m': "m' = (if rem = [] then ?m\<lparr>mg_pending := gdel ?sid (mg_pending ?m), mg_dropped := gdel ?sid (mg_dropped ?m)\<rparr>
              else ?m\<lparr>mg_pending := gput ?sid rem (mg_pending ?m)\<rparr>)"
    using d pre owns_holds[OF f(3)] by (auto simp: drainSidAfterTurn_def split: if_splits prod.splits)
  have q: "v_queue (view m' ?sid) = rem" "v_pending (view m' ?sid) \<noteq> Some []" "v_closing (view m' ?sid) = v_closing (view ?m ?sid)"
      "v_busy (view m' ?sid) = v_busy (view ?m ?sid)" "v_meta (view m' ?sid) = v_meta (view ?m ?sid)"
      "v_cancel (view m' ?sid) = v_cancel (view ?m ?sid)"
    by (auto simp: m' v_queue_def view_def)
  have nxt: "nxt \<noteq> []" using pick_nonempty[OF pre(3), of "was_dropped ?m ?sid"] p by simp
  have "world_ok (spawn ?sid (tt_scope t) (tt_token t) nxt
     (w\<lparr>w_mgr := m', w_turns := del_turn t (w_turns w), w_lost := add_book ?sid [] (w_lost w)\<rparr>))"
    using f(3,5) ph c mo q pick_queue_ok[OF p] pick_mset[OF p]
    by (intro step_next[OF ok t] view_drain_other[OF d] nxt pick_single[OF p])
      (auto simp: turn_holds_def queue_ok_def queue_view in_run_def)
  then show ?thesis by simp
qed

lemma view_recover_other:
  "recoverTurn c now scope sid turn m = (r, m') \<Longrightarrow> s \<noteq> sid \<Longrightarrow> view m' s = view m s"
  by (auto simp: recoverTurn_def Let_def view_def split: if_splits prod.splits)

lemma recover_consts:
  "recoverTurn c now scope sid turn m = (r, m') \<Longrightarrow> gmap_ok (mg_busy m) \<Longrightarrow> gmap_ok (mg_sidMeta m) \<Longrightarrow>
     gmap_ok (mg_busy m') \<and> gmap_ok (mg_sidMeta m') \<and> mg_MaxBatch m' = mg_MaxBatch m"
  by (auto simp: recoverTurn_def Let_def split: if_splits prod.splits)

lemma step_panic_stop:
  assumes ok: "world_ok w" and t: "t \<in> set (w_turns w)"
    and r: "recoverTurn (w_down w) now (tt_scope t) (tt_sid t) (tt_token t) (w_mgr w) = (None, m')"
  shows "world_ok (w\<lparr>w_mgr := m', w_turns := del_turn t (w_turns w),
        w_lost := add_book (tt_sid t) ((if in_run t then tt_batch t else []) @ given_up (tt_sid t) (w_mgr w) m') (w_lost w)\<rparr>)"
proof -
  note f = turn_facts[OF ok t] and c = recover_consts[OF r] and mo = maps_ok[OF ok]
  have o: "owns (tt_sid t) (tt_token t) ((w_mgr w)\<lparr>mg_cancels := gdel (tt_sid t) (mg_cancels (w_mgr w))\<rparr>)"
    using owns_holds[OF f(3)] by (simp add: owns_def)
  have cleared: "v_busy (view m' (tt_sid t)) = None" "v_pending (view m' (tt_sid t)) = None" "v_dropped (view m' (tt_sid t)) = None"
      "v_meta (view m' (tt_sid t)) = None" "v_closing (view m' (tt_sid t)) = None"
      "v_nudged (view m' (tt_sid t)) = None" "v_cancel (view m' (tt_sid t)) = None"
    using r o by (auto simp: recoverTurn_def Let_def view_def split: if_splits prod.splits)
  have "v_queue (view m' (tt_sid t)) = []" "given_up (tt_sid t) (w_mgr w) m' = v_queue (view (w_mgr w) (tt_sid t))"
    using cleared by (simp_all add: given_up_def busy_view queue_view) (simp add: v_queue_def)
  then show ?thesis
    using cleared c mo by (intro step_stop[OF ok t] view_recover_other[OF r] session_ok_cleared) simp_all
qed

lemma step_panic_next:
  assumes ok: "world_ok w" and t: "t \<in> set (w_turns w)"
    and r: "recoverTurn (w_down w) now (tt_scope t) (tt_sid t) (tt_token t) (w_mgr w) = (Some (redispatch, hadDrops, token), m')"
  shows "world_ok (spawn (tt_sid t) (tt_scope t) token redispatch (w\<lparr>w_mgr := m', w_turns := del_turn t (w_turns w),
        w_lost := add_book (tt_sid t) (if in_run t then tt_batch t else []) (w_lost w)\<rparr>))"
proof -
  note f = turn_facts[OF ok t] and c = recover_consts[OF r] and mo = maps_ok[OF ok]
  let ?m = "w_mgr w" and ?sid = "tt_sid t"
  have o: "owns ?sid (tt_token t) (?m\<lparr>mg_cancels := gdel ?sid (mg_cancels ?m)\<rparr>)"
    using owns_holds[OF f(3)] by (simp add: owns_def)
  have ne: "queue_of ?m ?sid \<noteq> []" using r o by (auto simp: recoverTurn_def Let_def split: if_splits prod.splits)
  obtain rem where p: "pickNextDrainBatch (queue_of ?m ?sid) (was_dropped ?m ?sid) = (redispatch, rem, hadDrops)"
    and v: "v_busy (view m' ?sid) = Some True" "v_meta (view m' ?sid) = Some \<lparr> sm_Scope = tt_scope t, sm_StartedAt = now, sm_turn = token, sm_mode = [] \<rparr>"
      "v_cancel (view m' ?sid) = None" "v_pending (view m' ?sid) = (if rem \<noteq> [] then Some rem else None)"
      "v_closing (view m' ?sid) = None"
    using r o by (auto simp: recoverTurn_def Let_def view_def split: if_splits prod.splits)
  have q: "v_queue (view m' ?sid) = rem" using v(4) by (simp add: v_queue_def)
  have nxt: "redispatch \<noteq> []" using pick_nonempty[OF ne, of "was_dropped ?m ?sid"] p by simp
  show ?thesis
    using f(5) c mo v q pick_queue_ok[OF p] pick_mset[OF p]
    by (intro step_next[OF ok t] view_recover_other[OF r] nxt pick_single[OF p])
      (auto simp: queue_ok_def queue_view)
qed

text \<open>The closing command and shutdown cancel turns without ending them.\<close>

definition cancel_some :: "(turn \<Rightarrow> bool) \<Rightarrow> turn \<Rightarrow> turn" where
  "cancel_some P u = (if P u then u\<lparr>tt_cancelled := True\<rparr> else u)"

lemma cancel_some_simps [simp]:
  "tt_id (cancel_some P u) = tt_id u" "tt_sid (cancel_some P u) = tt_sid u" "tt_scope (cancel_some P u) = tt_scope u"
  "tt_token (cancel_some P u) = tt_token u" "tt_batch (cancel_some P u) = tt_batch u"
  "tt_phase (cancel_some P u) = tt_phase u" "tt_cancelled (cancel_some P u) \<longleftrightarrow> tt_cancelled u \<or> P u"
  "in_run (cancel_some P u) = in_run u"
  by (simp_all add: cancel_some_def in_run_def)

lemma turns_at_cancel: "turns_at (map (cancel_some P) ts) s = map (cancel_some P) (turns_at ts s)"
  by (simp add: turns_at_def filter_map comp_def)

lemma inflight_cancel [simp]: "inflight (map (cancel_some P) ts) = inflight ts"
  by (induction ts) simp_all

lemma ids_cancel: "map tt_id (map (cancel_some P) ts) = map tt_id ts"
  by simp

lemma session_ok_cancel:
  assumes "session_ok B down v ts"
  shows "session_ok B (down \<or> down') v (map (cancel_some P) ts)"
  using assms by (auto simp: session_ok_def turn_holds_def split: list.splits)

text \<open>Cancelling turns, by itself, keeps every session in order.\<close>

lemma world_ok_cancel:
  assumes "world_ok w"
  shows "world_ok (w\<lparr>w_down := (w_down w \<or> d), w_turns := map (cancel_some P) (w_turns w)\<rparr>)"
  using assms session_ok_cancel
  by (auto simp: world_ok_def ids_ok_def books_ok_def turns_at_cancel comp_def)

lemma step_shutdown:
  assumes "world_ok w"
  shows "world_ok (w\<lparr>w_down := True, w_turns := map (\<lambda>u. u\<lparr>tt_cancelled := True\<rparr>) (w_turns w)\<rparr>)"
  using world_ok_cancel[OF assms, where d = True and P = "\<lambda>_. True"] by (simp add: cancel_some_def[abs_def])

lemma closed_session_ok:
  assumes "session_ok B down v ts" and "v_busy v = Some True"
  shows "session_ok B down (v\<lparr>v_closing := Some True\<rparr>) (map (cancel_some (\<lambda>u. v_cancel v = Some (tt_id u))) ts)"
  using assms
  by (auto simp: session_ok_def turn_holds_def idle_ok_def queue_ok_def v_queue_def split: list.splits)

lemma step_close:
  assumes ok: "world_ok w" and c: "slashCloseSession scope (w_mgr w) = (r, m')"
  shows "world_ok (w\<lparr>w_mgr := m', w_turns := (case r of
        Some (_, Some i) \<Rightarrow> map (\<lambda>u. if tt_id u = i then u\<lparr>tt_cancelled := True\<rparr> else u) (w_turns w)
      | _ \<Rightarrow> w_turns w)\<rparr>)" (is "world_ok ?w'")
proof (cases r)
  case None
  then have v: "view m' s = view (w_mgr w) s" and m': "mg_busy m' = mg_busy (w_mgr w)" "mg_sidMeta m' = mg_sidMeta (w_mgr w)"
      "mg_MaxBatch m' = mg_MaxBatch (w_mgr w)" for s
    using c by (auto simp: slashCloseSession_def Let_def view_def split: option.splits)
  show ?thesis using ok None v m' by (simp add: world_ok_def ids_ok_def books_ok_def)
next
  case (Some a)
  obtain target i where a: "a = (target, i)" by (cases a)
  obtain meta where fnd: "find (\<lambda>(sid, meta). sm_Scope meta = scope \<and> is_busy (w_mgr w) sid) (mg_sidMeta (w_mgr w)) = Some (target, meta)"
    and i: "i = gget (mg_cancels (w_mgr w)) target"
    using c Some a by (auto simp: slashCloseSession_def Let_def split: option.splits prod.splits)
  have busy: "v_busy (view (w_mgr w) target) = Some True"
    using find_Some_mem[OF fnd] by (simp add: busy_view)
  have m': "mg_busy m' = mg_busy (w_mgr w)" "mg_sidMeta m' = mg_sidMeta (w_mgr w)" "mg_MaxBatch m' = mg_MaxBatch (w_mgr w)"
    and vt: "view m' target = (view (w_mgr w) target)\<lparr>v_closing := Some True\<rparr>"
    and vo: "\<And>s. s \<noteq> target \<Longrightarrow> view m' s = view (w_mgr w) s"
    using c fnd by (auto simp: slashCloseSession_def Let_def view_def)
  let ?P = "\<lambda>u. v_cancel (view (w_mgr w) target) = Some (tt_id u)"
  have ts: "w_turns ?w' = map (cancel_some ?P) (w_turns w)"
    using Some a i by (auto simp: view_def cancel_some_def split: option.split intro: map_idI[symmetric])
  have so: "session_ok (mg_MaxBatch (w_mgr w)) (w_down w) (view (w_mgr w) target) (turns_at (w_turns w) target)"
    by (rule world_ok_session[OF ok])
  have only: "\<not> ?P u" if "u \<in> set (w_turns w)" "tt_sid u \<noteq> target" for u
  proof
    assume p: "?P u"
    then obtain t where t: "turns_at (w_turns w) target = [t]" "tt_id t = tt_id u"
      using so by (auto simp: session_ok_def turn_holds_def split: list.splits if_splits)
    have "t \<in> set (turns_at (w_turns w) target)" unfolding t(1) by simp
    then have "t \<in> set (w_turns w)" "tt_sid t = target" by (simp_all add: turns_at_def)
    then have "t = u" using t(2) that(1) turn_facts(1)[OF ok that(1)] by (auto simp: distinct_map inj_on_def)
    then show False using that(2) \<open>tt_sid t = target\<close> by simp
  qed
  show ?thesis
  proof (rule world_ok_update[OF ok, where sid = target])
    show "mg_MaxBatch (w_mgr ?w') = mg_MaxBatch (w_mgr w)" "w_down ?w' = w_down w" using m' by simp_all
    show "ids_ok ?w'" using ok m' unfolding world_ok_def ids_ok_def ts by (auto simp: comp_def)
    show "view (w_mgr ?w') s = view (w_mgr w) s \<and> turns_at (w_turns ?w') s = turns_at (w_turns w) s
        \<and> w_accepted ?w' s = w_accepted w s \<and> w_handed ?w' s = w_handed w s \<and> w_lost ?w' s = w_lost w s"
      if "s \<noteq> target" for s
    proof -
      have "cancel_some ?P u = u" if "u \<in> set (turns_at (w_turns w) s)" for u
        using that only[of u] \<open>s \<noteq> target\<close> by (auto simp: turns_at_def cancel_some_def)
      then have "turns_at (w_turns ?w') s = turns_at (w_turns w) s"
        unfolding ts turns_at_cancel by (intro map_idI) auto
      then show ?thesis using vo[OF that] by simp
    qed
    show "session_ok (mg_MaxBatch (w_mgr w)) (w_down w) (view (w_mgr ?w') target) (turns_at (w_turns ?w') target)"
      unfolding ts turns_at_cancel using closed_session_ok[OF so busy] vt by simp
    show "books_ok ?w' target"
      using world_ok_books[OF ok, of target] unfolding books_ok_def ts turns_at_cancel inflight_cancel
      by (simp add: vt v_queue_def)
  qed
qed

subsection \<open>The invariant\<close>

lemma world_ok_init: "world_ok (world_init n)"
  by (simp add: world_ok_def ids_ok_def world_init_def NewManager_def session_ok_def idle_ok_def queue_ok_def
      books_ok_def view_def turns_at_def v_queue_def humans_def)

lemma world_ok_step: "arb_step w w' \<Longrightarrow> world_ok w \<Longrightarrow> world_ok w'"
proof (induction rule: arb_step.induct)
  case Submit then show ?case using step_submit by blast
next
  case Begin then show ?case using step_begin by blast
next
  case Mode then show ?case using step_mode by blast
next
  case Nudge then show ?case using step_nudge by blast
next
  case Return then show ?case using step_return by blast
next
  case Serve then show ?case using step_serve by blast
next
  case Drain_stop then show ?case using step_drain_stop by blast
next
  case Drain_next then show ?case using step_drain_next by blast
next
  case Panic_stop then show ?case using step_panic_stop by blast
next
  case Panic_next then show ?case using step_panic_next by blast
next
  case Close then show ?case using step_close by blast
next
  case Shutdown then show ?case using step_shutdown by blast
qed

lemma reach_ok: "arb_reach n w \<Longrightarrow> world_ok w"
  by (induction rule: arb_reach.induct) (auto intro: world_ok_init world_ok_step)

lemma maxbatch_step: "arb_step w w' \<Longrightarrow> mg_MaxBatch (w_mgr w') = mg_MaxBatch (w_mgr w)"
  by (induction rule: arb_step.induct)
    (auto simp: submit_dispatch_def after_submit_def spawn_def turn_register_def OnMode_def takeNudge_def turn_release_def
      removeServedPending_def drainSidAfterTurn_def recoverTurn_def slashCloseSession_def Let_def
      split: if_splits prod.splits option.splits dispatch.splits)

lemma reach_maxbatch: "arb_reach n w \<Longrightarrow> mg_MaxBatch (w_mgr w) = clamped n"
  by (induction rule: arb_reach.induct) (simp_all add: world_init_def NewManager_def maxbatch_step)

end
