(* ===== verification/Session_Guarantees.thy ===== *)
theory Session_Guarantees
  imports Session_Protocol
begin

section \<open>What the arbiter guarantees\<close>

text \<open>
  The consequences of the invariant of \<^verbatim>\<open>Session_Protocol\<close> for every reachable state of the
  arbiter: mutual exclusion of the turns of a session, conservation of messages, bounds, absence of
  stranded work, and the end of every chain of follow-up turns.
\<close>

subsection \<open>A run for the witnesses\<close>

text \<open>Two messages of one session: the first starts a turn, the second waits for it.\<close>

definition demo_ev :: "string \<Rightarrow> message_event" where
  "demo_ev i = zero_event\<lparr>ev_Source := ''tg'', ev_UserID := ''u'', ev_MessageID := i, ev_Text := i\<rparr>"

definition demo_submit :: "string \<Rightarrow> arb_world \<Rightarrow> arb_world" where
  "demo_submit i w = (case submit_dispatch 0 (w_mgr w) ''tg:dm:1'' ''s'' (demo_ev i) of
     (d, m') \<Rightarrow> after_submit ''tg:dm:1'' ''s'' (demo_ev i) d (w\<lparr>w_mgr := m'\<rparr>))"

definition demo_world :: arb_world where
  "demo_world = demo_submit ''2'' (demo_submit ''1'' (world_init 0))"

definition demo_turn :: turn where
  "demo_turn = \<lparr> tt_id = 0, tt_sid = ''s'', tt_scope = ''tg:dm:1'', tt_token = 1, tt_batch = [demo_ev ''1''],
     tt_phase = Spawned, tt_preTurn = [], tt_cancelled = False \<rparr>"

lemma demo_submit_step: "arb_step w (demo_submit i w)"
proof -
  obtain d m' where "submit_dispatch 0 (w_mgr w) ''tg:dm:1'' ''s'' (demo_ev i) = (d, m')" by force
  from arb_step.Submit[OF this] this show ?thesis by (simp add: demo_submit_def)
qed

lemma demo_reach: "arb_reach 0 demo_world"
  unfolding demo_world_def by (intro arb_reach.next_step[OF _ demo_submit_step] arb_reach.start)

lemma demo_state:
  "w_turns demo_world = [demo_turn]" "gget (mg_pending (w_mgr demo_world)) ''s'' = Some [demo_ev ''2'']"
  "w_down demo_world = False" "mg_closing (w_mgr demo_world) = []"
  by (simp_all add: demo_world_def demo_submit_def world_init_def NewManager_def clamped_def submit_dispatch_def
      after_submit_def spawn_def demo_turn_def demo_ev_def zero_event_def queueDedup_def queueContent_def Let_def ggetz_def
      IsInternal_def IsInternalSource_def)

subsection \<open>One turn at a time\<close>

lemma turns_sid_distinct:
  assumes "\<And>s. length (turns_at ts s) \<le> 1"
  shows "distinct (map tt_sid ts)"
  using assms
proof (induction ts)
  case (Cons t ts)
  have "turns_at ts (tt_sid t) = []" using Cons.prems[of "tt_sid t"] by (simp add: turns_at_def)
  then have "tt_sid t \<notin> set (map tt_sid ts)" by (auto simp: turns_at_def filter_empty_conv)
  moreover have "length (turns_at ts s) \<le> 1" for s
    using Cons.prems[of s] by (simp add: turns_at_def split: if_splits)
  ultimately show ?case using Cons.IH by simp
qed simp

lemma world_turns_distinct: "world_ok w \<Longrightarrow> distinct (map tt_sid (w_turns w))"
proof (rule turns_sid_distinct)
  fix s assume "world_ok w"
  from world_ok_session[OF this, of s] show "length (turns_at (w_turns w) s) \<le> 1"
    by (auto simp: session_ok_def split: list.splits)
qed

text \<open>C3. A session runs one turn at a time: whatever the interleaving of submissions, follow-up turns,
  panics, closes and shutdown, no two turns of one session are ever alive together, and the turn that
  is alive holds the session, its busy mark and its token, so that its drain and its panic recovery
  act on its own session and never on a successor's.\<close>

theorem one_turn_per_session:
  assumes "arb_reach n w"
  shows "distinct (map tt_sid (w_turns w))
    \<and> list_all (\<lambda>t. is_busy (w_mgr w) (tt_sid t) \<and> owns (tt_sid t) (tt_token t) (w_mgr w)) (w_turns w)"
proof -
  note ok = reach_ok[OF assms]
  have "is_busy (w_mgr w) (tt_sid t) \<and> owns (tt_sid t) (tt_token t) (w_mgr w)" if "t \<in> set (w_turns w)" for t
    using the_turn(2)[OF ok that] owns_holds by (auto simp: busy_view turn_holds_def)
  then show ?thesis using world_turns_distinct[OF ok] by (simp add: list_all_iff)
qed

theorem one_turn_per_session_witness:
  "distinct (map tt_sid (w_turns demo_world)) \<and> owns ''s'' 1 (w_mgr demo_world)"
  using one_turn_per_session[OF demo_reach] by (simp add: demo_state demo_turn_def)

text \<open>C4. No message is lost or doubled: at every moment the messages accepted for a session are
  exactly those of its running turn, those queued, those handed to a turn that returned or pulled in
  by a nudge, and those given up by a close or a panic, each counted as often as it was accepted.\<close>

theorem messages_conserved:
  assumes "arb_reach n w"
  shows "w_accepted w sid = inflight (turns_at (w_turns w) sid) + mset (queue_of (w_mgr w) sid)
     + w_handed w sid + w_lost w sid"
  using world_ok_books[OF reach_ok[OF assms], of sid] by (simp add: books_ok_def queue_view)

theorem messages_conserved_witness:
  "w_accepted demo_world ''s'' = {# demo_ev ''1'', demo_ev ''2'' #} + w_handed demo_world ''s'' + w_lost demo_world ''s''"
  using messages_conserved[OF demo_reach, of "''s''"]
  by (simp add: demo_state turns_at_def demo_turn_def in_run_def ggetz_def)

text \<open>C38. The queue of a session is bounded: at most the configured number of messages of people (40 by
  default) wait behind a running turn, however many arrive; only internal events, which the program
  itself produces, may exceed it.\<close>

theorem queue_bounded:
  assumes "arb_reach n w"
  shows "humans (queue_of (w_mgr w) sid) \<le> clamped n"
  using world_ok_session[OF reach_ok[OF assms], of sid] reach_maxbatch[OF assms]
  by (simp add: session_ok_def queue_ok_def queue_view)

theorem queue_bounded_witness: "humans (queue_of (w_mgr demo_world) ''s'') \<le> 40"
  using queue_bounded[OF demo_reach, of "''s''"] by (simp add: clamped_def)

text \<open>C34. Nothing is stranded: until shutdown, a session that has queued messages, a drop mark or a
  close in progress has a turn alive that will drain it; and a session that is not busy has no leftover
  of any kind, so it can never be stuck refusing messages.\<close>

theorem nothing_stranded:
  assumes "arb_reach n w" and "\<not> w_down w"
  shows "is_busy (w_mgr w) sid \<and> (\<exists>t. turns_at (w_turns w) sid = [t])
     \<or> view (w_mgr w) sid = \<lparr> v_busy = None, v_pending = None, v_nudged = None, v_dropped = None, v_meta = None,
          v_closing = None, v_cancel = None \<rparr>"
proof -
  have s: "session_ok (mg_MaxBatch (w_mgr w)) False (view (w_mgr w) sid) (turns_at (w_turns w) sid)"
    using world_ok_session[OF reach_ok[OF assms(1)], of sid] assms(2) by simp
  show ?thesis
  proof (cases "turns_at (w_turns w) sid")
    case Nil
    then have "v_busy (view (w_mgr w) sid) = None" "v_cancel (view (w_mgr w) sid) = None" "idle_ok (view (w_mgr w) sid)"
      using s by (simp_all add: session_ok_def)
    then show ?thesis by (cases "view (w_mgr w) sid") (simp add: idle_ok_def)
  next
    case (Cons t ts)
    then have "ts = []" "turn_holds (view (w_mgr w) sid) t" using s by (auto simp: session_ok_def split: list.splits)
    then show ?thesis using Cons by (simp add: busy_view turn_holds_def)
  qed
qed

theorem nothing_stranded_witness:
  "is_busy (w_mgr demo_world) ''s'' \<or> gget (mg_pending (w_mgr demo_world)) ''s'' = None"
  using nothing_stranded[OF demo_reach, of "''s''"] by (auto simp: demo_state view_def)

text \<open>C24. A close is never missed: a turn whose session is closing is cancelled from the moment it
  runs, also when the close arrives between the claim of the session and the registration of the
  turn's cancel function.\<close>

theorem close_never_missed:
  assumes "arb_reach n w" and "t \<in> set (w_turns w)" and "tt_phase t = Running" and "is_closing (w_mgr w) (tt_sid t)"
  shows "tt_cancelled t"
proof -
  have "v_closing (view (w_mgr w) (tt_sid t)) \<noteq> None"
    using assms(4) by (auto simp: ggetz_def view_def split: option.splits)
  then show ?thesis using the_turn(2)[OF reach_ok[OF assms(1)] assms(2)] assms(3) by (simp add: turn_holds_def)
qed

text \<open>The race of the witness: the session is closed while its turn has not yet registered.\<close>

definition demo_closed :: arb_world where
  "demo_closed = demo_world\<lparr>w_mgr := snd (slashCloseSession ''tg:dm:1'' (w_mgr demo_world))\<rparr>"

definition demo_started :: arb_world where
  "demo_started = demo_closed\<lparr>w_mgr := snd (snd (turn_register 0 ''s'' (w_mgr demo_closed))),
     w_turns := put_turn (demo_turn\<lparr>tt_phase := Running, tt_preTurn := [''2''], tt_cancelled := True\<rparr>) (w_turns demo_closed)\<rparr>"

lemma demo_close_state:
  "slashCloseSession ''tg:dm:1'' (w_mgr demo_world) = (Some (''s'', None), w_mgr demo_closed)"
  "is_closing (w_mgr demo_closed) ''s''" "w_turns demo_closed = [demo_turn]"
  "queue_of (w_mgr demo_closed) ''s'' = [demo_ev ''2'']"
  by (simp_all add: demo_closed_def slashCloseSession_def demo_world_def demo_submit_def world_init_def NewManager_def
      clamped_def submit_dispatch_def after_submit_def spawn_def demo_turn_def demo_ev_def zero_event_def queueDedup_def
      queueContent_def Let_def ggetz_def IsInternal_def IsInternalSource_def)

lemma demo_started_reach: "arb_reach 0 demo_started"
proof -
  have "arb_step demo_world demo_closed"
    using arb_step.Close[OF demo_close_state(1)] by (simp add: demo_closed_def)
  then have c: "arb_reach 0 demo_closed" by (rule arb_reach.next_step[OF demo_reach])
  have r: "turn_register (tt_id demo_turn) (tt_sid demo_turn) (w_mgr demo_closed)
      = (True, [''2''], snd (snd (turn_register 0 ''s'' (w_mgr demo_closed))))"
    using demo_close_state by (simp add: turn_register_def demo_turn_def preTurn_ids_def demo_ev_def)
  have "arb_step demo_closed demo_started"
    using arb_step.Begin[OF _ _ r] demo_close_state(3) by (simp add: demo_started_def) (simp add: demo_turn_def)
  then show ?thesis by (rule arb_reach.next_step[OF c])
qed

theorem close_never_missed_witness: "tt_cancelled (hd (w_turns demo_started))"
proof -
  let ?t = "demo_turn\<lparr>tt_phase := Running, tt_preTurn := [''2''], tt_cancelled := True\<rparr>"
  have "w_turns demo_started = [?t]"
    using demo_close_state(3) by (simp add: demo_started_def put_turn_def demo_turn_def)
  moreover have "is_closing (w_mgr demo_started) (tt_sid ?t)"
    using demo_close_state(2) by (simp add: demo_started_def turn_register_def demo_turn_def)
  ultimately show ?thesis using close_never_missed[OF demo_started_reach, of ?t] by simp
qed

subsection \<open>The chain of follow-up turns ends\<close>

text \<open>The next step of a turn that neither panics nor takes a nudge.\<close>

definition advance :: "turn \<Rightarrow> arb_world \<Rightarrow> arb_world" where
  "advance t w =
     (case tt_phase t of
        Spawned \<Rightarrow>
          (case turn_register (tt_id t) (tt_sid t) (w_mgr w) of
             (alreadyClosing, pre, m') \<Rightarrow> w\<lparr>w_mgr := m', w_turns := put_turn (t\<lparr>tt_phase := Running, tt_preTurn := pre,
                tt_cancelled := (tt_cancelled t \<or> alreadyClosing)\<rparr>) (w_turns w)\<rparr>)
      | Running \<Rightarrow> w\<lparr>w_mgr := turn_release (tt_sid t) (w_mgr w), w_turns := put_turn (t\<lparr>tt_phase := Returned\<rparr>) (w_turns w),
            w_handed := add_book (tt_sid t) (tt_batch t) (w_handed w)\<rparr>
      | Returned \<Rightarrow> w\<lparr>w_mgr := snd (removeServedPending (tt_sid t) (tt_batch t) (w_mgr w)),
            w_turns := put_turn (t\<lparr>tt_phase := Served\<rparr>) (w_turns w)\<rparr>
      | Served \<Rightarrow>
          (case drainSidAfterTurn (w_down w) (tt_sid t) (tt_token t) (w_mgr w) of
             (None, m') \<Rightarrow> w\<lparr>w_mgr := m', w_turns := del_turn t (w_turns w),
                w_lost := add_book (tt_sid t) (given_up (tt_sid t) (w_mgr w) m') (w_lost w)\<rparr>
           | (Some (nxt, _), m') \<Rightarrow> spawn (tt_sid t) (tt_scope t) (tt_token t) nxt
                (w\<lparr>w_mgr := m', w_turns := del_turn t (w_turns w)\<rparr>)))"

lemma advance_step: "t \<in> set (w_turns w) \<Longrightarrow> arb_step w (advance t w)"
  by (auto simp: advance_def split: phase.split prod.split option.split
      intro: arb_step.Begin arb_step.Return arb_step.Serve arb_step.Drain_stop arb_step.Drain_next)

fun phase_rank :: "phase \<Rightarrow> nat" where
  "phase_rank Spawned = 4" | "phase_rank Running = 3" | "phase_rank Returned = 2" | "phase_rank Served = 1"

definition chain :: "arb_world \<Rightarrow> string \<Rightarrow> nat" where
  "chain w sid = 4 * length (queue_of (w_mgr w) sid) + (case turns_at (w_turns w) sid of [] \<Rightarrow> 0 | t # _ \<Rightarrow> phase_rank (tt_phase t))"

lemma advance_down [simp]: "w_down (advance t w) = w_down w"
  by (simp add: advance_def spawn_def split: phase.split prod.split option.split)

lemma advance_accepted [simp]: "w_accepted (advance t w) = w_accepted w"
  by (simp add: advance_def spawn_def split: phase.split prod.split option.split)

lemma advance_put_turns:
  assumes "world_ok w" and "t \<in> set (w_turns w)" and "tt_id t' = tt_id t" and "tt_sid t' = tt_sid t"
  shows "turns_at (put_turn t' (w_turns w)) (tt_sid t) = [t']"
  using turns_at_put[OF turn_facts(1)[OF assms(1,2)] assms(2-4), of "tt_sid t"] the_turn(1)[OF assms(1,2)] by simp

text \<open>Each step brings the session nearer to rest, and gives no message up unless it is closing.\<close>

lemma advance_chain:
  assumes ok: "world_ok w" and t: "t \<in> set (w_turns w)" and up: "\<not> w_down w"
  shows "chain (advance t w) (tt_sid t) < chain w (tt_sid t)"
proof -
  note one = the_turn(1)[OF ok t] and put = advance_put_turns[OF ok t]
  show ?thesis
  proof (cases "tt_phase t")
    case Spawned
    then show ?thesis using one put by (simp add: chain_def advance_def turn_register_def)
  next
    case Running
    then show ?thesis using one put by (simp add: chain_def advance_def turn_release_def)
  next
    case Returned
    then show ?thesis using one put by (simp add: chain_def advance_def removeServedPending_def)
  next
    case Served
    note del = turns_at_del_only[OF one]
    obtain r m' where d: "drainSidAfterTurn (w_down w) (tt_sid t) (tt_token t) (w_mgr w) = (r, m')" by force
    show ?thesis
    proof (cases r)
      case None
      have "length (queue_of m' (tt_sid t)) \<le> length (queue_of (w_mgr w) (tt_sid t))"
        using d None by (auto simp: drainSidAfterTurn_def split: if_splits prod.splits)
      then show ?thesis using Served None d del one by (simp add: chain_def advance_def)
    next
      case (Some a)
      obtain nxt h where a: "a = (nxt, h)" by (cases a)
      obtain rem where p: "pickNextDrainBatch (queue_of (w_mgr w) (tt_sid t)) (was_dropped (w_mgr w) (tt_sid t)) = (nxt, rem, h)"
        and q: "queue_of m' (tt_sid t) = rem" and ne: "queue_of (w_mgr w) (tt_sid t) \<noteq> []"
        using d Some a by (auto simp: drainSidAfterTurn_def split: if_splits prod.splits)
      from pick_shrinks[OF p ne] show ?thesis
        using Served Some a d del one q by (simp add: chain_def advance_def spawn_def turns_at_append) (simp add: turns_at_def)
    qed
  qed
qed

lemma advance_calm:
  assumes ok: "world_ok w" and t: "t \<in> set (w_turns w)" and up: "\<not> w_down w" and nc: "\<not> is_closing (w_mgr w) (tt_sid t)"
  shows "w_lost (advance t w) = w_lost w \<and> \<not> is_closing (w_mgr (advance t w)) (tt_sid t)"
proof (cases "tt_phase t")
  case Served
  obtain r m' where d: "drainSidAfterTurn (w_down w) (tt_sid t) (tt_token t) (w_mgr w) = (r, m')" by force
  have "mg_closing m' = mg_closing (w_mgr w)"
    using d nc up by (auto simp: drainSidAfterTurn_def split: if_splits prod.splits)
  moreover have "r = None \<Longrightarrow> given_up (tt_sid t) (w_mgr w) m' = []"
    using d nc up owns_holds[OF the_turn(2)[OF ok t]]
    by (auto simp: drainSidAfterTurn_def given_up_def split: if_splits prod.splits)
  ultimately show ?thesis using Served d nc by (cases r) (auto simp: advance_def spawn_def split: prod.split)
qed (use nc in \<open>simp_all add: advance_def turn_register_def turn_release_def removeServedPending_def\<close>)

fun run_out :: "nat \<Rightarrow> string \<Rightarrow> arb_world \<Rightarrow> arb_world" where
  "run_out 0 sid w = w"
| "run_out (Suc k) sid w =
     (case turns_at (w_turns w) sid of [] \<Rightarrow> w | t # _ \<Rightarrow> run_out k sid (advance t w))"

lemma turns_at_hd: "turns_at ts sid = t # us \<Longrightarrow> t \<in> set ts \<and> tt_sid t = sid"
proof -
  assume "turns_at ts sid = t # us"
  then have "t \<in> set (turns_at ts sid)" by simp
  then show ?thesis by (simp add: turns_at_def)
qed

lemma run_out_rests:
  assumes "arb_reach n w" and "\<not> w_down w" and "chain w sid \<le> k"
  shows "arb_reach n (run_out k sid w) \<and> \<not> w_down (run_out k sid w) \<and> turns_at (w_turns (run_out k sid w)) sid = []
    \<and> w_accepted (run_out k sid w) = w_accepted w
    \<and> (\<not> is_closing (w_mgr w) sid \<longrightarrow> w_lost (run_out k sid w) = w_lost w)"
  using assms
proof (induction k arbitrary: w)
  case 0
  have "turns_at (w_turns w) sid = []"
  proof (cases "turns_at (w_turns w) sid")
    case (Cons t us)
    then have "phase_rank (tt_phase t) = 0" using 0(3) by (simp add: chain_def)
    then show ?thesis by (cases "tt_phase t") simp_all
  qed
  then show ?case using 0 by simp
next
  case (Suc k)
  show ?case
  proof (cases "turns_at (w_turns w) sid")
    case Nil
    then show ?thesis using Suc.prems by simp
  next
    case (Cons t us)
    then have t: "t \<in> set (w_turns w)" "tt_sid t = sid" using turns_at_hd by blast+
    note ok = reach_ok[OF Suc.prems(1)]
    have r: "arb_reach n (advance t w)" by (rule arb_reach.next_step[OF Suc.prems(1) advance_step[OF t(1)]])
    have "chain (advance t w) sid \<le> k" using advance_chain[OF ok t(1) Suc.prems(2)] Suc.prems(3) t(2) by simp
    from Suc.IH[OF r _ this] show ?thesis
      using Suc.prems(2) Cons advance_calm[OF ok t(1) Suc.prems(2)] t(2) by auto
  qed
qed

text \<open>C19. Every accepted message is answered for: from any moment before shutdown, when the running
  turns of a session return and nothing new arrives, the chain of follow-up turns ends after at most
  four steps per queued message and four for the running turn; the session is then idle with nothing
  left behind, and unless it was being closed every message accepted for it has been handed to a turn,
  none given up on the way.\<close>

theorem session_comes_to_rest:
  assumes "arb_reach n w" and "\<not> w_down w" and "w' = run_out (4 * length (queue_of (w_mgr w) sid) + 4) sid w"
  shows "arb_reach n w' \<and> \<not> is_busy (w_mgr w') sid \<and> queue_of (w_mgr w') sid = [] \<and> turns_at (w_turns w') sid = []
    \<and> (\<not> is_closing (w_mgr w) sid \<longrightarrow> w_lost w' = w_lost w \<and> w_accepted w sid = w_handed w' sid + w_lost w' sid)"
proof -
  have "phase_rank p \<le> 4" for p by (cases p) simp_all
  then have "chain w sid \<le> 4 * length (queue_of (w_mgr w) sid) + 4"
    by (simp add: chain_def split: list.split)
  from run_out_rests[OF assms(1,2) this, folded assms(3)]
  have r: "arb_reach n w'" "\<not> w_down w'" "turns_at (w_turns w') sid = []" "w_accepted w' = w_accepted w"
    and calm: "\<not> is_closing (w_mgr w) sid \<Longrightarrow> w_lost w' = w_lost w" by auto
  have s: "session_ok (mg_MaxBatch (w_mgr w')) False (view (w_mgr w') sid) []"
    using world_ok_session[OF reach_ok[OF r(1)], of sid] r(2,3) by simp
  then have idle: "v_busy (view (w_mgr w') sid) = None" "v_pending (view (w_mgr w') sid) = None"
    by (auto simp: session_ok_def idle_ok_def)
  then have "\<not> is_busy (w_mgr w') sid" "queue_of (w_mgr w') sid = []"
    by (simp_all add: busy_view queue_view) (simp add: v_queue_def)
  moreover have "w_accepted w sid = w_handed w' sid + w_lost w' sid"
    using world_ok_books[OF reach_ok[OF r(1)], of sid] r(3,4) idle by (simp add: books_ok_def v_queue_def)
  ultimately show ?thesis using r calm by simp
qed

theorem session_comes_to_rest_witness:
  "\<not> is_busy (w_mgr (run_out 8 ''s'' demo_world)) ''s''
   \<and> w_handed (run_out 8 ''s'' demo_world) ''s'' + w_lost (run_out 8 ''s'' demo_world) ''s'' = {# demo_ev ''1'', demo_ev ''2'' #}"
proof -
  have "w_accepted demo_world ''s'' = {# demo_ev ''1'', demo_ev ''2'' #}"
    by (simp add: demo_world_def demo_submit_def world_init_def NewManager_def clamped_def submit_dispatch_def
        after_submit_def spawn_def demo_ev_def zero_event_def queueDedup_def queueContent_def Let_def ggetz_def
        IsInternal_def IsInternalSource_def add_book_def)
  then show ?thesis
    using session_comes_to_rest[OF demo_reach _ refl, of "''s''"] by (simp add: demo_state ggetz_def)
qed

subsection \<open>Counting turns\<close>

lemma busy_sids:
  assumes "world_ok w" and "\<not> w_down w"
  shows "set (gkeys (mg_busy (w_mgr w))) = tt_sid ` set (w_turns w)"
proof -
  have "ghas (mg_busy (w_mgr w)) s \<longleftrightarrow> turns_at (w_turns w) s \<noteq> []" for s
    using world_ok_session[OF assms(1), of s] assms(2)
    by (auto simp: ghas_def session_ok_def turn_holds_def view_def split: list.splits)
  then have "s \<in> set (gkeys (mg_busy (w_mgr w))) \<longleftrightarrow> s \<in> tt_sid ` set (w_turns w)" for s
    by (auto simp: ghas_iff turns_at_def filter_empty_conv)
  then show ?thesis by blast
qed

text \<open>The concurrency read is exact: until shutdown, \<^verbatim>\<open>RunningAtScope\<close> is the number of turns
  alive at the scope, so the dispatcher that asks for it never starts a second one on a busy member.\<close>

theorem running_at_scope_exact:
  assumes "arb_reach n w" and "\<not> w_down w" and "scope \<noteq> []"
  shows "RunningAtScope (w_mgr w) scope = length (filter (\<lambda>t. tt_scope t = scope) (w_turns w))"
proof -
  note ok = reach_ok[OF assms(1)]
  let ?m = "w_mgr w" and ?at = "\<lambda>sid. case gget (mg_sidMeta (w_mgr w)) sid of Some meta \<Rightarrow> sm_Scope meta = scope | None \<Rightarrow> False"
  have d: "distinct (map fst (mg_busy ?m))" using maps_ok[OF ok] by simp
  have scope: "?at (tt_sid t) \<longleftrightarrow> tt_scope t = scope" if "t \<in> set (w_turns w)" for t
    using the_turn(2)[OF ok that] by (auto simp: turn_holds_def view_def)
  have "length (filter (\<lambda>(sid, _). ?at sid) (mg_busy ?m)) = length (filter ?at (map fst (mg_busy ?m)))"
    by (simp add: filter_map comp_def case_prod_beta')
  also have "\<dots> = card (set (filter ?at (map fst (mg_busy ?m))))"
    using distinct_card[OF distinct_filter[OF d, of ?at]] by (rule sym)
  also have "set (filter ?at (map fst (mg_busy ?m))) = tt_sid ` set (filter (\<lambda>t. tt_scope t = scope) (w_turns w))"
    using busy_sids[OF ok assms(2)] scope by auto
  also have "card \<dots> = card (set (map tt_sid (filter (\<lambda>t. tt_scope t = scope) (w_turns w))))" by simp
  also have "\<dots> = length (map tt_sid (filter (\<lambda>t. tt_scope t = scope) (w_turns w)))"
    using world_turns_distinct[OF ok] by (intro distinct_card distinct_map_filter)
  finally show ?thesis using assms(3) by (simp add: RunningAtScope_def)
qed

theorem running_at_scope_exact_witness: "RunningAtScope (w_mgr demo_world) ''tg:dm:1'' = 1"
  using running_at_scope_exact[OF demo_reach, of "''tg:dm:1''"] by (simp add: demo_state demo_turn_def)

end
