(* ===== verification/Go_Path.thy ===== *)
theory Go_Path
  imports Prelude
begin

section \<open>Lexical file paths\<close>

text \<open>
  The functions of Go's \<^verbatim>\<open>path/filepath\<close> the code uses on a Unix host: \<^verbatim>\<open>Clean\<close>,
  \<^verbatim>\<open>Join\<close>, \<^verbatim>\<open>Dir\<close>, \<^verbatim>\<open>Base\<close> and \<^verbatim>\<open>Ext\<close>, as the standard library documents them, and the
  algebra of absolute clean paths (\<open>abs_path\<close> of a list of \<open>normal\<close> components) on which the
  confinement theorems rest.
\<close>

fun split_on :: "char \<Rightarrow> string \<Rightarrow> string list" where
  "split_on d [] = [[]]"
| "split_on d (c # s) =
     (if c = d then [] # split_on d s
      else case split_on d s of [] \<Rightarrow> [[c]] | w # ws \<Rightarrow> (c # w) # ws)"

text \<open>One pass over the components; the accumulator holds the output, last component first.\<close>

fun clean_comps :: "bool \<Rightarrow> string list \<Rightarrow> string list \<Rightarrow> string list" where
  "clean_comps rooted out [] = rev out"
| "clean_comps rooted out (c # cs) =
     (if c = [] \<or> c = ''.'' then clean_comps rooted out cs
      else if c = ''..'' then
        (case out of
           [] \<Rightarrow> if rooted then clean_comps rooted [] cs else clean_comps rooted [''..''] cs
         | l # out' \<Rightarrow> if l = ''..'' then clean_comps rooted (''..'' # out) cs
                       else clean_comps rooted out' cs)
      else clean_comps rooted (c # out) cs)"

definition filepath_Clean :: "string \<Rightarrow> string" where
  "filepath_Clean p =
     (if has_prefix p ''/'' then CHR ''/'' # join ''/'' (clean_comps True [] (split_on (CHR ''/'') p))
      else case clean_comps False [] (split_on (CHR ''/'') p) of
             [] \<Rightarrow> ''.''
           | cs \<Rightarrow> join ''/'' cs)"

definition filepath_Join :: "string list \<Rightarrow> string" where
  "filepath_Join elem =
     (case dropWhile (\<lambda>e. e = []) elem of
        [] \<Rightarrow> []
      | es \<Rightarrow> filepath_Clean (join ''/'' es))"

text \<open>The part of a path after its last separator, and the part up to and including it.\<close>

definition after_slash :: "string \<Rightarrow> string" where
  "after_slash p = rev (takeWhile (\<lambda>c. c \<noteq> CHR ''/'') (rev p))"

definition upto_slash :: "string \<Rightarrow> string" where
  "upto_slash p = rev (dropWhile (\<lambda>c. c \<noteq> CHR ''/'') (rev p))"

definition filepath_Dir :: "string \<Rightarrow> string" where
  "filepath_Dir p = filepath_Clean (upto_slash p)"

definition filepath_Base :: "string \<Rightarrow> string" where
  "filepath_Base p =
     (if p = [] then ''.''
      else let q = rev (dropWhile (\<lambda>c. c = CHR ''/'') (rev p))
           in if q = [] then ''/'' else after_slash q)"

definition filepath_Ext :: "string \<Rightarrow> string" where
  "filepath_Ext p =
     (let b = after_slash p
      in if CHR ''.'' \<in> set b then CHR ''.'' # rev (takeWhile (\<lambda>c. c \<noteq> CHR ''.'') (rev b)) else [])"

subsection \<open>Absolute clean paths\<close>

definition normal :: "string \<Rightarrow> bool" where
  "normal c \<longleftrightarrow> c \<noteq> [] \<and> c \<noteq> ''.'' \<and> c \<noteq> ''..'' \<and> CHR ''/'' \<notin> set c"

definition abs_path :: "string list \<Rightarrow> string" where
  "abs_path cs = CHR ''/'' # join ''/'' cs"

lemma normalD: "normal c \<Longrightarrow> c \<noteq> []" "normal c \<Longrightarrow> c \<noteq> ''.''" "normal c \<Longrightarrow> c \<noteq> ''..''" "normal c \<Longrightarrow> CHR ''/'' \<notin> set c"
  by (simp_all add: normal_def)

lemma split_on_ne [simp]: "split_on d s \<noteq> []"
  by (induction s) (auto split: list.splits)

lemma split_on_no_sep: "d \<notin> set s \<Longrightarrow> split_on d s = [s]"
  by (induction s) auto

lemma split_on_append: "d \<notin> set w \<Longrightarrow> split_on d (w @ d # s) = w # split_on d s"
  by (induction w) auto

lemma split_on_mem: "w \<in> set (split_on d s) \<Longrightarrow> d \<notin> set w"
  by (induction s arbitrary: w) (auto split: list.splits if_splits)

lemma split_on_sep_append: "split_on d (s @ d # t) = split_on d s @ split_on d t"
proof (induction s)
  case (Cons c s)
  then show ?case by (cases "split_on d s") auto
qed simp

lemma split_on_join: "cs \<noteq> [] \<Longrightarrow> \<forall>c \<in> set cs. CHR ''/'' \<notin> set c \<Longrightarrow> split_on (CHR ''/'') (join ''/'' cs) = cs"
proof (induction cs rule: induct_list012)
  case (3 a b cs)
  then show ?case using split_on_append[of "CHR ''/''" a "join ''/'' (b # cs)"] by simp
qed (simp_all add: split_on_no_sep)

lemma clean_comps_append_normal:
  "\<forall>c \<in> set cs. normal c \<Longrightarrow> clean_comps r out (cs @ ds) = clean_comps r (rev cs @ out) ds"
  by (induction cs arbitrary: out) (auto simp: normal_def)

lemma clean_comps_normal: "\<forall>c \<in> set cs. normal c \<Longrightarrow> clean_comps r [] cs = cs"
  using clean_comps_append_normal[of cs r "[]" "[]"] by simp

text \<open>Cleaning a rooted path leaves only normal components: no \<^verbatim>\<open>..\<close> survives.\<close>

lemma clean_comps_rooted:
  "\<forall>c \<in> set out. normal c \<Longrightarrow> \<forall>c \<in> set cs. CHR ''/'' \<notin> set c \<Longrightarrow>
     \<forall>c \<in> set (clean_comps True out cs). normal c"
proof (induction cs arbitrary: out)
  case (Cons c cs)
  note IH = Cons.IH
  have cs: "\<forall>c \<in> set cs. CHR ''/'' \<notin> set c" using Cons.prems(2) by simp
  consider "c = [] \<or> c = ''.''" | "c = ''..''" | "normal c" using Cons.prems(2) by (auto simp: normal_def)
  then show ?case
  proof cases
    case 1
    then have "clean_comps True out (c # cs) = clean_comps True out cs" by simp
    with IH[OF Cons.prems(1) cs] show ?thesis by simp
  next
    case 2
    show ?thesis
    proof (cases out)
      case Nil
      with 2 IH[OF _ cs, of "[]"] show ?thesis by simp
    next
      case (Cons l out')
      with Cons.prems(1) have "normal l" "\<forall>c \<in> set out'. normal c" by simp_all
      moreover from \<open>normal l\<close> have "clean_comps True out (c # cs) = clean_comps True out' cs"
        using 2 Cons by (simp add: normalD)
      ultimately show ?thesis using IH[OF _ cs, of out'] by simp
    qed
  next
    case 3
    then have "clean_comps True out (c # cs) = clean_comps True (c # out) cs" by (simp add: normal_def)
    with IH[OF _ cs, of "c # out"] 3 Cons.prems(1) show ?thesis by simp
  qed
qed simp

lemma Clean_rooted:
  "\<exists>cs. filepath_Clean (CHR ''/'' # s) = abs_path cs \<and> (\<forall>c \<in> set cs. normal c)"
proof -
  have "\<forall>c \<in> set (clean_comps True [] (split_on (CHR ''/'') (CHR ''/'' # s))). normal c"
    by (rule clean_comps_rooted) (auto dest: split_on_mem)
  then show ?thesis by (auto simp: filepath_Clean_def abs_path_def)
qed

lemma split_abs_path:
  "\<forall>c \<in> set cs. normal c \<Longrightarrow> split_on (CHR ''/'') (abs_path cs) = [] # (if cs = [] then [[]] else cs)"
  by (auto simp: abs_path_def split_on_join normal_def)

lemma Clean_abs_path [simp]: "\<forall>c \<in> set cs. normal c \<Longrightarrow> filepath_Clean (abs_path cs) = abs_path cs"
  using clean_comps_normal[of cs True] split_abs_path[of cs]
  by (auto simp: filepath_Clean_def abs_path_def)

lemma Join_abs_path:
  assumes "\<forall>c \<in> set rs. normal c" and "\<forall>c \<in> set cs. normal c"
  shows "filepath_Join [abs_path rs, abs_path cs] = abs_path (rs @ cs)"
proof -
  let ?s = "CHR ''/''"
  have "split_on ?s (abs_path rs @ ?s # abs_path cs) = split_on ?s (abs_path rs) @ split_on ?s (abs_path cs)"
    by (rule split_on_sep_append)
  then have "clean_comps True [] (split_on ?s (abs_path rs @ ?s # abs_path cs)) = rs @ cs"
    using assms clean_comps_append_normal[of rs True "[]"] clean_comps_append_normal[of cs True "rev rs" "[]"]
    by (auto simp: split_abs_path)
  then show ?thesis by (simp add: filepath_Join_def filepath_Clean_def abs_path_def)
qed

lemma upto_slash_snoc: "CHR ''/'' \<notin> set w \<Longrightarrow> upto_slash (p @ CHR ''/'' # w) = p @ [CHR ''/'']"
  by (simp add: upto_slash_def dropWhile_append3 dropWhile_append)

lemma abs_path_snoc: "cs \<noteq> [] \<Longrightarrow> abs_path (cs @ [c]) = abs_path cs @ CHR ''/'' # c"
  by (simp add: abs_path_def join_append)

lemma Dir_abs_path:
  assumes "\<forall>c \<in> set cs. normal c"
  shows "filepath_Dir (abs_path cs) = abs_path (butlast cs)"
proof (cases cs rule: rev_cases)
  case Nil
  then show ?thesis by (simp add: abs_path_def filepath_Dir_def upto_slash_def filepath_Clean_def)
next
  case (snoc ds c)
  then have c: "CHR ''/'' \<notin> set c" and ds: "\<forall>c \<in> set ds. normal c" using assms by (auto simp: normal_def)
  show ?thesis
  proof (cases "ds = []")
    case True
    with snoc c upto_slash_snoc[of c "[]"] show ?thesis
      by (simp add: abs_path_def filepath_Dir_def filepath_Clean_def)
  next
    case False
    have "filepath_Clean (abs_path ds @ [CHR ''/'']) = abs_path ds"
      using split_on_sep_append[of "CHR ''/''" "abs_path ds" "[]"] split_abs_path[OF ds] False
        clean_comps_append_normal[OF ds, of True "[]" "[[]]"]
      by (simp add: filepath_Clean_def abs_path_def)
    with snoc False abs_path_snoc[of ds c] upto_slash_snoc[OF c, of "abs_path ds"] show ?thesis
      by (simp add: filepath_Dir_def)
  qed
qed

lemma abs_path_inject:
  assumes "\<forall>c \<in> set cs. normal c" and "\<forall>c \<in> set ds. normal c"
  shows "abs_path cs = abs_path ds \<longleftrightarrow> cs = ds"
proof
  assume e: "abs_path cs = abs_path ds"
  have "(if cs = [] then [[]] else cs) = (if ds = [] then [[]] else ds)"
    using split_abs_path[OF assms(1)] split_abs_path[OF assms(2)] unfolding e by simp
  moreover have "cs \<noteq> [[]]" using assms(1) normalD(1)[of "[]"] by auto
  moreover have "ds \<noteq> [[]]" using assms(2) normalD(1)[of "[]"] by auto
  ultimately show "cs = ds" by (auto split: if_splits)
qed simp

text \<open>Joining normal components under an absolute clean path appends them.\<close>

lemma Join_under:
  assumes "\<forall>c \<in> set hs. normal c" and "\<forall>c \<in> set cs. normal c" and "cs \<noteq> []"
  shows "filepath_Join (abs_path hs # cs) = abs_path (hs @ cs)"
proof -
  let ?s = "CHR ''/''"
  have j: "join ''/'' (abs_path hs # cs) = abs_path hs @ ?s # join ''/'' cs" using assms(3) by (cases cs) auto
  have "split_on ?s (join ''/'' cs) = cs" using assms(2,3) by (intro split_on_join) (auto dest: normalD(4))
  then have "split_on ?s (join ''/'' (abs_path hs # cs)) = [] # (if hs = [] then [[]] else hs) @ cs"
    unfolding j split_on_sep_append split_abs_path[OF assms(1)] by simp
  then have "clean_comps True [] (split_on ?s (join ''/'' (abs_path hs # cs))) = hs @ cs"
    using clean_comps_append_normal[OF assms(1), of True "[]" cs]
      clean_comps_append_normal[OF assms(2), of True "rev hs" "[]"]
      clean_comps_append_normal[OF assms(2), of True "[]" "[]"] by auto
  moreover have "has_prefix (join ''/'' (abs_path hs # cs)) ''/''" unfolding j by (simp add: abs_path_def)
  ultimately show ?thesis by (simp add: filepath_Join_def filepath_Clean_def abs_path_def)
qed

end
