(* ===== verification/Flow_Router.thy ===== *)
theory Flow_Router
  imports Session_Guarantees Go_Path
begin

section \<open>The flow router\<close>

text \<open>
  \<^verbatim>\<open>src/flow/router/10-router.go\<close>: which flow runs a turn and whether its sender may run it, with the
  account it judges by (\<^verbatim>\<open>AccountFor\<close> of \<^verbatim>\<open>src/leaf/accounts/40-binding.go\<close>, \<^verbatim>\<open>EntitledFlows\<close> of
  \<^verbatim>\<open>src/contract/90-accounts.go\<close>). The account store is a function of its answers; a flow is its name, its
  priority, its mode and its test on the work.
\<close>

subsection \<open>Accounts\<close>

record account_info =
  ai_ID :: string
  ai_DisplayName :: string
  ai_Flow :: string
  ai_Status :: string
  ai_FlowKnown :: bool

definition no_account :: account_info where
  "no_account = \<lparr> ai_ID = [], ai_DisplayName = [], ai_Flow = [], ai_Status = [], ai_FlowKnown = False \<rparr>"

fun entitled_loop :: "string list \<Rightarrow> string list \<Rightarrow> string list" where
  "entitled_loop out [] = out"
| "entitled_loop out (f0 # fs) =
     (let f = TrimSpace f0
      in if f = [] then entitled_loop out fs
         else if f \<in> set out then entitled_loop out fs
         else entitled_loop (out @ [f]) fs)"

definition EntitledFlows :: "string \<Rightarrow> string list" where
  "EntitledFlows flow = entitled_loop [] (split_on (CHR '','') flow)"

text \<open>The answers of the store: the account bound to a handle, and the row of an account, if it reads.\<close>

datatype handle_answer = HandleErr | Unbound | BoundTo string

record account_row =
  ac_ID :: string
  ac_DisplayName :: string
  ac_Flow :: string
  ac_Status :: string

record account_store =
  st_HandleBySourceUID :: "string \<times> string \<Rightarrow> handle_answer"
  st_GetAccount :: "string \<Rightarrow> account_row option"

definition AccountFor :: "account_store \<Rightarrow> message_event \<Rightarrow> account_info \<times> bool" where
  "AccountFor st ev =
     (case st_HandleBySourceUID st (AccountHandle ev) of
        HandleErr \<Rightarrow> (no_account, True)
      | Unbound \<Rightarrow> (no_account, False)
      | BoundTo aid \<Rightarrow>
          (case st_GetAccount st aid of
             None \<Rightarrow> (no_account\<lparr>ai_ID := aid\<rparr>, True)
           | Some a \<Rightarrow> (\<lparr> ai_ID = ac_ID a, ai_DisplayName = ac_DisplayName a, ai_Flow = ac_Flow a,
                         ai_Status = ac_Status a, ai_FlowKnown = True \<rparr>, True)))"

subsection \<open>Flows and work\<close>

text \<open>What the router reads of a unit of work; the two callbacks are present or absent.\<close>

record turn_work =
  wk_Sid :: string
  wk_Scope :: string
  wk_Events :: "message_event list"
  wk_Target :: target
  wk_NextNudge :: bool
  wk_OnMode :: bool

record flow =
  fl_Name :: string
  fl_Priority :: int
  fl_Mode :: string
  fl_Accepts :: "turn_work \<Rightarrow> bool"

text \<open>The two flows that judge no scope.\<close>

definition normal_flow :: flow where
  "normal_flow = \<lparr> fl_Name = ''normal'', fl_Priority = 0, fl_Mode = SessionModeNone, fl_Accepts = \<lambda>_. True \<rparr>"

definition intro_flow :: flow where
  "intro_flow = \<lparr> fl_Name = ''intro'', fl_Priority = 0, fl_Mode = SessionModeNone, fl_Accepts = \<lambda>_. False \<rparr>"

definition Register_flow :: "flow \<Rightarrow> flow list \<Rightarrow> flow list" where
  "Register_flow f flows = sort_key (\<lambda>f. - fl_Priority f) (flows @ [f])"

definition pickPath :: "flow list \<Rightarrow> turn_work \<Rightarrow> flow option" where
  "pickPath flows work = find (\<lambda>f. fl_Accepts f work) flows"

definition flowByName :: "flow list \<Rightarrow> string \<Rightarrow> flow option" where
  "flowByName flows name = find (\<lambda>f. fl_Name f = name) flows"

definition not_permitted :: string where
  "not_permitted = ''flow.router.not_permitted''"

definition routeToIntro :: "flow list \<Rightarrow> flow option \<times> string" where
  "routeToIntro flows =
     (case flowByName flows ''intro'' of
        Some f \<Rightarrow> (Some f, [])
      | None \<Rightarrow> (None, not_permitted))"

definition normalFloor :: string where
  "normalFloor = ''normal''"

definition permittedOnPath :: "string \<Rightarrow> bool \<Rightarrow> bool \<Rightarrow> account_info \<Rightarrow> bool" where
  "permittedOnPath name isAdmin bound info =
     (if name = normalFloor \<and> isAdmin then True
      else if \<not> bound then False
      else if \<not> ai_FlowKnown info then False
      else name \<in> set (EntitledFlows (ai_Flow info)))"

type_synonym accounts_authority = "(message_event \<Rightarrow> account_info \<times> bool) option"

definition pick_flow :: "flow list \<Rightarrow> accounts_authority \<Rightarrow> turn_work \<Rightarrow> flow option \<times> string" where
  "pick_flow flows accounts work =
     (case pickPath flows work of
        None \<Rightarrow> (None, [])
      | Some path \<Rightarrow>
          (case (accounts, FirstHumanEvent (wk_Events work)) of
             (Some acc, Some ev) \<Rightarrow>
               let (info, bound) = acc ev
               in if \<not> ev_IsAdmin ev \<and> (\<not> bound \<or> ai_Status info = ''paused'') then routeToIntro flows
                  else if \<not> permittedOnPath (fl_Name path) (ev_IsAdmin ev) bound info then
                    if \<not> ev_IsAdmin ev \<and> ai_FlowKnown info \<and> EntitledFlows (ai_Flow info) = []
                    then routeToIntro flows
                    else (None, not_permitted)
                  else (Some path, [])
           | _ \<Rightarrow> (Some path, [])))"

text \<open>What running a turn does: a notice by its key and language, the report of the mode, and the hand-over
  to a flow. A notice is sent when the gateway is there and knows the source.\<close>

datatype turn_effect = Notice string string | ReportMode string | RunFlow flow turn_work

definition notify_turn :: "(string \<Rightarrow> bool) option \<Rightarrow> turn_work \<Rightarrow> string \<Rightarrow> turn_effect list" where
  "notify_turn gateway work key =
     (case gateway of
        None \<Rightarrow> []
      | Some knows \<Rightarrow>
          if \<not> knows (tg_Source (wk_Target work)) then []
          else [Notice key (case FirstHumanEvent (wk_Events work) of Some ev \<Rightarrow> ev_Lang ev | None \<Rightarrow> [])])"

definition RunTurn :: "flow list \<Rightarrow> accounts_authority \<Rightarrow> (string \<Rightarrow> bool) option \<Rightarrow> turn_work \<Rightarrow> turn_effect list" where
  "RunTurn flows accounts gateway work =
     (case pick_flow flows accounts work of
        (None, deny) \<Rightarrow>
          notify_turn gateway work (if deny \<noteq> [] then deny else ''flow.router.no_flow_accepted'')
      | (Some f, _) \<Rightarrow>
          (if wk_OnMode work then [ReportMode (fl_Mode f)] else [])
          @ [RunFlow f (if fl_Mode f = SessionModeAuto then work\<lparr>wk_NextNudge := False\<rparr> else work)])"

definition FlowInfo :: "flow list \<Rightarrow> turn_work \<Rightarrow> (string \<times> string) option" where
  "FlowInfo flows work = map_option (\<lambda>f. (fl_Name f, fl_Mode f)) (pickPath flows work)"

subsection \<open>Entitlements\<close>

lemma entitled_loop_set:
  "set (entitled_loop out fs) = set out \<union> {TrimSpace f |f. f \<in> set fs \<and> TrimSpace f \<noteq> []}"
  by (induction fs arbitrary: out) (auto simp: Let_def)

lemma entitled_loop_distinct: "distinct out \<Longrightarrow> distinct (entitled_loop out fs)"
  by (induction fs arbitrary: out) (auto simp: Let_def)

lemma entitled_set: "set (EntitledFlows flow) = {TrimSpace f |f. f \<in> set (split_on (CHR '','') flow) \<and> TrimSpace f \<noteq> []}"
  by (simp add: EntitledFlows_def entitled_loop_set)

lemma EntitledFlows_Nil [simp]: "EntitledFlows [] = []"
  by (simp add: EntitledFlows_def TrimSpace_def trim_runes_def)

lemma AccountFor_known:
  assumes "AccountFor st ev = (info, True)" and "ai_FlowKnown info"
  obtains aid a where "st_HandleBySourceUID st (AccountHandle ev) = BoundTo aid" and "st_GetAccount st aid = Some a"
    and "ai_Flow info = ac_Flow a" and "ai_Status info = ac_Status a"
  using assms by (auto simp: AccountFor_def no_account_def split: handle_answer.splits option.splits)

subsection \<open>Registration\<close>

text \<open>The list of flows is sorted by priority whatever the order of registration, and flows of equal
  priority stay in the order they came.\<close>

definition by_priority :: "flow list \<Rightarrow> bool" where
  "by_priority flows = sorted (map (\<lambda>f. - fl_Priority f) flows)"

lemma Register_sorted [simp]: "by_priority (Register_flow f flows)"
  by (simp add: by_priority_def Register_flow_def)

lemma Register_set [simp]: "set (Register_flow f flows) = insert f (set flows)"
  by (auto simp: Register_flow_def)

lemma Register_stable:
  "filter (\<lambda>g. - fl_Priority g = p) (Register_flow f flows)
     = filter (\<lambda>g. - fl_Priority g = p) flows @ (if - fl_Priority f = p then [f] else [])"
  by (simp add: Register_flow_def sort_key_stable)

lemma find_sorted_first:
  assumes "find P xs = Some x" and "sorted (map k xs)" and "y \<in> set xs" and "P y"
  shows "k x \<le> k y"
  using assms
proof (induction xs)
  case (Cons a xs)
  then show ?case by (cases "P a") auto
qed simp

lemma fold_Register_set: "set (fold Register_flow hs ks) = set hs \<union> set ks"
  by (induction hs arbitrary: ks) auto

subsection \<open>Who runs what\<close>

text \<open>
  The path of a turn is the accepting flow of the highest priority, whatever the order in which the
  flows registered; the sender has no part in it.
\<close>

theorem path_is_highest_priority:
  assumes "pickPath (fold Register_flow (gs @ [g]) []) work = Some f"
  shows "f \<in> set (gs @ [g]) \<and> fl_Accepts f work
     \<and> (\<forall>h \<in> set (gs @ [g]). fl_Accepts h work \<longrightarrow> fl_Priority h \<le> fl_Priority f)"
proof -
  let ?fs = "fold Register_flow (gs @ [g]) []"
  have srt: "sorted (map (\<lambda>f. - fl_Priority f) ?fs)"
    using Register_sorted[of g "fold Register_flow gs []"] by (simp add: by_priority_def)
  have f: "f \<in> set ?fs \<and> fl_Accepts f work"
    using assms find_Some_mem[of "\<lambda>f. fl_Accepts f work" ?fs f] by (simp add: pickPath_def)
  have all: "set ?fs = set (gs @ [g])" using fold_Register_set[of "gs @ [g]" "[]"] by simp
  have "fl_Priority h \<le> fl_Priority f" if "h \<in> set (gs @ [g])" "fl_Accepts h work" for h
    using find_sorted_first[OF assms[unfolded pickPath_def] srt, of h] that unfolding all by linarith
  then show ?thesis using f unfolding all by blast
qed

theorem path_is_highest_priority_witness:
  "fl_Priority normal_flow \<le> fl_Priority (normal_flow\<lparr>fl_Name := ''agora'', fl_Priority := 10\<rparr>)"
  using path_is_highest_priority[of "[normal_flow]" "normal_flow\<lparr>fl_Name := ''agora'', fl_Priority := 10\<rparr>"
      undefined "normal_flow\<lparr>fl_Name := ''agora'', fl_Priority := 10\<rparr>"]
  by (simp add: pickPath_def Register_flow_def normal_flow_def)

lemma routeToIntro_cases:
  "routeToIntro flows = (Some f, d) \<Longrightarrow> fl_Name f = ''intro'' \<and> f \<in> set flows"
  using find_Some_mem[of "\<lambda>f. fl_Name f = ''intro''" flows f]
  by (auto simp: routeToIntro_def flowByName_def split: option.splits)

lemma pick_human:
  assumes "FirstHumanEvent (wk_Events work) = Some ev" and "acc ev = (info, bound)"
  shows "pick_flow flows (Some acc) work =
    (case pickPath flows work of
       None \<Rightarrow> (None, [])
     | Some path \<Rightarrow>
         if \<not> ev_IsAdmin ev \<and> (\<not> bound \<or> ai_Status info = ''paused'') then routeToIntro flows
         else if permittedOnPath (fl_Name path) (ev_IsAdmin ev) bound info then (Some path, [])
         else if \<not> ev_IsAdmin ev \<and> ai_FlowKnown info \<and> EntitledFlows (ai_Flow info) = [] then routeToIntro flows
         else (None, not_permitted))"
  using assms by (auto simp: pick_flow_def split: option.split)

lemma RunTurn_runs:
  assumes "RunFlow f w' \<in> set (RunTurn flows accounts gateway work)"
  obtains d where "pick_flow flows accounts work = (Some f, d)"
proof (cases "pick_flow flows accounts work")
  case (Pair r d)
  then show ?thesis
    using assms that by (cases r) (auto simp: RunTurn_def notify_turn_def split: option.splits if_splits)
qed

text \<open>Without the accounts module there is no permission gate: whoever speaks runs the flow that accepts the scope.\<close>

lemma no_authority_no_gate:
  "pickPath flows work = Some f \<Longrightarrow> \<exists>w'. RunFlow f w' \<in> set (RunTurn flows None gateway work)"
  by (auto simp: RunTurn_def pick_flow_def)

lemma human_run_account:
  assumes "RunFlow f w' \<in> set (RunTurn flows (Some (AccountFor st)) gateway work)"
    and "FirstHumanEvent (wk_Events work) = Some ev" and "\<not> ev_IsAdmin ev" and "fl_Name f \<noteq> ''intro''"
  shows "\<exists>aid a. st_HandleBySourceUID st (AccountHandle ev) = BoundTo aid \<and> st_GetAccount st aid = Some a
     \<and> ac_Status a \<noteq> ''paused'' \<and> fl_Name f \<in> set (EntitledFlows (ac_Flow a)) \<and> pickPath flows work = Some f"
proof -
  obtain info bound where af: "AccountFor st ev = (info, bound)" by (cases "AccountFor st ev")
  obtain d where p: "pick_flow flows (Some (AccountFor st)) work = (Some f, d)"
    by (rule RunTurn_runs[OF assms(1)])
  have "pickPath flows work = Some f" "bound" "ai_Status info \<noteq> ''paused''"
    "permittedOnPath (fl_Name f) False bound info"
    using p assms(3,4) unfolding pick_human[of work ev "AccountFor st" info bound flows, OF assms(2) af]
    by (auto split: option.splits if_splits dest: routeToIntro_cases)
  then have facts: "bound" "ai_FlowKnown info" "ai_Status info \<noteq> ''paused''" "pickPath flows work = Some f"
    "fl_Name f \<in> set (EntitledFlows (ai_Flow info))"
    by (auto simp: permittedOnPath_def split: if_splits)
  obtain aid a where "st_HandleBySourceUID st (AccountHandle ev) = BoundTo aid" "st_GetAccount st aid = Some a"
    "ai_Flow info = ac_Flow a" "ai_Status info = ac_Status a"
    using AccountFor_known[of st ev info] af facts(1,2) by auto
  then show ?thesis using facts by auto
qed

text \<open>
  C6. Provided the accounts authority is wired, a turn whose sender is no operator runs a flow other than the
  onboarding one only on an account row that was read: the handle is bound, the row reads, its status is not
  paused and its flow field names that flow. A store that fails to answer grants nothing. The proviso is needed:
  the accounts module is optional, and without it the router asks nothing of anybody
  (\<^verbatim>\<open>no_authority_no_gate\<close>).
\<close>

theorem human_turn_needs_entitlement:
  assumes "RunFlow f w' \<in> set (RunTurn flows (Some (AccountFor st)) gateway work)"
    and "FirstHumanEvent (wk_Events work) = Some ev" and "\<not> ev_IsAdmin ev" and "fl_Name f \<noteq> ''intro''"
  shows "\<exists>aid a. st_HandleBySourceUID st (AccountHandle ev) = BoundTo aid \<and> st_GetAccount st aid = Some a
     \<and> ac_Status a \<noteq> ''paused'' \<and> fl_Name f \<in> set (EntitledFlows (ac_Flow a)) \<and> pickPath flows work = Some f"
  by (rule human_run_account[OF assms])

definition demo_accounts :: account_store where
  "demo_accounts = \<lparr> st_HandleBySourceUID = (\<lambda>h. if h = (''telegram'', ''7'') then BoundTo ''acc'' else Unbound),
     st_GetAccount = (\<lambda>a. if a = ''acc'' then Some \<lparr> ac_ID = ''acc'', ac_DisplayName = ''Ann'',
        ac_Flow = ''normal, agora'', ac_Status = ''active'' \<rparr> else None) \<rparr>"

definition demo_sender :: message_event where
  "demo_sender = zero_event\<lparr> ev_Source := ''telegram'', ev_UserID := ''7'', ev_ChatID := ''7'' \<rparr>"

definition demo_work :: turn_work where
  "demo_work = \<lparr> wk_Sid = ''s'', wk_Scope = ''telegram:dm:7'', wk_Events = [demo_sender], wk_Target = no_target,
     wk_NextNudge = True, wk_OnMode = True \<rparr>"

lemma demo_entitled: "EntitledFlows ''normal, agora'' = [''normal'', ''agora'']"
  by code_simp

lemma demo_anchor: "FirstHumanEvent (wk_Events demo_work) = Some demo_sender" "\<not> ev_IsAdmin demo_sender"
  by (simp_all add: demo_work_def FirstHumanEvent_def IsInternal_def IsInternalSource_def demo_sender_def zero_event_def)

lemma demo_account:
  "AccountFor demo_accounts demo_sender = (\<lparr> ai_ID = ''acc'', ai_DisplayName = ''Ann'', ai_Flow = ''normal, agora'',
     ai_Status = ''active'', ai_FlowKnown = True \<rparr>, True)"
  by (simp add: AccountFor_def demo_accounts_def demo_sender_def zero_event_def AccountHandle_def platformKind_def)

theorem human_turn_needs_entitlement_witness:
  "\<exists>aid a. st_HandleBySourceUID demo_accounts (AccountHandle demo_sender) = BoundTo aid
     \<and> st_GetAccount demo_accounts aid = Some a \<and> ac_Status a \<noteq> ''paused'' \<and> ''normal'' \<in> set (EntitledFlows (ac_Flow a))"
proof -
  have "RunFlow normal_flow demo_work
     \<in> set (RunTurn [normal_flow, intro_flow] (Some (AccountFor demo_accounts)) None demo_work)"
    unfolding RunTurn_def pick_human[of demo_work demo_sender "AccountFor demo_accounts", OF demo_anchor(1) demo_account]
    using demo_anchor(2)
    by (simp add: pickPath_def normal_flow_def permittedOnPath_def demo_entitled)
  from human_turn_needs_entitlement[OF this demo_anchor]
  show ?thesis by (auto simp: normal_flow_def)
qed

text \<open>
  An operator never meets the onboarding flow: the turn runs the path of the scope, which for a
  restricted flow takes the entitlement and for the basic one nothing, and is refused otherwise.
\<close>

theorem operator_never_onboarded:
  assumes "FirstHumanEvent (wk_Events work) = Some ev" and "ev_IsAdmin ev" and "pickPath flows work = Some path"
  shows "pick_flow flows (Some acc) work =
     (if fl_Name path = normalFloor \<or> snd (acc ev) \<and> ai_FlowKnown (fst (acc ev))
           \<and> fl_Name path \<in> set (EntitledFlows (ai_Flow (fst (acc ev))))
      then (Some path, []) else (None, not_permitted))"
  using assms pick_human[of work ev acc "fst (acc ev)" "snd (acc ev)" flows]
  by (auto simp: permittedOnPath_def)

theorem operator_never_onboarded_witness:
  "pick_flow [normal_flow, intro_flow] (Some (\<lambda>_. (no_account, True)))
     (demo_work\<lparr>wk_Events := [demo_sender\<lparr>ev_IsAdmin := True\<rparr>]\<rparr>) = (Some normal_flow, [])"
  by (subst operator_never_onboarded[where ev = "demo_sender\<lparr>ev_IsAdmin := True\<rparr>" and path = normal_flow])
    (simp_all add: pickPath_def normal_flow_def normalFloor_def FirstHumanEvent_def IsInternal_def
      IsInternalSource_def demo_sender_def zero_event_def)

text \<open>
  Every turn ends in exactly one thing the sender can see: one flow runs, or one notice is sent when
  the gateway knows the source. A flow of automated mode is run without the channel that would feed it
  messages arriving while it runs, and the mode is reported before the flow starts.
\<close>

theorem turn_has_one_outcome:
  assumes "gateway = Some knows" and "knows (tg_Source (wk_Target work))"
  shows "(\<exists>f d. pick_flow flows accounts work = (Some f, d)
        \<and> RunTurn flows accounts gateway work
          = (if wk_OnMode work then [ReportMode (fl_Mode f)] else [])
            @ [RunFlow f (work\<lparr>wk_NextNudge := (wk_NextNudge work \<and> fl_Mode f \<noteq> SessionModeAuto)\<rparr>)])
   \<or> (\<exists>d k l. pick_flow flows accounts work = (None, d) \<and> RunTurn flows accounts gateway work = [Notice k l] \<and> k \<noteq> [])"
proof (cases "pick_flow flows accounts work")
  case (Pair r d)
  have "work\<lparr>wk_NextNudge := wk_NextNudge work\<rparr> = work" by simp
  then show ?thesis
    using assms Pair by (cases r) (auto simp: RunTurn_def notify_turn_def)
qed

theorem turn_has_one_outcome_witness:
  "\<exists>k l. RunTurn [] None (Some (\<lambda>_. True)) demo_work = [Notice k l] \<and> k \<noteq> []"
  using turn_has_one_outcome[of "Some (\<lambda>_. True)" "\<lambda>_. True" demo_work "[]" None]
  by (simp add: pick_flow_def pickPath_def)

subsection \<open>The batch the router judges\<close>

text \<open>
  The router reads only the first human event of a batch, and that is enough: in every reachable state
  of the arbiter, when a turn's batch has a human event then all its events come from that one sender, so
  nobody's message is served on the strength of somebody else's account. The router's comment D28 expects
  otherwise (an operator and an unbound sender coalescing into one batch); the split by sender of the arbiter
  rules that out.
\<close>

theorem anchor_speaks_for_batch:
  assumes "arb_reach n w" and "t \<in> set (w_turns w)" and "FirstHumanEvent (tt_batch t) = Some ev"
    and "e \<in> set (tt_batch t)"
  shows "\<not> IsInternal e \<and> ev_Source e = ev_Source ev \<and> ev_UserID e = ev_UserID ev"
proof -
  have ok: "world_ok w" by (rule reach_ok[OF assms(1)])
  have "single_sender (tt_batch t)"
    using the_turn(2)[OF ok assms(2)] by (simp add: turn_holds_def)
  moreover have "ev \<in> set (tt_batch t)" "\<not> IsInternal ev"
    using find_Some_mem[of "\<lambda>e. \<not> IsInternal e" "tt_batch t" ev] assms(3) by (simp_all add: FirstHumanEvent_def)
  ultimately have "sameSender ev e" and "\<not> IsInternal ev"
    using assms(4) unfolding single_sender_def by blast+
  then show ?thesis by (simp add: sameSender_def IsInternal_def)
qed

theorem anchor_speaks_for_batch_witness: "\<not> IsInternal (hd (tt_batch (hd (w_turns demo_world))))"
  using anchor_speaks_for_batch[OF demo_reach, of demo_turn "demo_ev ''1''" "demo_ev ''1''"]
  by (simp add: demo_state demo_turn_def FirstHumanEvent_def demo_ev_def zero_event_def IsInternal_def IsInternalSource_def)

end
