(* ===== verification/Flow_Intro.thy ===== *)
theory Flow_Intro
  imports Flow_Router
begin

section \<open>The onboarding flow\<close>

text \<open>
  \<^verbatim>\<open>src/flow/intro/10-flow.go\<close>: one canned reply per sender, chat and kind of reply. The outcome of the
  send, the presence of the account authority and of the provisioner and the sources the gateway knows
  are the environment of a turn; the texts themselves are named by their keys.
\<close>

definition introSeenMax :: nat where
  "introSeenMax = 4096"

definition introReplyKey :: "string \<Rightarrow> bool \<Rightarrow> string" where
  "introReplyKey msgKey isGroup = (if isGroup then ''intro.group_dm_nudge'' else msgKey)"

definition introDedupKey :: "string \<Rightarrow> string \<Rightarrow> string \<Rightarrow> string \<Rightarrow> string" where
  "introDedupKey source chatID uid replyKey = source @ '':'' @ chatID @ '':'' @ uid @ '':'' @ replyKey"

record intro_env =
  ie_accounts :: accounts_authority
  ie_provisioner :: bool
  ie_source :: "string \<Rightarrow> bool"
  ie_send_ok :: bool

text \<open>The calls a turn makes: a request for a bare account, an attempt to send with its outcome, and the
  report that something was delivered.\<close>

datatype intro_effect = MintBare message_event | Sent target string string | SendFailed target string string | Output

definition intro_msgKey :: "accounts_authority \<Rightarrow> message_event \<Rightarrow> string \<times> bool" where
  "intro_msgKey accounts ev =
     (case accounts of
        None \<Rightarrow> (''intro.pending'', False)
      | Some acc \<Rightarrow>
          let (info, bound) = acc ev
          in (if bound \<and> ai_Status info = ''paused'' then ''intro.paused'' else ''intro.pending'', bound))"

definition intro_RunTurn :: "intro_env \<Rightarrow> turn_work \<Rightarrow> string list \<Rightarrow> intro_effect list \<times> string list" where
  "intro_RunTurn env work seen =
     (case FirstHumanEvent (wk_Events work) of
        None \<Rightarrow> ([], seen)
      | Some ev \<Rightarrow>
          let (msgKey, bound) = intro_msgKey (ie_accounts env) ev;
              replyKey = introReplyKey msgKey (IsGroupChat (ev_ChatType ev));
              dedup = introDedupKey (ev_Source ev) (ev_ChatID ev) (ev_UserID ev) replyKey
          in if dedup \<in> set seen then ([], seen)
             else let mint = (if \<not> bound \<and> ie_provisioner env then [MintBare ev] else [])
                  in if \<not> ie_source env (tg_Source (wk_Target work)) then (mint, seen)
                     else if \<not> ie_send_ok env then (mint @ [SendFailed (wk_Target work) replyKey (ev_Lang ev)], seen)
                     else (mint @ [Sent (wk_Target work) replyKey (ev_Lang ev), Output],
                           List.insert dedup (if introSeenMax \<le> length seen then [] else seen)))"

fun intro_run :: "(intro_env \<times> turn_work) list \<Rightarrow> string list \<Rightarrow> intro_effect list list \<times> string list" where
  "intro_run [] seen = ([], seen)"
| "intro_run ((env, work) # ws) seen =
     (let (es, seen1) = intro_RunTurn env work seen;
          (ess, seen2) = intro_run ws seen1
      in (es # ess, seen2))"

subsection \<open>What the sender gets\<close>

lemma intro_msgKey_cases: "fst (intro_msgKey acc ev) \<in> {''intro.pending'', ''intro.paused''}"
  by (auto simp: intro_msgKey_def split: option.splits prod.splits)

definition greeting :: "intro_env \<Rightarrow> message_event \<Rightarrow> string" where
  "greeting env ev = introReplyKey (fst (intro_msgKey (ie_accounts env) ev)) (IsGroupChat (ev_ChatType ev))"

definition greeting_key :: "intro_env \<Rightarrow> message_event \<Rightarrow> string" where
  "greeting_key env ev = introDedupKey (ev_Source ev) (ev_ChatID ev) (ev_UserID ev) (greeting env ev)"

lemma intro_turn:
  assumes "FirstHumanEvent (wk_Events work) = Some ev"
  shows "intro_RunTurn env work seen =
    (let mint = (if \<not> snd (intro_msgKey (ie_accounts env) ev) \<and> ie_provisioner env then [MintBare ev] else [])
     in if greeting_key env ev \<in> set seen then ([], seen)
        else if \<not> ie_source env (tg_Source (wk_Target work)) then (mint, seen)
        else if \<not> ie_send_ok env then (mint @ [SendFailed (wk_Target work) (greeting env ev) (ev_Lang ev)], seen)
        else (mint @ [Sent (wk_Target work) (greeting env ev) (ev_Lang ev), Output],
              List.insert (greeting_key env ev) (if introSeenMax \<le> length seen then [] else seen)))"
  using assms by (simp add: intro_RunTurn_def greeting_def greeting_key_def Let_def case_prod_beta)

text \<open>The size of the memory of greetings stays within its bound, with no entry twice.\<close>

lemma intro_seen_step:
  assumes "length seen \<le> introSeenMax" and "distinct seen"
  shows "length (snd (intro_RunTurn env work seen)) \<le> introSeenMax \<and> distinct (snd (intro_RunTurn env work seen))"
proof (cases "FirstHumanEvent (wk_Events work)")
  case None
  then show ?thesis using assms by (simp add: intro_RunTurn_def)
next
  case (Some ev)
  have "length (List.insert k s) \<le> Suc (length s)" for k and s :: "string list"
    by (simp add: List.insert_def)
  then show ?thesis
    using assms by (auto simp: intro_turn[OF Some] Let_def List.insert_def introSeenMax_def)
qed

lemma intro_run_bounded:
  "length seen \<le> introSeenMax \<Longrightarrow> distinct seen \<Longrightarrow>
     length (snd (intro_run ws seen)) \<le> introSeenMax \<and> distinct (snd (intro_run ws seen))"
proof (induction ws arbitrary: seen)
  case (Cons a ws)
  then show ?case
    using intro_seen_step[of seen "fst a" "snd a"] by (cases a) (simp add: case_prod_beta)
qed simp

text \<open>
  A greeting is delivered to a sender in a chat at most once while it is remembered and is retried
  until it is: the turn sends exactly when the greeting is not remembered and its source is known, what
  is remembered afterwards is the greeting if and only if the send succeeded or it was there before, and
  the report of delivered output is made exactly for a successful send. The memory never exceeds its bound.
\<close>

theorem greeting_once_and_retried:
  assumes "FirstHumanEvent (wk_Events work) = Some ev" and "length seen \<le> introSeenMax" and "distinct seen"
    and "intro_RunTurn env work seen = (es, seen')"
  shows "(Sent (wk_Target work) (greeting env ev) (ev_Lang ev) \<in> set es
        \<longleftrightarrow> greeting_key env ev \<notin> set seen \<and> ie_source env (tg_Source (wk_Target work)) \<and> ie_send_ok env)
     \<and> (Output \<in> set es \<longleftrightarrow> Sent (wk_Target work) (greeting env ev) (ev_Lang ev) \<in> set es)
     \<and> (greeting_key env ev \<in> set seen' \<longleftrightarrow> greeting_key env ev \<in> set seen \<or> Output \<in> set es)
     \<and> (Output \<notin> set es \<longrightarrow> seen' = seen)
     \<and> length seen' \<le> introSeenMax"
proof -
  have len: "length seen' \<le> introSeenMax"
    using intro_seen_step[OF assms(2,3), of env work] assms(4) by simp
  show ?thesis
    using assms(4) len unfolding intro_turn[OF assms(1)] Let_def by (auto split: if_splits)
qed

definition demo_intro :: intro_env where
  "demo_intro = \<lparr> ie_accounts = Some (AccountFor demo_accounts), ie_provisioner = True, ie_source = (\<lambda>_. True),
     ie_send_ok = True \<rparr>"

theorem greeting_once_and_retried_witness:
  "greeting_key demo_intro demo_sender \<in> set (snd (intro_RunTurn demo_intro demo_work []))
   \<and> Output \<in> set (fst (intro_RunTurn demo_intro demo_work []))"
  using greeting_once_and_retried[OF demo_anchor(1), of "[]" demo_intro
      "fst (intro_RunTurn demo_intro demo_work [])" "snd (intro_RunTurn demo_intro demo_work [])"]
  by (simp add: demo_intro_def)

text \<open>
  In a group the reply says nothing of the sender's account: whatever the account store answers, the
  text sent is the same neutral one.
\<close>

theorem group_reply_is_neutral:
  assumes "FirstHumanEvent (wk_Events work) = Some ev" and "IsGroupChat (ev_ChatType ev)"
    and "Sent tg k l \<in> set (fst (intro_RunTurn env work seen))"
  shows "k = ''intro.group_dm_nudge''"
  using assms(3) assms(2) unfolding intro_turn[OF assms(1)] Let_def
  by (auto simp: greeting_def introReplyKey_def split: if_splits)

definition demo_group :: message_event where
  "demo_group = demo_sender\<lparr>ev_ChatType := ''group''\<rparr>"

theorem group_reply_is_neutral_witness: "greeting demo_intro demo_group = ''intro.group_dm_nudge''"
proof -
  let ?w = "demo_work\<lparr>wk_Events := [demo_group]\<rparr>"
  have a: "FirstHumanEvent (wk_Events ?w) = Some demo_group" and g: "IsGroupChat (ev_ChatType demo_group)"
    by (simp_all add: demo_group_def demo_sender_def zero_event_def FirstHumanEvent_def IsInternal_def
        IsInternalSource_def IsGroupChat_def)
  have "Sent (wk_Target ?w) (greeting demo_intro demo_group) (ev_Lang demo_group)
      \<in> set (fst (intro_RunTurn demo_intro ?w []))"
    by (simp add: intro_turn[OF a] demo_intro_def)
  from group_reply_is_neutral[OF a g this] show ?thesis .
qed

end
