(* ===== verification/Flow_Inbound.thy ===== *)
theory Flow_Inbound
  imports Gate_Screen I18n Flow_Intro
begin

section \<open>The inbound dispatcher\<close>

text \<open>
  \<^verbatim>\<open>src/flow/inbound/10-flow.go\<close>: what becomes of one event of the source bus. The language is stamped,
  the gate screens the sender, a command is forked off the turn path by the sender's account, and what is
  left is submitted to the session layer. The calls that leave the dispatcher are its effects; the texts of
  notices are named by their keys.
\<close>

record source_caps =
  cp_ReplyTo :: bool
  cp_Trusted :: bool
  cp_RedeemConfirmAll :: bool

record inbound_accounts =
  na_AccountFor :: "message_event \<Rightarrow> account_info \<times> bool"
  na_LangFor :: "string \<Rightarrow> string \<Rightarrow> string option"

record inbound_env =
  ne_now :: gtime
  ne_randTok :: string
  ne_dispatch :: dispatcher
  ne_source :: "string \<Rightarrow> source_caps option"
  ne_accounts :: "inbound_accounts option"
  ne_catalog :: "catalog option"
  ne_han :: "string \<Rightarrow> bool"

record inbound =
  ib_screener :: screener
  ib_albumSeen :: "(string, gtime) gomap"
  ib_langMem :: "(string, string) gomap"

datatype inbound_reply = FromGate reply | Keyed string string

datatype inbound_effect =
    SubmitTurn message_event
  | DispatchSlash message_event target
  | SendReply target inbound_reply
  | RememberLang string string string

subsection \<open>Language\<close>

definition langMemCap :: nat where
  "langMemCap = 4096"

definition nul :: string where
  "nul = [CHR 0x00]"

definition remember_miss :: "(string, string) gomap \<Rightarrow> string \<Rightarrow> string \<Rightarrow> (string, string) gomap" where
  "remember_miss mem key l = gput key l (if langMemCap \<le> length mem then [] else mem)"

definition resolveLang :: "inbound_env \<Rightarrow> (string, string) gomap \<Rightarrow> message_event
    \<Rightarrow> string \<times> (string, string) gomap \<times> inbound_effect list" where
  "resolveLang env mem ev =
     (let pin = Override (ne_catalog env) (message_event.ev_Source ev) (message_event.ev_ChatID ev)
      in if pin \<noteq> [] then (pin, mem, [])
         else let (src, uid) = AccountHandle ev;
                  acct = (if src \<noteq> [] \<and> uid \<noteq> [] then ne_accounts env else None);
                  d = Detect (ne_han env) (message_event.ev_Text ev)
              in if d = [] then
                   (case acct of
                      None \<Rightarrow> (''default'', mem, [])
                    | Some a \<Rightarrow>
                        (case gget mem (src @ nul @ uid) of
                           Some l \<Rightarrow> (l, mem, [])
                         | None \<Rightarrow>
                             (case na_LangFor a src uid of
                                Some l \<Rightarrow> (l, remember_miss mem (src @ nul @ uid) l, [])
                              | None \<Rightarrow> (''default'', mem, []))))
                 else if d = ''default'' then (''default'', mem, [])
                 else (d, mem, (case acct of None \<Rightarrow> [] | Some _ \<Rightarrow> [RememberLang src uid d])))"

subsection \<open>Commands\<close>

definition isSlash :: "message_event \<Rightarrow> bool" where
  "isSlash ev = has_prefix (TrimSpace (message_event.ev_Text ev)) ''/''"

definition slashAlbumTTL :: duration where
  "slashAlbumTTL = 10 * minute"

definition album_slash_key :: "message_event \<Rightarrow> string" where
  "album_slash_key ev = message_event.ev_Source ev @ nul @ message_event.ev_ChatID ev @ nul @ ev_MediaGroupID ev"

definition albumSlashDup :: "gtime \<Rightarrow> (string, gtime) gomap \<Rightarrow> message_event \<Rightarrow> bool \<times> (string, gtime) gomap" where
  "albumSlashDup now seen ev =
     (if ev_MediaGroupID ev = [] then (False, seen)
      else let live = filter (\<lambda>(k, exp). \<not> now > exp) seen
           in if ghas live (album_slash_key ev) then (True, live)
              else (False, gput (album_slash_key ev) (now + slashAlbumTTL) live))"

definition deliverRedeem :: "source_caps \<Rightarrow> message_event \<Rightarrow> inbound_reply \<Rightarrow> inbound_effect list" where
  "deliverRedeem caps ev reply =
     (if reply = FromGate NoReply then []
      else if message_event.ev_ChatType ev \<noteq> ChatDM \<and> \<not> cp_RedeemConfirmAll caps then []
      else [SendReply (ReplyTarget ev) reply])"

definition dispatchSlash :: "source_caps \<Rightarrow> message_event \<Rightarrow> inbound_effect" where
  "dispatchSlash caps ev =
     DispatchSlash ev (if cp_ReplyTo caps then (ReplyTarget ev)\<lparr>tg_ReplyToID := ev_MessageID ev\<rparr> else ReplyTarget ev)"

text \<open>The fork of a command: its effects, or nothing when the event goes on to the turn.\<close>

definition slash_fork :: "source_caps \<Rightarrow> inbound_accounts option \<Rightarrow> bool \<Rightarrow> message_event \<Rightarrow> inbound_effect list option" where
  "slash_fork caps accounts onboardingPass ev =
     (if message_event.ev_IsAdmin ev then Some [dispatchSlash caps ev]
      else let (acct, bound) = (case accounts of Some a \<Rightarrow> na_AccountFor a ev | None \<Rightarrow> (no_account, False));
               reachable = (message_event.ev_ChatType ev = ChatDM \<or> cp_RedeemConfirmAll caps)
           in if bound \<and> ai_Status acct = ''paused'' then
                (if reachable then Some (deliverRedeem caps ev (Keyed ''gate.slash.paused'' (ev_Lang ev))) else None)
              else if bound \<and> \<not> ai_FlowKnown acct then None
              else if \<not> onboardingPass then Some [dispatchSlash caps ev]
              else if \<not> bound then None
              else if EntitledFlows (ai_Flow acct) = [] then
                (if reachable then Some (deliverRedeem caps ev (Keyed ''gate.slash.pending_approval'' (ev_Lang ev))) else None)
              else Some [dispatchSlash caps ev])"

subsection \<open>One event\<close>

text \<open>What the gate sees of an event.\<close>

definition gate_event :: "message_event \<Rightarrow> event" where
  "gate_event ev = event.make (message_event.ev_Source ev) (message_event.ev_ChatID ev) (message_event.ev_UserID ev)
     (message_event.ev_UserName ev) (message_event.ev_ChatType ev) (message_event.ev_Text ev) (message_event.ev_IsAdmin ev)"

definition submit_or_slash :: "inbound_env \<Rightarrow> source_caps \<Rightarrow> bool \<Rightarrow> message_event \<Rightarrow> inbound \<Rightarrow> inbound_effect list \<times> inbound" where
  "submit_or_slash env caps onboardingPass ev st =
     (let turn = [SubmitTurn (ev\<lparr>ev_Onboarding := onboardingPass\<rparr>)]
      in if isSlash ev then
           let (dup, seen) = albumSlashDup (ne_now env) (ib_albumSeen st) ev;
               st1 = st\<lparr>ib_albumSeen := seen\<rparr>
           in if dup then ([], st1)
              else case slash_fork caps (ne_accounts env) onboardingPass ev of
                     Some es \<Rightarrow> (es, st1)
                   | None \<Rightarrow> (turn, st1)
         else (turn, st))"

definition handleChat :: "inbound_env \<Rightarrow> inbound \<Rightarrow> message_event \<Rightarrow> inbound_effect list \<times> inbound" where
  "handleChat env st0 ev0 =
     (let (lang, mem, seed) = resolveLang env (ib_langMem st0) ev0;
          ev = ev0\<lparr>ev_Lang := lang\<rparr>;
          st = st0\<lparr>ib_langMem := mem\<rparr>
      in case ne_source env (message_event.ev_Source ev) of
           None \<Rightarrow> (seed, st)
         | Some caps \<Rightarrow>
             if cp_Trusted caps then
               (let (es, st') = submit_or_slash env caps False ev st in (seed @ es, st'))
             else let (v, scr) = Screen (ne_dispatch env) (ne_now env) (ne_randTok env) (ib_screener st) (gate_event ev);
                      st1 = st\<lparr>ib_screener := scr\<rparr>
                  in if v_Action v \<noteq> ScreenPass then (seed @ deliverRedeem caps ev (FromGate (v_Reply v)), st1)
                     else let admin = screener_IsAdmin scr (message_event.ev_Source ev) (message_event.ev_ChatID ev)
                                (message_event.ev_UserID ev);
                              (es, st') = submit_or_slash env caps (v_Onboarding v) (ev\<lparr>ev_IsAdmin := admin\<rparr>) st1
                          in (seed @ es, st'))"

definition handle_inbound :: "inbound_env \<Rightarrow> inbound \<Rightarrow> message_event \<Rightarrow> inbound_effect list \<times> inbound" where
  "handle_inbound env st ev = (if IsInternal ev then ([SubmitTurn ev], st) else handleChat env st ev)"

subsection \<open>Who gets in\<close>

text \<open>The standing with which an event enters: of an unscreened source it keeps the operator mark the source
  gave it, otherwise the gate's policy admits it and decides the mark.\<close>

definition admitted :: "inbound_env \<Rightarrow> inbound \<Rightarrow> inbound \<Rightarrow> message_event \<Rightarrow> source_caps \<Rightarrow> bool \<Rightarrow> bool \<Rightarrow> bool" where
  "admitted env st st' ev caps onboarding admin \<longleftrightarrow>
     (let src = message_event.ev_Source ev; chat = message_event.ev_ChatID ev; uid = message_event.ev_UserID ev;
          p = policyFor (ib_screener st) src
      in ne_source env src = Some caps
       \<and> (if cp_Trusted caps then \<not> onboarding \<and> admin = message_event.ev_IsAdmin ev
          else \<not> Denied p chat uid \<and> (onboarding \<longleftrightarrow> \<not> Authorized p chat uid) \<and> (onboarding \<longrightarrow> p_Onboarding p)
             \<and> admin = screener_IsAdmin (ib_screener st') src chat uid))"

definition stamped :: "message_event \<Rightarrow> string \<Rightarrow> bool \<Rightarrow> message_event" where
  "stamped ev lang admin = ev\<lparr>ev_Lang := lang, ev_IsAdmin := admin\<rparr>"

lemma stamped_simps [simp]:
  "message_event.ev_Source (stamped ev l a) = message_event.ev_Source ev"
  "message_event.ev_ChatID (stamped ev l a) = message_event.ev_ChatID ev"
  "message_event.ev_UserID (stamped ev l a) = message_event.ev_UserID ev"
  "message_event.ev_ChatType (stamped ev l a) = message_event.ev_ChatType ev"
  "message_event.ev_Text (stamped ev l a) = message_event.ev_Text ev"
  "message_event.ev_IsAdmin (stamped ev l a) = a"
  "ev_MediaGroupID (stamped ev l a) = ev_MediaGroupID ev"
  "AccountHandle (stamped ev l a) = AccountHandle ev"
  "IsInternal (stamped ev l a) = IsInternal ev"
  by (simp_all add: stamped_def AccountHandle_def IsInternal_def)

lemma AccountFor_handle: "AccountHandle a = AccountHandle b \<Longrightarrow> AccountFor st a = AccountFor st b"
  by (simp add: AccountFor_def)

lemma gate_event_simps [simp]:
  "event.ev_Source (gate_event ev) = message_event.ev_Source ev"
  "event.ev_ChatID (gate_event ev) = message_event.ev_ChatID ev"
  "event.ev_UserID (gate_event ev) = message_event.ev_UserID ev"
  by (simp_all add: gate_event_def event.defs)

lemma Screen_pass:
  assumes "Screen d now rt s e = (v, s')" and "v_Action v = ScreenPass"
  shows "\<not> Denied (policyFor s (event.ev_Source e)) (event.ev_ChatID e) (event.ev_UserID e)
     \<and> (v_Onboarding v \<longleftrightarrow> \<not> Authorized (policyFor s (event.ev_Source e)) (event.ev_ChatID e) (event.ev_UserID e))
     \<and> (v_Onboarding v \<longrightarrow> p_Onboarding (policyFor s (event.ev_Source e)))"
proof -
  obtain r s1 where r: "redeem d now s e = (r, s1)" by fastforce
  show ?thesis
    using assms r redeem_action[of d now s e "the r" s1]
    by (cases r) (auto simp: Screen_def Let_def split: if_splits prod.splits)
qed

lemma resolveLang_effects: "resolveLang env mem ev = (l, m', es) \<Longrightarrow> es = [] \<or> (\<exists>a b c. es = [RememberLang a b c])"
  by (auto simp: resolveLang_def Let_def split: if_splits prod.splits option.splits)

lemma submit_or_slash_screener [simp]: "ib_screener (snd (submit_or_slash env caps ob ev st)) = ib_screener st"
  by (auto simp: submit_or_slash_def Let_def split: prod.split option.split)

text \<open>The calls by which the sender's words take effect.\<close>

fun acts :: "inbound_effect \<Rightarrow> bool" where
  "acts (SubmitTurn _) = True"
| "acts (DispatchSlash _ _) = True"
| "acts _ = False"

text \<open>The two shapes of what the dispatcher does with an external event.\<close>

lemma chat_cases:
  assumes "handleChat env st ev = (es, st')"
  obtains (stopped) seed rest where "es = seed @ rest" and "list_all (\<lambda>e. \<not> acts e) es" and "length rest \<le> 1"
      and "seed = [] \<or> (\<exists>a b c. seed = [RememberLang a b c])"
  | (passed) seed caps ob admin lang es' st1 where "es = seed @ es'"
      and "seed = [] \<or> (\<exists>a b c. seed = [RememberLang a b c])"
      and "admitted env st st' ev caps ob admin" and "ib_albumSeen st1 = ib_albumSeen st"
      and "submit_or_slash env caps ob (stamped ev lang admin) st1 = (es', st')"
proof -
  obtain lang mem seed where l: "resolveLang env (ib_langMem st) ev = (lang, mem, seed)" by (cases "resolveLang env (ib_langMem st) ev")
  have seed: "seed = [] \<or> (\<exists>a b c. seed = [RememberLang a b c])" by (rule resolveLang_effects[OF l])
  let ?st = "st\<lparr>ib_langMem := mem\<rparr>" and ?ev = "ev\<lparr>ev_Lang := lang\<rparr>"
  show thesis
  proof (cases "ne_source env (message_event.ev_Source ev)")
    case None
    then show thesis using assms l seed by (intro stopped[of seed "[]"]) (auto simp: handleChat_def)
  next
    case (Some caps)
    show thesis
    proof (cases "cp_Trusted caps")
      case True
      obtain es' s' where r: "submit_or_slash env caps False ?ev ?st = (es', s')" by fastforce
      have "stamped ev lang (message_event.ev_IsAdmin ev) = ?ev" by (simp add: stamped_def)
      then show thesis
        using assms l Some True r seed
        by (intro passed[of seed es' caps False "message_event.ev_IsAdmin ev" ?st lang])
          (auto simp: handleChat_def admitted_def)
    next
      case False
      obtain v scr where v: "Screen (ne_dispatch env) (ne_now env) (ne_randTok env) (ib_screener st) (gate_event ?ev) = (v, scr)"
        by fastforce
      show thesis
      proof (cases "v_Action v = ScreenPass")
        case False
        have "deliverRedeem caps ?ev (FromGate (v_Reply v)) = [] \<or>
            (\<exists>t r. deliverRedeem caps ?ev (FromGate (v_Reply v)) = [SendReply t r])"
          by (simp add: deliverRedeem_def)
        then show thesis
          using assms l Some \<open>\<not> cp_Trusted caps\<close> v False seed
          by (intro stopped[of seed "deliverRedeem caps ?ev (FromGate (v_Reply v))"]) (auto simp: handleChat_def)
      next
        case True
        let ?admin = "screener_IsAdmin scr (message_event.ev_Source ev) (message_event.ev_ChatID ev) (message_event.ev_UserID ev)"
        let ?st1 = "?st\<lparr>ib_screener := scr\<rparr>"
        obtain es' s' where r: "submit_or_slash env caps (v_Onboarding v) (?ev\<lparr>ev_IsAdmin := ?admin\<rparr>) ?st1 = (es', s')"
          by fastforce
        have ev': "stamped ev lang ?admin = ?ev\<lparr>ev_IsAdmin := ?admin\<rparr>" by (simp add: stamped_def)
        have out: "es = seed @ es'" "st' = s'"
          using assms l Some \<open>\<not> cp_Trusted caps\<close> v True r by (auto simp: handleChat_def)
        have "ib_screener st' = scr"
          using r out submit_or_slash_screener[of env caps "v_Onboarding v" "?ev\<lparr>ev_IsAdmin := ?admin\<rparr>" ?st1] by simp
        then show thesis
          using r out seed Some \<open>\<not> cp_Trusted caps\<close> Screen_pass[OF v True]
          by (intro passed[of seed es' caps "v_Onboarding v" ?admin ?st1 lang]) (simp_all add: admitted_def ev')
      qed
    qed
  qed
qed

lemma slash_fork_effects:
  "slash_fork caps accounts ob ev = Some es \<Longrightarrow>
     es = [] \<or> es = [dispatchSlash caps ev] \<or> (\<exists>t r. es = [SendReply t r])"
  by (auto simp: slash_fork_def deliverRedeem_def Let_def split: if_splits prod.splits option.splits)

lemma submit_or_slash_cases:
  assumes "submit_or_slash env caps ob ev st = (es, st')"
  obtains (turn) "es = [SubmitTurn (ev\<lparr>ev_Onboarding := ob\<rparr>)]"
      and "isSlash ev \<Longrightarrow> slash_fork caps (ne_accounts env) ob ev = None"
  | (dropped) "es = []"
  | (command) "isSlash ev" and "es = [dispatchSlash caps ev]"
      and "slash_fork caps (ne_accounts env) ob ev = Some es" and "\<not> fst (albumSlashDup (ne_now env) (ib_albumSeen st) ev)"
  | (bounced) t r where "es = [SendReply t r]" and "isSlash ev"
proof -
  obtain dup seen where d: "albumSlashDup (ne_now env) (ib_albumSeen st) ev = (dup, seen)" by fastforce
  show thesis
  proof (cases "isSlash ev \<and> \<not> dup")
    case False
    then show thesis
      using assms d turn dropped by (cases "isSlash ev") (auto simp: submit_or_slash_def Let_def)
  next
    case True
    show thesis
    proof (cases "slash_fork caps (ne_accounts env) ob ev")
      case None
      then show thesis using assms d True turn by (auto simp: submit_or_slash_def Let_def)
    next
      case (Some es')
      then have "es = es'" using assms d True by (simp add: submit_or_slash_def Let_def)
      then show thesis
        using slash_fork_effects[OF Some] Some True d dropped command bounced by auto
    qed
  qed
qed

lemma acted_on:
  assumes "handle_inbound env st ev = (es, st')" and "\<not> IsInternal ev" and "act \<in> set es"
    and "act = SubmitTurn e \<or> act = DispatchSlash e tg"
  shows "\<exists>caps onboarding admin. admitted env st st' ev caps onboarding admin
     \<and> message_event.ev_IsAdmin e = admin \<and> AccountHandle e = AccountHandle ev
     \<and> message_event.ev_Source e = message_event.ev_Source ev \<and> message_event.ev_ChatID e = message_event.ev_ChatID ev
     \<and> message_event.ev_UserID e = message_event.ev_UserID ev \<and> message_event.ev_Text e = message_event.ev_Text ev
     \<and> (act = SubmitTurn e \<longrightarrow> ev_Onboarding e = onboarding)"
proof -
  have h: "handleChat env st ev = (es, st')" using assms(1,2) by (simp add: handle_inbound_def)
  have acts: "acts act" using assms(4) by auto
  from h show ?thesis
  proof (cases rule: chat_cases)
    case (stopped seed rest)
    then have "\<not> acts act" using assms(3) by (metis list_all_iff)
    then show ?thesis using acts by simp
  next
    case (passed seed caps ob admin lang es' st1)
    have "act \<in> set es'" using assms(3) passed(1,2) acts by auto
    with passed(5) assms(4) have e: "e = (stamped ev lang admin)\<lparr>ev_Onboarding := ob\<rparr> \<and> act = SubmitTurn e
        \<or> e = stamped ev lang admin \<and> act = DispatchSlash e tg"
      by (cases rule: submit_or_slash_cases) (auto simp: dispatchSlash_def split: if_splits)
    have "AccountHandle e = AccountHandle ev"
      using e by (auto simp: AccountHandle_def stamped_def)
    then show ?thesis
      using passed(3) e by (intro exI[of _ caps] exI[of _ ob] exI[of _ admin]) auto
  qed
qed

subsection \<open>A concrete dispatcher\<close>

definition demo_inbound :: inbound where
  "demo_inbound = \<lparr> ib_screener = demo_screener\<lparr>scr_policies := [(''telegram'', zero_policy\<lparr>p_Onboarding := True\<rparr>)],
       scr_slash := False\<rparr>, ib_albumSeen = [], ib_langMem = [] \<rparr>"

definition demo_store :: account_store where
  "demo_store = demo_accounts\<lparr>st_HandleBySourceUID := (\<lambda>h. Unbound)\<rparr>"

definition demo_env :: "account_store \<Rightarrow> inbound_env" where
  "demo_env store = \<lparr> ne_now = 0, ne_randTok = ''t9'', ne_dispatch = admin_only_dispatch,
     ne_source = (\<lambda>s. if s = ''telegram'' then Some \<lparr> cp_ReplyTo = True, cp_Trusted = False, cp_RedeemConfirmAll = False \<rparr> else None),
     ne_accounts = Some \<lparr> na_AccountFor = AccountFor store, na_LangFor = (\<lambda>_ _. None) \<rparr>,
     ne_catalog = None, ne_han = (\<lambda>_. False) \<rparr>"

definition demo_says :: "string \<Rightarrow> message_event" where
  "demo_says text = demo_sender\<lparr>ev_ChatType := ''dm'', ev_Text := text\<rparr>"

definition demo_turn_event :: message_event where
  "demo_turn_event = (demo_says ''7'')\<lparr>ev_Lang := ''default'', ev_Onboarding := True\<rparr>"

definition demo_command :: message_event where
  "demo_command = (demo_says ''/7'')\<lparr>ev_Lang := ''default''\<rparr>"

lemma demo_unlisted:
  "\<not> Authorized (policyFor (ib_screener demo_inbound) (message_event.ev_Source (demo_says ''/7'')))
       (message_event.ev_ChatID (demo_says ''/7'')) (message_event.ev_UserID (demo_says ''/7''))"
  by code_simp

lemma demo_untrusted:
  "ne_source (demo_env store) (message_event.ev_Source (demo_says t)) = Some caps \<Longrightarrow> \<not> cp_Trusted caps"
  by (auto simp: demo_env_def split: if_splits)

lemma demo_newcomer_turn:
  "fst (handle_inbound (demo_env demo_store) demo_inbound (demo_says ''7'')) = [SubmitTurn demo_turn_event]"
  by code_simp

lemma demo_member_command:
  "fst (handle_inbound (demo_env demo_accounts) demo_inbound (demo_says ''/7''))
     = [DispatchSlash demo_command (ReplyTarget demo_command)]"
  by code_simp

lemma demo_external: "\<not> IsInternal (demo_says t)"
  by (simp add: demo_says_def demo_sender_def zero_event_def IsInternal_def IsInternalSource_def)

text \<open>
  C9. Nothing an outsider says takes effect unscreened: when the dispatcher submits an event to the session
  layer or dispatches it as a command, its source is known and is either declared trusted or the gate's
  policy does not deny the sender and either lists the sender or admits newcomers. The event carries the
  sender's own source, chat, user and text; it is marked as an operator's exactly when the source's policy
  says so after the screen, and as provisional exactly when the sender is on no list.
\<close>

theorem acted_on_only_if_admitted:
  assumes "handle_inbound env st ev = (es, st')" and "\<not> IsInternal ev" and "act \<in> set es"
    and "act = SubmitTurn e \<or> act = DispatchSlash e tg"
  shows "\<exists>caps onboarding admin. admitted env st st' ev caps onboarding admin
     \<and> message_event.ev_IsAdmin e = admin \<and> AccountHandle e = AccountHandle ev
     \<and> message_event.ev_Source e = message_event.ev_Source ev \<and> message_event.ev_ChatID e = message_event.ev_ChatID ev
     \<and> message_event.ev_UserID e = message_event.ev_UserID ev \<and> message_event.ev_Text e = message_event.ev_Text ev
     \<and> (act = SubmitTurn e \<longrightarrow> ev_Onboarding e = onboarding)"
  by (rule acted_on[OF assms])

theorem acted_on_only_if_admitted_witness:
  "\<exists>caps onboarding admin. admitted (demo_env demo_store) demo_inbound
      (snd (handle_inbound (demo_env demo_store) demo_inbound (demo_says ''7''))) (demo_says ''7'') caps onboarding admin
    \<and> ev_Onboarding demo_turn_event = onboarding"
  using acted_on_only_if_admitted[of "demo_env demo_store" demo_inbound "demo_says ''7''" "[SubmitTurn demo_turn_event]"
      "snd (handle_inbound (demo_env demo_store) demo_inbound (demo_says ''7''))" "SubmitTurn demo_turn_event" demo_turn_event]
    demo_newcomer_turn demo_external[of "''7''"]
  by (simp add: prod_eq_iff) blast

lemma command_standing:
  assumes "handle_inbound env st ev = (es, st')" and "DispatchSlash e tg \<in> set es"
    and "\<not> message_event.ev_IsAdmin e" and "ne_accounts env = Some acc" and "na_AccountFor acc = AccountFor store"
    and "AccountFor store ev = (info, bound)"
  shows "isSlash e \<and> \<not> (bound \<and> ai_Status info = ''paused'') \<and> (bound \<longrightarrow> ai_FlowKnown info)
     \<and> (\<exists>caps onboarding. admitted env st st' ev caps onboarding False
          \<and> (onboarding \<longrightarrow> bound \<and> EntitledFlows (ai_Flow info) \<noteq> []))"
proof -
  have h: "handleChat env st ev = (es, st')" using assms(1,2) by (auto simp: handle_inbound_def split: if_splits)
  from h show ?thesis
  proof (cases rule: chat_cases)
    case (stopped seed rest)
    then have "\<not> acts (DispatchSlash e tg)" using assms(2) by (metis list_all_iff)
    then show ?thesis by simp
  next
    case (passed seed caps ob admin lang es' st1)
    have in': "DispatchSlash e tg \<in> set es'" using assms(2) passed(1,2) by auto
    from passed(5) show ?thesis
    proof (cases rule: submit_or_slash_cases)
      case command
      have e: "e = stamped ev lang admin" using in' command(2) by (auto simp: dispatchSlash_def split: if_splits)
      have na: "\<not> admin" using e assms(3) by simp
      have af: "na_AccountFor acc (stamped ev lang admin) = (info, bound)"
        using assms(5,6) AccountFor_handle[of "stamped ev lang admin" ev store] by simp
      have sr: "SendReply t r \<noteq> dispatchSlash caps x" for t r x by (simp add: dispatchSlash_def)
      have ok: "\<not> (bound \<and> ai_Status info = ''paused'') \<and> (bound \<longrightarrow> ai_FlowKnown info)
          \<and> (ob \<longrightarrow> bound \<and> EntitledFlows (ai_Flow info) \<noteq> [])"
        using command(3) na af assms(4) unfolding command(2)
        by (auto simp: slash_fork_def deliverRedeem_def sr Let_def split: if_splits)
      then show ?thesis using passed(3) na command(1) e by auto
    qed (use in' in auto)
  qed
qed

text \<open>
  C22. Provided the accounts authority is wired, a command of somebody who is no operator runs only in good
  standing: the sender was admitted; if a handle is bound its account row was read and is not paused; and a
  sender the gate let in only as a newcomer is bound to an account with at least one entitlement. A sender on
  the gate's list needs no entitlement and no account for a command.
\<close>

theorem command_needs_good_standing:
  assumes "handle_inbound env st ev = (es, st')" and "DispatchSlash e tg \<in> set es"
    and "\<not> message_event.ev_IsAdmin e" and "ne_accounts env = Some acc" and "na_AccountFor acc = AccountFor store"
    and "AccountFor store ev = (info, bound)"
  shows "isSlash e \<and> \<not> (bound \<and> ai_Status info = ''paused'') \<and> (bound \<longrightarrow> ai_FlowKnown info)
     \<and> (\<exists>caps onboarding. admitted env st st' ev caps onboarding False
          \<and> (onboarding \<longrightarrow> bound \<and> EntitledFlows (ai_Flow info) \<noteq> []))"
  by (rule command_standing[OF assms])

theorem command_needs_good_standing_witness:
  "\<exists>info. AccountFor demo_accounts (demo_says ''/7'') = (info, True) \<and> ai_FlowKnown info
     \<and> ai_Status info \<noteq> ''paused'' \<and> EntitledFlows (ai_Flow info) \<noteq> []"
proof -
  have h: "handle_inbound (demo_env demo_accounts) demo_inbound (demo_says ''/7'')
    = ([DispatchSlash demo_command (ReplyTarget demo_command)],
       snd (handle_inbound (demo_env demo_accounts) demo_inbound (demo_says ''/7'')))"
    using demo_member_command by (simp add: prod_eq_iff)
  have na: "\<not> message_event.ev_IsAdmin demo_command"
    by (simp add: demo_command_def demo_says_def demo_sender_def zero_event_def)
  have acc: "ne_accounts (demo_env demo_accounts) = Some \<lparr> na_AccountFor = AccountFor demo_accounts, na_LangFor = (\<lambda>_ _. None) \<rparr>"
    by (simp add: demo_env_def)
  have newcomer: "onboarding" if "admitted (demo_env demo_accounts) demo_inbound st' (demo_says ''/7'') caps onboarding False"
    for caps onboarding st'
    using that demo_unlisted demo_untrusted[of demo_accounts "''/7''" caps] by (auto simp: admitted_def Let_def)
  obtain info bound where af: "AccountFor demo_accounts (demo_says ''/7'') = (info, bound)" by fastforce
  from command_needs_good_standing[OF h _ na acc _ af] show ?thesis using newcomer af by auto
qed

text \<open>
  Every event of the bus has one fate: at most one of a turn, a command and a reply comes of it, beside a
  note of the sender's language.
\<close>

theorem one_fate:
  "length (filter (\<lambda>e. \<not> (\<exists>a b c. e = RememberLang a b c)) (fst (handle_inbound env st ev))) \<le> 1"
proof (cases "IsInternal ev")
  case True
  then show ?thesis by (simp add: handle_inbound_def)
next
  case False
  obtain es st' where h: "handleChat env st ev = (es, st')" by fastforce
  have lim: "length (filter P es) \<le> 1" if "es = seed @ rest" "length rest \<le> 1"
    "seed = [] \<or> (\<exists>a b c. seed = [RememberLang a b c])" "\<And>a b c. \<not> P (RememberLang a b c)" for P seed rest
    using that le_trans[OF length_filter_le[of P rest] that(2)] by auto
  from h have "length (filter (\<lambda>e. \<not> (\<exists>a b c. e = RememberLang a b c)) es) \<le> 1"
  proof (cases rule: chat_cases)
    case (stopped seed rest)
    then show ?thesis by (intro lim[of seed rest]) auto
  next
    case (passed seed caps ob admin lang es' st1)
    from passed(5) have "length es' \<le> 1" by (cases rule: submit_or_slash_cases) auto
    then show ?thesis using passed(1,2) by (intro lim[of seed es']) auto
  qed
  then show ?thesis using False h by (simp add: handle_inbound_def)
qed

subsection \<open>From the bus to the flow\<close>

text \<open>
  C8. Provided the accounts authority is wired into the dispatcher and the router, a newcomer on no list of an
  untrusted source who has no account of good standing meets the onboarding flow or nothing: no command of his
  runs, and the turn of his message, alone in its batch, runs no flow but that one, whatever flows are
  registered and whichever accepts the scope. Where the optional accounts module is absent the router has no
  permission gate and this is not so (\<^verbatim>\<open>no_authority_no_gate\<close>).
\<close>

theorem newcomer_meets_only_intro:
  assumes "handle_inbound env st ev = (es, st')" and "\<not> IsInternal ev"
    and "\<not> Authorized (policyFor (ib_screener st) (message_event.ev_Source ev)) (message_event.ev_ChatID ev) (message_event.ev_UserID ev)"
    and "ne_source env (message_event.ev_Source ev) = Some caps" and "\<not> cp_Trusted caps"
    and "\<not> screener_IsAdmin (ib_screener st') (message_event.ev_Source ev) (message_event.ev_ChatID ev) (message_event.ev_UserID ev)"
    and "ne_accounts env = Some acc" and "na_AccountFor acc = AccountFor store"
    and "AccountFor store ev = (info, bound)"
    and "\<not> bound \<or> ai_Status info = ''paused'' \<or> EntitledFlows (ai_Flow info) = []"
  shows "DispatchSlash e tg \<notin> set es
     \<and> (SubmitTurn e \<in> set es \<and> RunFlow f w' \<in> set (RunTurn flows (Some (AccountFor store)) gateway (work\<lparr>wk_Events := [e]\<rparr>))
          \<longrightarrow> fl_Name f = ''intro'')"
proof -
  have adm: "\<not> admin \<and> onboarding" if "admitted env st st' ev caps' onboarding admin" for caps' onboarding admin
    using that assms(3-6) by (auto simp: admitted_def Let_def split: if_splits)
  have "DispatchSlash e tg \<notin> set es"
  proof
    assume d: "DispatchSlash e tg \<in> set es"
    from acted_on[OF assms(1,2) d, of e tg] adm have na: "\<not> message_event.ev_IsAdmin e" by blast
    show False
      using command_standing[OF assms(1) d na assms(7-9)] adm assms(10) by blast
  qed
  moreover have "fl_Name f = ''intro''" if "SubmitTurn e \<in> set es"
    and run: "RunFlow f w' \<in> set (RunTurn flows (Some (AccountFor store)) gateway (work\<lparr>wk_Events := [e]\<rparr>))"
  proof (rule ccontr)
    assume ni: "fl_Name f \<noteq> ''intro''"
    from acted_on[OF assms(1,2) that(1), of e tg] adm
    have na: "\<not> message_event.ev_IsAdmin e" and ah: "AccountHandle e = AccountHandle ev"
      and src: "message_event.ev_Source e = message_event.ev_Source ev" by blast+
    have "FirstHumanEvent (wk_Events (work\<lparr>wk_Events := [e]\<rparr>)) = Some e"
      using assms(2) src by (simp add: FirstHumanEvent_def IsInternal_def)
    from human_run_account[OF run this na ni]
    show False using assms(9,10) AccountFor_handle[OF ah, of store] by (auto simp: AccountFor_def ah)
  qed
  ultimately show ?thesis by blast
qed

lemma demo_newcomer:
  "\<not> Authorized (policyFor (ib_screener demo_inbound) (message_event.ev_Source (demo_says ''7'')))
       (message_event.ev_ChatID (demo_says ''7'')) (message_event.ev_UserID (demo_says ''7''))"
  "\<not> screener_IsAdmin (ib_screener (snd (handle_inbound (demo_env demo_store) demo_inbound (demo_says ''7''))))
       (message_event.ev_Source (demo_says ''7'')) (message_event.ev_ChatID (demo_says ''7'')) (message_event.ev_UserID (demo_says ''7''))"
  by code_simp+

theorem newcomer_meets_only_intro_witness:
  "RunFlow normal_flow demo_work \<notin> set (RunTurn [normal_flow] (Some (AccountFor demo_store)) None
      (demo_work\<lparr>wk_Events := [demo_turn_event]\<rparr>))"
proof
  assume r: "RunFlow normal_flow demo_work \<in> set (RunTurn [normal_flow] (Some (AccountFor demo_store)) None
      (demo_work\<lparr>wk_Events := [demo_turn_event]\<rparr>))"
  have h: "handle_inbound (demo_env demo_store) demo_inbound (demo_says ''7'')
    = ([SubmitTurn demo_turn_event], snd (handle_inbound (demo_env demo_store) demo_inbound (demo_says ''7'')))"
    using demo_newcomer_turn by (simp add: prod_eq_iff)
  have src: "ne_source (demo_env demo_store) (message_event.ev_Source (demo_says ''7''))
      = Some \<lparr> cp_ReplyTo = True, cp_Trusted = False, cp_RedeemConfirmAll = False \<rparr>"
    and acc: "ne_accounts (demo_env demo_store) = Some \<lparr> na_AccountFor = AccountFor demo_store, na_LangFor = (\<lambda>_ _. None) \<rparr>"
    by (simp_all add: demo_env_def demo_says_def demo_sender_def)
  have af: "AccountFor demo_store (demo_says ''7'') = (no_account, False)"
    by (simp add: AccountFor_def demo_store_def)
  from newcomer_meets_only_intro[OF h demo_external demo_newcomer(1) src _ demo_newcomer(2) acc _ af,
      of demo_turn_event no_target normal_flow demo_work "[normal_flow]" None demo_work] r
  show False by (simp add: normal_flow_def)
qed

subsection \<open>Albums\<close>

text \<open>The album siblings of a command, one after the other, with the answers the duplicate check gives.\<close>

fun album_run :: "(string, gtime) gomap \<Rightarrow> (gtime \<times> message_event) list \<Rightarrow> bool list" where
  "album_run seen [] = []"
| "album_run seen ((now, ev) # evs) =
     (let (dup, seen') = albumSlashDup now seen ev in dup # album_run seen' evs)"

lemma albumSlashDup_remembers:
  assumes "gget seen k = Some exp" and "gmap_ok seen" and "now \<le> exp"
    and "albumSlashDup now seen ev = (dup, seen')" and "album_slash_key ev = k \<Longrightarrow> ev_MediaGroupID ev \<noteq> []"
  shows "gget seen' k = Some exp \<and> gmap_ok seen' \<and> (album_slash_key ev = k \<longrightarrow> dup)"
proof (cases "ev_MediaGroupID ev = []")
  case True
  then show ?thesis using assms by (auto simp: albumSlashDup_def)
next
  case False
  define live where "live = filter (\<lambda>(k, exp). \<not> now > exp) seen"
  have mem: "gget live k = Some exp"
    unfolding live_def using assms(1,3) gget_filter_kv[OF assms(2), of "\<lambda>k exp. \<not> now > exp" k] by simp
  have ok: "gmap_ok live" using assms(2) by (simp add: live_def)
  have "ghas live k" using mem by (simp add: ghas_def)
  then show ?thesis
    using assms(4) False mem ok by (auto simp: albumSlashDup_def live_def[symmetric] Let_def split: if_splits)
qed

lemma album_run_all_dup:
  assumes "gget seen k = Some exp" and "gmap_ok seen"
    and "\<And>now ev. (now, ev) \<in> set evs \<Longrightarrow> now \<le> exp \<and> album_slash_key ev = k \<and> ev_MediaGroupID ev \<noteq> []"
  shows "album_run seen evs = replicate (length evs) True"
  using assms
proof (induction evs arbitrary: seen)
  case (Cons a evs)
  obtain now ev where a: "a = (now, ev)" by (cases a)
  obtain dup seen' where d: "albumSlashDup now seen ev = (dup, seen')" by fastforce
  have "now \<le> exp \<and> album_slash_key ev = k \<and> ev_MediaGroupID ev \<noteq> []" using Cons.prems(3)[of now ev] a by simp
  with albumSlashDup_remembers[OF Cons.prems(1,2) _ d] have "gget seen' k = Some exp" "gmap_ok seen'" "dup" by auto
  moreover have "album_run seen' evs = replicate (length evs) True"
    by (rule Cons.IH) (use calculation Cons.prems(3) in auto)
  ultimately show ?case by (simp add: a d)
qed simp

text \<open>
  A command in the caption of an album runs once: of the siblings that arrive within ten minutes of the
  first, every one but the first is dropped, whatever other albums the memory holds.
\<close>

theorem album_command_runs_once:
  assumes "gmap_ok seen" and "ev_MediaGroupID ev \<noteq> []" and "\<not> ghas seen (album_slash_key ev)"
    and "\<And>t e. (t, e) \<in> set evs \<Longrightarrow> t \<le> now + slashAlbumTTL \<and> ev_MediaGroupID e \<noteq> []
          \<and> album_slash_key e = album_slash_key ev"
  shows "album_run seen ((now, ev) # evs) = False # replicate (length evs) True"
proof -
  let ?live = "filter (\<lambda>(k, exp). \<not> now > exp) seen" and ?k = "album_slash_key ev"
  have "\<not> ghas ?live ?k" using assms(3) by (auto simp: ghas_iff)
  then have d: "albumSlashDup now seen ev = (False, gput ?k (now + slashAlbumTTL) ?live)"
    using assms(2) by (simp add: albumSlashDup_def)
  have "album_run (gput ?k (now + slashAlbumTTL) ?live) evs = replicate (length evs) True"
    by (rule album_run_all_dup[of _ ?k "now + slashAlbumTTL"]) (use assms(1,4) in auto)
  then show ?thesis by (simp add: d)
qed

theorem album_command_runs_once_witness:
  "let e = demo_sender\<lparr>ev_MediaGroupID := ''g''\<rparr>
   in album_run [] [(0, e), (second, e), (minute, e)] = [False, True, True]"
proof -
  let ?e = "demo_sender\<lparr>ev_MediaGroupID := ''g''\<rparr>"
  have "album_run [] ((0, ?e) # [(second, ?e), (minute, ?e)]) = False # replicate (length [(second, ?e), (minute, ?e)]) True"
    by (rule album_command_runs_once) (auto simp: slashAlbumTTL_def duration_defs)
  then show ?thesis by (simp add: numeral_2_eq_2)
qed

end
