(* ===== verification/Gate_Write.thy ===== *)
theory Gate_Write
  imports Gate_Rejected
begin

section \<open>Granting access by surgery on the policy file\<close>

text \<open>
  \<^verbatim>\<open>src/leaf/gate/50-write.go\<close>: adding a sender to an allowlist in the YAML document of a
  source, touching nothing else, and the grant operations with their guards. A \<^verbatim>\<open>yaml.Node\<close> is a
  tree with the fields the code reads and writes (the double-quoted style is a flag); what the
  code does to nodes in place is a function from the old tree to the new one. Parsing bytes to a
  node tree and back is the YAML library's: the arguments \<open>parse\<close> and \<open>marshal\<close>, where \<open>parse\<close>
  gives no node for a document without content. \<open>topKeys\<close> stands for decoding the top level to
  a map: its keys, or nothing when that fails.
\<close>

datatype ykind = KDocument | KMapping | KSequence | KScalar | KAlias

datatype ynode = YNode (y_kind: ykind) (y_value: string) (y_tag: string) (y_quoted: bool) (y_content: "ynode list")

datatype gate_error =
    ApplicantDenied
  | EmptyUser
  | EmptyChat
  | InvalidSource string
  | ReadFailed
  | UnmodelledKey string
  | ParseFailed string
  | RootNotMapping
  | NotSequence string
  | NotMapping string
  | MarshalFailed string
  | WriteFailed
  | ReloadBroken bool

definition scalar :: "string \<Rightarrow> ynode" where
  "scalar v = YNode KScalar v [] False []"

definition qscalar :: "string \<Rightarrow> ynode" where
  "qscalar v = YNode KScalar v [] True []"

definition mapping_of :: "ynode list \<Rightarrow> ynode" where
  "mapping_of xs = YNode KMapping [] [] False xs"

definition sequence_of :: "ynode list \<Rightarrow> ynode" where
  "sequence_of xs = YNode KSequence [] [] False xs"

definition set_content :: "ynode \<Rightarrow> ynode list \<Rightarrow> ynode" where
  "set_content n xs = YNode (y_kind n) (y_value n) (y_tag n) (y_quoted n) xs"

text \<open>The index of the value node of a key in the alternating contents of a mapping.\<close>

fun key_index :: "string \<Rightarrow> ynode list \<Rightarrow> nat option" where
  "key_index key (k # v # rest) =
     (if y_value k = key then Some 1 else map_option (\<lambda>i. i + 2) (key_index key rest))"
| "key_index key xs = None"

definition childByKey :: "ynode \<Rightarrow> string \<Rightarrow> ynode option" where
  "childByKey m key = map_option (\<lambda>i. y_content m ! i) (key_index key (y_content m))"

definition set_child :: "ynode \<Rightarrow> string \<Rightarrow> ynode \<Rightarrow> ynode \<Rightarrow> ynode" where
  "set_child m key keyNode v =
     (case key_index key (y_content m) of
        Some i \<Rightarrow> set_content m ((y_content m)[i := v])
      | None \<Rightarrow> set_content m (y_content m @ [keyNode, v]))"

text \<open>The common end of both patches: a blank value is upgraded, a value that is not a sequence is an
  error, an entry already there leaves the document alone (\<open>None\<close>).\<close>

definition seq_add :: "string \<Rightarrow> ynode option \<Rightarrow> string \<Rightarrow> gate_error + ynode option" where
  "seq_add what seq uid =
     (case seq of
        None \<Rightarrow> Inr (Some (sequence_of [qscalar uid]))
      | Some n0 \<Rightarrow>
          let n = (if y_kind n0 = KScalar \<and> y_tag n0 = ''!!null'' then sequence_of [] else n0)
          in if y_kind n \<noteq> KSequence then Inl (NotSequence what)
             else if list_ex (\<lambda>it. idEqual (y_value it) uid) (y_content n) then Inr None
             else Inr (Some (set_content n (y_content n @ [qscalar uid]))))"

definition patch_list_root :: "ynode \<Rightarrow> string \<Rightarrow> string \<Rightarrow> gate_error + ynode option" where
  "patch_list_root root key uid =
     (case seq_add key (childByKey root key) uid of
        Inl e \<Rightarrow> Inl e
      | Inr None \<Rightarrow> Inr None
      | Inr (Some seq) \<Rightarrow> Inr (Some (set_child root key (scalar key) seq)))"

definition patch_group_root :: "ynode \<Rightarrow> string \<Rightarrow> string \<Rightarrow> gate_error + ynode option" where
  "patch_group_root root chatID uid =
     (let groups = (case childByKey root ''groups'' of None \<Rightarrow> mapping_of [] | Some g \<Rightarrow> g)
      in if y_kind groups \<noteq> KMapping then Inl (NotMapping ''groups'')
         else let chat = (case childByKey groups chatID of None \<Rightarrow> mapping_of [] | Some c \<Rightarrow> c)
              in if y_kind chat \<noteq> KMapping then Inl (NotMapping chatID)
                 else case seq_add ''allowlist_add'' (childByKey chat ''allowlist_add'') uid of
                        Inl e \<Rightarrow> Inl e
                      | Inr None \<Rightarrow> Inr None
                      | Inr (Some seq) \<Rightarrow>
                          Inr (Some (set_child root ''groups'' (scalar ''groups'')
                            (set_child groups chatID (qscalar chatID)
                              (set_child chat ''allowlist_add'' (scalar ''allowlist_add'') seq)))))"

definition doc_root :: "(string \<Rightarrow> string + ynode option) \<Rightarrow> string \<Rightarrow> gate_error + ynode" where
  "doc_root parse raw =
     (case (if trim_space raw \<noteq> [] then parse raw else Inr None) of
        Inl err \<Rightarrow> Inl (ParseFailed err)
      | Inr None \<Rightarrow> Inr (YNode KDocument [] [] False [mapping_of []])
      | Inr (Some doc) \<Rightarrow> Inr doc)"

definition patch_doc :: "(ynode \<Rightarrow> gate_error + ynode option) \<Rightarrow> (string \<Rightarrow> string + ynode option)
    \<Rightarrow> (ynode \<Rightarrow> string + string) \<Rightarrow> string \<Rightarrow> gate_error + (string \<times> bool)" where
  "patch_doc patch parse marshal raw =
     (case doc_root parse raw of
        Inl e \<Rightarrow> Inl e
      | Inr doc \<Rightarrow>
          (case y_content doc of
             [] \<Rightarrow> Inl RootNotMapping
           | root # rest \<Rightarrow>
               if y_kind root \<noteq> KMapping then Inl RootNotMapping
               else case patch root of
                      Inl e \<Rightarrow> Inl e
                    | Inr None \<Rightarrow> Inr (raw, False)
                    | Inr (Some root') \<Rightarrow>
                        (case marshal (set_content doc (root' # rest)) of
                           Inl err \<Rightarrow> Inl (MarshalFailed err)
                         | Inr out \<Rightarrow> Inr (out, True))))"

definition patchPolicyList :: "(string \<Rightarrow> string + ynode option) \<Rightarrow> (ynode \<Rightarrow> string + string)
    \<Rightarrow> string \<Rightarrow> string \<Rightarrow> string \<Rightarrow> gate_error + (string \<times> bool)" where
  "patchPolicyList parse marshal raw key uid = patch_doc (\<lambda>root. patch_list_root root key uid) parse marshal raw"

definition patchGroupAllowlistAdd :: "(string \<Rightarrow> string + ynode option) \<Rightarrow> (ynode \<Rightarrow> string + string)
    \<Rightarrow> string \<Rightarrow> string \<Rightarrow> string \<Rightarrow> gate_error + (string \<times> bool)" where
  "patchGroupAllowlistAdd parse marshal raw chatID uid = patch_doc (\<lambda>root. patch_group_root root chatID uid) parse marshal raw"

definition modelled_keys :: "string list" where
  "modelled_keys = [''allow_all'', ''allowlist'', ''denylist'', ''admins'', ''groups'', ''onboarding'']"

definition guardTopKeys :: "(string \<Rightarrow> string list option) \<Rightarrow> string \<Rightarrow> gate_error option" where
  "guardTopKeys topKeys raw =
     (if raw = [] then None
      else case topKeys raw of
             None \<Rightarrow> None
           | Some ks \<Rightarrow> (case find (\<lambda>k. k \<notin> set modelled_keys) ks of None \<Rightarrow> None | Some k \<Rightarrow> Some (UnmodelledKey k)))"

subsection \<open>The granter\<close>

definition sourceNameRe :: "string \<Rightarrow> bool" where
  "sourceNameRe s \<longleftrightarrow> s \<noteq> [] \<and> list_all (\<lambda>c. between 65 90 c \<or> between 97 122 c \<or> between 48 57 c
     \<or> c = CHR ''_'' \<or> c = CHR ''.'' \<or> c = CHR ''-'') s"

text \<open>The policy directory: source name to file contents; \<open>None\<close> for a file that cannot be read.\<close>

record granter =
  gr_files :: "(string, string option) gomap"
  gr_writable :: bool
  gr_rejected :: rejectedSenders

record yaml_lib =
  yl_parse :: "string \<Rightarrow> string + ynode option"
  yl_marshal :: "ynode \<Rightarrow> string + string"
  yl_topKeys :: "string \<Rightarrow> string list option"

definition gr_patch :: "yaml_lib \<Rightarrow> (string \<Rightarrow> gate_error + (string \<times> bool)) \<Rightarrow> granter \<Rightarrow> string
    \<Rightarrow> (gate_error + bool) \<times> granter" where
  "gr_patch lib patch g source =
     (case gget (gr_files g) source of
        Some None \<Rightarrow> (Inl ReadFailed, g)
      | file \<Rightarrow>
          let raw = (case file of Some (Some r) \<Rightarrow> r | _ \<Rightarrow> [])
          in case guardTopKeys (yl_topKeys lib) raw of
               Some e \<Rightarrow> (Inl e, g)
             | None \<Rightarrow>
                 (case patch raw of
                    Inl e \<Rightarrow> (Inl e, g)
                  | Inr (out, False) \<Rightarrow> (Inr False, g)
                  | Inr (out, True) \<Rightarrow>
                      if \<not> gr_writable g then (Inl WriteFailed, g)
                      else (Inr True, g\<lparr>gr_files := gput source (Some out) (gr_files g)\<rparr>)))"

definition gr_write :: "yaml_lib \<Rightarrow> granter \<Rightarrow> string \<Rightarrow> string \<Rightarrow> (gate_error + bool) \<times> granter" where
  "gr_write lib g source uid =
     (if trim_space uid = [] then (Inl EmptyUser, g)
      else if \<not> sourceNameRe source then (Inl (InvalidSource source), g)
      else gr_patch lib (\<lambda>raw. patchPolicyList (yl_parse lib) (yl_marshal lib) raw ''allowlist'' uid) g source)"

definition writeInChat :: "yaml_lib \<Rightarrow> granter \<Rightarrow> string \<Rightarrow> string \<Rightarrow> string \<Rightarrow> (gate_error + bool) \<times> granter" where
  "writeInChat lib g source chatID uid =
     (if trim_space uid = [] then (Inl EmptyUser, g)
      else if trim_space chatID = [] then (Inl EmptyChat, g)
      else if \<not> sourceNameRe source then (Inl (InvalidSource source), g)
      else gr_patch lib (\<lambda>raw. patchGroupAllowlistAdd (yl_parse lib) (yl_marshal lib) raw chatID uid) g source)"

definition WriteWhole :: "granter \<Rightarrow> string \<Rightarrow> string \<Rightarrow> gate_error option \<times> granter" where
  "WriteWhole g source body =
     (if \<not> sourceNameRe source then (Some (InvalidSource source), g)
      else if \<not> gr_writable g then (Some WriteFailed, g)
      else (None, g\<lparr>gr_files := gput source (Some body) (gr_files g)\<rparr>))"

text \<open>\<open>denied\<close> is the live policy's answer, \<open>reload\<close> whether the hot swap succeeds.\<close>

definition Allow :: "yaml_lib \<Rightarrow> (string \<Rightarrow> string \<Rightarrow> string \<Rightarrow> bool) \<Rightarrow> (granter \<Rightarrow> bool) \<Rightarrow> granter \<Rightarrow> string \<Rightarrow> string
    \<Rightarrow> (gate_error + bool) \<times> granter" where
  "Allow lib denied reload g source uid =
     (if denied source [] uid then (Inl ApplicantDenied, g)
      else case gr_write lib g source uid of
             (Inl e, g1) \<Rightarrow> (Inl e, g1)
           | (Inr changed, g1) \<Rightarrow>
               if \<not> reload g1 then (Inl (ReloadBroken changed), g1)
               else (Inr changed, g1\<lparr>gr_rejected := ForgetUser (gr_rejected g1) source uid\<rparr>))"

definition AllowInChat :: "yaml_lib \<Rightarrow> (string \<Rightarrow> string \<Rightarrow> string \<Rightarrow> bool) \<Rightarrow> (granter \<Rightarrow> bool) \<Rightarrow> granter \<Rightarrow> string \<Rightarrow> string
    \<Rightarrow> string \<Rightarrow> (gate_error + bool) \<times> granter" where
  "AllowInChat lib denied reload g source chatID uid =
     (if denied source chatID uid then (Inl ApplicantDenied, g)
      else case writeInChat lib g source chatID uid of
             (Inl e, g1) \<Rightarrow> (Inl e, g1)
           | (Inr changed, g1) \<Rightarrow>
               if \<not> reload g1 then (Inl (ReloadBroken changed), g1)
               else (Inr changed, g1\<lparr>gr_rejected := ForgetUserInChat (gr_rejected g1) source chatID uid\<rparr>))"

subsection \<open>Children of a mapping\<close>

lemma key_index_less: "key_index key xs = Some i \<Longrightarrow> i < length xs \<and> odd i"
  by (induction key xs arbitrary: i rule: key_index.induct) (auto split: if_splits)

lemma key_index_update:
  "key_index key xs = Some i \<Longrightarrow> key_index k (xs[i := v]) = key_index k xs"
proof (induction key xs arbitrary: i rule: key_index.induct)
  case (1 key a b rest)
  show ?case
  proof (cases "y_value a = key")
    case True
    with 1(2) have "i = 1" by simp
    then show ?thesis by simp
  next
    case False
    with 1(2) obtain j where j: "key_index key rest = Some j" "i = j + 2" by auto
    with 1(1)[OF False j(1)] show ?thesis by simp
  qed
qed auto

lemma key_index_other: "key_index key xs = Some i \<Longrightarrow> k \<noteq> key \<Longrightarrow> key_index k xs \<noteq> Some i"
proof (induction key xs arbitrary: i rule: key_index.induct)
  case (1 key a b rest)
  then show ?case by (auto split: if_splits)
qed auto

lemma key_index_append:
  "even (length xs) \<Longrightarrow> key_index k (xs @ [kn, v]) =
     (case key_index k xs of Some i \<Rightarrow> Some i | None \<Rightarrow> if y_value kn = k then Some (length xs + 1) else None)"
  by (induction k xs rule: key_index.induct) (auto split: option.splits)

text \<open>Setting a child changes that child only.\<close>

lemma childByKey_set:
  assumes "even (length (y_content m))" and "y_value kn = key"
  shows "childByKey (set_child m key kn v) k = (if k = key then Some v else childByKey m k)"
proof (cases "key_index key (y_content m)")
  case None
  have "y_content m ! i = (y_content m @ [kn, v]) ! i" if "key_index k (y_content m) = Some i" for i
    using key_index_less[OF that] by (simp add: nth_append)
  then show ?thesis using None assms
    by (auto simp: childByKey_def set_child_def set_content_def key_index_append nth_append split: option.splits)
next
  case (Some i)
  then have "i < length (y_content m)" using key_index_less by blast
  moreover have "(y_content m)[i := v] ! j = y_content m ! j" if "key_index k (y_content m) = Some j" "k \<noteq> key" for j
    using key_index_other[OF Some that(2)] that(1) by (metis nth_list_update_neq)
  ultimately show ?thesis using Some key_index_update[OF Some, of k v]
    by (cases "key_index k (y_content m)") (auto simp: childByKey_def set_child_def set_content_def)
qed

lemma set_child_even: "even (length (y_content m)) \<Longrightarrow> even (length (y_content (set_child m key kn v)))"
  by (auto simp: set_child_def set_content_def split: option.splits)

lemma set_child_kind [simp]: "y_kind (set_child m key kn v) = y_kind m"
  by (simp add: set_child_def set_content_def split: option.splits)

subsection \<open>The surgery\<close>

definition is_null :: "ynode \<Rightarrow> bool" where
  "is_null n \<longleftrightarrow> y_kind n = KScalar \<and> y_tag n = ''!!null''"

text \<open>The entries of a list value: none when it is absent or blank.\<close>

definition entries :: "ynode option \<Rightarrow> string list" where
  "entries n = (case n of None \<Rightarrow> [] | Some x \<Rightarrow> if is_null x then [] else map y_value (y_content x))"

lemma seq_add_Some:
  assumes "seq_add what seq uid = Inr (Some n)"
  shows "y_kind n = KSequence \<and> entries (Some n) = entries seq @ [uid] \<and> seq_add what (Some n) uid = Inr None"
proof (cases seq)
  case None
  with assms show ?thesis
    by (auto simp: seq_add_def entries_def is_null_def sequence_of_def qscalar_def Let_def)
next
  case (Some m)
  with assms show ?thesis
    by (auto simp: seq_add_def entries_def is_null_def sequence_of_def qscalar_def set_content_def Let_def split: if_splits)
qed

lemma seq_add_None:
  assumes "seq_add what seq uid = Inr None"
  shows "\<exists>x \<in> set (entries seq). idEqual x uid"
proof (cases seq)
  case None
  with assms show ?thesis by (simp add: seq_add_def)
next
  case (Some n)
  with assms have "\<not> is_null n" "list_ex (\<lambda>it. idEqual (y_value it) uid) (y_content n)"
    by (auto simp: seq_add_def is_null_def sequence_of_def Let_def split: if_splits)
  with Some show ?thesis by (auto simp: entries_def list_ex_iff)
qed

text \<open>
  A source-wide grant is surgical: patching the allowlist of a policy document appends exactly
  this one entry to the allowlist (creating it, or upgrading a blank one), leaves the value of every
  other top-level key identical, and doing it again changes nothing; it reports no change only when
  an entry with the same identity is already there.
\<close>

theorem allowlist_patch_is_surgical:
  assumes "even (length (y_content root))" and "patch_list_root root key uid = Inr r"
  shows "case r of
      None \<Rightarrow> \<exists>x \<in> set (entries (childByKey root key)). idEqual x uid
    | Some root' \<Rightarrow> entries (childByKey root' key) = entries (childByKey root key) @ [uid]
        \<and> (\<forall>k. k \<noteq> key \<longrightarrow> childByKey root' k = childByKey root k)
        \<and> y_kind root' = y_kind root \<and> patch_list_root root' key uid = Inr None"
proof (cases r)
  case None
  with assms(2) show ?thesis
    by (auto simp: patch_list_root_def split: sum.splits option.splits dest: seq_add_None)
next
  case (Some root')
  with assms(2) obtain seq where s: "seq_add key (childByKey root key) uid = Inr (Some seq)"
    "root' = set_child root key (scalar key) seq" by (auto simp: patch_list_root_def split: sum.splits option.splits)
  have c: "childByKey root' k = (if k = key then Some seq else childByKey root k)" for k
    unfolding s(2) by (rule childByKey_set[OF assms(1)]) (simp add: scalar_def)
  from seq_add_Some[OF s(1)] have "patch_list_root root' key uid = Inr None" by (simp add: patch_list_root_def c)
  with Some s c seq_add_Some[OF s(1)] show ?thesis by simp
qed

definition demo_root :: ynode where
  "demo_root = mapping_of [scalar ''admins'', sequence_of [scalar ''root''], scalar ''allowlist'', YNode KScalar [] ''!!null'' False []]"

theorem allowlist_patch_is_surgical_witness:
  "\<exists>root'. patch_list_root demo_root ''allowlist'' ''u1'' = Inr (Some root')
     \<and> entries (childByKey root' ''allowlist'') = [''u1''] \<and> childByKey root' ''admins'' = Some (sequence_of [scalar ''root''])"
proof -
  have "even (length (y_content demo_root))" by (simp add: demo_root_def mapping_of_def)
  moreover obtain root' where r: "patch_list_root demo_root ''allowlist'' ''u1'' = Inr (Some root')"
    by (simp add: patch_list_root_def seq_add_def childByKey_def demo_root_def mapping_of_def scalar_def sequence_of_def)
  ultimately have "entries (childByKey root' ''allowlist'') = entries (childByKey demo_root ''allowlist'') @ [''u1'']"
    "childByKey root' ''admins'' = childByKey demo_root ''admins''"
    using allowlist_patch_is_surgical[of demo_root "''allowlist''" "''u1''" "Some root'"] by simp_all
  moreover have "entries (childByKey demo_root ''allowlist'') = []" "childByKey demo_root ''admins'' = Some (sequence_of [scalar ''root''])"
    by (simp_all add: entries_def is_null_def childByKey_def demo_root_def mapping_of_def scalar_def)
  ultimately show ?thesis using r by simp
qed

text \<open>What a group grant reads and writes: the entries under \<^verbatim>\<open>groups[chat].allowlist_add\<close>.\<close>

definition group_of :: "ynode \<Rightarrow> ynode" where
  "group_of root = (case childByKey root ''groups'' of None \<Rightarrow> mapping_of [] | Some g \<Rightarrow> g)"

definition chat_of :: "ynode \<Rightarrow> string \<Rightarrow> ynode" where
  "chat_of root chatID = (case childByKey (group_of root) chatID of None \<Rightarrow> mapping_of [] | Some c \<Rightarrow> c)"

text \<open>Every mapping node of a parsed document has as many values as keys.\<close>

fun well_formed :: "ynode \<Rightarrow> bool" where
  "well_formed (YNode k v t q xs) \<longleftrightarrow> (k = KMapping \<longrightarrow> even (length xs)) \<and> (\<forall>x \<in> set xs. well_formed x)"

lemma well_formed_child: "well_formed m \<Longrightarrow> childByKey m k = Some n \<Longrightarrow> well_formed n"
  by (cases m) (auto simp: childByKey_def dest!: key_index_less)

lemma well_formed_even: "well_formed m \<Longrightarrow> y_kind m = KMapping \<Longrightarrow> even (length (y_content m))"
  by (cases m) simp

text \<open>
  A per-chat grant is surgical: it appends exactly this entry to the chat's
  \<^verbatim>\<open>allowlist_add\<close>, and leaves every other key of the chat, every other chat and every other
  top-level key identical; doing it again changes nothing.
\<close>

theorem group_patch_is_surgical:
  assumes "well_formed root" and "y_kind root = KMapping" and "patch_group_root root chatID uid = Inr (Some root')"
  shows "entries (childByKey (chat_of root' chatID) ''allowlist_add'')
        = entries (childByKey (chat_of root chatID) ''allowlist_add'') @ [uid]
    \<and> (\<forall>k. k \<noteq> ''groups'' \<longrightarrow> childByKey root' k = childByKey root k)
    \<and> (\<forall>c. c \<noteq> chatID \<longrightarrow> childByKey (group_of root') c = childByKey (group_of root) c)
    \<and> (\<forall>k. k \<noteq> ''allowlist_add'' \<longrightarrow> childByKey (chat_of root' chatID) k = childByKey (chat_of root chatID) k)
    \<and> patch_group_root root' chatID uid = Inr None"
proof -
  let ?g = "group_of root" and ?c = "chat_of root chatID"
  from assms(3) obtain seq where s: "y_kind ?g = KMapping" "y_kind ?c = KMapping"
    "seq_add ''allowlist_add'' (childByKey ?c ''allowlist_add'') uid = Inr (Some seq)"
    "root' = set_child root ''groups'' (scalar ''groups'') (set_child ?g chatID (qscalar chatID)
        (set_child ?c ''allowlist_add'' (scalar ''allowlist_add'') seq))"
    by (auto simp: patch_group_root_def group_of_def chat_of_def Let_def split: if_splits sum.splits option.splits)
  let ?c' = "set_child ?c ''allowlist_add'' (scalar ''allowlist_add'') seq"
  let ?g' = "set_child ?g chatID (qscalar chatID) ?c'"
  have wg: "well_formed ?g" using assms(1) by (auto simp: group_of_def mapping_of_def dest: well_formed_child split: option.splits)
  then have wc: "well_formed ?c" by (auto simp: chat_of_def mapping_of_def dest: well_formed_child split: option.splits)
  have root: "childByKey root' k = (if k = ''groups'' then Some ?g' else childByKey root k)" for k
    unfolding s(4) by (rule childByKey_set) (use well_formed_even[OF assms(1,2)] in \<open>simp_all add: scalar_def\<close>)
  have grp: "childByKey ?g' k = (if k = chatID then Some ?c' else childByKey ?g k)" for k
    by (rule childByKey_set) (use well_formed_even[OF wg s(1)] in \<open>simp_all add: qscalar_def\<close>)
  have cht: "childByKey ?c' k = (if k = ''allowlist_add'' then Some seq else childByKey ?c k)" for k
    by (rule childByKey_set) (use well_formed_even[OF wc s(2)] in \<open>simp_all add: scalar_def\<close>)
  have g': "group_of root' = ?g'" by (simp add: group_of_def root)
  have c': "chat_of root' chatID = ?c'" unfolding chat_of_def[of root'] g' grp by simp
  have "patch_group_root root' chatID uid = Inr None"
    using seq_add_Some[OF s(3)] s(1,2) by (simp add: patch_group_root_def root grp cht)
  then show ?thesis unfolding g' c' root grp cht using seq_add_Some[OF s(3)] by simp
qed

lemma changed_case: "(case x of Inr (Some _) \<Rightarrow> True | _ \<Rightarrow> False) \<Longrightarrow> \<exists>r. x = Inr (Some r)"
  by (auto split: sum.splits option.splits)

theorem group_patch_is_surgical_witness:
  "\<exists>root'. patch_group_root demo_root ''c1'' ''u1'' = Inr (Some root')
     \<and> childByKey root' ''admins'' = Some (sequence_of [scalar ''root''])"
proof -
  have w: "well_formed demo_root" "y_kind demo_root = KMapping"
    by (simp_all add: demo_root_def mapping_of_def scalar_def sequence_of_def)
  have "case patch_group_root demo_root ''c1'' ''u1'' of Inr (Some _) \<Rightarrow> True | _ \<Rightarrow> False" by code_simp
  from changed_case[OF this] obtain root' where r: "patch_group_root demo_root ''c1'' ''u1'' = Inr (Some root')" by blast
  have "childByKey root' ''admins'' = childByKey demo_root ''admins''"
    using group_patch_is_surgical[OF w r, THEN conjunct2, THEN conjunct1] by simp
  moreover have "childByKey demo_root ''admins'' = Some (sequence_of [scalar ''root''])"
    by (simp add: childByKey_def demo_root_def mapping_of_def scalar_def)
  ultimately show ?thesis using r by simp
qed

text \<open>
  A blank \<^verbatim>\<open>allowlist:\<close> line is upgraded in place, but a blank \<^verbatim>\<open>groups:\<close> line makes every
  per-chat grant of that source fail.
\<close>

theorem blank_groups_refuses_chat_grants:
  assumes "childByKey root ''groups'' = Some n" and "is_null n"
  shows "patch_group_root root chatID uid = Inl (NotMapping ''groups'')"
  using assms by (simp add: patch_group_root_def is_null_def)

theorem blank_groups_refuses_chat_grants_witness:
  "patch_group_root (mapping_of [scalar ''groups'', YNode KScalar [] ''!!null'' False []]) ''c1'' ''u1'' = Inl (NotMapping ''groups'')"
  by (rule blank_groups_refuses_chat_grants[where n = "YNode KScalar [] ''!!null'' False []"])
    (simp_all add: childByKey_def mapping_of_def scalar_def is_null_def)

subsection \<open>The grant operations\<close>

lemma gr_patch_frame:
  "gr_patch lib patch g source = (r, g') \<Longrightarrow> gr_rejected g' = gr_rejected g \<and> gr_writable g' = gr_writable g
     \<and> (r \<noteq> Inr True \<longrightarrow> g' = g) \<and> (\<forall>s. s \<noteq> source \<longrightarrow> gget (gr_files g') s = gget (gr_files g) s)"
  by (auto simp: gr_patch_def Let_def split: option.splits sum.splits prod.splits bool.splits if_splits)

lemma gr_write_frame:
  "gr_write lib g source uid = (r, g') \<Longrightarrow> gr_rejected g' = gr_rejected g \<and> (r \<noteq> Inr True \<longrightarrow> g' = g)
     \<and> (\<forall>s. s \<noteq> source \<longrightarrow> gget (gr_files g') s = gget (gr_files g) s)"
  using gr_patch_frame[of lib "\<lambda>raw. patchPolicyList (yl_parse lib) (yl_marshal lib) raw ''allowlist'' uid" g source r g']
  by (auto simp: gr_write_def split: if_splits)

text \<open>
  A grant is either done and forgotten, or not forgotten: a denied applicant is refused with no
  effect; when the grant fails for any reason the sender's row stays in the rejected feed, and the
  file has changed only if the failure was that of the reload; when it succeeds every row of that
  identity on the source is gone and no other source's file was touched.
\<close>

theorem allow_is_consistent:
  assumes "Allow lib denied reload g source uid = (r, g')"
  shows "(denied source [] uid \<longrightarrow> r = Inl ApplicantDenied \<and> g' = g)
    \<and> (case r of
         Inl e \<Rightarrow> gr_rejected g' = gr_rejected g \<and> (e \<noteq> ReloadBroken True \<longrightarrow> g' = g)
       | Inr changed \<Rightarrow> (\<not> changed \<longrightarrow> gr_files g' = gr_files g)
           \<and> list_all (\<lambda>(k, e). \<not> (r_Source e = source \<and> idEqual (r_UserID e) uid)) (rs_m (gr_rejected g')))
    \<and> (\<forall>s. s \<noteq> source \<longrightarrow> gget (gr_files g') s = gget (gr_files g) s)"
proof (cases "denied source [] uid")
  case True
  with assms show ?thesis by (auto simp: Allow_def)
next
  case False
  obtain w g1 where w: "gr_write lib g source uid = (w, g1)" by fastforce
  note F = gr_write_frame[OF w]
  show ?thesis
  proof (cases w)
    case (Inl e)
    with False w assms F show ?thesis by (auto simp: Allow_def)
  next
    case (Inr changed)
    show ?thesis
    proof (cases "reload g1")
      case True
      with False w Inr assms F show ?thesis by (auto simp: Allow_def ForgetUser_def list_all_iff)
    next
      case no: False
      with False w Inr assms F show ?thesis by (auto simp: Allow_def)
    qed
  qed
qed

theorem allow_is_consistent_witness:
  "fst (Allow \<lparr>yl_parse = (\<lambda>r. Inr None), yl_marshal = (\<lambda>d. Inr ''x''), yl_topKeys = (\<lambda>r. Some [])\<rparr>
          (\<lambda>s c u. True) (\<lambda>g. True) \<lparr>gr_files = [], gr_writable = True, gr_rejected = NewRejectedSenders 5\<rparr> ''tg'' ''u1'')
     = Inl ApplicantDenied"
proof -
  let ?r = "Allow \<lparr>yl_parse = (\<lambda>r. Inr None), yl_marshal = (\<lambda>d. Inr ''x''), yl_topKeys = (\<lambda>r. Some [])\<rparr>
          (\<lambda>s c u. True) (\<lambda>g. True) \<lparr>gr_files = [], gr_writable = True, gr_rejected = NewRejectedSenders 5\<rparr> ''tg'' ''u1''"
  have "?r = (fst ?r, snd ?r)" by simp
  from allow_is_consistent[OF this] show ?thesis by blast
qed

end
