(* ===== verification/Housekeeper.thy ===== *)
theory Housekeeper
  imports Prelude
begin

section \<open>The housekeeping scheduler (trunk/30-housekeeping.go)\<close>

text \<open>
  One worker drains a priority queue of periodic tasks. The state is the \<^verbatim>\<open>houseKeeper\<close> struct:
  its task table (a pointer to a task is its index, the table only grows), the started and
  stopped flags, whether the worker's context is cancelled and whether the one-slot wake
  channel holds a token. What a task's \<^verbatim>\<open>Run\<close> does is the environment's choice, a
  \<open>run_outcome\<close>.
\<close>

definition idleCap :: duration where
  "idleCap = 24 * hour"

definition firstRunDelay :: duration where
  "firstRunDelay = 10 * minute"

definition failBackoffCap :: duration where
  "failBackoffCap = 6 * hour"

lemmas hk_consts = idleCap_def firstRunDelay_def failBackoffCap_def duration_defs

definition firstDue :: "duration \<Rightarrow> duration" where
  "firstDue period = (if period < firstRunDelay then period else firstRunDelay)"

record task =
  tk_name :: string
  tk_period :: duration
  tk_priority :: int
  tk_run :: bool \<comment> \<open>the Run field is not nil\<close>

record scheduled =
  sc_task :: task
  nextDue :: gtime
  fails :: nat

datatype run_outcome = RunOk | RunErr | RunCanceled | RunPanic

record houseKeeper =
  hk_tasks :: "scheduled list"
  hk_started :: bool
  hk_stopped :: bool
  hk_cancelled :: bool
  hk_wake :: bool

definition newHousekeeper :: houseKeeper where
  "newHousekeeper = \<lparr>hk_tasks = [], hk_started = False, hk_stopped = False,
     hk_cancelled = False, hk_wake = False\<rparr>"

definition signal :: "houseKeeper \<Rightarrow> houseKeeper" where
  "signal h = h\<lparr>hk_wake := True\<rparr>"

definition hk_register :: "houseKeeper \<Rightarrow> gtime \<Rightarrow> task \<Rightarrow> houseKeeper" where
  "hk_register h now t =
     (if \<not> tk_run t \<or> tk_period t \<le> 0 then h
      else if hk_stopped h then h
      else signal (h\<lparr>hk_tasks := hk_tasks h @
             [\<lparr>sc_task = t,
               nextDue = (if hk_started h then now + firstDue (tk_period t) else zero_time),
               fails = 0\<rparr>]\<rparr>))"

definition hk_start :: "houseKeeper \<Rightarrow> gtime \<Rightarrow> houseKeeper" where
  "hk_start h now =
     (if hk_started h then h
      else h\<lparr>hk_started := True,
             hk_tasks := map (\<lambda>st. if nextDue st = zero_time
                                    then st\<lparr>nextDue := now + firstDue (tk_period (sc_task st))\<rparr>
                                    else st) (hk_tasks h),
             hk_cancelled := False\<rparr>)"

text \<open>\<^verbatim>\<open>stop\<close> also waits for the worker to leave its loop; the wait changes no state.\<close>

definition hk_stop :: "houseKeeper \<Rightarrow> houseKeeper" where
  "hk_stop h = (let h' = h\<lparr>hk_stopped := True\<rparr>
                in if hk_started h then h'\<lparr>hk_cancelled := True\<rparr> else h')"

text \<open>\<^verbatim>\<open>collect\<close>: the loop over the task table, task \<open>i\<close> first.\<close>

fun collect_loop :: "gtime \<Rightarrow> nat \<Rightarrow> duration \<Rightarrow> scheduled list \<Rightarrow>
    duration \<times> nat list \<times> scheduled list" where
  "collect_loop now i wait [] = (wait, [], [])"
| "collect_loop now i wait (st # sts) =
     (if \<not> (nextDue st > now) then
        (let (w, due, sts') = collect_loop now (Suc i) wait sts
         in (w, i # due, st\<lparr>nextDue := now + tk_period (sc_task st)\<rparr> # sts'))
      else
        (let d = nextDue st - now;
             (w, due, sts') = collect_loop now (Suc i) (if d < wait then d else wait) sts
         in (w, due, st # sts')))"

definition collect :: "houseKeeper \<Rightarrow> gtime \<Rightarrow> duration \<times> nat list \<times> houseKeeper" where
  "collect h now =
     (let (wait, due, sts) = collect_loop now 0 idleCap (hk_tasks h)
      in (wait, due, h\<lparr>hk_tasks := sts\<rparr>))"

text \<open>The stable sort of the due batch: highest priority first, then the name.\<close>

definition due_key :: "houseKeeper \<Rightarrow> nat \<Rightarrow> int \<times> string" where
  "due_key h i = (let t = sc_task (hk_tasks h ! i) in (- tk_priority t, tk_name t))"

definition sort_due :: "houseKeeper \<Rightarrow> nat list \<Rightarrow> nat list" where
  "sort_due h due = sort_key (due_key h) due"

fun backoff_loop :: "nat \<Rightarrow> duration \<Rightarrow> duration \<Rightarrow> duration" where
  "backoff_loop 0 limit backoff = backoff"
| "backoff_loop (Suc k) limit backoff =
     (if backoff < limit then backoff_loop k limit (backoff * 2) else backoff)"

definition backoff_limit :: "duration \<Rightarrow> duration" where
  "backoff_limit period = (if period > failBackoffCap then period else failBackoffCap)"

definition task_backoff :: "duration \<Rightarrow> nat \<Rightarrow> duration" where
  "task_backoff period n =
     (let limit = backoff_limit period; b = backoff_loop n limit period
      in if b > limit then limit else b)"

text \<open>Whether a run counts as a failure: an error after the worker's context was cancelled is
  an orderly stop.\<close>

definition run_failed :: "houseKeeper \<Rightarrow> run_outcome \<Rightarrow> bool" where
  "run_failed h out = (case out of
      RunOk \<Rightarrow> False
    | RunErr \<Rightarrow> True
    | RunCanceled \<Rightarrow> \<not> hk_cancelled h
    | RunPanic \<Rightarrow> True)"

definition runOnce :: "houseKeeper \<Rightarrow> gtime \<Rightarrow> nat \<Rightarrow> run_outcome \<Rightarrow> houseKeeper" where
  "runOnce h now i out =
     (let st = hk_tasks h ! i in
      if \<not> run_failed h out then
        h\<lparr>hk_tasks := (hk_tasks h)[i := st\<lparr>fails := 0\<rparr>]\<rparr>
      else
        (let n = Suc (fails st);
             period = tk_period (sc_task st);
             backoff = task_backoff period n;
             st' = st\<lparr>fails := n\<rparr>
         in h\<lparr>hk_tasks := (hk_tasks h)[i :=
              (if backoff > period then st'\<lparr>nextDue := now + backoff\<rparr> else st')]\<rparr>))"

text \<open>The serial run of one sorted batch. Before each task the worker looks at its context:
  \<open>env i\<close> says, for task \<open>i\<close> of the batch, whether the context is cancelled by then, when
  the run ends and how. The result is the state, the tasks run, and whether the loop goes on.\<close>

record run_env =
  re_cancelled :: bool
  re_now :: gtime
  re_outcome :: run_outcome

fun run_batch :: "(nat \<Rightarrow> run_env) \<Rightarrow> houseKeeper \<Rightarrow> nat list \<Rightarrow> houseKeeper \<times> nat list \<times> bool" where
  "run_batch env h [] = (h, [], True)"
| "run_batch env h (i # is) =
     (let h1 = h\<lparr>hk_cancelled := hk_cancelled h \<or> re_cancelled (env i)\<rparr> in
      if hk_cancelled h1 then (h1, [], False)
      else (let (h', rs, go) = run_batch env (runOnce h1 (re_now (env i)) i (re_outcome (env i))) is
            in (h', i # rs, go)))"

text \<open>One pass of \<^verbatim>\<open>loop\<close>: the batch that is due, or the sleep, which ends with the context, a
  wake token or the timer.\<close>

datatype wait_event = CtxDone | Woken | TimerFired

datatype loop_step = Ran "nat list" | Slept duration | Exit

definition hk_loop_pass :: "(nat \<Rightarrow> run_env) \<Rightarrow> wait_event \<Rightarrow> houseKeeper \<Rightarrow> gtime \<Rightarrow>
    houseKeeper \<times> loop_step" where
  "hk_loop_pass env ev h now =
     (let (wait, due, h1) = collect h now in
      if due \<noteq> [] then
        (let (h2, rs, go) = run_batch env h1 (sort_due h1 due)
         in (h2, if go then Ran rs else Exit))
      else case ev of
             CtxDone \<Rightarrow> (h1, Exit)
           | Woken \<Rightarrow> (h1\<lparr>hk_wake := False\<rparr>, Slept wait)
           | TimerFired \<Rightarrow> (h1, Slept wait))"

subsection \<open>collect\<close>

lemma collect_loop_len: "collect_loop now i w sts = (w', due, sts') \<Longrightarrow> length sts' = length sts"
  by (induction now i w sts arbitrary: w' due sts' rule: collect_loop.induct)
    (auto split: if_splits prod.splits simp: Let_def)

lemma collect_loop_due:
  "collect_loop now i w sts = (w', due, sts') \<Longrightarrow>
     due = map (\<lambda>j. i + j) (filter (\<lambda>j. nextDue (sts ! j) \<le> now) [0..<length sts])"
proof (induction now i w sts arbitrary: w' due sts' rule: collect_loop.induct)
  case (1 now i wait)
  then show ?case by simp
next
  case (2 now i wait st sts)
  have idx: "[0..<length (st # sts)] = 0 # map Suc [0..<length sts]"
    by (simp add: upt_conv_Cons map_Suc_upt del: upt_Suc)
  show ?case
  proof (cases "nextDue st > now")
    case False
    with "2.prems" obtain w1 d1 s1 where r: "collect_loop now (Suc i) wait sts = (w1, d1, s1)"
      and due: "due = i # d1" by (auto split: prod.splits simp: Let_def)
    from "2.IH"(1)[OF _ r] False
    have "d1 = map (\<lambda>j. Suc i + j) (filter (\<lambda>j. nextDue (sts ! j) \<le> now) [0..<length sts])" by simp
    with False due show ?thesis by (simp only: idx) (simp add: filter_map o_def)
  next
    case True
    let ?w = "if nextDue st - now < wait then nextDue st - now else wait"
    from True "2.prems" obtain w1 s1 where r: "collect_loop now (Suc i) ?w sts = (w1, due, s1)"
      by (auto split: prod.splits simp: Let_def)
    from "2.IH"(2)[OF _ refl r] True
    have "due = map (\<lambda>j. Suc i + j) (filter (\<lambda>j. nextDue (sts ! j) \<le> now) [0..<length sts])" by simp
    with True show ?thesis by (simp only: idx) (simp add: filter_map o_def)
  qed
qed

lemma collect_loop_tasks:
  "collect_loop now i w sts = (w', due, sts') \<Longrightarrow>
     sts' = map (\<lambda>st. if nextDue st \<le> now then st\<lparr>nextDue := now + tk_period (sc_task st)\<rparr> else st) sts"
  by (induction now i w sts arbitrary: w' due sts' rule: collect_loop.induct)
    (auto split: if_splits prod.splits simp: Let_def)

lemma collect_loop_wait:
  "collect_loop now i w sts = (w', due, sts') \<Longrightarrow>
     w' = Min (insert w ((\<lambda>st. nextDue st - now) ` {st \<in> set sts. nextDue st > now}))"
proof (induction now i w sts arbitrary: w' due sts' rule: collect_loop.induct)
  case (1 now i wait)
  then show ?case by simp
next
  case (2 now i wait st sts)
  let ?S = "(\<lambda>st. nextDue st - now) ` {st \<in> set sts. nextDue st > now}"
  show ?case
  proof (cases "nextDue st > now")
    case False
    with "2.prems" obtain d1 s1 where r: "collect_loop now (Suc i) wait sts = (w', d1, s1)"
      by (auto split: prod.splits simp: Let_def)
    have eq: "{x \<in> set (st # sts). nextDue x > now} = {x \<in> set sts. nextDue x > now}"
      using False by auto
    show ?thesis unfolding eq using "2.IH"(1)[OF _ r] False by simp
  next
    case True
    let ?w = "if nextDue st - now < wait then nextDue st - now else wait"
    from True "2.prems" obtain s1 where r: "collect_loop now (Suc i) ?w sts = (w', due, s1)"
      by (auto split: prod.splits simp: Let_def)
    have eq: "insert wait ((\<lambda>st. nextDue st - now) ` {x \<in> set (st # sts). nextDue x > now})
        = insert wait (insert (nextDue st - now) ?S)"
      using True by auto
    have "w' = Min (insert ?w ?S)" using "2.IH"(2)[OF _ refl r] True by simp
    also have "?w = min wait (nextDue st - now)" by auto
    also have "Min (insert \<dots> ?S) = Min (insert wait (insert (nextDue st - now) ?S))"
      by (rule Min_insert_min) simp
    finally show ?thesis unfolding eq .
  qed
qed

lemma collect_due_iff:
  "collect h now = (wait, due, h') \<Longrightarrow>
     i \<in> set due \<longleftrightarrow> i < length (hk_tasks h) \<and> nextDue (hk_tasks h ! i) \<le> now"
  by (auto simp: collect_def Let_def split: prod.splits dest!: collect_loop_due)

lemma collect_due_distinct: "collect h now = (wait, due, h') \<Longrightarrow> distinct due"
  by (auto simp: collect_def Let_def distinct_map split: prod.splits dest!: collect_loop_due)

lemma collect_tasks:
  "collect h now = (wait, due, h') \<Longrightarrow>
     h' = h\<lparr>hk_tasks := map (\<lambda>st. if nextDue st \<le> now
                  then st\<lparr>nextDue := now + tk_period (sc_task st)\<rparr> else st) (hk_tasks h)\<rparr>"
  by (auto simp: collect_def Let_def split: prod.splits dest!: collect_loop_tasks)

subsection \<open>The backoff of a failing task\<close>

lemma backoff_loop_min:
  assumes "0 < b"
  shows "min limit (backoff_loop n limit b) = min limit (b * 2 ^ n)"
  using assms
proof (induction n limit b rule: backoff_loop.induct)
  case (1 limit b)
  then show ?case by simp
next
  case (2 k limit b)
  show ?case
  proof (cases "b < limit")
    case True
    with 2 show ?thesis by (simp add: mult.assoc)
  next
    case False
    have "1 \<le> (2::int) ^ Suc k" by (rule one_le_power) simp
    then have "b * 1 \<le> b * 2 ^ Suc k" using "2.prems" by (intro mult_left_mono) auto
    with False have "limit \<le> b * 2 ^ Suc k" by simp
    with False show ?thesis by (simp add: min_def)
  qed
qed

lemma backoff_loop_bound: "0 < b \<Longrightarrow> backoff_loop n limit b \<le> max b (2 * limit)"
  by (induction n limit b rule: backoff_loop.induct) auto

lemma backoff_loop_ge: "0 < b \<Longrightarrow> b \<le> backoff_loop n limit b"
proof (induction n limit b rule: backoff_loop.induct)
  case (2 k limit b)
  then show ?case using "2.IH" by (cases "b < limit") auto
qed simp

lemma task_backoff_eq:
  "0 < period \<Longrightarrow> task_backoff period n = min (backoff_limit period) (period * 2 ^ n)"
  using backoff_loop_min[of period "backoff_limit period" n]
  by (simp add: task_backoff_def Let_def) linarith

lemma backoff_limit_max: "backoff_limit period = max period failBackoffCap"
  by (auto simp: backoff_limit_def)

lemma task_backoff_le: "task_backoff period n \<le> max period failBackoffCap"
  by (auto simp: task_backoff_def Let_def backoff_limit_max)

lemma task_backoff_pos: "0 < period \<Longrightarrow> 0 < task_backoff period n"
  using backoff_loop_ge[of period n "backoff_limit period"]
  by (auto simp: task_backoff_def Let_def backoff_limit_max)

subsection \<open>The run of a batch\<close>

lemma run_batch_all:
  assumes "\<And>i. \<not> re_cancelled (env i)" and "\<not> hk_cancelled h"
  shows "fst (snd (run_batch env h is)) = is \<and> snd (snd (run_batch env h is))"
  using assms(2)
proof (induction "is" arbitrary: h)
  case Nil
  then show ?case by simp
next
  case (Cons i "is")
  let ?h = "h\<lparr>hk_cancelled := hk_cancelled h \<or> re_cancelled (env i)\<rparr>"
  have "\<not> hk_cancelled (runOnce ?h (re_now (env i)) i (re_outcome (env i)))"
    using Cons.prems assms(1) by (auto simp: runOnce_def Let_def)
  from Cons.IH[OF this] Cons.prems assms(1) show ?case
    by (auto simp: Let_def split: prod.splits)
qed

lemma sort_due_set [simp]: "set (sort_due h due) = set due"
  by (simp add: sort_due_def)

lemma sort_due_distinct [simp]: "distinct (sort_due h due) = distinct due"
  by (simp add: sort_due_def)

lemma sort_due_sorted: "sorted (map (due_key h) (sort_due h due))"
  by (simp add: sort_due_def)

text \<open>The order the worker runs a batch in.\<close>

definition runs_before :: "houseKeeper \<Rightarrow> nat \<Rightarrow> nat \<Rightarrow> bool" where
  "runs_before h i j \<longleftrightarrow>
     (let a = sc_task (hk_tasks h ! i); b = sc_task (hk_tasks h ! j)
      in tk_priority a > tk_priority b \<or> tk_priority a = tk_priority b \<and> tk_name a \<le> tk_name b)"

lemma due_key_le: "due_key h i \<le> due_key h j \<longleftrightarrow> runs_before h i j"
  by (auto simp: due_key_def runs_before_def Let_def less_eq_prod_def)

lemma runs_before_collect:
  assumes "collect h now = (wait, due, h')" and "i < length (hk_tasks h)" and "j < length (hk_tasks h)"
  shows "runs_before h' i j \<longleftrightarrow> runs_before h i j"
  using collect_tasks[OF assms(1)] assms(2,3) by (simp add: runs_before_def Let_def)

text \<open>
  A pass of the worker over a context that stays alive runs exactly the tasks whose due
  time has come, each of them once, and in order: a higher priority first, and by name among
  equal priorities.
\<close>

theorem hk_pass_runs_due_in_order:
  assumes "\<forall>i. \<not> re_cancelled (env i)" and "\<not> hk_cancelled h"
    and "hk_loop_pass env ev h now = (h', Ran rs)"
  shows "set rs = {i. i < length (hk_tasks h) \<and> nextDue (hk_tasks h ! i) \<le> now}
         \<and> distinct rs \<and> sorted_wrt (runs_before h) rs"
proof -
  obtain wait due h1 where c: "collect h now = (wait, due, h1)" by (metis prod_cases3)
  have nc: "\<not> hk_cancelled h1" using collect_tasks[OF c] assms(2) by simp
  from assms(3) c have rs: "rs = fst (snd (run_batch env h1 (sort_due h1 due)))"
    by (auto simp: hk_loop_pass_def Let_def split: prod.splits if_splits wait_event.splits)
  then have rs: "rs = sort_due h1 due" using run_batch_all[OF _ nc, of env] assms(1) by simp
  have set_ran: "set rs = {i. i < length (hk_tasks h) \<and> nextDue (hk_tasks h ! i) \<le> now}"
    using collect_due_iff[OF c] rs by auto
  have "sorted_wrt (runs_before h1) rs"
    using sort_due_sorted[of h1 due] rs by (simp add: sorted_map due_key_le)
  then have "sorted_wrt (runs_before h) rs"
    using set_ran by (elim sorted_wrt_mono_rel[rotated]) (auto simp: runs_before_collect[OF c])
  with set_ran rs collect_due_distinct[OF c] show ?thesis by simp
qed

definition demo_task :: "string \<Rightarrow> int \<Rightarrow> task" where
  "demo_task n p = \<lparr>tk_name = n, tk_period = hour, tk_priority = p, tk_run = True\<rparr>"

definition demo_hk :: houseKeeper where
  "demo_hk = hk_start (hk_register (hk_register newHousekeeper 1 (demo_task ''a'' 0)) 1 (demo_task ''b'' 5)) 1"

definition demo_env :: "nat \<Rightarrow> run_env" where
  "demo_env i = \<lparr>re_cancelled = False, re_now = 0, re_outcome = RunOk\<rparr>"

theorem hk_pass_runs_due_in_order_witness:
  "set [1, 0::nat] = {i. i < length (hk_tasks demo_hk) \<and> nextDue (hk_tasks demo_hk ! i) \<le> hour}
    \<and> distinct [1, 0::nat] \<and> sorted_wrt (runs_before demo_hk) [1, 0]"
proof -
  have "\<exists>h'. hk_loop_pass demo_env TimerFired demo_hk hour = (h', Ran [1, 0])"
    by (simp add: hk_loop_pass_def demo_hk_def demo_task_def demo_env_def collect_def sort_due_def
        due_key_def hk_start_def hk_register_def newHousekeeper_def signal_def firstDue_def
        hk_consts runOnce_def run_failed_def Let_def)
  then obtain h' where p: "hk_loop_pass demo_env TimerFired demo_hk hour = (h', Ran [1, 0])" ..
  have e: "\<forall>i. \<not> re_cancelled (demo_env i)" by (simp add: demo_env_def)
  have c: "\<not> hk_cancelled demo_hk"
    by (simp add: demo_hk_def hk_start_def hk_register_def newHousekeeper_def signal_def)
  show ?thesis by (rule hk_pass_runs_due_in_order[OF e c p])
qed

subsection \<open>Failing tasks back off, within bounds\<close>

lemma runOnce_fail:
  assumes "i < length (hk_tasks h)" and "run_failed h out"
  shows "hk_tasks (runOnce h now i out) ! i =
    (let st = hk_tasks h ! i; p = tk_period (sc_task st); b = task_backoff p (Suc (fails st))
     in if b > p then st\<lparr>fails := Suc (fails st), nextDue := now + b\<rparr>
        else st\<lparr>fails := Suc (fails st)\<rparr>)"
  using assms by (simp add: runOnce_def Let_def)

text \<open>
  A failing run of a task whose period is below the cap pushes its next run to
  \<open>now + min (6 h) (Period * 2 ^ n)\<close> where \<open>n\<close> counts the failures in a row; a task whose
  period is at or above the cap keeps the due time \<^verbatim>\<open>collect\<close> gave it; and no value the doubling
  loop computes leaves the range of a 64-bit \<^verbatim>\<open>time.Duration\<close>.
\<close>

theorem hk_failing_task_backs_off:
  assumes "i < length (hk_tasks h)" and "st = hk_tasks h ! i" and "p = tk_period (sc_task st)"
    and "0 < p" and "p < 2 ^ 63" and "run_failed h out"
  shows "(p < failBackoffCap \<longrightarrow>
            nextDue (hk_tasks (runOnce h now i out) ! i)
              = now + min failBackoffCap (p * 2 ^ Suc (fails st)))
         \<and> (failBackoffCap \<le> p \<longrightarrow> nextDue (hk_tasks (runOnce h now i out) ! i) = nextDue st)
         \<and> fails (hk_tasks (runOnce h now i out) ! i) = Suc (fails st)
         \<and> backoff_loop n (backoff_limit p) p < 2 ^ 63"
proof -
  let ?b = "task_backoff p (Suc (fails st))"
  have b: "?b = min (max p failBackoffCap) (p * 2 ^ Suc (fails st))"
    using task_backoff_eq[OF assms(4)] by (simp add: backoff_limit_max)
  have two: "p < p * 2 ^ Suc (fails st)"
  proof -
    have "(1::int) < 2 ^ Suc (fails st)" by (rule one_less_power) simp_all
    then have "p * 1 < p * 2 ^ Suc (fails st)" using assms(4) by (intro mult_strict_left_mono)
    then show ?thesis by simp
  qed
  have small: "p < failBackoffCap \<Longrightarrow> ?b = min failBackoffCap (p * 2 ^ Suc (fails st)) \<and> ?b > p"
    using b two by (simp add: max_def)
  have big: "failBackoffCap \<le> p \<Longrightarrow> ?b = p" using b two by (simp add: max_def min_def)
  have "backoff_loop n (backoff_limit p) p < 2 ^ 63"
  proof (cases "p < failBackoffCap")
    case True
    then have "backoff_loop n (backoff_limit p) p \<le> max p (2 * failBackoffCap)"
      using backoff_loop_bound[OF assms(4), of n "backoff_limit p"] by (simp add: backoff_limit_max max_def)
    also have "\<dots> < 2 ^ 63" using True assms(5) by (simp add: hk_consts)
    finally show ?thesis .
  next
    case False
    then have "backoff_loop n (backoff_limit p) p = p"
      by (cases n) (auto simp: backoff_limit_max)
    with assms(5) show ?thesis by simp
  qed
  with small big runOnce_fail[OF assms(1,6), of now] assms(2,3) show ?thesis
    by (auto simp: Let_def)
qed

theorem hk_failing_task_backs_off_witness:
  "nextDue (hk_tasks (runOnce demo_hk 7 0 RunErr) ! 0) = 7 + 2 * hour"
proof -
  have st: "hk_tasks demo_hk ! 0 = \<lparr>sc_task = demo_task ''a'' 0, nextDue = 1 + firstRunDelay, fails = 0\<rparr>"
    and len: "0 < length (hk_tasks demo_hk)" and f: "run_failed demo_hk RunErr"
    by (simp_all add: demo_hk_def demo_task_def hk_start_def hk_register_def newHousekeeper_def
        signal_def firstDue_def hk_consts run_failed_def)
  show ?thesis
    using hk_failing_task_backs_off[OF len refl refl _ _ f, of 7 0] st
    by (simp add: demo_task_def hk_consts)
qed

subsection \<open>Reachable schedules: no task is starved\<close>

inductive hk_step :: "houseKeeper \<times> gtime \<Rightarrow> houseKeeper \<times> gtime \<Rightarrow> bool" where
  step_time: "now \<le> now' \<Longrightarrow> hk_step (h, now) (h, now')"
| step_register: "hk_step (h, now) (hk_register h now t, now)"
| step_start: "hk_step (h, now) (hk_start h now, now)"
| step_stop: "hk_step (h, now) (hk_stop h, now)"
| step_collect: "hk_started h \<Longrightarrow> collect h now = (wait, due, h') \<Longrightarrow> hk_step (h, now) (h', now)"
| step_run: "hk_started h \<Longrightarrow> i < length (hk_tasks h) \<Longrightarrow> hk_step (h, now) (runOnce h now i out, now)"

inductive_cases hk_stepE [elim!]: "hk_step (h, now) (h', now')"

inductive hk_reachable :: "houseKeeper \<times> gtime \<Rightarrow> bool" where
  hk_init: "0 < now \<Longrightarrow> hk_reachable (newHousekeeper, now)"
| hk_next: "hk_reachable s \<Longrightarrow> hk_step s s' \<Longrightarrow> hk_reachable s'"

definition task_inv :: "bool \<Rightarrow> gtime \<Rightarrow> scheduled \<Rightarrow> bool" where
  "task_inv started now st \<longleftrightarrow>
     0 < tk_period (sc_task st) \<and>
     (if started
      then 0 < nextDue st \<and> nextDue st \<le> now + max (tk_period (sc_task st)) failBackoffCap
      else nextDue st = zero_time)"

definition hk_inv :: "houseKeeper \<Rightarrow> gtime \<Rightarrow> bool" where
  "hk_inv h now \<longleftrightarrow> 0 < now \<and> (\<forall>st \<in> set (hk_tasks h). task_inv (hk_started h) now st)"

lemma firstDue_bounds: "0 < p \<Longrightarrow> 0 < firstDue p \<and> firstDue p \<le> p \<and> firstDue p \<le> failBackoffCap"
  by (auto simp: firstDue_def hk_consts)

lemma hk_inv_register: "hk_inv h now \<Longrightarrow> hk_inv (hk_register h now t) now"
  using firstDue_bounds[of "tk_period t"]
  by (auto simp: hk_inv_def task_inv_def hk_register_def signal_def)

lemma hk_inv_start: "hk_inv h now \<Longrightarrow> hk_inv (hk_start h now) now"
  using firstDue_bounds
  by (fastforce simp: hk_inv_def task_inv_def hk_start_def)

lemma hk_inv_stop: "hk_inv h now \<Longrightarrow> hk_inv (hk_stop h) now"
  by (auto simp: hk_inv_def hk_stop_def Let_def)

lemma hk_inv_collect:
  assumes "hk_inv h now" and "hk_started h" and "collect h now = (wait, due, h')"
  shows "hk_inv h' now"
  using assms(1,2) collect_tasks[OF assms(3)] by (auto simp: hk_inv_def task_inv_def)

lemma runOnce_frame [simp]: "hk_started (runOnce h now i out) = hk_started h"
  by (simp add: runOnce_def Let_def)

lemma hk_inv_runOnce:
  assumes "hk_inv h now" and "hk_started h" and "i < length (hk_tasks h)"
  shows "hk_inv (runOnce h now i out) now"
proof -
  let ?st = "hk_tasks h ! i"
  from assms have st: "task_inv True now ?st" and now: "0 < now" by (auto simp: hk_inv_def)
  then have pos: "0 < task_backoff (tk_period (sc_task ?st)) n" for n
    by (intro task_backoff_pos) (simp add: task_inv_def)
  have le: "task_backoff (tk_period (sc_task ?st)) n \<le> max (tk_period (sc_task ?st)) failBackoffCap" for n
    by (rule task_backoff_le)
  have "task_inv True now st" if "st \<in> set (hk_tasks (runOnce h now i out))" for st
    using that assms st now pos[of "Suc (fails ?st)"] le[of "Suc (fails ?st)"]
    by (auto simp: runOnce_def Let_def hk_inv_def task_inv_def dest!: set_update_subset_insert[THEN subsetD]
        split: if_splits)
  with assms now show ?thesis by (simp add: hk_inv_def)
qed

lemma hk_inv_time: "hk_inv h now \<Longrightarrow> now \<le> now' \<Longrightarrow> hk_inv h now'"
  by (fastforce simp: hk_inv_def task_inv_def)

lemma hk_inv_step: "hk_step (h, now) (h', now') \<Longrightarrow> hk_inv h now \<Longrightarrow> hk_inv h' now'"
  by (erule hk_stepE)
    (auto intro: hk_inv_time hk_inv_register hk_inv_start hk_inv_stop hk_inv_collect hk_inv_runOnce)

lemma hk_reachable_inv: "hk_reachable s \<Longrightarrow> hk_inv (fst s) (snd s)"
proof (induction rule: hk_reachable.induct)
  case (hk_init now)
  then show ?case by (simp add: hk_inv_def newHousekeeper_def)
next
  case (hk_next s s')
  then show ?case using hk_inv_step[of "fst s" "snd s" "fst s'" "snd s'"] by simp
qed

text \<open>
  No registered task is starved: in every reachable state of a started housekeeper, under
  every order of registrations, passes, failing runs and shutdown, each task is due again
  within the larger of its period and the six-hour backoff cap.
\<close>

theorem hk_no_starvation:
  assumes "hk_reachable (h, now)" and "hk_started h" and "st \<in> set (hk_tasks h)"
  shows "0 < nextDue st \<and> nextDue st \<le> now + max (tk_period (sc_task st)) failBackoffCap"
  using hk_reachable_inv[OF assms(1)] assms(2,3) by (auto simp: hk_inv_def task_inv_def)

theorem hk_no_starvation_witness:
  "nextDue (hk_tasks demo_hk ! 0) \<le> 1 + max hour failBackoffCap"
proof -
  have "hk_reachable (newHousekeeper, 1)" by (rule hk_init) simp
  from hk_next[OF this step_register[of _ _ "demo_task ''a'' 0"]]
  have "hk_reachable (hk_register newHousekeeper 1 (demo_task ''a'' 0), 1)" .
  from hk_next[OF hk_next[OF this step_register[of _ _ "demo_task ''b'' 5"]] step_start]
  have r: "hk_reachable (demo_hk, 1)" by (simp add: demo_hk_def)
  have s: "hk_started demo_hk" and len: "0 < length (hk_tasks demo_hk)"
    and p: "tk_period (sc_task (hk_tasks demo_hk ! 0)) = hour"
    by (simp_all add: demo_hk_def demo_task_def hk_start_def hk_register_def newHousekeeper_def
        signal_def hk_consts)
  show ?thesis using hk_no_starvation[OF r s nth_mem[OF len]] p by simp
qed

end
