(* ===== verification/Model_Errors.thy ===== *)
theory Model_Errors
  imports Prelude
begin

section \<open>Classification of backend errors\<close>

text \<open>
  The error classes of the model pool (\<^verbatim>\<open>src/leaf/model/15-errors.go\<close>). A Go error is its text
  and the sentinels its wrap chain holds: \<^verbatim>\<open>errors.Is\<close> asks for a sentinel, everything else is
  read off the text. The classes decide what an error does later: which ones count against an
  entry's breaker (theory \<^verbatim>\<open>Model_Breaker\<close>), which page the administrator
  (\<^verbatim>\<open>Model_Pool\<close>), which are waited out on the same entry (\<^verbatim>\<open>Model_Failover\<close>).
\<close>

datatype sentinel =
    Canceled | DeadlineExceeded
  | ErrNoModelAvailable | ErrContextExceeded | ErrStreamStall | ErrThinkingOnly
  | ErrStreamCommitted | ErrStreamWatcherTripped | ErrHardTimeout | ErrModelQueueFull

record gerror =
  ge_text :: string
  ge_chain :: "sentinel list"

definition errors_Is :: "gerror \<Rightarrow> sentinel \<Rightarrow> bool" where
  "errors_Is err s \<longleftrightarrow> s \<in> set (ge_chain err)"

text \<open>\<^verbatim>\<open>fmt.Errorf("%w: %w", s, err)\<close> for a sentinel \<open>s\<close> whose own text is \<open>t\<close>.\<close>

definition wrap_with :: "sentinel \<Rightarrow> string \<Rightarrow> gerror \<Rightarrow> gerror" where
  "wrap_with s t err = \<lparr> ge_text = t @ '': '' @ ge_text err, ge_chain = s # ge_chain err \<rparr>"

definition toolArgsTruncatedPatterns :: "string list" where
  "toolArgsTruncatedPatterns =
     [''failed to parse tool call arguments'', ''invalid json in tool_use'',
      ''tool_use input is not valid json'', ''tool_calls'']"

definition IsToolArgsTruncatedErr :: "gerror \<Rightarrow> bool" where
  "IsToolArgsTruncatedErr err =
     (let low = to_lower (ge_text err) in
      if \<not> str_contains low ''parse'' \<and> \<not> str_contains low ''invalid json'' \<and>
         \<not> str_contains low ''not valid json'' then False
      else list_ex (str_contains low) toolArgsTruncatedPatterns)"

definition contextExceededPatterns :: "string list" where
  "contextExceededPatterns =
     [''exceed_context_size_error'', ''exceeds the available context size'',
      ''maximum context length'', ''context_length_exceeded'', ''context window'',
      ''reduce the length of the messages'', ''prompt is too long'', ''input is too long'']"

definition IsContextExceededErr :: "gerror \<Rightarrow> bool" where
  "IsContextExceededErr err =
     list_ex (str_contains (to_lower (ge_text err))) contextExceededPatterns"

text \<open>The arrow between the request line and the status, in UTF-8, with its two blanks.\<close>

definition statusArrow :: string where
  "statusArrow = [CHR '' '', CHR 0xE2, CHR 0x86, CHR 0x92, CHR '' '']"

definition isPromptLevel4xx :: "gerror \<Rightarrow> bool" where
  "isPromptLevel4xx err =
     (case cut_after statusArrow (ge_text err) of
        None \<Rightarrow> False
      | Some code \<Rightarrow> if length code < 3 then False
                      else take 3 code \<in> {''400'', ''413'', ''422''})"

definition statusMarkers :: "string list" where
  "statusMarkers = [statusArrow, ''HTTP '']"

definition is_digit :: "char \<Rightarrow> bool" where
  "is_digit c \<longleftrightarrow> between 48 57 c"

fun scan_markers :: "string \<Rightarrow> string list \<Rightarrow> string option" where
  "scan_markers s [] = None"
| "scan_markers s (m # ms) =
     (case cut_after m s of
        None \<Rightarrow> scan_markers s ms
      | Some code \<Rightarrow>
          if length code < 3 then scan_markers s ms
          else if \<not> list_all is_digit (take 3 code) then scan_markers s ms
          else Some (take 3 code))"

definition backendStatusCode :: "gerror \<Rightarrow> string option" where
  "backendStatusCode err = scan_markers (ge_text err) statusMarkers"

definition transientStatuses :: "string list" where
  "transientStatuses = [''429'', ''502'', ''503'', ''504'']"

definition transientTransportNeedles :: "string list" where
  "transientTransportNeedles =
     [''connection refused'', ''connection reset'', ''broken pipe'', ''eof'', ''no such host'',
      ''i/o timeout'', ''network is unreachable'', ''connection timed out'',
      ''server closed idle connection'']"

definition isTransientBackendErr :: "gerror \<Rightarrow> bool" where
  "isTransientBackendErr err =
     (if errors_Is err Canceled \<or> errors_Is err DeadlineExceeded then False
      else if errors_Is err ErrStreamCommitted \<or> errors_Is err ErrStreamWatcherTripped then False
      else if IsContextExceededErr err \<or> IsToolArgsTruncatedErr err \<or> isPromptLevel4xx err then False
      else case backendStatusCode err of
             Some code \<Rightarrow> code \<in> set transientStatuses
           | None \<Rightarrow> list_ex (str_contains (to_lower (ge_text err))) transientTransportNeedles)"

subsection \<open>Facts on the text searches\<close>

lemma str_contains_mono: "str_contains s sub \<Longrightarrow> str_contains (p @ s @ q) sub"
  by (auto simp: str_contains_sublist sublist_appendI sublist_append)

lemma to_lower_append: "to_lower (a @ b) = to_lower a @ to_lower b"
  by (simp add: to_lower_def)

text \<open>Wrapping an error keeps its sentinels and never hides an overflow text.\<close>

lemma errors_Is_wrap [simp]: "errors_Is (wrap_with s t err) s' \<longleftrightarrow> s' = s \<or> errors_Is err s'"
  by (auto simp: errors_Is_def wrap_with_def)

lemma context_exceeded_wrap:
  assumes "IsContextExceededErr err"
  shows "IsContextExceededErr (wrap_with s t err)"
proof -
  obtain n where n: "n \<in> set contextExceededPatterns" "str_contains (to_lower (ge_text err)) n"
    using assms by (auto simp: IsContextExceededErr_def list_ex_iff)
  have "to_lower (ge_text (wrap_with s t err)) = to_lower (t @ '': '') @ to_lower (ge_text err) @ []"
    by (simp add: wrap_with_def to_lower_def)
  then have "str_contains (to_lower (ge_text (wrap_with s t err))) n"
    using str_contains_mono[OF n(2), of "to_lower (t @ '': '')" "[]"] by (simp only:)
  then show ?thesis using n(1) by (auto simp: IsContextExceededErr_def list_ex_iff)
qed

text \<open>The classes that are waited out are disjoint from those that blame the request.\<close>

lemma transient_not_request_fault:
  "isTransientBackendErr err \<Longrightarrow>
     \<not> errors_Is err Canceled \<and> \<not> errors_Is err DeadlineExceeded \<and>
     \<not> IsContextExceededErr err \<and> \<not> IsToolArgsTruncatedErr err \<and> \<not> isPromptLevel4xx err"
  by (auto simp: isTransientBackendErr_def split: if_splits)

text \<open>
  The comment on \<^verbatim>\<open>contextExceededPatterns\<close> calls the overflow class a strict subset of
  \<^verbatim>\<open>isPromptLevel4xx\<close>. The two tests are independent: an overflow reported with a status other
  than 400, 413 and 422 (here 500) is an overflow and not a prompt-level 4xx.
\<close>

definition overflow_500 :: gerror where
  "overflow_500 = \<lparr> ge_text = ''POST u'' @ statusArrow @ ''500: exceed_context_size_error'',
                     ge_chain = [] \<rparr>"

lemma context_exceeded_not_subset_of_prompt_4xx:
  "IsContextExceededErr overflow_500 \<and> \<not> isPromptLevel4xx overflow_500"
  by code_simp

end
