(* ===== verification/Model_Breaker.thy ===== *)
theory Model_Breaker
  imports Model_Errors "HOL-Library.Word"
begin

section \<open>The circuit breaker of a pool entry\<close>

text \<open>
  One entry of the model pool and its passive circuit breaker
  (\<^verbatim>\<open>src/leaf/model/10-multipool.go\<close>, the methods of \<^verbatim>\<open>entryRow\<close>, and the state label of
  \<^verbatim>\<open>20-snapshot.go\<close>). The mutex of a row makes each method one atomic operation: a method is a
  function from the row and the clock reading to the row (and the result). The backoff
  \<^verbatim>\<open>livenessCooldown << n\<close> is computed on 64-bit words, because the code relies on what the
  shift does when it overflows.
\<close>

named_theorems breaker_defs \<open>unfolding of the breaker constants and methods\<close>

definition livenessWindow :: duration where [breaker_defs]:
  "livenessWindow = 60 * second"

definition livenessFailThreshold :: nat where [breaker_defs]:
  "livenessFailThreshold = 3"

definition livenessCooldown :: duration where [breaker_defs]:
  "livenessCooldown = 5 * minute"

definition livenessMaxCooldown :: duration where [breaker_defs]:
  "livenessMaxCooldown = 30 * minute"

definition consecutiveFailThreshold :: nat where [breaker_defs]:
  "consecutiveFailThreshold = 2"

definition minEnabledPriority :: int where
  "minEnabledPriority = -10000"

record hourBucket =
  hb_calls :: int
  hb_errors :: int
  hb_input :: int
  hb_output :: int

text \<open>
  The declared facts of an entry (name, kind, tags, priority, context window, the capacity of
  its semaphore, \<open>None\<close> being the nil channel of unlimited concurrency), the slots taken from
  the semaphore, and the fields its mutex guards.
\<close>

record entryRow =
  er_name :: string
  er_kind :: string
  er_tags :: "string list"
  er_priority :: int
  er_window :: int
  er_sem :: "nat option"
  er_held :: nat
  er_inFlight :: int
  er_errTimes :: "gtime list"
  er_consecutiveFails :: nat
  er_deadUntil :: gtime
  er_consecutiveDeadEvents :: nat
  er_lastErr :: string
  er_paused :: bool
  er_tentative :: bool
  er_nextProbeAt :: gtime
  er_totalCalls :: int
  er_totalErrors :: int
  er_totalInput :: int
  er_totalOutput :: int
  er_hourly :: "(int, hourBucket) gomap"

subsection \<open>Backoff\<close>

definition nextCooldown :: "nat \<Rightarrow> duration" where
  "nextCooldown consecutiveDeadEvents =
     (let cooldown = sint (push_bit consecutiveDeadEvents (word_of_int livenessCooldown :: 64 word)) in
      if cooldown > livenessMaxCooldown \<or> cooldown < livenessCooldown then livenessMaxCooldown
      else cooldown)"

subsection \<open>Usage buckets\<close>

definition hourlyBucketCap :: nat where
  "hourlyBucketCap = 168"

text \<open>One turn of the eviction loop drops the smallest hour.\<close>

definition oldest_hour :: "(int, hourBucket) gomap \<Rightarrow> int" where
  "oldest_hour m = foldl (\<lambda>oldest (h, _). if h < oldest then h else oldest) (2 ^ 63 - 1) m"

definition zero_bucket :: hourBucket where
  "zero_bucket = \<lparr> hb_calls = 0, hb_errors = 0, hb_input = 0, hb_output = 0 \<rparr>"

definition bucket_add :: "hourBucket \<Rightarrow> hourBucket \<Rightarrow> hourBucket" where
  "bucket_add b d = \<lparr> hb_calls = hb_calls b + hb_calls d, hb_errors = hb_errors b + hb_errors d,
                      hb_input = hb_input b + hb_input d, hb_output = hb_output b + hb_output d \<rparr>"

text \<open>
  The eviction loop, with the number of its iterations as fuel: each deletes one key, so the
  size of the map is enough (\<open>dropOldestHourly_bounded\<close>).
\<close>

primrec drop_loop :: "nat \<Rightarrow> (int, hourBucket) gomap \<Rightarrow> (int, hourBucket) gomap" where
  "drop_loop 0 m = m"
| "drop_loop (Suc n) m =
     (if length m > hourlyBucketCap then drop_loop n (gdel (oldest_hour m) m) else m)"

definition dropOldestHourly :: "(int, hourBucket) gomap \<Rightarrow> nat \<times> (int, hourBucket) gomap" where
  "dropOldestHourly m = (let m' = drop_loop (length m) m in (length m - length m', m'))"

text \<open>
  \<^verbatim>\<open>now.Truncate(time.Hour).Unix()\<close>: truncation counts from Go's zero time, the Unix epoch lies
  62135596800 seconds after it.
\<close>

definition hour_start :: "gtime \<Rightarrow> int" where
  "hour_start now = (now - now mod hour) div second - 62135596800"

text \<open>
  A fresh bucket is stored before the eviction runs, so on a clock that went back by more than
  the cap the bucket evicted may be the fresh one: the addition then falls on a bucket the map
  no longer holds.
\<close>

definition addUsage :: "entryRow \<Rightarrow> gtime \<Rightarrow> hourBucket \<Rightarrow> entryRow" where
  "addUsage row now d =
     (let h = hour_start now; m = er_hourly row in
      case gget m h of
        Some b \<Rightarrow> row\<lparr>er_hourly := gput h (bucket_add b d) m\<rparr>
      | None \<Rightarrow>
          let m' = snd (dropOldestHourly (gput h zero_bucket m)) in
          row\<lparr>er_hourly := (if ghas m' h then gput h (bucket_add zero_bucket d) m' else m')\<rparr>)"

subsection \<open>Error text kept for the panel\<close>

definition lastErrMaxLen :: nat where
  "lastErrMaxLen = 600"

text \<open>A rune back in UTF-8: an invalid byte becomes U+FFFD.\<close>

definition rune_encode :: "string \<Rightarrow> string" where
  "rune_encode r =
     (case r of [c] \<Rightarrow> if (of_char c :: nat) < 0x80 then [c] else [CHR 0xEF, CHR 0xBF, CHR 0xBD]
      | _ \<Rightarrow> r)"

definition truncateErr :: "string \<Rightarrow> string" where
  "truncateErr s =
     (if length s \<le> lastErrMaxLen then s
      else let r = runes s in
           if length r \<le> lastErrMaxLen then s
           else concat (map rune_encode (take lastErrMaxLen r)) @ [CHR 0xE2, CHR 0x80, CHR 0xA6])"

subsection \<open>The methods of an entry\<close>

definition IsEligible :: "entryRow \<Rightarrow> gtime \<Rightarrow> bool \<times> entryRow" where
  "IsEligible e now =
     (if er_paused e then (False, e)
      else if er_tentative e then (True, e)
      else if er_deadUntil e = 0 then (True, e)
      else if now > er_deadUntil e then (True, e\<lparr>er_deadUntil := 0\<rparr>)
      else (False, e))"

text \<open>The filter in front of the breaker: errors the entry is not to blame for.\<close>

definition not_entry_fault :: "gerror \<Rightarrow> bool" where
  "not_entry_fault err =
     (if IsToolArgsTruncatedErr err then True
      else if isPromptLevel4xx err then True
      else if errors_Is err Canceled then True
      else errors_Is err DeadlineExceeded \<and>
           \<not> errors_Is err ErrStreamStall \<and> \<not> errors_Is err ErrHardTimeout)"

text \<open>The bookkeeping every counted error does before the thresholds are looked at.\<close>

definition book_error :: "entryRow \<Rightarrow> gerror \<Rightarrow> gtime \<Rightarrow> gtime \<Rightarrow> entryRow" where
  "book_error e err clock_now now =
     (let e1 = e\<lparr>er_totalErrors := er_totalErrors e + 1, er_lastErr := truncateErr (ge_text err)\<rparr>;
          e2 = addUsage e1 clock_now (zero_bucket\<lparr>hb_errors := 1\<rparr>);
          cutoff = now - livenessWindow;
          pruned = filter (\<lambda>t. t > cutoff) (er_errTimes e2) @ [now]
      in e2\<lparr>er_errTimes := pruned, er_consecutiveFails := er_consecutiveFails e2 + 1\<rparr>)"

definition RecordError ::
  "entryRow \<Rightarrow> gerror option \<Rightarrow> gtime \<Rightarrow> gtime \<Rightarrow> bool \<times> entryRow" where
  "RecordError e oerr clock_now now =
     (case oerr of
        None \<Rightarrow> (False, e)
      | Some err \<Rightarrow>
          if not_entry_fault err then (False, e)
          else
            let e3 = book_error e err clock_now now in
            if er_tentative e3 then
              let cooldown = nextCooldown (er_consecutiveDeadEvents e3) in
              (True, e3\<lparr>er_deadUntil := now + cooldown, er_nextProbeAt := now + cooldown,
                        er_consecutiveDeadEvents := er_consecutiveDeadEvents e3 + 1,
                        er_tentative := False\<rparr>)
            else if (length (er_errTimes e3) \<ge> livenessFailThreshold \<or>
                     er_consecutiveFails e3 \<ge> consecutiveFailThreshold) \<and>
                    (er_deadUntil e3 = 0 \<or> er_deadUntil e3 < now) then
              let cooldown = nextCooldown (er_consecutiveDeadEvents e3) in
              (True, e3\<lparr>er_deadUntil := now + cooldown,
                        er_consecutiveDeadEvents := er_consecutiveDeadEvents e3 + 1\<rparr>)
            else (False, e3))"

definition RecordSuccess :: "entryRow \<Rightarrow> entryRow" where
  "RecordSuccess e =
     (let e1 = e\<lparr>er_consecutiveDeadEvents := 0, er_consecutiveFails := 0, er_nextProbeAt := 0\<rparr> in
      if er_tentative e1 then e1\<lparr>er_tentative := False\<rparr> else e1)"

text \<open>\<^verbatim>\<open>recordChatTokens\<close>: the part of it under the row's mutex.\<close>

definition recordChatTokens :: "entryRow \<Rightarrow> gtime \<Rightarrow> int \<Rightarrow> int \<Rightarrow> int \<Rightarrow> entryRow" where
  "recordChatTokens row clock_now input output errs =
     addUsage
       (row\<lparr>er_totalCalls := er_totalCalls row + 1,
            er_totalInput := er_totalInput row + input,
            er_totalOutput := er_totalOutput row + output\<rparr>)
       clock_now \<lparr> hb_calls = 1, hb_errors = errs, hb_input = input, hb_output = output \<rparr>"

text \<open>The result is (recovered, stillDead); the method reads the clock twice.\<close>

definition MarkProbed :: "entryRow \<Rightarrow> bool \<Rightarrow> gtime \<Rightarrow> gtime \<Rightarrow> (bool \<times> bool) \<times> entryRow" where
  "MarkProbed e ok now now' =
     (if er_paused e \<or> er_tentative e \<or> er_deadUntil e = 0 \<or> \<not> er_deadUntil e > now
      then ((False, False), e)
      else if ok then ((True, False), e\<lparr>er_tentative := True, er_deadUntil := 0\<rparr>)
      else ((False, True),
            e\<lparr>er_deadUntil := now' + nextCooldown (er_consecutiveDeadEvents e)\<rparr>))"

definition Pause_row :: "entryRow \<Rightarrow> entryRow" where
  "Pause_row e = e\<lparr>er_paused := True\<rparr>"

definition Resume_row :: "entryRow \<Rightarrow> entryRow" where
  "Resume_row e = e\<lparr>er_paused := False\<rparr>"

text \<open>The state label of a snapshot.\<close>

datatype entry_state = S_disabled | S_paused | S_cooling | S_tentative | S_live

definition snapshot_state :: "entryRow \<Rightarrow> gtime \<Rightarrow> entry_state" where
  "snapshot_state e now =
     (let dead = (er_deadUntil e \<noteq> 0 \<and> er_deadUntil e > now) in
      if er_priority e < minEnabledPriority then S_disabled
      else if er_paused e then S_paused
      else if dead then S_cooling
      else if er_tentative e then S_tentative
      else S_live)"

text \<open>\<^verbatim>\<open>LastError\<close> of a snapshot: shown for an entry that is not live.\<close>

definition snapshot_lastErr :: "entryRow \<Rightarrow> gtime \<Rightarrow> string" where
  "snapshot_lastErr e now = (if snapshot_state e now \<noteq> S_live then er_lastErr e else [])"

text \<open>
  \<^verbatim>\<open>copyLiveness\<close> of \<^verbatim>\<open>60-reload.go\<close>: what a reload triggered by a file change carries from the
  old row of the same name to the new one.
\<close>

definition copyLiveness :: "entryRow \<Rightarrow> entryRow \<Rightarrow> entryRow" where
  "copyLiveness old new =
     new\<lparr>er_errTimes := er_errTimes old, er_consecutiveFails := er_consecutiveFails old,
         er_deadUntil := er_deadUntil old,
         er_consecutiveDeadEvents := er_consecutiveDeadEvents old,
         er_paused := er_paused old, er_tentative := er_tentative old,
         er_lastErr := er_lastErr old\<rparr>"

subsection \<open>The backoff curve\<close>

lemma nextCooldown_small:
  "list_all (\<lambda>n. nextCooldown n = min (livenessCooldown * 2 ^ n) livenessMaxCooldown) [0..<53]"
  by code_simp

lemma word_of_int_2p_mult: "(word_of_int (2 ^ 64 * k) :: 64 word) = 0"
proof -
  have "(word_of_int (2 ^ 64) :: 64 word) = 0" by simp
  then show ?thesis by (simp only: of_int_mult mult_zero_left)
qed

text \<open>The base has eleven factors two: from 53 doublings on, the shifted word is zero.\<close>

lemma shift_out: "53 \<le> n \<Longrightarrow> push_bit n (word_of_int livenessCooldown :: 64 word) = 0"
proof -
  assume n: "53 \<le> n"
  have c: "livenessCooldown = 146484375 * 2 ^ 11" by code_simp
  have e: "11 + n = 64 + (n - 53)" using n by simp
  have "push_bit n livenessCooldown = 2 ^ 64 * (146484375 * 2 ^ (n - 53))"
    by (simp only: push_bit_eq_mult c mult.assoc flip: power_add) (simp add: e power_add)
  then have "(word_of_int (push_bit n livenessCooldown) :: 64 word) = 0"
    by (simp only: word_of_int_2p_mult)
  moreover have "push_bit n (word_of_int livenessCooldown :: 64 word) =
      word_of_int (push_bit n livenessCooldown)"
    by (simp add: push_bit_eq_mult of_int_power)
  ultimately show ?thesis by simp
qed

lemma nextCooldown_large: "53 \<le> n \<Longrightarrow> nextCooldown n = livenessMaxCooldown"
  unfolding nextCooldown_def Let_def
  by (subst shift_out, assumption)+ (simp add: breaker_defs duration_defs)

text \<open>The cooldown after \<open>n\<close> consecutive dead events is the base doubled \<open>n\<close> times and capped at
  thirty minutes, for every \<open>n\<close>: the 64-bit shift wraps for large \<open>n\<close>, and no wrapped value
  slips through the two comparisons that guard it.\<close>

theorem nextCooldown_capped_doubling:
  "nextCooldown n = min (livenessCooldown * 2 ^ n) livenessMaxCooldown"
proof (cases "n < 53")
  case True
  then show ?thesis using nextCooldown_small by (simp add: list_all_iff)
next
  case False
  then have "(2::int) ^ 53 \<le> 2 ^ n" by (intro power_increasing) auto
  then have "livenessMaxCooldown \<le> livenessCooldown * 2 ^ n"
    by (simp add: breaker_defs duration_defs)
  then show ?thesis using False by (simp add: nextCooldown_large min_def)
qed

lemma nextCooldown_bounds:
  "livenessCooldown \<le> nextCooldown n \<and> nextCooldown n \<le> livenessMaxCooldown"
  by (auto simp: nextCooldown_def Let_def breaker_defs duration_defs)

lemma nextCooldown_pos: "0 < nextCooldown n"
  using nextCooldown_bounds[of n] by (simp add: breaker_defs duration_defs)

subsection \<open>The usage buckets stay bounded\<close>

definition hours_ok :: "(int, hourBucket) gomap \<Rightarrow> bool" where
  "hours_ok m \<longleftrightarrow> gmap_ok m \<and> list_all (\<lambda>h. h < 2 ^ 63) (gkeys m)"

definition hourly_ok :: "(int, hourBucket) gomap \<Rightarrow> bool" where
  "hourly_ok m \<longleftrightarrow> hours_ok m \<and> length m \<le> hourlyBucketCap"

lemma hours_ok_gdel [simp]: "hours_ok m \<Longrightarrow> hours_ok (gdel h m)"
  by (auto simp: hours_ok_def list_all_iff keys_gdel simp flip: set_map)

lemma hours_ok_gput [simp]: "hours_ok m \<Longrightarrow> h < 2 ^ 63 \<Longrightarrow> hours_ok (gput h b m)"
  unfolding hours_ok_def list_all_iff keys_gput by auto

lemma oldest_fold:
  "foldl (\<lambda>oldest (h, _). if h < oldest then h else oldest) (z :: int) m = Min (insert z (set (gkeys m)))"
proof (induction m arbitrary: z)
  case (Cons p m)
  have m: "(case p of (h, _) \<Rightarrow> if h < z then h else z) = min (fst p) z"
    by (simp add: min_def case_prod_beta)
  have "Min (insert (min (fst p) z) (set (gkeys m))) = Min (insert z (set (gkeys (p # m))))"
    by (simp only: Min_insert_min[OF List.finite_set] list.map list.set insert_commute)
  then show ?case by (simp only: foldl.simps m Cons.IH)
qed simp

lemma oldest_hour_Min:
  assumes "hours_ok m" and "m \<noteq> []"
  shows "oldest_hour m = Min (set (gkeys m))" and "oldest_hour m \<in> set (gkeys m)"
proof -
  have ne: "set (gkeys m) \<noteq> {}" using assms(2) by simp
  have "Min (set (gkeys m)) \<le> 2 ^ 63 - 1"
    using Min_in[OF _ ne] assms(1) unfolding hours_ok_def list_all_iff by force
  then have "Min (insert (2 ^ 63 - 1) (set (gkeys m))) = Min (set (gkeys m))"
    by (simp only: Min_insert[OF List.finite_set ne] min.absorb2)
  then show eq: "oldest_hour m = Min (set (gkeys m))"
    by (simp only: oldest_hour_def oldest_fold)
  show "oldest_hour m \<in> set (gkeys m)" using eq Min_in[OF _ ne] by simp
qed

lemma length_gdel_mem: "gmap_ok m \<Longrightarrow> k \<in> set (gkeys m) \<Longrightarrow> Suc (length (gdel k m)) = length m"
proof (induction m)
  case (Cons p m)
  show ?case
  proof (cases "fst p = k")
    case True
    then have "k \<notin> set (gkeys m)" using Cons.prems by auto
    then have "gdel k m = m" by (simp add: AList.delete_id)
    then show ?thesis using True by (cases p) simp
  next
    case False
    then show ?thesis using Cons by (cases p) auto
  qed
qed simp

text \<open>One eviction: the key removed is the least one.\<close>

lemma evict_step:
  assumes "hours_ok m" and "length m > hourlyBucketCap"
  shows "Suc (length (gdel (oldest_hour m) m)) = length m"
    and "x \<in> set (gkeys m) \<Longrightarrow> oldest_hour m \<le> x"
proof -
  have ne: "m \<noteq> []" using assms(2) by auto
  note o = oldest_hour_Min[OF assms(1) ne]
  show "Suc (length (gdel (oldest_hour m) m)) = length m"
    using assms(1) by (intro length_gdel_mem o(2)) (simp add: hours_ok_def)
  show "x \<in> set (gkeys m) \<Longrightarrow> oldest_hour m \<le> x"
    by (simp only: o(1) Min_le[OF List.finite_set])
qed

text \<open>Enough iterations bring the map to its cap, and what they drop is older than what stays.\<close>

definition evicted_to :: "(int, hourBucket) gomap \<Rightarrow> (int, hourBucket) gomap \<Rightarrow> bool" where
  "evicted_to m r \<longleftrightarrow>
     hourly_ok r \<and> set (gkeys r) \<subseteq> set (gkeys m) \<and>
     (\<forall>k \<in> set (gkeys r). gget r k = gget m k \<and>
        (\<forall>d \<in> set (gkeys m) - set (gkeys r). d < k)) \<and>
     length r = min (length m) hourlyBucketCap"

lemma evicted_to_step:
  assumes ok: "hours_ok m" and big: "length m > hourlyBucketCap"
    and r: "evicted_to (gdel (oldest_hour m) m) r"
  shows "evicted_to m r"
proof -
  let ?o = "oldest_hour m"
  note st = evict_step[OF ok big]
  have sub: "set (gkeys r) \<subseteq> set (gkeys m) - {?o}"
    using r by (simp only: evicted_to_def keys_gdel)
  { fix k assume k: "k \<in> set (gkeys r)"
    then have kn: "k \<in> set (gkeys m)" "k \<noteq> ?o" using sub by blast+
    then have lt: "?o < k" using st(2)[of k] by simp
    have "gget r k = gget m k" using r k kn(2) by (simp add: evicted_to_def del: set_map)
    moreover have "d < k" if "d \<in> set (gkeys m) - set (gkeys r)" for d
    proof (cases "d = ?o")
      case False
      then have "d \<in> set (gkeys (gdel ?o m)) - set (gkeys r)" using that by (simp only: keys_gdel) blast
      then show ?thesis using r k by (simp only: evicted_to_def)
    qed (use lt in simp)
    ultimately have "gget r k = gget m k \<and> (\<forall>d \<in> set (gkeys m) - set (gkeys r). d < k)" by blast }
  moreover have "length r = min (length m) hourlyBucketCap"
    using r st(1) big by (simp add: evicted_to_def min_def del: set_map)
  ultimately show ?thesis using r sub unfolding evicted_to_def by blast
qed

lemma drop_loop_evicts:
  "hours_ok m \<Longrightarrow> length m \<le> hourlyBucketCap + n \<Longrightarrow> evicted_to m (drop_loop n m)"
proof (induction n arbitrary: m)
  case 0
  then show ?case by (simp add: evicted_to_def hourly_ok_def)
next
  case (Suc n)
  show ?case
  proof (cases "length m > hourlyBucketCap")
    case True
    have "evicted_to (gdel (oldest_hour m) m) (drop_loop n (gdel (oldest_hour m) m))"
      using Suc.prems evict_step(1)[OF Suc.prems(1) True] by (intro Suc.IH) auto
    from evicted_to_step[OF Suc.prems(1) True this] show ?thesis using True by simp
  next
    case False
    then show ?thesis using Suc.prems by (simp add: evicted_to_def hourly_ok_def)
  qed
qed

lemma dropOldestHourly_bounded: "hours_ok m \<Longrightarrow> evicted_to m (snd (dropOldestHourly m))"
  unfolding dropOldestHourly_def Let_def snd_conv by (rule drop_loop_evicts) auto

text \<open>A clock whose Unix seconds fit in 63 bits.\<close>

definition clock_ok :: "gtime \<Rightarrow> bool" where
  "clock_ok now \<longleftrightarrow> now < 2 ^ 63 * second"

lemma hour_start_bound: "clock_ok now \<Longrightarrow> hour_start now < 2 ^ 63"
proof -
  assume n: "clock_ok now"
  have "0 \<le> now mod hour" by (simp add: duration_defs)
  then have "(now - now mod hour) div second \<le> now div second"
    by (intro zdiv_mono1) (simp_all add: duration_defs)
  also have "\<dots> < 2 ^ 63" using n by (simp add: clock_ok_def second_def)
  finally show ?thesis by (simp add: hour_start_def)
qed

lemma hourly_gput_same:
  "hourly_ok m \<Longrightarrow> ghas m h \<Longrightarrow> hourly_ok (gput h b m)"
  by (auto simp: hourly_ok_def hours_ok_def list_all_iff keys_gput length_gput ghas_iff
      simp flip: set_map simp del: set_map)

lemma addUsage_hourly_ok:
  assumes "hourly_ok (er_hourly row)" and "clock_ok now"
  shows "hourly_ok (er_hourly (addUsage row now d))"
proof (cases "gget (er_hourly row) (hour_start now)")
  case (Some b)
  then show ?thesis using assms(1)
    by (simp add: addUsage_def Let_def hourly_gput_same ghas_def)
next
  case None
  let ?m = "snd (dropOldestHourly (gput (hour_start now) zero_bucket (er_hourly row)))"
  have "hours_ok (gput (hour_start now) zero_bucket (er_hourly row))"
    using assms hour_start_bound[OF assms(2)] by (simp add: hourly_ok_def)
  then have "hourly_ok ?m" using dropOldestHourly_bounded by (simp add: evicted_to_def)
  then show ?thesis using None by (simp add: addUsage_def Let_def hourly_gput_same)
qed

text \<open>\<open>addUsage\<close> touches the buckets only.\<close>

lemma addUsage_frame [simp]:
  "er_deadUntil (addUsage row now d) = er_deadUntil row"
  "er_tentative (addUsage row now d) = er_tentative row"
  "er_paused (addUsage row now d) = er_paused row"
  "er_errTimes (addUsage row now d) = er_errTimes row"
  "er_consecutiveFails (addUsage row now d) = er_consecutiveFails row"
  "er_consecutiveDeadEvents (addUsage row now d) = er_consecutiveDeadEvents row"
  "er_nextProbeAt (addUsage row now d) = er_nextProbeAt row"
  "er_priority (addUsage row now d) = er_priority row"
  "er_name (addUsage row now d) = er_name row"
  "er_kind (addUsage row now d) = er_kind row"
  "er_tags (addUsage row now d) = er_tags row"
  "er_sem (addUsage row now d) = er_sem row"
  "er_held (addUsage row now d) = er_held row"
  "er_inFlight (addUsage row now d) = er_inFlight row"
  "er_lastErr (addUsage row now d) = er_lastErr row"
  by (simp_all add: addUsage_def Let_def split: option.split)

lemma book_error_frame [simp]:
  "er_deadUntil (book_error e err c now) = er_deadUntil e"
  "er_tentative (book_error e err c now) = er_tentative e"
  "er_paused (book_error e err c now) = er_paused e"
  "er_consecutiveFails (book_error e err c now) = Suc (er_consecutiveFails e)"
  "er_consecutiveDeadEvents (book_error e err c now) = er_consecutiveDeadEvents e"
  "er_nextProbeAt (book_error e err c now) = er_nextProbeAt e"
  "er_priority (book_error e err c now) = er_priority e"
  "er_errTimes (book_error e err c now) =
     filter (\<lambda>t. t > now - livenessWindow) (er_errTimes e) @ [now]"
  "er_hourly (book_error e err c now) =
     er_hourly (addUsage (e\<lparr>er_totalErrors := er_totalErrors e + 1,
                            er_lastErr := truncateErr (ge_text err)\<rparr>) c (zero_bucket\<lparr>hb_errors := 1\<rparr>))"
  by (simp_all add: book_error_def Let_def)

subsection \<open>Histories of an entry\<close>

text \<open>
  What can happen to a row, in any order: a call on it fails or succeeds, a request asks whether
  it may be picked, the heartbeat reports a ping, the operator pauses and resumes it. A history
  is a list of events with their clock readings.
\<close>

datatype row_event =
    EvError gerror gtime gtime
  | EvSuccess
  | EvTokens gtime int int int
  | EvEligible gtime
  | EvProbe bool gtime
  | EvPause
  | EvResume

text \<open>The guard of the heartbeat's scan: dead, and its hold on the probe has passed.\<close>

definition row_dead :: "entryRow \<Rightarrow> gtime \<Rightarrow> bool" where
  "row_dead row now \<longleftrightarrow>
     \<not> er_paused row \<and> \<not> er_tentative row \<and> er_deadUntil row \<noteq> 0 \<and> er_deadUntil row > now"

definition probe_waiting :: "entryRow \<Rightarrow> gtime \<Rightarrow> bool" where
  "probe_waiting row now \<longleftrightarrow> row_dead row now \<and> now < er_nextProbeAt row"

definition probe_due :: "entryRow \<Rightarrow> gtime \<Rightarrow> bool" where
  "probe_due row now \<longleftrightarrow> row_dead row now \<and> \<not> probe_waiting row now"

fun row_step :: "entryRow \<Rightarrow> row_event \<Rightarrow> entryRow" where
  "row_step e (EvError err c now) = snd (RecordError e (Some err) c now)"
| "row_step e EvSuccess = RecordSuccess e"
| "row_step e (EvTokens c i out errs) = recordChatTokens e c i out errs"
| "row_step e (EvEligible now) = snd (IsEligible e now)"
| "row_step e (EvProbe ok now) = (if probe_due e now then snd (MarkProbed e ok now now) else e)"
| "row_step e EvPause = Pause_row e"
| "row_step e EvResume = Resume_row e"

definition row_run :: "entryRow \<Rightarrow> row_event list \<Rightarrow> entryRow" where
  "row_run e evs = foldl row_step e evs"

fun event_time :: "row_event \<Rightarrow> gtime option" where
  "event_time (EvError err c now) = Some now"
| "event_time (EvEligible now) = Some now"
| "event_time (EvProbe ok now) = Some now"
| "event_time _ = None"

fun event_clock :: "row_event \<Rightarrow> gtime option" where
  "event_clock (EvError err c now) = Some c"
| "event_clock (EvTokens c i out errs) = Some c"
| "event_clock _ = None"

text \<open>Events at most at \<open>t\<close>, with sound clocks.\<close>

definition event_by :: "gtime \<Rightarrow> row_event \<Rightarrow> bool" where
  "event_by t ev \<longleftrightarrow>
     (case event_time ev of None \<Rightarrow> True | Some n \<Rightarrow> 0 < n \<and> n \<le> t) \<and>
     (case event_clock ev of None \<Rightarrow> True | Some c \<Rightarrow> clock_ok c)"

subsection \<open>The invariant of a row\<close>

text \<open>
  A tentative entry has no dead mark; a dead mark lies at most thirty minutes after the last
  event; the usage buckets are bounded.
\<close>

definition row_ok :: "gtime \<Rightarrow> entryRow \<Rightarrow> bool" where
  "row_ok t e \<longleftrightarrow>
     (er_tentative e \<longrightarrow> er_deadUntil e = 0) \<and> 0 \<le> er_deadUntil e \<and>
     er_deadUntil e \<le> t + livenessMaxCooldown \<and> hourly_ok (er_hourly e)"

text \<open>A row as \<^verbatim>\<open>buildEntry\<close> makes it: every guarded field at its zero value.\<close>

definition fresh_row :: "string \<Rightarrow> string \<Rightarrow> string list \<Rightarrow> int \<Rightarrow> int \<Rightarrow> nat option \<Rightarrow> entryRow" where
  "fresh_row name kind tags prio win sem =
     \<lparr> er_name = name, er_kind = kind, er_tags = tags, er_priority = prio, er_window = win,
       er_sem = sem, er_held = 0, er_inFlight = 0, er_errTimes = [], er_consecutiveFails = 0,
       er_deadUntil = 0, er_consecutiveDeadEvents = 0, er_lastErr = [], er_paused = False,
       er_tentative = False, er_nextProbeAt = 0, er_totalCalls = 0, er_totalErrors = 0,
       er_totalInput = 0, er_totalOutput = 0, er_hourly = [] \<rparr>"

lemma fresh_row_ok: "0 \<le> t \<Longrightarrow> row_ok t (fresh_row name kind tags prio win sem)"
  by (simp add: row_ok_def fresh_row_def hourly_ok_def hours_ok_def breaker_defs duration_defs)

lemma row_ok_error:
  assumes ok: "row_ok t e" and now: "0 < now" "now \<le> t" and c: "clock_ok c"
  shows "row_ok t (snd (RecordError e (Some err) c now))"
proof -
  have h: "hourly_ok (er_hourly (book_error e err c now))"
    using ok c by (simp add: row_ok_def addUsage_hourly_ok)
  have cd: "0 \<le> now + nextCooldown k" "now + nextCooldown k \<le> t + livenessMaxCooldown" for k
    using now nextCooldown_bounds[of k] nextCooldown_pos[of k] by linarith+
  show ?thesis
    using ok h cd by (simp add: RecordError_def Let_def row_ok_def)
qed

lemma row_ok_probe:
  assumes ok: "row_ok t e" and now: "0 < now" "now \<le> t"
  shows "row_ok t (snd (MarkProbed e b now now))"
proof -
  have cd: "0 \<le> now + nextCooldown k" "now + nextCooldown k \<le> t + livenessMaxCooldown" for k
    using now nextCooldown_bounds[of k] nextCooldown_pos[of k] by linarith+
  have t0: "0 \<le> t + livenessMaxCooldown" using now by (simp add: breaker_defs duration_defs)
  show ?thesis using ok cd t0 by (simp add: MarkProbed_def row_ok_def)
qed

lemma row_ok_eligible: "row_ok t e \<Longrightarrow> 0 \<le> t \<Longrightarrow> row_ok t (snd (IsEligible e now))"
  by (simp add: IsEligible_def row_ok_def breaker_defs duration_defs)

lemma row_ok_step:
  assumes ok: "row_ok t e" and eb: "event_by t ev" and t: "0 \<le> t"
  shows "row_ok t (row_step e ev)"
proof (cases ev)
  case (EvError err c now)
  then show ?thesis using row_ok_error[OF ok] eb by (simp add: event_by_def)
next
  case EvSuccess
  then show ?thesis using ok by (simp add: RecordSuccess_def Let_def row_ok_def)
next
  case (EvTokens c i out errs)
  then have "clock_ok c" using eb by (simp add: event_by_def)
  then show ?thesis using ok EvTokens
    by (simp add: recordChatTokens_def row_ok_def addUsage_hourly_ok)
next
  case (EvEligible now)
  then show ?thesis using row_ok_eligible[OF ok t] by simp
next
  case (EvProbe b now)
  then show ?thesis using row_ok_probe[OF ok] ok eb by (simp add: event_by_def)
next
  case EvPause
  then show ?thesis using ok by (simp add: Pause_row_def row_ok_def)
next
  case EvResume
  then show ?thesis using ok by (simp add: Resume_row_def row_ok_def)
qed

lemma row_ok_run:
  "row_ok t e \<Longrightarrow> list_all (event_by t) evs \<Longrightarrow> 0 \<le> t \<Longrightarrow> row_ok t (row_run e evs)"
  unfolding row_run_def by (induction evs arbitrary: e) (auto intro: row_ok_step)

text \<open>In every history of an entry (failed and served calls, pick-time checks, heartbeat
  probes, pauses, in any order and with any errors), an entry that is on tentative probation is
  not dead at the same time, a dead mark never reaches further than thirty minutes past the last
  event, and the entry keeps at most one week of hourly usage buckets.\<close>

theorem breaker_invariant:
  assumes "list_all (event_by t) evs" and "0 \<le> t"
  shows "let e = row_run (fresh_row name kind tags prio win sem) evs in
    (er_tentative e \<longrightarrow> er_deadUntil e = 0) \<and>
    er_deadUntil e \<le> t + 30 * minute \<and> length (er_hourly e) \<le> 168"
  using row_ok_run[OF fresh_row_ok[OF assms(2)] assms, of name kind tags prio win sem]
  by (simp add: Let_def row_ok_def hourly_ok_def hourlyBucketCap_def livenessMaxCooldown_def)

definition plain_err :: gerror where
  "plain_err = \<lparr> ge_text = ''connection refused'', ge_chain = [] \<rparr>"

definition demo_row :: entryRow where
  "demo_row = fresh_row ''small'' ''llm'' [''small''] 0 8192 (Some 2)"

theorem breaker_invariant_witness:
  "let e = row_run (fresh_row ''small'' ''llm'' [] 0 8192 None)
             [EvError plain_err 1 1, EvError plain_err 2 2, EvProbe True 3, EvError plain_err 4 4]
   in er_deadUntil e \<le> 4 + 30 * minute \<and> length (er_hourly e) \<le> 168"
proof -
  have "list_all (event_by 4)
      [EvError plain_err 1 1, EvError plain_err 2 2, EvProbe True 3, EvError plain_err 4 4]"
    by code_simp
  from breaker_invariant[OF this, of "''small''" "''llm''" "[]" 0 8192 None]
  show ?thesis by (simp add: Let_def)
qed

subsection \<open>When the breaker opens and when it does not\<close>

text \<open>Errors the entry is not to blame for are dropped before anything is recorded.\<close>

lemma RecordError_filtered: "not_entry_fault err \<Longrightarrow> RecordError e (Some err) c now = (False, e)"
  by (simp add: RecordError_def)

fun blameless :: "row_event \<Rightarrow> bool" where
  "blameless (EvError err c now) = not_entry_fault err"
| "blameless EvPause = False"
| "blameless _ = True"

definition closed_breaker :: "entryRow \<Rightarrow> bool" where
  "closed_breaker e \<longleftrightarrow> \<not> er_paused e \<and> \<not> er_tentative e \<and> er_deadUntil e = 0"

lemma closed_breaker_step: "closed_breaker e \<Longrightarrow> blameless ev \<Longrightarrow> closed_breaker (row_step e ev)"
  by (cases ev)
    (simp_all add: closed_breaker_def RecordError_filtered RecordSuccess_def recordChatTokens_def
      IsEligible_def probe_due_def row_dead_def Resume_row_def Let_def)

lemma closed_breaker_run:
  "closed_breaker e \<Longrightarrow> list_all blameless evs \<Longrightarrow> closed_breaker (row_run e evs)"
  unfolding row_run_def by (induction evs arbitrary: e) (auto intro: closed_breaker_step)

text \<open>Errors that are the caller's or the prompt's doing never take an entry out of rotation:
  after any history whose errors are cancellations, the caller's own deadlines, content-level
  4xx answers or truncated tool arguments, however many and however close together, the entry is
  still eligible.\<close>

theorem caller_faults_never_cool:
  assumes "list_all blameless evs"
  shows "fst (IsEligible (row_run (fresh_row name kind tags prio win sem) evs) t)"
proof -
  have "closed_breaker (fresh_row name kind tags prio win sem)"
    by (simp add: closed_breaker_def fresh_row_def)
  from closed_breaker_run[OF this assms] show ?thesis
    by (simp add: closed_breaker_def IsEligible_def)
qed

definition cancel_err :: gerror where
  "cancel_err = \<lparr> ge_text = ''context canceled'', ge_chain = [Canceled] \<rparr>"

definition overflow_400 :: gerror where
  "overflow_400 = \<lparr> ge_text = ''POST u'' @ statusArrow @ ''400 Bad Request'', ge_chain = [] \<rparr>"

theorem caller_faults_never_cool_witness:
  "fst (IsEligible (row_run (fresh_row ''a'' ''llm'' [] 0 0 None)
     [EvError cancel_err 1 1, EvError overflow_400 2 2, EvError cancel_err 3 3]) 4)"
proof -
  have "list_all blameless [EvError cancel_err 1 1, EvError overflow_400 2 2, EvError cancel_err 3 3]"
    by code_simp
  from caller_faults_never_cool[OF this] show ?thesis .
qed

lemma dead_not_eligible:
  "\<not> er_tentative e \<Longrightarrow> er_deadUntil e \<noteq> 0 \<Longrightarrow> t \<le> er_deadUntil e \<Longrightarrow> IsEligible e t = (False, e)"
  by (simp add: IsEligible_def)

text \<open>A counted error on an entry that is neither tentative nor cooling.\<close>

lemma RecordError_counted:
  assumes "\<not> not_entry_fault err" and "\<not> er_tentative e" and "er_deadUntil e = 0 \<or> er_deadUntil e < now"
  shows "fst (RecordError e (Some err) c now) \<longleftrightarrow>
           1 \<le> er_consecutiveFails e \<or>
           2 \<le> length (filter (\<lambda>t. t > now - livenessWindow) (er_errTimes e))"
    and "er_deadUntil (snd (RecordError e (Some err) c now)) =
           (if fst (RecordError e (Some err) c now)
            then now + nextCooldown (er_consecutiveDeadEvents e) else er_deadUntil e)"
    and "\<not> er_tentative (snd (RecordError e (Some err) c now))"
    and "er_paused (snd (RecordError e (Some err) c now)) = er_paused e"
    and "er_consecutiveFails (snd (RecordError e (Some err) c now)) = Suc (er_consecutiveFails e)"
    and "\<not> fst (RecordError e (Some err) c now) \<Longrightarrow>
           er_consecutiveDeadEvents (snd (RecordError e (Some err) c now)) = er_consecutiveDeadEvents e"
  using assms
  by (auto simp: RecordError_def Let_def livenessFailThreshold_def consecutiveFailThreshold_def)

text \<open>After a served call one counted error does not take the entry out of rotation when the
  last minute had none, and a second one in a row does, however late it comes: the entry is then
  out for exactly the base cooldown of five minutes, whatever backoff it had reached before the
  success.\<close>

theorem second_failure_opens_breaker:
  assumes "\<not> er_paused e" and "er_deadUntil e = 0" and "0 < n2"
    and "\<not> not_entry_fault err1" and "\<not> not_entry_fault err2"
    and "list_all (\<lambda>t. t \<le> n1 - livenessWindow) (er_errTimes e)"
  shows "let e1 = row_step (RecordSuccess e) (EvError err1 c1 n1);
             e2 = row_step e1 (EvError err2 c2 n2)
         in fst (IsEligible e1 n2) \<and> er_deadUntil e2 = n2 + 5 * minute \<and>
            (\<forall>t. fst (IsEligible e2 t) \<longleftrightarrow> t > n2 + 5 * minute)"
proof -
  let ?s = "RecordSuccess e"
  let ?e1 = "snd (RecordError ?s (Some err1) c1 n1)"
  let ?e2 = "snd (RecordError ?e1 (Some err2) c2 n2)"
  have s: "\<not> er_paused ?s" "er_deadUntil ?s = 0" "\<not> er_tentative ?s" "er_consecutiveFails ?s = 0"
      "er_consecutiveDeadEvents ?s = 0" "er_errTimes ?s = er_errTimes e"
    using assms(1,2) by (simp_all add: RecordSuccess_def Let_def)
  have "filter (\<lambda>t. t > n1 - livenessWindow) (er_errTimes e) = []"
    using assms(6) by (auto simp: list_all_iff filter_empty_conv)
  note r1 = RecordError_counted[OF assms(4) s(3), of n1 c1]
  have n1: "\<not> fst (RecordError ?s (Some err1) c1 n1)"
    using r1(1) s \<open>filter _ _ = []\<close> by simp
  have e1: "er_deadUntil ?e1 = 0" "\<not> er_tentative ?e1" "\<not> er_paused ?e1"
      "er_consecutiveFails ?e1 = 1" "er_consecutiveDeadEvents ?e1 = 0"
    using r1 n1 s by simp_all
  note r2 = RecordError_counted[OF assms(5) e1(2), of n2 c2]
  have d: "er_deadUntil ?e2 = n2 + nextCooldown 0" "\<not> er_tentative ?e2" "\<not> er_paused ?e2"
    using r2 e1 by simp_all
  have base: "nextCooldown 0 = 5 * minute"
    by (simp add: nextCooldown_def breaker_defs duration_defs)
  have "er_deadUntil ?e2 \<noteq> 0" using assms(3) d(1) nextCooldown_pos[of 0] by simp
  then have "fst (IsEligible ?e2 t) \<longleftrightarrow> t > n2 + 5 * minute" for t
    using d base by (simp add: IsEligible_def)
  moreover have "fst (IsEligible ?e1 n2)" using e1 by (simp add: IsEligible_def)
  ultimately show ?thesis using d base by (simp add: Let_def)
qed

theorem second_failure_opens_breaker_witness:
  "let e1 = row_step (RecordSuccess demo_row) (EvError plain_err 7 7);
       e2 = row_step e1 (EvError plain_err (8 * hour) (8 * hour))
   in fst (IsEligible e1 (8 * hour)) \<and> \<not> fst (IsEligible e2 (8 * hour + 5 * minute))"
proof -
  have a: "\<not> er_paused demo_row" "er_deadUntil demo_row = 0" "0 < 8 * hour"
    "\<not> not_entry_fault plain_err" "list_all (\<lambda>t. t \<le> 7 - livenessWindow) (er_errTimes demo_row)"
    by code_simp+
  from second_failure_opens_breaker[OF a(1-4) a(4-5), of 7 "8 * hour"]
  show ?thesis by (simp add: Let_def)
qed

subsection \<open>A false recovery serves its cooldown\<close>

text \<open>
  After a tentative recovery failed, the mark of death and the hold on the probe are the same
  instant: until then no probe is due and no check re-admits the entry.
\<close>

definition on_hold :: "gtime \<Rightarrow> entryRow \<Rightarrow> bool" where
  "on_hold d e \<longleftrightarrow> \<not> er_tentative e \<and> er_deadUntil e = d \<and> er_nextProbeAt e = d"

lemma burned_on_hold:
  assumes "er_tentative e" and "\<not> not_entry_fault err"
  shows "on_hold (now + nextCooldown (er_consecutiveDeadEvents e)) (row_step e (EvError err c now))"
  using assms by (simp add: RecordError_def on_hold_def Let_def)

lemma on_hold_step:
  assumes h: "on_hold d e" and d: "0 < d" and ev: "ev \<noteq> EvSuccess" and eb: "event_by d ev"
  shows "on_hold d (row_step e ev)"
proof (cases ev)
  case (EvError err c now)
  then have "now \<le> d" using eb by (simp add: event_by_def)
  then show ?thesis using h d EvError by (simp add: RecordError_def on_hold_def Let_def)
next
  case (EvEligible now)
  then have "now \<le> d" using eb by (simp add: event_by_def)
  then show ?thesis using h d EvEligible by (simp add: IsEligible_def on_hold_def)
next
  case (EvProbe b now)
  have "\<not> probe_due e now"
    using h by (auto simp: on_hold_def probe_due_def probe_waiting_def row_dead_def)
  then show ?thesis using h EvProbe by simp
qed (use h ev in \<open>simp_all add: on_hold_def recordChatTokens_def Pause_row_def Resume_row_def\<close>)

lemma on_hold_run:
  "on_hold d e \<Longrightarrow> 0 < d \<Longrightarrow> list_all (\<lambda>ev. ev \<noteq> EvSuccess \<and> event_by d ev) evs \<Longrightarrow>
     on_hold d (row_run e evs)"
  unfolding row_run_def by (induction evs arbitrary: e) (auto intro: on_hold_step)

text \<open>C28. An entry whose tentative recovery proved false stays out of rotation for its whole
  backoff, short of a served call or a reload of the configuration: through any sequence of
  heartbeat passes with answering pings, late errors, token bookings, pauses, resumes and pick-time
  checks, the entry is not eligible before the cooldown has passed. A reload puts a new row in the
  place of the old one and drops the hold (\<^verbatim>\<open>reload_drops_probe_hold\<close>).\<close>

theorem burned_recovery_serves_cooldown:
  assumes "er_tentative e" and "\<not> not_entry_fault err" and "0 < now"
    and "until = now + nextCooldown (er_consecutiveDeadEvents e)"
    and "list_all (\<lambda>ev. ev \<noteq> EvSuccess \<and> event_by until ev) evs"
    and "t \<le> until"
  shows "\<not> fst (IsEligible (row_run (row_step e (EvError err c now)) evs) t)"
proof -
  have u: "0 < until" using assms(3,4) nextCooldown_pos[of "er_consecutiveDeadEvents e"] by simp
  have "on_hold until (row_run (row_step e (EvError err c now)) evs)"
    using on_hold_run[OF _ u assms(5)] burned_on_hold[OF assms(1,2), of now c] assms(4) by simp
  then show ?thesis
    using dead_not_eligible[of _ t] u assms(6) unfolding on_hold_def by auto
qed

definition tentative_row :: entryRow where
  "tentative_row = demo_row\<lparr>er_tentative := True, er_consecutiveDeadEvents := 1\<rparr>"

theorem burned_recovery_serves_cooldown_witness:
  "\<not> fst (IsEligible (row_run (row_step tentative_row (EvError plain_err 5 5))
      [EvProbe True (1 * minute), EvEligible (2 * minute), EvProbe True (9 * minute)]) (10 * minute))"
proof -
  have "list_all (\<lambda>ev. ev \<noteq> EvSuccess \<and> event_by (5 + nextCooldown 1) ev)
      [EvProbe True (1 * minute), EvEligible (2 * minute), EvProbe True (9 * minute)]"
    by code_simp
  moreover have "er_tentative tentative_row" "\<not> not_entry_fault plain_err"
    "er_consecutiveDeadEvents tentative_row = 1" "10 * minute \<le> 5 + nextCooldown 1"
    by code_simp+
  ultimately show ?thesis
    using burned_recovery_serves_cooldown[of tentative_row plain_err 5 "5 + nextCooldown 1" _ "10 * minute" 5]
    by simp
qed

subsection \<open>A reload drops the hold\<close>

text \<open>
  \<^verbatim>\<open>copyLiveness\<close> carries every liveness field but \<^verbatim>\<open>nextProbeAt\<close>. After a reload triggered by a
  change of the configuration file, the next heartbeat pass probes an entry whose hold should
  last, and an answering ping re-admits it before its cooldown has passed: what
  \<open>burned_recovery_serves_cooldown\<close> rules out without a reload.
\<close>

lemma reload_drops_probe_hold:
  assumes "er_tentative e" and "\<not> not_entry_fault err" and "\<not> er_paused e" and "0 < now"
    and "now < t" and "t < now + nextCooldown (er_consecutiveDeadEvents e)"
    and burned_def: "burned = row_step e (EvError err c now)"
    and reloaded_def: "reloaded = copyLiveness burned (fresh_row name kind tags prio win sem)"
  shows "\<not> probe_due burned t" and "probe_due reloaded t"
    and "fst (IsEligible (row_step reloaded (EvProbe True t)) t)"
proof -
  have h: "on_hold (now + nextCooldown (er_consecutiveDeadEvents e)) burned"
    unfolding burned_def using burned_on_hold[OF assms(1,2)] .
  have p: "\<not> er_paused burned"
    using assms(1-3) by (simp add: burned_def RecordError_def Let_def)
  show "\<not> probe_due burned t"
    using h by (auto simp: on_hold_def probe_due_def probe_waiting_def row_dead_def)
  show due: "probe_due reloaded t"
    using h p assms(4-6)
    by (simp add: on_hold_def probe_due_def probe_waiting_def row_dead_def reloaded_def
        copyLiveness_def fresh_row_def)
  then have "er_deadUntil reloaded > t" "\<not> er_paused reloaded" "\<not> er_tentative reloaded"
    by (simp_all add: probe_due_def row_dead_def)
  then show "fst (IsEligible (row_step reloaded (EvProbe True t)) t)"
    using due by (simp add: MarkProbed_def IsEligible_def probe_due_def row_dead_def)
qed

subsection \<open>What the panel shows and what routing does\<close>

text \<open>The state label of an enabled entry agrees with routing at every instant but the one at
  which its cooldown ends: the panel shows it live or tentative exactly when a pick may take it.\<close>

theorem snapshot_label_agrees_with_routing:
  assumes "list_all (event_by n) evs" and "0 \<le> n"
    and "e = row_run (fresh_row name kind tags prio win sem) evs"
    and "minEnabledPriority \<le> er_priority e" and "t \<noteq> er_deadUntil e"
  shows "(snapshot_state e t = S_live \<or> snapshot_state e t = S_tentative) = fst (IsEligible e t)"
proof -
  have "row_ok n e" using row_ok_run[OF fresh_row_ok[OF assms(2)] assms(1,2)] assms(3) by simp
  then show ?thesis
    using assms(4,5) by (auto simp: snapshot_state_def IsEligible_def row_ok_def Let_def)
qed

theorem snapshot_label_agrees_with_routing_witness:
  "(snapshot_state (row_run (fresh_row ''a'' ''llm'' [] 0 0 None)
      [EvError plain_err 1 1, EvError plain_err 2 2, EvProbe True 3]) 4 = S_live \<or>
    snapshot_state (row_run (fresh_row ''a'' ''llm'' [] 0 0 None)
      [EvError plain_err 1 1, EvError plain_err 2 2, EvProbe True 3]) 4 = S_tentative) =
   fst (IsEligible (row_run (fresh_row ''a'' ''llm'' [] 0 0 None)
      [EvError plain_err 1 1, EvError plain_err 2 2, EvProbe True 3]) 4)"
proof -
  let ?evs = "[EvError plain_err 1 1, EvError plain_err 2 2, EvProbe True 3]"
  let ?e = "row_run (fresh_row ''a'' ''llm'' [] 0 0 None) ?evs"
  have "list_all (event_by 3) ?evs" "minEnabledPriority \<le> er_priority ?e" "4 \<noteq> er_deadUntil ?e"
    by code_simp+
  then show ?thesis using snapshot_label_agrees_with_routing[OF _ _ refl, of 3 ?evs _ _ _ _ _ _ 4] by simp
qed

end
