(* ===== verification/Model_Pick.thy ===== *)
theory Model_Pick
  imports Model_Breaker
begin

section \<open>Choosing an entry for a request\<close>

text \<open>
  The picker of the model pool (\<^verbatim>\<open>src/leaf/model/30-pick.go\<close>) and its cache-affinity ledger
  (\<^verbatim>\<open>31-affinity.go\<close>). A pointer to a row is its index in the entry table, so the table and the
  index by name share rows as they do in the code. One pick reads the clock once; the throttled
  configuration check in front of it only starts a reload in the background and is modelled
  with the reloader.
\<close>

definition KindLLM :: string where
  "KindLLM = ''llm''"

record fallbackRule =
  fr_Tags :: "string list"
  fr_To :: "string list"

record poolState =
  ps_entries :: "entryRow list"
  ps_fallback :: "fallbackRule list"

record modelRequest =
  mr_Kind :: string
  mr_Requires :: "string list"
  mr_Prefer :: "string list"
  mr_PinnedEntry :: string
  mr_AffinityKey :: string

text \<open>\<^verbatim>\<open>byName\<close> is filled in table order: the last row of a name wins.\<close>

definition byName :: "poolState \<Rightarrow> string \<Rightarrow> nat option" where
  "byName st name =
     find (\<lambda>i. er_name (ps_entries st ! i) = name) (rev [0..<length (ps_entries st)])"

subsection \<open>Tags and fallback rules\<close>

fun hasAll :: "string list \<Rightarrow> string list \<Rightarrow> bool" where
  "hasAll tags [] = True"
| "hasAll tags (n # need) = (if n \<notin> set tags then False else hasAll tags need)"

fun countMatches :: "string list \<Rightarrow> string list \<Rightarrow> nat" where
  "countMatches tags [] = 0"
| "countMatches tags (w # wanted) =
     (if w \<in> set tags then Suc (countMatches tags wanted) else countMatches tags wanted)"

text \<open>The closure \<^verbatim>\<open>keep\<close>: skip the empty tag and what is already in \<open>out\<close>.\<close>

fun keep_tags :: "string list \<Rightarrow> string list \<Rightarrow> string list" where
  "keep_tags out [] = out"
| "keep_tags out (t # ts) =
     keep_tags (if t = [] \<or> t \<in> set out then out else out @ [t]) ts"

fun applyFirstRule :: "string list \<Rightarrow> fallbackRule list \<Rightarrow> string list option" where
  "applyFirstRule requires [] = None"
| "applyFirstRule requires (r # rules) =
     (if fr_Tags r = [] \<or> fr_To r = [] then applyFirstRule requires rules
      else if \<not> hasAll requires (fr_Tags r) then applyFirstRule requires rules
      else Some (keep_tags (keep_tags [] (filter (\<lambda>t. t \<notin> set (fr_Tags r)) requires)) (fr_To r)))"

definition tagSetKey :: "string list \<Rightarrow> string" where
  "tagSetKey tags = join [CHR 0x00] (sort tags)"

definition maxFallbackHops :: nat where
  "maxFallbackHops = 8"

primrec chain_loop ::
  "nat \<Rightarrow> fallbackRule list \<Rightarrow> string list \<Rightarrow> string list \<Rightarrow> string list list \<Rightarrow> string list list" where
  "chain_loop 0 rules seen current chain = chain"
| "chain_loop (Suc hops) rules seen current chain =
     (case applyFirstRule current rules of
        None \<Rightarrow> chain
      | Some nxt \<Rightarrow>
          if tagSetKey nxt \<in> set seen then chain
          else chain_loop hops rules (tagSetKey nxt # seen) nxt (chain @ [nxt]))"

definition fallbackChain :: "string list \<Rightarrow> fallbackRule list \<Rightarrow> string list list" where
  "fallbackChain requires rules =
     (if rules = [] \<or> requires = [] then [requires]
      else chain_loop maxFallbackHops rules [tagSetKey requires] requires [requires])"

subsection \<open>Cache affinity\<close>

definition affinityTTL :: duration where
  "affinityTTL = 20 * minute"

definition affinityMaxKeys :: nat where
  "affinityMaxKeys = 1024"

record affinityRec =
  ar_entry :: string
  ar_lastUsed :: gtime

type_synonym ledger = "(string, affinityRec) gomap"

definition affinity_live :: "ledger \<Rightarrow> gtime \<Rightarrow> ledger" where
  "affinity_live aff cutoff = filter (\<lambda>(k, r). \<not> ar_lastUsed r < cutoff) aff"

definition count_reserved :: "string \<Rightarrow> ledger \<Rightarrow> (string, nat) gomap" where
  "count_reserved key live =
     fold (\<lambda>(k, r) m. if k = key then m else gput (ar_entry r) (ggetz 0 m (ar_entry r) + 1) m) live []"

text \<open>The result is (own, reserved) and the ledger with its expired records pruned.\<close>

definition affinityFor ::
  "ledger \<Rightarrow> string \<Rightarrow> gtime \<Rightarrow> (string \<times> (string, nat) gomap) \<times> ledger" where
  "affinityFor aff key now =
     (if key = [] then (([], []), aff)
      else if aff = [] then (([], []), aff)
      else
        let live = affinity_live aff (now - affinityTTL);
            own = (case gget live key of None \<Rightarrow> [] | Some r \<Rightarrow> ar_entry r)
        in ((own, count_reserved key live), live))"

definition recordAffinity :: "ledger \<Rightarrow> string \<Rightarrow> string \<Rightarrow> gtime \<Rightarrow> ledger" where
  "recordAffinity aff key entry now =
     (if key = [] then aff
      else
        let aff' = (if length aff \<ge> affinityMaxKeys then [] else aff) in
        gput key \<lparr> ar_entry = entry, ar_lastUsed = now \<rparr> aff')"

subsection \<open>Ranking\<close>

record cand =
  cd_row :: nat
  cd_inFlight :: int

definition cand_less ::
  "poolState \<Rightarrow> string list \<Rightarrow> string \<Rightarrow> (string, nat) gomap \<Rightarrow> cand \<Rightarrow> cand \<Rightarrow> bool" where
  "cand_less st prefer own reserved ci cj =
     (let ri = ps_entries st ! cd_row ci; rj = ps_entries st ! cd_row cj;
          ai = countMatches (er_tags ri) prefer; aj = countMatches (er_tags rj) prefer;
          mi = (er_name ri = own); mj = (er_name rj = own);
          si = ggetz 0 reserved (er_name ri); sj = ggetz 0 reserved (er_name rj)
      in if ai \<noteq> aj then ai > aj
         else if er_priority ri \<noteq> er_priority rj then er_priority ri > er_priority rj
         else if cd_inFlight ci \<noteq> cd_inFlight cj then cd_inFlight ci < cd_inFlight cj
         else if own \<noteq> [] \<and> mi \<noteq> mj then mi
         else if si \<noteq> sj then si < sj
         else er_name ri < er_name rj)"

text \<open>\<^verbatim>\<open>sort.SliceStable\<close>: insertion from the right keeps equal elements in order.\<close>

fun insert_by :: "('a \<Rightarrow> 'a \<Rightarrow> bool) \<Rightarrow> 'a \<Rightarrow> 'a list \<Rightarrow> 'a list" where
  "insert_by lt x [] = [x]"
| "insert_by lt x (y # ys) = (if lt y x then y # insert_by lt x ys else x # y # ys)"

definition sort_stable :: "('a \<Rightarrow> 'a \<Rightarrow> bool) \<Rightarrow> 'a list \<Rightarrow> 'a list" where
  "sort_stable lt xs = foldr (insert_by lt) xs []"

subsection \<open>Picking\<close>

text \<open>The gates of \<^verbatim>\<open>pickReady\<close> in front of the eligibility check.\<close>

definition routable :: "string \<Rightarrow> string list \<Rightarrow> string list \<Rightarrow> entryRow \<Rightarrow> bool" where
  "routable wantKind requires tried row =
     (if er_kind row \<noteq> wantKind then False
      else if er_name row \<in> set tried then False
      else if er_priority row < minEnabledPriority then False
      else hasAll (er_tags row) requires)"

definition ready_rows :: "poolState \<Rightarrow> string \<Rightarrow> string list \<Rightarrow> string list \<Rightarrow> gtime \<Rightarrow> nat list" where
  "ready_rows st wantKind requires tried now =
     filter (\<lambda>i. routable wantKind requires tried (ps_entries st ! i) \<and>
                 fst (IsEligible (ps_entries st ! i) now)) [0..<length (ps_entries st)]"

text \<open>The rows the scan asked, after the recovery that asking may book.\<close>

definition scan_rows :: "poolState \<Rightarrow> string \<Rightarrow> string list \<Rightarrow> string list \<Rightarrow> gtime \<Rightarrow> poolState" where
  "scan_rows st wantKind requires tried now =
     st\<lparr>ps_entries := map (\<lambda>row. if routable wantKind requires tried row
                                  then snd (IsEligible row now) else row) (ps_entries st)\<rparr>"

definition pickReady ::
  "poolState \<Rightarrow> string \<Rightarrow> string list \<Rightarrow> string list \<Rightarrow> string \<Rightarrow> (string, nat) gomap \<Rightarrow>
     string list \<Rightarrow> gtime \<Rightarrow> nat option \<times> poolState" where
  "pickReady st wantKind requires prefer own reserved tried now =
     (let ready = ready_rows st wantKind requires tried now;
          st' = scan_rows st wantKind requires tried now
      in if ready = [] then (None, st')
         else if length ready = 1 then (Some (ready ! 0), st')
         else
           let cands = map (\<lambda>i. \<lparr> cd_row = i, cd_inFlight = er_inFlight (ps_entries st' ! i) \<rparr>) ready
           in (Some (cd_row (hd (sort_stable (cand_less st' prefer own reserved) cands))), st'))"

datatype pool_error =
    NoModelConfigured
  | NoSuchEntry string
  | PinnedDisabled string
  | PinnedUnavailable string
  | NoLiveEntry string
  | NoLiveTagged string "string list"
  | AllCandidatesFailed nat gerror
  | WaitQueueFull string int int
  | AcquireNoEntries
  | CtxDone gerror
  | PoolContextExceeded
  | AttemptFailed gerror

text \<open>\<^verbatim>\<open>errors.Is\<close> on the errors of the pool.\<close>

fun pool_error_Is :: "pool_error \<Rightarrow> sentinel \<Rightarrow> bool" where
  "pool_error_Is NoModelConfigured s = False"
| "pool_error_Is (NoSuchEntry n) s = (s = ErrNoModelAvailable)"
| "pool_error_Is (PinnedDisabled n) s = (s = ErrNoModelAvailable)"
| "pool_error_Is (PinnedUnavailable n) s = (s = ErrNoModelAvailable)"
| "pool_error_Is (NoLiveEntry k) s = (s = ErrNoModelAvailable)"
| "pool_error_Is (NoLiveTagged k ts) s = (s = ErrNoModelAvailable)"
| "pool_error_Is (AllCandidatesFailed n err) s = (s = ErrNoModelAvailable)"
| "pool_error_Is (WaitQueueFull k d c) s = (s = ErrModelQueueFull)"
| "pool_error_Is AcquireNoEntries s = False"
| "pool_error_Is (CtxDone err) s = errors_Is err s"
| "pool_error_Is PoolContextExceeded s = (s = ErrContextExceeded)"
| "pool_error_Is (AttemptFailed err) s = errors_Is err s"

definition want_kind :: "string \<Rightarrow> string" where
  "want_kind kind = (if kind = [] then KindLLM else kind)"

fun try_chain ::
  "poolState \<Rightarrow> string \<Rightarrow> string list list \<Rightarrow> string list \<Rightarrow> string \<Rightarrow> (string, nat) gomap \<Rightarrow>
     string list \<Rightarrow> gtime \<Rightarrow> nat option \<times> poolState" where
  "try_chain st kind [] prefer own reserved tried now = (None, st)"
| "try_chain st kind (requires # chain) prefer own reserved tried now =
     (case pickReady st kind requires prefer own reserved tried now of
        (Some i, st') \<Rightarrow> (Some i, st')
      | (None, st') \<Rightarrow> try_chain st' kind chain prefer own reserved tried now)"

definition pick ::
  "poolState \<Rightarrow> ledger \<Rightarrow> modelRequest \<Rightarrow> string list \<Rightarrow> gtime \<Rightarrow>
     (pool_error + nat) \<times> poolState \<times> ledger" where
  "pick st aff req tried now =
     (if ps_entries st = [] then (Inl NoModelConfigured, st, aff)
      else if mr_PinnedEntry req \<noteq> [] then
        (case byName st (mr_PinnedEntry req) of
           None \<Rightarrow> (Inl (NoSuchEntry (mr_PinnedEntry req)), st, aff)
         | Some i \<Rightarrow>
             let row = ps_entries st ! i in
             if er_priority row < minEnabledPriority
             then (Inl (PinnedDisabled (mr_PinnedEntry req)), st, aff)
             else
               let (ok, row') = IsEligible row now;
                   st' = st\<lparr>ps_entries := (ps_entries st)[i := row']\<rparr>
               in if \<not> ok then (Inl (PinnedUnavailable (mr_PinnedEntry req)), st', aff)
                  else (Inr i, st', aff))
      else
        let wantKind = want_kind (mr_Kind req);
            ((own, reserved), aff') = affinityFor aff (mr_AffinityKey req) now
        in case try_chain st wantKind (fallbackChain (mr_Requires req) (ps_fallback st))
                  (mr_Prefer req) own reserved tried now of
             (Some i, st') \<Rightarrow> (Inr i, st', aff')
           | (None, st') \<Rightarrow>
               (Inl (if mr_Requires req = [] then NoLiveEntry wantKind
                     else NoLiveTagged wantKind (mr_Requires req)), st', aff'))"

subsection \<open>The sizing twin\<close>

definition static_better :: "string list \<Rightarrow> entryRow \<Rightarrow> entryRow option \<Rightarrow> bool" where
  "static_better prefer row best =
     (case best of
        None \<Rightarrow> True
      | Some b \<Rightarrow>
          let hits = countMatches (er_tags row) prefer; bestHits = countMatches (er_tags b) prefer in
          hits > bestHits \<or>
          (hits = bestHits \<and>
             (er_priority row > er_priority b \<or>
              (er_priority row = er_priority b \<and> er_name row < er_name b))))"

fun static_scan ::
  "(entryRow \<Rightarrow> bool) \<Rightarrow> string \<Rightarrow> string list \<Rightarrow> string list \<Rightarrow> entryRow option \<Rightarrow> entryRow list \<Rightarrow>
     entryRow option" where
  "static_scan ok kind requires prefer best [] = best"
| "static_scan ok kind requires prefer best (row # rows) =
     (if er_kind row \<noteq> kind \<or> er_priority row < minEnabledPriority
      then static_scan ok kind requires prefer best rows
      else if \<not> hasAll (er_tags row) requires \<or> \<not> ok row
      then static_scan ok kind requires prefer best rows
      else static_scan ok kind requires prefer
             (if static_better prefer row best then Some row else best) rows)"

fun static_chain ::
  "(entryRow \<Rightarrow> bool) \<Rightarrow> string \<Rightarrow> string list list \<Rightarrow> string list \<Rightarrow> entryRow list \<Rightarrow> entryRow option" where
  "static_chain ok kind [] prefer rows = None"
| "static_chain ok kind (requires # chain) prefer rows =
     (case static_scan ok kind requires prefer None rows of
        Some b \<Rightarrow> Some b
      | None \<Rightarrow> static_chain ok kind chain prefer rows)"

text \<open>\<open>capable\<close> is the structural filter of the caller, \<open>\<lambda>_. True\<close> standing for nil.\<close>

definition pickStatic :: "poolState \<Rightarrow> modelRequest \<Rightarrow> (entryRow \<Rightarrow> bool) \<Rightarrow> entryRow option" where
  "pickStatic st req capable =
     (if ps_entries st = [] then None
      else if mr_PinnedEntry req \<noteq> [] then
        (case byName st (mr_PinnedEntry req) of
           None \<Rightarrow> None
         | Some i \<Rightarrow>
             let row = ps_entries st ! i in
             if er_priority row < minEnabledPriority \<or> \<not> capable row then None else Some row)
      else static_chain capable (want_kind (mr_Kind req))
             (fallbackChain (mr_Requires req) (ps_fallback st)) (mr_Prefer req) (ps_entries st))"

definition WindowFor :: "poolState \<Rightarrow> modelRequest \<Rightarrow> int" where
  "WindowFor st req =
     (case pickStatic st req (\<lambda>_. True) of None \<Rightarrow> 0 | Some row \<Rightarrow> er_window row)"

text \<open>Is there somewhere to go beside \<open>current\<close>: another pick, or a saturated entry to wait for.\<close>

fun any_eligible :: "poolState \<Rightarrow> string \<Rightarrow> nat list \<Rightarrow> gtime \<Rightarrow> bool \<times> poolState" where
  "any_eligible st name [] now = (False, st)"
| "any_eligible st name (i # is) now =
     (let row = ps_entries st ! i in
      if er_name row \<noteq> name then
        let (ok, row') = IsEligible row now;
            st' = st\<lparr>ps_entries := (ps_entries st)[i := row']\<rparr>
        in if ok then (True, st') else any_eligible st' name is now
      else any_eligible st name is now)"

definition hasFallbackCandidate ::
  "poolState \<Rightarrow> ledger \<Rightarrow> modelRequest \<Rightarrow> string list \<Rightarrow> nat \<Rightarrow> nat list \<Rightarrow> gtime \<Rightarrow>
     bool \<times> poolState \<times> ledger" where
  "hasFallbackCandidate st aff req exclude current saturated now =
     (let name = er_name (ps_entries st ! current) in
      case pick st aff req (name # exclude) now of
        (Inr i, st', aff') \<Rightarrow> (True, st', aff')
      | (Inl e, st', aff') \<Rightarrow>
          let (r, st'') = any_eligible st' name saturated now in (r, st'', aff'))"

subsection \<open>Tags\<close>

lemma hasAll_iff: "hasAll tags need \<longleftrightarrow> set need \<subseteq> set tags"
  by (induction need) auto

lemma countMatches_filter: "countMatches tags wanted = length (filter (\<lambda>w. w \<in> set tags) wanted)"
  by (induction wanted) auto

lemma set_keep_tags: "set (keep_tags out ts) = set out \<union> (set ts - {[]})"
  by (induction ts arbitrary: out) auto

lemma distinct_keep_tags: "distinct out \<Longrightarrow> distinct (keep_tags out ts)"
  by (induction ts arbitrary: out) auto

text \<open>One hop: some rule of the configuration applies, its tags give way to its targets, and the
  other required tags stay.\<close>

definition hop_by :: "fallbackRule list \<Rightarrow> string list \<Rightarrow> string list \<Rightarrow> bool" where
  "hop_by rules cur nxt \<longleftrightarrow>
     (\<exists>r \<in> set rules. fr_Tags r \<noteq> [] \<and> fr_To r \<noteq> [] \<and> set (fr_Tags r) \<subseteq> set cur \<and>
        set nxt = ((set cur - set (fr_Tags r)) \<union> set (fr_To r)) - {[]} \<and> distinct nxt)"

lemma applyFirstRule_hop: "applyFirstRule cur rules = Some nxt \<Longrightarrow> hop_by rules cur nxt"
proof (induction rules)
  case (Cons r rules)
  show ?case
  proof (cases "fr_Tags r = [] \<or> fr_To r = [] \<or> \<not> hasAll cur (fr_Tags r)")
    case True
    then have "applyFirstRule cur rules = Some nxt" using Cons.prems by (auto split: if_splits)
    then show ?thesis using Cons.IH by (auto simp: hop_by_def)
  next
    case False
    then have "nxt = keep_tags (keep_tags [] (filter (\<lambda>t. t \<notin> set (fr_Tags r)) cur)) (fr_To r)"
      using Cons.prems by simp
    then have "set nxt = ((set cur - set (fr_Tags r)) \<union> set (fr_To r)) - {[]}" "distinct nxt"
      by (auto simp: set_keep_tags intro!: distinct_keep_tags)
    then show ?thesis using False by (auto simp: hop_by_def hasAll_iff)
  qed
qed simp

lemma applyFirstRule_None:
  "applyFirstRule cur rules = None \<longleftrightarrow>
     (\<forall>r \<in> set rules. fr_Tags r = [] \<or> fr_To r = [] \<or> \<not> set (fr_Tags r) \<subseteq> set cur)"
  by (induction rules) (auto simp: hasAll_iff)

text \<open>The loop keeps: consecutive sets are hops, visited keys are distinct and all recorded.\<close>

definition chain_ok :: "fallbackRule list \<Rightarrow> string list \<Rightarrow> string list \<Rightarrow> string list list \<Rightarrow> bool" where
  "chain_ok rules seen cur chain \<longleftrightarrow>
     chain \<noteq> [] \<and> last chain = cur \<and> set seen = set (map tagSetKey chain) \<and>
     distinct (map tagSetKey chain) \<and>
     (\<forall>i. Suc i < length chain \<longrightarrow> hop_by rules (chain ! i) (chain ! Suc i))"

lemma chain_ok_snoc:
  assumes ok: "chain_ok rules seen cur chain" and hop: "hop_by rules cur nxt"
    and new: "tagSetKey nxt \<notin> set seen"
  shows "chain_ok rules (tagSetKey nxt # seen) nxt (chain @ [nxt])"
proof -
  have "hop_by rules ((chain @ [nxt]) ! i) ((chain @ [nxt]) ! Suc i)"
    if i: "Suc i < length (chain @ [nxt])" for i
  proof (cases "Suc i < length chain")
    case True
    then show ?thesis using ok by (simp add: chain_ok_def nth_append)
  next
    case False
    then have "Suc i = length chain" using i by simp
    moreover from this have "chain ! i = last chain"
      using ok by (metis chain_ok_def diff_Suc_1 last_conv_nth)
    ultimately show ?thesis using ok hop by (simp add: chain_ok_def nth_append)
  qed
  then show ?thesis using ok new by (auto simp: chain_ok_def)
qed

lemma chain_loop_ok:
  "chain_ok rules seen cur chain \<Longrightarrow>
     \<exists>seen' cur'. chain_ok rules seen' cur' (chain_loop n rules seen cur chain) \<and>
       length (chain_loop n rules seen cur chain) \<le> length chain + n \<and>
       hd (chain_loop n rules seen cur chain) = hd chain"
proof (induction n arbitrary: seen cur chain)
  case (Suc n)
  show ?case
  proof (cases "applyFirstRule cur rules")
    case (Some nxt)
    show ?thesis
    proof (cases "tagSetKey nxt \<in> set seen")
      case False
      have "chain \<noteq> []" using Suc.prems by (simp add: chain_ok_def)
      then show ?thesis
        using Suc.IH[OF chain_ok_snoc[OF Suc.prems applyFirstRule_hop[OF Some] False]] Some False
        by auto
    qed (use Suc.prems Some in auto)
  qed (use Suc.prems in auto)
qed auto

text \<open>The sets of tags a pick tries start with the required set; each further one comes from
  the one before by a rule of the configuration that swaps its tags for its targets and leaves
  every other required tag in place; no set is tried twice and there are at most nine, so a
  cyclic set of rules ends.\<close>

theorem fallback_chain_sound:
  "hd (fallbackChain requires rules) = requires \<and>
   length (fallbackChain requires rules) \<le> 9 \<and>
   distinct (map tagSetKey (fallbackChain requires rules)) \<and>
   (\<forall>i. Suc i < length (fallbackChain requires rules) \<longrightarrow>
      hop_by rules (fallbackChain requires rules ! i) (fallbackChain requires rules ! Suc i))"
proof (cases "rules = [] \<or> requires = []")
  case True
  then show ?thesis by (simp add: fallbackChain_def)
next
  case False
  have "chain_ok rules [tagSetKey requires] requires [requires]" by (simp add: chain_ok_def)
  from chain_loop_ok[OF this, of maxFallbackHops] show ?thesis
    using False by (auto simp: fallbackChain_def chain_ok_def maxFallbackHops_def)
qed

theorem fallback_chain_sound_witness:
  "hd (fallbackChain [''smart'', ''zh''] [\<lparr>fr_Tags = [''smart''], fr_To = [''small'']\<rparr>,
                                          \<lparr>fr_Tags = [''small''], fr_To = [''smart'']\<rparr>]) = [''smart'', ''zh''] \<and>
   hop_by [\<lparr>fr_Tags = [''smart''], fr_To = [''small'']\<rparr>, \<lparr>fr_Tags = [''small''], fr_To = [''smart'']\<rparr>]
     (fallbackChain [''smart'', ''zh''] [\<lparr>fr_Tags = [''smart''], fr_To = [''small'']\<rparr>,
                                          \<lparr>fr_Tags = [''small''], fr_To = [''smart'']\<rparr>] ! 0)
     (fallbackChain [''smart'', ''zh''] [\<lparr>fr_Tags = [''smart''], fr_To = [''small'']\<rparr>,
                                          \<lparr>fr_Tags = [''small''], fr_To = [''smart'']\<rparr>] ! Suc 0)"
proof -
  let ?rules = "[\<lparr>fr_Tags = [''smart''], fr_To = [''small'']\<rparr>, \<lparr>fr_Tags = [''small''], fr_To = [''smart'']\<rparr>]"
  have "Suc 0 < length (fallbackChain [''smart'', ''zh''] ?rules)" by code_simp
  then show ?thesis using fallback_chain_sound[of "[''smart'', ''zh'']" ?rules] by blast
qed

subsection \<open>The ranking is a lexicographic order\<close>

lemma insert_by_key:
  assumes "\<And>a b. lt a b \<longleftrightarrow> key a < (key b :: 'k::linorder)"
  shows "insert_by lt x ys = insort_key key x ys"
  by (induction ys) (auto simp: assms)

lemma sort_stable_key:
  assumes "\<And>a b. lt a b \<longleftrightarrow> key a < (key b :: 'k::linorder)"
  shows "sort_stable lt xs = sort_key key xs"
  unfolding sort_stable_def by (induction xs) (simp_all add: insert_by_key[OF assms])

lemma hd_sort_key:
  assumes "xs \<noteq> []"
  shows "hd (sort_key key xs) \<in> set xs"
    and "y \<in> set xs \<Longrightarrow> key (hd (sort_key key xs)) \<le> (key y :: 'k::linorder)"
proof -
  have ne: "sort_key key xs \<noteq> []" using assms by (metis length_0_conv length_sort)
  then show "hd (sort_key key xs) \<in> set xs" by (metis hd_in_set set_sort)
  assume "y \<in> set xs"
  then have "y \<in> set (sort_key key xs)" by simp
  moreover have "sorted (map key (sort_key key xs))" by simp
  ultimately show "key (hd (sort_key key xs)) \<le> key y"
    using ne by (cases "sort_key key xs") auto
qed

type_synonym rank = "int \<times> int \<times> int \<times> nat \<times> nat \<times> string"

text \<open>Prefer hits and priority count downwards, the rest upwards.\<close>

definition rank_of :: "string list \<Rightarrow> string \<Rightarrow> (string, nat) gomap \<Rightarrow> entryRow \<Rightarrow> rank" where
  "rank_of prefer own reserved row =
     (- int (countMatches (er_tags row) prefer), - er_priority row, er_inFlight row,
      (if own \<noteq> [] \<and> er_name row \<noteq> own then 1 else 0),
      ggetz 0 reserved (er_name row), er_name row)"

definition cand_at :: "poolState \<Rightarrow> nat \<Rightarrow> cand" where
  "cand_at st i = \<lparr> cd_row = i, cd_inFlight = er_inFlight (ps_entries st ! i) \<rparr>"

definition cand_key :: "poolState \<Rightarrow> string list \<Rightarrow> string \<Rightarrow> (string, nat) gomap \<Rightarrow> cand \<Rightarrow> rank" where
  "cand_key st prefer own reserved c =
     rank_of prefer own reserved ((ps_entries st ! cd_row c)\<lparr>er_inFlight := cd_inFlight c\<rparr>)"

lemma cand_less_key:
  "cand_less st prefer own reserved a b \<longleftrightarrow>
     cand_key st prefer own reserved a < cand_key st prefer own reserved b"
  by (auto simp: cand_less_def cand_key_def rank_of_def Let_def less_prod_def)

lemma cand_key_at:
  "cand_key st prefer own reserved (cand_at st i) = rank_of prefer own reserved (ps_entries st ! i)"
  by (simp add: cand_key_def cand_at_def)

text \<open>What a scan may change of a row: a lapsed mark of death.\<close>

lemma IsEligible_frame [simp]:
  "er_name (snd (IsEligible e now)) = er_name e" "er_kind (snd (IsEligible e now)) = er_kind e"
  "er_tags (snd (IsEligible e now)) = er_tags e" "er_priority (snd (IsEligible e now)) = er_priority e"
  "er_inFlight (snd (IsEligible e now)) = er_inFlight e" "er_window (snd (IsEligible e now)) = er_window e"
  "er_sem (snd (IsEligible e now)) = er_sem e" "er_held (snd (IsEligible e now)) = er_held e"
  "er_paused (snd (IsEligible e now)) = er_paused e"
  by (simp_all add: IsEligible_def)

lemma IsEligible_idem: "fst (IsEligible (snd (IsEligible e now)) now) = fst (IsEligible e now)"
  by (simp add: IsEligible_def)

lemma rank_of_IsEligible [simp]:
  "rank_of prefer own reserved (snd (IsEligible e now)) = rank_of prefer own reserved e"
  by (simp add: rank_of_def)

lemma routable_IsEligible [simp]:
  "routable kind requires tried (snd (IsEligible e now)) = routable kind requires tried e"
  by (simp add: routable_def)

lemma length_scan_rows [simp]:
  "length (ps_entries (scan_rows st kind requires tried now)) = length (ps_entries st)"
  by (simp add: scan_rows_def)

lemma scan_rows_nth:
  "i < length (ps_entries st) \<Longrightarrow>
     ps_entries (scan_rows st kind requires tried now) ! i =
       (if routable kind requires tried (ps_entries st ! i)
        then snd (IsEligible (ps_entries st ! i) now) else ps_entries st ! i)"
  by (simp add: scan_rows_def)

lemma rank_scan_rows:
  "i < length (ps_entries st) \<Longrightarrow>
     rank_of prefer own reserved (ps_entries (scan_rows st kind requires tried now) ! i) =
     rank_of prefer own reserved (ps_entries st ! i)"
  by (simp add: scan_rows_nth)

lemma ready_rows_mem:
  "i \<in> set (ready_rows st kind requires tried now) \<longleftrightarrow>
     i < length (ps_entries st) \<and> routable kind requires tried (ps_entries st ! i) \<and>
     fst (IsEligible (ps_entries st ! i) now)"
  by (auto simp: ready_rows_def)

text \<open>The pick of one set of tags: the first of the best-ranked ready rows.\<close>

lemma pickReady_sort:
  "fst (pickReady st kind requires prefer own reserved tried now) =
     (let ready = ready_rows st kind requires tried now in
      if ready = [] then None
      else Some (hd (sort_key (\<lambda>i. rank_of prefer own reserved (ps_entries st ! i)) ready)))"
proof -
  let ?ready = "ready_rows st kind requires tried now"
  let ?st = "scan_rows st kind requires tried now"
  let ?k = "\<lambda>i. rank_of prefer own reserved (ps_entries st ! i)"
  have in_range: "i < length (ps_entries st)" if "i \<in> set ?ready" for i
    using that by (simp add: ready_rows_mem)
  have "sort_stable (cand_less ?st prefer own reserved) (map (cand_at ?st) ?ready) =
      sort_key (cand_key ?st prefer own reserved) (map (cand_at ?st) ?ready)"
    by (rule sort_stable_key) (rule cand_less_key)
  also have "\<dots> = map (cand_at ?st) (sort_key ?k ?ready)"
  proof -
    have "sort_key (cand_key ?st prefer own reserved) (map (cand_at ?st) xs) =
        map (cand_at ?st) (sort_key ?k xs)" if "set xs \<subseteq> set ?ready" for xs
      using that
    proof (induction xs)
      case (Cons x xs)
      have key: "cand_key ?st prefer own reserved (cand_at ?st y) = ?k y" if "y \<in> set ?ready" for y
        using in_range[OF that] by (simp add: cand_key_at rank_scan_rows)
      have ins: "insort_key (cand_key ?st prefer own reserved) (cand_at ?st x) (map (cand_at ?st) ys) =
          map (cand_at ?st) (insort_key ?k x ys)" if "set ys \<subseteq> set ?ready" for ys
        using that Cons.prems by (induction ys) (auto simp: key)
      show ?case using Cons ins[of "sort_key ?k xs"] by simp
    qed simp
    then show ?thesis by simp
  qed
  finally have s: "sort_stable (cand_less ?st prefer own reserved) (map (cand_at ?st) ?ready) =
      map (cand_at ?st) (sort_key ?k ?ready)" .
  have ne: "?ready \<noteq> [] \<Longrightarrow> sort_key ?k ?ready \<noteq> []" by (metis length_0_conv length_sort)
  have one: "length ?ready = 1 \<Longrightarrow> hd (sort_key ?k ?ready) = ?ready ! 0"
    by (auto simp: length_Suc_conv)
  have c: "(\<lambda>i. \<lparr> cd_row = i, cd_inFlight = er_inFlight (ps_entries ?st ! i) \<rparr>) = cand_at ?st"
    by (rule ext) (simp add: cand_at_def)
  have row: "cd_row (cand_at ?st i) = i" for i by (simp add: cand_at_def)
  show ?thesis
    by (auto simp: pickReady_def Let_def c s hd_map ne row one)
qed

lemma pickReady_state:
  "snd (pickReady st kind requires prefer own reserved tried now) = scan_rows st kind requires tried now"
  by (simp add: pickReady_def Let_def)

subsection \<open>What a pick returns\<close>

lemma eligible_scan_rows:
  "i < length (ps_entries st) \<Longrightarrow>
     fst (IsEligible (ps_entries (scan_rows st kind requires tried now) ! i) now) =
     fst (IsEligible (ps_entries st ! i) now)"
  by (simp add: scan_rows_nth IsEligible_idem)

lemma ready_scan_rows [simp]:
  "ready_rows (scan_rows st kind requires tried now) k rs t now = ready_rows st k rs t now"
  unfolding ready_rows_def length_scan_rows
  by (rule filter_cong) (auto simp: scan_rows_nth IsEligible_idem)

text \<open>The reference for a pick: the first set of tags with a ready row, and the best row of it.\<close>

definition best_ready ::
  "poolState \<Rightarrow> string \<Rightarrow> string list \<Rightarrow> string list \<Rightarrow> string \<Rightarrow> (string, nat) gomap \<Rightarrow>
     string list \<Rightarrow> gtime \<Rightarrow> nat" where
  "best_ready st kind requires prefer own reserved tried now =
     hd (sort_key (\<lambda>i. rank_of prefer own reserved (ps_entries st ! i))
          (ready_rows st kind requires tried now))"

lemma best_ready_scan_rows:
  "best_ready (scan_rows st kind requires tried now) kind' rs prefer own reserved t now =
     best_ready st kind' rs prefer own reserved t now"
proof -
  have "map (\<lambda>i. rank_of prefer own reserved (ps_entries (scan_rows st kind requires tried now) ! i)) xs =
      map (\<lambda>i. rank_of prefer own reserved (ps_entries st ! i)) xs \<and>
      sort_key (\<lambda>i. rank_of prefer own reserved (ps_entries (scan_rows st kind requires tried now) ! i)) xs =
      sort_key (\<lambda>i. rank_of prefer own reserved (ps_entries st ! i)) xs"
    if "set xs \<subseteq> {..<length (ps_entries st)}" for xs
    using that
  proof (induction xs)
    case (Cons x xs)
    have ins: "insort_key (\<lambda>i. rank_of prefer own reserved (ps_entries (scan_rows st kind requires tried now) ! i)) x ys =
        insort_key (\<lambda>i. rank_of prefer own reserved (ps_entries st ! i)) x ys"
      if "set ys \<subseteq> {..<length (ps_entries st)}" for ys
      using that Cons.prems by (induction ys) (auto simp: rank_scan_rows)
    show ?case using Cons ins[of "sort_key (\<lambda>i. rank_of prefer own reserved (ps_entries st ! i)) xs"]
      by (simp add: rank_scan_rows)
  qed simp
  moreover have "set (ready_rows st kind' rs t now) \<subseteq> {..<length (ps_entries st)}"
    by (auto simp: ready_rows_mem)
  ultimately show ?thesis by (simp add: best_ready_def)
qed

lemma try_chain_spec:
  "fst (try_chain st kind chain prefer own reserved tried now) =
     (case find (\<lambda>rs. ready_rows st kind rs tried now \<noteq> []) chain of
        None \<Rightarrow> None
      | Some rs \<Rightarrow> Some (best_ready st kind rs prefer own reserved tried now))"
proof (induction chain arbitrary: st)
  case (Cons rs chain)
  obtain res st' where p: "pickReady st kind rs prefer own reserved tried now = (res, st')"
    by (cases "pickReady st kind rs prefer own reserved tried now")
  have st': "st' = scan_rows st kind rs tried now"
    using pickReady_state[of st kind rs "prefer" own reserved tried now] p by simp
  have res: "res = (if ready_rows st kind rs tried now = [] then None
      else Some (best_ready st kind rs prefer own reserved tried now))"
    using pickReady_sort[of st kind rs "prefer" own reserved tried now] p
    by (simp add: best_ready_def Let_def)
  show ?case
  proof (cases "ready_rows st kind rs tried now = []")
    case True
    then have "try_chain st kind (rs # chain) prefer own reserved tried now =
        try_chain st' kind chain prefer own reserved tried now"
      using p res by simp
    then show ?thesis
      using Cons.IH[of st'] True by (simp add: st' best_ready_scan_rows cong: option.case_cong)
  next
    case False
    then show ?thesis using p res by simp
  qed
qed simp

abbreviation req_chain :: "poolState \<Rightarrow> modelRequest \<Rightarrow> string list list" where
  "req_chain st req \<equiv> fallbackChain (mr_Requires req) (ps_fallback st)"

lemma pick_unpinned:
  assumes "ps_entries st \<noteq> []" and "mr_PinnedEntry req = []"
  shows "fst (pick st aff req tried now) =
     (let kind = want_kind (mr_Kind req); (own, reserved) = fst (affinityFor aff (mr_AffinityKey req) now) in
      case find (\<lambda>rs. ready_rows st kind rs tried now \<noteq> []) (req_chain st req) of
        Some rs \<Rightarrow> Inr (best_ready st kind rs (mr_Prefer req) own reserved tried now)
      | None \<Rightarrow> Inl (if mr_Requires req = [] then NoLiveEntry kind
                     else NoLiveTagged kind (mr_Requires req)))"
proof -
  obtain own reserved aff' where a: "affinityFor aff (mr_AffinityKey req) now = ((own, reserved), aff')"
    by (metis prod.exhaust)
  obtain res st' where t: "try_chain st (want_kind (mr_Kind req)) (req_chain st req) (mr_Prefer req)
      own reserved tried now = (res, st')"
    by (metis prod.exhaust)
  let ?f = "find (\<lambda>rs. ready_rows st (want_kind (mr_Kind req)) rs tried now \<noteq> []) (req_chain st req)"
  have res: "res = (case ?f of None \<Rightarrow> None
      | Some rs \<Rightarrow> Some (best_ready st (want_kind (mr_Kind req)) rs (mr_Prefer req) own reserved tried now))"
    using try_chain_spec[of st "want_kind (mr_Kind req)" "req_chain st req" "mr_Prefer req" own reserved tried now] t
    by (simp only: fst_conv)
  show ?thesis
  proof (cases ?f)
    case None
    then show ?thesis using assms a t res by (simp only: pick_def Let_def prod.case option.case fst_conv if_False if_True simp_thms)
  next
    case (Some rs)
    then show ?thesis using assms a t res by (simp only: pick_def Let_def prod.case option.case fst_conv if_False if_True simp_thms)
  qed
qed

lemma pick_ranked:
  assumes "pick st aff req tried now = (Inr i, st', aff')" and "mr_PinnedEntry req = []"
    and "affinityFor aff (mr_AffinityKey req) now = ((own, reserved), aff'')"
    and "kind = want_kind (mr_Kind req)"
  shows "\<exists>n < length (req_chain st req).
     i \<in> set (ready_rows st kind (req_chain st req ! n) tried now) \<and>
     (\<forall>m < n. ready_rows st kind (req_chain st req ! m) tried now = []) \<and>
     (\<forall>j \<in> set (ready_rows st kind (req_chain st req ! n) tried now).
        rank_of (mr_Prefer req) own reserved (ps_entries st ! i) \<le>
        rank_of (mr_Prefer req) own reserved (ps_entries st ! j))"
proof -
  have ne: "ps_entries st \<noteq> []" using assms(1) by (auto simp: pick_def)
  let ?P = "\<lambda>rs. ready_rows st kind rs tried now \<noteq> []"
  have e: "(case find ?P (req_chain st req) of
        Some rs \<Rightarrow> Inr (best_ready st kind rs (mr_Prefer req) own reserved tried now)
      | None \<Rightarrow> Inl (if mr_Requires req = [] then NoLiveEntry kind
                     else NoLiveTagged kind (mr_Requires req))) = Inr i"
    using pick_unpinned[OF ne assms(2), of aff tried now]
    unfolding assms(4) assms(1,3) by (simp only: Let_def fst_conv prod.case)
  obtain rs where rs: "find ?P (req_chain st req) = Some rs"
    and i: "i = best_ready st kind rs (mr_Prefer req) own reserved tried now"
    using e by (cases "find ?P (req_chain st req)") auto
  obtain n where n: "n < length (req_chain st req)" "rs = req_chain st req ! n" "?P rs"
      "\<forall>m < n. \<not> ?P (req_chain st req ! m)"
    using rs by (auto simp: find_Some_iff)
  let ?key = "\<lambda>i. rank_of (mr_Prefer req) own reserved (ps_entries st ! i)"
  have i': "i = hd (sort_key ?key (ready_rows st kind rs tried now))"
    using i by (simp add: best_ready_def)
  have "i \<in> set (ready_rows st kind rs tried now)"
    unfolding i' by (rule hd_sort_key(1)[OF n(3)])
  moreover have "\<forall>j \<in> set (ready_rows st kind rs tried now). ?key i \<le> ?key j"
    unfolding i' using hd_sort_key(2)[OF n(3), of _ ?key] by blast
  ultimately show ?thesis using n(1,2,4) by blast
qed

text \<open>The ranking a request with a key meets, from the records of the ledger: the entry the
  conversation was served by within the last twenty minutes, and the other conversations served
  on an entry within that time.\<close>

lemma count_reserved_others:
  "ggetz 0 (count_reserved key live) e = length (filter (\<lambda>(k, r). k \<noteq> key \<and> ar_entry r = e) live)"
proof -
  have "ggetz 0 (fold (\<lambda>(k, r) m. if k = key then m
          else gput (ar_entry r) (ggetz 0 m (ar_entry r) + 1) m) live m) e =
      ggetz 0 m e + length (filter (\<lambda>(k, r). k \<noteq> key \<and> ar_entry r = e) live)" for m
    by (induction live arbitrary: m) (auto split: prod.split)
  then show ?thesis by (simp add: count_reserved_def)
qed

definition recent :: "gtime \<Rightarrow> affinityRec \<Rightarrow> bool" where
  "recent now r \<longleftrightarrow> now - 20 * minute \<le> ar_lastUsed r"

definition home :: "ledger \<Rightarrow> string \<Rightarrow> gtime \<Rightarrow> string" where
  "home aff key now = (case gget aff key of Some r \<Rightarrow> if recent now r then ar_entry r else [] | None \<Rightarrow> [])"

definition occupants :: "ledger \<Rightarrow> string \<Rightarrow> gtime \<Rightarrow> string \<Rightarrow> string list" where
  "occupants aff key now entry = map fst (filter (\<lambda>(k, r). k \<noteq> key \<and> recent now r \<and> ar_entry r = entry) aff)"

definition conv_rank :: "ledger \<Rightarrow> string \<Rightarrow> gtime \<Rightarrow> string list \<Rightarrow> entryRow \<Rightarrow> rank" where
  "conv_rank aff key now prefer row =
     (- int (countMatches (er_tags row) prefer), - er_priority row, er_inFlight row,
      (if home aff key now \<noteq> [] \<and> er_name row \<noteq> home aff key now then 1 else 0),
      length (occupants aff key now (er_name row)), er_name row)"

lemma rank_of_conv:
  assumes "gmap_ok aff" and "key \<noteq> []" and "affinityFor aff key now = ((own, reserved), aff'')"
  shows "rank_of prefer own reserved row = conv_rank aff key now prefer row"
proof (cases "aff = []")
  case True
  then show ?thesis
    using assms by (auto simp: affinityFor_def rank_of_def conv_rank_def home_def occupants_def)
next
  case False
  let ?live = "affinity_live aff (now - affinityTTL)"
  have lv: "?live = filter (\<lambda>(k, r). recent now r) aff"
    by (simp add: affinity_live_def recent_def affinityTTL_def not_less)
  have own: "own = home aff key now"
    using assms False gget_filter_kv[OF assms(1), of "\<lambda>k r. recent now r" key]
    by (auto simp: affinityFor_def Let_def lv home_def split: option.split)
  have "filter (\<lambda>(k, r). k \<noteq> key \<and> ar_entry r = e) ?live
      = filter (\<lambda>(k, r). k \<noteq> key \<and> recent now r \<and> ar_entry r = e) aff" for e
    unfolding lv filter_filter by (rule filter_cong) auto
  then have "ggetz 0 reserved e = length (occupants aff key now e)" for e
    using assms(2,3) False by (auto simp: affinityFor_def Let_def count_reserved_others occupants_def)
  then show ?thesis by (simp add: rank_of_def conv_rank_def own)
qed

text \<open>C16. A pick for a request that carries a conversation key and is not pinned returns a row that is of the
  requested kind, enabled, not already tried and eligible now; it carries every tag of the first set of the
  fallback chain that has such a row at all, and no other such row ranks before it: by preferred tags, then
  priority, then load, then whether it is the entry that served the conversation within the last twenty
  minutes, then how many other conversations it served within that time, then name. A request without a key
  is ranked by the same list less the two conversation criteria (\<^verbatim>\<open>keyless_pick\<close>).\<close>

theorem pick_is_best_usable:
  assumes "pick st aff req tried now = (Inr i, st', aff')" and "mr_PinnedEntry req = []"
    and "mr_AffinityKey req \<noteq> []" and "gmap_ok aff" and "kind = want_kind (mr_Kind req)"
  shows "\<exists>n < length (req_chain st req).
     i \<in> set (ready_rows st kind (req_chain st req ! n) tried now) \<and>
     (\<forall>m < n. ready_rows st kind (req_chain st req ! m) tried now = []) \<and>
     (\<forall>j \<in> set (ready_rows st kind (req_chain st req ! n) tried now).
        conv_rank aff (mr_AffinityKey req) now (mr_Prefer req) (ps_entries st ! i) \<le>
        conv_rank aff (mr_AffinityKey req) now (mr_Prefer req) (ps_entries st ! j))"
proof -
  obtain own reserved aff'' where a: "affinityFor aff (mr_AffinityKey req) now = ((own, reserved), aff'')"
    by (metis prod.exhaust)
  show ?thesis
    using pick_ranked[OF assms(1,2) a assms(5)] unfolding rank_of_conv[OF assms(4,3) a] .
qed

lemma keyless_pick:
  assumes "pick st aff req tried now = (Inr i, st', aff')" and "mr_PinnedEntry req = []" and "mr_AffinityKey req = []"
  shows "\<exists>rs \<in> set (req_chain st req). \<forall>j \<in> set (ready_rows st (want_kind (mr_Kind req)) rs tried now).
     rank_of (mr_Prefer req) [] [] (ps_entries st ! i) \<le> rank_of (mr_Prefer req) [] [] (ps_entries st ! j)"
  using pick_ranked[OF assms(1,2) _ refl, of "[]" "[]" aff] assms(3) by (auto simp: affinityFor_def)

definition demo_state :: poolState where
  "demo_state = \<lparr> ps_entries =
       [fresh_row ''a'' ''llm'' [''smart''] 5 8192 (Some 1), fresh_row ''b'' ''llm'' [''smart''] 5 8192 None,
        fresh_row ''c'' ''llm'' [''small''] 9 4096 None],
     ps_fallback = [\<lparr> fr_Tags = [''smart''], fr_To = [''small''] \<rparr>] \<rparr>"

definition demo_req :: modelRequest where
  "demo_req = \<lparr> mr_Kind = [], mr_Requires = [''smart''], mr_Prefer = [], mr_PinnedEntry = [],
                mr_AffinityKey = [] \<rparr>"

text \<open>Two entries of equal tags, priority and load, of which another conversation was served by the first a
  second ago: the second is picked.\<close>

definition demo_ledger :: ledger where
  "demo_ledger = [(''other'', \<lparr> ar_entry = ''a'', ar_lastUsed = 6 * second \<rparr>)]"

theorem pick_is_best_usable_witness:
  "pick demo_state demo_ledger (demo_req\<lparr>mr_AffinityKey := ''me''\<rparr>) [] (7 * second) = (Inr 1, demo_state, demo_ledger)
   \<and> conv_rank demo_ledger ''me'' (7 * second) [] (ps_entries demo_state ! 1)
       \<le> conv_rank demo_ledger ''me'' (7 * second) [] (ps_entries demo_state ! 0)"
proof -
  let ?req = "demo_req\<lparr>mr_AffinityKey := ''me''\<rparr>"
  have p: "pick demo_state demo_ledger ?req [] (7 * second) = (Inr 1, demo_state, demo_ledger)" by code_simp
  have r: "mr_PinnedEntry ?req = []" "mr_AffinityKey ?req \<noteq> []" "gmap_ok demo_ledger"
      "want_kind [] = want_kind (mr_Kind ?req)" "mr_Prefer ?req = []" "mr_AffinityKey ?req = ''me''"
    by (simp_all add: demo_req_def demo_ledger_def)
  have m: "\<forall>n < length (req_chain demo_state ?req).
      1 \<in> set (ready_rows demo_state (want_kind []) (req_chain demo_state ?req ! n) [] (7 * second))
        \<longrightarrow> 0 \<in> set (ready_rows demo_state (want_kind []) (req_chain demo_state ?req ! n) [] (7 * second))"
    by code_simp
  from pick_is_best_usable[OF p r(1-4)] m show ?thesis using p unfolding r(5,6) by blast
qed

text \<open>A pick that is not pinned fails only when nothing can serve: no row of the kind that is
  enabled, untried and eligible carries all tags of any set of the fallback chain; on a pool
  with entries the error then wraps \<^verbatim>\<open>ErrNoModelAvailable\<close>.\<close>

theorem pick_fails_only_when_dry:
  assumes "fst (pick st aff req tried now) = Inl e" and "mr_PinnedEntry req = []"
    and "rs \<in> set (req_chain st req)" and "row \<in> set (ps_entries st)"
    and "routable (want_kind (mr_Kind req)) rs tried row"
  shows "\<not> fst (IsEligible row now) \<and> pool_error_Is e ErrNoModelAvailable"
proof -
  have ne: "ps_entries st \<noteq> []" using assms(4) by auto
  obtain own reserved where a: "fst (affinityFor aff (mr_AffinityKey req) now) = (own, reserved)"
    by (metis prod.exhaust)
  let ?k = "want_kind (mr_Kind req)"
  have f: "find (\<lambda>rs. ready_rows st ?k rs tried now \<noteq> []) (req_chain st req) = None"
    and e: "e = (if mr_Requires req = [] then NoLiveEntry ?k else NoLiveTagged ?k (mr_Requires req))"
    using pick_unpinned[OF ne assms(2), of aff tried now] assms(1) a
    by (auto simp: Let_def split: option.splits)
  have "ready_rows st ?k rs tried now = []" using f assms(3) by (auto simp: find_None_iff)
  moreover obtain i where "i < length (ps_entries st)" "row = ps_entries st ! i"
    using assms(4) by (metis in_set_conv_nth)
  ultimately have "\<not> fst (IsEligible row now)"
    using assms(5) by (auto simp: ready_rows_def filter_empty_conv)
  then show ?thesis using e by simp
qed

theorem pick_fails_only_when_dry_witness:
  "\<not> fst (IsEligible (demo_row\<lparr>er_paused := True\<rparr>) 7) \<and>
   pool_error_Is (NoLiveEntry ''llm'') ErrNoModelAvailable"
proof -
  let ?st = "\<lparr> ps_entries = [demo_row\<lparr>er_paused := True\<rparr>], ps_fallback = [] \<rparr>"
  let ?req = "demo_req\<lparr>mr_Requires := []\<rparr>"
  have "fst (pick ?st [] ?req [] 7) = Inl (NoLiveEntry ''llm'')" "mr_PinnedEntry ?req = []"
    "[] \<in> set (req_chain ?st ?req)" "demo_row\<lparr>er_paused := True\<rparr> \<in> set (ps_entries ?st)"
    "routable (want_kind (mr_Kind ?req)) [] [] (demo_row\<lparr>er_paused := True\<rparr>)"
    by code_simp+
  from pick_fails_only_when_dry[OF this] show ?thesis .
qed

subsection \<open>The sizing twin\<close>

lemma sort_key_cong_order:
  assumes "\<And>a b. a \<in> set xs \<Longrightarrow> b \<in> set xs \<Longrightarrow> (k1 a \<le> (k1 b :: 'k::linorder)) = (k2 a \<le> (k2 b :: 'l::linorder))"
  shows "sort_key k1 xs = sort_key k2 xs"
  using assms
proof (induction xs)
  case (Cons x xs)
  have "insort_key k1 x ys = insort_key k2 x ys" if "set ys \<subseteq> set xs" for ys
    using that Cons.prems by (induction ys) auto
  then show ?case using Cons by simp
qed simp

lemma sort_key_map: "sort_key k (map f xs) = map f (sort_key (\<lambda>x. k (f x)) xs)"
proof (induction xs)
  case (Cons x xs)
  have "insort_key k (f x) (map f ys) = map f (insort_key (\<lambda>x. k (f x)) x ys)" for ys
    by (induction ys) auto
  then show ?case using Cons by simp
qed simp

lemma sort_ne [simp]: "sort_key k xs = [] \<longleftrightarrow> xs = []"
  by (metis length_0_conv length_sort)

lemma hd_insort: "hd (insort_key k x ys) = (if ys = [] \<or> k x \<le> k (hd ys) then x else hd ys)"
  by (cases ys) auto

text \<open>The static rank of a row.\<close>

definition static_rank :: "string list \<Rightarrow> entryRow \<Rightarrow> int \<times> int \<times> string" where
  "static_rank prefer row = (- int (countMatches (er_tags row) prefer), - er_priority row, er_name row)"

definition static_rows :: "(entryRow \<Rightarrow> bool) \<Rightarrow> string \<Rightarrow> string list \<Rightarrow> entryRow list \<Rightarrow> entryRow list" where
  "static_rows capable kind requires rows = filter (\<lambda>r. routable kind requires [] r \<and> capable r) rows"

lemma static_better_Some: "static_better prefer row (Some b) \<longleftrightarrow> static_rank prefer row < static_rank prefer b"
  by (auto simp: static_better_def static_rank_def Let_def less_prod_def)

lemma static_scan_skip:
  "\<not> (routable kind requires [] row \<and> capable row) \<Longrightarrow>
     static_scan capable kind requires pf best (row # rows) = static_scan capable kind requires pf best rows"
  by (auto simp: routable_def split: if_splits)

lemma static_scan_take:
  "routable kind requires [] row \<and> capable row \<Longrightarrow>
     static_scan capable kind requires pf best (row # rows) =
     static_scan capable kind requires pf (if static_better pf row best then Some row else best) rows"
  by (auto simp: routable_def split: if_splits)

lemma static_scan_acc:
  "static_scan capable kind requires pf (Some b) rows =
     Some (let F = sort_key (static_rank pf) (static_rows capable kind requires rows) in
           if F = [] \<or> static_rank pf b \<le> static_rank pf (hd F) then b else hd F)"
proof (induction rows arbitrary: b)
  case (Cons row rows)
  let ?F = "sort_key (static_rank pf) (static_rows capable kind requires rows)"
  show ?case
  proof (cases "routable kind requires [] row \<and> capable row")
    case False
    then show ?thesis using Cons.IH[of b] static_scan_skip[of kind requires row capable pf "Some b" rows] False
      by (auto simp: static_rows_def)
  next
    case True
    let ?b = "if static_better pf row (Some b) then row else b"
    have step: "static_scan capable kind requires pf (Some b) (row # rows) =
        static_scan capable kind requires pf (Some ?b) rows"
      using static_scan_take[of kind requires row capable pf "Some b" rows] True by (simp split: if_splits)
    have F: "sort_key (static_rank pf) (static_rows capable kind requires (row # rows)) =
        insort_key (static_rank pf) row ?F"
      using True by (simp add: static_rows_def)
    show ?thesis
      unfolding step Cons.IH F Let_def
      by (auto simp: hd_insort static_better_Some not_less)
  qed
qed (simp add: static_rows_def)

lemma static_scan_spec:
  "static_scan capable kind requires pf None rows =
     (case static_rows capable kind requires rows of [] \<Rightarrow> None
      | _ \<Rightarrow> Some (hd (sort_key (static_rank pf) (static_rows capable kind requires rows))))"
proof (induction rows)
  case (Cons row rows)
  show ?case
  proof (cases "routable kind requires [] row \<and> capable row")
    case False
    then have "static_rows capable kind requires (row # rows) = static_rows capable kind requires rows"
      by (auto simp: static_rows_def)
    then show ?thesis
      using Cons.IH static_scan_skip[of kind requires row capable pf None rows] False
      by (simp only: not_False_eq_True simp_thms)
  next
    case True
    have "static_scan capable kind requires pf None (row # rows) =
        static_scan capable kind requires pf (Some row) rows"
      using static_scan_take[of kind requires row capable pf None rows] True
      by (simp add: static_better_def split: if_splits)
    moreover have "static_rows capable kind requires (row # rows) = row # static_rows capable kind requires rows"
      using True by (simp add: static_rows_def)
    ultimately show ?thesis by (simp add: static_scan_acc Let_def hd_insort)
  qed
qed (simp add: static_rows_def)

text \<open>Events on a row leave what sizing reads alone.\<close>

lemma row_step_static [simp]:
  "er_name (row_step e ev) = er_name e" "er_kind (row_step e ev) = er_kind e"
  "er_tags (row_step e ev) = er_tags e" "er_priority (row_step e ev) = er_priority e"
  "er_window (row_step e ev) = er_window e"
  by (cases ev; simp add: RecordError_def book_error_def RecordSuccess_def recordChatTokens_def
      MarkProbed_def Pause_row_def Resume_row_def addUsage_def Let_def split: option.split)+

lemma row_run_static [simp]:
  "er_name (row_run e evs) = er_name e" "er_kind (row_run e evs) = er_kind e"
  "er_tags (row_run e evs) = er_tags e" "er_priority (row_run e evs) = er_priority e"
  "er_window (row_run e evs) = er_window e"
  unfolding row_run_def by (induction evs arbitrary: e) simp_all

text \<open>Two rows with the same configuration, whatever their health.\<close>

definition same_config :: "entryRow \<Rightarrow> entryRow \<Rightarrow> bool" where
  "same_config r' r \<longleftrightarrow>
     er_name r' = er_name r \<and> er_kind r' = er_kind r \<and> er_tags r' = er_tags r \<and>
     er_priority r' = er_priority r \<and> er_window r' = er_window r"

text \<open>A table whose rows went through histories, row by row.\<close>

definition aged :: "(nat \<Rightarrow> row_event list) \<Rightarrow> poolState \<Rightarrow> poolState" where
  "aged hist st = st\<lparr>ps_entries := map (\<lambda>i. row_run (ps_entries st ! i) (hist i)) [0..<length (ps_entries st)]\<rparr>"

lemma static_scan_cong:
  assumes "list_all2 same_config rows' rows"
    and "rel_option same_config best' best"
  shows "rel_option same_config
      (static_scan (\<lambda>_. True) kind requires pf best' rows') (static_scan (\<lambda>_. True) kind requires pf best rows)"
  using assms
proof (induction rows' rows arbitrary: best' best rule: list_all2_induct)
  case (Cons r' rows' r rows)
  have "static_better pf r' best' = static_better pf r best"
    using Cons.prems Cons.hyps(1) by (cases best'; cases best) (simp_all add: static_better_def same_config_def)
  then show ?case using Cons by (simp add: same_config_def)
qed simp

lemma static_chain_cong:
  assumes "list_all2 same_config rows' rows"
  shows "rel_option same_config
      (static_chain (\<lambda>_. True) kind chain pf rows') (static_chain (\<lambda>_. True) kind chain pf rows)"
proof (induction chain)
  case (Cons rs chain)
  from static_scan_cong[OF assms, of None None kind rs pf] Cons show ?case
    by (cases "static_scan (\<lambda>_. True) kind rs pf None rows'";
        cases "static_scan (\<lambda>_. True) kind rs pf None rows") simp_all
qed simp

lemma byName_aged: "byName (aged hist st) name = byName st name"
  unfolding byName_def aged_def by (auto intro!: find_cong)

text \<open>The sizing answer is stable: no history of failures, cooldowns, probes, served calls and
  pauses on any of the entries changes the context window a request is sized to, as long as the
  configuration stays.\<close>

theorem window_blind_to_health: "WindowFor (aged hist st) req = WindowFor st req"
proof -
  have l2: "list_all2 same_config (ps_entries (aged hist st)) (ps_entries st)"
    by (auto simp: aged_def list_all2_conv_all_nth same_config_def)
  have fb: "ps_fallback (aged hist st) = ps_fallback st" and ne: "ps_entries (aged hist st) = [] \<longleftrightarrow> ps_entries st = []"
    by (auto simp: aged_def)
  have nth: "same_config (ps_entries (aged hist st) ! i) (ps_entries st ! i)" if "byName st n = Some i" for i n
  proof -
    have "i < length (ps_entries st)" using find_Some_mem[OF that[unfolded byName_def]] by simp
    then show ?thesis using l2 by (simp add: list_all2_conv_all_nth)
  qed
  have "rel_option same_config (pickStatic (aged hist st) req (\<lambda>_. True)) (pickStatic st req (\<lambda>_. True))"
  proof (cases "mr_PinnedEntry req = []")
    case True
    then show ?thesis
      using static_chain_cong[OF l2, of "want_kind (mr_Kind req)"] ne fb by (simp add: pickStatic_def)
  next
    case False
    then show ?thesis
    proof (cases "byName st (mr_PinnedEntry req)")
      case (Some i)
      then show ?thesis using False nth[OF Some] ne by (simp add: pickStatic_def byName_aged Let_def same_config_def)
    qed (use ne in \<open>simp add: pickStatic_def byName_aged\<close>)
  qed
  then show ?thesis
    by (cases "pickStatic (aged hist st) req (\<lambda>_. True)"; cases "pickStatic st req (\<lambda>_. True)")
      (auto simp: WindowFor_def same_config_def)
qed

text \<open>On an idle, healthy pool and for a request without a conversation key, load and affinity
  decide nothing: the ranks reduce to the static ones.\<close>

definition idle_pool :: "poolState \<Rightarrow> gtime \<Rightarrow> bool" where
  "idle_pool st now \<longleftrightarrow> list_all (\<lambda>r. fst (IsEligible r now) \<and> er_inFlight r = 0) (ps_entries st)"

lemma ready_rows_static:
  assumes "idle_pool st now"
  shows "map ((!) (ps_entries st)) (ready_rows st kind rs [] now) =
         static_rows (\<lambda>_. True) kind rs (ps_entries st)"
proof -
  have "ready_rows st kind rs [] now =
      filter (\<lambda>i. routable kind rs [] (ps_entries st ! i)) [0..<length (ps_entries st)]"
    using assms unfolding ready_rows_def idle_pool_def list_all_length by (intro filter_cong) auto
  also have "map ((!) (ps_entries st)) \<dots> =
      filter (routable kind rs []) (map ((!) (ps_entries st)) [0..<length (ps_entries st)])"
    by (simp add: filter_map o_def)
  finally show ?thesis by (simp add: static_rows_def map_nth)
qed

lemma best_ready_static:
  assumes idle: "idle_pool st now" and ne: "ready_rows st kind rs [] now \<noteq> []"
  shows "static_scan (\<lambda>_. True) kind rs pf None (ps_entries st) =
           Some (ps_entries st ! best_ready st kind rs pf [] [] [] now)"
proof -
  let ?R = "ready_rows st kind rs [] now" and ?f = "(!) (ps_entries st)"
  have zero: "er_inFlight (?f i) = 0" if "i \<in> set ?R" for i
    using idle that by (simp add: idle_pool_def list_all_length ready_rows_mem)
  have "sort_key (\<lambda>i. rank_of pf [] [] (?f i)) ?R = sort_key (\<lambda>i. static_rank pf (?f i)) ?R"
    by (rule sort_key_cong_order) (auto simp: rank_of_def static_rank_def less_eq_prod_def zero)
  then have "?f (best_ready st kind rs pf [] [] [] now) =
      hd (sort_key (static_rank pf) (static_rows (\<lambda>_. True) kind rs (ps_entries st)))"
    using ne hd_map[of "sort_key (\<lambda>i. static_rank pf (?f i)) ?R" ?f]
    by (simp add: best_ready_def sort_key_map sort_ne flip: ready_rows_static[OF idle])
  moreover have "static_rows (\<lambda>_. True) kind rs (ps_entries st) \<noteq> []"
    using ne ready_rows_static[OF idle, of kind rs] by (metis map_is_Nil_conv)
  ultimately show ?thesis by (simp add: static_scan_spec split: list.split)
qed

lemma static_scan_None:
  assumes "idle_pool st now" and "ready_rows st kind rs [] now = []"
  shows "static_scan (\<lambda>_. True) kind rs pf None (ps_entries st) = None"
  using ready_rows_static[OF assms(1), of kind rs] assms(2) by (simp add: static_scan_spec)

lemma static_chain_find:
  assumes "idle_pool st now"
  shows "static_chain (\<lambda>_. True) kind chain pf (ps_entries st) =
     (case find (\<lambda>rs. ready_rows st kind rs [] now \<noteq> []) chain of
        None \<Rightarrow> None
      | Some rs \<Rightarrow> Some (ps_entries st ! best_ready st kind rs pf [] [] [] now))"
proof (induction chain)
  case (Cons rs chain)
  then show ?case
    using best_ready_static[OF assms, of kind rs pf] static_scan_None[OF assms, of kind rs pf]
    by (cases "ready_rows st kind rs [] now = []") simp_all
qed simp

text \<open>Routing and sizing agree: on a pool whose entries are all eligible and idle, a request
  without a conversation key is served by exactly the entry its prompt was sized to, through the
  same tag fallbacks, and a request that sizing finds no entry for is refused.\<close>

theorem idle_pick_agrees_with_sizing:
  assumes "idle_pool st now" and "mr_PinnedEntry req = []" and "mr_AffinityKey req = []"
  shows "case pickStatic st req (\<lambda>_. True) of
           Some row \<Rightarrow> \<exists>i. fst (pick st aff req [] now) = Inr i \<and> ps_entries st ! i = row
         | None \<Rightarrow> \<exists>e. fst (pick st aff req [] now) = Inl e"
proof (cases "ps_entries st = []")
  case True
  then show ?thesis by (simp add: pickStatic_def pick_def)
next
  case False
  have a: "fst (affinityFor aff (mr_AffinityKey req) now) = ([], [])"
    using assms(3) by (simp add: affinityFor_def)
  let ?f = "find (\<lambda>rs. ready_rows st (want_kind (mr_Kind req)) rs [] now \<noteq> []) (req_chain st req)"
  have p: "pickStatic st req (\<lambda>_. True) =
      static_chain (\<lambda>_. True) (want_kind (mr_Kind req)) (req_chain st req) (mr_Prefer req) (ps_entries st)"
    using False assms(2) by (simp add: pickStatic_def)
  show ?thesis
  proof (cases ?f)
    case None
    then show ?thesis
      using pick_unpinned[OF False assms(2), of aff "[]" now] a p static_chain_find[OF assms(1)]
      by (simp add: Let_def)
  next
    case (Some rs)
    then show ?thesis
      using pick_unpinned[OF False assms(2), of aff "[]" now] a p static_chain_find[OF assms(1)]
      by (simp add: Let_def)
  qed
qed

theorem idle_pick_agrees_with_sizing_witness:
  "case pickStatic demo_state demo_req (\<lambda>_. True) of
     Some row \<Rightarrow> \<exists>i. fst (pick demo_state [] demo_req [] 7) = Inr i \<and> ps_entries demo_state ! i = row
   | None \<Rightarrow> \<exists>e. fst (pick demo_state [] demo_req [] 7) = Inl e"
proof -
  have "idle_pool demo_state 7" "mr_PinnedEntry demo_req = []" "mr_AffinityKey demo_req = []"
    by code_simp+
  from idle_pick_agrees_with_sizing[OF this] show ?thesis .
qed

subsection \<open>The affinity ledger\<close>

definition ledger_ok :: "ledger \<Rightarrow> bool" where
  "ledger_ok aff \<longleftrightarrow> gmap_ok aff \<and> length aff \<le> affinityMaxKeys"

lemma ledger_ok_record: "ledger_ok aff \<Longrightarrow> ledger_ok (recordAffinity aff key e now)"
  by (auto simp: ledger_ok_def recordAffinity_def Let_def length_gput affinityMaxKeys_def
      simp del: map_map)

lemma ledger_ok_for: "ledger_ok aff \<Longrightarrow> ledger_ok (snd (affinityFor aff key now))"
  by (auto simp: ledger_ok_def affinityFor_def affinity_live_def Let_def
      intro: order_trans[OF length_filter_le])

text \<open>A served conversation is remembered on its entry for twenty minutes and for no longer,
  and the occupancy it sees on any entry is the number of other conversations remembered there
  within that time, never itself; the ledger holds at most 1024 conversations.\<close>

theorem affinity_roundtrip:
  assumes "ledger_ok aff" and "key \<noteq> []"
  shows "fst (fst (affinityFor (recordAffinity aff key e now) key t)) =
           (if now < t - affinityTTL then [] else e) \<and>
         ggetz 0 (snd (fst (affinityFor (recordAffinity aff key e now) key t))) x =
           length (filter (\<lambda>(k, r). k \<noteq> key \<and> ar_entry r = x)
             (filter (\<lambda>(k, r). \<not> ar_lastUsed r < t - affinityTTL) (recordAffinity aff key e now))) \<and>
         length (recordAffinity aff key e now) \<le> 1024"
proof -
  let ?aff = "recordAffinity aff key e now"
  have ok: "ledger_ok ?aff" using ledger_ok_record[OF assms(1)] .
  have g: "gget ?aff key = Some \<lparr> ar_entry = e, ar_lastUsed = now \<rparr>"
    using assms(2) by (simp add: recordAffinity_def Let_def)
  have ne: "?aff \<noteq> []" using g by auto
  have "gget (affinity_live ?aff (t - affinityTTL)) key =
      (if now < t - affinityTTL then None else Some \<lparr> ar_entry = e, ar_lastUsed = now \<rparr>)"
    using ok g by (simp add: affinity_live_def gget_filter_kv ledger_ok_def)
  then have own: "fst (fst (affinityFor ?aff key t)) = (if now < t - affinityTTL then [] else e)"
    using assms(2) ne by (simp add: affinityFor_def Let_def)
  have "snd (fst (affinityFor ?aff key t)) = count_reserved key (affinity_live ?aff (t - affinityTTL))"
    using assms(2) ne by (simp add: affinityFor_def Let_def)
  then show ?thesis
    using own ok by (simp only: count_reserved_others affinity_live_def ledger_ok_def affinityMaxKeys_def)
qed

theorem affinity_roundtrip_witness:
  "fst (fst (affinityFor (recordAffinity [] ''s1'' ''small'' 5) ''s1'' 9)) = ''small''"
proof -
  have "ledger_ok []" "\<not> 5 < 9 - affinityTTL" by code_simp+
  then show ?thesis using affinity_roundtrip[of "[]" "''s1''" "''small''" 5 9] by simp
qed

text \<open>
  A request without a key gets no view of the ledger at all: it is not steered away from the
  entries other conversations occupy, whatever the field's comment in
  \<^verbatim>\<open>contract/72-model-pool.go\<close> says.
\<close>

lemma keyless_ignores_occupancy: "fst (affinityFor aff [] now) = ([], [])"
  by (simp add: affinityFor_def)

subsection \<open>Facts for the drivers\<close>

lemma pick_mem:
  assumes "fst (pick st aff req tried now) = Inr i" and "mr_PinnedEntry req = []"
  shows "i < length (ps_entries st)" and "er_name (ps_entries st ! i) \<notin> set tried"
proof -
  have ne: "ps_entries st \<noteq> []" using assms(1) by (auto simp: pick_def)
  obtain own reserved where a: "fst (affinityFor aff (mr_AffinityKey req) now) = (own, reserved)"
    by (metis prod.exhaust)
  let ?P = "\<lambda>rs. ready_rows st (want_kind (mr_Kind req)) rs tried now \<noteq> []"
  obtain rs where f: "find ?P (req_chain st req) = Some rs"
    and i: "i = best_ready st (want_kind (mr_Kind req)) rs (mr_Prefer req) own reserved tried now"
    using pick_unpinned[OF ne assms(2), of aff tried now] assms(1) a
    by (cases "find ?P (req_chain st req)") (auto simp: Let_def)
  have "ready_rows st (want_kind (mr_Kind req)) rs tried now \<noteq> []" using find_Some_mem[OF f] by simp
  then have "i \<in> set (ready_rows st (want_kind (mr_Kind req)) rs tried now)"
    using hd_sort_key(1) unfolding i best_ready_def by blast
  then show "i < length (ps_entries st)" "er_name (ps_entries st ! i) \<notin> set tried"
    by (auto simp: ready_rows_mem routable_def split: if_splits)
qed

abbreviation ps_names :: "poolState \<Rightarrow> string list" where
  "ps_names st \<equiv> map er_name (ps_entries st)"

lemma ps_names_scan [simp]: "ps_names (scan_rows st kind requires tried now) = ps_names st"
  by (simp add: scan_rows_def)

lemma ps_names_try_chain: "ps_names (snd (try_chain st kind chain pf own reserved tried now)) = ps_names st"
proof (induction chain arbitrary: st)
  case (Cons rs chain)
  show ?case
    using Cons.IH[of "scan_rows st kind rs tried now"]
      pickReady_state[of st kind rs pf own reserved tried now]
    by (auto split: prod.split option.split)
qed simp

lemma ps_names_update:
  "er_name row = er_name (ps_entries st ! i) \<Longrightarrow> ps_names (st\<lparr>ps_entries := (ps_entries st)[i := row]\<rparr>) = ps_names st"
  by (simp add: map_update list_update_beyond list_update_id) (metis length_map list_update_beyond list_update_id map_update not_le nth_map)

lemma ps_names_pick: "ps_names (fst (snd (pick st aff req tried now))) = ps_names st"
proof (cases "ps_entries st = [] \<or> mr_PinnedEntry req \<noteq> []")
  case True
  show ?thesis
  proof (cases "byName st (mr_PinnedEntry req)")
    case None
    then show ?thesis using True by (auto simp: pick_def)
  next
    case (Some i)
    then show ?thesis
      using True ps_names_update[of "snd (IsEligible (ps_entries st ! i) now)" st i]
      by (auto simp: pick_def Let_def case_prod_beta)
  qed
next
  case False
  obtain own reserved aff' where a: "affinityFor aff (mr_AffinityKey req) now = ((own, reserved), aff')"
    by (metis prod.exhaust)
  obtain res st' where t: "try_chain st (want_kind (mr_Kind req)) (req_chain st req) (mr_Prefer req)
      own reserved tried now = (res, st')"
    by (metis prod.exhaust)
  have "ps_names st' = ps_names st"
    using ps_names_try_chain[of st "want_kind (mr_Kind req)" "req_chain st req" "mr_Prefer req" own reserved tried now] t
    by simp
  then show ?thesis using False a t by (cases res) (simp_all add: pick_def Let_def)
qed

lemma ps_names_any_eligible: "ps_names (snd (any_eligible st name is now)) = ps_names st"
proof (induction "is" arbitrary: st)
  case (Cons i ks)
  show ?case
    using Cons ps_names_update[of "snd (IsEligible (ps_entries st ! i) now)" st i]
    by (simp add: Let_def case_prod_beta)
qed simp

lemma ps_names_fallback: "ps_names (fst (snd (hasFallbackCandidate st aff req ex i sat now))) = ps_names st"
proof -
  obtain r st' aff' where p: "pick st aff req (er_name (ps_entries st ! i) # ex) now = (r, st', aff')"
    by (metis prod.exhaust)
  then have "ps_names st' = ps_names st"
    using ps_names_pick[of st aff req "er_name (ps_entries st ! i) # ex" now] by simp
  then show ?thesis
    using p ps_names_any_eligible[of st' "er_name (ps_entries st ! i)" sat now]
    by (cases r) (simp_all add: hasFallbackCandidate_def Let_def case_prod_beta)
qed

text \<open>
  The comment at the end of the failover loop says that an error of the picker always wraps
  \<^verbatim>\<open>ErrNoModelAvailable\<close>. On a pool without entries it does not.
\<close>

lemma empty_pool_error_unclassified:
  "ps_entries st = [] \<Longrightarrow>
     fst (pick st aff req tried now) = Inl NoModelConfigured \<and> \<not> pool_error_Is NoModelConfigured ErrNoModelAvailable"
  by (simp add: pick_def)

end
