(* ===== verification/Model_Pool.thy ===== *)
theory Model_Pool
  imports Model_Pick Alert_Latch
begin

section \<open>The pool: liveness alerts and wait queues\<close>

text \<open>
  The pool-level state of \<^verbatim>\<open>src/leaf/model/10-multipool.go\<close> beside the entry table: the two
  latches of the outage alerts, the per-kind wait queues and the operator's operations, with the
  queue part of \<^verbatim>\<open>20-snapshot.go\<close>. An administrator page is an element of \<open>mp_pages\<close> (the code
  hands it to a goroutine that only delivers it). \<open>mp_hbRunning\<close> is the heartbeat's running flag,
  which \<^verbatim>\<open>Ensure\<close> sets by compare-and-swap.
\<close>

datatype page =
    PoolUnavailable string
  | NoFallbackLeft string "string list" gerror
  | QueueFullPage string int int

record multiPool =
  mp_state :: poolState
  mp_affinity :: ledger
  mp_allDeadKinds :: "(string, bool) gomap"
  mp_exhaustedKinds :: "(string, bool) gomap"
  mp_queueDepth :: "(string, int) gomap"
  mp_queueFullKinds :: "(string, bool) gomap"
  mp_hbRunning :: bool
  mp_pages :: "page list"

abbreviation mp_rows :: "multiPool \<Rightarrow> entryRow list" where
  "mp_rows p \<equiv> ps_entries (mp_state p)"

definition set_row :: "multiPool \<Rightarrow> nat \<Rightarrow> entryRow \<Rightarrow> multiPool" where
  "set_row p i row = p\<lparr>mp_state := (mp_state p)\<lparr>ps_entries := (mp_rows p)[i := row]\<rparr>\<rparr>"

subsection \<open>Liveness\<close>

record kindState =
  ks_hasEnabled :: bool
  ks_usable :: bool

definition row_usable :: "entryRow \<Rightarrow> gtime \<Rightarrow> bool" where
  "row_usable row now \<longleftrightarrow>
     \<not> er_paused row \<and> (er_tentative row \<or> er_deadUntil row = 0 \<or> \<not> er_deadUntil row > now)"

fun scan_kinds :: "gtime \<Rightarrow> entryRow list \<Rightarrow> (string, kindState) gomap \<Rightarrow> (string, kindState) gomap" where
  "scan_kinds now [] byKind = byKind"
| "scan_kinds now (row # rows) byKind =
     (if er_priority row < minEnabledPriority then scan_kinds now rows byKind
      else
        let ks = ggetz \<lparr> ks_hasEnabled = False, ks_usable = False \<rparr> byKind (er_kind row);
            ks' = ks\<lparr>ks_hasEnabled := True, ks_usable := ks_usable ks \<or> row_usable row now\<rparr>
        in scan_kinds now rows (gput (er_kind row) ks' byKind))"

definition ks_unusable :: "kindState \<Rightarrow> bool" where
  "ks_unusable ks \<longleftrightarrow> ks_hasEnabled ks \<and> \<not> ks_usable ks"

definition deadKinds :: "multiPool \<Rightarrow> gtime \<Rightarrow> string list" where
  "deadKinds p now =
     (if mp_rows p = [] then []
      else
        let byKind = scan_kinds now (mp_rows p) [];
            unusable = (\<lambda>k. case gget byKind k of None \<Rightarrow> False | Some ks \<Rightarrow> ks_unusable ks)
        in (if unusable KindLLM then [KindLLM] else []) @
           filter unusable (sort (filter (\<lambda>k. k \<noteq> KindLLM) (gkeys byKind))))"

definition deadKind :: "multiPool \<Rightarrow> gtime \<Rightarrow> string" where
  "deadKind p now = (case deadKinds p now of [] \<Rightarrow> [] | k # _ \<Rightarrow> k)"

definition allEntriesUnusable :: "multiPool \<Rightarrow> gtime \<Rightarrow> bool" where
  "allEntriesUnusable p now \<longleftrightarrow> deadKind p now \<noteq> []"

text \<open>The first loop: latch every dead kind; page the ones neither latch knew.\<close>

fun latch_dead ::
  "(string, bool) gomap \<Rightarrow> string list \<Rightarrow> (string, bool) gomap \<Rightarrow> string list \<Rightarrow>
     (string, bool) gomap \<times> string list" where
  "latch_dead exhausted [] allDead newlyDead = (allDead, newlyDead)"
| "latch_dead exhausted (k # ks) allDead newlyDead =
     (if \<not> ggetz False allDead k then
        latch_dead exhausted ks (gput k True allDead)
          (if \<not> ggetz False exhausted k then newlyDead @ [k] else newlyDead)
      else latch_dead exhausted ks allDead newlyDead)"

definition checkPoolLiveness :: "multiPool \<Rightarrow> gtime \<Rightarrow> multiPool" where
  "checkPoolLiveness p now =
     (let dead = deadKinds p now;
          (allDead, newlyDead) = latch_dead (mp_exhaustedKinds p) dead (mp_allDeadKinds p) [];
          allDead' = filter (\<lambda>(k, _). k \<in> set dead) allDead
      in p\<lparr>mp_allDeadKinds := allDead', mp_pages := mp_pages p @ map PoolUnavailable newlyDead\<rparr>)"

definition reportKindExhausted :: "multiPool \<Rightarrow> string \<Rightarrow> string list \<Rightarrow> gerror \<Rightarrow> multiPool" where
  "reportKindExhausted p kind requires err =
     (if IsToolArgsTruncatedErr err \<or> isPromptLevel4xx err \<or> errors_Is err ErrThinkingOnly then p
      else
        let kind = want_kind kind in
        if ggetz False (mp_allDeadKinds p) kind \<or> ggetz False (mp_exhaustedKinds p) kind then p
        else p\<lparr>mp_exhaustedKinds := gput kind True (mp_exhaustedKinds p),
               mp_pages := mp_pages p @ [NoFallbackLeft kind requires err]\<rparr>)"

definition clearKindExhausted :: "multiPool \<Rightarrow> string \<Rightarrow> multiPool" where
  "clearKindExhausted p kind =
     p\<lparr>mp_exhaustedKinds := gdel (want_kind kind) (mp_exhaustedKinds p)\<rparr>"

subsection \<open>The wait queue of a kind\<close>

definition queueDepthFactor :: int where
  "queueDepthFactor = 2"

fun capacity_loop :: "string \<Rightarrow> entryRow list \<Rightarrow> int \<Rightarrow> int" where
  "capacity_loop kind [] tot = tot * queueDepthFactor"
| "capacity_loop kind (row # rows) tot =
     (if er_kind row \<noteq> kind \<or> er_priority row < minEnabledPriority then capacity_loop kind rows tot
      else case er_sem row of
             None \<Rightarrow> 0
           | Some c \<Rightarrow> capacity_loop kind rows (tot + int c))"

definition queueCapacity :: "multiPool \<Rightarrow> string \<Rightarrow> int" where
  "queueCapacity p kind = capacity_loop kind (mp_rows p) 0"

definition enterQueue :: "multiPool \<Rightarrow> string \<Rightarrow> (pool_error + string) \<times> multiPool" where
  "enterQueue p kind0 =
     (let kind = want_kind kind0; capacity = queueCapacity p kind; depth = ggetz 0 (mp_queueDepth p) kind in
      if capacity > 0 \<and> depth \<ge> capacity then
        let latched = ggetz False (mp_queueFullKinds p) kind;
            p1 = p\<lparr>mp_queueFullKinds := gput kind True (mp_queueFullKinds p)\<rparr>;
            p2 = (if \<not> latched then p1\<lparr>mp_pages := mp_pages p1 @ [QueueFullPage kind depth capacity]\<rparr> else p1)
        in (Inl (WaitQueueFull kind depth capacity), p2)
      else (Inr kind, p\<lparr>mp_queueDepth := gput kind (depth + 1) (mp_queueDepth p)\<rparr>))"

text \<open>The leave function an admitted request gets; it closed over the normalised kind.\<close>

definition leaveQueue :: "multiPool \<Rightarrow> string \<Rightarrow> multiPool" where
  "leaveQueue p kind =
     (let depth = ggetz 0 (mp_queueDepth p) kind in
      if depth \<le> 1 then p\<lparr>mp_queueDepth := gdel kind (mp_queueDepth p)\<rparr>
      else p\<lparr>mp_queueDepth := gput kind (depth - 1) (mp_queueDepth p)\<rparr>)"

definition clearQueueFull :: "multiPool \<Rightarrow> string \<Rightarrow> multiPool" where
  "clearQueueFull p kind = p\<lparr>mp_queueFullKinds := gdel (want_kind kind) (mp_queueFullKinds p)\<rparr>"

record queueInfo =
  qi_Kind :: string
  qi_Waiting :: int
  qi_Capacity :: int
  qi_Full :: bool

definition queueSnapshot :: "multiPool \<Rightarrow> queueInfo list" where
  "queueSnapshot p =
     (let depth = filter (\<lambda>(k, n). \<not> n \<le> 0) (mp_queueDepth p) in
      map (\<lambda>kind. \<lparr> qi_Kind = kind, qi_Waiting = ggetz 0 depth kind,
                    qi_Capacity = queueCapacity p kind,
                    qi_Full = ggetz False (mp_queueFullKinds p) kind \<rparr>)
        (sort (gkeys depth)))"

subsection \<open>Operations on an entry of the pool\<close>

definition findRow :: "multiPool \<Rightarrow> string \<Rightarrow> pool_error + nat" where
  "findRow p name =
     (case byName (mp_state p) name of None \<Rightarrow> Inl (NoSuchEntry name) | Some i \<Rightarrow> Inr i)"

definition hasDeadEntry :: "multiPool \<Rightarrow> gtime \<Rightarrow> bool" where
  "hasDeadEntry p now \<longleftrightarrow> list_ex (\<lambda>row. row_dead row now) (mp_rows p)"

text \<open>\<^verbatim>\<open>Ensure\<close>: the compare-and-swap; whether a goroutine was started is the change of the flag.\<close>

definition Ensure :: "multiPool \<Rightarrow> multiPool" where
  "Ensure p = p\<lparr>mp_hbRunning := True\<rparr>"

definition Pause :: "multiPool \<Rightarrow> string \<Rightarrow> gtime \<Rightarrow> pool_error option \<times> multiPool" where
  "Pause p name now =
     (case findRow p name of
        Inl e \<Rightarrow> (Some e, p)
      | Inr i \<Rightarrow> (None, checkPoolLiveness (set_row p i (Pause_row (mp_rows p ! i))) now))"

definition Resume :: "multiPool \<Rightarrow> string \<Rightarrow> gtime \<Rightarrow> pool_error option \<times> multiPool" where
  "Resume p name now =
     (case findRow p name of
        Inl e \<Rightarrow> (Some e, p)
      | Inr i \<Rightarrow>
          let p1 = checkPoolLiveness (set_row p i (Resume_row (mp_rows p ! i))) now
          in (None, if hasDeadEntry p1 now then Ensure p1 else p1))"

text \<open>The pool-side \<^verbatim>\<open>recordError\<close>; \<open>ctx_err\<close> says the caller's context is done.\<close>

definition hard_timeout_text :: string where
  "hard_timeout_text = ''provider hard timeout: backend accepted the request but never completed''"

definition recordError :: "multiPool \<Rightarrow> bool \<Rightarrow> nat \<Rightarrow> gerror \<Rightarrow> gtime \<Rightarrow> gtime \<Rightarrow> multiPool" where
  "recordError p ctx_err i err clock_now now =
     (let err' = (if errors_Is err DeadlineExceeded \<and> \<not> ctx_err
                  then wrap_with ErrHardTimeout hard_timeout_text err else err);
          (newlyDead, row') = RecordError (mp_rows p ! i) (Some err') clock_now now;
          p1 = set_row p i row'
      in if newlyDead then checkPoolLiveness (Ensure p1) now else p1)"

definition recordChatSuccess :: "multiPool \<Rightarrow> nat \<Rightarrow> int \<Rightarrow> int \<Rightarrow> gtime \<Rightarrow> multiPool" where
  "recordChatSuccess p i input output clock_now =
     (let p1 = set_row p i (RecordSuccess (mp_rows p ! i));
          kind = er_kind (mp_rows p ! i);
          p2 = clearQueueFull (clearKindExhausted p1 kind) kind
      in set_row p2 i (recordChatTokens (mp_rows p2 ! i) clock_now input output 0))"

subsection \<open>Which kinds are dead\<close>

definition enabled_of :: "string \<Rightarrow> entryRow \<Rightarrow> bool" where
  "enabled_of k row \<longleftrightarrow> er_kind row = k \<and> \<not> er_priority row < minEnabledPriority"

lemma ks_update [simp]:
  "(ks :: kindState)\<lparr>ks_hasEnabled := a, ks_usable := b\<rparr> = \<lparr> ks_hasEnabled = a, ks_usable = b \<rparr>"
  by (cases ks) simp

lemma scan_kinds_get:
  "gget (scan_kinds now rows m) k =
     (if \<exists>row \<in> set rows. enabled_of k row
      then Some \<lparr> ks_hasEnabled = True,
                  ks_usable = ks_usable (ggetz \<lparr> ks_hasEnabled = False, ks_usable = False \<rparr> m k) \<or>
                    (\<exists>row \<in> set rows. enabled_of k row \<and> row_usable row now) \<rparr>
      else gget m k)"
proof (induction rows arbitrary: m)
  case (Cons row rows)
  show ?case
  proof (cases "er_priority row < minEnabledPriority")
    case True
    then have ne: "\<not> enabled_of k row" by (simp add: enabled_of_def)
    show ?thesis using Cons.IH[of m] True ne by simp
  next
    case False
    let ?m = "gput (er_kind row)
        \<lparr> ks_hasEnabled = True,
          ks_usable = ks_usable (ggetz \<lparr> ks_hasEnabled = False, ks_usable = False \<rparr> m (er_kind row)) \<or>
              row_usable row now \<rparr> m"
    have "scan_kinds now (row # rows) m = scan_kinds now rows ?m" using False by (simp add: Let_def)
    then show ?thesis using Cons.IH[of ?m] False by (cases "er_kind row = k") (auto simp: enabled_of_def)
  qed
qed simp

lemma gmap_ok_scan_kinds: "gmap_ok m \<Longrightarrow> gmap_ok (scan_kinds now rows m)"
  by (induction rows arbitrary: m) (simp_all add: Let_def)

definition kind_dead :: "multiPool \<Rightarrow> gtime \<Rightarrow> string \<Rightarrow> bool" where
  "kind_dead p now k \<longleftrightarrow>
     (\<exists>row \<in> set (mp_rows p). enabled_of k row) \<and>
     (\<forall>row \<in> set (mp_rows p). enabled_of k row \<longrightarrow> \<not> row_usable row now)"

lemma unusable_kind_dead:
  "(case gget (scan_kinds now (mp_rows p) []) k of None \<Rightarrow> False | Some ks \<Rightarrow> ks_unusable ks) =
     kind_dead p now k"
  by (auto simp: scan_kinds_get kind_dead_def ks_unusable_def)

lemma deadKinds_mem: "k \<in> set (deadKinds p now) \<longleftrightarrow> kind_dead p now k"
proof (cases "mp_rows p = []")
  case False
  have key: "kind_dead p now k \<Longrightarrow> k \<in> set (gkeys (scan_kinds now (mp_rows p) []))"
    using unusable_kind_dead[of now p k]
    by (metis map_of_eq_None_iff option.simps(4) set_map)
  have "set (deadKinds p now) = {k. kind_dead p now k \<and>
      (k = KindLLM \<or> k \<in> set (gkeys (scan_kinds now (mp_rows p) [])))}"
    using False by (auto simp: deadKinds_def Let_def unusable_kind_dead)
  then show ?thesis using key by blast
qed (simp add: deadKinds_def kind_dead_def)

lemma distinct_deadKinds: "distinct (deadKinds p now)"
proof (cases "mp_rows p = []")
  case False
  have "distinct (gkeys (scan_kinds now (mp_rows p) []))" by (rule gmap_ok_scan_kinds) simp
  then show ?thesis
    using False by (auto simp: deadKinds_def Let_def unusable_kind_dead)
qed (simp add: deadKinds_def)

text \<open>The scan reports exactly the configured kinds that cannot serve: a kind is dead when it
  has an enabled entry and none of its enabled entries is usable, whatever the other kinds do;
  each is reported once, and a chat outage comes first.\<close>

theorem dead_kinds_exact:
  "(k \<in> set (deadKinds p now)) = kind_dead p now k \<and> distinct (deadKinds p now) \<and>
   (if kind_dead p now KindLLM then deadKind p now = KindLLM else KindLLM \<notin> set (deadKinds p now))"
proof -
  have "kind_dead p now KindLLM \<Longrightarrow> deadKind p now = KindLLM"
  proof -
    assume d: "kind_dead p now KindLLM"
    then have "mp_rows p \<noteq> []" by (auto simp: kind_dead_def)
    then have "\<exists>ks. deadKinds p now = KindLLM # ks"
      using d by (simp add: deadKinds_def Let_def unusable_kind_dead)
    then show ?thesis by (auto simp: deadKind_def)
  qed
  then show ?thesis by (simp add: deadKinds_mem distinct_deadKinds)
qed

subsection \<open>The liveness alert\<close>

definition flags_ok :: "(string, bool) gomap \<Rightarrow> bool" where
  "flags_ok m \<longleftrightarrow> gmap_ok m \<and> list_all (\<lambda>(k, v). v) m"

lemma flag_get: "flags_ok m \<Longrightarrow> ggetz False m k \<longleftrightarrow> k \<in> set (gkeys m)"
  by (auto simp: flags_ok_def ggetz_def list_all_iff map_of_eq_None_iff
      split: option.splits dest: map_of_SomeD intro: rev_image_eqI)

lemma flags_ok_gput [simp]: "flags_ok m \<Longrightarrow> flags_ok (gput k True m)"
proof -
  assume m: "flags_ok m"
  have "set (gput k True m) \<subseteq> insert (k, True) (set m)" by (induction m) auto
  then show ?thesis using m by (auto simp: flags_ok_def list_all_iff)
qed

lemma latch_dead_spec:
  "flags_ok m \<Longrightarrow> distinct ks \<Longrightarrow>
     flags_ok (fst (latch_dead ex ks m nd)) \<and>
     set (gkeys (fst (latch_dead ex ks m nd))) = set (gkeys m) \<union> set ks \<and>
     snd (latch_dead ex ks m nd) =
       nd @ filter (\<lambda>k. \<not> ggetz False m k \<and> \<not> ggetz False ex k) ks"
proof (induction ks arbitrary: m nd)
  case (Cons k ks)
  show ?case
  proof (cases "ggetz False m k")
    case True
    then have "k \<in> set (gkeys m)" using Cons.prems(1) by (simp add: flag_get del: set_map)
    then show ?thesis using Cons True by auto
  next
    case False
    have cong: "filter (\<lambda>j. \<not> ggetz False (gput k True m) j \<and> \<not> ggetz False ex j) ks =
        filter (\<lambda>j. \<not> ggetz False m j \<and> \<not> ggetz False ex j) ks"
      using Cons.prems(2) by (intro filter_cong) auto
    show ?thesis
      using Cons.IH[of "gput k True m" "if \<not> ggetz False ex k then nd @ [k] else nd"] Cons.prems False cong
      by (simp add: keys_gput del: set_map)
  qed
qed simp

text \<open>One page per outage and kind: after a check the latch holds exactly the dead kinds; the
  pages it sends are for the kinds that just died and that the exhaustion alert has not already
  paged for; and as long as no entry changes, further checks send nothing. A kind that recovered
  leaves the latch, so its next outage pages again.\<close>

theorem liveness_pages_transitions_once:
  assumes "flags_ok (mp_allDeadKinds p)"
  shows "let p' = checkPoolLiveness p now in
           mp_pages p' = mp_pages p @ map PoolUnavailable
             (filter (\<lambda>k. \<not> ggetz False (mp_allDeadKinds p) k \<and> \<not> ggetz False (mp_exhaustedKinds p) k)
                (deadKinds p now)) \<and>
           ggetz False (mp_allDeadKinds p') k = kind_dead p now k \<and>
           checkPoolLiveness p' now = p'"
proof -
  let ?dead = "deadKinds p now" and ?ex = "mp_exhaustedKinds p"
  let ?l = "latch_dead ?ex ?dead (mp_allDeadKinds p) []"
  let ?all = "filter (\<lambda>(k, _). k \<in> set ?dead) (fst ?l)"
  note sp = latch_dead_spec[OF assms distinct_deadKinds, where ex = ?ex and nd = "[]" and p1 = p and now1 = now]
  have p': "checkPoolLiveness p now =
      p\<lparr>mp_allDeadKinds := ?all, mp_pages := mp_pages p @ map PoolUnavailable (snd ?l)\<rparr>"
    by (simp add: checkPoolLiveness_def Let_def case_prod_beta)
  have fl: "flags_ok ?all" using sp by (auto simp: flags_ok_def list_all_iff)
  have "set (gkeys ?all) = set (gkeys (fst ?l)) \<inter> set ?dead" by force
  then have keys: "set (gkeys ?all) = set ?dead" using sp by blast
  have latched: "ggetz False ?all k = (k \<in> set ?dead)" for k
    using flag_get[OF fl] keys by simp
  let ?p = "checkPoolLiveness p now"
  have dk: "deadKinds ?p now = ?dead" by (simp add: p' deadKinds_def)
  have stay: "latch_dead ex ks ?all nd = (?all, nd)" if "set ks \<subseteq> set ?dead" for ex ks nd
    using that by (induction ks) (simp_all add: latched)
  have "checkPoolLiveness ?p now = ?p"
  proof -
    have "latch_dead (mp_exhaustedKinds ?p) ?dead (mp_allDeadKinds ?p) [] = (?all, [])"
      using stay[of ?dead] by (simp add: p')
    then show ?thesis unfolding checkPoolLiveness_def[of ?p] dk by (simp add: p' Let_def filter_id_conv)
  qed
  then show ?thesis using sp latched[of k] by (simp add: Let_def p' deadKinds_mem)
qed

definition demo_pool :: multiPool where
  "demo_pool = \<lparr> mp_state = demo_state, mp_affinity = [], mp_allDeadKinds = [], mp_exhaustedKinds = [],
                 mp_queueDepth = [], mp_queueFullKinds = [], mp_hbRunning = False, mp_pages = [] \<rparr>"

definition paused_pool :: multiPool where
  "paused_pool = demo_pool\<lparr>mp_state := demo_state\<lparr>ps_entries := map Pause_row (ps_entries demo_state)\<rparr>\<rparr>"

theorem liveness_pages_transitions_once_witness:
  "mp_pages (checkPoolLiveness paused_pool 9) = [PoolUnavailable ''llm''] \<and>
   checkPoolLiveness (checkPoolLiveness paused_pool 9) 9 = checkPoolLiveness paused_pool 9"
proof -
  have "flags_ok (mp_allDeadKinds paused_pool)" by code_simp
  moreover have "mp_pages paused_pool @ map PoolUnavailable
      (filter (\<lambda>k. \<not> ggetz False (mp_allDeadKinds paused_pool) k \<and>
                   \<not> ggetz False (mp_exhaustedKinds paused_pool) k) (deadKinds paused_pool 9)) =
      [PoolUnavailable ''llm'']"
    by code_simp
  ultimately show ?thesis
    using liveness_pages_transitions_once[of paused_pool 9 "''llm''"] by (simp only: Let_def)
qed

subsection \<open>The exhaustion alert\<close>

text \<open>An attempt to page is a call of \<open>reportKindExhausted\<close>; it paged if the page list grew.\<close>

definition exhaust_fire :: "string \<times> string list \<times> gerror \<Rightarrow> multiPool \<Rightarrow> bool \<times> multiPool" where
  "exhaust_fire a p =
     (case a of (kind, requires, err) \<Rightarrow>
        let p' = reportKindExhausted p kind requires err in (mp_pages p' \<noteq> mp_pages p, p'))"

definition exhausted_latched :: "multiPool \<Rightarrow> string \<Rightarrow> bool" where
  "exhausted_latched p k \<longleftrightarrow> ggetz False (mp_exhaustedKinds p) k"

interpretation exhaustion: alert_latch exhausted_latched exhaust_fire "\<lambda>(kind, _). want_kind kind"
  "\<lambda>kind p. clearKindExhausted p kind" want_kind
proof
  show "fst (exhaust_fire a s) \<Longrightarrow>
      \<not> exhausted_latched s ((\<lambda>(kind, _). want_kind kind) a) \<and>
      exhausted_latched (snd (exhaust_fire a s)) ((\<lambda>(kind, _). want_kind kind) a)" for a s
    by (cases a) (auto simp: exhaust_fire_def reportKindExhausted_def exhausted_latched_def Let_def
        split: if_splits)
  show "exhausted_latched s k \<Longrightarrow> exhausted_latched (snd (exhaust_fire a s)) k" for a s k
    by (cases a) (auto simp: exhaust_fire_def reportKindExhausted_def exhausted_latched_def Let_def)
  show "k \<noteq> want_kind c \<Longrightarrow> exhausted_latched s k \<Longrightarrow> exhausted_latched (clearKindExhausted s c) k" for k c s
    by (simp add: clearKindExhausted_def exhausted_latched_def)
qed

text \<open>However often requests of a kind run out of candidates, the administrator is paged for it
  at most once more than calls of the kind were served in between: a lasting outage pages once.\<close>

theorem exhaustion_pages_bounded:
  "fst (alert_run exhaust_fire (\<lambda>kind p. clearKindExhausted p kind) (\<lambda>(kind, _). want_kind kind) k p evs)
     \<le> Suc (clears_of want_kind k evs)"
  by (rule exhaustion.pages_bounded)

text \<open>A fault of the request never pages and never latches.\<close>

lemma request_fault_never_pages:
  "IsToolArgsTruncatedErr err \<or> isPromptLevel4xx err \<or> errors_Is err ErrThinkingOnly \<Longrightarrow>
     reportKindExhausted p kind requires err = p"
  by (simp add: reportKindExhausted_def)

subsection \<open>The wait queue\<close>

text \<open>
  The contract of a kind's queue: how many requests wait. A request is admitted when the kind has
  no cap or has room, and leaving takes one waiter out. The depth map implements it.
\<close>

definition waiting :: "multiPool \<Rightarrow> string \<Rightarrow> nat" where
  "waiting p k = nat (ggetz 0 (mp_queueDepth p) k)"

definition kind_rows :: "multiPool \<Rightarrow> string \<Rightarrow> entryRow list" where
  "kind_rows p k = filter (\<lambda>r. er_kind r = k \<and> -10000 \<le> er_priority r) (mp_rows p)"

definition concurrency :: "multiPool \<Rightarrow> string \<Rightarrow> nat" where
  "concurrency p k = sum_list (map (\<lambda>r. case er_sem r of Some c \<Rightarrow> c | None \<Rightarrow> 0) (kind_rows p k))"

text \<open>A kind has no cap when one of its enabled entries takes any number of calls, or when none is configured to
  take any.\<close>

definition uncapped :: "multiPool \<Rightarrow> string \<Rightarrow> bool" where
  "uncapped p k \<longleftrightarrow> (\<exists>r \<in> set (kind_rows p k). er_sem r = None) \<or> concurrency p k = 0"

definition spec_admits :: "multiPool \<Rightarrow> (string \<Rightarrow> nat) \<Rightarrow> string \<Rightarrow> bool" where
  "spec_admits p w k \<longleftrightarrow> uncapped p k \<or> w k < 2 * concurrency p k"

lemma capacity_loop_sum:
  "capacity_loop k rows tot =
     (let rs = filter (\<lambda>r. er_kind r = k \<and> -10000 \<le> er_priority r) rows
      in if \<exists>r \<in> set rs. er_sem r = None then 0
         else 2 * (tot + int (sum_list (map (\<lambda>r. case er_sem r of Some c \<Rightarrow> c | None \<Rightarrow> 0) rs))))"
proof (induction rows arbitrary: tot)
  case Nil
  then show ?case by (simp add: queueDepthFactor_def)
next
  case (Cons r rows)
  show ?case
  proof (cases "er_sem r")
    case None
    then show ?thesis using Cons[of tot] by (auto simp: minEnabledPriority_def Let_def)
  next
    case (Some c)
    then show ?thesis using Cons[of tot] Cons[of "tot + int c"] by (auto simp: minEnabledPriority_def Let_def)
  qed
qed

lemma queueCapacity_spec: "queueCapacity p k = (if uncapped p k then 0 else int (2 * concurrency p k))"
  by (auto simp: queueCapacity_def capacity_loop_sum uncapped_def concurrency_def kind_rows_def Let_def)

definition depth_ok :: "multiPool \<Rightarrow> bool" where
  "depth_ok p \<longleftrightarrow> gmap_ok (mp_queueDepth p) \<and> list_all (\<lambda>(k, n). 0 < n) (mp_queueDepth p)"

lemma depth_get: "depth_ok p \<Longrightarrow> ggetz 0 (mp_queueDepth p) k = int (waiting p k)"
  by (auto simp: depth_ok_def waiting_def ggetz_def list_all_iff split: option.splits dest!: map_of_SomeD)

lemma list_all_gput: "list_all P m \<Longrightarrow> P (k, v) \<Longrightarrow> list_all P (gput k v m)"
  by (induction m) auto

lemma list_all_gdel: "list_all P m \<Longrightarrow> list_all P (gdel k m)"
  by (auto simp: list_all_iff AList.delete_eq)

lemma queueCapacity_frame [simp]:
  "queueCapacity (p\<lparr>mp_queueDepth := d\<rparr>) = queueCapacity p"
  "queueCapacity (p\<lparr>mp_queueFullKinds := f\<rparr>) = queueCapacity p"
  "queueCapacity (p\<lparr>mp_pages := g\<rparr>) = queueCapacity p"
  by (simp_all add: queueCapacity_def fun_eq_iff)

lemma depth_ok_leave: "depth_ok p \<Longrightarrow> depth_ok (leaveQueue p k)"
  by (auto simp: leaveQueue_def depth_ok_def Let_def intro!: list_all_gput list_all_gdel)

lemma depth_ok_enter: "depth_ok p \<Longrightarrow> depth_ok (snd (enterQueue p k))"
  using depth_get[of p "want_kind k"]
  by (auto simp: enterQueue_def depth_ok_def Let_def intro!: list_all_gput)

lemma waiting_leave:
  assumes "depth_ok p"
  shows "waiting (leaveQueue p k) = (waiting p)(k := waiting p k - 1)"
proof
  fix j
  have "ggetz 0 (mp_queueDepth (leaveQueue p k)) j =
      (if j = k then int (waiting p k) - (if waiting p k = 0 then 0 else 1) else ggetz 0 (mp_queueDepth p) j)"
    using depth_get[OF assms, of k] by (auto simp: leaveQueue_def Let_def)
  then show "waiting (leaveQueue p k) j = ((waiting p)(k := waiting p k - 1)) j"
    by (auto simp: waiting_def)
qed

lemma waiting_enter:
  assumes "depth_ok p" and "k = want_kind kind"
  shows "if spec_admits p (waiting p) k
         then fst (enterQueue p kind) = Inr k \<and>
              waiting (snd (enterQueue p kind)) = (waiting p)(k := waiting p k + 1)
         else fst (enterQueue p kind) = Inl (WaitQueueFull k (int (waiting p k)) (int (2 * concurrency p k))) \<and>
              waiting (snd (enterQueue p kind)) = waiting p"
proof -
  have adm: "spec_admits p (waiting p) k \<longleftrightarrow> \<not> (queueCapacity p k > 0 \<and> int (waiting p k) \<ge> queueCapacity p k)"
    by (auto simp: queueCapacity_spec spec_admits_def uncapped_def)
  have full: "queueCapacity p k = int (2 * concurrency p k)" if "\<not> spec_admits p (waiting p) k"
    using that by (simp add: spec_admits_def queueCapacity_spec)
  have d: "ggetz 0 (mp_queueDepth p) k = int (waiting p k)" using depth_get[OF assms(1)] .
  have "waiting (p\<lparr>mp_queueDepth := gput k (int (waiting p k) + 1) (mp_queueDepth p)\<rparr>) =
      (waiting p)(k := waiting p k + 1)"
    by (auto simp: waiting_def fun_eq_iff)
  moreover have "waiting (p\<lparr>mp_queueFullKinds := f\<rparr>) = waiting p"
    "waiting (p\<lparr>mp_queueFullKinds := f, mp_pages := g\<rparr>) = waiting p" for f g
    by (simp_all add: waiting_def fun_eq_iff)
  ultimately show ?thesis
    using d full by (simp add: adm enterQueue_def Let_def flip: assms(2))
qed

text \<open>C37. The depth map implements the queue of a kind: a request is let in exactly when the kind
  has no cap or fewer waiters than twice the concurrency its enabled entries are configured with, is told
  the depth and that cap otherwise, counts as one waiter until it leaves, and the map holds no kind without
  waiters. A kind has no cap when one of its enabled entries is unlimited or the configured concurrency is
  nothing.\<close>

theorem wait_queue_refines_counter:
  assumes "depth_ok p" and "k = want_kind kind"
  shows "depth_ok (snd (enterQueue p kind)) \<and> depth_ok (leaveQueue p k) \<and>
         waiting (leaveQueue p k) = (waiting p)(k := waiting p k - 1) \<and>
         (if spec_admits p (waiting p) k
          then fst (enterQueue p kind) = Inr k \<and>
               waiting (snd (enterQueue p kind)) = (waiting p)(k := waiting p k + 1) \<and>
               waiting (leaveQueue (snd (enterQueue p kind)) k) = waiting p
          else fst (enterQueue p kind) = Inl (WaitQueueFull k (int (waiting p k)) (int (2 * concurrency p k))) \<and>
               waiting (snd (enterQueue p kind)) = waiting p)"
proof -
  note e = waiting_enter[OF assms] and ok = depth_ok_enter[OF assms(1), of kind]
  have "waiting (leaveQueue (snd (enterQueue p kind)) k) =
      (waiting (snd (enterQueue p kind)))(k := waiting (snd (enterQueue p kind)) k - 1)"
    using waiting_leave[OF ok] .
  then show ?thesis
    using e ok depth_ok_leave[OF assms(1)] waiting_leave[OF assms(1)] by (auto split: if_splits)
qed

definition one_slot_pool :: multiPool where
  "one_slot_pool = demo_pool\<lparr>mp_state := demo_state\<lparr>ps_entries := [fresh_row ''a'' ''llm'' [] 0 0 (Some 1)]\<rparr>\<rparr>"

text \<open>One entry of concurrency one: two requests may wait and the third is told that two do and that two may.\<close>

theorem wait_queue_refines_counter_witness:
  "fst (enterQueue one_slot_pool []) = Inr ''llm''
   \<and> fst (enterQueue (one_slot_pool\<lparr>mp_queueDepth := [(''llm'', 2)]\<rparr>) []) = Inl (WaitQueueFull ''llm'' 2 2)"
proof -
  let ?full = "one_slot_pool\<lparr>mp_queueDepth := [(''llm'', 2)]\<rparr>"
  have ok: "depth_ok one_slot_pool" "depth_ok ?full" "''llm'' = want_kind []" by code_simp+
  have adm: "spec_admits one_slot_pool (waiting one_slot_pool) ''llm''" "\<not> spec_admits ?full (waiting ?full) ''llm''"
    "waiting ?full ''llm'' = 2" "concurrency ?full ''llm'' = 1"
    by code_simp+
  show ?thesis
    using wait_queue_refines_counter[OF ok(1,3)] wait_queue_refines_counter[OF ok(2,3)] adm by simp
qed

text \<open>Histories of one pool's queues: requests enter and admitted ones leave.\<close>

datatype queue_event = QEnter string | QLeave string

fun queue_run :: "multiPool \<Rightarrow> queue_event list \<Rightarrow> multiPool" where
  "queue_run p [] = p"
| "queue_run p (QEnter k # evs) = queue_run (snd (enterQueue p k)) evs"
| "queue_run p (QLeave k # evs) = queue_run (leaveQueue p k) evs"

definition within_cap :: "multiPool \<Rightarrow> bool" where
  "within_cap p \<longleftrightarrow> depth_ok p \<and>
     (\<forall>k. queueCapacity p k > 0 \<longrightarrow> int (waiting p k) \<le> queueCapacity p k)"

lemma queueCapacity_enter [simp]: "queueCapacity (snd (enterQueue p k)) = queueCapacity p"
  by (simp add: enterQueue_def Let_def)

lemma queueCapacity_leave [simp]: "queueCapacity (leaveQueue p k) = queueCapacity p"
  by (simp add: leaveQueue_def Let_def)

lemma within_cap_enter: "within_cap p \<Longrightarrow> within_cap (snd (enterQueue p kind))"
proof -
  assume w: "within_cap p"
  then have ok: "depth_ok p" by (simp add: within_cap_def)
  let ?k = "want_kind kind"
  have "int (waiting (snd (enterQueue p kind)) j) \<le> queueCapacity p j" if "queueCapacity p j > 0" for j
    using waiting_enter[OF ok refl, of kind] w that
    by (cases "spec_admits p (waiting p) ?k"; cases "j = ?k")
      (auto simp: within_cap_def spec_admits_def queueCapacity_spec split: if_splits)
  then show ?thesis using depth_ok_enter[OF ok] by (simp add: within_cap_def)
qed

lemma within_cap_leave: "within_cap p \<Longrightarrow> within_cap (leaveQueue p k)"
proof -
  assume w: "within_cap p"
  then have ok: "depth_ok p" by (simp add: within_cap_def)
  have "int (waiting (leaveQueue p k) j) \<le> queueCapacity p j" if "queueCapacity p j > 0" for j
    using w that by (auto simp: waiting_leave[OF ok] within_cap_def)
  then show ?thesis using depth_ok_leave[OF ok] by (simp add: within_cap_def)
qed

lemma within_cap_run: "within_cap p \<Longrightarrow> within_cap (queue_run p evs)"
  by (induction p evs rule: queue_run.induct) (auto intro: within_cap_enter within_cap_leave)

lemma queueCapacity_run [simp]: "queueCapacity (queue_run p evs) = queueCapacity p"
  by (induction p evs rule: queue_run.induct) auto

text \<open>The line of a kind is bounded: starting from an empty queue, no sequence of arrivals and
  departures ever leaves more requests waiting than twice the concurrency its enabled entries
  declare together, unless one of them is unlimited.\<close>

theorem wait_queue_bounded:
  assumes "mp_queueDepth p = []" and "queueCapacity p k > 0"
  shows "int (waiting (queue_run p evs) k) \<le> queueCapacity p k"
proof -
  have "within_cap p" using assms(1) by (simp add: within_cap_def depth_ok_def waiting_def)
  from within_cap_run[OF this, of evs] show ?thesis using assms(2) by (simp add: within_cap_def)
qed

theorem wait_queue_bounded_witness:
  "int (waiting (queue_run one_slot_pool [QEnter [], QEnter [], QEnter [], QLeave ''llm'', QEnter []]) ''llm'') \<le> 2"
proof -
  have "mp_queueDepth one_slot_pool = []" "queueCapacity one_slot_pool ''llm'' = 2" by code_simp+
  then show ?thesis using wait_queue_bounded[of one_slot_pool "''llm''"] by (simp del: queue_run.simps)
qed

subsection \<open>The queue-full alert\<close>

definition qfull_fire :: "string \<Rightarrow> multiPool \<Rightarrow> bool \<times> multiPool" where
  "qfull_fire kind p = (let p' = snd (enterQueue p kind) in (mp_pages p' \<noteq> mp_pages p, p'))"

definition qfull_latched :: "multiPool \<Rightarrow> string \<Rightarrow> bool" where
  "qfull_latched p k \<longleftrightarrow> ggetz False (mp_queueFullKinds p) k"

interpretation queue_full: alert_latch qfull_latched qfull_fire want_kind
  "\<lambda>kind p. clearQueueFull p kind" want_kind
proof
  show "fst (qfull_fire a s) \<Longrightarrow>
      \<not> qfull_latched s (want_kind a) \<and> qfull_latched (snd (qfull_fire a s)) (want_kind a)" for a s
    by (auto simp: qfull_fire_def enterQueue_def qfull_latched_def Let_def split: if_splits)
  show "qfull_latched s k \<Longrightarrow> qfull_latched (snd (qfull_fire a s)) k" for a s k
    by (auto simp: qfull_fire_def enterQueue_def qfull_latched_def Let_def)
  show "k \<noteq> want_kind c \<Longrightarrow> qfull_latched s k \<Longrightarrow> qfull_latched (clearQueueFull s c) k" for k c s
    by (simp add: clearQueueFull_def qfull_latched_def)
qed

text \<open>A sustained flood pages once: rejected requests page at most once more than calls of the kind
  completed.\<close>

lemma queue_full_pages_bounded:
  "fst (alert_run qfull_fire (\<lambda>kind p. clearQueueFull p kind) want_kind k p evs)
     \<le> Suc (clears_of want_kind k evs)"
  by (rule queue_full.pages_bounded)

end
