(* ===== verification/Model_Failover.thy ===== *)
theory Model_Failover
  imports Model_Pool
begin

section \<open>Slots, retries and failover\<close>

text \<open>
  The driver behind every chat call (\<^verbatim>\<open>src/leaf/model/40-chat.go\<close>): the concurrency slots of an
  entry, the bounded retry of a busy backend, the failover loop over the candidates, and one
  non-streaming attempt. What happens outside (the other requests, the clock, which slot frees
  first, what a backend answers, whether the caller's context is done) is an oracle indexed by
  the iteration of the loop; between two iterations the oracle may change the pool.
\<close>

subsection \<open>Concurrency slots\<close>

definition slot_free :: "entryRow \<Rightarrow> bool" where
  "slot_free row = (case er_sem row of None \<Rightarrow> True | Some c \<Rightarrow> er_held row < c)"

definition take_slot :: "entryRow \<Rightarrow> entryRow" where
  "take_slot row =
     row\<lparr>er_held := (if er_sem row = None then er_held row else er_held row + 1),
         er_inFlight := er_inFlight row + 1\<rparr>"

definition tryAcquire :: "multiPool \<Rightarrow> nat \<Rightarrow> bool \<times> multiPool" where
  "tryAcquire p i =
     (if slot_free (mp_rows p ! i) then (True, set_row p i (take_slot (mp_rows p ! i))) else (False, p))"

definition release_row :: "entryRow \<Rightarrow> entryRow" where
  "release_row row =
     row\<lparr>er_inFlight := er_inFlight row - 1,
         er_held := (if er_sem row = None then er_held row else er_held row - 1)\<rparr>"

definition release :: "multiPool \<Rightarrow> nat \<Rightarrow> multiPool" where
  "release p i = set_row p i (release_row (mp_rows p ! i))"

text \<open>
  A blocking wait: \<open>env\<close> is what the others do meanwhile, and \<open>won\<close> which of the rows freed a
  slot for us first, \<open>Inl\<close> when the context ended instead. The winner's slot is free at that
  moment: a send on a buffered channel succeeds only then.
\<close>

definition acquire ::
  "multiPool \<Rightarrow> nat \<Rightarrow> (multiPool \<Rightarrow> multiPool) \<Rightarrow> gerror option \<Rightarrow> pool_error option \<times> multiPool" where
  "acquire p i env ctx =
     (if slot_free (mp_rows p ! i) then (None, set_row p i (take_slot (mp_rows p ! i)))
      else
        case enterQueue p (er_kind (mp_rows p ! i)) of
          (Inl e, p1) \<Rightarrow> (Some e, p1)
        | (Inr kind, p1) \<Rightarrow>
            let p2 = leaveQueue (env p1) kind in
            case ctx of
              Some e \<Rightarrow> (Some (CtxDone e), p2)
            | None \<Rightarrow> (None, set_row p2 i (take_slot (mp_rows p2 ! i))))"

definition acquireAnyOf ::
  "multiPool \<Rightarrow> nat list \<Rightarrow> (multiPool \<Rightarrow> multiPool) \<Rightarrow> (nat list \<Rightarrow> gerror + nat) \<Rightarrow>
     (pool_error + nat) \<times> multiPool" where
  "acquireAnyOf p rows env won =
     (case rows of
        [] \<Rightarrow> (Inl AcquireNoEntries, p)
      | r # _ \<Rightarrow>
          case enterQueue p (er_kind (mp_rows p ! r)) of
            (Inl e, p1) \<Rightarrow> (Inl e, p1)
          | (Inr kind, p1) \<Rightarrow>
              let p2 = env p1 in
              case won rows of
                Inl e \<Rightarrow> (Inl (CtxDone e), leaveQueue p2 kind)
              | Inr i \<Rightarrow> (Inr i, leaveQueue (set_row p2 i (take_slot (mp_rows p2 ! i))) kind))"

subsection \<open>Waiting out a busy backend\<close>

definition busyRetryBudget :: duration where
  "busyRetryBudget = 60 * second"

definition busyRetryBackoff :: "duration list" where
  "busyRetryBackoff = [second, 3 * second, 6 * second, 12 * second, 24 * second]"

definition busy_wait :: "nat \<Rightarrow> duration" where
  "busy_wait i = busyRetryBackoff ! min i (length busyRetryBackoff - 1)"

lemma busy_wait_pos: "second \<le> busy_wait i"
  by (cases "i < 5") (auto simp: busy_wait_def busyRetryBackoff_def second_def less_Suc_eq numeral_eq_Suc)

text \<open>
  \<open>call k\<close> is the answer of the \<open>k\<close>th call, a value and an error as in Go; \<open>took k\<close> the time from
  the start of the wait before it to its return beyond the wait itself, \<open>ctx k\<close> that the context
  ends during that wait, \<open>zero\<close> the zero value then returned. The result holds the number of
  calls made. The loop has no bound of its own: it ends because every turn waits a second at
  least and the deadline is fixed.
\<close>

function busy_loop ::
  "'r \<Rightarrow> (nat \<Rightarrow> 'r \<times> gerror option) \<Rightarrow> (nat \<Rightarrow> nat) \<Rightarrow> (nat \<Rightarrow> gerror option) \<Rightarrow> gtime \<Rightarrow> nat \<Rightarrow> gtime \<Rightarrow>
     'r \<times> gerror option \<Rightarrow> ('r \<times> gerror option) \<times> nat" where
  "busy_loop zero call took ctx deadline i now out =
     (if now + busy_wait i > deadline then (out, Suc i)
      else
        case ctx i of
          Some e \<Rightarrow> ((zero, Some e), Suc i)
        | None \<Rightarrow>
            case snd (call (Suc i)) of
              None \<Rightarrow> (call (Suc i), Suc (Suc i))
            | Some e \<Rightarrow>
                if \<not> isTransientBackendErr e then (call (Suc i), Suc (Suc i))
                else busy_loop zero call took ctx deadline (Suc i) (now + busy_wait i + int (took i)) (call (Suc i)))"
  by pat_completeness auto

termination
proof (relation "measure (\<lambda>(_, _, _, _, deadline, _, now, _). nat (deadline + 1 - now))")
  fix zero :: 'r and call :: "nat \<Rightarrow> 'r \<times> gerror option" and took :: "nat \<Rightarrow> nat" and ctx :: "nat \<Rightarrow> gerror option"
    and deadline now :: gtime and i :: nat and out :: "'r \<times> gerror option"
  assume "\<not> deadline < now + busy_wait i"
  then show "((zero, call, took, ctx, deadline, Suc i, now + busy_wait i + int (took i), call (Suc i)),
      zero, call, took, ctx, deadline, i, now, out) \<in>
      measure (\<lambda>(_, _, _, _, deadline, _, now, _). nat (deadline + 1 - now))"
    using busy_wait_pos[of i] by (simp add: second_def)
qed simp

definition withBusyRetry ::
  "'r \<Rightarrow> bool \<Rightarrow> (nat \<Rightarrow> 'r \<times> gerror option) \<Rightarrow> (nat \<Rightarrow> nat) \<Rightarrow> (nat \<Rightarrow> gerror option) \<Rightarrow> gtime \<Rightarrow>
     ('r \<times> gerror option) \<times> nat" where
  "withBusyRetry zero allow call took ctx now =
     (case snd (call 0) of
        None \<Rightarrow> (call 0, 1)
      | Some e \<Rightarrow>
          if \<not> allow \<or> \<not> isTransientBackendErr e then (call 0, 1)
          else busy_loop zero call took ctx (now + busyRetryBudget) 0 now (call 0))"

declare busy_loop.simps [simp del]

definition busy_elapsed :: "nat \<Rightarrow> duration" where
  "busy_elapsed i = sum_list (map busy_wait [0..<i])"

lemma busy_elapsed_0 [simp]: "busy_elapsed 0 = 0"
  by (simp add: busy_elapsed_def)

lemma busy_elapsed_Suc: "busy_elapsed (Suc i) = busy_elapsed i + busy_wait i"
  by (simp add: busy_elapsed_def)

lemma busy_fifth: "busy_elapsed 5 + busy_wait 5 > busyRetryBudget"
  by code_simp

definition transient_answer :: "'r \<times> gerror option \<Rightarrow> bool" where
  "transient_answer a \<longleftrightarrow> (case snd a of None \<Rightarrow> False | Some e \<Rightarrow> isTransientBackendErr e)"

text \<open>One turn of the loop, by cases.\<close>

lemma busy_loop_turn:
  "now + busy_wait i > deadline \<Longrightarrow> busy_loop zero call took ctx deadline i now out = (out, Suc i)"
  "\<not> now + busy_wait i > deadline \<Longrightarrow> ctx i = Some e \<Longrightarrow>
     busy_loop zero call took ctx deadline i now out = ((zero, Some e), Suc i)"
  "\<not> now + busy_wait i > deadline \<Longrightarrow> ctx i = None \<Longrightarrow> \<not> transient_answer (call (Suc i)) \<Longrightarrow>
     busy_loop zero call took ctx deadline i now out = (call (Suc i), Suc (Suc i))"
  "\<not> now + busy_wait i > deadline \<Longrightarrow> ctx i = None \<Longrightarrow> transient_answer (call (Suc i)) \<Longrightarrow>
     busy_loop zero call took ctx deadline i now out =
     busy_loop zero call took ctx deadline (Suc i) (now + busy_wait i + int (took i)) (call (Suc i))"
  by (subst busy_loop.simps, simp add: transient_answer_def split: option.split option.splits)+

lemma busy_loop_calls:
  "i \<le> 5 \<Longrightarrow> deadline - now \<le> busyRetryBudget - busy_elapsed i \<Longrightarrow>
     snd (busy_loop zero call took ctx deadline i now out) \<le> 6"
proof (induction "5 - i" arbitrary: i now out)
  case 0
  then have "i = 5" by simp
  then have "now + busy_wait i > deadline" using 0(3) busy_fifth by simp
  then show ?case using \<open>i = 5\<close> by (simp add: busy_loop_turn(1))
next
  case (Suc m)
  have i: "i < 5" using Suc.hyps(2) by simp
  have nxt: "deadline - (now + busy_wait i + int (took i)) \<le> busyRetryBudget - busy_elapsed (Suc i)"
    using Suc.prems(2) by (simp add: busy_elapsed_Suc)
  have ih: "snd (busy_loop zero call took ctx deadline (Suc i) (now + busy_wait i + int (took i)) (call (Suc i))) \<le> 6"
    using Suc.hyps i by (intro Suc.hyps(1) nxt) auto
  consider "now + busy_wait i > deadline" | e where "\<not> now + busy_wait i > deadline" "ctx i = Some e"
    | "\<not> now + busy_wait i > deadline" "ctx i = None" "\<not> transient_answer (call (Suc i))"
    | "\<not> now + busy_wait i > deadline" "ctx i = None" "transient_answer (call (Suc i))"
    by (cases "ctx i") auto
  then show ?case
  proof cases
    case 1
    then show ?thesis using i by (simp add: busy_loop_turn(1))
  next
    case 2
    then show ?thesis using i by (simp add: busy_loop_turn(2))
  next
    case 3
    then show ?thesis using i by (simp add: busy_loop_turn(3))
  next
    case 4
    then show ?thesis using ih by (simp only: busy_loop_turn(4) simp_thms)
  qed
qed

text \<open>What comes back is the answer of one of the calls made, or the end of the context.\<close>

definition honest :: "'r \<Rightarrow> (nat \<Rightarrow> 'r \<times> gerror option) \<Rightarrow> (nat \<Rightarrow> gerror option) \<Rightarrow> ('r \<times> gerror option) \<times> nat \<Rightarrow> bool" where
  "honest zero call ctx a \<longleftrightarrow>
     (\<exists>k. k < snd a \<and> fst a = call k) \<or> (\<exists>k e. ctx k = Some e \<and> fst a = (zero, Some e))"

lemma busy_loop_answer:
  "out = call i \<Longrightarrow> honest zero call ctx (busy_loop zero call took ctx deadline i now out)"
proof (induction "nat (deadline + 1 - now)" arbitrary: i now out rule: less_induct)
  case less
  consider "now + busy_wait i > deadline" | e where "\<not> now + busy_wait i > deadline" "ctx i = Some e"
    | "\<not> now + busy_wait i > deadline" "ctx i = None" "\<not> transient_answer (call (Suc i))"
    | "\<not> now + busy_wait i > deadline" "ctx i = None" "transient_answer (call (Suc i))"
    by (cases "ctx i") auto
  then show ?case
  proof cases
    case 1
    then show ?thesis using less.prems by (auto simp: busy_loop_turn(1) honest_def)
  next
    case 2
    then show ?thesis by (auto simp: busy_loop_turn(2) honest_def)
  next
    case 3
    then show ?thesis by (auto simp: busy_loop_turn(3) honest_def)
  next
    case 4
    have "nat (deadline + 1 - (now + busy_wait i + int (took i))) < nat (deadline + 1 - now)"
      using 4(1) busy_wait_pos[of i] by (simp add: second_def)
    then show ?thesis using less.hyps 4 by (simp add: busy_loop_turn(4))
  qed
qed

text \<open>Waiting out a busy backend is bounded and honest: a request makes at most six calls to the
  entry, only one when there is somewhere else to go, and what it returns is the answer of one of
  those calls or the end of the caller's context.\<close>

theorem busy_retry_bounded:
  "snd (withBusyRetry zero allow call took ctx now) \<le> (if allow then 6 else 1) \<and>
   honest zero call ctx (withBusyRetry zero allow call took ctx now)"
proof (cases "allow \<and> transient_answer (call 0)")
  case True
  then have w: "withBusyRetry zero allow call took ctx now =
      busy_loop zero call took ctx (now + busyRetryBudget) 0 now (call 0)"
    by (auto simp: withBusyRetry_def transient_answer_def split: option.splits)
  have "snd (withBusyRetry zero allow call took ctx now) \<le> 6"
    unfolding w by (rule busy_loop_calls) simp_all
  then show ?thesis using True w busy_loop_answer[of "call 0" call 0] by simp
next
  case False
  then have "withBusyRetry zero allow call took ctx now = (call 0, 1)"
    by (auto simp: withBusyRetry_def transient_answer_def split: option.splits)
  then show ?thesis by (auto simp: honest_def)
qed

text \<open>The schedule has room: five transient answers in a row are absorbed when the calls themselves
  take at most fourteen seconds together.\<close>

lemma busy_elapsed_mono: "busy_elapsed i \<le> busy_elapsed (i + m)"
proof (induction m)
  case (Suc m)
  then show ?case using busy_wait_pos[of "i + m"] by (simp add: busy_elapsed_Suc second_def)
qed simp

lemma busy_loop_absorbs:
  assumes "\<And>j. ctx j = None"
    and "\<And>j. j \<le> i + n \<Longrightarrow> transient_answer (call j)"
    and "\<not> transient_answer (call (Suc (i + n)))"
    and "now + (busy_elapsed (Suc (i + n)) - busy_elapsed i) + sum_list (map (\<lambda>j. int (took j)) [i..<i + n]) \<le> deadline"
  shows "fst (busy_loop zero call took ctx deadline i now out) = call (Suc (i + n))"
  using assms
proof (induction n arbitrary: i now out)
  case 0
  then have "\<not> now + busy_wait i > deadline" by (simp add: busy_elapsed_Suc)
  then show ?case using 0 by (simp add: busy_loop_turn(3))
next
  case (Suc n)
  have pos: "0 \<le> sum_list (map (\<lambda>j. int (took j)) xs)" for xs by (induction xs) auto
  have "\<not> now + busy_wait i > deadline"
    using Suc.prems(4) busy_elapsed_mono[of "Suc i" "Suc n"] pos[of "[i..<i + Suc n]"]
    by (simp add: busy_elapsed_Suc)
  then have step: "busy_loop zero call took ctx deadline i now out =
      busy_loop zero call took ctx deadline (Suc i) (now + busy_wait i + int (took i)) (call (Suc i))"
    using Suc.prems(1,2) by (intro busy_loop_turn(4)) auto
  have up: "[i..<i + Suc n] = i # [Suc i..<Suc i + n]" by (simp add: upt_conv_Cons)
  have "now + busy_wait i + int (took i) + (busy_elapsed (Suc (Suc i + n)) - busy_elapsed (Suc i)) +
      sum_list (map (\<lambda>j. int (took j)) [Suc i..<Suc i + n]) \<le> deadline"
    using Suc.prems(4) unfolding up list.map sum_list.Cons
    by (simp add: busy_elapsed_Suc[of i] del: upt_Suc)
  then have "fst (busy_loop zero call took ctx deadline (Suc i) (now + busy_wait i + int (took i)) (call (Suc i))) =
      call (Suc (Suc i + n))"
    using Suc.prems(1-3) by (intro Suc.IH) simp_all
  then show ?case unfolding step by simp
qed

text \<open>A short outage of the only candidate is absorbed: when up to five calls in a row answer
  busy and those calls together took no more than fourteen seconds, the request gets the answer
  of the next call.\<close>

theorem busy_retry_absorbs_blip:
  assumes "\<And>j. ctx j = None" and "n < 5"
    and "\<And>j. j \<le> n \<Longrightarrow> transient_answer (call j)" and "\<not> transient_answer (call (Suc n))"
    and "sum_list (map (\<lambda>j. int (took j)) [0..<n]) \<le> 14 * second"
  shows "fst (withBusyRetry zero True call took ctx now) = call (Suc n)"
proof -
  have w: "withBusyRetry zero True call took ctx now =
      busy_loop zero call took ctx (now + busyRetryBudget) 0 now (call 0)"
    using assms(3)[of 0] by (auto simp: withBusyRetry_def transient_answer_def split: option.splits)
  have "list_all (\<lambda>n. busy_elapsed (Suc n) + 14 * second \<le> busyRetryBudget) [0..<5]" by code_simp
  then have "busy_elapsed (Suc n) + 14 * second \<le> busyRetryBudget"
    using assms(2) by (simp only: list_all_iff set_upt) simp
  then have "fst (busy_loop zero call took ctx (now + busyRetryBudget) 0 now (call 0)) = call (Suc (0 + n))"
    using assms by (intro busy_loop_absorbs) auto
  then show ?thesis using w by simp
qed

theorem busy_retry_absorbs_blip_witness:
  "fst (withBusyRetry 0 True (\<lambda>k. if k \<le> 2 then (0, Some plain_err) else (k, None)) (\<lambda>_. 5) (\<lambda>_. None) 100) = (3, None)"
proof -
  have t: "isTransientBackendErr plain_err" "sum_list (map (\<lambda>j. int ((\<lambda>_. 5) j)) [0..<2]) \<le> 14 * second"
    by code_simp+
  show ?thesis
    using busy_retry_absorbs_blip[of "\<lambda>_. None" 2 "\<lambda>k. if k \<le> 2 then (0, Some plain_err) else (k, None)" "\<lambda>_. 5" 0 100] t
    by (simp add: transient_answer_def)
qed

subsection \<open>The failover driver\<close>

record 'r world =
  or_env :: "nat \<Rightarrow> multiPool \<Rightarrow> multiPool"
  or_now :: "nat \<Rightarrow> gtime"
  or_wait_env :: "nat \<Rightarrow> multiPool \<Rightarrow> multiPool"
  or_won :: "nat \<Rightarrow> nat list \<Rightarrow> gerror + nat"
  or_attempt :: "nat \<Rightarrow> multiPool \<Rightarrow> nat \<Rightarrow> bool \<Rightarrow> bool \<Rightarrow> (gerror \<times> 'r + 'r) \<times> multiPool"
  or_ctx_err :: "nat \<Rightarrow> bool"

record failoverOpts =
  fo_armFirstContent :: bool
  fo_nonRetryable :: "gerror \<Rightarrow> bool"

datatype 'r outcome = Served 'r | Refused pool_error | Returned 'r gerror

text \<open>One attempt of the run: the entry, whether its first-content deadline is armed, and whether
  it is the last resort.\<close>

type_synonym attempt_log = "(string \<times> bool \<times> bool) list"

record fo_state =
  fs_pool :: multiPool
  fs_exclude :: "string list"
  fs_saturated :: "nat list"
  fs_lastErr :: "gerror option"
  fs_errorAttempts :: nat
  fs_trace :: attempt_log

definition with_state :: "multiPool \<Rightarrow> poolState \<Rightarrow> ledger \<Rightarrow> multiPool" where
  "with_state p st aff = p\<lparr>mp_state := st, mp_affinity := aff\<rparr>"

text \<open>The rows of a list that are still eligible and pass \<open>P\<close>, asked in order.\<close>

fun eligible_among :: "(entryRow \<Rightarrow> bool) \<Rightarrow> multiPool \<Rightarrow> nat list \<Rightarrow> gtime \<Rightarrow> nat list \<times> multiPool" where
  "eligible_among P p [] now = ([], p)"
| "eligible_among P p (i # is) now =
     (if P (mp_rows p ! i) then
        let (ok, row') = IsEligible (mp_rows p ! i) now;
            (rest, p') = eligible_among P (set_row p i row') is now
        in ((if ok then i # rest else rest), p')
      else eligible_among P p is now)"

definition eligibleSaturatedForPrimary ::
  "multiPool \<Rightarrow> string list \<Rightarrow> nat list \<Rightarrow> gtime \<Rightarrow> nat list \<times> multiPool" where
  "eligibleSaturatedForPrimary p requires saturated now =
     eligible_among (\<lambda>row. hasAll (er_tags row) requires) p saturated now"

definition servedByFallbackHop :: "entryRow \<Rightarrow> string list \<Rightarrow> bool" where
  "servedByFallbackHop row requires \<longleftrightarrow> requires \<noteq> [] \<and> \<not> hasAll (er_tags row) requires"

text \<open>The attempt of a last resort: whatever it yields is returned.\<close>

definition last_attempt ::
  "'r world \<Rightarrow> nat \<Rightarrow> multiPool \<Rightarrow> nat \<Rightarrow> attempt_log \<Rightarrow> 'r outcome \<times> multiPool \<times> attempt_log" where
  "last_attempt orc n p i trace =
     (let trace' = trace @ [(er_name (mp_rows p ! i), False, True)] in
      case or_attempt orc n p i False True of
        (Inr r, q) \<Rightarrow> (Served r, q, trace')
      | (Inl (e, r), q) \<Rightarrow> (Returned r e, q, trace'))"

text \<open>A picked row: take a slot without blocking, or spill; then run the attempt.\<close>

definition try_row ::
  "'r world \<Rightarrow> failoverOpts \<Rightarrow> modelRequest \<Rightarrow> nat \<Rightarrow> fo_state \<Rightarrow> multiPool \<Rightarrow> nat \<Rightarrow>
     ('r outcome \<times> multiPool \<times> attempt_log) + fo_state" where
  "try_row orc opts req n s p i =
     (let name = er_name (mp_rows p ! i) in
      case tryAcquire p i of
        (False, p1) \<Rightarrow>
          Inr (s\<lparr>fs_pool := p1, fs_saturated := fs_saturated s @ [i], fs_exclude := name # fs_exclude s\<rparr>)
      | (True, p1) \<Rightarrow>
          let (has, st, aff) = hasFallbackCandidate (mp_state p1) (mp_affinity p1) req (fs_exclude s) i
                                 (fs_saturated s) (or_now orc n);
              p2 = with_state p1 st aff;
              armed = (fo_armFirstContent opts \<and> has);
              trace' = fs_trace s @ [(name, armed, \<not> has)]
          in case or_attempt orc n p2 i armed (\<not> has) of
               (Inr r, q) \<Rightarrow> Inl (Served r, q, trace')
             | (Inl (e, r), q) \<Rightarrow>
                 if fo_nonRetryable opts e then Inl (Returned r e, q, trace')
                 else if IsContextExceededErr e then Inl (Refused PoolContextExceeded, q, trace')
                 else if or_ctx_err orc n then Inl (Refused (AttemptFailed e), q, trace')
                 else Inr (s\<lparr>fs_pool := q, fs_lastErr := Some e, fs_errorAttempts := Suc (fs_errorAttempts s),
                             fs_exclude := name # fs_exclude s, fs_trace := trace'\<rparr>))"

text \<open>Nothing left to pick: wait on the saturated ones, or report and give up.\<close>

definition no_candidate ::
  "'r world \<Rightarrow> modelRequest \<Rightarrow> nat \<Rightarrow> fo_state \<Rightarrow> multiPool \<Rightarrow> pool_error \<Rightarrow> 'r outcome \<times> multiPool \<times> attempt_log" where
  "no_candidate orc req n s p pickErr =
     (case eligible_among (\<lambda>_. True) p (fs_saturated s) (or_now orc n) of
        (eligible, p1) \<Rightarrow>
          if eligible \<noteq> [] then
            (case acquireAnyOf p1 eligible (or_wait_env orc n) (or_won orc n) of
               (Inl e, p2) \<Rightarrow> (Refused e, p2, fs_trace s)
             | (Inr w, p2) \<Rightarrow> last_attempt orc n p2 w (fs_trace s))
          else
            case fs_lastErr s of
              Some e \<Rightarrow> (Refused (AllCandidatesFailed (fs_errorAttempts s) e),
                         reportKindExhausted p1 (mr_Kind req) (mr_Requires req) e, fs_trace s)
            | None \<Rightarrow> (Refused pickErr, p1, fs_trace s))"

definition failover_step ::
  "'r world \<Rightarrow> failoverOpts \<Rightarrow> modelRequest \<Rightarrow> nat \<Rightarrow> fo_state \<Rightarrow>
     ('r outcome \<times> multiPool \<times> attempt_log) + fo_state" where
  "failover_step orc opts req n s =
     (let p0 = or_env orc n (fs_pool s); now = or_now orc n in
      case pick (mp_state p0) (mp_affinity p0) req (fs_exclude s) now of
        (Inl pickErr, st, aff) \<Rightarrow> Inl (no_candidate orc req n s (with_state p0 st aff) pickErr)
      | (Inr i, st, aff) \<Rightarrow>
          let p1 = with_state p0 st aff in
          if servedByFallbackHop (mp_rows p1 ! i) (mr_Requires req) then
            case eligibleSaturatedForPrimary p1 (mr_Requires req) (fs_saturated s) now of
              (eligibleSat, p2) \<Rightarrow>
                if eligibleSat \<noteq> [] then
                  (case acquireAnyOf p2 eligibleSat (or_wait_env orc n) (or_won orc n) of
                     (Inr w, p3) \<Rightarrow> Inl (last_attempt orc n p3 w (fs_trace s))
                   | (Inl e, p3) \<Rightarrow>
                       if pool_error_Is e ErrModelQueueFull then try_row orc opts req n s p3 i
                       else Inl (Refused e, p3, fs_trace s))
                else try_row orc opts req n s p2 i
          else try_row orc opts req n s p1 i)"

primrec failover_loop ::
  "nat \<Rightarrow> 'r world \<Rightarrow> failoverOpts \<Rightarrow> modelRequest \<Rightarrow> nat \<Rightarrow> fo_state \<Rightarrow>
     ('r outcome \<times> multiPool \<times> attempt_log) option" where
  "failover_loop 0 orc opts req n s = None"
| "failover_loop (Suc fuel) orc opts req n s =
     (case failover_step orc opts req n s of
        Inl out \<Rightarrow> Some out
      | Inr s' \<Rightarrow> failover_loop fuel orc opts req (Suc n) s')"

definition fo_start :: "multiPool \<Rightarrow> fo_state" where
  "fo_start p = \<lparr> fs_pool = p, fs_exclude = [], fs_saturated = [], fs_lastErr = None,
                  fs_errorAttempts = 0, fs_trace = [] \<rparr>"

text \<open>
  The driver. A pinned request names its entry, waits for a slot of it and never spills. The fuel
  of the loop is one more than the number of entries, which is always enough
  (\<open>failover_terminates\<close>).
\<close>

definition failover ::
  "'r world \<Rightarrow> failoverOpts \<Rightarrow> modelRequest \<Rightarrow> multiPool \<Rightarrow> gerror option \<Rightarrow>
     ('r outcome \<times> multiPool \<times> attempt_log) option" where
  "failover orc opts req p pin_ctx =
     (if mr_PinnedEntry req \<noteq> [] then
        (case pick (mp_state p) (mp_affinity p) req [] (or_now orc 0) of
           (Inl e, st, aff) \<Rightarrow> Some (Refused e, with_state p st aff, [])
         | (Inr i, st, aff) \<Rightarrow>
             case acquire (with_state p st aff) i (or_wait_env orc 0) pin_ctx of
               (Some e, p1) \<Rightarrow> Some (Refused e, p1, [])
             | (None, p1) \<Rightarrow> Some (last_attempt orc 0 p1 i []))
      else failover_loop (Suc (length (mp_rows p))) orc opts req 0 (fo_start p))"

subsection \<open>Names and slots through a run\<close>

abbreviation mp_names :: "multiPool \<Rightarrow> string list" where
  "mp_names p \<equiv> ps_names (mp_state p)"

lemma mp_names_set_row:
  "er_name row = er_name (mp_rows p ! i) \<Longrightarrow> mp_names (set_row p i row) = mp_names p"
  using ps_names_update[of row "mp_state p" i] by (simp add: set_row_def)

lemma take_slot_name [simp]: "er_name (take_slot row) = er_name row"
  by (simp add: take_slot_def)

lemma mp_state_frames [simp]:
  "mp_state (leaveQueue p k) = mp_state p" "mp_state (snd (enterQueue p k)) = mp_state p"
  "mp_state (reportKindExhausted p k r e) = mp_state p" "mp_state (with_state p st aff) = st"
  by (simp_all add: leaveQueue_def enterQueue_def reportKindExhausted_def with_state_def Let_def)

lemma mp_names_eligible_among: "mp_names (snd (eligible_among P p is now)) = mp_names p"
proof (induction "is" arbitrary: p)
  case (Cons i ks)
  show ?case
    using Cons mp_names_set_row[of "snd (IsEligible (mp_rows p ! i) now)" p i]
    by (simp add: Let_def case_prod_beta)
qed simp

lemma eligible_among_sub: "set (fst (eligible_among P p is now)) \<subseteq> set is"
proof (induction "is" arbitrary: p)
  case (Cons i ks)
  show ?case
    using Cons[of p] Cons[of "set_row p i (snd (IsEligible (mp_rows p ! i) now))"]
    by (auto simp: Let_def case_prod_beta)
qed simp

lemma eligible_among_P:
  assumes "\<And>row now. P (snd (IsEligible row now)) = P row"
  shows "j \<in> set (fst (eligible_among P p is now)) \<Longrightarrow> P (mp_rows p ! j)"
proof (induction "is" arbitrary: p)
  case (Cons i ks)
  let ?p = "set_row p i (snd (IsEligible (mp_rows p ! i) now))"
  have "P (mp_rows ?p ! j) = P (mp_rows p ! j)"
    by (cases "i < length (mp_rows p)"; cases "i = j") (simp_all add: set_row_def assms list_update_beyond)
  then show ?case
    using Cons.IH[of p] Cons.IH[of ?p] Cons.prems by (auto simp: Let_def case_prod_beta split: if_splits)
qed simp

lemma mp_names_tryAcquire: "mp_names (snd (tryAcquire p i)) = mp_names p"
  by (simp add: tryAcquire_def mp_names_set_row)

text \<open>What is asked of the surroundings: they keep the table's names (no reload happens during the
  request), and a wait is won by one of the rows waited for.\<close>

definition tame :: "'r world \<Rightarrow> bool" where
  "tame orc \<longleftrightarrow>
     (\<forall>n p. mp_names (or_env orc n p) = mp_names p) \<and>
     (\<forall>n p. mp_names (or_wait_env orc n p) = mp_names p) \<and>
     (\<forall>n p i a l. mp_names (snd (or_attempt orc n p i a l)) = mp_names p) \<and>
     (\<forall>n rows i. or_won orc n rows = Inr i \<longrightarrow> i \<in> set rows)"

lemma tameD:
  assumes "tame orc"
  shows "mp_names (or_env orc n p) = mp_names p" "mp_names (or_wait_env orc n p) = mp_names p"
    "mp_names (snd (or_attempt orc n p i a l)) = mp_names p"
    "or_won orc n rows = Inr w \<Longrightarrow> w \<in> set rows"
  using assms by (auto simp: tame_def)

lemma acquireAnyOf_names:
  assumes "tame orc"
  shows "mp_names (snd (acquireAnyOf p rows (or_wait_env orc n) (or_won orc n))) = mp_names p"
    and "fst (acquireAnyOf p rows (or_wait_env orc n) (or_won orc n)) = Inr w \<Longrightarrow> w \<in> set rows"
proof -
  show "mp_names (snd (acquireAnyOf p rows (or_wait_env orc n) (or_won orc n))) = mp_names p"
  proof (cases rows)
    case (Cons r rs)
    obtain q p1 where e: "enterQueue p (er_kind (mp_rows p ! r)) = (q, p1)" by (metis prod.exhaust)
    have "mp_names p1 = mp_names p" using e mp_state_frames(2)[of p "er_kind (mp_rows p ! r)"] by simp
    then show ?thesis
      using Cons e tameD(2)[OF assms, of n p1]
      by (cases q; cases "or_won orc n rows") (simp_all add: acquireAnyOf_def Let_def mp_names_set_row)
  qed (simp add: acquireAnyOf_def)
  show "fst (acquireAnyOf p rows (or_wait_env orc n) (or_won orc n)) = Inr w \<Longrightarrow> w \<in> set rows"
    using tameD(4)[OF assms, of n rows w]
    by (auto simp: acquireAnyOf_def Let_def split: list.splits prod.splits sum.splits)
qed

text \<open>The invariant of the loop: every name left out is a name of the table and was left out once;
  the entries attempted are among them and none was attempted twice; the saturated ones were not
  attempted.\<close>

definition fo_inv :: "string list \<Rightarrow> fo_state \<Rightarrow> bool" where
  "fo_inv N s \<longleftrightarrow>
     mp_names (fs_pool s) = N \<and> distinct (fs_exclude s) \<and> set (fs_exclude s) \<subseteq> set N \<and>
     distinct (map fst (fs_trace s)) \<and> set (map fst (fs_trace s)) \<subseteq> set (fs_exclude s) \<and>
     fs_errorAttempts s = length (fs_trace s) \<and>
     (\<forall>i \<in> set (fs_saturated s). i < length N \<and> N ! i \<in> set (fs_exclude s) - set (map fst (fs_trace s)))"

lemma nth_mp_names: "i < length (mp_rows p) \<Longrightarrow> er_name (mp_rows p ! i) = mp_names p ! i"
  by simp

lemma try_row_step:
  assumes t: "tame orc" and inv: "fo_inv N s" and p: "mp_names p = N" and i: "i < length N"
    and new: "N ! i \<notin> set (fs_exclude s)"
  shows "case try_row orc opts req n s p i of
           Inr s' \<Rightarrow> fo_inv N s' \<and> fs_exclude s' = N ! i # fs_exclude s
         | Inl (out, q, trace) \<Rightarrow> distinct (map fst trace)"
proof -
  have len: "i < length (mp_rows p)" using i p by (metis length_map)
  have name: "er_name (mp_rows p ! i) = N ! i" using nth_mp_names[OF len] p by simp
  have mem: "N ! i \<in> set N" using i by simp
  obtain got p1 where a: "tryAcquire p i = (got, p1)" by (metis prod.exhaust)
  have n1: "mp_names p1 = N" using mp_names_tryAcquire[of p i] a p by simp
  have tr: "N ! i \<notin> set (map fst (fs_trace s))" using inv new by (auto simp: fo_inv_def)
  show ?thesis
  proof (cases got)
    case False
    then show ?thesis
      using inv a n1 i new mem tr name by (auto simp: try_row_def fo_inv_def Let_def)
  next
    case True
    obtain has st aff where h: "hasFallbackCandidate (mp_state p1) (mp_affinity p1) req (fs_exclude s) i
        (fs_saturated s) (or_now orc n) = (has, st, aff)" by (metis prod.exhaust)
    have n2: "ps_names st = N"
      using ps_names_fallback[of "mp_state p1" "mp_affinity p1" req "fs_exclude s" i "fs_saturated s" "or_now orc n"] h n1
      by simp
    obtain res q where at: "or_attempt orc n (with_state p1 st aff) i (fo_armFirstContent opts \<and> has) (\<not> has) = (res, q)"
      by (metis prod.exhaust)
    have n3: "mp_names q = N"
      using tameD(3)[OF t, of n "with_state p1 st aff" i "fo_armFirstContent opts \<and> has" "\<not> has"] at n2 by simp
    have d: "distinct (map fst (fs_trace s @ [(N ! i, fo_armFirstContent opts \<and> has, \<not> has)]))"
      using inv tr by (simp add: fo_inv_def)
    show ?thesis
    proof (cases res)
      case (Inr r)
      then show ?thesis using True a h at d name by (simp add: try_row_def Let_def)
    next
      case (Inl er)
      obtain e r where er: "er = (e, r)" by (metis prod.exhaust)
      let ?s = "s\<lparr>fs_pool := q, fs_lastErr := Some e, fs_errorAttempts := Suc (fs_errorAttempts s),
          fs_exclude := N ! i # fs_exclude s,
          fs_trace := fs_trace s @ [(N ! i, fo_armFirstContent opts \<and> has, \<not> has)]\<rparr>"
      have inv': "fo_inv N ?s"
        using inv n3 d new mem by (auto simp: fo_inv_def)
      show ?thesis
        using True a h at d name Inl er inv' by (simp add: try_row_def Let_def)
    qed
  qed
qed

lemma last_attempt_trace:
  assumes "distinct (map fst trace)" and "er_name (mp_rows p ! i) \<notin> set (map fst trace)"
  shows "distinct (map fst (snd (snd (last_attempt orc n p i trace))))"
proof -
  obtain res q where "or_attempt orc n p i False True = (res, q)" by (metis prod.exhaust)
  then show ?thesis using assms by (cases res) (auto simp: last_attempt_def Let_def)
qed

lemma waited_attempt_trace:
  assumes inv: "fo_inv N s" and sub: "w \<in> set (fs_saturated s)" and p: "mp_names p = N"
  shows "distinct (map fst (snd (snd (last_attempt orc n p w (fs_trace s)))))"
proof (rule last_attempt_trace)
  show "distinct (map fst (fs_trace s))" using inv by (simp add: fo_inv_def)
  have "w < length N" "N ! w \<notin> set (map fst (fs_trace s))" using inv sub by (auto simp: fo_inv_def)
  moreover from this have "er_name (mp_rows p ! w) = N ! w"
    using p nth_mp_names[of w p] by (metis length_map)
  ultimately show "er_name (mp_rows p ! w) \<notin> set (map fst (fs_trace s))" by simp
qed

lemma failover_step_inv:
  assumes t: "tame orc" and inv: "fo_inv N s" and unpinned: "mr_PinnedEntry req = []"
  shows "case failover_step orc opts req n s of
           Inr s' \<Rightarrow> fo_inv N s' \<and> length (fs_exclude s') = Suc (length (fs_exclude s))
         | Inl (out, q, trace) \<Rightarrow> distinct (map fst trace)"
proof -
  let ?p0 = "or_env orc n (fs_pool s)" and ?now = "or_now orc n"
  have n0: "mp_names ?p0 = N" using tameD(1)[OF t] inv by (simp add: fo_inv_def)
  have dt: "distinct (map fst (fs_trace s))" using inv by (simp add: fo_inv_def)
  obtain r st aff where pk: "pick (mp_state ?p0) (mp_affinity ?p0) req (fs_exclude s) ?now = (r, st, aff)"
    by (metis prod.exhaust)
  let ?p1 = "with_state ?p0 st aff"
  have n1: "mp_names ?p1 = N"
    using ps_names_pick[of "mp_state ?p0" "mp_affinity ?p0" req "fs_exclude s" ?now] pk n0 by simp
  show ?thesis
  proof (cases r)
    case (Inl pickErr)
    obtain el p2 where el: "eligible_among (\<lambda>_. True) ?p1 (fs_saturated s) ?now = (el, p2)"
      by (metis prod.exhaust)
    have n2: "mp_names p2 = N" using mp_names_eligible_among[of "\<lambda>_. True" ?p1 "fs_saturated s" ?now] el n1 by simp
    have sub: "set el \<subseteq> set (fs_saturated s)"
      using eligible_among_sub[of "\<lambda>_. True" ?p1 "fs_saturated s" ?now] el by simp
    obtain w p3 where aq: "acquireAnyOf p2 el (or_wait_env orc n) (or_won orc n) = (w, p3)" by (metis prod.exhaust)
    note aqn = acquireAnyOf_names[OF t, of p2 el n]
    have "distinct (map fst (snd (snd (no_candidate orc req n s ?p1 pickErr))))"
    proof (cases "el \<noteq> [] \<and> (\<exists>j. w = Inr j)")
      case True
      then obtain j where j: "w = Inr j" by blast
      then have "j \<in> set (fs_saturated s)" using aqn(2)[of j] aq sub by auto
      then have "distinct (map fst (snd (snd (last_attempt orc n p3 j (fs_trace s)))))"
        using waited_attempt_trace[OF inv] aqn(1) aq n2 by simp
      then show ?thesis using True el aq j by (simp add: no_candidate_def)
    next
      case False
      then show ?thesis using el aq dt
        by (cases w; cases "fs_lastErr s") (auto simp: no_candidate_def)
    qed
    then show ?thesis using pk Inl by (simp add: failover_step_def Let_def case_prod_beta)
  next
    case (Inr i)
    have m: "i < length (ps_entries (mp_state ?p0))" "er_name (ps_entries (mp_state ?p0) ! i) \<notin> set (fs_exclude s)"
      using pick_mem[of "mp_state ?p0" "mp_affinity ?p0" req "fs_exclude s" ?now i] pk Inr unpinned by simp_all
    have i: "i < length N" using m(1) n0 by (metis length_map)
    have new: "N ! i \<notin> set (fs_exclude s)" using m nth_mp_names[of i ?p0] n0 by simp
    have tr: "case try_row orc opts req n s q i of
           Inr s' \<Rightarrow> fo_inv N s' \<and> length (fs_exclude s') = Suc (length (fs_exclude s))
         | Inl (out, q', trace) \<Rightarrow> distinct (map fst trace)" if "mp_names q = N" for q
      using try_row_step[OF t inv that i new, of opts req n] by (auto split: sum.splits)
    show ?thesis
    proof (cases "servedByFallbackHop (mp_rows ?p1 ! i) (mr_Requires req)")
      case False
      then show ?thesis using pk Inr tr[OF n1] by (simp add: failover_step_def Let_def)
    next
      case True
      obtain el p2 where el: "eligibleSaturatedForPrimary ?p1 (mr_Requires req) (fs_saturated s) ?now = (el, p2)"
        by (metis prod.exhaust)
      have n2: "mp_names p2 = N" and sub: "set el \<subseteq> set (fs_saturated s)"
        using mp_names_eligible_among[of "\<lambda>row. hasAll (er_tags row) (mr_Requires req)" ?p1 "fs_saturated s" ?now]
          eligible_among_sub[of "\<lambda>row. hasAll (er_tags row) (mr_Requires req)" ?p1 "fs_saturated s" ?now] el n1
        by (simp_all add: eligibleSaturatedForPrimary_def)
      obtain w p3 where aq: "acquireAnyOf p2 el (or_wait_env orc n) (or_won orc n) = (w, p3)" by (metis prod.exhaust)
      note aqn = acquireAnyOf_names[OF t, of p2 el n]
      have n3: "mp_names p3 = N" using aqn(1) aq n2 by simp
      show ?thesis
      proof (cases "el = []")
        case True
        then show ?thesis
          using pk Inr el tr[OF n2] \<open>servedByFallbackHop _ _\<close> by (simp add: failover_step_def Let_def)
      next
        case ne: False
        show ?thesis
        proof (cases w)
          case (Inl e)
          then show ?thesis
            using pk Inr el ne aq tr[OF n3] dt \<open>servedByFallbackHop _ _\<close>
            by (simp add: failover_step_def Let_def)
        next
          case wr: (Inr j)
          then have "j \<in> set (fs_saturated s)" using aqn(2)[of j] aq sub by auto
          then have "distinct (map fst (snd (snd (last_attempt orc n p3 j (fs_trace s)))))"
            by (rule waited_attempt_trace[OF inv _ n3])
          then show ?thesis
            using pk Inr el ne aq wr \<open>servedByFallbackHop _ _\<close>
            by (simp add: failover_step_def Let_def case_prod_beta)
        qed
      qed
    qed
  qed
qed

lemma failover_loop_inv:
  assumes t: "tame orc" and unpinned: "mr_PinnedEntry req = []"
  shows "fo_inv N s \<Longrightarrow> card (set N) < fuel + length (fs_exclude s) \<Longrightarrow>
     \<exists>out q trace. failover_loop fuel orc opts req n s = Some (out, q, trace) \<and> distinct (map fst trace)"
proof (induction fuel arbitrary: s n)
  case 0
  then have "card (set (fs_exclude s)) \<le> card (set N)" by (auto simp: fo_inv_def intro: card_mono)
  then have "length (fs_exclude s) \<le> card (set N)"
    using 0(1) by (simp add: fo_inv_def distinct_card)
  then show ?case using 0(2) by simp
next
  case (Suc fuel)
  note st = failover_step_inv[OF t Suc.prems(1) unpinned, of opts n]
  show ?case
  proof (cases "failover_step orc opts req n s")
    case (Inl o3)
    then show ?thesis using st by (cases o3) auto
  next
    case (Inr s')
    then show ?thesis using st Suc.IH[of s' "Suc n"] Suc.prems(2) by simp
  qed
qed

text \<open>C14. The failover driver always answers: whatever the backends, the other requests and the
  clock do, as long as the table is not replaced during the request, the loop over the candidates
  ends within one turn per entry and one more, and no entry is attempted twice for one request.\<close>

theorem failover_terminates:
  assumes "tame orc"
  shows "\<exists>out q trace. failover orc opts req p pin_ctx = Some (out, q, trace) \<and> distinct (map fst trace)"
proof (cases "mr_PinnedEntry req = []")
  case True
  have "fo_inv (mp_names p) (fo_start p)" by (simp add: fo_inv_def fo_start_def)
  moreover have "card (set (mp_names p)) < Suc (length (mp_rows p)) + length (fs_exclude (fo_start p))"
    using card_length[of "mp_names p"] by (simp add: fo_start_def)
  ultimately show ?thesis
    using failover_loop_inv[OF assms True, of "mp_names p" "fo_start p" "Suc (length (mp_rows p))" opts 0] True
    by (simp only: failover_def simp_thms if_False not_True_eq_False)
next
  case False
  obtain r st aff where pk: "pick (mp_state p) (mp_affinity p) req [] (or_now orc 0) = (r, st, aff)"
    by (metis prod.exhaust)
  show ?thesis
  proof (cases r)
    case (Inl e)
    then show ?thesis using False pk by (simp add: failover_def)
  next
    case (Inr i)
    obtain e p1 where a: "acquire (with_state p st aff) i (or_wait_env orc 0) pin_ctx = (e, p1)"
      by (metis prod.exhaust)
    have "distinct (map fst (snd (snd (last_attempt orc 0 p1 i []))))"
      by (rule last_attempt_trace) simp_all
    then show ?thesis using False pk Inr a
      by (cases e; cases "last_attempt orc 0 p1 i []") (simp_all add: failover_def)
  qed
qed

text \<open>A world in which every backend refuses the connection.\<close>

definition dead_world :: "nat world" where
  "dead_world = \<lparr> or_env = (\<lambda>_ p. p), or_now = (\<lambda>n. 100), or_wait_env = (\<lambda>_ p. p),
     or_won = (\<lambda>_ rows. case rows of [] \<Rightarrow> Inl plain_err | r # _ \<Rightarrow> Inr r),
     or_attempt = (\<lambda>n p i a l. (Inl (plain_err, 0), release p i)),
     or_ctx_err = (\<lambda>_. False) \<rparr>"

definition chat_opts :: failoverOpts where
  "chat_opts = \<lparr> fo_armFirstContent = False, fo_nonRetryable = (\<lambda>_. False) \<rparr>"

lemma tame_dead_world: "tame dead_world"
  by (auto simp: tame_def dead_world_def release_def release_row_def mp_names_set_row split: list.splits)

theorem failover_terminates_witness:
  "\<exists>out q trace. failover dead_world chat_opts demo_req demo_pool None = Some (out, q, trace) \<and>
     distinct (map fst trace)"
  using failover_terminates[OF tame_dead_world] .

text \<open>There the three entries are tried in order, the fallback tag last, and the request fails with
  the error that wraps \<^verbatim>\<open>ErrNoModelAvailable\<close> and one page.\<close>

lemma dead_world_run:
  "map_option (\<lambda>(out, q, trace). (out, mp_pages q, map fst trace))
     (failover dead_world chat_opts demo_req demo_pool None) =
   Some (Refused (AllCandidatesFailed 3 plain_err), [NoFallbackLeft ''llm'' [''smart''] plain_err],
         [''a'', ''b'', ''c''])"
  by code_simp

subsection \<open>No quiet downgrade\<close>

text \<open>A request is not downgraded while what it asked for is merely busy: when the pick falls back
  to an entry without all required tags and some entry with them is saturated but eligible, the
  driver's turn ends on one of those entries, or with the error of the wait; only a full wait
  queue lets it go on with the downgraded entry.\<close>

theorem busy_primary_is_waited_for:
  assumes "tame orc"
    and "pick (mp_state p) (mp_affinity p) req (fs_exclude s) (or_now orc n) = (Inr i, st, aff)"
    and "p = or_env orc n (fs_pool s)"
    and "servedByFallbackHop (mp_rows (with_state p st aff) ! i) (mr_Requires req)"
    and "eligibleSaturatedForPrimary (with_state p st aff) (mr_Requires req) (fs_saturated s) (or_now orc n) = (el, p2)"
    and "el \<noteq> []"
    and "acquireAnyOf p2 el (or_wait_env orc n) (or_won orc n) = (won, p3)"
    and "\<not> (case won of Inl e \<Rightarrow> pool_error_Is e ErrModelQueueFull | Inr w \<Rightarrow> False)"
  shows "\<exists>out q trace. failover_step orc opts req n s = Inl (out, q, trace) \<and>
     (case won of
        Inl e \<Rightarrow> out = Refused e \<and> trace = fs_trace s
      | Inr w \<Rightarrow> hasAll (er_tags (mp_rows (with_state p st aff) ! w)) (mr_Requires req) \<and>
                 trace = fs_trace s @ [(er_name (mp_rows p3 ! w), False, True)])"
proof (cases won)
  case (Inl e)
  then show ?thesis using assms by (simp add: failover_step_def Let_def)
next
  case (Inr w)
  have "w \<in> set el" using acquireAnyOf_names(2)[OF assms(1), of p2 el n w] assms(7) Inr by simp
  then have "hasAll (er_tags (mp_rows (with_state p st aff) ! w)) (mr_Requires req)"
    using eligible_among_P[of "\<lambda>row. hasAll (er_tags row) (mr_Requires req)" w "with_state p st aff"
        "fs_saturated s" "or_now orc n"] assms(5)
    by (simp add: eligibleSaturatedForPrimary_def)
  moreover have "failover_step orc opts req n s = Inl (last_attempt orc n p3 w (fs_trace s))"
    using assms Inr by (simp add: failover_step_def Let_def)
  moreover have "snd (snd (last_attempt orc n p3 w (fs_trace s))) =
      fs_trace s @ [(er_name (mp_rows p3 ! w), False, True)]"
    by (simp add: last_attempt_def Let_def split: prod.split sum.split)
  ultimately show ?thesis using Inr by (cases "last_attempt orc n p3 w (fs_trace s)") auto
qed

definition busy_state :: fo_state where
  "busy_state = (fo_start (set_row (set_row demo_pool 0 (take_slot (mp_rows demo_pool ! 0)))
       1 (Pause_row (mp_rows demo_pool ! 1))))
     \<lparr>fs_exclude := [''a''], fs_saturated := [0]\<rparr>"

theorem busy_primary_is_waited_for_witness:
  "\<exists>out q trace. failover_step dead_world chat_opts demo_req 1 busy_state = Inl (out, q, trace) \<and>
     map fst trace = [''a'']"
proof -
  let ?p = "or_env dead_world 1 (fs_pool busy_state)"
  obtain i st aff where pk: "pick (mp_state ?p) (mp_affinity ?p) demo_req (fs_exclude busy_state) (or_now dead_world 1) = (Inr i, st, aff)"
    and hop: "servedByFallbackHop (mp_rows (with_state ?p st aff) ! i) (mr_Requires demo_req)"
    and d: "i = 2" "st = mp_state ?p" "aff = mp_affinity ?p"
  proof -
    have "pick (mp_state ?p) (mp_affinity ?p) demo_req (fs_exclude busy_state) (or_now dead_world 1) =
        (Inr 2, mp_state ?p, mp_affinity ?p)" by code_simp
    moreover have "servedByFallbackHop (mp_rows (with_state ?p (mp_state ?p) (mp_affinity ?p)) ! 2) (mr_Requires demo_req)"
      by code_simp
    ultimately show ?thesis using that by blast
  qed
  obtain el p2 where el: "eligibleSaturatedForPrimary (with_state ?p st aff) (mr_Requires demo_req)
      (fs_saturated busy_state) (or_now dead_world 1) = (el, p2)" by (metis prod.exhaust)
  obtain won p3 where aq: "acquireAnyOf p2 el (or_wait_env dead_world 1) (or_won dead_world 1) = (won, p3)"
    by (metis prod.exhaust)
  have e0: "fst (eligibleSaturatedForPrimary (with_state ?p (mp_state ?p) (mp_affinity ?p)) (mr_Requires demo_req)
      (fs_saturated busy_state) (or_now dead_world 1)) = [0]" by code_simp
  have a0: "(case acquireAnyOf (snd (eligibleSaturatedForPrimary (with_state ?p (mp_state ?p) (mp_affinity ?p))
      (mr_Requires demo_req) (fs_saturated busy_state) (or_now dead_world 1))) [0]
      (or_wait_env dead_world 1) (or_won dead_world 1) of (w, p3) \<Rightarrow> w = Inr 0 \<and> er_name (mp_rows p3 ! 0) = ''a'')"
    by code_simp
  have ell: "el = [0]" "p2 = snd (eligibleSaturatedForPrimary (with_state ?p (mp_state ?p) (mp_affinity ?p))
      (mr_Requires demo_req) (fs_saturated busy_state) (or_now dead_world 1))"
    using e0 el d by simp_all
  have w: "won = Inr 0" "er_name (mp_rows p3 ! 0) = ''a''" using a0 aq ell by simp_all
  have tr: "fs_trace busy_state = []" by code_simp
  show ?thesis
    using busy_primary_is_waited_for[OF tame_dead_world pk refl hop el _ aq, of chat_opts] ell(1) w tr by auto
qed

subsection \<open>One non-streaming attempt\<close>

record chatResponse =
  cr_input :: int
  cr_output :: int
  cr_model :: string

definition zero_response :: chatResponse where
  "zero_response = \<lparr> cr_input = 0, cr_output = 0, cr_model = [] \<rparr>"

text \<open>The slot is held on entry; the deferred release gives it back on every path.\<close>

definition chatOne ::
  "multiPool \<Rightarrow> modelRequest \<Rightarrow> nat \<Rightarrow> bool \<Rightarrow> (nat \<Rightarrow> chatResponse \<times> gerror option) \<Rightarrow> (nat \<Rightarrow> nat) \<Rightarrow>
     (nat \<Rightarrow> gerror option) \<Rightarrow> bool \<Rightarrow> gtime \<Rightarrow> gtime \<Rightarrow> (gerror \<times> chatResponse + chatResponse) \<times> multiPool" where
  "chatOne p req i busyRetry call took ctx ctx_err clock_now now =
     (let (resp, oerr) = fst (withBusyRetry zero_response busyRetry call took ctx now) in
      case oerr of
        Some err \<Rightarrow>
          if errors_Is err ErrThinkingOnly then
            (Inl (err, zero_response),
             release (set_row p i (recordChatTokens (mp_rows p ! i) clock_now (cr_input resp) (cr_output resp) 1)) i)
          else (Inl (err, zero_response), release (recordError p ctx_err i err clock_now now) i)
      | None \<Rightarrow>
          let name = er_name (mp_rows p ! i);
              p1 = recordChatSuccess p i (cr_input resp) (cr_output resp) clock_now;
              p2 = p1\<lparr>mp_affinity := recordAffinity (mp_affinity p1) (mr_AffinityKey req) name now\<rparr>
          in (Inr (resp\<lparr>cr_model := name\<rparr>), release p2 i))"

lemma set_row_nth [simp]: "i < length (mp_rows p) \<Longrightarrow> mp_rows (set_row p i row) ! i = row"
  by (simp add: set_row_def)

lemma length_set_row [simp]: "length (mp_rows (set_row p i row)) = length (mp_rows p)"
  by (simp add: set_row_def)

lemma checkPoolLiveness_state [simp]: "mp_state (checkPoolLiveness p now) = mp_state p"
  by (simp add: checkPoolLiveness_def Let_def case_prod_beta)

lemma recordError_row:
  assumes "i < length (mp_rows p)"
  shows "\<exists>err'. mp_rows (recordError p c i err cn now) ! i = snd (RecordError (mp_rows p ! i) (Some err') cn now)"
    and "length (mp_rows (recordError p c i err cn now)) = length (mp_rows p)"
  using assms by (auto simp: recordError_def Let_def case_prod_beta Ensure_def)

lemma RecordError_slots:
  "er_held (snd (RecordError e oerr c now)) = er_held e" "er_sem (snd (RecordError e oerr c now)) = er_sem e"
  "er_inFlight (snd (RecordError e oerr c now)) = er_inFlight e"
  "er_totalErrors (snd (RecordError e oerr c now)) \<le> er_totalErrors e + 1"
  "er_consecutiveFails (snd (RecordError e oerr c now)) \<le> er_consecutiveFails e + 1"
  by (auto simp: RecordError_def book_error_def addUsage_def Let_def split: option.splits if_splits)

lemma recordChatSuccess_row:
  assumes "i < length (mp_rows p)"
  shows "mp_rows (recordChatSuccess p i a b cn) ! i = recordChatTokens (RecordSuccess (mp_rows p ! i)) cn a b 0"
    and "length (mp_rows (recordChatSuccess p i a b cn)) = length (mp_rows p)"
  using assms by (simp_all add: recordChatSuccess_def Let_def clearQueueFull_def clearKindExhausted_def)

lemma recordChatTokens_slots:
  "er_held (recordChatTokens e cn a b x) = er_held e" "er_sem (recordChatTokens e cn a b x) = er_sem e"
  "er_inFlight (recordChatTokens e cn a b x) = er_inFlight e"
  "er_totalErrors (recordChatTokens e cn a b x) = er_totalErrors e"
  "er_consecutiveFails (recordChatTokens e cn a b x) = er_consecutiveFails e"
  "er_deadUntil (recordChatTokens e cn a b x) = er_deadUntil e"
  by (auto simp: recordChatTokens_def addUsage_def Let_def split: option.splits)

lemma RecordSuccess_slots:
  "er_held (RecordSuccess e) = er_held e" "er_sem (RecordSuccess e) = er_sem e"
  "er_inFlight (RecordSuccess e) = er_inFlight e" "er_totalErrors (RecordSuccess e) = er_totalErrors e"
  "er_consecutiveFails (RecordSuccess e) = 0"
  by (simp_all add: RecordSuccess_def Let_def)

lemma release_row_of:
  "i < length (mp_rows p) \<Longrightarrow> mp_rows (release p i) ! i = release_row (mp_rows p ! i)"
  by (simp add: release_def)

text \<open>One attempt books one outcome: however many busy answers were waited out in it, the entry's
  error counters rise by at most one, by none when the call is finally served, and a reply that
  only spent tokens on thinking leaves the breaker alone; the slot held for the attempt is given
  back on every path.\<close>

theorem attempt_books_one_outcome:
  assumes "i < length (mp_rows p)"
    and "chatOne p req i busyRetry call took ctx ctx_err clock_now now = (res, p')"
  shows "let e = mp_rows p ! i; e' = mp_rows p' ! i in
     er_inFlight e' = er_inFlight e - 1 \<and>
     er_held e' = (if er_sem e = None then er_held e else er_held e - 1) \<and>
     er_totalErrors e' \<le> er_totalErrors e + 1 \<and>
     er_consecutiveFails e' \<le> er_consecutiveFails e + 1 \<and>
     (case res of
        Inr r \<Rightarrow> er_totalErrors e' = er_totalErrors e \<and> er_consecutiveFails e' = 0 \<and> cr_model r = er_name e
      | Inl (err, _) \<Rightarrow> if errors_Is err ErrThinkingOnly
                        then er_totalErrors e' = er_totalErrors e \<and> er_consecutiveFails e' = er_consecutiveFails e \<and>
                             er_deadUntil e' = er_deadUntil e
                        else True)"
proof -
  obtain resp oerr where w: "fst (withBusyRetry zero_response busyRetry call took ctx now) = (resp, oerr)"
    by (metis prod.exhaust)
  let ?e = "mp_rows p ! i"
  show ?thesis
  proof (cases oerr)
    case None
    let ?q = "recordChatSuccess p i (cr_input resp) (cr_output resp) clock_now"
    have r: "res = Inr (resp\<lparr>cr_model := er_name ?e\<rparr>)"
      and p': "mp_rows p' ! i = release_row (recordChatTokens (RecordSuccess ?e) clock_now (cr_input resp) (cr_output resp) 0)"
      using assms w None recordChatSuccess_row[OF assms(1)] release_row_of
      by (auto simp: chatOne_def Let_def)
    show ?thesis
      by (simp add: r p' Let_def release_row_def recordChatTokens_slots RecordSuccess_slots)
  next
    case (Some err)
    show ?thesis
    proof (cases "errors_Is err ErrThinkingOnly")
      case True
      then have r: "res = Inl (err, zero_response)"
        and p': "mp_rows p' ! i = release_row (recordChatTokens ?e clock_now (cr_input resp) (cr_output resp) 1)"
        using assms w Some release_row_of by (auto simp: chatOne_def Let_def)
      show ?thesis
        using True by (simp add: r p' Let_def release_row_def recordChatTokens_slots)
    next
      case False
      obtain err' where re: "mp_rows (recordError p ctx_err i err clock_now now) ! i =
          snd (RecordError ?e (Some err') clock_now now)"
        using recordError_row(1)[OF assms(1)] by blast
      have r: "res = Inl (err, zero_response)"
        and p': "mp_rows p' ! i = release_row (snd (RecordError ?e (Some err') clock_now now))"
        using assms w Some False release_row_of[of i "recordError p ctx_err i err clock_now now"]
          recordError_row(2)[OF assms(1)] re
        by (auto simp: chatOne_def Let_def)
      show ?thesis
        using False RecordError_slots[of ?e "Some err'" clock_now now]
        by (simp add: r p' Let_def release_row_def)
    qed
  qed
qed

theorem attempt_books_one_outcome_witness:
  "let p' = snd (chatOne demo_pool demo_req 0 True
       (\<lambda>k. if k \<le> 1 then (zero_response, Some plain_err) else (zero_response, None)) (\<lambda>_. 0) (\<lambda>_. None) False 5 5)
   in er_totalErrors (mp_rows p' ! 0) \<le> er_totalErrors (mp_rows demo_pool ! 0) + 1"
proof -
  have len: "0 < length (mp_rows demo_pool)" by code_simp
  obtain res p' where c: "chatOne demo_pool demo_req 0 True
       (\<lambda>k. if k \<le> 1 then (zero_response, Some plain_err) else (zero_response, None)) (\<lambda>_. 0) (\<lambda>_. None) False 5 5 = (res, p')"
    by (metis prod.exhaust)
  from attempt_books_one_outcome[OF len c] show ?thesis using c by (simp add: Let_def)
qed

end
