(* ===== verification/Model_Heartbeat.thy ===== *)
theory Model_Heartbeat
  imports Model_Pool
begin

section \<open>The on-demand heartbeat\<close>

text \<open>
  The liveness probe of the model pool (\<^verbatim>\<open>src/leaf/model/50-heartbeat.go\<close>): one pass over the dead
  entries, and the start/stop protocol between the probing goroutine and the callers that mark an
  entry dead. A ping's answer and the clock readings are inputs.
\<close>

subsection \<open>One pass\<close>

fun ping_loop ::
  "multiPool \<Rightarrow> nat list \<Rightarrow> (nat \<Rightarrow> bool) \<Rightarrow> (nat \<Rightarrow> gtime) \<Rightarrow> bool \<Rightarrow> bool \<Rightarrow> bool \<times> bool \<times> multiPool" where
  "ping_loop p [] ping at recovered stillDead = (recovered, stillDead, p)"
| "ping_loop p (i # is) ping at recovered stillDead =
     (let ((rec, dead), row') = MarkProbed (mp_rows p ! i) (ping i) (at i) (at i)
      in ping_loop (set_row p i row') is ping at (recovered \<or> rec) (stillDead \<or> (\<not> rec \<and> dead)))"

definition tick ::
  "multiPool \<Rightarrow> gtime \<Rightarrow> (nat \<Rightarrow> bool) \<Rightarrow> (nat \<Rightarrow> gtime) \<Rightarrow> gtime \<Rightarrow> bool \<times> multiPool" where
  "tick p now ping at fin =
     (let idx = [0..<length (mp_rows p)];
          toPing = filter (\<lambda>i. probe_due (mp_rows p ! i) now) idx;
          backingOff = length (filter (\<lambda>i. probe_waiting (mp_rows p ! i) now) idx)
      in if toPing = [] then (backingOff > 0, p)
         else
           let (recovered, stillDead, p') = ping_loop p toPing ping at False False;
               p'' = (if recovered then checkPoolLiveness p' fin else p')
           in (stillDead \<or> backingOff > 0, p''))"

lemma row_dead_antimono: "row_dead row t \<Longrightarrow> s \<le> t \<Longrightarrow> row_dead row s"
  by (simp add: row_dead_def)

lemma rows_set_row [simp]: "mp_rows (set_row p i row) = (mp_rows p)[i := row]"
  by (simp add: set_row_def)

lemma rows_checkPoolLiveness [simp]: "mp_rows (checkPoolLiveness p now) = mp_rows p"
  by (simp add: checkPoolLiveness_def Let_def case_prod_beta)

lemma hbRunning_frame [simp]:
  "mp_hbRunning (checkPoolLiveness p now) = mp_hbRunning p" "mp_hbRunning (set_row p i row) = mp_hbRunning p"
  by (simp_all add: checkPoolLiveness_def set_row_def Let_def case_prod_beta)

lemma length_ping_loop [simp]:
  "length (mp_rows (snd (snd (ping_loop p is ping at r s)))) = length (mp_rows p)"
  by (induction "is" arbitrary: p r s) (simp_all add: Let_def case_prod_beta)

text \<open>Rows that are not pinged stay as they are.\<close>

lemma ping_loop_other:
  "j \<notin> set is \<Longrightarrow> mp_rows (snd (snd (ping_loop p is ping at r s))) ! j = mp_rows p ! j"
  by (induction "is" arbitrary: p r s) (simp_all add: Let_def case_prod_beta)

lemma ping_loop_sticky: "s \<Longrightarrow> fst (snd (ping_loop p is ping at r s))"
  by (induction "is" arbitrary: p r s) (simp_all add: Let_def case_prod_beta)

text \<open>A pinged row that is still dead afterwards makes the loop report it.\<close>

lemma MarkProbed_dead:
  "row_dead (snd (MarkProbed row ok t t)) u \<Longrightarrow> t \<le> u \<Longrightarrow>
     \<not> fst (fst (MarkProbed row ok t t)) \<and> snd (fst (MarkProbed row ok t t))"
  by (auto simp: MarkProbed_def row_dead_def split: if_splits)

lemma ping_loop_reports_dead:
  assumes "distinct is" and "i \<in> set is" and "i < length (mp_rows p)" and "at i \<le> u"
    and "row_dead (mp_rows (snd (snd (ping_loop p is ping at r s))) ! i) u"
  shows "fst (snd (ping_loop p is ping at r s))"
  using assms
proof (induction "is" arbitrary: p r s)
  case (Cons k ks)
  let ?m = "MarkProbed (mp_rows p ! k) (ping k) (at k) (at k)"
  let ?p = "set_row p k (snd ?m)"
  let ?r = "r \<or> fst (fst ?m)" and ?s = "s \<or> (\<not> fst (fst ?m) \<and> snd (fst ?m))"
  have step: "ping_loop p (k # ks) ping at r s = ping_loop ?p ks ping at ?r ?s"
    by (simp add: Let_def case_prod_beta)
  show ?case
  proof (cases "i = k")
    case True
    then have "i \<notin> set ks" using Cons.prems(1) by auto
    then have "row_dead (snd ?m) u" using Cons.prems(3,5) True step by (simp add: ping_loop_other)
    then have ?s using MarkProbed_dead Cons.prems(4) True by blast
    then show ?thesis unfolding step by (rule ping_loop_sticky)
  next
    case False
    then show ?thesis using Cons.IH[of ?p ?r ?s] Cons.prems step by simp
  qed
qed simp

text \<open>The heartbeat stops only when there is nothing left to probe: when a pass reports that it
  may stop, no entry of the table is dead when the pass ends, provided the clock does not run
  backwards during it; an entry that is backing off after a false recovery keeps the pass going.\<close>

theorem heartbeat_stops_only_when_clear:
  assumes "tick p now ping at fin = (False, p')" and "now \<le> fin"
    and "list_all (\<lambda>i. at i \<le> fin) [0..<length (mp_rows p)]"
  shows "\<not> hasDeadEntry p' fin"
proof
  let ?idx = "[0..<length (mp_rows p)]"
  let ?due = "filter (\<lambda>i. probe_due (mp_rows p ! i) now) ?idx"
  let ?l = "ping_loop p ?due ping at False False"
  assume "hasDeadEntry p' fin"
  then obtain i where i: "i < length (mp_rows p')" "row_dead (mp_rows p' ! i) fin"
    by (auto simp: hasDeadEntry_def list_ex_iff in_set_conv_nth)
  have rows: "mp_rows p' = mp_rows (snd (snd ?l))"
    using assms(1) by (auto simp: tick_def Let_def case_prod_beta split: if_splits)
  have ilen: "i < length (mp_rows p)" using i(1) rows by simp
  have nowait: "\<not> probe_waiting (mp_rows p ! i) now"
  proof
    assume "probe_waiting (mp_rows p ! i) now"
    then have "filter (\<lambda>i. probe_waiting (mp_rows p ! i) now) ?idx \<noteq> []"
      using ilen by (auto simp: filter_empty_conv)
    then show False using assms(1) by (auto simp: tick_def Let_def case_prod_beta split: if_splits)
  qed
  show False
  proof (cases "i \<in> set ?due")
    case True
    then have "fst (snd ?l)"
      using ping_loop_reports_dead[of ?due i p at fin ping False False] ilen i(2) assms(3) rows
      by (simp add: list_all_iff)
    moreover have "?due \<noteq> []" using True by force
    ultimately show False using assms(1) by (auto simp: tick_def Let_def case_prod_beta split: if_splits)
  next
    case False
    then have "row_dead (mp_rows p ! i) fin" using i(2) rows by (simp add: ping_loop_other)
    then have "row_dead (mp_rows p ! i) now" using row_dead_antimono assms(2) by blast
    then show False using False nowait ilen by (simp add: probe_due_def)
  qed
qed

definition dead_pool :: multiPool where
  "dead_pool = demo_pool\<lparr>mp_state := demo_state\<lparr>ps_entries :=
     map (\<lambda>r. r\<lparr>er_deadUntil := 100\<rparr>) (ps_entries demo_state)\<rparr>\<rparr>"

theorem heartbeat_stops_only_when_clear_witness:
  "\<not> hasDeadEntry (snd (tick dead_pool 10 (\<lambda>_. True) (\<lambda>_. 11) 12)) 12"
proof -
  have t: "\<not> fst (tick dead_pool 10 (\<lambda>_. True) (\<lambda>_. 11) 12)" by code_simp
  have "list_all (\<lambda>i. (\<lambda>_. 11) i \<le> (12 :: gtime)) [0..<length (mp_rows dead_pool)]" by code_simp
  with t show ?thesis
    using heartbeat_stops_only_when_clear[of dead_pool 10 "\<lambda>_. True" "\<lambda>_. 11" 12
        "snd (tick dead_pool 10 (\<lambda>_. True) (\<lambda>_. 11) 12)"]
    by (cases "tick dead_pool 10 (\<lambda>_. True) (\<lambda>_. 11) 12") simp
qed

subsection \<open>Start and stop\<close>

text \<open>
  The state of the protocol: the pool (with the running flag), the clock, and how many goroutines
  are at each point of the code: \<open>hb_loop\<close> inside the probing loop, \<open>hb_recheck\<close> between the
  release of the flag and the scan that follows it, \<open>hb_rearm\<close> between a scan that found a dead
  entry and the compare-and-swap, \<open>hb_scan\<close> operators and reloads that changed the table and have
  not looked for a dead entry yet, \<open>hb_pending\<close> callers on their way into \<^verbatim>\<open>Ensure\<close>. The flag
  \<open>hb_panicked\<close> says that a pass ended in a panic and that no caller has set out for
  \<^verbatim>\<open>Ensure\<close> since.

  The steps are the operations under one lock or on one atomic variable, in any interleaving. A
  failed call books its error on a row of the table and goes on to \<^verbatim>\<open>Ensure\<close> when
  \<^verbatim>\<open>RecordError\<close> reports a death (\<open>Fail\<close>); a call that still holds a row of an older table may do
  so too (\<open>Stale\<close>). Successes, token bookings, pick-time checks and pauses change a row and look no
  further (\<open>Row\<close>); \<^verbatim>\<open>Resume\<close> and \<^verbatim>\<open>reload\<close> change the table and look afterwards. The prober
  applies one ping at a time (\<open>Ping\<close>), may end a pass at any moment (\<open>Release\<close>, which allows more
  than the code, where the pass must have found nothing dead), and may panic inside a pass, where it
  calls the chat client and the recovery hook (\<open>Panic\<close>): the deferred recover clears the flag and
  the goroutine is gone.
\<close>

record hb_state =
  hb_pool :: multiPool
  hb_now :: gtime
  hb_loop :: nat
  hb_recheck :: nat
  hb_rearm :: nat
  hb_scan :: nat
  hb_pending :: nat
  hb_closed :: bool
  hb_panicked :: bool

abbreviation hb_running :: "hb_state \<Rightarrow> bool" where
  "hb_running s \<equiv> mp_hbRunning (hb_pool s)"

abbreviation hb_dead :: "hb_state \<Rightarrow> bool" where
  "hb_dead s \<equiv> hasDeadEntry (hb_pool s) (hb_now s)"

definition set_running :: "bool \<Rightarrow> hb_state \<Rightarrow> hb_state" where
  "set_running b s = s\<lparr>hb_pool := (hb_pool s)\<lparr>mp_hbRunning := b\<rparr>\<rparr>"

definition set_rows :: "entryRow list \<Rightarrow> hb_state \<Rightarrow> hb_state" where
  "set_rows rows s = s\<lparr>hb_pool := (hb_pool s)\<lparr>mp_state := (mp_state (hb_pool s))\<lparr>ps_entries := rows\<rparr>\<rparr>\<rparr>"

definition to_ensure :: "hb_state \<Rightarrow> hb_state" where
  "to_ensure s = s\<lparr>hb_pending := Suc (hb_pending s), hb_panicked := False\<rparr>"

text \<open>What a tentative row promises (part of \<^const>\<open>row_ok\<close>).\<close>

definition tent_ok :: "entryRow \<Rightarrow> bool" where
  "tent_ok r \<longleftrightarrow> (er_tentative r \<longrightarrow> er_deadUntil r = 0)"

fun looks_no_further :: "row_event \<Rightarrow> bool" where
  "looks_no_further EvSuccess = True"
| "looks_no_further (EvTokens _ _ _ _) = True"
| "looks_no_further (EvEligible _) = True"
| "looks_no_further EvPause = True"
| "looks_no_further _ = False"

inductive hb_step :: "hb_state \<Rightarrow> hb_state \<Rightarrow> bool" where
  Clock: "hb_now s \<le> now' \<Longrightarrow> hb_step s (s\<lparr>hb_now := now'\<rparr>)"
| Fail:
    "i < length (mp_rows (hb_pool s)) \<Longrightarrow>
     RecordError (mp_rows (hb_pool s) ! i) (Some err) c t = (died, row) \<Longrightarrow>
     s' = set_rows ((mp_rows (hb_pool s))[i := row]) s \<Longrightarrow>
     hb_step s (if died then to_ensure s' else s')"
| Stale: "hb_step s (to_ensure s)"
| Row:
    "i < length (mp_rows (hb_pool s)) \<Longrightarrow> looks_no_further ev \<Longrightarrow>
     hb_step s (set_rows ((mp_rows (hb_pool s))[i := row_step (mp_rows (hb_pool s) ! i) ev]) s)"
| Resume_entry:
    "i < length (mp_rows (hb_pool s)) \<Longrightarrow>
     hb_step s ((set_rows ((mp_rows (hb_pool s))[i := Resume_row (mp_rows (hb_pool s) ! i)]) s)
       \<lparr>hb_scan := Suc (hb_scan s)\<rparr>)"
| Reload:
    "list_all tent_ok rows \<Longrightarrow> hb_step s ((set_rows rows s)\<lparr>hb_scan := Suc (hb_scan s)\<rparr>)"
| ScanClear: "hb_scan s > 0 \<Longrightarrow> \<not> hb_dead s \<Longrightarrow> hb_step s (s\<lparr>hb_scan := hb_scan s - 1\<rparr>)"
| ScanDead: "hb_scan s > 0 \<Longrightarrow> hb_dead s \<Longrightarrow> hb_step s ((to_ensure s)\<lparr>hb_scan := hb_scan s - 1\<rparr>)"
| EnsureStart:
    "hb_pending s > 0 \<Longrightarrow> \<not> hb_running s \<Longrightarrow>
     hb_step s ((set_running True s)\<lparr>hb_pending := hb_pending s - 1, hb_loop := Suc (hb_loop s)\<rparr>)"
| EnsureSkip:
    "hb_pending s > 0 \<Longrightarrow> hb_running s \<Longrightarrow> hb_step s (s\<lparr>hb_pending := hb_pending s - 1\<rparr>)"
| Ping:
    "hb_loop s > 0 \<Longrightarrow> i < length (mp_rows (hb_pool s)) \<Longrightarrow>
     hb_step s (set_rows ((mp_rows (hb_pool s))[i := snd (MarkProbed (mp_rows (hb_pool s) ! i) ok t t')]) s)"
| Release:
    "hb_loop s > 0 \<Longrightarrow>
     hb_step s ((set_running False s)\<lparr>hb_loop := hb_loop s - 1, hb_recheck := Suc (hb_recheck s)\<rparr>)"
| RecheckClear:
    "hb_recheck s > 0 \<Longrightarrow> \<not> hb_dead s \<Longrightarrow> hb_step s (s\<lparr>hb_recheck := hb_recheck s - 1\<rparr>)"
| RecheckDead:
    "hb_recheck s > 0 \<Longrightarrow> hb_dead s \<Longrightarrow>
     hb_step s (s\<lparr>hb_recheck := hb_recheck s - 1, hb_rearm := Suc (hb_rearm s)\<rparr>)"
| RearmWon:
    "hb_rearm s > 0 \<Longrightarrow> \<not> hb_running s \<Longrightarrow>
     hb_step s ((set_running True s)\<lparr>hb_rearm := hb_rearm s - 1, hb_loop := Suc (hb_loop s)\<rparr>)"
| RearmLost:
    "hb_rearm s > 0 \<Longrightarrow> hb_running s \<Longrightarrow> hb_step s (s\<lparr>hb_rearm := hb_rearm s - 1\<rparr>)"
| Panic:
    "hb_loop s > 0 \<Longrightarrow> hb_step s ((set_running False s)\<lparr>hb_loop := hb_loop s - 1, hb_panicked := True\<rparr>)"
| Close: "hb_step s (s\<lparr>hb_closed := True\<rparr>)"
| CloseExit:
    "hb_closed s \<Longrightarrow> hb_loop s > 0 \<Longrightarrow> hb_step s ((set_running False s)\<lparr>hb_loop := hb_loop s - 1\<rparr>)"

inductive hb_reach :: "hb_state \<Rightarrow> hb_state \<Rightarrow> bool" for s where
  hb_refl: "hb_reach s s"
| hb_trans: "hb_reach s t \<Longrightarrow> hb_step t u \<Longrightarrow> hb_reach s u"

definition hb_init :: "multiPool \<Rightarrow> gtime \<Rightarrow> hb_state" where
  "hb_init p now = \<lparr> hb_pool = p\<lparr>mp_hbRunning := False\<rparr>, hb_now = now, hb_loop = 0, hb_recheck = 0,
                     hb_rearm = 0, hb_scan = 0, hb_pending = 0, hb_closed = False, hb_panicked = False \<rparr>"

lemma hasDead_running [simp]: "hasDeadEntry (p\<lparr>mp_hbRunning := b\<rparr>) now = hasDeadEntry p now"
  by (simp add: hasDeadEntry_def)

lemma hb_frame [simp]:
  "hb_pool (set_running b s) = (hb_pool s)\<lparr>mp_hbRunning := b\<rparr>" "hb_now (set_running b s) = hb_now s"
  "hb_loop (set_running b s) = hb_loop s" "hb_recheck (set_running b s) = hb_recheck s"
  "hb_rearm (set_running b s) = hb_rearm s" "hb_pending (set_running b s) = hb_pending s"
  "hb_scan (set_running b s) = hb_scan s" "hb_closed (set_running b s) = hb_closed s"
  "hb_panicked (set_running b s) = hb_panicked s"
  "hb_pool (set_rows rs s) = (hb_pool s)\<lparr>mp_state := (mp_state (hb_pool s))\<lparr>ps_entries := rs\<rparr>\<rparr>"
  "hb_now (set_rows rs s) = hb_now s"
  "hb_loop (set_rows rs s) = hb_loop s" "hb_recheck (set_rows rs s) = hb_recheck s"
  "hb_rearm (set_rows rs s) = hb_rearm s" "hb_pending (set_rows rs s) = hb_pending s"
  "hb_scan (set_rows rs s) = hb_scan s" "hb_closed (set_rows rs s) = hb_closed s"
  "hb_panicked (set_rows rs s) = hb_panicked s"
  "hb_pool (to_ensure s) = hb_pool s" "hb_now (to_ensure s) = hb_now s" "hb_loop (to_ensure s) = hb_loop s"
  "hb_recheck (to_ensure s) = hb_recheck s" "hb_rearm (to_ensure s) = hb_rearm s"
  "hb_pending (to_ensure s) = Suc (hb_pending s)" "hb_scan (to_ensure s) = hb_scan s"
  "hb_closed (to_ensure s) = hb_closed s" "hb_panicked (to_ensure s) = False"
  by (simp_all add: set_running_def set_rows_def to_ensure_def)

lemma hasDead_update:
  assumes "hasDeadEntry (p\<lparr>mp_state := (mp_state p)\<lparr>ps_entries := (mp_rows p)[i := row]\<rparr>\<rparr>) t" and "\<not> row_dead row t"
  shows "hasDeadEntry p t"
  using assms set_update_subset_insert[of "mp_rows p" i row] by (auto simp: hasDeadEntry_def list_ex_iff)

lemma hasDead_later: "hasDeadEntry p t \<Longrightarrow> s \<le> t \<Longrightarrow> hasDeadEntry p s"
  using row_dead_antimono by (auto simp: hasDeadEntry_def list_ex_iff)

lemma dead_mem: "row_dead (mp_rows p ! i) t \<Longrightarrow> i < length (mp_rows p) \<Longrightarrow> hasDeadEntry p t"
  by (auto simp: hasDeadEntry_def list_ex_iff)

text \<open>A failed call that makes a live row dead says so; the operations that look no further make no row dead.\<close>

lemma RecordError_reports_death:
  assumes "row_dead (snd (RecordError e oerr c now)) t" and "\<not> row_dead e t"
  shows "fst (RecordError e oerr c now)"
  using assms
  by (cases oerr) (auto simp: RecordError_def row_dead_def Let_def split: if_splits)

lemma looks_no_further_alive:
  "looks_no_further ev \<Longrightarrow> tent_ok e \<Longrightarrow> row_dead (row_step e ev) t \<Longrightarrow> row_dead e t"
  by (cases ev) (auto simp: tent_ok_def row_dead_def RecordSuccess_def recordChatTokens_def IsEligible_def Pause_row_def
      Let_def split: if_splits)

lemma tent_ok_ops:
  "tent_ok e \<Longrightarrow> tent_ok (snd (RecordError e oerr c now))"
  "tent_ok e \<Longrightarrow> looks_no_further ev \<Longrightarrow> tent_ok (row_step e ev)"
  "tent_ok e \<Longrightarrow> tent_ok (Resume_row e)"
  "tent_ok e \<Longrightarrow> tent_ok (snd (MarkProbed e ok t t'))"
  "tent_ok e \<Longrightarrow> tent_ok (copyLiveness e new)"
  "tent_ok (fresh_row name kind tags prio win sem)"
proof -
  show "tent_ok e \<Longrightarrow> tent_ok (snd (RecordError e oerr c now))"
    by (cases oerr) (auto simp: tent_ok_def RecordError_def Let_def)
  show "tent_ok e \<Longrightarrow> looks_no_further ev \<Longrightarrow> tent_ok (row_step e ev)"
    by (cases ev) (auto simp: tent_ok_def RecordSuccess_def recordChatTokens_def IsEligible_def Pause_row_def Let_def)
qed (auto simp: tent_ok_def Resume_row_def MarkProbed_def copyLiveness_def fresh_row_def)

subsection \<open>The invariant of the protocol\<close>

definition hb_covered :: "hb_state \<Rightarrow> bool" where
  "hb_covered s \<longleftrightarrow>
     hb_running s \<or> hb_recheck s > 0 \<or> hb_rearm s > 0 \<or> hb_scan s > 0 \<or> hb_pending s > 0 \<or> hb_closed s \<or> hb_panicked s"

definition hb_inv :: "hb_state \<Rightarrow> bool" where
  "hb_inv s \<longleftrightarrow> hb_loop s = (if hb_running s then 1 else 0) \<and> list_all tent_ok (mp_rows (hb_pool s))
     \<and> (hb_dead s \<longrightarrow> hb_covered s)"

lemma list_all_update: "list_all P xs \<Longrightarrow> P x \<Longrightarrow> list_all P (xs[i := x])"
  using set_update_subset_insert[of xs i x] by (auto simp: list_all_iff)

lemma hb_inv_update:
  assumes "hb_inv s" and "tent_ok row" and "row_dead row (hb_now s) \<Longrightarrow> hb_covered s \<or> hb_dead s"
  shows "hb_inv (set_rows ((mp_rows (hb_pool s))[i := row]) s)"
proof -
  let ?t = "set_rows ((mp_rows (hb_pool s))[i := row]) s"
  have "hb_dead s \<or> hb_covered s" if "hb_dead ?t"
    using that assms(3) hasDead_update[of "hb_pool s" i row "hb_now s"] by (cases "row_dead row (hb_now s)") auto
  then have "hb_dead ?t \<longrightarrow> hb_covered ?t" using assms(1) by (auto simp: hb_inv_def hb_covered_def)
  then show ?thesis using assms(1,2) list_all_update[of tent_ok "mp_rows (hb_pool s)" row i] by (simp add: hb_inv_def)
qed

lemma hb_inv_step: "hb_step s t \<Longrightarrow> hb_inv s \<Longrightarrow> hb_inv t"
proof (induction rule: hb_step.induct)
  case (Clock s now')
  then show ?case using hasDead_later by (auto simp: hb_inv_def hb_covered_def)
next
  case (Fail i s err c t died row s')
  have tn: "tent_ok (mp_rows (hb_pool s) ! i)" using Fail(1,4) by (simp add: hb_inv_def list_all_length)
  then have tr: "tent_ok row" using tent_ok_ops(1)[OF tn, of "Some err" c t] Fail(2) by simp
  show ?case
  proof (cases died)
    case True
    then show ?thesis
      using Fail(3,4) list_all_update[of tent_ok _ row i] tr by (auto simp: hb_inv_def hb_covered_def)
  next
    case False
    have "row_dead row (hb_now s) \<Longrightarrow> row_dead (mp_rows (hb_pool s) ! i) (hb_now s)"
      using RecordError_reports_death[of "mp_rows (hb_pool s) ! i" "Some err" c t "hb_now s"] Fail(2) False by auto
    then show ?thesis
      using hb_inv_update[OF Fail(4) tr] dead_mem[OF _ Fail(1)] False Fail(3) by auto
  qed
next
  case (Row i s ev)
  have tn: "tent_ok (mp_rows (hb_pool s) ! i)" using Row by (simp add: hb_inv_def list_all_length)
  show ?case
    by (rule hb_inv_update[OF Row(3) tent_ok_ops(2)[OF tn Row(2)]])
      (use looks_no_further_alive[OF Row(2) tn] dead_mem[OF _ Row(1)] in blast)
next
  case (Resume_entry i s)
  then have "tent_ok (Resume_row (mp_rows (hb_pool s) ! i))"
    by (simp add: tent_ok_ops(3) hb_inv_def list_all_length)
  then show ?case
    using Resume_entry list_all_update[of tent_ok "mp_rows (hb_pool s)" _ i] by (simp add: hb_inv_def hb_covered_def)
next
  case (Ping s i ok t t')
  then have "tent_ok (snd (MarkProbed (mp_rows (hb_pool s) ! i) ok t t'))"
    by (intro tent_ok_ops(4)) (simp add: hb_inv_def list_all_length)
  then show ?case
    by (rule hb_inv_update[OF Ping(3)]) (use Ping in \<open>auto simp: hb_inv_def hb_covered_def split: if_splits\<close>)
qed (auto simp: hb_inv_def hb_covered_def split: if_splits)

lemma hb_inv_reach: "hb_reach s t \<Longrightarrow> hb_inv s \<Longrightarrow> hb_inv t"
  by (induction rule: hb_reach.induct) (auto intro: hb_inv_step)

text \<open>C30. There is never more than one prober, and no dead entry is left without one, panics apart: in
  every interleaving of failing and succeeding calls, pauses, resumes, reloads and the clock with the start,
  the pings and the stop of the heartbeat, at most one goroutine probes; and while the pool is open and some
  entry is dead, a goroutine is probing, or one is on its way to start probing (between the release of the
  flag and its second look, before the swap that follows it, between a change of the table and the look after
  it, or on the way into \<^verbatim>\<open>Ensure\<close>), or a pass has panicked and no entry has been reported dead since.\<close>

theorem heartbeat_never_lost:
  assumes "hb_reach (hb_init p now) s" and "\<not> hasDeadEntry p now" and "list_all tent_ok (mp_rows p)"
  shows "hb_loop s \<le> 1 \<and>
     (hasDeadEntry (hb_pool s) (hb_now s) \<and> \<not> hb_closed s \<and> \<not> hb_panicked s \<longrightarrow>
        hb_loop s = 1 \<or> hb_recheck s + hb_rearm s + hb_scan s + hb_pending s > 0)"
proof -
  have "hb_inv (hb_init p now)" using assms(2,3) by (simp add: hb_inv_def hb_init_def)
  from hb_inv_reach[OF assms(1) this] show ?thesis by (auto simp: hb_inv_def hb_covered_def split: if_splits)
qed

text \<open>A tentative entry whose next call fails: the entry is dead and the failing call is on its way.\<close>

definition hb_demo :: multiPool where
  "hb_demo = demo_pool\<lparr>mp_state := demo_state\<lparr>ps_entries := [tentative_row]\<rparr>\<rparr>"

definition hb_demo_failed :: hb_state where
  "hb_demo_failed = to_ensure (set_rows [snd (RecordError tentative_row (Some plain_err) 5 5)] (hb_init hb_demo 5))"

theorem heartbeat_never_lost_witness:
  "hasDeadEntry (hb_pool hb_demo_failed) 5
   \<and> (hb_loop hb_demo_failed = 1 \<or>
      hb_recheck hb_demo_failed + hb_rearm hb_demo_failed + hb_scan hb_demo_failed + hb_pending hb_demo_failed > 0)"
proof -
  let ?s = "hb_init hb_demo 5"
  have rows: "mp_rows (hb_pool ?s) = [tentative_row]" by (simp add: hb_init_def hb_demo_def)
  obtain died row where r: "RecordError tentative_row (Some plain_err) 5 5 = (died, row)" by fastforce
  have died: "fst (RecordError tentative_row (Some plain_err) 5 5)" by code_simp
  have "hb_step ?s (if died then to_ensure (set_rows [row] ?s) else set_rows [row] ?s)"
    using hb_step.Fail[of 0 ?s plain_err 5 5 died row, OF _ _ refl, unfolded rows] r
    by (simp only: list.size nth_Cons_0 list_update.simps nat.case zero_less_Suc)
  then have "hb_reach ?s hb_demo_failed"
    using hb_trans[OF hb_refl] died r by (simp add: hb_demo_failed_def)
  moreover have "\<not> hasDeadEntry hb_demo 5" "list_all tent_ok (mp_rows hb_demo)" by code_simp+
  moreover have "hasDeadEntry (hb_pool hb_demo_failed) 5" by code_simp
  moreover have "hb_now hb_demo_failed = 5" "\<not> hb_closed hb_demo_failed" "\<not> hb_panicked hb_demo_failed"
    by (simp_all add: hb_demo_failed_def hb_init_def)
  ultimately show ?thesis using heartbeat_never_lost[of hb_demo 5 hb_demo_failed] by simp
qed

text \<open>After a panic a dead entry may indeed stand without a prober: the recover clears the flag and nothing
  looks at the table again until some other entry dies, an operator resumes one or the configuration is
  reloaded.\<close>

lemma panic_strands_dead_entry:
  assumes "hb_reach (hb_init hb_demo 5) s" and "s = hb_demo_failed"
  shows "\<exists>t. hb_reach (hb_init hb_demo 5) t \<and> hb_dead t \<and> \<not> hb_closed t
     \<and> hb_loop t = 0 \<and> hb_recheck t + hb_rearm t + hb_scan t + hb_pending t = 0"
proof -
  let ?u = "(set_running True s)\<lparr>hb_pending := hb_pending s - 1, hb_loop := Suc (hb_loop s)\<rparr>"
  let ?t = "(set_running False ?u)\<lparr>hb_loop := hb_loop ?u - 1, hb_panicked := True\<rparr>"
  have "hb_pending s > 0" "\<not> hb_running s" by (simp_all add: assms(2) hb_demo_failed_def hb_init_def)
  from hb_trans[OF hb_trans[OF assms(1) hb_step.EnsureStart[OF this]] hb_step.Panic]
  have "hb_reach (hb_init hb_demo 5) ?t" by simp
  moreover have "hasDeadEntry (hb_pool hb_demo_failed) (hb_now hb_demo_failed)" by code_simp
  then have "hb_dead ?t" by (simp add: assms(2))
  moreover have "\<not> hb_closed ?t \<and> hb_loop ?t = 0 \<and> hb_recheck ?t + hb_rearm ?t + hb_scan ?t + hb_pending ?t = 0"
    by (simp add: assms(2) hb_demo_failed_def hb_init_def)
  ultimately show ?thesis by blast
qed

text \<open>The pool-side wrapper of a failed call goes on to the heartbeat when the row died.\<close>

lemma recordError_goes_on_to_Ensure:
  assumes i: "i < length (mp_rows p)"
    and dead: "hasDeadEntry (recordError p ctx i err c now) t" and live: "\<not> hasDeadEntry p t"
  shows "mp_hbRunning (recordError p ctx i err c now)"
proof -
  let ?err = "if errors_Is err DeadlineExceeded \<and> \<not> ctx
              then wrap_with ErrHardTimeout hard_timeout_text err else err"
  let ?r = "RecordError (mp_rows p ! i) (Some ?err) c now"
  have rows: "mp_rows (recordError p ctx i err c now) = (mp_rows p)[i := snd ?r]"
    by (simp add: recordError_def Let_def case_prod_beta Ensure_def set_row_def)
  have nl: "row \<in> set (mp_rows p) \<Longrightarrow> \<not> row_dead row t" for row
    using live by (auto simp: hasDeadEntry_def list_ex_iff)
  obtain row where row: "row \<in> set ((mp_rows p)[i := snd ?r])" "row_dead row t"
    using dead unfolding hasDeadEntry_def rows list_ex_iff by blast
  have "row = snd ?r" using row nl set_update_subset_insert[of "mp_rows p" i "snd ?r"] by blast
  then have "fst ?r" using RecordError_reports_death[of _ _ _ _ t] row(2) nl[OF nth_mem[OF i]] by blast
  then show ?thesis by (simp add: recordError_def Let_def case_prod_beta Ensure_def)
qed

end
