(* ===== verification/Model_Usage.thy ===== *)
theory Model_Usage
  imports Model_Pool
begin

section \<open>Persisting the usage buckets\<close>

text \<open>
  The recorder that drains the hourly buckets of the entries into the store
  (\<^verbatim>\<open>src/leaf/model/70-usage.go\<close>) and the additive upsert it drains into
  (\<^verbatim>\<open>85-usagestore.go\<close>). The table is a map from entry and hour to the sums; whether an insert
  reaches the database is an input per call. The rows a pass works on are a list; the rows the
  configuration reload displaced wait in batches.
\<close>

type_synonym usage_table = "(string \<times> int, hourBucket) gomap"

text \<open>\<open>ok\<close> says that the database executed the statement.\<close>

definition AddModelUsage :: "bool \<Rightarrow> usage_table \<Rightarrow> string \<Rightarrow> int \<Rightarrow> hourBucket \<Rightarrow> usage_table option" where
  "AddModelUsage ok tab name hr b =
     (if name = [] then None
      else if \<not> ok then None
      else Some (gput (name, hr)
                  (case gget tab (name, hr) of None \<Rightarrow> b | Some old \<Rightarrow> bucket_add old b) tab))"

definition PruneModelUsage :: "usage_table \<Rightarrow> int \<Rightarrow> nat \<times> usage_table" where
  "PruneModelUsage tab cutoff =
     (let keep = filter (\<lambda>((n, h), b). \<not> h < cutoff) tab in (length tab - length keep, keep))"

record pending_use =
  pu_row :: nat
  pu_hour :: int
  pu_bucket :: hourBucket

text \<open>The first loop: the hours to flush leave their row.\<close>

definition takes_hour :: "bool \<Rightarrow> int \<Rightarrow> int \<Rightarrow> bool" where
  "takes_hour includeCurrent currentHour h \<longleftrightarrow> \<not> (\<not> includeCurrent \<and> h \<ge> currentHour)"

definition flush_todo :: "bool \<Rightarrow> int \<Rightarrow> entryRow list \<Rightarrow> pending_use list" where
  "flush_todo includeCurrent currentHour rows =
     concat (map (\<lambda>i. map (\<lambda>(h, b). \<lparr> pu_row = i, pu_hour = h, pu_bucket = b \<rparr>)
                        (filter (\<lambda>(h, b). takes_hour includeCurrent currentHour h) (er_hourly (rows ! i))))
              [0..<length rows])"

definition flush_kept :: "bool \<Rightarrow> int \<Rightarrow> entryRow list \<Rightarrow> entryRow list" where
  "flush_kept includeCurrent currentHour rows =
     map (\<lambda>row. row\<lparr>er_hourly := filter (\<lambda>(h, b). \<not> takes_hour includeCurrent currentHour h) (er_hourly row)\<rparr>) rows"

definition readd :: "entryRow \<Rightarrow> int \<Rightarrow> hourBucket \<Rightarrow> entryRow" where
  "readd row hr b =
     (let old = ggetz zero_bucket (er_hourly row) hr in
      row\<lparr>er_hourly := snd (dropOldestHourly (gput hr (bucket_add old b) (er_hourly row)))\<rparr>)"

text \<open>
  The second loop: store each bucket; a failed one goes back unless the pass is terminal. \<open>oks\<close>
  lists whether the next calls succeed (all further ones do), and what is left of it is returned.
\<close>

fun flush_store ::
  "bool \<Rightarrow> bool list \<Rightarrow> pending_use list \<Rightarrow> usage_table \<Rightarrow> entryRow list \<Rightarrow>
     usage_table \<times> entryRow list \<times> bool list" where
  "flush_store terminal oks [] tab rows = (tab, rows, oks)"
| "flush_store terminal oks (t # todo) tab rows =
     (let ok = (case oks of [] \<Rightarrow> True | b # _ \<Rightarrow> b) in
      case AddModelUsage ok tab (er_name (rows ! pu_row t)) (pu_hour t) (pu_bucket t) of
        Some tab' \<Rightarrow> flush_store terminal (tl oks) todo tab' rows
      | None \<Rightarrow>
          if terminal then flush_store terminal (tl oks) todo tab rows
          else flush_store terminal (tl oks) todo tab
                 (rows[pu_row t := readd (rows ! pu_row t) (pu_hour t) (pu_bucket t)]))"

definition flushRows ::
  "bool list \<Rightarrow> gtime \<Rightarrow> bool \<Rightarrow> bool \<Rightarrow> usage_table \<Rightarrow> entryRow list \<Rightarrow> usage_table \<times> entryRow list \<times> bool list" where
  "flushRows oks clock_now includeCurrent terminal tab rows =
     (if rows = [] then (tab, rows, oks)
      else
        let currentHour = hour_start clock_now in
        flush_store terminal oks (flush_todo includeCurrent currentHour rows) tab
          (flush_kept includeCurrent currentHour rows))"

subsection \<open>Displaced rows\<close>

definition retiredFlushes :: int where
  "retiredFlushes = 2"

record retiredBatch =
  rb_rows :: "entryRow list"
  rb_flushesLeft :: int

record usageRecorder =
  ur_store :: "usage_table option"
  ur_retired :: "retiredBatch list"

definition Retire :: "usageRecorder \<Rightarrow> entryRow list \<Rightarrow> usageRecorder" where
  "Retire u rows =
     (if ur_store u = None \<or> rows = [] then u
      else u\<lparr>ur_retired := ur_retired u @ [\<lparr> rb_rows = rows, rb_flushesLeft = retiredFlushes \<rparr>]\<rparr>)"

fun flush_batches ::
  "bool list \<Rightarrow> gtime \<Rightarrow> bool \<Rightarrow> usage_table \<Rightarrow> retiredBatch list \<Rightarrow> usage_table \<times> retiredBatch list" where
  "flush_batches oks clock_now final tab [] = (tab, [])"
| "flush_batches oks clock_now final tab (b # bs) =
     (let left = rb_flushesLeft b - 1;
          terminal = (final \<or> left \<le> 0);
          (tab', rows', oks') = flushRows oks clock_now True terminal tab (rb_rows b);
          (tab'', keep) = flush_batches oks' clock_now final tab' bs
      in (tab'', if \<not> terminal then \<lparr> rb_rows = rows', rb_flushesLeft = left \<rparr> # keep else keep))"

definition Flush ::
  "bool list \<Rightarrow> gtime \<Rightarrow> usageRecorder \<Rightarrow> entryRow list \<Rightarrow> bool \<Rightarrow> usageRecorder \<times> entryRow list" where
  "Flush oks clock_now u entries includeCurrentHour =
     (case ur_store u of
        None \<Rightarrow> (u, entries)
      | Some tab \<Rightarrow>
          let (tab1, rows1, oks1) = flushRows oks clock_now includeCurrentHour includeCurrentHour tab entries;
              (tab2, keep) = flush_batches oks1 clock_now includeCurrentHour tab1 (ur_retired u)
          in (u\<lparr>ur_store := Some tab2, ur_retired := keep\<rparr>, rows1))"

subsection \<open>No usage is lost while the row stays in reach\<close>

text \<open>A counter of a bucket: calls, errors, input or output tokens.\<close>

definition counter :: "(hourBucket \<Rightarrow> int) \<Rightarrow> bool" where
  "counter f \<longleftrightarrow> f zero_bucket = 0 \<and> (\<forall>a b. f (bucket_add a b) = f a + f b)"

lemma counters: "counter hb_calls" "counter hb_errors" "counter hb_input" "counter hb_output"
  by (simp_all add: counter_def zero_bucket_def bucket_add_def)

definition in_table :: "(hourBucket \<Rightarrow> int) \<Rightarrow> ('k, hourBucket) gomap \<Rightarrow> int" where
  "in_table f m = sum_list (map (\<lambda>(k, b). f b) m)"

definition in_rows :: "(hourBucket \<Rightarrow> int) \<Rightarrow> entryRow list \<Rightarrow> int" where
  "in_rows f rows = sum_list (map (\<lambda>row. in_table f (er_hourly row)) rows)"

lemma in_table_gput:
  "gmap_ok m \<Longrightarrow> in_table f (gput k v m) = in_table f m + f v - (case gget m k of None \<Rightarrow> 0 | Some b \<Rightarrow> f b)"
proof (induction m)
  case (Cons p m)
  show ?case
  proof (cases "fst p = k")
    case True
    then show ?thesis by (cases p) (simp add: in_table_def)
  next
    case False
    then show ?thesis using Cons by (cases p) (auto simp: in_table_def)
  qed
qed (simp add: in_table_def)

lemma in_table_merge:
  assumes "gmap_ok m" and "counter f"
  shows "in_table f (gput k (bucket_add (ggetz zero_bucket m k) b) m) = in_table f m + f b"
  using assms by (auto simp: in_table_gput counter_def ggetz_def split: option.split)

lemma in_table_add:
  assumes "gmap_ok tab" and "counter f" and "AddModelUsage ok tab n h b = Some tab'"
  shows "in_table f tab' = in_table f tab + f b \<and> gmap_ok tab'"
  using assms by (auto simp: AddModelUsage_def in_table_gput counter_def split: if_splits option.splits)

lemma in_table_filter:
  "in_table f (filter P m) + in_table f (filter (\<lambda>x. \<not> P x) m) = in_table f m"
  by (induction m) (auto simp: in_table_def)

lemma in_rows_update:
  "i < length rows \<Longrightarrow>
     in_rows f (rows[i := row]) = in_rows f rows - in_table f (er_hourly (rows ! i)) + in_table f (er_hourly row)"
  unfolding in_rows_def map_update by (subst sum_list_update_int) simp_all

text \<open>The pending buckets hold exactly what left the rows.\<close>

lemma sum_list_concat: "sum_list (concat xss) = sum_list (map sum_list (xss :: int list list))"
  by (induction xss) simp_all

lemma todo_plus_kept:
  "sum_list (map (\<lambda>t. f (pu_bucket t)) (flush_todo inc cur rows)) + in_rows f (flush_kept inc cur rows) = in_rows f rows"
proof -
  have row: "(\<Sum>x \<leftarrow> xs. f (pu_bucket (case x of (h, b) \<Rightarrow> \<lparr> pu_row = i, pu_hour = h, pu_bucket = b \<rparr>))) =
      in_table f xs" for i xs
    by (induction xs) (auto simp: in_table_def)
  have "sum_list (map (\<lambda>t. f (pu_bucket t)) (flush_todo inc cur rows)) =
      sum_list (map (\<lambda>i. in_table f (filter (\<lambda>(h, b). takes_hour inc cur h) (er_hourly (rows ! i)))) [0..<length rows])"
    unfolding flush_todo_def map_concat sum_list_concat by (simp add: o_def row)
  also have "\<dots> = sum_list (map (\<lambda>row. in_table f (filter (\<lambda>(h, b). takes_hour inc cur h) (er_hourly row))) rows)"
    by (rule arg_cong[where f = sum_list]) (auto intro: nth_equalityI)
  finally have todo: "sum_list (map (\<lambda>t. f (pu_bucket t)) (flush_todo inc cur rows)) = \<dots>" .
  have split: "in_table f (filter (\<lambda>(h, b). takes_hour inc cur h) m) +
      in_table f (filter (\<lambda>(h, b). \<not> takes_hour inc cur h) m) = in_table f m" for m
    using in_table_filter[of f "\<lambda>(h, b). takes_hour inc cur h" m] by (simp add: case_prod_beta')
  have "sum_list (map (\<lambda>row. in_table f (filter (\<lambda>(h, b). takes_hour inc cur h) (er_hourly row))) rs) +
      in_rows f (flush_kept inc cur rs) = in_rows f rs" for rs
    by (induction rs) (use split in \<open>auto simp: in_rows_def flush_kept_def algebra_simps\<close>)
  then show ?thesis using todo by simp
qed

text \<open>Room for every pending bucket to go back.\<close>

definition room_for :: "pending_use list \<Rightarrow> entryRow list \<Rightarrow> bool" where
  "room_for todo rows \<longleftrightarrow>
     (\<forall>t \<in> set todo. pu_row t < length rows \<and> pu_hour t < 2 ^ 63) \<and>
     (\<forall>i < length rows. hours_ok (er_hourly (rows ! i)) \<and>
        length (er_hourly (rows ! i)) + length (filter (\<lambda>t. pu_row t = i) todo) \<le> hourlyBucketCap)"

lemma dropOldestHourly_id: "length m \<le> hourlyBucketCap \<Longrightarrow> snd (dropOldestHourly m) = m"
  by (cases "length m") (simp_all add: dropOldestHourly_def Let_def)

lemma readd_merge:
  assumes "length (er_hourly row) < hourlyBucketCap"
  shows "er_hourly (readd row h b) = gput h (bucket_add (ggetz zero_bucket (er_hourly row) h) b) (er_hourly row)"
proof -
  have "length (gput h v (er_hourly row)) \<le> hourlyBucketCap" for v
    using assms by (simp add: length_gput del: set_map)
  then show ?thesis by (simp add: readd_def Let_def dropOldestHourly_id)
qed

lemma room_for_readd:
  assumes r: "room_for (t # todo) rows"
  shows "room_for todo (rows[pu_row t := readd (rows ! pu_row t) (pu_hour t) (pu_bucket t)])"
    and "length (er_hourly (rows ! pu_row t)) < hourlyBucketCap"
proof -
  let ?i = "pu_row t"
  have i: "?i < length rows" "pu_hour t < 2 ^ 63" using r by (auto simp: room_for_def)
  have "hours_ok (er_hourly (rows ! ?i)) \<and>
      length (er_hourly (rows ! ?i)) + length (filter (\<lambda>u. pu_row u = ?i) (t # todo)) \<le> hourlyBucketCap"
    using r i(1) unfolding room_for_def by blast
  then have ri: "hours_ok (er_hourly (rows ! ?i))"
      "length (er_hourly (rows ! ?i)) + Suc (length (filter (\<lambda>u. pu_row u = ?i) todo)) \<le> hourlyBucketCap"
    by simp_all
  then show lt: "length (er_hourly (rows ! ?i)) < hourlyBucketCap" by simp
  note rd = readd_merge[OF lt, of "pu_hour t" "pu_bucket t"]
  have "hours_ok (er_hourly (readd (rows ! ?i) (pu_hour t) (pu_bucket t)))"
    using rd ri(1) i(2) by simp
  moreover have "length (er_hourly (readd (rows ! ?i) (pu_hour t) (pu_bucket t))) \<le> Suc (length (er_hourly (rows ! ?i)))"
    using rd by (simp add: length_gput)
  ultimately show "room_for todo (rows[?i := readd (rows ! ?i) (pu_hour t) (pu_bucket t)])"
    using r ri i unfolding room_for_def by (auto simp: nth_list_update)
qed

lemma room_for_done:
  assumes r: "room_for (t # todo) rows"
  shows "room_for todo rows"
proof -
  have "hours_ok (er_hourly (rows ! i)) \<and>
      length (er_hourly (rows ! i)) + length (filter (\<lambda>u. pu_row u = i) todo) \<le> hourlyBucketCap"
    if "i < length rows" for i
  proof -
    have "hours_ok (er_hourly (rows ! i)) \<and>
        length (er_hourly (rows ! i)) + length (filter (\<lambda>u. pu_row u = i) (t # todo)) \<le> hourlyBucketCap"
      using r that unfolding room_for_def by blast
    then show ?thesis by (simp split: if_splits)
  qed
  then show ?thesis using r by (simp add: room_for_def)
qed

lemma flush_store_conserves:
  assumes "counter f"
  shows "gmap_ok tab \<Longrightarrow> room_for todo rows \<Longrightarrow>
     flush_store False oks todo tab rows = (tab', rows', oks') \<Longrightarrow>
     in_table f tab' + in_rows f rows' = in_table f tab + in_rows f rows + sum_list (map (\<lambda>t. f (pu_bucket t)) todo)"
proof (induction todo arbitrary: oks tab rows)
  case (Cons t todo)
  let ?ok = "case oks of [] \<Rightarrow> True | b # _ \<Rightarrow> b"
  let ?row = "rows ! pu_row t"
  have i: "pu_row t < length rows" using Cons.prems(2) by (simp add: room_for_def)
  show ?case
  proof (cases "AddModelUsage ?ok tab (er_name ?row) (pu_hour t) (pu_bucket t)")
    case (Some tab1)
    have "flush_store False (tl oks) todo tab1 rows = (tab', rows', oks')" using Cons.prems(3) Some by (simp add: Let_def)
    moreover note in_table_add[OF Cons.prems(1) assms Some]
    ultimately show ?thesis using Cons.IH[of tab1 rows "tl oks"] room_for_done[OF Cons.prems(2)] by simp
  next
    case None
    let ?rows = "rows[pu_row t := readd ?row (pu_hour t) (pu_bucket t)]"
    note rm = room_for_readd[OF Cons.prems(2)]
    have "gmap_ok (er_hourly ?row)" using Cons.prems(2) i by (auto simp: room_for_def hours_ok_def)
    from in_table_merge[OF this assms, of "pu_hour t" "pu_bucket t"]
    have "in_rows f ?rows = in_rows f rows + f (pu_bucket t)"
      using in_rows_update[OF i, of f] readd_merge[OF rm(2)] by simp
    moreover have "flush_store False (tl oks) todo tab ?rows = (tab', rows', oks')"
      using Cons.prems(3) None by (simp add: Let_def)
    ultimately show ?thesis using Cons.IH[of tab ?rows "tl oks"] rm(1) Cons.prems(1) by simp
  qed
qed simp

lemma todo_of_row:
  "i < length rows \<Longrightarrow>
     length (filter (\<lambda>t. pu_row t = i) (flush_todo inc cur rows)) =
     length (filter (\<lambda>(h, b). takes_hour inc cur h) (er_hourly (rows ! i)))"
proof -
  assume i: "i < length rows"
  have g: "filter (\<lambda>t. pu_row t = i) (map (\<lambda>(h, b). \<lparr> pu_row = j, pu_hour = h, pu_bucket = b \<rparr>) xs) =
      (if j = i then map (\<lambda>(h, b). \<lparr> pu_row = j, pu_hour = h, pu_bucket = b \<rparr>) xs else [])" for j xs
    by (induction xs) auto
  have c: "length (concat (map (\<lambda>j. if j = i then F j else []) js)) = (if i \<in> set js then length (F i) else 0)"
    if "distinct js" for js and F :: "nat \<Rightarrow> 'a list"
    using that by (induction js) auto
  show ?thesis
    using i c[of "[0..<length rows]" "\<lambda>j. map (\<lambda>(h, b). \<lparr> pu_row = j, pu_hour = h, pu_bucket = b \<rparr>)
        (filter (\<lambda>(h, b). takes_hour inc cur h) (er_hourly (rows ! j)))"]
    by (simp add: flush_todo_def filter_concat o_def g)
qed

lemma room_for_flush:
  assumes "list_all (\<lambda>row. hourly_ok (er_hourly row)) rows"
  shows "room_for (flush_todo inc cur rows) (flush_kept inc cur rows)"
proof -
  have ok: "hourly_ok (er_hourly (rows ! i))" if "i < length rows" for i
    using assms that by (simp add: list_all_length)
  have "pu_row t < length rows \<and> pu_hour t < 2 ^ 63" if t: "t \<in> set (flush_todo inc cur rows)" for t
  proof -
    obtain i h b where "i < length rows" "(h, b) \<in> set (er_hourly (rows ! i))" "t = \<lparr> pu_row = i, pu_hour = h, pu_bucket = b \<rparr>"
      using t by (auto simp: flush_todo_def)
    then show ?thesis using ok[of i] by (force simp: hourly_ok_def hours_ok_def list_all_iff)
  qed
  moreover have "hours_ok (er_hourly (flush_kept inc cur rows ! i)) \<and>
      length (er_hourly (flush_kept inc cur rows ! i)) + length (filter (\<lambda>t. pu_row t = i) (flush_todo inc cur rows)) \<le> hourlyBucketCap"
    if i: "i < length rows" for i
  proof -
    let ?m = "er_hourly (rows ! i)"
    have "length (filter (\<lambda>(h, b). \<not> takes_hour inc cur h) ?m) + length (filter (\<lambda>(h, b). takes_hour inc cur h) ?m) = length ?m"
      using sum_length_filter_compl[of "\<lambda>(h, b). takes_hour inc cur h" ?m] by (simp add: case_prod_beta')
    then show ?thesis
      using ok[OF i] i by (auto simp: flush_kept_def todo_of_row hourly_ok_def hours_ok_def list_all_iff)
  qed
  ultimately show ?thesis by (simp add: room_for_def flush_kept_def)
qed

text \<open>A flush never loses usage of a row that stays in reach: whichever of its inserts the
  database refuses, the calls, errors and tokens in the table and in the rows together are after
  the pass exactly what they were before it.\<close>

theorem flush_conserves_usage:
  assumes "list_all (\<lambda>row. hourly_ok (er_hourly row)) rows" and "gmap_ok tab"
    and "flushRows oks now inc False tab rows = (tab', rows', oks')"
    and "f = hb_calls \<or> f = hb_errors \<or> f = hb_input \<or> f = hb_output"
  shows "in_table f tab' + in_rows f rows' = in_table f tab + in_rows f rows"
proof -
  have c: "counter f" using assms(4) counters by blast
  show ?thesis
  proof (cases "rows = []")
    case False
    then have "flush_store False oks (flush_todo inc (hour_start now) rows) tab (flush_kept inc (hour_start now) rows) =
        (tab', rows', oks')"
      using assms(3) by (simp add: flushRows_def Let_def)
    from flush_store_conserves[OF c assms(2) room_for_flush[OF assms(1)] this] show ?thesis
      using todo_plus_kept[of f inc "hour_start now" rows] by simp
  qed (use assms(3) in \<open>simp add: flushRows_def\<close>)
qed

definition used_row :: entryRow where
  "used_row = recordChatTokens (recordChatTokens demo_row 0 10 20 0) (2 * hour) 1 2 0"

theorem flush_conserves_usage_witness:
  "in_table hb_calls (fst (flushRows [False] (2 * hour) False False [] [used_row])) +
   in_rows hb_calls (fst (snd (flushRows [False] (2 * hour) False False [] [used_row]))) =
   in_table hb_calls ([] :: usage_table) + in_rows hb_calls [used_row]"
proof -
  have h: "list_all (\<lambda>row. hourly_ok (er_hourly row)) [used_row]" "gmap_ok ([] :: usage_table)" by code_simp+
  obtain t r k where "flushRows [False] (2 * hour) False False [] [used_row] = (t, r, k)" by (metis prod.exhaust)
  from flush_conserves_usage[OF h this, of hb_calls] this show ?thesis by simp
qed

subsection \<open>Displaced rows are flushed and let go\<close>

text \<open>A batch is dropped by its second pass at the latest, so displaced rows do not accumulate.\<close>

lemma flush_batches_left:
  assumes "flush_batches oks now final tab bs = (tab', keep)"
  shows "length keep = length (filter (\<lambda>b. \<not> final \<and> rb_flushesLeft b > 1) bs)"
    and "map rb_flushesLeft keep = map (\<lambda>b. rb_flushesLeft b - 1) (filter (\<lambda>b. \<not> final \<and> rb_flushesLeft b > 1) bs)"
proof -
  have "map rb_flushesLeft keep = map (\<lambda>b. rb_flushesLeft b - 1) (filter (\<lambda>b. \<not> final \<and> rb_flushesLeft b > 1) bs)"
    using assms
  proof (induction bs arbitrary: oks tab tab' keep)
    case (Cons b bs)
    obtain t r k where fr: "flushRows oks now True (final \<or> rb_flushesLeft b - 1 \<le> 0) tab (rb_rows b) = (t, r, k)"
      by (metis prod.exhaust)
    obtain t' kp where fb: "flush_batches k now final t bs = (t', kp)" by (metis prod.exhaust)
    show ?case using Cons.IH[OF fb] Cons.prems fr fb by (auto simp: Let_def)
  qed simp
  then show "map rb_flushesLeft keep = map (\<lambda>b. rb_flushesLeft b - 1) (filter (\<lambda>b. \<not> final \<and> rb_flushesLeft b > 1) bs)"
    and "length keep = length (filter (\<lambda>b. \<not> final \<and> rb_flushesLeft b > 1) bs)"
    by (simp_all) (metis length_map)
qed

end
