(* ===== verification/Model_Reload.thy ===== *)
theory Model_Reload
  imports Model_Usage
begin

section \<open>Building and replacing the entry table\<close>

text \<open>
  How a configuration entry becomes a row, and how a changed configuration replaces the table
  (\<^verbatim>\<open>src/leaf/model/60-reload.go\<close>, with the presets of \<^verbatim>\<open>providers/10-profiles.go\<close>). What a probe of
  the backend answers, the environment, the file's modification time and what the configuration
  reader returns are inputs; the chat client built for a row plays no part in routing and is left
  out.
\<close>

record Entry =
  en_Name :: string
  en_Provider :: string
  en_Model :: string
  en_BaseURL :: string
  en_APIKeyEnv :: string
  en_Kind :: string
  en_Priority :: int
  en_ContextWindow :: int
  en_Concurrency :: int
  en_Tags :: "string list"

record Profile =
  pf_BaseURL :: string
  pf_APIKeyEnv :: string
  pf_DefaultContextWindow :: int

definition preset :: "string \<Rightarrow> string \<Rightarrow> int \<Rightarrow> Profile" where
  "preset url key win = \<lparr> pf_BaseURL = url, pf_APIKeyEnv = key, pf_DefaultContextWindow = win \<rparr>"

definition Profiles :: "(string, Profile) gomap" where
  "Profiles =
     [(''ollama'', preset ''http://localhost:11434/v1'' '''' 0),
      (''llama-cpp'', preset ''http://localhost:8080/v1'' '''' 0),
      (''vllm'', preset ''http://localhost:8000/v1'' '''' 0),
      (''sglang'', preset ''http://localhost:30000/v1'' '''' 0),
      (''openai'', preset ''https://api.openai.com/v1'' ''OPENAI_API_KEY'' 0),
      (''openrouter'', preset ''https://openrouter.ai/api/v1'' ''OPENROUTER_API_KEY'' 0),
      (''anthropic'', preset ''https://api.anthropic.com/v1'' ''ANTHROPIC_API_KEY'' 200000),
      (''rapidocr'', preset '''' '''' 0), (''comfyui'', preset '''' '''' 0), (''custom'', preset '''' '''' 0)]"

record probeResult =
  pr_ContextWindow :: int
  pr_Concurrency :: int
  pr_Source :: string

definition no_probe :: probeResult where
  "no_probe = \<lparr> pr_ContextWindow = 0, pr_Concurrency = 0, pr_Source = [] \<rparr>"

definition priorityMax :: int where
  "priorityMax = 10000"

definition fallbackContextWindow :: int where
  "fallbackContextWindow = 131072"

definition fallbackConcurrency :: int where
  "fallbackConcurrency = 2"

text \<open>A built entry: the row and the facts of it that routing does not read.\<close>

record builtEntry =
  be_row :: entryRow
  be_provider :: string
  be_baseURL :: string
  be_apiKey :: string
  be_contextSource :: string
  be_concurrency :: int
  be_concurrencySource :: string

datatype reload_error = ReloadUnavailable | ReloadRead | ReloadEmpty | BaseURLMissing nat string

definition lowerStrings :: "string list \<Rightarrow> string list" where
  "lowerStrings ss = map to_lower ss"

definition pick_window :: "Entry \<Rightarrow> probeResult \<Rightarrow> Profile option \<Rightarrow> int \<times> string" where
  "pick_window e probe pre =
     (if en_ContextWindow e > 0 then (en_ContextWindow e, ''yaml'')
      else if pr_ContextWindow probe > 0 then (pr_ContextWindow probe, ''probe:'' @ pr_Source probe)
      else case pre of
             Some pf \<Rightarrow> if pf_DefaultContextWindow pf > 0 then (pf_DefaultContextWindow pf, ''profile-default'')
                        else (fallbackContextWindow, ''default'')
           | None \<Rightarrow> (fallbackContextWindow, ''default''))"

definition pick_concurrency :: "Entry \<Rightarrow> probeResult \<Rightarrow> int \<times> string" where
  "pick_concurrency e probe =
     (if en_Concurrency e = 0 then
        if pr_Concurrency probe > 0 then (pr_Concurrency probe, ''probe:'' @ pr_Source probe)
        else (fallbackConcurrency, ''default'')
      else (en_Concurrency e, ''yaml''))"

text \<open>\<open>probe_of\<close> answers \<^verbatim>\<open>providers.Probe\<close>, \<open>getenv\<close> \<^verbatim>\<open>os.Getenv\<close>.\<close>

definition buildEntry ::
  "(string \<Rightarrow> string \<Rightarrow> string \<Rightarrow> string \<Rightarrow> probeResult) \<Rightarrow> (string \<Rightarrow> string) \<Rightarrow> nat \<Rightarrow> Entry \<Rightarrow> bool \<Rightarrow>
     reload_error + builtEntry" where
  "buildEntry probe_of getenv i e allowProbe =
     (let provider = to_lower (trim_space (en_Provider e));
          pre = gget Profiles provider;
          baseURL = (case pre of Some pf \<Rightarrow> if en_BaseURL e = [] then pf_BaseURL pf else en_BaseURL e
                     | None \<Rightarrow> en_BaseURL e);
          keyEnv = (case pre of Some pf \<Rightarrow> if en_APIKeyEnv e = [] then pf_APIKeyEnv pf else en_APIKeyEnv e
                    | None \<Rightarrow> en_APIKeyEnv e)
      in if baseURL = [] then Inl (BaseURLMissing i (en_Name e))
         else
           let apiKey = (if keyEnv \<noteq> [] then getenv keyEnv else []);
               disabled = en_Priority e < minEnabledPriority;
               probe = (if allowProbe \<and> \<not> disabled then probe_of provider baseURL apiKey (en_Model e) else no_probe);
               (ctxWin, ctxSrc) = pick_window e probe pre;
               (concur, concSrc) = pick_concurrency e probe;
               kind0 = to_lower (trim_space (en_Kind e));
               kind = (if kind0 = [] then KindLLM else kind0);
               priority = (if en_Priority e > priorityMax then priorityMax else en_Priority e);
               row = fresh_row (en_Name e) kind (lowerStrings (en_Tags e)) priority ctxWin
                       (if concur > 0 then Some (nat concur) else None)
           in Inr \<lparr> be_row = row, be_provider = provider, be_baseURL = baseURL, be_apiKey = apiKey,
                    be_contextSource = ctxSrc, be_concurrency = concur, be_concurrencySource = concSrc \<rparr>)"

subsection \<open>The reloader\<close>

record configReloader =
  rl_hasFn :: bool
  rl_configPath :: string
  rl_lastCheck :: gtime
  rl_lastMtime :: gtime
  rl_servedMtime :: gtime

text \<open>The modification time of the file at construction, \<open>None\<close> when the stat fails.\<close>

definition NewConfigReloader :: "bool \<Rightarrow> string \<Rightarrow> gtime option \<Rightarrow> configReloader" where
  "NewConfigReloader hasFn path mtime =
     \<lparr> rl_hasFn = hasFn, rl_configPath = path, rl_lastCheck = 0,
       rl_lastMtime = (if path \<noteq> [] then (case mtime of Some t \<Rightarrow> t | None \<Rightarrow> 0) else 0),
       rl_servedMtime = 0 \<rparr>"

definition noteBootConfigServed :: "configReloader \<Rightarrow> configReloader" where
  "noteBootConfigServed r = r\<lparr>rl_servedMtime := rl_lastMtime r\<rparr>"

definition configCheckInterval :: duration where
  "configCheckInterval = 5 * second"

text \<open>The check in front of a pick: whether it starts a reload in the background, which then keeps
  the liveness of the entries.\<close>

definition MaybeReload :: "configReloader \<Rightarrow> gtime \<Rightarrow> gtime option \<Rightarrow> bool \<times> configReloader" where
  "MaybeReload r now mtime =
     (if rl_configPath r = [] \<or> \<not> rl_hasFn r then (False, r)
      else if rl_lastCheck r \<noteq> 0 \<and> now - rl_lastCheck r < configCheckInterval then (False, r)
      else
        let r1 = r\<lparr>rl_lastCheck := now\<rparr> in
        case mtime of
          None \<Rightarrow> (False, r1)
        | Some t \<Rightarrow> if t = rl_lastMtime r1 then (False, r1) else (True, r1\<lparr>rl_lastMtime := t\<rparr>))"

fun build_rows ::
  "(string \<Rightarrow> string \<Rightarrow> string \<Rightarrow> string \<Rightarrow> probeResult) \<Rightarrow> (string \<Rightarrow> string) \<Rightarrow> poolState option \<Rightarrow> nat \<Rightarrow>
     Entry list \<Rightarrow> reload_error + entryRow list" where
  "build_rows probe_of getenv old i [] = Inr []"
| "build_rows probe_of getenv old i (e # es) =
     (case buildEntry probe_of getenv i e True of
        Inl err \<Rightarrow> Inl err
      | Inr b \<Rightarrow>
          let row = (case old of
                       None \<Rightarrow> be_row b
                     | Some st \<Rightarrow> (case byName st (en_Name e) of
                                     None \<Rightarrow> be_row b
                                   | Some j \<Rightarrow> copyLiveness (ps_entries st ! j) (be_row b)))
          in case build_rows probe_of getenv old (Suc i) es of
               Inl err \<Rightarrow> Inl err
             | Inr rows \<Rightarrow> Inr (row # rows))"

text \<open>
  \<open>cfg\<close> is what the configuration reader returns, \<open>mtime\<close> the stat taken before it. The swap, the
  hand-over of the old rows to the usage recorder, the new baseline and the recomputed alerts come
  only after everything was built.
\<close>

definition reload ::
  "(string \<Rightarrow> string \<Rightarrow> string \<Rightarrow> string \<Rightarrow> probeResult) \<Rightarrow> (string \<Rightarrow> string) \<Rightarrow> bool \<Rightarrow> gtime option \<Rightarrow>
     (Entry list \<times> fallbackRule list) option \<Rightarrow> gtime \<Rightarrow> configReloader \<times> multiPool \<times> usageRecorder \<Rightarrow>
     reload_error option \<times> configReloader \<times> multiPool \<times> usageRecorder" where
  "reload probe_of getenv preserveLiveness mtime cfg now s =
     (case s of (r, p, u) \<Rightarrow>
        if \<not> rl_hasFn r then (Some ReloadUnavailable, s)
        else case cfg of
          None \<Rightarrow> (Some ReloadRead, s)
        | Some (entries, fallback) \<Rightarrow>
            if entries = [] then (Some ReloadEmpty, s)
            else
              case build_rows probe_of getenv (if preserveLiveness then Some (mp_state p) else None) 0 entries of
                Inl err \<Rightarrow> (Some err, s)
              | Inr rows \<Rightarrow>
                  let baseline = (if rl_configPath r \<noteq> [] then (case mtime of Some t \<Rightarrow> t | None \<Rightarrow> 0) else 0);
                      u' = Retire u (mp_rows p);
                      r' = (if baseline \<noteq> 0
                            then r\<lparr>rl_lastMtime := baseline, rl_servedMtime := baseline, rl_lastCheck := now\<rparr> else r);
                      p1 = checkPoolLiveness (p\<lparr>mp_state := \<lparr> ps_entries = rows, ps_fallback = fallback \<rparr>\<rparr>) now;
                      p2 = (if hasDeadEntry p1 now then Ensure p1 else p1)
                  in (None, r', p2, u'))"

subsection \<open>What a built row looks like\<close>

lemma pick_window_pos:
  "fst (pick_window e probe pre) > 0"
  "en_ContextWindow e > 0 \<Longrightarrow> fst (pick_window e probe pre) = en_ContextWindow e"
  by (simp_all add: pick_window_def fallbackContextWindow_def split: option.split)

lemma pick_concurrency_sign:
  "fst (pick_concurrency e probe) \<noteq> 0" "fst (pick_concurrency e probe) < 0 \<longleftrightarrow> en_Concurrency e < 0"
  by (simp_all add: pick_concurrency_def fallbackConcurrency_def)

lemma buildEntry_form:
  assumes "buildEntry probe_of getenv i e allowProbe = Inr b"
  shows "\<exists>probe pre. be_row b =
     fresh_row (en_Name e)
       (if to_lower (trim_space (en_Kind e)) = [] then KindLLM else to_lower (trim_space (en_Kind e)))
       (lowerStrings (en_Tags e)) (if en_Priority e > priorityMax then priorityMax else en_Priority e)
       (fst (pick_window e probe pre))
       (if fst (pick_concurrency e probe) > 0 then Some (nat (fst (pick_concurrency e probe))) else None)"
proof -
  let ?provider = "to_lower (trim_space (en_Provider e))"
  let ?pre = "gget Profiles ?provider"
  let ?url = "case ?pre of Some pf \<Rightarrow> if en_BaseURL e = [] then pf_BaseURL pf else en_BaseURL e | None \<Rightarrow> en_BaseURL e"
  let ?key = "case ?pre of Some pf \<Rightarrow> if en_APIKeyEnv e = [] then pf_APIKeyEnv pf else en_APIKeyEnv e | None \<Rightarrow> en_APIKeyEnv e"
  let ?probe = "if allowProbe \<and> \<not> en_Priority e < minEnabledPriority
      then probe_of ?provider ?url (if ?key \<noteq> [] then getenv ?key else []) (en_Model e) else no_probe"
  have "?url \<noteq> []" using assms by (rule contrapos_pn) (simp only: buildEntry_def Let_def if_True sum.simps simp_thms not_False_eq_True)
  then have "be_row b =
     fresh_row (en_Name e)
       (if to_lower (trim_space (en_Kind e)) = [] then KindLLM else to_lower (trim_space (en_Kind e)))
       (lowerStrings (en_Tags e)) (if en_Priority e > priorityMax then priorityMax else en_Priority e)
       (fst (pick_window e ?probe ?pre))
       (if fst (pick_concurrency e ?probe) > 0 then Some (nat (fst (pick_concurrency e ?probe))) else None)"
    using assms unfolding buildEntry_def Let_def case_prod_beta by (simp only: if_False) (auto simp only: sum.inject builtEntry.simps)
  then show ?thesis by blast
qed

text \<open>A row built from the configuration is fit for routing: it starts live with clean counters;
  its kind is never empty and its window is positive; a declared window is taken as it is; a
  priority is capped at ten thousand and otherwise kept, so that the marker of a disabled entry
  survives; and its concurrency is unlimited exactly when a negative one is declared, never zero.\<close>

theorem built_entry_is_routable:
  assumes "buildEntry probe_of getenv i e allowProbe = Inr b"
  shows "let row = be_row b in
     fst (IsEligible row t) \<and> er_kind row \<noteq> [] \<and> er_window row > 0 \<and>
     er_window row = (if en_ContextWindow e > 0 then en_ContextWindow e else er_window row) \<and>
     er_priority row \<le> priorityMax \<and>
     (er_priority row < minEnabledPriority \<longleftrightarrow> en_Priority e < minEnabledPriority) \<and>
     er_sem row \<noteq> Some 0 \<and> (er_sem row = None \<longleftrightarrow> en_Concurrency e < 0) \<and> er_hourly row = []"
proof -
  obtain probe pre where row: "be_row b =
     fresh_row (en_Name e)
       (if to_lower (trim_space (en_Kind e)) = [] then KindLLM else to_lower (trim_space (en_Kind e)))
       (lowerStrings (en_Tags e)) (if en_Priority e > priorityMax then priorityMax else en_Priority e)
       (fst (pick_window e probe pre))
       (if fst (pick_concurrency e probe) > 0 then Some (nat (fst (pick_concurrency e probe))) else None)"
    using buildEntry_form[OF assms] by blast
  have prio: "er_priority (be_row b) = (if en_Priority e > priorityMax then priorityMax else en_Priority e)"
    and win: "er_window (be_row b) = fst (pick_window e probe pre)"
    and kind: "er_kind (be_row b) \<noteq> []"
    and live: "fst (IsEligible (be_row b) t)" "er_hourly (be_row b) = []"
    by (simp_all add: row fresh_row_def IsEligible_def KindLLM_def)
  have sem: "er_sem (be_row b) = (if fst (pick_concurrency e probe) > 0
      then Some (nat (fst (pick_concurrency e probe))) else None)"
    by (simp add: row fresh_row_def)
  have "er_sem (be_row b) \<noteq> Some 0" "er_sem (be_row b) = None \<longleftrightarrow> en_Concurrency e < 0"
    using pick_concurrency_sign[of e probe] by (auto simp: sem)
  moreover have "er_priority (be_row b) \<le> priorityMax"
    "(er_priority (be_row b) < minEnabledPriority) = (en_Priority e < minEnabledPriority)"
    by (auto simp: prio priorityMax_def minEnabledPriority_def)
  ultimately show ?thesis using kind live win pick_window_pos[of e probe pre] by (simp add: Let_def)
qed

definition demo_entry :: Entry where
  "demo_entry = \<lparr> en_Name = ''big'', en_Provider = '' Anthropic'', en_Model = ''m'', en_BaseURL = [], en_APIKeyEnv = [],
     en_Kind = [], en_Priority = 99999, en_ContextWindow = 0, en_Concurrency = 0, en_Tags = [''Smart''] \<rparr>"

theorem built_entry_is_routable_witness:
  "\<exists>b. buildEntry (\<lambda>_ _ _ _. no_probe) (\<lambda>_. []) 0 demo_entry True = Inr b \<and>
       er_priority (be_row b) \<le> priorityMax \<and> er_kind (be_row b) \<noteq> []"
proof -
  have "case buildEntry (\<lambda>_ _ _ _. no_probe) (\<lambda>_. []) 0 demo_entry True of Inl e \<Rightarrow> False | Inr b \<Rightarrow> True"
    by code_simp
  then obtain b where b: "buildEntry (\<lambda>_ _ _ _. no_probe) (\<lambda>_. []) 0 demo_entry True = Inr b"
    by (auto split: sum.splits)
  from built_entry_is_routable[OF b] b show ?thesis by (simp add: Let_def)
qed

subsection \<open>Reloading\<close>

text \<open>A reload that fails changes nothing: the table in service, the queues and latches, the rows
  waiting to be flushed and the watcher's baseline are those from before, so a broken edit leaves
  the pool serving.\<close>

theorem failed_reload_changes_nothing:
  assumes "reload probe_of getenv preserve mtime cfg now s = (Some err, s')"
  shows "s' = s"
  using assms by (auto simp: reload_def Let_def split: prod.splits if_splits option.splits sum.splits)

definition demo_reloader :: configReloader where
  "demo_reloader = NewConfigReloader True ''models.yaml'' (Some 50)"

definition demo_recorder :: usageRecorder where
  "demo_recorder = \<lparr> ur_store = None, ur_retired = [] \<rparr>"

theorem failed_reload_changes_nothing_witness:
  "snd (reload (\<lambda>_ _ _ _. no_probe) (\<lambda>_. []) True (Some 60) (Some ([], [])) 70
      (demo_reloader, demo_pool, demo_recorder)) = (demo_reloader, demo_pool, demo_recorder)"
proof -
  let ?x = "reload (\<lambda>_ _ _ _. no_probe) (\<lambda>_. []) True (Some 60) (Some ([], [])) 70 (demo_reloader, demo_pool, demo_recorder)"
  have "fst ?x = Some ReloadEmpty" by code_simp
  then have "?x = (Some ReloadEmpty, snd ?x)" by (metis prod.collapse)
  from failed_reload_changes_nothing[OF this] show ?thesis .
qed

definition inherit :: "poolState option \<Rightarrow> string \<Rightarrow> entryRow \<Rightarrow> entryRow" where
  "inherit old name row =
     (case old of None \<Rightarrow> row
      | Some st \<Rightarrow> (case byName st name of None \<Rightarrow> row | Some j \<Rightarrow> copyLiveness (ps_entries st ! j) row))"

lemma build_rows_nth:
  "build_rows probe_of getenv old k es = Inr rows \<Longrightarrow>
     length rows = length es \<and>
     (\<forall>i < length es. \<exists>b. buildEntry probe_of getenv (k + i) (es ! i) True = Inr b \<and>
        rows ! i = inherit old (en_Name (es ! i)) (be_row b))"
proof (induction es arbitrary: k rows)
  case (Cons e es)
  obtain b where b: "buildEntry probe_of getenv k e True = Inr b"
    using Cons.prems by (auto split: sum.splits)
  obtain rs where rs: "build_rows probe_of getenv old (Suc k) es = Inr rs"
    using Cons.prems b by (auto simp: Let_def split: sum.splits)
  have rows: "rows = inherit old (en_Name e) (be_row b) # rs"
    using Cons.prems b rs by (simp add: inherit_def Let_def)
  have "\<exists>b. buildEntry probe_of getenv (k + i) ((e # es) ! i) True = Inr b \<and>
      rows ! i = inherit old (en_Name ((e # es) ! i)) (be_row b)" if "i < length (e # es)" for i
    using Cons.IH[OF rs] b rows that by (cases i) auto
  then show ?case using Cons.IH[OF rs] rows by simp
qed simp

lemma reload_rows:
  assumes "reload probe_of getenv preserve mtime (Some (entries, fb)) now (r, p, u) = (None, r', p', u')"
  shows "build_rows probe_of getenv (if preserve then Some (mp_state p) else None) 0 entries = Inr (mp_rows p') \<and>
         ps_fallback (mp_state p') = fb \<and> u' = Retire u (mp_rows p)"
proof -
  let ?b = "build_rows probe_of getenv (if preserve then Some (mp_state p) else None) 0 entries"
  obtain rows where rows: "?b = Inr rows" and c: "rl_hasFn r" "entries \<noteq> []"
    using assms by (cases ?b) (auto simp: reload_def split: if_splits)
  have st: "mp_state (checkPoolLiveness q now) = mp_state q" "mp_state (Ensure q) = mp_state q" for q
    by (simp_all add: checkPoolLiveness_def Ensure_def Let_def case_prod_beta)
  let ?p1 = "checkPoolLiveness (p\<lparr>mp_state := \<lparr> ps_entries = rows, ps_fallback = fb \<rparr>\<rparr>) now"
  have "p' = (if hasDeadEntry ?p1 now then Ensure ?p1 else ?p1)" "u' = Retire u (mp_rows p)"
    using assms rows c by (simp_all add: reload_def Let_def)
  then show ?thesis using rows st by simp
qed

lemma built_row_fresh:
  assumes "buildEntry probe_of getenv i e x = Inr b"
  shows "er_paused (be_row b) = False \<and> er_tentative (be_row b) = False \<and> er_deadUntil (be_row b) = 0 \<and>
         er_inFlight (be_row b) = 0 \<and> er_held (be_row b) = 0 \<and> er_name (be_row b) = en_Name e"
  using buildEntry_form[OF assms] by (auto simp: fresh_row_def)

text \<open>A reload after a change of the file does not touch liveness: an entry that keeps its name is
  eligible after it at exactly the instants it was before, stays paused or not, and keeps its
  count of failures and its backoff; only its slots and in-flight count start afresh. The
  operator's reload brings every entry back live. Either way the displaced rows are handed to
  the usage recorder.\<close>

theorem reload_liveness:
  assumes "reload probe_of getenv preserve mtime (Some (entries, fb)) now (r, p, u) = (None, r', p', u')"
    and "i < length entries" and "byName (mp_state p) (en_Name (entries ! i)) = Some j"
  shows "let new = mp_rows p' ! i; old = mp_rows p ! j in
     er_name new = en_Name (entries ! i) \<and> er_inFlight new = 0 \<and> er_held new = 0 \<and>
     (if preserve
      then fst (IsEligible new t) = fst (IsEligible old t) \<and> er_paused new = er_paused old \<and>
           er_consecutiveFails new = er_consecutiveFails old \<and>
           er_consecutiveDeadEvents new = er_consecutiveDeadEvents old
      else fst (IsEligible new t)) \<and>
     u' = Retire u (mp_rows p)"
proof -
  note rr = reload_rows[OF assms(1)]
  obtain b where b: "buildEntry probe_of getenv (0 + i) (entries ! i) True = Inr b"
    and row: "mp_rows p' ! i = inherit (if preserve then Some (mp_state p) else None) (en_Name (entries ! i)) (be_row b)"
    using build_rows_nth[OF conjunct1[OF rr]] assms(2) by blast
  note f = built_row_fresh[OF b]
  show ?thesis
  proof (cases preserve)
    case True
    then have "mp_rows p' ! i = copyLiveness (mp_rows p ! j) (be_row b)"
      using row assms(3) by (simp add: inherit_def)
    then show ?thesis using f rr True by (simp add: Let_def copyLiveness_def IsEligible_def)
  next
    case False
    then have "mp_rows p' ! i = be_row b" using row by (simp add: inherit_def)
    then show ?thesis using f rr False by (simp add: Let_def IsEligible_def)
  qed
qed

definition reload_demo :: "reload_error option \<times> configReloader \<times> multiPool \<times> usageRecorder" where
  "reload_demo = reload (\<lambda>_ _ _ _. no_probe) (\<lambda>_. []) True (Some 60) (Some ([demo_entry\<lparr>en_Name := ''a''\<rparr>], [])) 70
      (demo_reloader, paused_pool, demo_recorder)"

theorem reload_liveness_witness:
  "er_paused (mp_rows (fst (snd (snd reload_demo))) ! 0) = er_paused (mp_rows paused_pool ! 0)"
proof -
  have "fst reload_demo = None" "byName (mp_state paused_pool) (en_Name ([demo_entry\<lparr>en_Name := ''a''\<rparr>] ! 0)) = Some 0"
    by code_simp+
  moreover obtain x r' p' u' where e: "reload_demo = (x, r', p', u')" by (metis prod.exhaust)
  ultimately show ?thesis
    using reload_liveness[of "\<lambda>_ _ _ _. no_probe" "\<lambda>_. []" True "Some 60" "[demo_entry\<lparr>en_Name := ''a''\<rparr>]" "[]" 70
        demo_reloader paused_pool demo_recorder r' p' u' 0 0]
    by (simp add: Let_def reload_demo_def)
qed

text \<open>A changed configuration is read once: after a check started a reload, no further check
  starts another until the file changes again, whether the reload succeeded or not, so a broken
  file is reported once and not at every request.\<close>

theorem one_reload_per_change:
  assumes "MaybeReload r now (Some t) = (True, r1)"
  shows "rl_lastMtime r1 = t \<and> \<not> fst (MaybeReload r1 now' (Some t)) \<and>
         fst (MaybeReload r1 now' (Some t')) = (t' \<noteq> t \<and> (now = 0 \<or> \<not> now' - now < configCheckInterval))"
  using assms by (auto simp: MaybeReload_def Let_def split: if_splits)

theorem one_reload_per_change_witness:
  "\<not> fst (MaybeReload (snd (MaybeReload demo_reloader 100 (Some 60))) (100 + 9 * second) (Some 60))"
proof -
  have "fst (MaybeReload demo_reloader 100 (Some 60))" by code_simp
  then have "MaybeReload demo_reloader 100 (Some 60) = (True, snd (MaybeReload demo_reloader 100 (Some 60)))"
    by (metis prod.collapse)
  from one_reload_per_change[OF this] show ?thesis by blast
qed

end
