(* ===== verification/Trunk_Registry.thy ===== *)
theory Trunk_Registry
  imports Prelude
begin

section \<open>The capability registry (trunk/10-registry.go)\<close>

text \<open>
  The registry maps a capability interface type to its single implementation. A Go type
  (\<^verbatim>\<open>reflect.Type\<close>) is its name and kind, an implementation is what \<^verbatim>\<open>reflect.ValueOf\<close> tells
  of it and an identity. A panic is an error value. The interface other components rely on
  is the locale \<open>capability_store\<close>, which the registry interprets.
\<close>

datatype rkind = RPtr | RInterface | RFunc | RMap | RSlice | RChan | ROther

record captype =
  ct_name :: string
  ct_kind :: rkind

record impl =
  im_valid :: bool
  im_kind :: rkind
  im_nil :: bool
  im_id :: nat

datatype trunk_panic =
    NotInterface captype
  | NilImplementation captype
  | AlreadyRegistered captype
  | NoImplementation captype

record registry =
  caps :: "(captype, impl) gomap"

definition NewRegistry :: registry where
  "NewRegistry = \<lparr>caps = []\<rparr>"

definition isNil :: "impl \<Rightarrow> bool" where
  "isNil rv =
     (if \<not> im_valid rv then True
      else case im_kind rv of
             RPtr \<Rightarrow> im_nil rv
           | RInterface \<Rightarrow> im_nil rv
           | RFunc \<Rightarrow> im_nil rv
           | RMap \<Rightarrow> im_nil rv
           | RSlice \<Rightarrow> im_nil rv
           | RChan \<Rightarrow> im_nil rv
           | ROther \<Rightarrow> False)"

definition Provide :: "registry \<Rightarrow> captype \<Rightarrow> impl \<Rightarrow> trunk_panic + registry" where
  "Provide r k impl =
     (if ct_kind k \<noteq> RInterface then Inl (NotInterface k)
      else if isNil impl then Inl (NilImplementation k)
      else if ghas (caps r) k then Inl (AlreadyRegistered k)
      else Inr (r\<lparr>caps := gput k impl (caps r)\<rparr>))"

definition has :: "registry \<Rightarrow> captype \<Rightarrow> bool" where
  "has r t = ghas (caps r) t"

definition TryRequire :: "registry \<Rightarrow> captype \<Rightarrow> impl option" where
  "TryRequire r k = gget (caps r) k"

definition Require :: "registry \<Rightarrow> captype \<Rightarrow> trunk_panic + impl" where
  "Require r k = (case TryRequire r k of None \<Rightarrow> Inl (NoImplementation k) | Some v \<Rightarrow> Inr v)"

text \<open>A run of \<^verbatim>\<open>Provide\<close> calls, stopped by the first panic.\<close>

fun provide_seq :: "('s \<Rightarrow> 'k \<Rightarrow> 'v \<Rightarrow> 'e + 's) \<Rightarrow> 's \<Rightarrow> ('k \<times> 'v) list \<Rightarrow> 'e + 's" where
  "provide_seq pv s [] = Inr s"
| "provide_seq pv s ((k, v) # kvs) =
     (case pv s k v of Inl e \<Rightarrow> Inl e | Inr s' \<Rightarrow> provide_seq pv s' kvs)"

subsection \<open>The contract of a single-assignment store\<close>

locale capability_store =
  fixes new_store :: 's
    and lookup :: "'s \<Rightarrow> 'k \<Rightarrow> 'v option"
    and provide :: "'s \<Rightarrow> 'k \<Rightarrow> 'v \<Rightarrow> 'e + 's"
  assumes lookup_new: "lookup new_store k = None"
    and provide_fresh: "provide s k v = Inr s' \<Longrightarrow> lookup s k = None"
    and provide_lookup: "provide s k v = Inr s' \<Longrightarrow> lookup s' = (lookup s)(k \<mapsto> v)"
begin

lemma seq_keeps:
  "provide_seq provide s kvs = Inr s' \<Longrightarrow> lookup s k = Some w \<Longrightarrow> lookup s' k = Some w"
proof (induction kvs arbitrary: s)
  case Nil
  then show ?case by simp
next
  case (Cons kv kvs)
  obtain j v where kv: "kv = (j, v)" by (cases kv)
  with Cons.prems(1) obtain t where t: "provide s j v = Inr t" "provide_seq provide t kvs = Inr s'"
    by (auto split: sum.splits)
  from provide_fresh[OF t(1)] Cons.prems(2) have "j \<noteq> k" by auto
  with provide_lookup[OF t(1)] Cons.prems(2) have "lookup t k = Some w" by simp
  with Cons.IH[OF t(2)] show ?case by simp
qed

lemma seq_fresh:
  "provide_seq provide s kvs = Inr s' \<Longrightarrow> (k, v) \<in> set kvs \<Longrightarrow> lookup s k = None"
proof (induction kvs arbitrary: s)
  case Nil
  then show ?case by simp
next
  case (Cons kv kvs)
  obtain j u where kv: "kv = (j, u)" by (cases kv)
  with Cons.prems(1) obtain t where t: "provide s j u = Inr t" "provide_seq provide t kvs = Inr s'"
    by (auto split: sum.splits)
  show ?case
  proof (cases "(k, v) = kv")
    case True
    with kv provide_fresh[OF t(1)] show ?thesis by simp
  next
    case False
    with Cons.prems(2) have "lookup t k = None" using Cons.IH[OF t(2)] by auto
    with provide_lookup[OF t(1)] show ?thesis by (auto split: if_splits)
  qed
qed

lemma seq_lookup:
  "provide_seq provide s kvs = Inr s' \<Longrightarrow> (k, v) \<in> set kvs \<Longrightarrow> lookup s' k = Some v"
proof (induction kvs arbitrary: s)
  case Nil
  then show ?case by simp
next
  case (Cons kv kvs)
  obtain j u where kv: "kv = (j, u)" by (cases kv)
  with Cons.prems(1) obtain t where t: "provide s j u = Inr t" "provide_seq provide t kvs = Inr s'"
    by (auto split: sum.splits)
  show ?case
  proof (cases "(k, v) = kv")
    case True
    with kv provide_lookup[OF t(1)] have "lookup t k = Some v" by simp
    with seq_keeps[OF t(2)] show ?thesis by simp
  next
    case False
    with Cons.prems(2) show ?thesis using Cons.IH[OF t(2)] by simp
  qed
qed

lemma seq_distinct: "provide_seq provide s kvs = Inr s' \<Longrightarrow> distinct (map fst kvs)"
proof (induction kvs arbitrary: s)
  case Nil
  then show ?case by simp
next
  case (Cons kv kvs)
  obtain j u where kv: "kv = (j, u)" by (cases kv)
  with Cons.prems(1) obtain t where t: "provide s j u = Inr t" "provide_seq provide t kvs = Inr s'"
    by (auto split: sum.splits)
  have "j \<notin> set (map fst kvs)"
  proof
    assume "j \<in> set (map fst kvs)"
    then obtain v where "(j, v) \<in> set kvs" by auto
    from seq_fresh[OF t(2) this] provide_lookup[OF t(1)] show False by simp
  qed
  with kv Cons.IH[OF t(2)] show ?case by simp
qed

lemma seq_only: "provide_seq provide s kvs = Inr s' \<Longrightarrow> lookup s' k = Some w \<Longrightarrow>
    lookup s k = Some w \<or> (k, w) \<in> set kvs"
proof (induction kvs arbitrary: s)
  case Nil
  then show ?case by simp
next
  case (Cons kv kvs)
  obtain j u where kv: "kv = (j, u)" by (cases kv)
  with Cons.prems(1) obtain t where t: "provide s j u = Inr t" "provide_seq provide t kvs = Inr s'"
    by (auto split: sum.splits)
  from Cons.IH[OF t(2) Cons.prems(2)] provide_lookup[OF t(1)] kv show ?case
    by (auto split: if_splits)
qed

end

interpretation reg: capability_store NewRegistry TryRequire Provide
  by unfold_locales
    (auto simp: NewRegistry_def TryRequire_def Provide_def ghas_def fun_eq_iff split: if_splits)

subsection \<open>Facts the lifecycle uses\<close>

lemma has_TryRequire: "has r t \<longleftrightarrow> TryRequire r t \<noteq> None"
  by (simp add: has_def TryRequire_def ghas_def)

lemma has_NewRegistry [simp]: "\<not> has NewRegistry t"
  by (simp add: has_TryRequire reg.lookup_new)

lemma Provide_ok_iff:
  "(\<exists>r'. Provide r k v = Inr r') \<longleftrightarrow> ct_kind k = RInterface \<and> \<not> isNil v \<and> \<not> has r k"
  by (auto simp: Provide_def has_def)

lemma Provide_has: "Provide r k v = Inr r' \<Longrightarrow> has r' t \<longleftrightarrow> t = k \<or> has r t"
  using reg.provide_lookup[of r k v r'] by (auto simp: has_TryRequire)

subsection \<open>Single assignment\<close>

text \<open>
  A sequence of \<^verbatim>\<open>Provide\<close> calls on a fresh registry that does not panic provided every
  capability at most once, each under an interface type and with a non-nil implementation; afterwards
  \<^verbatim>\<open>TryRequire\<close> finds exactly the implementations provided, and providing any of those
  capabilities once more panics.
\<close>

theorem registry_single_assignment:
  assumes "provide_seq Provide NewRegistry kvs = Inr r"
  shows "distinct (map fst kvs)
    \<and> (\<forall>k v. TryRequire r k = Some v \<longleftrightarrow> (k, v) \<in> set kvs)
    \<and> (\<forall>(k, v) \<in> set kvs. ct_kind k = RInterface \<and> \<not> isNil v \<and> (\<exists>e. Provide r k v' = Inl e))"
proof -
  have kinds: "ct_kind k = RInterface \<and> \<not> isNil v"
    if "provide_seq Provide s kvs = Inr s'" "(k, v) \<in> set kvs" for s s' kvs k v
    using that
  proof (induction kvs arbitrary: s)
    case (Cons kv kvs)
    then show ?case by (cases kv) (auto simp: Provide_def split: sum.splits if_splits)
  qed simp
  have find: "TryRequire r k = Some v \<longleftrightarrow> (k, v) \<in> set kvs" for k v
    using reg.seq_lookup[OF assms, of k v] reg.seq_only[OF assms, of k v] reg.lookup_new[of k] by auto
  have "\<exists>e. Provide r k v' = Inl e" if "(k, v) \<in> set kvs" for k v
    using find[of k v] that Provide_ok_iff[of r k v'] by (cases "Provide r k v'") (auto simp: has_TryRequire)
  with kinds[OF assms] find reg.seq_distinct[OF assms] show ?thesis by blast
qed

theorem registry_single_assignment_witness:
  "let c = \<lparr>ct_name = ''TokenMinter'', ct_kind = RInterface\<rparr>;
       v = \<lparr>im_valid = True, im_kind = RPtr, im_nil = False, im_id = 7\<rparr>;
       r = \<lparr>caps = [(c, v)]\<rparr>
   in TryRequire r c = Some v \<and> (\<exists>e. Provide r c v = Inl e)"
proof -
  let ?c = "\<lparr>ct_name = ''TokenMinter'', ct_kind = RInterface\<rparr>"
  let ?v = "\<lparr>im_valid = True, im_kind = RPtr, im_nil = False, im_id = 7\<rparr>"
  have "provide_seq Provide NewRegistry [(?c, ?v)] = Inr \<lparr>caps = [(?c, ?v)]\<rparr>"
    by (simp add: Provide_def NewRegistry_def isNil_def ghas_def)
  from registry_single_assignment[OF this, of ?v] show ?thesis by (simp add: Let_def)
qed

end
