(* ===== verification/Trunk_Topo.thy ===== *)
theory Trunk_Topo
  imports Trunk_Registry Housekeeper
begin

section \<open>Ordering the modules (trunk/20-lifecycle.go, topoOrder)\<close>

text \<open>
  A module is what the sequencer reads of it: its declarations and what its \<^verbatim>\<open>Start\<close> does when it
  runs, which is its own code and so a field of the record: the capabilities it registers, the
  housekeeping tasks it registers and the error it returns, given the registry it finds.

  \<^verbatim>\<open>topoOrder\<close> is Kahn's algorithm over module indices. The loops of the source are recursive
  functions in the order the source has them; \<open>kahn\<close> returns \<open>None\<close> where an index
  is out of range (a panic in Go), which the theorems exclude.
\<close>

record module =
  m_name :: string
  m_provides :: "captype list"
  m_needs :: "captype list"
  m_optional :: bool
  m_start :: "registry \<Rightarrow> (captype \<times> impl) list \<times> task list \<times> string option"
  m_stop :: "string option"

datatype topo_error =
    DupProvider captype string string
  | MissingProvider string captype
  | SelfDependency string captype
  | DependencyCycle "string list"
  | IndexPanic

text \<open>The map from a capability to the index of the module that provides it.\<close>

fun provider_caps :: "module list \<Rightarrow> nat \<Rightarrow> captype list \<Rightarrow> (captype, nat) gomap \<Rightarrow>
    topo_error + (captype, nat) gomap" where
  "provider_caps mods i [] pm = Inr pm"
| "provider_caps mods i (c # cs) pm =
     (case gget pm c of
        Some prev \<Rightarrow> Inl (DupProvider c (m_name (mods ! prev)) (m_name (mods ! i)))
      | None \<Rightarrow> provider_caps mods i cs (gput c i pm))"

fun provider_of :: "module list \<Rightarrow> nat \<Rightarrow> module list \<Rightarrow> (captype, nat) gomap \<Rightarrow>
    topo_error + (captype, nat) gomap" where
  "provider_of mods i [] pm = Inr pm"
| "provider_of mods i (m # ms) pm =
     (case provider_caps mods i (m_provides m) pm of
        Inl e \<Rightarrow> Inl e
      | Inr pm' \<Rightarrow> provider_of mods (Suc i) ms pm')"

text \<open>The edges of one module, then of all modules: in-degrees and dependents.\<close>

type_synonym graph = "int list \<times> nat list list"

fun need_edges :: "module list \<Rightarrow> (captype, nat) gomap \<Rightarrow> nat \<Rightarrow> captype list \<Rightarrow> nat list \<Rightarrow> graph \<Rightarrow>
    topo_error + graph" where
  "need_edges mods pm i [] seen g = Inr g"
| "need_edges mods pm i (need # ns) seen (indeg, deps) =
     (case gget pm need of
        None \<Rightarrow> Inl (MissingProvider (m_name (mods ! i)) need)
      | Some p \<Rightarrow>
          if p = i then Inl (SelfDependency (m_name (mods ! i)) need)
          else if p \<in> set seen then need_edges mods pm i ns seen (indeg, deps)
          else need_edges mods pm i ns (p # seen)
                 (indeg[i := indeg ! i + 1], deps[p := deps ! p @ [i]]))"

fun graph_edges :: "module list \<Rightarrow> (captype, nat) gomap \<Rightarrow> nat \<Rightarrow> module list \<Rightarrow> graph \<Rightarrow>
    topo_error + graph" where
  "graph_edges mods pm i [] g = Inr g"
| "graph_edges mods pm i (m # ms) g =
     (case need_edges mods pm i (m_needs m) [] g of
        Inl e \<Rightarrow> Inl e
      | Inr g' \<Rightarrow> graph_edges mods pm (Suc i) ms g')"

definition topo_graph :: "module list \<Rightarrow> topo_error + graph" where
  "topo_graph mods =
     (case provider_of mods 0 mods [] of
        Inl e \<Rightarrow> Inl e
      | Inr pm \<Rightarrow> graph_edges mods pm 0 mods
                   (replicate (length mods) 0, replicate (length mods) []))"

text \<open>The work list: \<open>relax\<close> visits the dependents of the module just ordered.\<close>

fun relax :: "nat list \<Rightarrow> int list \<Rightarrow> nat list \<Rightarrow> (int list \<times> nat list) option" where
  "relax [] indeg q = Some (indeg, q)"
| "relax (d # ds) indeg q =
     (if d < length indeg then
        (let indeg' = indeg[d := indeg ! d - 1]
         in relax ds indeg' (if indeg' ! d = 0 then q @ [d] else q))
      else None)"

definition pot :: "int list \<Rightarrow> nat" where
  "pot xs = sum_list (map nat xs)"

lemma pot_dec:
  "d < length xs \<Longrightarrow> pot xs = pot (xs[d := xs ! d - 1]) + (if xs ! d \<ge> 1 then 1 else 0)"
proof (induction xs arbitrary: d)
  case (Cons x xs)
  show ?case
  proof (cases d)
    case 0
    then show ?thesis by (simp add: pot_def nat_diff_distrib)
  next
    case (Suc k)
    with Cons show ?thesis by (simp add: pot_def)
  qed
qed simp

lemma relax_pot: "relax ds indeg q = Some (indeg', q') \<Longrightarrow> length q' + pot indeg' \<le> length q + pot indeg"
proof (induction ds indeg q rule: relax.induct)
  case (1 indeg q)
  then show ?case by simp
next
  case (2 d ds indeg q)
  from "2.prems" have d: "d < length indeg" by (auto split: if_splits)
  let ?i = "indeg[d := indeg ! d - 1]"
  have r: "relax ds ?i (if ?i ! d = 0 then q @ [d] else q) = Some (indeg', q')"
    using "2.prems" d by (simp add: Let_def)
  from "2.IH"[OF d refl r] pot_dec[OF d] d show ?case
    by (auto split: if_splits)
qed

function kahn :: "nat list list \<Rightarrow> nat list \<Rightarrow> int list \<Rightarrow> nat list \<Rightarrow> (nat list \<times> int list) option" where
  "kahn deps [] indeg order = Some (order, indeg)"
| "kahn deps (i # q) indeg order =
     (if i < length deps then
        (case relax (deps ! i) indeg q of
           None \<Rightarrow> None
         | Some (indeg', q') \<Rightarrow> kahn deps q' indeg' (order @ [i]))
      else None)"
  by pat_completeness auto
termination
  by (relation "measure (\<lambda>(deps, q, indeg, order). length q + pot indeg)")
    (auto dest: relax_pot)

definition topo_indices :: "module list \<Rightarrow> topo_error + nat list" where
  "topo_indices mods =
     (case topo_graph mods of
        Inl e \<Rightarrow> Inl e
      | Inr (indeg, deps) \<Rightarrow>
          (let n = length mods in
           case kahn deps (filter (\<lambda>i. indeg ! i = 0) [0..<n]) indeg [] of
             None \<Rightarrow> Inl IndexPanic
           | Some (order, indeg') \<Rightarrow>
               if length order \<noteq> n
               then Inl (DependencyCycle (map (\<lambda>i. m_name (mods ! i))
                      (filter (\<lambda>i. indeg' ! i > 0) [0..<n])))
               else Inr order))"

definition topoOrder :: "module list \<Rightarrow> topo_error + module list" where
  "topoOrder mods =
     (case topo_indices mods of
        Inl e \<Rightarrow> Inl e
      | Inr order \<Rightarrow> Inr (map (\<lambda>i. mods ! i) order))"

subsection \<open>The provider map\<close>

lemma provider_caps_Inr:
  "provider_caps mods i cs pm = Inr pm' \<Longrightarrow>
     distinct cs \<and> (\<forall>c \<in> set cs. gget pm c = None)
     \<and> gget pm' = (\<lambda>c. if c \<in> set cs then Some i else gget pm c)"
  by (induction mods i cs pm rule: provider_caps.induct)
    (auto split: option.splits if_splits simp: fun_eq_iff)

lemma provider_caps_Inl:
  "provider_caps mods i cs pm = Inl e \<Longrightarrow> \<not> distinct cs \<or> (\<exists>c \<in> set cs. gget pm c \<noteq> None)"
  by (induction mods i cs pm rule: provider_caps.induct)
    (auto split: option.splits if_splits)

lemma provider_of_Inr:
  "provider_of mods i ms pm = Inr pm' \<Longrightarrow>
     distinct (concat (map m_provides ms))
     \<and> (\<forall>c \<in> set (concat (map m_provides ms)). gget pm c = None)
     \<and> (\<forall>c p. gget pm' c = Some p \<longleftrightarrow>
          gget pm c = Some p \<or> (\<exists>k < length ms. p = i + k \<and> c \<in> set (m_provides (ms ! k))))"
proof (induction mods i ms pm rule: provider_of.induct)
  case (1 mods i pm)
  then show ?case by simp
next
  case (2 mods i m ms pm)
  then obtain pm1 where c: "provider_caps mods i (m_provides m) pm = Inr pm1"
    and r: "provider_of mods (Suc i) ms pm1 = Inr pm'" by (auto split: sum.splits)
  note C = provider_caps_Inr[OF c] and R = "2.IH"[OF c r]
  have eq: "gget pm' c = Some p \<longleftrightarrow>
      gget pm c = Some p \<or> (\<exists>k < length (m # ms). p = i + k \<and> c \<in> set (m_provides ((m # ms) ! k)))"
    for c p
  proof -
    have "(\<exists>k < length (m # ms). p = i + k \<and> c \<in> set (m_provides ((m # ms) ! k)))
        \<longleftrightarrow> p = i \<and> c \<in> set (m_provides m)
          \<or> (\<exists>k < length ms. p = Suc i + k \<and> c \<in> set (m_provides (ms ! k)))"
      by (auto simp: less_Suc_eq_0_disj)
    moreover have "gget pm c = Some p \<Longrightarrow> c \<notin> set (m_provides m)" using C by auto
    ultimately show ?thesis using R C by (auto split: if_splits)
  qed
  have "distinct (concat (map m_provides (m # ms)))"
    using R C by (auto split: if_splits)
  moreover have "\<forall>c \<in> set (concat (map m_provides (m # ms))). gget pm c = None"
    using R C by (auto split: if_splits)
  ultimately show ?case using eq by blast
qed

lemma provider_of_Inl:
  "provider_of mods i ms pm = Inl e \<Longrightarrow>
     \<not> distinct (concat (map m_provides ms)) \<or> (\<exists>c \<in> set (concat (map m_provides ms)). gget pm c \<noteq> None)"
proof (induction mods i ms pm rule: provider_of.induct)
  case (1 mods i pm)
  then show ?case by simp
next
  case (2 mods i m ms pm)
  show ?case
  proof (cases "provider_caps mods i (m_provides m) pm")
    case (Inl e')
    with provider_caps_Inl[OF this] show ?thesis by auto
  next
    case (Inr pm1)
    with "2.prems" have "provider_of mods (Suc i) ms pm1 = Inl e" by simp
    from "2.IH"[OF Inr this] provider_caps_Inr[OF Inr] show ?thesis
      by (auto split: if_splits)
  qed
qed

subsection \<open>The dependency graph\<close>

definition prov :: "(captype, nat) gomap \<Rightarrow> captype list \<Rightarrow> nat set" where
  "prov pm ns = {p. \<exists>need \<in> set ns. gget pm need = Some p}"

lemma prov_Nil [simp]: "prov pm [] = {}"
  by (simp add: prov_def)

lemma prov_Cons: "prov pm (c # ns) = (case gget pm c of None \<Rightarrow> {} | Some p \<Rightarrow> {p}) \<union> prov pm ns"
  by (auto simp: prov_def split: option.splits)

lemma finite_prov [simp]: "finite (prov pm ns)"
  by (induction ns) (auto simp: prov_Cons split: option.splits)

lemma need_edges_Inr:
  assumes "need_edges mods pm i ns seen (indeg, deps) = Inr (indeg', deps')"
    and "i < length indeg" and "\<forall>c p. gget pm c = Some p \<longrightarrow> p < length deps"
  shows "(\<forall>need \<in> set ns. \<exists>p. gget pm need = Some p \<and> p \<noteq> i)
    \<and> indeg' = indeg[i := indeg ! i + int (card (prov pm ns - set seen))]
    \<and> length deps' = length deps
    \<and> (\<forall>p < length deps. deps' ! p = deps ! p @ (if p \<in> prov pm ns - set seen then [i] else []))"
  using assms
proof (induction mods pm i ns seen "(indeg, deps)" arbitrary: indeg deps rule: need_edges.induct)
  case (1 mods pm i seen)
  then show ?case by simp
next
  case (2 mods pm i need ns seen indeg deps)
  from "2.prems"(1) obtain p where p: "gget pm need = Some p" and pi: "p \<noteq> i"
    by (auto split: option.splits if_splits)
  show ?case
  proof (cases "p \<in> set seen")
    case True
    with "2.prems" p pi have "need_edges mods pm i ns seen (indeg, deps) = Inr (indeg', deps')" by simp
    from "2.hyps"(1)[OF p pi True this "2.prems"(2,3)] p pi True show ?thesis
      by (auto simp: prov_Cons)
  next
    case False
    let ?g = "(indeg[i := indeg ! i + 1], deps[p := deps ! p @ [i]])"
    from "2.prems" p pi False have r: "need_edges mods pm i ns (p # seen) ?g = Inr (indeg', deps')" by simp
    from "2.prems"(3) p have pl: "p < length deps" by blast
    have IH: "(\<forall>need \<in> set ns. \<exists>p. gget pm need = Some p \<and> p \<noteq> i)
      \<and> indeg' = (indeg[i := indeg ! i + 1])[i := (indeg[i := indeg ! i + 1]) ! i
            + int (card (prov pm ns - set (p # seen)))]
      \<and> length deps' = length (deps[p := deps ! p @ [i]])
      \<and> (\<forall>q < length (deps[p := deps ! p @ [i]]). deps' ! q = deps[p := deps ! p @ [i]] ! q @
            (if q \<in> prov pm ns - set (p # seen) then [i] else []))"
      using "2.hyps"(2)[OF p pi False r] "2.prems"(2,3) by simp
    have split: "prov pm (need # ns) - set seen = insert p (prov pm ns - set (p # seen))"
      using p False by (auto simp: prov_Cons)
    have "card (prov pm (need # ns) - set seen) = Suc (card (prov pm ns - set (p # seen)))"
      by (subst split, rule card_insert_disjoint) auto
    with IH p pi pl "2.prems"(2) split show ?thesis
      by (auto simp: nth_list_update algebra_simps)
  qed
qed

lemma need_edges_Inl:
  "need_edges mods pm i ns seen g = Inl e \<Longrightarrow> \<exists>need \<in> set ns. gget pm need = None \<or> gget pm need = Some i"
  by (induction mods pm i ns seen g rule: need_edges.induct)
    (auto split: option.splits if_splits)

lemma graph_edges_Inr:
  assumes "graph_edges mods pm i ms (indeg, deps) = Inr (indeg', deps')"
    and "i + length ms \<le> length indeg" and "\<forall>c p. gget pm c = Some p \<longrightarrow> p < length deps"
  shows "(\<forall>k < length ms. \<forall>need \<in> set (m_needs (ms ! k)). \<exists>p. gget pm need = Some p \<and> p \<noteq> i + k)
    \<and> length indeg' = length indeg \<and> length deps' = length deps
    \<and> (\<forall>j < length indeg. indeg' ! j = indeg ! j +
         (if i \<le> j \<and> j < i + length ms then int (card (prov pm (m_needs (ms ! (j - i))))) else 0))
    \<and> (\<forall>p < length deps. deps' ! p = deps ! p @
         filter (\<lambda>j. p \<in> prov pm (m_needs (ms ! (j - i)))) [i..<i + length ms])"
  using assms
proof (induction mods pm i ms "(indeg, deps)" arbitrary: indeg deps rule: graph_edges.induct)
  case (1 mods pm i)
  then show ?case by auto
next
  case (2 mods pm i m ms indeg deps)
  from "2.prems"(1) obtain indeg1 deps1
    where n: "need_edges mods pm i (m_needs m) [] (indeg, deps) = Inr (indeg1, deps1)"
      and g: "graph_edges mods pm (Suc i) ms (indeg1, deps1) = Inr (indeg', deps')"
    by (auto split: sum.splits)
  have il: "i < length indeg" using "2.prems"(2) by simp
  note N = need_edges_Inr[OF n il "2.prems"(3)]
  have len1: "Suc i + length ms \<le> length indeg1" "\<forall>c p. gget pm c = Some p \<longrightarrow> p < length deps1"
    using N "2.prems"(2,3) by auto
  note R = "2.hyps"[OF n g len1]
  have sel: "(m # ms) ! (j - i) = ms ! (j - Suc i)" if "Suc i \<le> j" for j
    using that by (simp add: nth_Cons')
  have A: "\<forall>k < length (m # ms). \<forall>need \<in> set (m_needs ((m # ms) ! k)). \<exists>p. gget pm need = Some p \<and> p \<noteq> i + k"
    using R N by (auto simp: less_Suc_eq_0_disj)
  have B: "indeg' ! j = indeg ! j + (if i \<le> j \<and> j < i + length (m # ms)
         then int (card (prov pm (m_needs ((m # ms) ! (j - i))))) else 0)" if "j < length indeg" for j
    using that R N sel by (cases "j = i") auto
  have upt: "[i..<i + length (m # ms)] = i # [Suc i..<Suc i + length ms]"
    by (simp add: upt_conv_Cons del: upt_Suc)
  have C: "deps' ! p = deps ! p @ filter (\<lambda>j. p \<in> prov pm (m_needs ((m # ms) ! (j - i)))) [i..<i + length (m # ms)]"
    if "p < length deps" for p
  proof -
    have f: "filter (\<lambda>j. p \<in> prov pm (m_needs ((m # ms) ! (j - i)))) [Suc i..<Suc i + length ms]
        = filter (\<lambda>j. p \<in> prov pm (m_needs (ms ! (j - Suc i)))) [Suc i..<Suc i + length ms]"
      by (rule filter_cong) (auto simp: sel simp del: upt_Suc)
    show ?thesis unfolding upt using that R N f by (auto simp del: upt_Suc)
  qed
  from A B C R N show ?case by auto
qed

lemma graph_edges_Inl:
  "graph_edges mods pm i ms g = Inl e \<Longrightarrow>
     \<exists>k < length ms. \<exists>need \<in> set (m_needs (ms ! k)). gget pm need = None \<or> gget pm need = Some (i + k)"
proof (induction mods pm i ms g rule: graph_edges.induct)
  case (1 mods pm i g)
  then show ?case by simp
next
  case (2 mods pm i m ms g)
  show ?case
  proof (cases "need_edges mods pm i (m_needs m) [] g")
    case (Inl e')
    from need_edges_Inl[OF this] show ?thesis by (intro exI[of _ 0]) auto
  next
    case (Inr g')
    with "2.prems" have "graph_edges mods pm (Suc i) ms g' = Inl e" by simp
    from "2.IH"[OF Inr this] obtain k where "k < length ms"
      "\<exists>need \<in> set (m_needs (ms ! k)). gget pm need = None \<or> gget pm need = Some (Suc i + k)" by blast
    then show ?thesis by (intro exI[of _ "Suc k"]) auto
  qed
qed

subsection \<open>Kahn's algorithm\<close>

definition preds :: "nat list list \<Rightarrow> nat \<Rightarrow> nat set" where
  "preds deps i = {p. p < length deps \<and> i \<in> set (deps ! p)}"

definition graph_ok :: "nat list list \<Rightarrow> bool" where
  "graph_ok deps \<longleftrightarrow> (\<forall>p < length deps. distinct (deps ! p) \<and> set (deps ! p) \<subseteq> {..<length deps})"

lemma finite_preds [simp]: "finite (preds deps i)"
  by (simp add: preds_def)

lemma relax_eq:
  assumes "distinct ds" and "set ds \<subseteq> {..<length indeg}"
  shows "relax ds indeg q =
    Some (map (\<lambda>i. indeg ! i - (if i \<in> set ds then 1 else 0)) [0..<length indeg],
          q @ filter (\<lambda>d. indeg ! d = 1) ds)"
  using assms
proof (induction ds indeg q rule: relax.induct)
  case (1 indeg q)
  then show ?case by (simp add: map_nth)
next
  case (2 d ds indeg q)
  let ?i = "indeg[d := indeg ! d - 1]"
  from "2.prems" have d: "d < length indeg" and ds: "distinct ds" "set ds \<subseteq> {..<length ?i}" "d \<notin> set ds" by auto
  have f: "filter (\<lambda>x. ?i ! x = 1) ds = filter (\<lambda>x. indeg ! x = 1) ds"
  proof (rule filter_cong[OF refl])
    fix x assume "x \<in> set ds"
    with ds(3) have "d \<noteq> x" by auto
    then show "(?i ! x = 1) = (indeg ! x = 1)" by simp
  qed
  have m: "map (\<lambda>i. ?i ! i - (if i \<in> set ds then 1 else 0)) [0..<length ?i]
      = map (\<lambda>i. indeg ! i - (if i \<in> set (d # ds) then 1 else 0)) [0..<length indeg]"
    using ds(3) d by (auto simp: nth_list_update)
  from "2.IH"[OF d refl ds(1,2)] d f m show ?case by (simp add: Let_def)
qed

definition kahn_inv :: "nat list list \<Rightarrow> nat list \<Rightarrow> int list \<Rightarrow> nat list \<Rightarrow> bool" where
  "kahn_inv deps q indeg order \<longleftrightarrow>
     distinct (order @ q) \<and> set (order @ q) \<subseteq> {..<length deps} \<and> length indeg = length deps
     \<and> (\<forall>i < length deps. indeg ! i = int (card (preds deps i - set order)))
     \<and> (\<forall>i < length deps. i \<in> set (order @ q) \<longleftrightarrow> indeg ! i = 0)
     \<and> (\<forall>k < length order. preds deps (order ! k) \<subseteq> set (take k order))"

lemma kahn_inv_step:
  assumes ok: "graph_ok deps" and inv: "kahn_inv deps (i # q) indeg order"
    and r: "relax (deps ! i) indeg q = Some (indeg', q')"
  shows "kahn_inv deps q' indeg' (order @ [i])"
proof -
  let ?n = "length deps"
  from inv have i: "i < ?n" and len: "length indeg = ?n" and dist: "distinct (order @ i # q)"
    and sub: "set (order @ i # q) \<subseteq> {..<?n}"
    and deg: "\<And>j. j < ?n \<Longrightarrow> indeg ! j = int (card (preds deps j - set order))"
    and zero: "\<And>j. j < ?n \<Longrightarrow> j \<in> set (order @ i # q) \<longleftrightarrow> indeg ! j = 0"
    and topo: "\<And>k. k < length order \<Longrightarrow> preds deps (order ! k) \<subseteq> set (take k order)"
    by (auto simp: kahn_inv_def)
  from ok i have di: "distinct (deps ! i)" "set (deps ! i) \<subseteq> {..<length indeg}"
    by (auto simp: graph_ok_def len)
  from r relax_eq[OF di, of q] have
    indeg': "indeg' = map (\<lambda>j. indeg ! j - (if j \<in> set (deps ! i) then 1 else 0)) [0..<?n]" and
    q': "q' = q @ filter (\<lambda>d. indeg ! d = 1) (deps ! i)" by (auto simp: len)
  have mem: "j \<in> set (deps ! i) \<longleftrightarrow> i \<in> preds deps j" for j using i by (auto simp: preds_def)
  have inot: "i \<notin> set order" using dist by auto
  have deg': "indeg' ! j = int (card (preds deps j - set (order @ [i])))" if j: "j < ?n" for j
  proof -
    have eq: "preds deps j - set (order @ [i]) = (preds deps j - set order) - {i}" by auto
    have "card (preds deps j - set (order @ [i])) =
        card (preds deps j - set order) - (if i \<in> preds deps j then 1 else 0)"
      unfolding eq using inot by (simp add: card_Diff_singleton_if)
    moreover have "i \<in> preds deps j \<Longrightarrow> 0 < card (preds deps j - set order)"
      using inot by (auto simp: card_gt_0_iff)
    ultimately show ?thesis using j deg[OF j]
      by (cases "i \<in> preds deps j") (simp_all add: indeg' mem of_nat_diff Suc_leI)
  qed
  have fresh: "d \<notin> set (order @ i # q)" if "d \<in> set (deps ! i)" "indeg ! d = 1" for d
    using that di(2) zero[of d] len by auto
  have dist': "distinct ((order @ [i]) @ q')"
    using dist di(1) fresh by (auto simp: q')
  have sub': "set ((order @ [i]) @ q') \<subseteq> {..<?n}"
    using sub di(2) by (auto simp: q' len)
  have zero': "j \<in> set ((order @ [i]) @ q') \<longleftrightarrow> indeg' ! j = 0" if j: "j < ?n" for j
  proof (cases "j \<in> set (deps ! i)")
    case True
    then have "0 < card (preds deps j - set order)" using mem inot by (auto simp: card_gt_0_iff)
    then have "indeg ! j \<noteq> 0" using deg[OF j] by linarith
    then have "j \<notin> set (order @ i # q)" using zero[OF j] by simp
    with True j show ?thesis by (auto simp: q' indeg')
  next
    case False
    with j zero[OF j] show ?thesis by (auto simp: q' indeg')
  qed
  have "indeg ! i = 0" using zero[OF i] by simp
  then have "preds deps i \<subseteq> set order" using deg[OF i] by (auto simp: card_eq_0_iff)
  then have topo': "preds deps ((order @ [i]) ! k) \<subseteq> set (take k (order @ [i]))"
    if "k < length (order @ [i])" for k
    using that topo[of k] by (cases "k = length order") (auto simp: nth_append)
  show ?thesis
    unfolding kahn_inv_def using dist' sub' deg' zero' topo' by (simp add: indeg')
qed

lemma kahn_result:
  assumes "graph_ok deps" and "kahn_inv deps q indeg order"
  shows "\<exists>order' indeg'. kahn deps q indeg order = Some (order', indeg') \<and> kahn_inv deps [] indeg' order'"
  using assms
proof (induction deps q indeg order rule: kahn.induct)
  case (1 deps indeg order)
  then show ?case by auto
next
  case (2 deps i q indeg order)
  from "2.prems" have i: "i < length deps" and di: "distinct (deps ! i)" "set (deps ! i) \<subseteq> {..<length indeg}"
    by (auto simp: kahn_inv_def graph_ok_def)
  obtain indeg' q' where r: "relax (deps ! i) indeg q = Some (indeg', q')"
    using relax_eq[OF di] by blast
  from "2.IH"[OF i r refl "2.prems"(1) kahn_inv_step[OF "2.prems" r]] i r show ?case by simp
qed

text \<open>When the work list runs dry with modules left, the modules left wait on one another.\<close>

lemma kahn_stuck:
  assumes inv: "kahn_inv deps [] indeg order" and i: "i < length deps" "i \<notin> set order"
  shows "\<exists>p \<in> preds deps i. p \<notin> set order"
proof -
  from inv i have "indeg ! i \<noteq> 0" by (auto simp: kahn_inv_def)
  with inv i have "preds deps i - set order \<noteq> {}" by (auto simp: kahn_inv_def)
  then show ?thesis by auto
qed

lemma kahn_inv_init:
  assumes "graph_ok deps" and "length indeg = length deps"
    and "\<forall>i < length deps. indeg ! i = int (card (preds deps i))"
  shows "kahn_inv deps (filter (\<lambda>i. indeg ! i = 0) [0..<length deps]) indeg []"
  using assms by (auto simp: kahn_inv_def)

subsection \<open>What topoOrder promises\<close>

text \<open>An order of the module indices in which every need is provided by an earlier module.\<close>

definition valid_order :: "module list \<Rightarrow> nat list \<Rightarrow> bool" where
  "valid_order mods order \<longleftrightarrow>
     distinct order \<and> set order = {..<length mods} \<and>
     (\<forall>k < length order. \<forall>need \<in> set (m_needs (mods ! (order ! k))).
        \<exists>j < k. need \<in> set (m_provides (mods ! (order ! j))))"

lemma valid_orderD:
  assumes "valid_order mods order" and "k < length order"
    and "need \<in> set (m_needs (mods ! (order ! k)))"
  obtains j where "j < k" and "need \<in> set (m_provides (mods ! (order ! j)))"
    and "order ! j < length mods"
proof -
  from assms obtain j where j: "j < k" "need \<in> set (m_provides (mods ! (order ! j)))"
    unfolding valid_order_def by blast
  with assms have "order ! j \<in> set order" by (intro nth_mem) simp
  with assms(1) j that show thesis by (auto simp: valid_order_def)
qed

text \<open>One provider per capability.\<close>

definition unique_providers :: "module list \<Rightarrow> bool" where
  "unique_providers mods \<longleftrightarrow> distinct (concat (map m_provides mods))"

lemma topo_graph_Inr:
  assumes "topo_graph mods = Inr (indeg, deps)"
  shows "unique_providers mods \<and> length indeg = length mods \<and> length deps = length mods \<and> graph_ok deps
    \<and> (\<forall>i < length mods. indeg ! i = int (card (preds deps i)))
    \<and> (\<forall>i < length mods. \<forall>need \<in> set (m_needs (mods ! i)).
         \<exists>p \<in> preds deps i. need \<in> set (m_provides (mods ! p)))
    \<and> (\<forall>i < length mods. \<forall>p \<in> preds deps i.
         \<exists>need \<in> set (m_needs (mods ! i)). need \<in> set (m_provides (mods ! p)))"
proof -
  let ?n = "length mods"
  from assms obtain pm where pm: "provider_of mods 0 mods [] = Inr pm"
    and g: "graph_edges mods pm 0 mods (replicate ?n 0, replicate ?n []) = Inr (indeg, deps)"
    by (auto simp: topo_graph_def split: sum.splits)
  note P = provider_of_Inr[OF pm]
  have look: "gget pm c = Some p \<longleftrightarrow> p < ?n \<and> c \<in> set (m_provides (mods ! p))" for c p
    using P by auto
  have G: "(\<forall>k < ?n. \<forall>need \<in> set (m_needs (mods ! k)). \<exists>p. gget pm need = Some p \<and> p \<noteq> k)
    \<and> length indeg = ?n \<and> length deps = ?n
    \<and> (\<forall>j < ?n. indeg ! j = int (card (prov pm (m_needs (mods ! j)))))
    \<and> (\<forall>p < ?n. deps ! p = filter (\<lambda>j. p \<in> prov pm (m_needs (mods ! j))) [0..<?n])"
    using graph_edges_Inr[OF g] look by simp
  have pr: "preds deps i = prov pm (m_needs (mods ! i))" if "i < ?n" for i
    using that G look by (auto simp: preds_def prov_def)
  have "graph_ok deps" using G by (auto simp: graph_ok_def)
  moreover have "\<forall>i < ?n. indeg ! i = int (card (preds deps i))" using G pr by simp
  moreover have "\<forall>i < ?n. \<forall>need \<in> set (m_needs (mods ! i)). \<exists>p \<in> preds deps i. need \<in> set (m_provides (mods ! p))"
    using G pr look by (fastforce simp: prov_def)
  moreover have "\<forall>i < ?n. \<forall>p \<in> preds deps i. \<exists>need \<in> set (m_needs (mods ! i)). need \<in> set (m_provides (mods ! p))"
    using pr look by (fastforce simp: prov_def)
  ultimately show ?thesis using P G by (simp add: unique_providers_def)
qed

lemma topo_graph_Inl:
  assumes "topo_graph mods = Inl e"
  shows "\<not> unique_providers mods \<or> \<not> (\<exists>order. valid_order mods order)"
proof (cases "provider_of mods 0 mods []")
  case (Inl e')
  from provider_of_Inl[OF this] show ?thesis by (auto simp: unique_providers_def)
next
  case (Inr pm)
  let ?n = "length mods"
  note P = provider_of_Inr[OF Inr]
  have look: "gget pm c = Some p \<longleftrightarrow> p < ?n \<and> c \<in> set (m_provides (mods ! p))" for c p
    using P by auto
  from Inr assms have "graph_edges mods pm 0 mods (replicate ?n 0, replicate ?n []) = Inl e"
    by (simp add: topo_graph_def)
  from graph_edges_Inl[OF this] obtain i need where i: "i < ?n" and need: "need \<in> set (m_needs (mods ! i))"
    and bad: "gget pm need = None \<or> gget pm need = Some i" by auto
  have "\<not> valid_order mods order" for order
  proof
    assume v: "valid_order mods order"
    with i have "i \<in> set order" by (simp add: valid_order_def)
    then obtain k where k: "k < length order" "order ! k = i" by (auto simp: in_set_conv_nth)
    from need k(2) have "need \<in> set (m_needs (mods ! (order ! k)))" by simp
    from valid_orderD[OF v k(1) this] obtain j
      where j: "j < k" "need \<in> set (m_provides (mods ! (order ! j)))" "order ! j < ?n" .
    with j look have "gget pm need = Some (order ! j)" by simp
    with bad have "order ! j = i" by auto
    moreover have "distinct order" using v by (simp add: valid_order_def)
    ultimately show False using k j(1) nth_eq_iff_index_eq[of order j k] by simp
  qed
  then show ?thesis by blast
qed

lemma valid_order_preds:
  assumes v: "valid_order mods order" and u: "unique_providers mods"
    and g: "topo_graph mods = Inr (indeg, deps)" and k: "k < length order"
  shows "preds deps (order ! k) \<subseteq> set (take k order)"
proof
  fix p assume p: "p \<in> preds deps (order ! k)"
  note G = topo_graph_Inr[OF g]
  from v k have ik: "order ! k < length mods" by (auto simp: valid_order_def dest!: nth_mem)
  with G p obtain need where n: "need \<in> set (m_needs (mods ! (order ! k)))" "need \<in> set (m_provides (mods ! p))"
    by blast
  from valid_orderD[OF v k n(1)] obtain j where j: "j < k" "need \<in> set (m_provides (mods ! (order ! j)))"
    and oj: "order ! j < length mods" .
  have pl: "p < length mods" using p G by (auto simp: preds_def)
  have "p = order ! j"
    using u pl oj n(2) j(2)
    by (intro distinct_concat_nth[of "map m_provides mods" p "order ! j" need]) (simp_all add: unique_providers_def)
  then show "p \<in> set (take k order)" using j(1) k by (auto simp: in_set_take_nth)
qed

lemma topo_indices_cases:
  assumes g: "topo_graph mods = Inr (indeg, deps)"
  obtains order indeg' where "kahn_inv deps [] indeg' order"
    and "topo_indices mods = (if length order \<noteq> length mods
           then Inl (DependencyCycle (map (\<lambda>i. m_name (mods ! i)) (filter (\<lambda>i. indeg' ! i > 0) [0..<length mods])))
           else Inr order)"
proof -
  note G = topo_graph_Inr[OF g]
  from G have "kahn_inv deps (filter (\<lambda>i. indeg ! i = 0) [0..<length deps]) indeg []"
    by (intro kahn_inv_init) auto
  from kahn_result[OF _ this] G obtain order indeg' where
    k: "kahn deps (filter (\<lambda>i. indeg ! i = 0) [0..<length deps]) indeg [] = Some (order, indeg')"
    "kahn_inv deps [] indeg' order" by blast
  with G g that show thesis by (simp add: topo_indices_def Let_def)
qed

lemma topo_indices_valid:
  assumes "topo_indices mods = Inr order"
  shows "valid_order mods order"
proof -
  from assms obtain indeg deps where g: "topo_graph mods = Inr (indeg, deps)"
    by (auto simp: topo_indices_def split: sum.splits)
  note G = topo_graph_Inr[OF g]
  from topo_indices_cases[OF g] assms obtain indeg' where inv: "kahn_inv deps [] indeg' order"
    and len: "length order = length mods" by (metis Inr_inject sum.distinct(1))
  have dist: "distinct order" and sub: "set order \<subseteq> {..<length mods}" using inv G by (auto simp: kahn_inv_def)
  have all: "set order = {..<length mods}"
    using dist len sub by (intro card_subset_eq) (auto simp: distinct_card)
  have "\<exists>j < k. need \<in> set (m_provides (mods ! (order ! j)))"
    if k: "k < length order" and need: "need \<in> set (m_needs (mods ! (order ! k)))" for k need
  proof -
    from k all have "order ! k < length mods" by (auto dest: nth_mem)
    with G need obtain p where p: "p \<in> preds deps (order ! k)" "need \<in> set (m_provides (mods ! p))" by blast
    from inv k have "preds deps (order ! k) \<subseteq> set (take k order)" by (auto simp: kahn_inv_def)
    with p(1) have "p \<in> set (take k order)" by blast
    with p(2) show ?thesis by (auto simp: in_set_take_nth)
  qed
  with dist all show ?thesis by (simp add: valid_order_def)
qed

text \<open>
  \<^verbatim>\<open>topoOrder\<close> is sound: an order it returns lists every module once, and each need of a
  module is provided by a module that comes before it.
\<close>

theorem topo_indices_sound:
  assumes "topo_indices mods = Inr order"
  shows "valid_order mods order"
  by (rule topo_indices_valid[OF assms])

definition demo_cap :: captype where
  "demo_cap = \<lparr>ct_name = ''contract.ClaimTokens'', ct_kind = RInterface\<rparr>"

definition demo_impl :: impl where
  "demo_impl = \<lparr>im_valid = True, im_kind = RPtr, im_nil = False, im_id = 0\<rparr>"

text \<open>Two modules as the program registers them: the gate needs the claim-token facility.\<close>

definition demo_gate :: module where
  "demo_gate = \<lparr>m_name = ''gate'', m_provides = [], m_needs = [demo_cap], m_optional = False,
     m_start = (\<lambda>r. ([], [], None)), m_stop = None\<rparr>"

definition demo_tokens :: module where
  "demo_tokens = \<lparr>m_name = ''claimtoken'', m_provides = [demo_cap], m_needs = [], m_optional = False,
     m_start = (\<lambda>r. ([(demo_cap, demo_impl)], [], None)), m_stop = None\<rparr>"

lemma demo_topo: "topo_indices [demo_gate, demo_tokens] = Inr [1, 0]"
  by (simp add: topo_indices_def topo_graph_def demo_gate_def demo_tokens_def Let_def)

theorem topo_indices_sound_witness: "valid_order [demo_gate, demo_tokens] [1, 0]"
  by (rule topo_indices_sound[OF demo_topo])

lemma kahn_complete:
  assumes inv: "kahn_inv deps [] indeg order" and ord: "set ord = {..<length deps}" "distinct ord"
    and valid: "\<And>k. k < length ord \<Longrightarrow> preds deps (ord ! k) \<subseteq> set (take k ord)"
  shows "length order = length deps"
proof -
  have "ord ! k \<in> set order" if "k < length ord" for k
    using that
  proof (induction k rule: less_induct)
    case (less k)
    show ?case
    proof (rule ccontr)
      assume no: "ord ! k \<notin> set order"
      have "ord ! k < length deps" using less.prems ord(1) nth_mem by blast
      from kahn_stuck[OF inv this no] obtain p where p: "p \<in> preds deps (ord ! k)" "p \<notin> set order" by blast
      with valid[OF less.prems] have "p \<in> set (take k ord)" by blast
      then obtain j where "j < k" "p = ord ! j" using less.prems by (auto simp: in_set_conv_nth)
      with less p show False by simp
    qed
  qed
  then have "set ord \<subseteq> set order" by (metis in_set_conv_nth subsetI)
  then have "{..<length deps} \<subseteq> set order" using ord(1) by simp
  moreover have "set order \<subseteq> {..<length deps}" "distinct order" using inv by (auto simp: kahn_inv_def)
  ultimately have "card (set order) = length deps" by (metis card_lessThan subset_antisym)
  then show ?thesis using \<open>distinct order\<close> by (simp add: distinct_card)
qed

text \<open>
  \<^verbatim>\<open>topoOrder\<close> is complete: it returns an order exactly when no capability has two providers
  and some order of the modules satisfies every need, so it reports a duplicate, a missing
  provider, a self-dependency or a cycle only where there is one.
\<close>

theorem topo_indices_complete:
  "(\<exists>order. topo_indices mods = Inr order)
     \<longleftrightarrow> unique_providers mods \<and> (\<exists>order. valid_order mods order)"
proof
  assume "\<exists>order. topo_indices mods = Inr order"
  then obtain order where o: "topo_indices mods = Inr order" ..
  then obtain indeg deps where g: "topo_graph mods = Inr (indeg, deps)"
    by (auto simp: topo_indices_def split: sum.splits)
  from topo_graph_Inr[OF g] topo_indices_valid[OF o]
  show "unique_providers mods \<and> (\<exists>order. valid_order mods order)" by blast
next
  assume r: "unique_providers mods \<and> (\<exists>order. valid_order mods order)"
  then obtain ord where v: "valid_order mods ord" by blast
  from topo_graph_Inl r obtain indeg deps where g: "topo_graph mods = Inr (indeg, deps)"
    by (metis sum.exhaust surj_pair)
  note G = topo_graph_Inr[OF g]
  from topo_indices_cases[OF g] obtain order indeg' where inv: "kahn_inv deps [] indeg' order"
    and t: "topo_indices mods = (if length order \<noteq> length mods
           then Inl (DependencyCycle (map (\<lambda>i. m_name (mods ! i)) (filter (\<lambda>i. indeg' ! i > 0) [0..<length mods])))
           else Inr order)" .
  have "length order = length deps"
    using v G by (intro kahn_complete[OF inv, of ord])
      (auto simp: valid_order_def intro!: valid_order_preds[OF v _ g, THEN subsetD])
  with t G show "\<exists>order. topo_indices mods = Inr order" by simp
qed

end
