(* ===== verification/Trunk_Lifecycle.thy ===== *)
theory Trunk_Lifecycle
  imports Trunk_Topo
begin

section \<open>Starting and stopping the modules (trunk/20-lifecycle.go)\<close>

text \<open>
  The trunk's state, its start loop with every early return, the unwind of a failed boot and
  the stop. The log records, in order, each module whose \<^verbatim>\<open>Start\<close> returned without error and each
  call of \<^verbatim>\<open>Stop\<close>; it is what the theorems about ordering speak of. A module reaches the registry
  through \<^verbatim>\<open>Provide\<close> only, so its \<^verbatim>\<open>Start\<close> acts on it by \<open>provide_seq Provide\<close>; a panic there ends
  the process and is the error \<open>StartPanicked\<close>.
\<close>

datatype trunk_event = EvStart string | EvStop string

record trunk =
  t_reg :: registry
  t_hk :: houseKeeper
  t_mods :: "module list"
  t_started :: "module list"
  t_didStart :: bool
  t_log :: "trunk_event list"

datatype start_error =
    AlreadyStarted
  | TopoFailed topo_error
  | CriticalUnmet string "captype list"
  | OptionalLeaked string captype string
  | CriticalFailed string string
  | ProvidesUnregistered string captype
  | StartPanicked trunk_panic

definition hk_cap :: captype where
  "hk_cap = \<lparr>ct_name = ''trunk.Housekeeper'', ct_kind = RInterface\<rparr>"

definition hk_impl :: impl where
  "hk_impl = \<lparr>im_valid = True, im_kind = RPtr, im_nil = False, im_id = 0\<rparr>"

definition New :: trunk where
  "New = \<lparr>t_reg = (case Provide NewRegistry hk_cap hk_impl of Inl _ \<Rightarrow> NewRegistry | Inr r \<Rightarrow> r),
     t_hk = newHousekeeper, t_mods = [], t_started = [], t_didStart = False, t_log = []\<rparr>"

definition Register :: "trunk \<Rightarrow> module \<Rightarrow> trunk" where
  "Register t m = t\<lparr>t_mods := t_mods t @ [m]\<rparr>"

definition unmetNeeds :: "trunk \<Rightarrow> module \<Rightarrow> captype list" where
  "unmetNeeds t m = filter (\<lambda>n. \<not> has (t_reg t) n) (m_needs m)"

definition unwind :: "trunk \<Rightarrow> trunk" where
  "unwind t = t\<lparr>t_log := t_log t @ map (\<lambda>m. EvStop (m_name m)) (rev (t_started t)), t_started := []\<rparr>"

fun start_loop :: "gtime \<Rightarrow> trunk \<Rightarrow> module list \<Rightarrow> trunk \<times> start_error option" where
  "start_loop now t [] = (t\<lparr>t_hk := hk_start (t_hk t) now\<rparr>, None)"
| "start_loop now t (m # ms) =
     (let missing = unmetNeeds t m in
      if missing \<noteq> [] then
        if m_optional m then start_loop now t ms
        else (unwind t, Some (CriticalUnmet (m_name m) missing))
      else
        (let (kvs, tasks, err) = m_start m (t_reg t) in
         case provide_seq Provide (t_reg t) kvs of
           Inl pn \<Rightarrow> (t, Some (StartPanicked pn))
         | Inr reg \<Rightarrow>
             (let t1 = t\<lparr>t_reg := reg, t_hk := fold (\<lambda>tk h. hk_register h now tk) tasks (t_hk t)\<rparr> in
              case err of
                Some e \<Rightarrow>
                  if m_optional m then
                    (case find (\<lambda>p. has reg p) (m_provides m) of
                       Some p \<Rightarrow> (unwind t1, Some (OptionalLeaked (m_name m) p e))
                     | None \<Rightarrow> start_loop now t1 ms)
                  else (unwind t1, Some (CriticalFailed (m_name m) e))
              | None \<Rightarrow>
                  (let t2 = t1\<lparr>t_started := t_started t1 @ [m],
                               t_log := t_log t1 @ [EvStart (m_name m)]\<rparr> in
                   if m_optional m then start_loop now t2 ms
                   else case find (\<lambda>p. \<not> has reg p) (m_provides m) of
                          Some p \<Rightarrow> (unwind t2, Some (ProvidesUnregistered (m_name m) p))
                        | None \<Rightarrow> start_loop now t2 ms))))"

definition Start :: "gtime \<Rightarrow> trunk \<Rightarrow> trunk \<times> start_error option" where
  "Start now t =
     (if t_didStart t then (t, Some AlreadyStarted)
      else (let t0 = t\<lparr>t_didStart := True\<rparr> in
            case topoOrder (t_mods t0) of
              Inl e \<Rightarrow> (t0, Some (TopoFailed e))
            | Inr order \<Rightarrow> start_loop now t0 order))"

definition Stop :: "trunk \<Rightarrow> trunk \<times> (string \<times> string) list" where
  "Stop t =
     (t\<lparr>t_hk := hk_stop (t_hk t),
        t_log := t_log t @ map (\<lambda>m. EvStop (m_name m)) (rev (t_started t)),
        t_started := []\<rparr>,
      concat (map (\<lambda>m. case m_stop m of None \<Rightarrow> [] | Some e \<Rightarrow> [(m_name m, e)]) (rev (t_started t))))"

subsection \<open>The start loop\<close>

abbreviation starts :: "module list \<Rightarrow> trunk_event list" where
  "starts ss \<equiv> map (\<lambda>m. EvStart (m_name m)) ss"

abbreviation stops :: "module list \<Rightarrow> trunk_event list" where
  "stops ss \<equiv> map (\<lambda>m. EvStop (m_name m)) ss"

text \<open>What a step of the loop has done so far: the modules in \<open>ss\<close> were started, on top of
  the state \<open>t0\<close>.\<close>

definition started_ok :: "trunk \<Rightarrow> module list \<Rightarrow> trunk \<Rightarrow> bool" where
  "started_ok t0 ss t \<longleftrightarrow>
     t_started t = t_started t0 @ ss \<and> t_log t = t_log t0 @ starts ss \<and>
     (\<forall>c. has (t_reg t0) c \<longrightarrow> has (t_reg t) c) \<and>
     (\<forall>m \<in> set ss. (\<forall>n \<in> set (m_needs m). has (t_reg t) n) \<and>
                     (\<not> m_optional m \<longrightarrow> (\<forall>p \<in> set (m_provides m). has (t_reg t) p)))"

lemma provide_seq_has: "provide_seq Provide r kvs = Inr r' \<Longrightarrow> has r c \<Longrightarrow> has r' c"
  by (auto simp: has_TryRequire dest: reg.seq_keeps)

lemma unmetNeeds_Nil: "unmetNeeds t m = [] \<longleftrightarrow> (\<forall>n \<in> set (m_needs m). has (t_reg t) n)"
  by (auto simp: unmetNeeds_def filter_empty_conv)

lemma started_ok_refl: "started_ok t [] t"
  by (simp add: started_ok_def)

lemma started_ok_trans: "started_ok t0 ss t1 \<Longrightarrow> started_ok t1 ss' t2 \<Longrightarrow> started_ok t0 (ss @ ss') t2"
  by (auto simp: started_ok_def)

lemma started_ok_frame: "started_ok t0 ss t \<Longrightarrow> started_ok t0 ss (t\<lparr>t_hk := h\<rparr>)"
  by (simp add: started_ok_def)

text \<open>The ways the loop leaves module \<open>m\<close>: it goes on with \<open>m\<close> started or skipped, or it
  returns an error.\<close>

datatype 'a step_result = Continue 'a "module list" | Abort 'a start_error

definition step_module :: "gtime \<Rightarrow> trunk \<Rightarrow> module \<Rightarrow> trunk step_result" where
  "step_module now t m =
     (if unmetNeeds t m \<noteq> [] then
        if m_optional m then Continue t [] else Abort (unwind t) (CriticalUnmet (m_name m) (unmetNeeds t m))
      else
        (let (kvs, tasks, err) = m_start m (t_reg t) in
         case provide_seq Provide (t_reg t) kvs of
           Inl pn \<Rightarrow> Abort t (StartPanicked pn)
         | Inr reg \<Rightarrow>
             (let t1 = t\<lparr>t_reg := reg, t_hk := fold (\<lambda>tk h. hk_register h now tk) tasks (t_hk t)\<rparr> in
              case err of
                Some e \<Rightarrow>
                  if m_optional m then
                    (case find (\<lambda>p. has reg p) (m_provides m) of
                       Some p \<Rightarrow> Abort (unwind t1) (OptionalLeaked (m_name m) p e)
                     | None \<Rightarrow> Continue t1 [])
                  else Abort (unwind t1) (CriticalFailed (m_name m) e)
              | None \<Rightarrow>
                  (let t2 = t1\<lparr>t_started := t_started t1 @ [m], t_log := t_log t1 @ [EvStart (m_name m)]\<rparr> in
                   if m_optional m then Continue t2 [m]
                   else case find (\<lambda>p. \<not> has reg p) (m_provides m) of
                          Some p \<Rightarrow> Abort (unwind t2) (ProvidesUnregistered (m_name m) p)
                        | None \<Rightarrow> Continue t2 [m]))))"

lemma start_loop_step:
  "start_loop now t (m # ms) =
     (case step_module now t m of
        Continue t' ss \<Rightarrow> start_loop now t' ms
      | Abort t' e \<Rightarrow> (t', Some e))"
  by (auto simp: step_module_def Let_def split: prod.splits sum.splits option.splits)

lemma step_module_Continue:
  assumes "step_module now t m = Continue t' ss"
  shows "started_ok t ss t' \<and> (ss = [m] \<or> ss = [] \<and> m_optional m)"
proof -
  obtain kvs tasks err where s: "m_start m (t_reg t) = (kvs, tasks, err)" by (metis prod_cases3)
  show ?thesis
  proof (cases "unmetNeeds t m = []")
    case False
    with assms show ?thesis by (auto simp: step_module_def started_ok_refl split: if_splits)
  next
    case True
    with assms s obtain reg where p: "provide_seq Provide (t_reg t) kvs = Inr reg"
      by (auto simp: step_module_def Let_def split: sum.splits)
    note keep = provide_seq_has[OF p]
    from True have needs: "\<forall>n \<in> set (m_needs m). has reg n" using keep by (auto simp: unmetNeeds_Nil)
    show ?thesis
    proof (cases err)
      case (Some e)
      with assms s p True keep show ?thesis
        by (auto simp: step_module_def Let_def started_ok_def split: if_splits option.splits)
    next
      case None
      with assms s p True keep needs show ?thesis
        by (auto simp: step_module_def Let_def started_ok_def find_None_all split: if_splits option.splits)
    qed
  qed
qed

text \<open>An error other than a panic leaves the trunk unwound.\<close>

definition unwound :: "trunk \<Rightarrow> trunk \<Rightarrow> bool" where
  "unwound t0 t \<longleftrightarrow> (\<exists>ss. t_started t = [] \<and> t_log t = t_log t0 @ starts ss @ stops (rev (t_started t0 @ ss)))"

lemma unwound_unwind: "started_ok t0 ss t \<Longrightarrow> unwound t0 (unwind t)"
  by (auto simp: unwound_def unwind_def started_ok_def)

lemma unwound_shift: "started_ok t0 ss t1 \<Longrightarrow> unwound t1 t \<Longrightarrow> unwound t0 t"
proof -
  assume s: "started_ok t0 ss t1" and "unwound t1 t"
  then obtain ss' where "t_started t = []"
    "t_log t = t_log t1 @ starts ss' @ stops (rev (t_started t1 @ ss'))" by (auto simp: unwound_def)
  with s show "unwound t0 t" by (auto simp: unwound_def started_ok_def intro!: exI[of _ "ss @ ss'"])
qed

lemma step_module_Abort:
  assumes "step_module now t m = Abort t' e" and "\<forall>pn. e \<noteq> StartPanicked pn"
  shows "unwound t t'"
proof -
  obtain kvs tasks err where s: "m_start m (t_reg t) = (kvs, tasks, err)" by (metis prod_cases3)
  let ?l = "t_log t @ starts [m]"
  have A: "unwound t (unwind (t\<lparr>t_reg := r, t_hk := h\<rparr>))" for r h
    by (auto simp: unwound_def unwind_def intro!: exI[of _ "[]"])
  have B: "unwound t (unwind (t\<lparr>t_reg := r, t_hk := h, t_started := t_started t @ [m],
      t_log := t_log t @ [EvStart (m_name m)]\<rparr>))" for r h
    by (auto simp: unwound_def unwind_def intro!: exI[of _ "[m]"])
  have C: "unwound t (unwind t)" by (rule unwound_unwind[OF started_ok_refl])
  from assms s A B C show ?thesis
    by (auto simp: step_module_def Let_def split: if_splits sum.splits option.splits)
qed

lemma start_loop_ok:
  "start_loop now t ms = (t', None) \<Longrightarrow>
     \<exists>ss. started_ok t ss t' \<and> subseq ss ms \<and> (\<forall>m \<in> set ms. \<not> m_optional m \<longrightarrow> m \<in> set ss)
          \<and> hk_started (t_hk t')"
proof (induction ms arbitrary: t)
  case Nil
  then show ?case
    by (auto simp: started_ok_def hk_start_def intro!: exI[of _ "[]"])
next
  case (Cons m ms)
  from Cons.prems obtain t1 s1 where s: "step_module now t m = Continue t1 s1"
    and r: "start_loop now t1 ms = (t', None)"
    by (simp only: start_loop_step) (auto split: step_result.splits)
  note S = step_module_Continue[OF s]
  from Cons.IH[OF r] obtain ss where I: "started_ok t1 ss t'" "subseq ss ms"
    "\<forall>m \<in> set ms. \<not> m_optional m \<longrightarrow> m \<in> set ss" "hk_started (t_hk t')" by blast
  have "started_ok t (s1 @ ss) t'" using S I(1) started_ok_trans by blast
  moreover have "subseq (s1 @ ss) (m # ms)" using S I(2) by auto
  moreover have "\<forall>x \<in> set (m # ms). \<not> m_optional x \<longrightarrow> x \<in> set (s1 @ ss)" using S I(3) by auto
  ultimately show ?case using I(4) by blast
qed

lemma start_loop_error:
  "start_loop now t ms = (t', Some e) \<Longrightarrow> \<forall>pn. e \<noteq> StartPanicked pn \<Longrightarrow> unwound t t'"
proof (induction ms arbitrary: t)
  case Nil
  then show ?case by simp
next
  case (Cons m ms)
  show ?case
  proof (cases "step_module now t m")
    case (Continue t1 s1)
    with Cons.prems(1) have "start_loop now t1 ms = (t', Some e)" by (simp only: start_loop_step) simp
    from Cons.IH[OF this Cons.prems(2)] step_module_Continue[OF Continue] show ?thesis
      using unwound_shift by blast
  next
    case (Abort t1 e1)
    with Cons.prems(1) have "t1 = t'" "e1 = e" by (simp_all only: start_loop_step) simp_all
    with step_module_Abort[OF Abort] Cons.prems(2) show ?thesis by simp
  qed
qed

subsection \<open>The promises of the lifecycle\<close>

text \<open>
  C25. A boot that fails is undone completely and in the right order: whatever the error (a
  missing capability, a failed \<^verbatim>\<open>Start\<close>, a capability leaked or declared and not registered), the
  log of the call is the starts of some modules followed by the stops of the same modules in
  reverse, and no module stays started.
\<close>

theorem start_failure_unwinds_in_reverse:
  assumes "Start now t = (t', Some e)" and "t_started t = []"
    and "\<forall>pn. e \<noteq> StartPanicked pn"
  shows "t_started t' = [] \<and> (\<exists>ss. t_log t' = t_log t @ starts ss @ stops (rev ss))"
proof (cases "t_didStart t")
  case True
  with assms show ?thesis by (auto simp: Start_def intro!: exI[of _ "[]"])
next
  case False
  let ?t0 = "t\<lparr>t_didStart := True\<rparr>"
  show ?thesis
  proof (cases "topoOrder (t_mods ?t0)")
    case (Inl te)
    with False assms show ?thesis by (auto simp: Start_def Let_def intro!: exI[of _ "[]"])
  next
    case (Inr order)
    with False assms(1) have "start_loop now ?t0 order = (t', Some e)" by (simp add: Start_def Let_def)
    from start_loop_error[OF this assms(3)] assms(2) show ?thesis by (auto simp: unwound_def)
  qed
qed

text \<open>
  A boot that succeeds has started every critical module and possibly some optional ones,
  in an order \<^verbatim>\<open>topoOrder\<close> allows; every need of a started module and every declared capability of
  a started critical module is registered; and the housekeeper runs.
\<close>

theorem start_success_is_complete:
  assumes "Start now t = (t', None)" and "t_started t = []"
  shows "\<exists>order ss. topoOrder (t_mods t) = Inr order \<and> subseq ss order \<and> t_started t' = ss
    \<and> t_log t' = t_log t @ starts ss
    \<and> (\<forall>m \<in> set order. \<not> m_optional m \<longrightarrow> m \<in> set ss)
    \<and> (\<forall>m \<in> set ss. \<forall>n \<in> set (m_needs m). has (t_reg t') n)
    \<and> (\<forall>m \<in> set ss. \<not> m_optional m \<longrightarrow> (\<forall>p \<in> set (m_provides m). has (t_reg t') p))
    \<and> hk_started (t_hk t')"
proof -
  let ?t0 = "t\<lparr>t_didStart := True\<rparr>"
  from assms obtain order where o: "topoOrder (t_mods t) = Inr order"
    and l: "start_loop now ?t0 order = (t', None)"
    by (auto simp: Start_def Let_def split: if_splits sum.splits)
  from start_loop_ok[OF l] obtain ss where "started_ok ?t0 ss t'" "subseq ss order"
    "\<forall>m \<in> set order. \<not> m_optional m \<longrightarrow> m \<in> set ss" "hk_started (t_hk t')" by blast
  with o assms(2) show ?thesis by (intro exI[of _ order] exI[of _ ss]) (auto simp: started_ok_def)
qed

definition demo_trunk :: trunk where
  "demo_trunk = Register (Register New demo_gate) demo_tokens"

definition demo_broken :: trunk where
  "demo_broken = Register (Register New
     (demo_gate\<lparr>m_start := (\<lambda>r. ([], [], Some ''no policy''))\<rparr>)) demo_tokens"

lemmas demo_trunk_eval =
  Start_def topoOrder_def demo_trunk_def demo_broken_def Register_def New_def Let_def
  unmetNeeds_def demo_gate_def demo_tokens_def demo_cap_def demo_impl_def hk_cap_def hk_impl_def
  has_def Provide_def NewRegistry_def isNil_def ghas_def unwind_def hk_start_def newHousekeeper_def
  topo_indices_def topo_graph_def

theorem start_failure_unwinds_in_reverse_witness:
  "t_started (fst (Start 1 demo_broken)) = []
   \<and> (\<exists>ss. t_log (fst (Start 1 demo_broken)) = t_log demo_broken @ starts ss @ stops (rev ss))"
proof -
  have e: "snd (Start 1 demo_broken) = Some (CriticalFailed ''gate'' ''no policy'')"
    by (simp add: demo_trunk_eval)
  have s: "t_started demo_broken = []" by (simp add: demo_broken_def Register_def New_def)
  have "Start 1 demo_broken = (fst (Start 1 demo_broken), Some (CriticalFailed ''gate'' ''no policy''))"
    using e by (metis prod.collapse)
  from start_failure_unwinds_in_reverse[OF this s] show ?thesis by simp
qed

theorem start_success_is_complete_witness:
  "map m_name (t_started (fst (Start 1 demo_trunk))) = [''claimtoken'', ''gate'']
    \<and> has (t_reg (fst (Start 1 demo_trunk))) demo_cap
    \<and> hk_started (t_hk (fst (Start 1 demo_trunk)))"
proof -
  have n: "map m_name (t_started (fst (Start 1 demo_trunk))) = [''claimtoken'', ''gate'']"
    by (simp add: demo_trunk_eval)
  have e: "snd (Start 1 demo_trunk) = None" by (simp add: demo_trunk_eval)
  have s: "t_started demo_trunk = []" by (simp add: demo_trunk_def Register_def New_def)
  have "Start 1 demo_trunk = (fst (Start 1 demo_trunk), None)" using e by (metis prod.collapse)
  from start_success_is_complete[OF this s] have
    "\<forall>m \<in> set (t_started (fst (Start 1 demo_trunk))). \<forall>n \<in> set (m_needs m).
       has (t_reg (fst (Start 1 demo_trunk))) n" "hk_started (t_hk (fst (Start 1 demo_trunk)))"
    by blast+
  moreover have "\<exists>m \<in> set (t_started (fst (Start 1 demo_trunk))). demo_cap \<in> set (m_needs m)"
    by (simp add: demo_trunk_eval)
  ultimately show ?thesis using n by blast
qed

text \<open>
  After a boot, \<^verbatim>\<open>Stop\<close> stops exactly the started modules, last started first, stops the
  housekeeper, leaves nothing started and reports the error of each module that returned one;
  and a second \<^verbatim>\<open>Start\<close> changes nothing and fails.
\<close>

theorem stop_reverses_start:
  assumes "Start now t = (t', None)" and "t_started t = []" and "Stop t' = (t'', errs)"
  shows "\<exists>ss. t_log t'' = t_log t @ starts ss @ stops (rev ss) \<and> t_started t'' = []
    \<and> hk_stopped (t_hk t'') \<and> hk_cancelled (t_hk t'')
    \<and> map fst errs = map m_name (filter (\<lambda>m. m_stop m \<noteq> None) (rev ss))
    \<and> Start now' t'' = (t'', Some AlreadyStarted)"
proof -
  let ?t0 = "t\<lparr>t_didStart := True\<rparr>"
  from assms(1) obtain order where l: "start_loop now ?t0 order = (t', None)"
    by (auto simp: Start_def Let_def split: if_splits sum.splits)
  from start_loop_ok[OF l] obtain ss where S: "started_ok ?t0 ss t'" "hk_started (t_hk t')" by blast
  have did: "t_didStart u' = t_didStart u" if "start_loop now u ms = (u', None)" for u u' ms
    using that
  proof (induction ms arbitrary: u)
    case Nil
    then show ?case by auto
  next
    case (Cons m ms)
    from Cons.prems obtain u1 s1 where s: "step_module now u m = Continue u1 s1"
      and r: "start_loop now u1 ms = (u', None)"
      by (simp only: start_loop_step) (auto split: step_result.splits)
    from s have "t_didStart u1 = t_didStart u"
      by (auto simp: step_module_def Let_def split: if_splits sum.splits option.splits prod.splits)
    with Cons.IH[OF r] show ?case by simp
  qed
  from did[OF l] have "t_didStart t'" by simp
  have "map fst (concat (map (\<lambda>m. case m_stop m of None \<Rightarrow> [] | Some e \<Rightarrow> [(m_name m, e)]) xs))
      = map m_name (filter (\<lambda>m. m_stop m \<noteq> None) xs)" for xs
    by (induction xs) (auto split: option.splits)
  with S assms(2,3) \<open>t_didStart t'\<close> show ?thesis
    by (intro exI[of _ ss]) (auto simp: Stop_def started_ok_def hk_stop_def Let_def Start_def)
qed

theorem stop_reverses_start_witness:
  "\<exists>ss. t_log (fst (Stop (fst (Start 1 demo_trunk)))) = t_log demo_trunk @ starts ss @ stops (rev ss)"
proof -
  have e: "snd (Start 1 demo_trunk) = None" by (simp add: demo_trunk_eval)
  have s: "t_started demo_trunk = []" by (simp add: demo_trunk_def Register_def New_def)
  have "Start 1 demo_trunk = (fst (Start 1 demo_trunk), None)" using e by (metis prod.collapse)
  from stop_reverses_start[OF this s, of "fst (Stop (fst (Start 1 demo_trunk)))"
      "snd (Stop (fst (Start 1 demo_trunk)))"]
  show ?thesis by auto
qed

end
