(* ===== verification/Turn_Transcript.thy ===== *)
theory Turn_Transcript
  imports Prompt_Sanitize
begin

section \<open>The transcript of a turn\<close>

text \<open>
  \<^verbatim>\<open>src/leaf/turn\<close>: the rows of a conversation (\<^verbatim>\<open>contract.Message\<close>), what a round makes of the stored
  rows before the model sees them (\<^verbatim>\<open>10-core.go\<close>, \<^verbatim>\<open>60-degenerate.go\<close>), the clean-up of the calls a model
  emits (\<^verbatim>\<open>40-pipeline.go\<close>), the split of a compaction (\<^verbatim>\<open>90-compact.go\<close>) and the in-memory store of a
  sub-turn (\<^verbatim>\<open>96-substore.go\<close>). The fields of a row that this code only carries along (images, audio, time,
  attachments) are left out; the validity of a JSON text is an argument.
\<close>

record tool_call =
  tc_ID :: string
  tc_Name :: string
  tc_Arguments :: string

record msg_author =
  au_Kind :: string
  au_ID :: string
  au_Name :: string

definition no_author :: msg_author where
  "no_author = \<lparr> au_Kind = [], au_ID = [], au_Name = [] \<rparr>"

record chat_message =
  ms_Role :: string
  ms_Content :: string
  ms_ToolCallID :: string
  ms_ToolName :: string
  ms_ToolCalls :: "tool_call list"
  ms_RowKind :: string
  ms_Author :: msg_author

definition zero_message :: chat_message where
  "zero_message = \<lparr> ms_Role = [], ms_Content = [], ms_ToolCallID = [], ms_ToolName = [], ms_ToolCalls = [],
     ms_RowKind = [], ms_Author = no_author \<rparr>"

abbreviation RowKindMsg :: string where "RowKindMsg \<equiv> ''msg''"
abbreviation RowKindSummary :: string where "RowKindSummary \<equiv> ''summary''"

abbreviation is_tool :: "chat_message \<Rightarrow> bool" where
  "is_tool m \<equiv> ms_Role m = ''tool''"

subsection \<open>Degenerate output\<close>

definition degenMinRunes :: nat where "degenMinRunes = 1500"
definition degenMinDistinct :: nat where "degenMinDistinct = 15"
definition degenMaxRun :: nat where "degenMaxRun = 600"

text \<open>The loop of \<^verbatim>\<open>isDegenerate\<close>: the rune before, its run so far and the longest run.\<close>

fun longest_run :: "string option \<Rightarrow> nat \<Rightarrow> nat \<Rightarrow> string list \<Rightarrow> nat" where
  "longest_run prev run longest [] = longest"
| "longest_run prev run longest (r # rs) =
     (let run' = (if prev = Some r then Suc run else 1)
      in longest_run (Some r) run' (if run' > longest then run' else longest) rs)"

definition isDegenerate :: "string \<Rightarrow> bool" where
  "isDegenerate s =
     (let rs = to_runes s
      in if length rs \<le> degenMinRunes then False
         else length (remdups rs) < degenMinDistinct \<or> longest_run None 0 0 rs > degenMaxRun)"

definition degenDiscardedMarker :: string where
  "degenDiscardedMarker = ''[degenerate model output discarded]''"

definition cleanseDegenerate :: "chat_message list \<Rightarrow> chat_message list" where
  "cleanseDegenerate msgs =
     map (\<lambda>m. if ms_Role m = ''assistant'' \<and> isDegenerate (ms_Content m)
              then m\<lparr>ms_Content := degenDiscardedMarker\<rparr> else m) msgs"

subsection \<open>Speakers\<close>

definition speaker_key :: "chat_message \<Rightarrow> string" where
  "speaker_key m = (if au_ID (ms_Author m) = [] then SanitizeSpeaker (au_Name (ms_Author m)) else au_ID (ms_Author m))"

definition human_row :: "chat_message \<Rightarrow> bool" where
  "human_row m \<longleftrightarrow> ms_Role m = ''user'' \<and> au_Kind (ms_Author m) = ''human''"

definition prefix_speaker :: "chat_message \<Rightarrow> chat_message" where
  "prefix_speaker m =
     (if human_row m \<and> ms_Content m \<noteq> []
      then let name = SanitizeSpeaker (au_Name (ms_Author m))
           in if name \<noteq> [] then m\<lparr>ms_Content := ''['' @ name @ '']: '' @ ms_Content m\<rparr> else m
      else m)"

definition renderSpeakers :: "chat_message list \<Rightarrow> string \<Rightarrow> chat_message list" where
  "renderSpeakers history scope =
     (if \<not> str_contains scope '':group:'' then history
      else let seen = remdups (filter (\<lambda>k. k \<noteq> []) (map speaker_key (filter human_row history)))
           in if length seen < 2 then history else map prefix_speaker history)"

subsection \<open>Orphans\<close>

fun drop_orphans :: "string list \<Rightarrow> chat_message list \<Rightarrow> chat_message list" where
  "drop_orphans seen [] = []"
| "drop_orphans seen (m # ms) =
     (let seen' = (if ms_Role m = ''assistant'' then map tc_ID (ms_ToolCalls m) @ seen else seen)
      in if is_tool m \<and> ms_ToolCallID m \<notin> set seen' then drop_orphans seen' ms
         else m # drop_orphans seen' ms)"

definition dropOrphanToolRows :: "chat_message list \<Rightarrow> chat_message list" where
  "dropOrphanToolRows msgs = drop_orphans [] msgs"

definition interruptedContent :: string where
  "interruptedContent = ''{\"ok\":false,\"error\":\"interrupted '' @ [CHR 0xE2, CHR 0x80, CHR 0x94]
     @ '' result not recorded; this call MAY have completed. Do not assume it failed; do not blindly retry a side-effecting action.\"}''"

definition interrupted_row :: "tool_call \<Rightarrow> chat_message" where
  "interrupted_row call = zero_message\<lparr>ms_Role := ''tool'', ms_ToolCallID := tc_ID call, ms_ToolName := tc_Name call,
     ms_Content := interruptedContent\<rparr>"

fun splice_missing :: "string list \<Rightarrow> tool_call list \<Rightarrow> chat_message list \<times> string list" where
  "splice_missing have [] = ([], have)"
| "splice_missing have (call # calls) =
     (if tc_ID call \<in> set have then splice_missing have calls
      else let (rows, have') = splice_missing (tc_ID call # have) calls in (interrupted_row call # rows, have'))"

fun repair_loop :: "string list \<Rightarrow> chat_message list \<Rightarrow> chat_message list" where
  "repair_loop have [] = []"
| "repair_loop have (m # ms) =
     (if ms_Role m \<noteq> ''assistant'' \<or> ms_ToolCalls m = [] then m # repair_loop have ms
      else let (rows, have') = splice_missing have (ms_ToolCalls m) in m # rows @ repair_loop have' ms)"

definition recorded_ids :: "chat_message list \<Rightarrow> string list" where
  "recorded_ids msgs = map ms_ToolCallID (filter (\<lambda>m. is_tool m \<and> ms_ToolCallID m \<noteq> []) msgs)"

definition repairOrphanToolCalls :: "chat_message list \<Rightarrow> chat_message list" where
  "repairOrphanToolCalls msgs = repair_loop (recorded_ids msgs) msgs"

text \<open>What the model is shown: \<open>note\<close> is the pointer to the conversation log, added when that tool is armed.\<close>

definition summary_first :: "bool \<Rightarrow> string \<Rightarrow> chat_message list \<Rightarrow> chat_message list" where
  "summary_first armed note history =
     (case history of
        [] \<Rightarrow> []
      | h # t \<Rightarrow> if ms_RowKind h = RowKindSummary
                 then zero_message\<lparr>ms_Role := ''user'',
                        ms_Content := ms_Content h @ (if armed then [CHR 0x0A] @ note else []),
                        ms_RowKind := RowKindSummary\<rparr> # t
                 else h # t)"

definition buildMessages :: "string \<Rightarrow> string \<Rightarrow> bool \<Rightarrow> string \<Rightarrow> chat_message list \<Rightarrow> chat_message list" where
  "buildMessages sys scope armed note history =
     (if sys \<noteq> [] then [zero_message\<lparr>ms_Role := ''system'', ms_Content := sys\<rparr>] else [])
     @ repairOrphanToolCalls (dropOrphanToolRows (renderSpeakers (cleanseDegenerate (summary_first armed note history)) scope))"

subsection \<open>The calls a model emits\<close>

text \<open>\<open>synth n\<close> is the identifier made up for the \<open>n\<close>-th call without one.\<close>

fun dedupe_loop :: "(string \<Rightarrow> bool) \<Rightarrow> (nat \<Rightarrow> string) \<Rightarrow> nat \<Rightarrow> string list \<Rightarrow> tool_call list \<Rightarrow> tool_call list" where
  "dedupe_loop json_valid synth n seen [] = []"
| "dedupe_loop json_valid synth n seen (call0 # calls) =
     (let (call, n') = (if tc_ID call0 = [] then (call0\<lparr>tc_ID := synth (Suc n)\<rparr>, Suc n) else (call0, n))
      in if tc_ID call \<in> set seen then dedupe_loop json_valid synth n' seen calls
         else let a = TrimSpace (tc_Arguments call);
                  call' = (if a = [] \<or> \<not> json_valid a then call\<lparr>tc_Arguments := ''{}''\<rparr> else call)
              in call' # dedupe_loop json_valid synth n' (tc_ID call # seen) calls)"

definition dedupeCalls :: "(string \<Rightarrow> bool) \<Rightarrow> (nat \<Rightarrow> string) \<Rightarrow> nat \<Rightarrow> tool_call list \<Rightarrow> tool_call list" where
  "dedupeCalls json_valid synth n calls = dedupe_loop json_valid synth n [] calls"

subsection \<open>The in-memory store\<close>

definition AppendMessage :: "string \<Rightarrow> string \<Rightarrow> msg_author \<Rightarrow> chat_message list \<Rightarrow> chat_message list" where
  "AppendMessage role content author rows =
     rows @ [zero_message\<lparr>ms_Role := role, ms_Content := content, ms_RowKind := RowKindMsg, ms_Author := author\<rparr>]"

definition AppendUserMsgs :: "(string \<times> msg_author) list \<Rightarrow> chat_message list \<Rightarrow> chat_message list" where
  "AppendUserMsgs msgs rows =
     rows @ map (\<lambda>(text, author). zero_message\<lparr>ms_Role := ''user'', ms_Content := text, ms_RowKind := RowKindMsg,
                   ms_Author := author\<rparr>) msgs"

definition AppendAssistantCalls :: "string \<Rightarrow> tool_call list \<Rightarrow> msg_author \<Rightarrow> chat_message list \<Rightarrow> chat_message list" where
  "AppendAssistantCalls content calls author rows =
     rows @ [zero_message\<lparr>ms_Role := ''assistant'', ms_Content := content, ms_ToolCalls := calls, ms_RowKind := RowKindMsg,
               ms_Author := author\<rparr>]"

definition AppendToolResult :: "string \<Rightarrow> string \<Rightarrow> string \<Rightarrow> chat_message list \<Rightarrow> chat_message list" where
  "AppendToolResult toolCallID toolName content rows =
     rows @ [zero_message\<lparr>ms_Role := ''tool'', ms_Content := content, ms_ToolCallID := toolCallID, ms_ToolName := toolName,
               ms_RowKind := RowKindMsg, ms_Author := \<lparr> au_Kind = ''tool'', au_ID = [], au_Name = toolName \<rparr>\<rparr>]"

definition summary_row :: "string \<Rightarrow> chat_message" where
  "summary_row summary = zero_message\<lparr>ms_Role := ''user'', ms_Content := summary, ms_RowKind := RowKindSummary\<rparr>"

definition AppendCompactionBatch :: "string \<Rightarrow> chat_message list \<Rightarrow> chat_message list \<Rightarrow> chat_message list" where
  "AppendCompactionBatch summary recent rows =
     rows @ [summary_row summary] @ map (\<lambda>m. m\<lparr>ms_RowKind := RowKindMsg\<rparr>) recent"

definition tail_rows :: "int \<Rightarrow> chat_message list \<Rightarrow> chat_message list" where
  "tail_rows n rows = (if n \<le> 0 \<or> n \<ge> int (length rows) then rows else drop (length rows - nat n) rows)"

definition GetMessages :: "int \<Rightarrow> chat_message list \<Rightarrow> chat_message list" where
  "GetMessages limit rows = tail_rows limit rows"

text \<open>The rows from the last summary on, if there is one.\<close>

fun from_summary :: "chat_message list \<Rightarrow> chat_message list option" where
  "from_summary [] = None"
| "from_summary (m # ms) =
     (case from_summary ms of
        Some r \<Rightarrow> Some r
      | None \<Rightarrow> if ms_RowKind m = RowKindSummary then Some (m # ms) else None)"

definition GetReplay :: "int \<Rightarrow> chat_message list \<Rightarrow> chat_message list" where
  "GetReplay cap rows = (case from_summary rows of Some r \<Rightarrow> r | None \<Rightarrow> tail_rows cap rows)"

subsection \<open>The split of a compaction\<close>

text \<open>How many rows the walk from the end keeps, over the reversed rows.\<close>

fun walk_back :: "(chat_message \<Rightarrow> int) \<Rightarrow> int \<Rightarrow> int \<Rightarrow> chat_message list \<Rightarrow> nat" where
  "walk_back weight keepTokens tok [] = 0"
| "walk_back weight keepTokens tok (m # ms) =
     (if tok + weight m \<ge> keepTokens then 1 else Suc (walk_back weight keepTokens (tok + weight m) ms))"

primrec out_of_pair :: "chat_message list \<Rightarrow> nat \<Rightarrow> nat" where
  "out_of_pair replay 0 = 0"
| "out_of_pair replay (Suc n) = (if is_tool (replay ! Suc n) then out_of_pair replay n else Suc n)"

definition splitForCompaction :: "chat_message list \<Rightarrow> int \<Rightarrow> (chat_message \<Rightarrow> int)
    \<Rightarrow> (chat_message list \<times> chat_message list) option" where
  "splitForCompaction replay keepTokens weight =
     (if length replay < 2 then None
      else let cut0 = length replay - walk_back weight keepTokens 0 (rev replay);
               cut = out_of_pair replay cut0
           in if cut = 0 then None else Some (take cut replay, drop cut replay))"

definition renderForSummary :: "chat_message list \<Rightarrow> string" where
  "renderForSummary older =
     concat (map (\<lambda>m. if ms_Content m = [] then [] else ms_Role m @ '': '' @ ms_Content m @ [CHR 0x0A]) older)"

subsection \<open>Well-formed transcripts\<close>

definition calls_of :: "chat_message \<Rightarrow> string list" where
  "calls_of m = (if ms_Role m = ''assistant'' then map tc_ID (ms_ToolCalls m) else [])"

definition call_ids :: "chat_message list \<Rightarrow> string list" where
  "call_ids ms = concat (map calls_of ms)"

definition result_ids :: "chat_message list \<Rightarrow> string set" where
  "result_ids ms = ms_ToolCallID ` {m \<in> set ms. is_tool m}"

text \<open>Every result has a call before it, and every call a result after it.\<close>

fun backed :: "string list \<Rightarrow> chat_message list \<Rightarrow> bool" where
  "backed seen [] = True"
| "backed seen (m # ms) = ((is_tool m \<longrightarrow> ms_ToolCallID m \<in> set seen) \<and> backed (calls_of m @ seen) ms)"

fun answered :: "chat_message list \<Rightarrow> bool" where
  "answered [] = True"
| "answered (m # ms) = (set (calls_of m) \<subseteq> result_ids ms \<and> answered ms)"

lemma call_ids_simps [simp]: "call_ids [] = []" "call_ids (m # ms) = calls_of m @ call_ids ms"
  by (simp_all add: call_ids_def)

lemma result_ids_simps [simp]:
  "result_ids [] = {}" "result_ids (m # ms) = (if is_tool m then insert (ms_ToolCallID m) (result_ids ms) else result_ids ms)"
  "result_ids (a @ b) = result_ids a \<union> result_ids b"
  by (auto simp: result_ids_def)

lemma calls_of_tool [simp]: "is_tool m \<Longrightarrow> calls_of m = []"
  by (simp add: calls_of_def)

lemma drop_orphans_backed: "backed seen (drop_orphans seen ms)"
proof (induction ms arbitrary: seen)
  case (Cons m ms)
  have eq: "(if ms_Role m = ''assistant'' then map tc_ID (ms_ToolCalls m) @ seen else seen) = calls_of m @ seen"
    by (simp add: calls_of_def)
  show ?case
    using Cons.IH[of "calls_of m @ seen"] by (auto simp: eq Let_def)
qed simp

lemma drop_orphans_ids [simp]: "call_ids (drop_orphans seen ms) = call_ids ms"
  by (induction ms arbitrary: seen) (auto simp: Let_def)

lemma drop_orphans_others: "filter (\<lambda>m. \<not> is_tool m) (drop_orphans seen ms) = filter (\<lambda>m. \<not> is_tool m) ms"
  by (induction ms arbitrary: seen) (auto simp: Let_def)

lemma splice_spec:
  "splice_missing have calls = (rows, have') \<Longrightarrow>
     set have' = set have \<union> set (map tc_ID calls)
   \<and> ms_ToolCallID ` set rows = set (map tc_ID calls) - set have \<and> (\<forall>r \<in> set rows. is_tool r)"
proof (induction calls arbitrary: "have" rows have')
  case (Cons call calls)
  show ?case
  proof (cases "tc_ID call \<in> set have")
    case True
    then have "splice_missing have calls = (rows, have')" using Cons.prems by simp
    from Cons.IH[OF this] True show ?thesis by auto
  next
    case False
    obtain rs h where r: "splice_missing (tc_ID call # have) calls = (rs, h)" by fastforce
    then have out: "rows = interrupted_row call # rs" "have' = h" using Cons.prems False by auto
    have "ms_ToolCallID (interrupted_row call) = tc_ID call" "is_tool (interrupted_row call)"
      by (simp_all add: interrupted_row_def)
    then show ?thesis using Cons.IH[OF r] out False by auto
  qed
qed simp

lemma splice_results:
  assumes "splice_missing have calls = (rows, have')"
  shows "result_ids rows = set (map tc_ID calls) - set have" "call_ids rows = []" "filter (\<lambda>m. \<not> is_tool m) rows = []"
    "answered (rows @ ms) = answered ms"
proof -
  have tool: "\<And>r. r \<in> set rows \<Longrightarrow> is_tool r" using splice_spec[OF assms] by blast
  show "result_ids rows = set (map tc_ID calls) - set have"
  proof -
    have "{m \<in> set rows. is_tool m} = set rows" using tool by blast
    then show ?thesis using splice_spec[OF assms] by (simp add: result_ids_def)
  qed
  show "call_ids rows = []" using tool by (simp add: call_ids_def)
  show "filter (\<lambda>m. \<not> is_tool m) rows = []" using tool by (simp add: filter_empty_conv)
  show "answered (rows @ ms) = answered ms" using tool by (induction rows) auto
qed

lemma backed_splice:
  "(\<And>r. r \<in> set rows \<Longrightarrow> is_tool r \<and> ms_ToolCallID r \<in> set seen) \<Longrightarrow> backed seen (rows @ ms) = backed seen ms"
  by (induction rows) auto

lemma repair_step:
  assumes "ms_Role m = ''assistant''" "splice_missing have (ms_ToolCalls m) = (rows, have')"
  shows "repair_loop have (m # ms) = m # rows @ repair_loop have' ms"
  using assms by (cases "ms_ToolCalls m") auto

lemma repair_other: "ms_Role m \<noteq> ''assistant'' \<Longrightarrow> repair_loop have (m # ms) = m # repair_loop have ms"
  by simp

lemma repair_ids [simp]: "call_ids (repair_loop have ms) = call_ids ms"
proof (induction ms arbitrary: "have")
  case (Cons m ms)
  obtain rows have' where r: "splice_missing have (ms_ToolCalls m) = (rows, have')" by fastforce
  show ?case
    using Cons.IH repair_step[OF _ r] splice_results(2)[OF r] by (cases "ms_Role m = ''assistant''") (simp_all add: call_ids_def)
qed simp

lemma repair_others: "filter (\<lambda>m. \<not> is_tool m) (repair_loop have ms) = filter (\<lambda>m. \<not> is_tool m) ms"
proof (induction ms arbitrary: "have")
  case (Cons m ms)
  obtain rows have' where r: "splice_missing have (ms_ToolCalls m) = (rows, have')" by fastforce
  show ?case
    using Cons.IH repair_step[OF _ r] splice_results(3)[OF r] by (cases "ms_Role m = ''assistant''") simp_all
qed simp

lemma repair_results: "result_ids ms \<subseteq> result_ids (repair_loop have ms)"
proof (induction ms arbitrary: "have")
  case (Cons m ms)
  obtain rows have' where r: "splice_missing have (ms_ToolCalls m) = (rows, have')" by fastforce
  show ?case
    using Cons.IH[of "have"] Cons.IH[of have'] repair_step[OF _ r] by (cases "ms_Role m = ''assistant''") auto
qed simp

lemma repair_backed: "backed seen ms \<Longrightarrow> backed seen (repair_loop have ms)"
proof (induction ms arbitrary: seen "have")
  case (Cons m ms)
  obtain rows have' where r: "splice_missing have (ms_ToolCalls m) = (rows, have')" by fastforce
  show ?case
  proof (cases "ms_Role m = ''assistant''")
    case True
    have "backed (calls_of m @ seen) (rows @ repair_loop have' ms)"
      using splice_spec[OF r] Cons True
      by (subst backed_splice) (auto simp: calls_of_def)
    then show ?thesis using Cons.prems repair_step[OF True r] by simp
  next
    case False
    then show ?thesis using Cons by simp
  qed
qed simp

text \<open>Identifiers not used twice: a result counts for the call before it.\<close>

lemma repair_answered:
  assumes "backed seen ms" and "distinct (call_ids ms)" and "set seen \<inter> set (call_ids ms) = {}"
    and "set have \<inter> set (call_ids ms) \<subseteq> result_ids ms"
  shows "answered (repair_loop have ms)"
  using assms
proof (induction ms arbitrary: seen "have")
  case (Cons m ms)
  obtain rows have' where r: "splice_missing have (ms_ToolCalls m) = (rows, have')" by fastforce
  show ?case
  proof (cases "ms_Role m = ''assistant''")
    case True
    have ids: "set have' = set have \<union> set (calls_of m)" "result_ids rows = set (calls_of m) - set have"
      using splice_spec[OF r] splice_results(1)[OF r] True by (auto simp: calls_of_def)
    have nt: "\<not> is_tool m" using True by simp
    have "answered (repair_loop have' ms)"
      by (rule Cons.IH[of "calls_of m @ seen"]) (use Cons.prems ids nt in auto)
    moreover have "set (calls_of m) \<subseteq> result_ids (rows @ repair_loop have' ms)"
      using Cons.prems(4) ids(2) nt repair_results[of ms have'] by auto
    ultimately show ?thesis using repair_step[OF True r] splice_results(4)[OF r] by simp
  next
    case False
    have none: "calls_of m = []" using False by (simp add: calls_of_def)
    have "answered (repair_loop have ms)"
      by (rule Cons.IH[of seen]) (use Cons.prems none in \<open>auto split: if_splits\<close>)
    then show ?thesis using False none by simp
  qed
qed simp

lemma recorded_results: "set (recorded_ids ms) \<subseteq> result_ids ms"
  by (auto simp: recorded_ids_def result_ids_def)

lemma content_only_ids:
  "(\<And>m. ms_Role (f m) = ms_Role m \<and> ms_ToolCalls (f m) = ms_ToolCalls m) \<Longrightarrow> call_ids (map f ms) = call_ids ms"
  by (induction ms) (auto simp: calls_of_def)

lemma cleanse_ids: "call_ids (cleanseDegenerate ms) = call_ids ms"
  unfolding cleanseDegenerate_def by (rule content_only_ids) simp

lemma speakers_ids: "call_ids (renderSpeakers ms scope) = call_ids ms"
  by (auto simp: renderSpeakers_def prefix_speaker_def Let_def intro!: content_only_ids)

lemma summary_first_ids: "distinct (call_ids ms) \<Longrightarrow> distinct (call_ids (summary_first armed note ms))"
  by (cases ms) (auto simp: summary_first_def zero_message_def calls_of_def)

text \<open>
  A tool result is severed when no call before it has its identifier. \<open>unsevered\<close> are the other rows;
  \<open>made_up\<close> is a result that none of the given rows recorded.
\<close>

definition severed :: "chat_message list \<Rightarrow> nat \<Rightarrow> bool" where
  "severed ms i \<longleftrightarrow> is_tool (ms ! i) \<and> (\<forall>j<i. ms_ToolCallID (ms ! i) \<notin> set (calls_of (ms ! j)))"

definition unsevered :: "chat_message list \<Rightarrow> chat_message list" where
  "unsevered ms = nths ms {i. \<not> severed ms i}"

definition made_up :: "chat_message list \<Rightarrow> chat_message \<Rightarrow> bool" where
  "made_up kept m \<longleftrightarrow> is_tool m \<and> ms_ToolCallID m \<notin> result_ids kept"

definition severed_from :: "string list \<Rightarrow> chat_message list \<Rightarrow> nat \<Rightarrow> bool" where
  "severed_from seen ms i \<longleftrightarrow> ms_ToolCallID (ms ! i) \<notin> set seen \<and> severed ms i"

lemma severed_shift:
  "severed_from seen (m # ms) 0 = (is_tool m \<and> ms_ToolCallID m \<notin> set seen)"
  "severed_from seen (m # ms) (Suc i) = severed_from (calls_of m @ seen) ms i"
  by (auto simp: severed_from_def severed_def less_Suc_eq_0_disj)

lemma drop_orphans_unsevered: "drop_orphans seen ms = nths ms {i. \<not> severed_from seen ms i}"
proof (induction ms arbitrary: seen)
  case (Cons m ms)
  have eq: "(if ms_Role m = ''assistant'' then map tc_ID (ms_ToolCalls m) @ seen else seen) = calls_of m @ seen"
    by (simp add: calls_of_def)
  show ?case using Cons.IH[of "calls_of m @ seen"] by (auto simp: eq Let_def nths_Cons severed_shift)
qed simp

lemma drop_is_unsevered: "dropOrphanToolRows ms = unsevered ms"
  by (simp add: dropOrphanToolRows_def drop_orphans_unsevered unsevered_def severed_from_def)

lemma repair_adds_only:
  assumes "set recorded \<subseteq> set have"
  shows "filter (\<lambda>m. \<not> (is_tool m \<and> ms_ToolCallID m \<notin> set recorded)) (repair_loop have ms)
    = filter (\<lambda>m. \<not> (is_tool m \<and> ms_ToolCallID m \<notin> set recorded)) ms"
  using assms
proof (induction ms arbitrary: "have")
  case (Cons m ms)
  obtain rows have' where r: "splice_missing have (ms_ToolCalls m) = (rows, have')" by fastforce
  note sp = splice_spec[OF r]
  have "filter (\<lambda>m. \<not> (is_tool m \<and> ms_ToolCallID m \<notin> set recorded)) rows = []"
    using sp Cons.prems by (force simp: filter_empty_conv)
  moreover have "set recorded \<subseteq> set have'" using sp Cons.prems by auto
  ultimately show ?case
    using Cons.IH[of "have"] Cons.IH[of have'] Cons.prems repair_step[OF _ r] by (cases "ms_Role m = ''assistant''") auto
qed simp

lemma backed_results: "backed seen ms \<Longrightarrow> result_ids ms \<subseteq> set seen \<union> set (call_ids ms)"
proof (induction ms arbitrary: seen)
  case (Cons m ms)
  then show ?case using Cons.IH[of "calls_of m @ seen"] by (auto split: if_splits)
qed simp

lemma spliced_rows: "splice_missing have calls = (rows, have') \<Longrightarrow> set rows \<subseteq> interrupted_row ` set calls"
  by (induction calls arbitrary: "have" rows have') (fastforce split: if_splits prod.splits)+

lemma repair_rows: "m \<in> set (repair_loop have ms) \<Longrightarrow> m \<in> set ms \<or> (\<exists>a\<in>set ms. \<exists>c\<in>set (ms_ToolCalls a). m = interrupted_row c)"
proof (induction ms arbitrary: "have")
  case (Cons a ms)
  obtain rows have' where r: "splice_missing have (ms_ToolCalls a) = (rows, have')" by fastforce
  have "m \<in> set rows \<Longrightarrow> \<exists>c\<in>set (ms_ToolCalls a). m = interrupted_row c" using spliced_rows[OF r] by auto
  then show ?case
    using Cons.IH[of "have"] Cons.IH[of have'] Cons.prems repair_step[OF _ r] by (cases "ms_Role a = ''assistant''") auto
qed simp

text \<open>
  C11. Whatever a crash, a cut of the window or an aborted write left in the store, the rows the model is
  shown are a well-formed conversation: every tool result stands behind a call of its identifier and every
  call has a result behind it. The repair loses and invents as little as it can: exactly the severed
  results are dropped, every other row is shown in its place, and the only rows added are the notices that
  the result of a call was not recorded, for calls without a recorded result. The identifiers of the calls
  must be there and not repeat, which the clean-up of each round's calls provides within a round.
\<close>

theorem shown_transcript_well_formed:
  assumes "distinct (call_ids history)" and "[] \<notin> set (call_ids history)"
  shows "let shown = buildMessages sys scope armed note history;
             rendered = renderSpeakers (cleanseDegenerate (summary_first armed note history)) scope;
             kept = unsevered rendered
    in backed [] shown \<and> answered shown
       \<and> filter (\<lambda>m. \<not> made_up kept m) shown
         = (if sys \<noteq> [] then [zero_message\<lparr>ms_Role := ''system'', ms_Content := sys\<rparr>] else []) @ kept
       \<and> (\<forall>m\<in>set shown. made_up kept m \<longrightarrow> (\<exists>a\<in>set kept. \<exists>c\<in>set (ms_ToolCalls a). m = interrupted_row c))"
proof -
  let ?h = "renderSpeakers (cleanseDegenerate (summary_first armed note history)) scope"
  let ?d = "dropOrphanToolRows ?h"
  have ids: "set (call_ids (summary_first armed note history)) \<subseteq> set (call_ids history)"
    by (cases history) (auto simp: summary_first_def zero_message_def calls_of_def)
  have d: "distinct (call_ids ?d)" and ne: "[] \<notin> set (call_ids ?d)"
    using summary_first_ids[OF assms(1)] ids assms(2) by (auto simp: dropOrphanToolRows_def speakers_ids cleanse_ids)
  have b: "backed [] ?d" unfolding dropOrphanToolRows_def by (rule drop_orphans_backed)
  have "[] \<notin> result_ids ?d" using backed_results[OF b] ne by auto
  then have rec: "set (recorded_ids ?d) = result_ids ?d"
    unfolding recorded_ids_def result_ids_def by (auto simp: image_iff) metis
  have "backed [] (repairOrphanToolCalls ?d)" unfolding repairOrphanToolCalls_def by (rule repair_backed[OF b])
  moreover have "answered (repairOrphanToolCalls ?d)"
    unfolding repairOrphanToolCalls_def by (rule repair_answered[OF b d]) (use rec in auto)
  moreover have "filter (\<lambda>m. \<not> made_up ?d m) (repairOrphanToolCalls ?d) = ?d"
    using repair_adds_only[OF subset_refl, of "recorded_ids ?d" ?d] rec
    by (simp add: repairOrphanToolCalls_def made_up_def filter_id_conv) (auto simp: result_ids_def)
  moreover have "m \<in> set (repairOrphanToolCalls ?d) \<Longrightarrow> made_up ?d m \<Longrightarrow> \<exists>a\<in>set ?d. \<exists>c\<in>set (ms_ToolCalls a). m = interrupted_row c" for m
    using repair_rows[of m "recorded_ids ?d" ?d] by (auto simp: repairOrphanToolCalls_def made_up_def result_ids_def)
  moreover have "\<not> made_up k (zero_message\<lparr>ms_Role := ''system'', ms_Content := sys\<rparr>)" for k by (simp add: made_up_def)
  ultimately show ?thesis
    unfolding Let_def buildMessages_def drop_is_unsevered[symmetric]
    by (auto simp: zero_message_def calls_of_def)
qed

definition demo_call :: "string \<Rightarrow> tool_call" where
  "demo_call i = \<lparr> tc_ID = i, tc_Name = ''t'', tc_Arguments = ''{}'' \<rparr>"

definition demo_asks :: "string list \<Rightarrow> chat_message" where
  "demo_asks ids = zero_message\<lparr>ms_Role := ''assistant'', ms_ToolCalls := map demo_call ids\<rparr>"

definition demo_gives :: "string \<Rightarrow> chat_message" where
  "demo_gives i = zero_message\<lparr>ms_Role := ''tool'', ms_ToolCallID := i, ms_Content := ''ok''\<rparr>"

theorem shown_transcript_well_formed_witness:
  "answered (buildMessages ''sys'' ''tg:dm:1'' False [] [demo_gives ''z'', demo_asks [''a'', ''b''], demo_gives ''a''])
   \<and> demo_gives ''a'' \<in> set (buildMessages ''sys'' ''tg:dm:1'' False [] [demo_gives ''z'', demo_asks [''a'', ''b''], demo_gives ''a''])"
proof -
  let ?h = "[demo_gives ''z'', demo_asks [''a'', ''b''], demo_gives ''a'']"
  have "distinct (call_ids ?h)" "[] \<notin> set (call_ids ?h)" by code_simp+
  note w = shown_transcript_well_formed[OF this, of "''sys''" "''tg:dm:1''" False "[]", unfolded Let_def]
  have "unsevered (renderSpeakers (cleanseDegenerate (summary_first False [] ?h)) ''tg:dm:1'') = [demo_asks [''a'', ''b''], demo_gives ''a'']"
    unfolding drop_is_unsevered[symmetric] by code_simp
  with w have "demo_gives ''a'' \<in> set (filter (\<lambda>m. \<not> made_up [demo_asks [''a'', ''b''], demo_gives ''a''] m) (buildMessages ''sys'' ''tg:dm:1'' False [] ?h))"
    by simp
  then show ?thesis using w by simp
qed

text \<open>An identifier used by two rounds: the second call counts as answered by the first result and is
  shown without one.\<close>

lemma repair_misses_reused_id:
  "\<not> answered (buildMessages [] ''tg:dm:1'' False [] [demo_asks [''a''], demo_gives ''a'', demo_asks [''a'']])"
  by code_simp

subsection \<open>Repetition walls\<close>

text \<open>A run of at least \<open>k\<close> equal runes somewhere.\<close>

definition has_run :: "nat \<Rightarrow> 'a list \<Rightarrow> bool" where
  "has_run k rs \<longleftrightarrow> (\<exists>pre r n post. rs = pre @ replicate n r @ post \<and> k \<le> n)"

lemma replicate_takeWhile: "\<exists>post. rs = replicate (length (takeWhile (\<lambda>y. y = x) rs)) x @ post"
  by (induction rs) auto

lemma has_run_Cons:
  assumes "1 \<le> k"
  shows "has_run k (x # xs) \<longleftrightarrow> k \<le> Suc (length (takeWhile (\<lambda>y. y = x) xs)) \<or> has_run k xs" (is "?l \<longleftrightarrow> ?a \<or> ?b")
proof
  assume ?l
  then obtain pre r n post where e: "x # xs = pre @ replicate n r @ post" "k \<le> n" by (auto simp: has_run_def)
  show "?a \<or> ?b"
  proof (cases pre)
    case Nil
    then obtain m where n: "n = Suc m" using assms e(2) by (cases n) auto
    then have "x = r" "xs = replicate m r @ post" using e(1) Nil by simp_all
    then have "m \<le> length (takeWhile (\<lambda>y. y = x) xs)" by (simp add: takeWhile_append)
    then show ?thesis using e(2) n by simp
  next
    case (Cons y ys)
    then show ?thesis using e by (auto simp: has_run_def)
  qed
next
  assume "?a \<or> ?b"
  then show ?l
  proof
    assume ?a
    obtain post where "xs = replicate (length (takeWhile (\<lambda>y. y = x) xs)) x @ post" using replicate_takeWhile[of xs x] by (elim exE)
    then have "x # xs = [] @ replicate (Suc (length (takeWhile (\<lambda>y. y = x) xs))) x @ post"
      by (metis append_Nil append_Cons replicate_Suc)
    with \<open>?a\<close> show ?l unfolding has_run_def by (intro exI conjI)
  next
    assume ?b
    then obtain pre r n post where "xs = pre @ replicate n r @ post" "k \<le> n" by (auto simp: has_run_def)
    then have "x # xs = (x # pre) @ replicate n r @ post" by simp
    with \<open>k \<le> n\<close> show ?l unfolding has_run_def by (intro exI conjI)
  qed
qed

lemma longest_run_iff:
  assumes "1 \<le> k"
  shows "k \<le> longest_run (Some p) run longest rs \<longleftrightarrow>
    k \<le> longest \<or> (let l = length (takeWhile (\<lambda>y. y = p) rs) in 1 \<le> l \<and> k \<le> run + l) \<or> has_run k rs"
proof (induction rs arbitrary: p run longest)
  case Nil
  then show ?case using assms by (simp add: has_run_def)
next
  case (Cons x xs)
  define l where "l = length (takeWhile (\<lambda>y. y = x) xs)"
  note run = has_run_Cons[OF assms, of x xs, folded l_def]
  show ?case
  proof (cases "x = p")
    case True
    have "longest_run (Some p) run longest (x # xs) = longest_run (Some x) (Suc run) (max longest (Suc run)) xs"
      using True by (simp add: max_def)
    moreover have "length (takeWhile (\<lambda>y. y = p) (x # xs)) = Suc l" using True by (simp add: l_def)
    ultimately show ?thesis
      using Cons.IH[of x "Suc run" "max longest (Suc run)", folded l_def] assms run by (simp add: Let_def le_max_iff_disj) linarith
  next
    case False
    have "longest_run (Some p) run longest (x # xs) = longest_run (Some x) 1 (max longest 1) xs"
      using False by (cases longest) (auto simp: max_def)
    moreover have "length (takeWhile (\<lambda>y. y = p) (x # xs)) = 0" using False by simp
    ultimately show ?thesis
      using Cons.IH[of x 1 "max longest 1", folded l_def] assms run by (simp add: Let_def le_max_iff_disj) linarith
  qed
qed

lemma longest_run_start:
  assumes "1 \<le> k"
  shows "k \<le> longest_run None 0 0 rs \<longleftrightarrow> has_run k rs"
proof (cases rs)
  case Nil
  then show ?thesis using assms by (simp add: has_run_def)
next
  case (Cons x xs)
  then show ?thesis
    using longest_run_iff[OF assms, of x 1 1 xs] assms by (auto simp: has_run_Cons[OF assms] Let_def)
qed

text \<open>
  The one-pass detector computes what a repetition wall is: a reply of more than 1500 runes with fewer
  than 15 different ones or one of them more than 600 times in a row. Nothing shorter is ever discarded.
\<close>

theorem degenerate_is_repetition_wall:
  "isDegenerate s \<longleftrightarrow> 1500 < length (to_runes s)
     \<and> (card (set (to_runes s)) < 15 \<or> (\<exists>pre r n post. to_runes s = pre @ replicate n r @ post \<and> 600 < n))"
proof -
  have "600 < longest_run None 0 0 (to_runes s) \<longleftrightarrow> 601 \<le> longest_run None 0 0 (to_runes s)" by linarith
  also have "\<dots> \<longleftrightarrow> has_run 601 (to_runes s)" by (rule longest_run_start) simp
  also have "\<dots> \<longleftrightarrow> (\<exists>pre r n post. to_runes s = pre @ replicate n r @ post \<and> 600 < n)"
    unfolding has_run_def by (simp add: Suc_le_eq[of 600, simplified, symmetric])
  finally have run: "600 < longest_run None 0 0 (to_runes s) \<longleftrightarrow>
      (\<exists>pre r n post. to_runes s = pre @ replicate n r @ post \<and> 600 < n)" .
  show ?thesis
    unfolding isDegenerate_def Let_def degenMinRunes_def degenMinDistinct_def degenMaxRun_def length_remdups_card_conv run
    by (simp add: not_le)
qed

subsection \<open>The split keeps the pairs\<close>

text \<open>The rows as a turn writes them: the results of a row of calls follow it at once.\<close>

fun paired :: "string list \<Rightarrow> chat_message list \<Rightarrow> bool" where
  "paired cur [] = True"
| "paired cur (m # ms) = (if is_tool m then ms_ToolCallID m \<in> set cur \<and> paired cur ms else paired (calls_of m) ms)"

lemma paired_append:
  "paired cur (xs @ ys) \<Longrightarrow> paired cur xs \<and> (ys \<noteq> [] \<longrightarrow> \<not> is_tool (hd ys) \<longrightarrow> paired d ys)"
proof (induction xs arbitrary: cur)
  case Nil
  then show ?case by (cases ys) auto
next
  case (Cons m xs)
  then show ?case by (cases "is_tool m") auto
qed

lemma walk_back_bounds: "ms \<noteq> [] \<Longrightarrow> 1 \<le> walk_back w k tok ms \<and> walk_back w k tok ms \<le> length ms"
proof (induction ms arbitrary: tok)
  case (Cons m ms)
  then show ?case by (cases ms) (auto simp del: walk_back.simps(2) simp add: walk_back.simps(2)[of w k tok m])
qed simp

lemma walk_back_short:
  "walk_back w k tok ms \<le> length ms \<Longrightarrow>
     tok + sum_list (map w (take (walk_back w k tok ms) ms)) \<ge> k \<or> walk_back w k tok ms = length ms"
proof (induction ms arbitrary: tok)
  case (Cons m ms)
  then show ?case using Cons.IH[of "tok + w m"] by (auto simp: algebra_simps)
qed simp

lemma out_of_pair_le: "out_of_pair r n \<le> n"
  by (induction n) (auto intro: le_SucI)

lemma out_of_pair_head: "out_of_pair r n \<noteq> 0 \<Longrightarrow> \<not> is_tool (r ! out_of_pair r n)"
  by (induction n) auto

lemma split_facts:
  assumes "splitForCompaction replay k w = Some (older, recent)"
  shows "older @ recent = replay" "older \<noteq> []" "recent \<noteq> []" "\<not> is_tool (hd recent)"
proof -
  define cut where "cut = out_of_pair replay (length replay - walk_back w k 0 (rev replay))"
  have len: "2 \<le> length replay" and eq: "older = take cut replay" "recent = drop cut replay" and pos: "cut \<noteq> 0"
    using assms by (auto simp: splitForCompaction_def Let_def cut_def split: if_splits)
  have "1 \<le> walk_back w k 0 (rev replay)" using walk_back_bounds[of "rev replay"] len by force
  then have lt: "cut < length replay"
    using out_of_pair_le[of replay "length replay - walk_back w k 0 (rev replay)"] len by (simp add: cut_def)
  show "older @ recent = replay" "older \<noteq> []" "recent \<noteq> []" using eq pos lt len by auto
  show "\<not> is_tool (hd recent)"
    using out_of_pair_head[of replay "length replay - walk_back w k 0 (rev replay)"] pos lt
    by (simp add: eq hd_drop_conv_nth cut_def)
qed

text \<open>The kept tail reaches the wanted weight: the walk stops at the first row that does, and moving the cut
  out of a pair only adds rows.\<close>

lemma split_keeps_weight:
  assumes "splitForCompaction replay k w = Some (older, recent)" and "\<And>m. 0 \<le> w m"
  shows "k \<le> sum_list (map w recent)"
proof -
  define n where "n = walk_back w k 0 (rev replay)"
  define cut where "cut = out_of_pair replay (length replay - n)"
  have len: "2 \<le> length replay" and eq: "recent = drop cut replay" and pos: "cut \<noteq> 0"
    using assms by (auto simp: splitForCompaction_def Let_def cut_def n_def split: if_splits)
  have n: "1 \<le> n" "n \<le> length replay" using walk_back_bounds[of "rev replay" w k 0] len by (cases replay; force simp: n_def)+
  have cut: "cut \<le> length replay - n" by (simp add: cut_def out_of_pair_le)
  then have "n \<noteq> length replay" using pos by auto
  then have "k \<le> sum_list (map w (take n (rev replay)))"
    using walk_back_short[of w k 0 "rev replay"] n by (simp add: n_def)
  also have "\<dots> = sum_list (map w (drop (length replay - n) replay))"
  proof -
    have "take n (rev replay) = rev (drop (length replay - n) replay)" by (simp add: take_rev)
    then show ?thesis by (simp add: rev_map[symmetric])
  qed
  also have "\<dots> \<le> sum_list (map w (drop cut replay))"
  proof -
    have "drop cut replay = take (length replay - n - cut) (drop cut replay) @ drop (length replay - n) replay"
    proof -
      have "length replay - n - cut + cut = length replay - n" using cut by simp
      then have "drop (length replay - n - cut) (drop cut replay) = drop (length replay - n) replay" by simp
      then show ?thesis using append_take_drop_id[of "length replay - n - cut" "drop cut replay"] by metis
    qed
    then have "sum_list (map w (drop cut replay)) =
        sum_list (map w (take (length replay - n - cut) (drop cut replay))) + sum_list (map w (drop (length replay - n) replay))"
      by (metis map_append sum_list_append)
    moreover have "0 \<le> sum_list (map w (take (length replay - n - cut) (drop cut replay)))"
      using assms(2) by (intro sum_list_nonneg) auto
    ultimately show ?thesis by simp
  qed
  finally show ?thesis by (simp add: eq)
qed

text \<open>
  C26. A compaction never tears a call from its results: the two parts put together are the replay, neither is
  empty, the part that stays opens with no tool result and weighs at least what was to be kept, and when
  every result followed its call in the replay it does so in both parts.
\<close>

theorem compaction_split_sound:
  assumes "splitForCompaction replay keepTokens weight = Some (older, recent)" and "\<And>m. 0 \<le> weight m"
  shows "older @ recent = replay \<and> older \<noteq> [] \<and> recent \<noteq> [] \<and> \<not> is_tool (hd recent)
     \<and> keepTokens \<le> sum_list (map weight recent)
     \<and> (paired [] replay \<longrightarrow> paired [] older \<and> paired [] recent)"
  using split_facts[OF assms(1)] split_keeps_weight[OF assms] paired_append[of "[]" older recent "[]"] by auto

definition demo_rows :: "chat_message list" where
  "demo_rows = [demo_asks [''a''], demo_gives ''a'', demo_asks [''b'', ''c''], demo_gives ''b'', demo_gives ''c'']"

theorem compaction_split_sound_witness: "paired [] (take 2 demo_rows) \<and> paired [] (drop 2 demo_rows)"
proof -
  have s: "splitForCompaction demo_rows 2 (\<lambda>m. 1) = Some (take 2 demo_rows, drop 2 demo_rows)" by code_simp
  have "paired [] demo_rows" by code_simp
  with compaction_split_sound[OF s] show ?thesis by simp
qed

subsection \<open>The store after a compaction\<close>

lemma from_summary_plain: "(\<And>m. m \<in> set ms \<Longrightarrow> ms_RowKind m \<noteq> RowKindSummary) \<Longrightarrow> from_summary ms = None"
  by (induction ms) auto

lemma from_summary_append:
  "from_summary b = Some r \<Longrightarrow> from_summary (a @ b) = Some r"
  by (induction a) auto

lemma from_summary_last:
  "(\<And>m. m \<in> set b \<Longrightarrow> ms_RowKind m \<noteq> RowKindSummary) \<Longrightarrow> ms_RowKind x = RowKindSummary \<Longrightarrow>
     from_summary (a @ x # b) = Some (x # b)"
  by (rule from_summary_append) (simp add: from_summary_plain)

text \<open>
  What a compaction of a sub-turn writes is what its next round reads: the replay from the in-memory store is the
  summary, as a message of the user, followed by the rows that were kept, tagged as ordinary messages, whatever
  the store held before and however small the cap on rows, and the older rows stay in the store.
\<close>

theorem replay_after_compaction:
  "GetReplay cap (AppendCompactionBatch summary recent rows)
     = summary_row summary # map (\<lambda>m. m\<lparr>ms_RowKind := RowKindMsg\<rparr>) recent
   \<and> take (length rows) (GetMessages 0 (AppendCompactionBatch summary recent rows)) = rows"
proof -
  have "from_summary (rows @ summary_row summary # map (\<lambda>m. m\<lparr>ms_RowKind := RowKindMsg\<rparr>) recent)
      = Some (summary_row summary # map (\<lambda>m. m\<lparr>ms_RowKind := RowKindMsg\<rparr>) recent)"
    by (rule from_summary_last) (auto simp: summary_row_def)
  then show ?thesis
    by (simp add: GetReplay_def GetMessages_def AppendCompactionBatch_def tail_rows_def)
qed

subsection \<open>The calls of one round\<close>

lemma dedupe_loop_spec:
  "distinct (map tc_ID (dedupe_loop v sy n seen calls)) \<and> set (map tc_ID (dedupe_loop v sy n seen calls)) \<inter> set seen = {}
   \<and> (\<forall>c \<in> set (dedupe_loop v sy n seen calls). tc_Arguments c = ''{}'' \<or> v (TrimSpace (tc_Arguments c)))"
proof (induction calls arbitrary: n seen)
  case (Cons c calls)
  define c1 where "c1 = (if tc_ID c = [] then c\<lparr>tc_ID := sy (Suc n)\<rparr> else c)"
  define n1 where "n1 = (if tc_ID c = [] then Suc n else n)"
  define c2 where "c2 = (if TrimSpace (tc_Arguments c1) = [] \<or> \<not> v (TrimSpace (tc_Arguments c1)) then c1\<lparr>tc_Arguments := ''{}''\<rparr> else c1)"
  have id2: "tc_ID c2 = tc_ID c1" by (simp add: c2_def)
  have arg: "tc_Arguments c2 = ''{}'' \<or> v (TrimSpace (tc_Arguments c2))" by (simp add: c2_def)
  have step: "dedupe_loop v sy n seen (c # calls) = (if tc_ID c1 \<in> set seen then dedupe_loop v sy n1 seen calls
      else c2 # dedupe_loop v sy n1 (tc_ID c1 # seen) calls)"
    by (auto simp: c1_def n1_def c2_def Let_def)
  show ?case
    using Cons.IH[of n1 seen] Cons.IH[of n1 "tc_ID c1 # seen"] arg unfolding step by (auto simp: id2)
qed simp

text \<open>
  The same clean-up said position by position: the \<open>k\<close>-th call without an identifier gets the \<open>k\<close>-th made-up
  one, of the calls with one identifier the first stays, and arguments a strict server would refuse become
  the empty object.
\<close>

definition with_ids :: "(nat \<Rightarrow> string) \<Rightarrow> nat \<Rightarrow> tool_call list \<Rightarrow> tool_call list" where
  "with_ids synth n calls =
     map (\<lambda>i. if tc_ID (calls ! i) = []
              then (calls ! i)\<lparr>tc_ID := synth (n + length (filter (\<lambda>c. tc_ID c = []) (take (Suc i) calls)))\<rparr> else calls ! i)
       [0..<length calls]"

definition clean_args :: "(string \<Rightarrow> bool) \<Rightarrow> tool_call \<Rightarrow> tool_call" where
  "clean_args json_valid c =
     (if TrimSpace (tc_Arguments c) \<noteq> [] \<and> json_valid (TrimSpace (tc_Arguments c)) then c else c\<lparr>tc_Arguments := ''{}''\<rparr>)"

definition first_of_id :: "tool_call list \<Rightarrow> nat set" where
  "first_of_id cs = {i. \<forall>j<i. tc_ID (cs ! j) \<noteq> tc_ID (cs ! i)}"

lemma with_ids_simps: "with_ids sy n [] = []"
  "with_ids sy n (c # cs) = (if tc_ID c = [] then c\<lparr>tc_ID := sy (Suc n)\<rparr> # with_ids sy (Suc n) cs else c # with_ids sy n cs)"
proof -
  have "[0..<length (c # cs)] = 0 # map Suc [0..<length cs]" by (simp add: map_Suc_upt upt_conv_Cons del: upt_Suc)
  then show "with_ids sy n (c # cs) = (if tc_ID c = [] then c\<lparr>tc_ID := sy (Suc n)\<rparr> # with_ids sy (Suc n) cs else c # with_ids sy n cs)"
    by (simp add: with_ids_def del: upt_Suc)
qed (simp add: with_ids_def)

definition kept_from :: "string list \<Rightarrow> tool_call list \<Rightarrow> nat \<Rightarrow> bool" where
  "kept_from seen cs i \<longleftrightarrow> tc_ID (cs ! i) \<notin> set seen \<and> i \<in> first_of_id cs"

lemma kept_shift:
  "kept_from seen (c # cs) 0 = (tc_ID c \<notin> set seen)"
  "kept_from seen (c # cs) (Suc i) = kept_from (tc_ID c # seen) cs i"
  by (auto simp: kept_from_def first_of_id_def less_Suc_eq_0_disj)

lemma dedupe_from: "dedupe_loop v sy n seen calls = map (clean_args v) (nths (with_ids sy n calls) {i. kept_from seen (with_ids sy n calls) i})"
proof (induction calls arbitrary: n seen)
  case (Cons c calls)
  define c1 where "c1 = (if tc_ID c = [] then c\<lparr>tc_ID := sy (Suc n)\<rparr> else c)"
  define n1 where "n1 = (if tc_ID c = [] then Suc n else n)"
  define ws where "ws = with_ids sy n1 calls"
  have w: "with_ids sy n (c # calls) = c1 # ws" by (simp add: with_ids_simps c1_def n1_def ws_def)
  have step: "dedupe_loop v sy n seen (c # calls) = (if tc_ID c1 \<in> set seen then dedupe_loop v sy n1 seen calls
      else clean_args v c1 # dedupe_loop v sy n1 (tc_ID c1 # seen) calls)"
    by (auto simp: c1_def n1_def clean_args_def Let_def)
  have "kept_from (tc_ID c1 # seen) ws = kept_from seen ws" if "tc_ID c1 \<in> set seen"
    using that by (auto simp: kept_from_def fun_eq_iff)
  then show ?case
    unfolding step w Cons.IH ws_def[symmetric] by (simp add: nths_Cons kept_shift)
qed (simp add: with_ids_simps)

lemma dedupe_is_reference:
  "dedupeCalls v sy 0 calls = map (clean_args v) (nths (with_ids sy 0 calls) (first_of_id (with_ids sy 0 calls)))"
  by (simp add: dedupeCalls_def dedupe_from kept_from_def)

text \<open>
  After the clean-up the calls of a round have different identifiers and arguments a strict server
  accepts, so that each result row answers one call and no later replay is rejected for one bad call.
\<close>

theorem deduped_calls_clean:
  "distinct (map tc_ID (dedupeCalls json_valid synth n calls))
   \<and> (\<forall>c \<in> set (dedupeCalls json_valid synth n calls).
        tc_Arguments c = ''{}'' \<or> json_valid (TrimSpace (tc_Arguments c)))"
  using dedupe_loop_spec[of json_valid synth n "[]" calls] by (simp add: dedupeCalls_def)

end
