(* ===== verification/Turn_Text.thy ===== *)
theory Turn_Text
  imports Turn_Transcript
begin

section \<open>Cutting text\<close>

text \<open>
  The byte-level routines of \<^verbatim>\<open>src/leaf/turn\<close>: clipping to a number of bytes without tearing a rune
  (\<^verbatim>\<open>40-pipeline.go\<close>, \<^verbatim>\<open>16-looping-tools.go\<close>, \<^verbatim>\<open>85-rubric.go\<close>), the window cuts of the compressor
  (\<^verbatim>\<open>90-compact.go\<close>), the pacing of the trace and the hold-back of tool markup (\<^verbatim>\<open>20-round.go\<close>), and the
  token estimate of \<^verbatim>\<open>src/heartwood/prompt/30-tokens.go\<close>.
\<close>

subsection \<open>Token estimate\<close>

text \<open>The code point of a complete encoding.\<close>

definition byte_val :: "char \<Rightarrow> nat" where
  "byte_val c = of_char c"

definition rune_code :: "string \<Rightarrow> nat" where
  "rune_code r = (case r of
     [a] \<Rightarrow> byte_val a
   | [a, b] \<Rightarrow> (byte_val a - 0xC0) * 64 + (byte_val b - 0x80)
   | [a, b, c] \<Rightarrow> (byte_val a - 0xE0) * 4096 + (byte_val b - 0x80) * 64 + (byte_val c - 0x80)
   | [a, b, c, d] \<Rightarrow> (byte_val a - 0xF0) * 262144 + (byte_val b - 0x80) * 4096 + (byte_val c - 0x80) * 64 + (byte_val d - 0x80)
   | _ \<Rightarrow> 0)"

definition isWideChar :: "nat \<Rightarrow> bool" where
  "isWideChar r \<longleftrightarrow> 0x3000 \<le> r \<and> r \<le> 0x303F \<or> 0x3040 \<le> r \<and> r \<le> 0x30FF \<or> 0x3400 \<le> r \<and> r \<le> 0x4DBF
     \<or> 0x4E00 \<le> r \<and> r \<le> 0x9FFF \<or> 0xAC00 \<le> r \<and> r \<le> 0xD7AF \<or> 0xF900 \<le> r \<and> r \<le> 0xFAFF
     \<or> 0xFF00 \<le> r \<and> r \<le> 0xFFEF"

text \<open>The sum of ones and quarters is exact in floating point, so it is counted in quarters.\<close>

definition EstTokens :: "string \<Rightarrow> nat" where
  "EstTokens s = sum_list (map (\<lambda>r. if isWideChar (rune_code r) then 4 else 1) (to_runes s)) div 4"

definition EstTokensMsg :: "chat_message \<Rightarrow> nat" where
  "EstTokensMsg m = EstTokens (ms_Content m) + sum_list (map (EstTokens \<circ> tc_Arguments) (ms_ToolCalls m))"

definition EstTokensMsgs :: "chat_message list \<Rightarrow> nat" where
  "EstTokensMsgs msgs = sum_list (map EstTokensMsg msgs)"

subsection \<open>Clipping\<close>

text \<open>\<^verbatim>\<open>utf8.DecodeLastRune\<close> is no error of size one: a complete encoding ends the bytes.\<close>

definition last_rune_ok :: "string \<Rightarrow> bool" where
  "last_rune_ok b = list_ex (\<lambda>k. k \<le> length b \<and> rune_ok (drop (length b - k) b)) [1, 2, 3, 4]"

function strip_partial :: "string \<Rightarrow> string" where
  "strip_partial b = (if b = [] \<or> last_rune_ok b then b else strip_partial (butlast b))"
  by pat_completeness auto
termination by (relation "measure length") auto

declare strip_partial.simps [simp del]

definition truncateBytes :: "string \<Rightarrow> int \<Rightarrow> string" where
  "truncateBytes s mx =
     (if mx \<le> 0 then [] else if int (length s) \<le> mx then s else strip_partial (take (nat mx) s))"

definition RuneStart :: "char \<Rightarrow> bool" where
  "RuneStart c \<longleftrightarrow> \<not> cont_byte c"

primrec walk_start :: "string \<Rightarrow> nat \<Rightarrow> nat" where
  "walk_start s 0 = 0"
| "walk_start s (Suc n) = (if RuneStart (s ! Suc n) then Suc n else walk_start s n)"

definition histTruncateRunes :: "string \<Rightarrow> nat \<Rightarrow> string" where
  "histTruncateRunes s maxBytes = (if length s \<le> maxBytes then s else take (walk_start s maxBytes) s)"

fun show_digits :: "nat \<Rightarrow> string" where
  "show_digits n = (if n < 10 then [char_of (48 + n)] else show_digits (n div 10) @ [char_of (48 + n mod 10)])"

declare show_digits.simps [simp del]

definition beltCapBytes :: nat where
  "beltCapBytes = 256 * 1024"

definition belt_marker :: "nat \<Rightarrow> string" where
  "belt_marker len =
     [CHR 0x0A, CHR 0x0A] @ ''... ['' @ [CHR 0xE5, CHR 0xB7, CHR 0xB2, CHR 0xE6, CHR 0x88, CHR 0xAA, CHR 0xE6, CHR
       0x96, CHR 0xAD, CHR 0xEF, CHR 0xBC, CHR 0x9A]
     @ show_digits beltCapBytes @ ''/'' @ show_digits len
     @ '' '' @ [CHR 0xE5, CHR 0xAD, CHR 0x97, CHR 0xE8, CHR 0x8A, CHR 0x82, CHR 0xE8, CHR 0xB6, CHR 0x85, CHR 0xE8,
       CHR 0xBF, CHR 0x87, CHR 0xE4, CHR 0xB8, CHR 0x8A, CHR 0xE9, CHR 0x99, CHR 0x90, CHR 0xEF, CHR 0xBC, CHR 0x8C,
       CHR 0xE8, CHR 0xAF, CHR 0xB7, CHR 0xE8, CHR 0xAE, CHR 0xA9, CHR 0xE5, CHR 0xB7, CHR 0xA5, CHR 0xE5, CHR 0x85,
       CHR 0xB7, CHR 0xE6, CHR 0x94, CHR 0xB6, CHR 0xE7, CHR 0xAA, CHR 0x84, CHR 0xE8, CHR 0xBE, CHR 0x93, CHR 0xE5,
       CHR 0x87, CHR 0xBA, CHR 0xEF, CHR 0xBC, CHR 0x88, CHR 0xE9, CHR 0x80, CHR 0x89, CHR 0xE6, CHR 0x8B, CHR 0xA9,
       CHR 0xE5, CHR 0x99, CHR 0xA8] @ ''/'' @ [CHR 0xE5, CHR 0x88, CHR 0x86, CHR 0xE9, CHR 0xA1, CHR 0xB5, CHR 0xEF,
       CHR 0xBC, CHR 0x89] @ '']''"

definition beltTruncate :: "string \<Rightarrow> string" where
  "beltTruncate s =
     (if length s \<le> beltCapBytes then s
      else let marker = belt_marker (length s);
               keep = int beltCapBytes - int (length marker)
           in if keep < 0 then truncateBytes marker (int beltCapBytes)
              else truncateBytes s keep @ marker)"

definition elision_marker :: string where
  "elision_marker = [CHR 0xE2, CHR 0x80, CHR 0xA6, CHR 0xEF, CHR 0xBC, CHR 0x88, CHR 0xE8, CHR 0xBE, CHR 0x83, CHR 0xE6, CHR 0x97,
       CHR 0xA9, CHR 0xE5, CHR 0x86, CHR 0x85, CHR 0xE5, CHR 0xAE, CHR 0xB9, CHR 0xE5, CHR 0xB7, CHR 0xB2, CHR 0xE7,
       CHR 0x95, CHR 0xA5, CHR 0xEF, CHR 0xBC, CHR 0x89, CHR 0x0A]"

definition capTailBytes :: "string \<Rightarrow> nat \<Rightarrow> string" where
  "capTailBytes s n =
     (if length s \<le> n then s
      else elision_marker @ dropWhile (\<lambda>c. \<not> RuneStart c) (drop (length s - n) s))"

subsection \<open>Windows\<close>

text \<open>\<^verbatim>\<open>strings.LastIndexAny\<close>: the last place where one of the runes stands. A complete encoding found as
  bytes is the rune, since no encoding starts inside another.\<close>

fun LastIndexAny :: "string list \<Rightarrow> string \<Rightarrow> nat option" where
  "LastIndexAny cs [] = None"
| "LastIndexAny cs (c # s) =
     (case LastIndexAny cs s of
        Some i \<Rightarrow> Some (Suc i)
      | None \<Rightarrow> if list_ex (has_prefix (c # s)) cs then Some 0 else None)"

definition rune_size :: "string \<Rightarrow> nat" where
  "rune_size s = (case s of [] \<Rightarrow> 0 | c # t \<Rightarrow> Suc (rune_tail c t))"

definition compactBoundaryChars :: "string list" where
  "compactBoundaryChars =
     [[CHR 0x0A], [CHR 0xE3, CHR 0x80, CHR 0x82], [CHR 0xEF, CHR 0xBC, CHR 0x81], [CHR 0xEF, CHR 0xBC, CHR 0x9F],
      ''.'', ''!'', ''?'', ''}'', '']'', '')'', [CHR 0xEF, CHR 0xBC, CHR 0x9B], '';'']"

definition boundaryCut :: "string \<Rightarrow> nat \<Rightarrow> nat" where
  "boundaryCut text capBytes =
     (let flr = capBytes - capBytes div 10
      in case LastIndexAny compactBoundaryChars (take (capBytes - flr) (drop flr text)) of
           Some i \<Rightarrow> min (flr + i + rune_size (drop (flr + i) text)) (length text)
         | None \<Rightarrow> let cut = walk_start text capBytes in if cut = 0 then rune_size text else cut)"

definition thinkEnders :: "string list" where
  "thinkEnders =
     [''.'', ''!'', ''?'', [CHR 0x0A], [CHR 0xE3, CHR 0x80, CHR 0x82], [CHR 0xEF, CHR 0xBC, CHR 0x81],
      [CHR 0xEF, CHR 0xBC, CHR 0x9F], [CHR 0xEF, CHR 0xBC, CHR 0x9B], '';'']"

definition sentenceBoundary :: "string \<Rightarrow> nat" where
  "sentenceBoundary s = (case LastIndexAny thinkEnders s of None \<Rightarrow> 0 | Some i \<Rightarrow> i + rune_size (drop i s))"

subsection \<open>Rune boundaries\<close>

lemma rune_tail_le: "rune_tail c s \<le> length s \<and> rune_tail c s \<le> 3"
  by (auto simp: rune_tail_def split: list.split)

lemma rune_ok_shape:
  assumes "rune_ok r"
  obtains c t where "r = c # t" "\<not> cont_byte c" "\<And>x. x \<in> set t \<Longrightarrow> cont_byte x" "length t \<le> 3"
    "t \<noteq> [] \<Longrightarrow> \<not> of_char c < (128 :: nat)"
proof (cases r)
  case Nil
  then show ?thesis using assms by simp
next
  case (Cons c t)
  have "\<not> cont_byte c \<and> (\<forall>x \<in> set t. cont_byte x) \<and> length t \<le> 3 \<and> (t \<noteq> [] \<longrightarrow> \<not> of_char c < (128 :: nat))"
    using assms Cons
    by (auto simp: rune_tail_def between_def split: if_splits list.splits)
  then show ?thesis using that Cons by blast
qed

lemma rune_ok_length: "rune_ok r \<Longrightarrow> 1 \<le> length r \<and> length r \<le> 4"
  by (erule rune_ok_shape) simp

text \<open>The longest prefix of whole runes within a number of bytes.\<close>

fun fit :: "nat \<Rightarrow> string list \<Rightarrow> string list" where
  "fit n [] = []"
| "fit n (r # rs) = (if length r \<le> n then r # fit (n - length r) rs else [])"

definition rune_prefix :: "nat \<Rightarrow> string \<Rightarrow> string" where
  "rune_prefix n s = concat (fit n (runes s))"

lemma fit_length: "length (concat (fit n rs)) \<le> n"
  by (induction n rs rule: fit.induct) auto

lemma fit_prefix: "\<exists>k. fit n rs = take k rs \<and> (k < length rs \<longrightarrow> n < length (concat (take (Suc k) rs)))"
proof (induction n rs rule: fit.induct)
  case (2 n r rs)
  show ?case
  proof (cases "length r \<le> n")
    case True
    then obtain k where k: "fit (n - length r) rs = take k rs" "k < length rs \<longrightarrow> n - length r < length (concat (take (Suc k) rs))"
      using 2 by blast
    then show ?thesis using True by (intro exI[of _ "Suc k"]) auto
  qed (auto intro: exI[of _ 0])
qed simp

lemma fit_rest:
  assumes "\<And>r. r \<in> set rs \<Longrightarrow> rune_ok r"
  shows "\<exists>p. take n (concat rs) = concat (fit n rs) @ p \<and> (p = [] \<or> (\<exists>r q. rune_ok r \<and> r = p @ q \<and> q \<noteq> []))"
  using assms
proof (induction n rs rule: fit.induct)
  case (2 n r rs)
  show ?case
  proof (cases "length r \<le> n")
    case True
    then obtain p where "take (n - length r) (concat rs) = concat (fit (n - length r) rs) @ p"
      "p = [] \<or> (\<exists>r q. rune_ok r \<and> r = p @ q \<and> q \<noteq> [])" using 2 by force
    then show ?thesis using True by auto
  next
    case False
    have "\<exists>r' q. rune_ok r' \<and> r' = take n r @ q \<and> q \<noteq> []"
      by (rule exI[of _ r], rule exI[of _ "drop n r"]) (use False 2(2) in auto)
    then show ?thesis using False by (intro exI[of _ "take n r"]) simp
  qed
qed simp

text \<open>A torn rune is no rune, whatever stands before it.\<close>

lemma last_rune_ok_whole:
  assumes "rune_ok r"
  shows "last_rune_ok (a @ r)"
proof -
  have "length r \<in> {1, 2, 3, 4}" using rune_ok_length[OF assms] by auto
  then show ?thesis using assms by (auto simp: last_rune_ok_def)
qed

lemma torn_not_ok:
  assumes "rune_ok (p @ q)" and "p \<noteq> []" and "q \<noteq> []"
  shows "\<not> rune_ok p"
proof
  assume ok: "rune_ok p"
  have "runes (p @ q) = p # runes q" by (rule runes_rune[OF ok])
  moreover have "runes (p @ q) = [p @ q]" using runes_rune[OF assms(1), of "[]"] by simp
  ultimately show False using assms(3) by simp
qed

lemma last_rune_torn:
  assumes "rune_ok (p @ q)" and "p \<noteq> []" and "q \<noteq> []"
  shows "\<not> last_rune_ok (a @ p)"
proof
  assume "last_rune_ok (a @ p)"
  then obtain k where k: "1 \<le> k" "k \<le> length (a @ p)" "rune_ok (drop (length (a @ p) - k) (a @ p))"
  proof -
    obtain k where "k \<in> set [1, 2, 3, 4]" "k \<le> length (a @ p) \<and> rune_ok (drop (length (a @ p) - k) (a @ p))"
      using \<open>last_rune_ok (a @ p)\<close> unfolding last_rune_ok_def list_ex_iff by blast
    then show ?thesis using that[of k] by auto
  qed
  obtain c t where ct: "p @ q = c # t" "\<not> cont_byte c" "\<And>x. x \<in> set t \<Longrightarrow> cont_byte x"
    using rune_ok_shape[OF assms(1)] by metis
  then obtain p' where p: "p = c # p'" using assms(2) by (cases p) auto
  obtain d u where du: "drop (length (a @ p) - k) (a @ p) = d # u" "\<not> cont_byte d" "\<And>x. x \<in> set u \<Longrightarrow> cont_byte x"
    using rune_ok_shape[OF k(3)] by metis
  consider "k < length p" | "k = length p" | "length p < k" by linarith
  then show False
  proof cases
    case 1
    then have "drop (length (a @ p) - k) (a @ p) = drop (length p - k) p" by simp
    then have "d \<in> set (drop (length p - k) p)" using du(1) by (metis list.set_intros(1))
    moreover have "length p - k = Suc (length p' - k)" using 1 k(1) p by simp
    ultimately have "d \<in> set p'" using p by (auto dest: in_set_dropD)
    then have "d \<in> set t" using ct(1) p by auto
    then show False using ct(3) du(2) by blast
  next
    case 2
    then have "rune_ok p" using k(3) by simp
    then show False using torn_not_ok[OF assms] by blast
  next
    case 3
    define j where "j = length (a @ p) - k"
    have "j < length a" using 3 k(2) by (simp add: j_def)
    then have "drop j (a @ p) = drop j a @ p" by simp
    then have "d # u = drop j a @ p" using du(1) unfolding j_def by simp
    moreover have "drop j a \<noteq> []" using \<open>j < length a\<close> by simp
    ultimately have "c \<in> set u" using p by (cases "drop j a") auto
    then show False using du(3) ct(2) by blast
  qed
qed

lemma strip_whole:
  assumes "\<And>r. r \<in> set rs \<Longrightarrow> rune_ok r"
  shows "strip_partial (concat rs) = concat rs"
proof (cases rs rule: rev_cases)
  case (snoc rs' r)
  then show ?thesis using last_rune_ok_whole[of r "concat rs'"] assms by (simp add: strip_partial.simps)
qed (simp add: strip_partial.simps)

lemma strip_torn:
  assumes "\<And>r. r \<in> set rs \<Longrightarrow> rune_ok r" and "p = [] \<or> (\<exists>q. rune_ok (p @ q) \<and> q \<noteq> [])"
  shows "strip_partial (concat rs @ p) = concat rs"
  using assms(2)
proof (induction p rule: rev_induct)
  case Nil
  then show ?case using strip_whole[OF assms(1)] by simp
next
  case (snoc x p)
  then obtain q where q: "rune_ok ((p @ [x]) @ q)" "q \<noteq> []" by auto
  have "\<not> last_rune_ok (concat rs @ p @ [x])" using last_rune_torn[OF q(1) _ q(2)] by simp
  then have "strip_partial (concat rs @ p @ [x]) = strip_partial (concat rs @ p)"
    by (subst strip_partial.simps) (simp add: butlast_append)
  moreover have "p = [] \<or> (\<exists>q. rune_ok (p @ q) \<and> q \<noteq> [])" using q by (auto intro: exI[of _ "x # q"])
  ultimately show ?case using snoc.IH by simp
qed

lemma walk_start_append:
  assumes "m < length s" and "RuneStart (s ! 0)"
  shows "walk_start (r @ s) (length r + m) = length r + walk_start s m"
  using assms(1)
proof (induction m)
  case 0
  then show ?case using assms(2) by (cases r) (simp_all add: nth_append)
next
  case (Suc m)
  then show ?case by (simp add: nth_append)
qed

lemma walk_start_inside:
  "n < length s \<Longrightarrow> (\<And>i. 1 \<le> i \<Longrightarrow> i \<le> n \<Longrightarrow> \<not> RuneStart (s ! i)) \<Longrightarrow> walk_start s n = 0"
  by (induction n) auto

lemma rune_first: "rune_ok r \<Longrightarrow> RuneStart ((r @ s) ! 0)"
  by (erule rune_ok_shape) (simp add: RuneStart_def)

lemma walk_start_fit:
  assumes "\<And>r. r \<in> set rs \<Longrightarrow> rune_ok r" and "n < length (concat rs)"
  shows "walk_start (concat rs) n = length (concat (fit n rs))"
  using assms
proof (induction n rs rule: fit.induct)
  case (2 n r rs)
  show ?case
  proof (cases "length r \<le> n")
    case True
    have lt: "n - length r < length (concat rs)" using 2(3) True by auto
    then obtain r' rs' where rs: "rs = r' # rs'" by (cases rs) auto
    have "RuneStart (concat rs ! 0)" using rune_first[of r'] 2(2) rs by simp
    from walk_start_append[OF lt this, of r]
    show ?thesis using 2(1)[OF True] 2(2) lt True by simp
  next
    case False
    obtain c t where ct: "r = c # t" "\<And>x. x \<in> set t \<Longrightarrow> cont_byte x" using rune_ok_shape[of r] 2(2) by (metis list.set_intros(1))
    have "\<not> RuneStart ((r @ concat rs) ! i)" if i: "1 \<le> i" "i \<le> n" for i
    proof -
      obtain j where j: "i = Suc j" using i(1) by (cases i) auto
      have "j < length t" using i j False ct(1) by simp
      then show ?thesis using ct j by (simp add: RuneStart_def nth_append)
    qed
    then have "walk_start (r @ concat rs) n = 0" using False by (intro walk_start_inside) auto
    then show ?thesis using False by simp
  qed
qed simp

subsection \<open>The clipping interface\<close>

text \<open>What the callers of a clipping routine rely on: on a valid text it yields the longest whole-rune prefix.\<close>

locale rune_clip =
  fixes clip :: "string \<Rightarrow> nat \<Rightarrow> string"
  assumes clip_prefix: "valid_utf8 s \<Longrightarrow> clip s n = rune_prefix n s"
begin

lemma clip_fits: "valid_utf8 s \<Longrightarrow> length (clip s n) \<le> n"
  by (simp add: clip_prefix rune_prefix_def fit_length)

lemma clip_valid: "valid_utf8 s \<Longrightarrow> valid_utf8 (clip s n)"
proof -
  assume v: "valid_utf8 s"
  obtain k where "fit n (runes s) = take k (runes s)" using fit_prefix by blast
  then have "\<And>r. r \<in> set (fit n (runes s)) \<Longrightarrow> rune_ok r"
    using v by (auto simp: valid_utf8_def dest: in_set_takeD)
  then show ?thesis using valid_utf8_concat by (simp add: clip_prefix[OF v] rune_prefix_def)
qed

lemma clip_longest:
  assumes "valid_utf8 s"
  obtains k where "clip s n = concat (take k (runes s))" "k < length (runes s) \<Longrightarrow> n < length (concat (take (Suc k) (runes s)))"
proof -
  obtain k where "fit n (runes s) = take k (runes s)" "k < length (runes s) \<longrightarrow> n < length (concat (take (Suc k) (runes s)))"
    using fit_prefix by blast
  then show ?thesis by (intro that[of k]) (simp_all add: clip_prefix[OF assms] rune_prefix_def)
qed

lemma clip_short: "valid_utf8 s \<Longrightarrow> length s \<le> n \<Longrightarrow> clip s n = s"
proof -
  assume v: "valid_utf8 s" and len: "length s \<le> n"
  obtain k where k: "clip s n = concat (take k (runes s))" "k < length (runes s) \<Longrightarrow> n < length (concat (take (Suc k) (runes s)))"
    using clip_longest[OF v] by blast
  have "length (concat (take (Suc k) (runes s))) \<le> length s"
    using concat_runes[of s] append_take_drop_id[of "Suc k" "runes s"] by (metis concat_append le_add1 length_append)
  then have "length (runes s) \<le> k" using k(2) len by force
  then show ?thesis using k(1) by (simp add: concat_runes)
qed

end

lemma rune_prefix_all: "length s \<le> n \<Longrightarrow> rune_prefix n s = s"
proof -
  have "length (concat rs) \<le> n \<Longrightarrow> fit n rs = rs" for rs by (induction n rs rule: fit.induct) auto
  then show "length s \<le> n \<Longrightarrow> rune_prefix n s = s" by (simp add: rune_prefix_def concat_runes)
qed

interpretation trunc: rune_clip "\<lambda>s n. truncateBytes s (int n)"
proof
  fix s n
  assume v: "valid_utf8 s"
  have ok: "\<And>r. r \<in> set (runes s) \<Longrightarrow> rune_ok r" using v by (simp add: valid_utf8_def)
  consider "n = 0" | "0 < n" "length s \<le> n" | "0 < n" "n < length s" by linarith
  then show "truncateBytes s (int n) = rune_prefix n s"
  proof cases
    case 1
    then show ?thesis using fit_length[of 0 "runes s"] by (simp add: truncateBytes_def rune_prefix_def)
  next
    case 2
    then show ?thesis by (simp add: truncateBytes_def rune_prefix_all)
  next
    case 3
    obtain p where p: "take n (concat (runes s)) = concat (fit n (runes s)) @ p"
      "p = [] \<or> (\<exists>r q. rune_ok r \<and> r = p @ q \<and> q \<noteq> [])" using fit_rest[of "runes s" n] ok by blast
    obtain k where "fit n (runes s) = take k (runes s)" using fit_prefix by blast
    then have "\<And>r. r \<in> set (fit n (runes s)) \<Longrightarrow> rune_ok r" using ok by (auto dest: in_set_takeD)
    from strip_torn[of "fit n (runes s)" p, OF this] p(2)
    show ?thesis using 3 p(1) by (auto simp: truncateBytes_def rune_prefix_def concat_runes)
  qed
qed

interpretation hist: rune_clip histTruncateRunes
proof
  fix s n
  assume v: "valid_utf8 s"
  have ok: "\<And>r. r \<in> set (runes s) \<Longrightarrow> rune_ok r" using v by (simp add: valid_utf8_def)
  show "histTruncateRunes s n = rune_prefix n s"
  proof (cases "length s \<le> n")
    case True
    then show ?thesis by (simp add: histTruncateRunes_def rune_prefix_all)
  next
    case False
    then have "walk_start s n = length (rune_prefix n s)"
      using walk_start_fit[of "runes s" n] ok by (simp add: concat_runes rune_prefix_def)
    moreover have "prefix (rune_prefix n s) s"
    proof -
      obtain k where "fit n (runes s) = take k (runes s)" using fit_prefix by blast
      then show ?thesis
        by (metis append_take_drop_id concat_append concat_runes prefixI rune_prefix_def)
    qed
    ultimately show ?thesis using False by (simp add: histTruncateRunes_def) (metis append_eq_conv_conj prefixE)
  qed
qed

text \<open>
  The two clipping routines, one that takes bytes off the cut text until it ends in a whole rune and one
  that walks the cut back to the start of a rune, agree on every valid text: both give the longest prefix of
  whole runes within the limit, and a valid text again.
\<close>

theorem clipping_routines_agree:
  assumes "valid_utf8 s"
  shows "truncateBytes s (int n) = histTruncateRunes s n \<and> valid_utf8 (truncateBytes s (int n))
     \<and> length (truncateBytes s (int n)) \<le> n
     \<and> (\<exists>k. truncateBytes s (int n) = concat (take k (runes s))
          \<and> (k < length (runes s) \<longrightarrow> n < length (concat (take (Suc k) (runes s)))))"
  using trunc.clip_prefix[OF assms, of n] hist.clip_prefix[OF assms, of n] trunc.clip_valid[OF assms, of n]
    trunc.clip_fits[OF assms, of n] trunc.clip_longest[OF assms, of n] by metis

theorem clipping_routines_agree_witness:
  "truncateBytes [CHR ''a'', CHR 0xE3, CHR 0x80, CHR 0x82] (int 3) = histTruncateRunes [CHR ''a'', CHR 0xE3, CHR 0x80, CHR 0x82] 3"
proof -
  have "valid_utf8 [CHR ''a'', CHR 0xE3, CHR 0x80, CHR 0x82]" by code_simp
  from clipping_routines_agree[OF this, of 3] show ?thesis by simp
qed

lemma strip_length: "length (strip_partial b) \<le> length b"
proof (induction b rule: strip_partial.induct)
  case (1 b)
  then show ?case by (subst strip_partial.simps) (auto intro: le_trans)
qed

lemma truncateBytes_length: "int (length (truncateBytes s mx)) \<le> max 0 mx"
  using strip_length[of "take (nat mx) s"] by (auto simp: truncateBytes_def)

text \<open>A result of a tool never exceeds the belt, the note on the cut included.\<close>

lemma belt_holds: "length (beltTruncate s) \<le> beltCapBytes"
proof -
  let ?m = "belt_marker (length s)"
  let ?keep = "int beltCapBytes - int (length ?m)"
  show ?thesis
  proof (cases "length s \<le> beltCapBytes \<or> ?keep < 0")
    case True
    then show ?thesis
      using truncateBytes_length[of ?m "int beltCapBytes"] by (auto simp: beltTruncate_def Let_def)
  next
    case False
    then have "int (length (truncateBytes s ?keep)) \<le> ?keep" using truncateBytes_length[of s ?keep] by simp
    then show ?thesis using False by (simp add: beltTruncate_def Let_def)
  qed
qed

subsection \<open>Where the windows are cut\<close>

lemma LastIndexAny_Some:
  "LastIndexAny cs s = Some i \<Longrightarrow> i < length s \<and> (\<exists>c \<in> set cs. prefix c (drop i s))"
proof (induction s arbitrary: i)
  case (Cons a s)
  show ?case
  proof (cases "LastIndexAny cs s")
    case None
    then show ?thesis using Cons.prems by (auto simp: list_ex_iff has_prefix_iff split: if_splits)
  next
    case (Some j)
    then show ?thesis using Cons by auto
  qed
qed simp

lemma rune_size_bounds: "s \<noteq> [] \<Longrightarrow> 1 \<le> rune_size s \<and> rune_size s \<le> length s \<and> rune_size s \<le> 4"
  using rune_tail_le[of "hd s" "tl s"] by (cases s) (auto simp: rune_size_def)

lemma rune_size_rune: "rune_ok r \<Longrightarrow> rune_size (r @ s) = length r"
proof -
  assume ok: "rune_ok r"
  obtain c t where r: "r = c # t" using ok by (cases r) auto
  have "runes (r @ s) = r # runes s" by (rule runes_rune[OF ok])
  then have "take (rune_tail c (t @ s)) (t @ s) = t" by (simp add: r)
  moreover have "rune_tail c (t @ s) \<le> length (t @ s)" using rune_tail_le by blast
  ultimately have "rune_tail c (t @ s) = length t" by (metis length_take min.absorb2)
  then show ?thesis by (simp add: r rune_size_def)
qed

lemma walk_start_le: "walk_start s n \<le> n"
  by (induction n) (auto intro: le_SucI)

lemma boundary_chars_ok: "c \<in> set compactBoundaryChars \<Longrightarrow> rune_ok c"
  by (auto simp: compactBoundaryChars_def rune_tail_def between_def)

lemma boundaryCut_bounds:
  assumes "capBytes < length text"
  shows "1 \<le> boundaryCut text capBytes \<and> boundaryCut text capBytes \<le> length text \<and> boundaryCut text capBytes \<le> max capBytes 4"
proof -
  define flr where "flr = capBytes - capBytes div 10"
  define win where "win = take (capBytes - flr) (drop flr text)"
  have ne: "text \<noteq> []" using assms by auto
  show ?thesis
  proof (cases "LastIndexAny compactBoundaryChars win")
    case None
    then show ?thesis
      using rune_size_bounds[OF ne] walk_start_le[of "text" capBytes] assms
      by (auto simp: boundaryCut_def Let_def flr_def[symmetric] win_def[symmetric])
  next
    case (Some i)
    obtain c where i: "i < length win" and c: "c \<in> set compactBoundaryChars" "prefix c (drop i win)"
      using LastIndexAny_Some[OF Some] by blast
    have "length win = capBytes - flr" using assms by (simp add: win_def flr_def)
    moreover have "length c \<le> length (drop i win)" by (rule prefix_length_le[OF c(2)])
    ultimately have fits: "flr + i + length c \<le> capBytes" using i by simp
    have "drop i win = take (capBytes - flr - i) (drop (flr + i) text)" by (simp add: win_def drop_take add.commute)
    then have "prefix c (drop (flr + i) text)" using c(2) by (metis prefix_order.order_trans take_is_prefix)
    then obtain z where "drop (flr + i) text = c @ z" by (auto elim: prefixE)
    then have sz: "rune_size (drop (flr + i) text) = length c"
      using rune_size_rune[OF boundary_chars_ok, OF c(1)] by simp
    have "1 \<le> length c" using rune_ok_length[OF boundary_chars_ok[OF c(1)]] by simp
    then show ?thesis
      using Some sz fits assms by (simp add: boundaryCut_def Let_def flr_def[symmetric] win_def[symmetric])
  qed
qed

lemma thinkEnders_ok: "c \<in> set thinkEnders \<Longrightarrow> rune_ok c"
  by (auto simp: thinkEnders_def rune_tail_def between_def)

lemma sentenceBoundary_le: "sentenceBoundary s \<le> length s"
proof (cases "LastIndexAny thinkEnders s")
  case (Some i)
  then have "i < length s" using LastIndexAny_Some by blast
  then have "rune_size (drop i s) \<le> length s - i" using rune_size_bounds[of "drop i s"] by simp
  then show ?thesis using Some \<open>i < length s\<close> by (simp add: sentenceBoundary_def)
qed (simp add: sentenceBoundary_def)

end
