(* ===== verification/Turn_Compact.thy ===== *)
theory Turn_Compact
  imports Turn_Text
begin

section \<open>Compaction\<close>

text \<open>
  \<^verbatim>\<open>src/leaf/turn/90-compact.go\<close>, with the weights of \<^verbatim>\<open>88-weigh.go\<close> and the context gauge of
  \<^verbatim>\<open>10-core.go\<close>: when the history of a session is too large for the model, its older part is summarised by
  another model and replaced. The scale on which texts are weighed, the answers of the compressing model and
  the size of a window, which the source computes in floating point, are arguments; the store is the one of
  \<open>Turn_Transcript\<close>, from which the one of the database differs in tagging the rows it appends again.
\<close>

subsection \<open>The gauge\<close>

record ctx_gauge =
  cg_tokens :: int
  cg_budget :: int
  cg_rows :: int

definition zero_gauge :: ctx_gauge where
  "zero_gauge = \<lparr> cg_tokens = 0, cg_budget = 0, cg_rows = 0 \<rparr>"

type_synonym gauges = "(string, ctx_gauge) gomap"

definition promptFloorCap :: nat where
  "promptFloorCap = 8192"

definition gaugeLocked :: "gauges \<Rightarrow> string \<Rightarrow> ctx_gauge \<times> gauges" where
  "gaugeLocked g sid =
     (let g' = (if \<not> ghas g sid \<and> promptFloorCap \<le> length g then [] else g)
      in (ggetz zero_gauge g' sid, g'))"

definition recordPromptFloor :: "string \<Rightarrow> int \<Rightarrow> gauges \<Rightarrow> gauges" where
  "recordPromptFloor sid n g =
     (if n \<le> 0 then g else let (e, g') = gaugeLocked g sid in gput sid (e\<lparr>cg_tokens := n\<rparr>) g')"

definition recordCtxBudget :: "string \<Rightarrow> int \<Rightarrow> gauges \<Rightarrow> gauges" where
  "recordCtxBudget sid budget g =
     (if budget \<le> 0 then g else let (e, g') = gaugeLocked g sid in gput sid (e\<lparr>cg_budget := budget\<rparr>) g')"

definition recordCtxRows :: "string \<Rightarrow> int \<Rightarrow> gauges \<Rightarrow> gauges" where
  "recordCtxRows sid n g =
     (if n < 0 then g else let (e, g') = gaugeLocked g sid in gput sid (e\<lparr>cg_rows := n\<rparr>) g')"

definition ContextGauge :: "gauges \<Rightarrow> string \<Rightarrow> int \<times> int \<times> int" where
  "ContextGauge g sid = (let e = ggetz zero_gauge g sid in (cg_tokens e, cg_budget e, cg_rows e))"

definition lastPromptFloor :: "gauges \<Rightarrow> string \<Rightarrow> int" where
  "lastPromptFloor g sid = cg_tokens (ggetz zero_gauge g sid)"

definition clearPromptFloor :: "string \<Rightarrow> gauges \<Rightarrow> gauges" where
  "clearPromptFloor sid g = (case gget g sid of None \<Rightarrow> g | Some e \<Rightarrow> gput sid (e\<lparr>cg_tokens := 0\<rparr>) g)"

subsection \<open>Weights\<close>

text \<open>\<open>scale\<close> is the tokenizer, or the estimate where there is none; an empty text is not asked for.\<close>

definition weigh :: "(string \<Rightarrow> nat) \<Rightarrow> string \<Rightarrow> nat" where
  "weigh scale t = (if t = [] then 0 else scale t)"

definition weighMsg :: "(string \<Rightarrow> nat) \<Rightarrow> chat_message \<Rightarrow> nat" where
  "weighMsg scale m = weigh scale (ms_Content m) + sum_list (map (weigh scale \<circ> tc_Arguments) (ms_ToolCalls m))"

definition weighMsgs :: "(string \<Rightarrow> nat) \<Rightarrow> chat_message list \<Rightarrow> nat" where
  "weighMsgs scale msgs = sum_list (map (weighMsg scale) msgs)"

definition weighToolSpecs :: "(string \<Rightarrow> nat) \<Rightarrow> (string \<times> string \<times> string) list \<Rightarrow> nat" where
  "weighToolSpecs scale specs =
     sum_list (map (\<lambda>(name, description, parameters).
        weigh scale (name @ [CHR 0x0A] @ description @ [CHR 0x0A] @ parameters)) specs)"

definition weighChunkBytes :: nat where
  "weighChunkBytes = 65536"

function weighChunked :: "(string \<Rightarrow> nat) \<Rightarrow> string \<Rightarrow> nat" where
  "weighChunked scale t =
     (let cut = walk_start t weighChunkBytes
      in if weighChunkBytes < length t \<and> cut \<noteq> 0
         then weigh scale (take cut t) + weighChunked scale (drop cut t)
         else weigh scale t)"
  by pat_completeness auto
termination by (relation "measure (length \<circ> snd)") auto

subsection \<open>The compressor\<close>

function cut_windows :: "nat \<Rightarrow> string \<Rightarrow> string list" where
  "cut_windows capBytes t =
     (if capBytes < length t
      then let cut = boundaryCut t capBytes in take cut t # cut_windows capBytes (drop cut t)
      else if t \<noteq> [] then [t] else [])"
  by pat_completeness auto
termination
  by (relation "measure (length \<circ> snd)") (use boundaryCut_bounds in \<open>fastforce simp: Suc_le_eq\<close>)+

declare weighChunked.simps [simp del] cut_windows.simps [simp del]

text \<open>\<open>window len total cap\<close> is the size the source computes from the bytes per token.\<close>

definition cutBySlidingWindow :: "(nat \<Rightarrow> nat \<Rightarrow> nat \<Rightarrow> nat) \<Rightarrow> string \<Rightarrow> nat \<Rightarrow> nat \<Rightarrow> string list" where
  "cutBySlidingWindow window t totalTokens capTokens =
     cut_windows (let c = window (length t) totalTokens capTokens in if c < 1 then 1 else c) t"

datatype call_answer = Answer string | ContextExceeded | CallError

definition summarizeText :: "(string \<Rightarrow> string \<Rightarrow> call_answer) \<Rightarrow> string \<Rightarrow> string \<Rightarrow> call_answer" where
  "summarizeText chat system t =
     (if TrimSpace t = [] then Answer []
      else case chat system t of Answer c \<Rightarrow> Answer (TrimSpace c) | e \<Rightarrow> e)"

definition blank_line :: string where
  "blank_line = [CHR 0x0A, CHR 0x0A]"

lemma half_cut: "2 \<le> length t \<Longrightarrow> length t - boundaryCut t (length t div 2) < length t"
  using boundaryCut_bounds[of "length t div 2" t] by (cases t) auto

function summarizeSegment :: "(string \<Rightarrow> string \<Rightarrow> call_answer) \<Rightarrow> string \<Rightarrow> string \<Rightarrow> string" where
  "summarizeSegment chat system t =
     (case summarizeText chat system t of
        Answer out \<Rightarrow> out
      | CallError \<Rightarrow> []
      | ContextExceeded \<Rightarrow>
          if length t < 2 then []
          else let mid = boundaryCut t (length t div 2)
               in if length t \<le> mid then []
                  else let a = summarizeSegment chat system (take mid t)
                       in if a = [] then []
                          else let b = summarizeSegment chat system (drop mid t)
                               in if b = [] then [] else a @ blank_line @ b)"
  by pat_completeness auto
termination
  by (relation "measure (\<lambda>(chat, system, t). length t)") (auto simp: half_cut not_less)

declare summarizeSegment.simps [simp del]

fun summarize_all :: "(string \<Rightarrow> string \<Rightarrow> call_answer) \<Rightarrow> string \<Rightarrow> string list \<Rightarrow> string list option" where
  "summarize_all chat system [] = Some []"
| "summarize_all chat system (seg # segs) =
     (let out = summarizeSegment chat system seg
      in if out = [] then None else map_option (\<lambda>ps. out # ps) (summarize_all chat system segs))"

definition compressPass :: "(string \<Rightarrow> nat) \<Rightarrow> (nat \<Rightarrow> nat \<Rightarrow> nat \<Rightarrow> nat) \<Rightarrow> (string \<Rightarrow> string \<Rightarrow> call_answer)
    \<Rightarrow> string \<Rightarrow> string \<Rightarrow> nat \<Rightarrow> string \<Rightarrow> string" where
  "compressPass scale window chat sumSystem mergeSystem segCap t =
     (let total = weighChunked scale t
      in if total \<le> segCap then summarizeSegment chat sumSystem t
         else case summarize_all chat sumSystem (cutBySlidingWindow window t total segCap) of
                None \<Rightarrow> []
              | Some parts \<Rightarrow>
                  let joined = join blank_line parts
                  in if weighChunked scale joined \<le> segCap
                     then let merged = summarizeSegment chat mergeSystem joined
                          in if merged \<noteq> [] then merged else joined
                     else joined)"

definition compactSegTokens :: nat where
  "compactSegTokens = 28000"

text \<open>The product with 0.8 is exact up to rounding for every window in use, so its integer part is four fifths.\<close>

definition compressSegCap :: "int \<Rightarrow> int" where
  "compressSegCap w =
     (if 0 < w then let segCap = w * 4 div 5 - 2000 in if segCap < 2000 then 2000 else segCap
      else int compactSegTokens)"

subsection \<open>The compaction of a history\<close>

definition summaryPrefix :: string where
  "summaryPrefix = ''[Summary of the earlier part of this conversation]''"

definition manifest_header :: string where
  "manifest_header = blank_line @ [CHR 0x5B, CHR 0xE6, CHR 0x9C, CHR 0xAC, CHR 0xE4, CHR 0xBC, CHR 0x9A, CHR 0xE8, CHR 0xAF,
     CHR 0x9D, CHR 0xE6, CHR 0x96, CHR 0x87, CHR 0xE4, CHR 0xBB, CHR 0xB6, CHR 0x5D, CHR 0x0A]"

text \<open>The paths of the session's files; an unreadable list is none.\<close>

definition attachmentManifest :: "string list option \<Rightarrow> string" where
  "attachmentManifest paths =
     (case paths of
        None \<Rightarrow> []
      | Some ps \<Rightarrow>
          let lines = map (\<lambda>p. ''- '' @ p) (filter (\<lambda>p. p \<noteq> []) ps)
          in if lines = [] then [] else manifest_header @ join [CHR 0x0A] lines)"

record compact_env =
  ce_scale :: "string \<Rightarrow> nat"
  ce_window :: "nat \<Rightarrow> nat \<Rightarrow> nat \<Rightarrow> nat"
  ce_compressScale :: "string \<Rightarrow> nat"
  ce_chat :: "string \<Rightarrow> string \<Rightarrow> call_answer"
  ce_sumSystem :: string
  ce_mergeSystem :: string
  ce_segCap :: nat
  ce_files :: "string list option"
  ce_read_ok :: bool
  ce_write_ok :: bool
  ce_reread_ok :: bool

definition keep_at_most_third :: "(string \<Rightarrow> nat) \<Rightarrow> chat_message list \<Rightarrow> int \<Rightarrow> int" where
  "keep_at_most_third scale replay keepTokens =
     (if 0 < keepTokens
      then let total = int (weighMsgs scale replay) in if total div 3 < keepTokens then total div 3 else keepTokens
      else keepTokens)"

text \<open>The result tells whether a batch was written.\<close>

definition compactHistory :: "compact_env \<Rightarrow> string \<Rightarrow> chat_message list \<Rightarrow> int \<Rightarrow> chat_message list \<Rightarrow> gauges
    \<Rightarrow> bool \<times> chat_message list \<times> gauges" where
  "compactHistory env sid replay keepTokens0 rows g =
     (let scale = ce_scale env;
          keepTokens = keep_at_most_third scale replay keepTokens0
      in case splitForCompaction replay keepTokens (\<lambda>m. int (weighMsg scale m)) of
           None \<Rightarrow> (False, rows, g)
         | Some (older, recent) \<Rightarrow>
             let summary = compressPass (ce_compressScale env) (ce_window env) (ce_chat env) (ce_sumSystem env)
                   (ce_mergeSystem env) (ce_segCap env) (renderForSummary older)
             in if summary = [] then (False, rows, g)
                else let marker = summaryPrefix @ [CHR 0x0A] @ summary @ attachmentManifest (ce_files env);
                         newWeight = weighMsg scale (zero_message\<lparr>ms_Role := ''user'', ms_Content := marker\<rparr>);
                         oldWeight = weighMsgs scale older
                     in if oldWeight \<le> newWeight then (False, rows, g)
                        else if \<not> ce_write_ok env then (False, rows, g)
                        else (True, AppendCompactionBatch marker recent rows, clearPromptFloor sid g))"

definition historyReplayCap :: int where
  "historyReplayCap = 500"

definition forceCompact :: "compact_env \<Rightarrow> string \<Rightarrow> int \<Rightarrow> chat_message list \<times> gauges
    \<Rightarrow> bool \<times> chat_message list \<times> gauges" where
  "forceCompact env sid budget = (\<lambda>(rows, g).
     if \<not> ce_read_ok env then (False, rows, g)
     else compactHistory env sid (GetReplay historyReplayCap rows) (budget div 3) rows g)"

text \<open>The check at the top of every round. The four fifths and the budget are whole numbers of tokens. The
  rows the round builds from come first; nothing of them when the store cannot be read.\<close>

definition maybeCompressInPlace :: "compact_env \<Rightarrow> string \<Rightarrow> string \<Rightarrow> int \<Rightarrow> string \<Rightarrow> (string \<times> string \<times> string) list option
    \<Rightarrow> chat_message list \<Rightarrow> gauges \<Rightarrow> chat_message list option \<times> chat_message list \<times> gauges" where
  "maybeCompressInPlace env sid scope budget sys tools rows g0 =
     (if \<not> ce_read_ok env then (None, rows, g0)
      else let replay = GetReplay historyReplayCap rows;
               g = recordCtxBudget sid budget g0
           in if budget \<le> 0 then (Some replay, rows, g)
              else let weighed = int (weigh (ce_scale env) sys) + int (weighMsgs (ce_scale env) (renderSpeakers replay scope))
                         + (case tools of Some specs \<Rightarrow> int (weighToolSpecs (ce_scale env) specs) | None \<Rightarrow> 0);
                       flr = lastPromptFloor g sid;
                       trigger = (if weighed < flr then flr else weighed)
                   in if trigger < budget * 4 div 5 then (Some replay, rows, g)
                      else case compactHistory env sid replay (budget div 3) rows g of
                             (False, rows', g') \<Rightarrow> (Some replay, rows', g')
                           | (True, rows', g') \<Rightarrow>
                               (if ce_reread_ok env then Some (GetReplay historyReplayCap rows') else None, rows', g'))"

subsection \<open>Windows lose nothing\<close>

lemma valid_split:
  assumes "valid_utf8 s" and "n < length s" and "RuneStart (s ! n)"
  shows "valid_utf8 (take n s) \<and> valid_utf8 (drop n s)"
proof -
  have ok: "\<And>r. r \<in> set (runes s) \<Longrightarrow> rune_ok r" using assms(1) by (simp add: valid_utf8_def)
  obtain k where k: "fit n (runes s) = take k (runes s)" using fit_prefix by blast
  have "walk_start s n = n" using assms(3) by (cases n) auto
  then have len: "length (concat (take k (runes s))) = n"
    using walk_start_fit[of "runes s" n] ok assms(2) k by (simp add: concat_runes)
  have s: "concat (take k (runes s)) @ concat (drop k (runes s)) = s"
    by (metis append_take_drop_id concat_append concat_runes)
  have "take n s = concat (take k (runes s))" "drop n s = concat (drop k (runes s))"
    using s len by (metis append_eq_conv_conj)+
  then show ?thesis using ok by (auto intro!: valid_utf8_concat dest: in_set_takeD in_set_dropD)
qed

lemma valid_rune_size: "valid_utf8 s \<Longrightarrow> s \<noteq> [] \<Longrightarrow> valid_utf8 (take (rune_size s) s) \<and> valid_utf8 (drop (rune_size s) s)"
proof -
  assume v: "valid_utf8 s" and ne: "s \<noteq> []"
  obtain r rs where rs: "runes s = r # rs" using ne by (cases "runes s") auto
  have ok: "rune_ok r" "\<And>x. x \<in> set rs \<Longrightarrow> rune_ok x" using v rs by (auto simp: valid_utf8_def)
  have s: "s = r @ concat rs" using concat_runes[of s] rs by simp
  have "rune_size s = length r" using rune_size_rune[OF ok(1), of "concat rs"] s by simp
  then show ?thesis
    using valid_utf8_concat[of "[r]"] valid_utf8_concat[of rs] ok s by (metis append_eq_conv_conj concat.simps append_Nil2 empty_iff list.set(1) set_ConsD)
qed

lemma walk_start_stop: "walk_start s n = m \<Longrightarrow> m \<noteq> 0 \<Longrightarrow> RuneStart (s ! m)"
  by (induction n) (auto split: if_splits)

lemma boundaryCut_valid:
  assumes "valid_utf8 t" and "capBytes < length t"
  shows "valid_utf8 (take (boundaryCut t capBytes) t) \<and> valid_utf8 (drop (boundaryCut t capBytes) t)"
proof -
  define flr where "flr = capBytes - capBytes div 10"
  define win where "win = take (capBytes - flr) (drop flr t)"
  have ne: "t \<noteq> []" using assms(2) by auto
  show ?thesis
  proof (cases "LastIndexAny compactBoundaryChars win")
    case None
    then have cut: "boundaryCut t capBytes = (if walk_start t capBytes = 0 then rune_size t else walk_start t capBytes)"
      by (simp add: boundaryCut_def Let_def flr_def[symmetric] win_def[symmetric])
    show ?thesis
    proof (cases "walk_start t capBytes = 0")
      case True
      then show ?thesis using valid_rune_size[OF assms(1) ne] cut by simp
    next
      case False
      have "walk_start t capBytes < length t" using walk_start_le[of t capBytes] assms(2) by simp
      from valid_split[OF assms(1) this walk_start_stop[OF refl False]] show ?thesis using cut False by simp
    qed
  next
    case (Some i)
    obtain c where i: "i < length win" and c: "c \<in> set compactBoundaryChars" "prefix c (drop i win)"
      using LastIndexAny_Some[OF Some] by blast
    define n where "n = flr + i"
    have n: "n < length t" using i assms(2) by (simp add: n_def win_def)
    have "drop i win = take (capBytes - flr - i) (drop n t)" by (simp add: win_def n_def drop_take add.commute)
    then have "prefix c (drop n t)" using c(2) by (metis prefix_order.order_trans take_is_prefix)
    then obtain z where z: "drop n t = c @ z" by (auto elim: prefixE)
    have ok: "rune_ok c" by (rule boundary_chars_ok[OF c(1)])
    have st: "RuneStart (t ! n)" using rune_first[OF ok, of z] z n by (metis nth_drop add.right_neutral less_imp_le_nat)
    from valid_split[OF assms(1) n st] have v: "valid_utf8 (take n t)" "valid_utf8 (c @ z)" using z by auto
    have sz: "rune_size (drop n t) = length c" using rune_size_rune[OF ok] z by simp
    have le: "n + length c \<le> length t" using arg_cong[OF z, of length] n by simp
    then have cut: "boundaryCut t capBytes = n + length c"
      using Some sz by (simp add: boundaryCut_def Let_def flr_def[symmetric] win_def[symmetric] n_def[symmetric])
    have "drop (length c + n) t = z" using z by (simp flip: drop_drop)
    then have "take (n + length c) t = take n t @ c" "drop (n + length c) t = z"
      using z by (simp_all add: take_add add.commute)
    moreover have "valid_utf8 z" using v(2) valid_rune_size[OF v(2)] rune_size_rune[OF ok, of z] ok by (cases c) auto
    moreover have "valid_utf8 c" using valid_utf8_concat[of "[c]"] ok by simp
    ultimately show ?thesis using v(1) cut by (simp add: valid_utf8_append)
  qed
qed

lemma cut_windows_spec:
  "concat (cut_windows capBytes t) = t \<and> [] \<notin> set (cut_windows capBytes t)
   \<and> (\<forall>w \<in> set (cut_windows capBytes t). length w \<le> max capBytes 4)
   \<and> (valid_utf8 t \<longrightarrow> (\<forall>w \<in> set (cut_windows capBytes t). valid_utf8 w))"
proof (induction capBytes t rule: cut_windows.induct)
  case (1 capBytes t)
  show ?case
  proof (cases "capBytes < length t")
    case True
    let ?c = "boundaryCut t capBytes"
    have b: "1 \<le> ?c" "?c \<le> length t" "?c \<le> max capBytes 4" using boundaryCut_bounds[OF True] by auto
    have eq: "cut_windows capBytes t = take ?c t # cut_windows capBytes (drop ?c t)"
      using True by (subst cut_windows.simps) (simp add: Let_def)
    let ?ws = "cut_windows capBytes (drop ?c t)"
    have ih: "concat ?ws = drop ?c t" "[] \<notin> set ?ws" "\<forall>w \<in> set ?ws. length w \<le> max capBytes 4"
      "valid_utf8 (drop ?c t) \<Longrightarrow> \<forall>w \<in> set ?ws. valid_utf8 w"
      using "1.IH"[OF True refl] by blast+
    have "\<forall>w \<in> set (take ?c t # ?ws). valid_utf8 w" if v: "valid_utf8 t"
    proof -
      note c = conjunct1[OF boundaryCut_valid[OF v True]] conjunct2[OF boundaryCut_valid[OF v True]]
      show ?thesis using c(1) ih(4)[OF c(2)] by (simp only: list.set ball_simps conj_assoc simp_thms)
    qed
    moreover have "concat (take ?c t # ?ws) = t" using ih(1) by simp
    moreover have "[] \<notin> set (take ?c t # ?ws)" using ih(2) b(1) True by auto
    moreover have "\<forall>w \<in> set (take ?c t # ?ws). length w \<le> max capBytes 4" using ih(3) b(3) by simp
    ultimately show ?thesis unfolding eq by (intro conjI impI)
  next
    case False
    then have "cut_windows capBytes t = (if t = [] then [] else [t])" by (subst cut_windows.simps) simp
    then show ?thesis using False by auto
  qed
qed

text \<open>
  C29. The compressor cuts a text of any size into windows that put together are the text, none of them empty
  and none larger than the window (or one rune, when the window is smaller than that), whatever window was
  computed; a valid text is never cut inside a rune.
\<close>

theorem windows_partition_text:
  "concat (cutBySlidingWindow window t tot segCap) = t \<and> [] \<notin> set (cutBySlidingWindow window t tot segCap)
   \<and> (\<forall>w \<in> set (cutBySlidingWindow window t tot segCap). length w \<le> max (window (length t) tot segCap) 4)
   \<and> (valid_utf8 t \<longrightarrow> (\<forall>w \<in> set (cutBySlidingWindow window t tot segCap). valid_utf8 w))"
proof -
  define c where "c = (if window (length t) tot segCap < 1 then 1 else window (length t) tot segCap)"
  have "max c 4 = max (window (length t) tot segCap) 4" by (simp add: c_def)
  moreover have "cutBySlidingWindow window t tot segCap = cut_windows c t"
    by (simp add: cutBySlidingWindow_def Let_def c_def)
  ultimately show ?thesis using cut_windows_spec[of c t] by simp
qed

theorem windows_partition_text_witness:
  "concat (cutBySlidingWindow (\<lambda>_ _ _. 5) ''ab. cd. ef'' 9 3) = ''ab. cd. ef''
   \<and> list_all valid_utf8 (cutBySlidingWindow (\<lambda>_ _ _. 5) ''ab. cd. ef'' 9 3)"
proof -
  have "valid_utf8 ''ab. cd. ef''" by code_simp
  then show ?thesis
    using windows_partition_text[of "\<lambda>_ _ _. 5" "''ab. cd. ef''" 9 3] unfolding list_all_iff by (elim conjE) (intro conjI, assumption, erule mp)
qed

subsection \<open>Nothing of a segment is skipped\<close>

text \<open>
  The pieces a segment falls into: a piece is halved, at the boundary nearest to its middle, exactly when the
  model refuses it for its size and it is long enough to be cut.
\<close>

inductive pieces :: "(string \<Rightarrow> string \<Rightarrow> call_answer) \<Rightarrow> string \<Rightarrow> string \<Rightarrow> string list \<Rightarrow> bool" where
  asked_whole: "pieces chat system t [t]"
    if "summarizeText chat system t \<noteq> ContextExceeded \<or> length t < 2 \<or> length t \<le> boundaryCut t (length t div 2)"
| halved: "pieces chat system t (ps @ qs)"
    if "summarizeText chat system t = ContextExceeded" "2 \<le> length t" "boundaryCut t (length t div 2) < length t"
      "pieces chat system (take (boundaryCut t (length t div 2)) t) ps"
      "pieces chat system (drop (boundaryCut t (length t div 2)) t) qs"

text \<open>What the model said of a piece, nothing when the call failed.\<close>

definition told :: "(string \<Rightarrow> string \<Rightarrow> call_answer) \<Rightarrow> string \<Rightarrow> string \<Rightarrow> string" where
  "told chat system p = (case summarizeText chat system p of Answer a \<Rightarrow> a | _ \<Rightarrow> [])"

lemma pieces_concat: "pieces chat system t ps \<Longrightarrow> ps \<noteq> [] \<and> concat ps = t"
  by (induction rule: pieces.induct) auto

lemma pieces_size:
  "pieces chat system t ps \<Longrightarrow> p \<in> set ps \<Longrightarrow> summarizeText chat system p = ContextExceeded \<Longrightarrow> length p \<le> 4"
proof (induction rule: pieces.induct)
  case (asked_whole chat system t)
  have "boundaryCut t (length t div 2) \<le> max (length t div 2) 4" if "\<not> length t < 2"
    using boundaryCut_bounds[of "length t div 2" t] that by simp
  then show ?case using asked_whole by (cases "length t < 2") (auto simp: max_def split: if_splits)
qed auto

lemma segment_of_pieces:
  "pieces chat system t ps \<Longrightarrow> summarizeSegment chat system t =
     (if \<forall>p\<in>set ps. told chat system p \<noteq> [] then join blank_line (map (told chat system) ps) else [])"
proof (induction rule: pieces.induct)
  case (asked_whole chat system t)
  have "summarizeSegment chat system t = told chat system t"
    using asked_whole by (subst summarizeSegment.simps) (auto simp: told_def Let_def split: call_answer.splits)
  then show ?case by simp
next
  case (halved chat system t ps qs)
  let ?mid = "boundaryCut t (length t div 2)"
  let ?a = "summarizeSegment chat system (take ?mid t)" and ?b = "summarizeSegment chat system (drop ?mid t)"
  have "ps \<noteq> []" "qs \<noteq> []" using pieces_concat halved(4,5) by blast+
  then have j: "join blank_line (map (told chat system) (ps @ qs))
      = join blank_line (map (told chat system) ps) @ blank_line @ join blank_line (map (told chat system) qs)"
    by (simp add: join_append)
  have ne: "join blank_line (map (told chat system) rs) \<noteq> []" if "rs \<noteq> []" "\<forall>p\<in>set rs. told chat system p \<noteq> []" for rs
    using that by (cases rs rule: list.exhaust; cases "tl rs") auto
  have "summarizeSegment chat system t = (if ?a = [] \<or> ?b = [] then [] else ?a @ blank_line @ ?b)"
    using halved(1-3) by (subst summarizeSegment.simps) (simp add: Let_def)
  also have "\<dots> = (if \<forall>p\<in>set (ps @ qs). told chat system p \<noteq> [] then join blank_line (map (told chat system) (ps @ qs)) else [])"
    unfolding halved.IH j using ne \<open>ps \<noteq> []\<close> \<open>qs \<noteq> []\<close> by (auto simp del: map_append)
  finally show ?case .
qed

lemma pieces_exist: "\<exists>ps. pieces chat system t ps"
proof (induction "length t" arbitrary: t rule: less_induct)
  case less
  let ?mid = "boundaryCut t (length t div 2)"
  show ?case
  proof (cases "summarizeText chat system t = ContextExceeded \<and> 2 \<le> length t \<and> ?mid < length t")
    case True
    then have "length (take ?mid t) < length t" "length (drop ?mid t) < length t" using half_cut[of t] by auto
    then obtain ps qs where "pieces chat system (take ?mid t) ps" "pieces chat system (drop ?mid t) qs" using less by blast
    then show ?thesis using True pieces.halved by blast
  next
    case False
    then have "pieces chat system t [t]" by (intro pieces.asked_whole) auto
    then show ?thesis by blast
  qed
qed

text \<open>
  C20. A summary leaves no part of its segment out. The segment falls into consecutive pieces, halved for as long
  as the model refuses one for its size, which always ends, with no refused piece of more than four bytes left.
  There is a summary exactly when the model answers every piece with a text that is not blank, and it is
  then these answers, in the order of the pieces; when the call fails for one piece, or the piece or its answer is
  blank, there is none.
\<close>

theorem summary_covers_segment:
  "\<exists>parts. pieces chat system t parts \<and> parts \<noteq> [] \<and> concat parts = t
     \<and> (\<forall>p\<in>set parts. summarizeText chat system p = ContextExceeded \<longrightarrow> length p \<le> 4)
     \<and> summarizeSegment chat system t
       = (if \<forall>p\<in>set parts. told chat system p \<noteq> [] then join blank_line (map (told chat system) parts) else [])"
  using pieces_exist[of chat system t] pieces_concat pieces_size segment_of_pieces by metis

lemma pieces_unique: "pieces chat system t ps \<Longrightarrow> pieces chat system t qs \<Longrightarrow> qs = ps"
proof (induction arbitrary: qs rule: pieces.induct)
  case (asked_whole chat system t)
  from asked_whole(2,1) show ?case by (cases rule: pieces.cases) auto
next
  case (halved chat system t ps qs')
  from halved(8,1-3) show ?case by (cases rule: pieces.cases) (use halved(6,7) in auto)
qed

definition demo_small_model :: "string \<Rightarrow> string \<Rightarrow> call_answer" where
  "demo_small_model system t = (if 6 < length t then ContextExceeded else Answer (''<'' @ take 2 t @ ''>''))"

theorem summary_covers_segment_witness:
  "summarizeSegment demo_small_model [] ''one. two.'' = ''<on>'' @ blank_line @ ''< t>''"
proof -
  have m: "boundaryCut ''one. two.'' (length ''one. two.'' div 2) = 4" by code_simp
  have c: "summarizeText demo_small_model [] ''one. two.'' = ContextExceeded" by code_simp
  have "pieces demo_small_model [] ''one.'' [''one.'']" "pieces demo_small_model [] '' two.'' ['' two.'']"
    by (rule pieces.asked_whole, code_simp)+
  then have "pieces demo_small_model [] ''one. two.'' ([''one.''] @ ['' two.''])"
    by (intro pieces.halved) (use c m in simp_all)
  moreover obtain parts where "pieces demo_small_model [] ''one. two.'' parts"
    "summarizeSegment demo_small_model [] ''one. two.''
      = (if \<forall>p\<in>set parts. told demo_small_model [] p \<noteq> [] then join blank_line (map (told demo_small_model []) parts) else [])"
    using summary_covers_segment[of demo_small_model "[]" "''one. two.''"] by blast
  moreover have "told demo_small_model [] ''one.'' = ''<on>''" "told demo_small_model [] '' two.'' = ''< t>''" by code_simp+
  ultimately show ?thesis using pieces_unique by fastforce
qed

subsection \<open>Progress\<close>

lemma weighMsgs_append: "weighMsgs scale (a @ b) = weighMsgs scale a + weighMsgs scale b"
  by (simp add: weighMsgs_def)

lemma weighMsg_kind [simp]: "weighMsg scale (m\<lparr>ms_RowKind := k\<rparr>) = weighMsg scale m"
  by (simp add: weighMsg_def)

lemma weighMsg_summary: "weighMsg scale (summary_row c) = weighMsg scale (zero_message\<lparr>ms_Role := ''user'', ms_Content := c\<rparr>)"
  by (simp add: weighMsg_def summary_row_def)

lemma replay_of_batch:
  "GetReplay cap (AppendCompactionBatch summary recent rows) = summary_row summary # map (\<lambda>m. m\<lparr>ms_RowKind := RowKindMsg\<rparr>) recent"
proof -
  have "from_summary (rows @ summary_row summary # map (\<lambda>m. m\<lparr>ms_RowKind := RowKindMsg\<rparr>) recent)
      = Some (summary_row summary # map (\<lambda>m. m\<lparr>ms_RowKind := RowKindMsg\<rparr>) recent)"
    by (rule from_summary_last) (auto simp: summary_row_def)
  then show ?thesis by (simp add: GetReplay_def AppendCompactionBatch_def)
qed

lemma compactHistory_cases:
  obtains (none) "compactHistory env sid replay k rows g = (False, rows, g)"
  | (batch) older recent marker where
      "compactHistory env sid replay k rows g = (True, AppendCompactionBatch marker recent rows, clearPromptFloor sid g)"
      "older @ recent = replay" "weighMsg (ce_scale env) (summary_row marker) < weighMsgs (ce_scale env) older"
proof -
  let ?scale = "ce_scale env"
  let ?split = "splitForCompaction replay (keep_at_most_third ?scale replay k) (\<lambda>m. int (weighMsg ?scale m))"
  show thesis
  proof (cases ?split)
    case None
    then show thesis by (intro none) (simp add: compactHistory_def Let_def)
  next
    case (Some p)
    obtain older recent where p: "p = (older, recent)" by (cases p)
    define summary where "summary = compressPass (ce_compressScale env) (ce_window env) (ce_chat env) (ce_sumSystem env)
                   (ce_mergeSystem env) (ce_segCap env) (renderForSummary older)"
    define marker where "marker = summaryPrefix @ [CHR 0x0A] @ summary @ attachmentManifest (ce_files env)"
    have e: "compactHistory env sid replay k rows g =
        (if summary = [] \<or> weighMsgs ?scale older \<le> weighMsg ?scale (summary_row marker) \<or> \<not> ce_write_ok env
         then (False, rows, g) else (True, AppendCompactionBatch marker recent rows, clearPromptFloor sid g))"
      using Some by (simp add: compactHistory_def Let_def p summary_def[symmetric] marker_def weighMsg_summary)
    show thesis
    proof (cases "summary = [] \<or> weighMsgs ?scale older \<le> weighMsg ?scale (summary_row marker) \<or> \<not> ce_write_ok env")
      case True
      then show thesis by (intro none) (simp add: e)
    next
      case False
      then show thesis
        using split_facts(1)[OF Some[unfolded p]] by (intro batch[of marker recent older]) (auto simp: e)
    qed
  qed
qed

lemma compactHistory_lighter:
  assumes "compactHistory env sid replay k rows g = (True, rows', g')"
  shows "weighMsgs (ce_scale env) (GetReplay cap rows') < weighMsgs (ce_scale env) replay"
  using compactHistory_cases[of env sid replay k rows g]
proof cases
  case none
  then show ?thesis using assms by simp
next
  case (batch older recent marker)
  then have "rows' = AppendCompactionBatch marker recent rows" using assms by simp
  then have "GetReplay cap rows' = summary_row marker # map (\<lambda>m. m\<lparr>ms_RowKind := RowKindMsg\<rparr>) recent"
    by (simp add: replay_of_batch)
  then have "weighMsgs (ce_scale env) (GetReplay cap rows') = weighMsg (ce_scale env) (summary_row marker) + weighMsgs (ce_scale env) recent"
    by (simp add: weighMsgs_def o_def)
  then show ?thesis using batch(2,3) weighMsgs_append[of "ce_scale env" older recent] by simp
qed

text \<open>
  A forced compaction that reports success has left a replay of strictly smaller weight on the scale of the
  request, with every row of the table still there; one that reports failure has changed neither the table
  nor the gauge.
\<close>

theorem compaction_shrinks_or_leaves:
  "case forceCompact env sid budget (rows, g) of (shrank, rows', g') \<Rightarrow>
     if shrank
     then weighMsgs (ce_scale env) (GetReplay historyReplayCap rows') < weighMsgs (ce_scale env) (GetReplay historyReplayCap rows)
        \<and> take (length rows) rows' = rows
     else rows' = rows \<and> g' = g"
proof (cases "ce_read_ok env")
  case False
  then show ?thesis by (simp add: forceCompact_def)
next
  case True
  let ?c = "compactHistory env sid (GetReplay historyReplayCap rows) (budget div 3) rows g"
  have e: "forceCompact env sid budget (rows, g) = ?c" using True by (simp add: forceCompact_def)
  show ?thesis
    using compactHistory_cases[of env sid "GetReplay historyReplayCap rows" "budget div 3" rows g]
  proof cases
    case none
    then show ?thesis by (simp add: e)
  next
    case (batch older recent marker)
    then show ?thesis
      using compactHistory_lighter[OF batch(1), of historyReplayCap] by (simp add: e AppendCompactionBatch_def)
  qed
qed

text \<open>\<open>all_shrink sid steps s\<close>: the forced compactions of \<open>steps\<close>, one after the other with nothing written in
  between, all report success.\<close>

fun all_shrink :: "string \<Rightarrow> (compact_env \<times> int) list \<Rightarrow> chat_message list \<times> gauges \<Rightarrow> bool" where
  "all_shrink sid [] s = True"
| "all_shrink sid ((env, budget) # steps) s =
     (case forceCompact env sid budget s of (shrank, s') \<Rightarrow> shrank \<and> all_shrink sid steps s')"

text \<open>
  C17. The retries of a prompt the model keeps refusing end: on one scale, no more forced compactions in a row
  can report success than the replay weighs, whatever the compressing model answers.
\<close>

theorem oversized_retries_end:
  assumes "all_shrink sid steps (rows, g)" and "\<And>env budget. (env, budget) \<in> set steps \<Longrightarrow> ce_scale env = scale"
  shows "length steps \<le> weighMsgs scale (GetReplay historyReplayCap rows)"
  using assms
proof (induction steps arbitrary: rows g)
  case (Cons p steps)
  obtain env budget where p: "p = (env, budget)" by (cases p)
  have sc: "ce_scale env = scale" using Cons.prems(2) p by auto
  obtain rows' g' where f: "forceCompact env sid budget (rows, g) = (True, rows', g')" and rest: "all_shrink sid steps (rows', g')"
    using Cons.prems(1) p by (cases "forceCompact env sid budget (rows, g)") auto
  have "compactHistory env sid (GetReplay historyReplayCap rows) (budget div 3) rows g = (True, rows', g')"
    using f by (auto simp: forceCompact_def split: if_splits)
  from compactHistory_lighter[OF this] have "weighMsgs scale (GetReplay historyReplayCap rows') < weighMsgs scale (GetReplay historyReplayCap rows)"
    by (simp add: sc)
  moreover have "length steps \<le> weighMsgs scale (GetReplay historyReplayCap rows')"
    using Cons.IH[OF rest] Cons.prems(2) by auto
  ultimately show ?case by simp
qed simp

definition demo_env :: compact_env where
  "demo_env = \<lparr> ce_scale = length, ce_window = (\<lambda>_ _ c. c), ce_compressScale = length, ce_chat = (\<lambda>_ _. Answer ''s''),
     ce_sumSystem = [], ce_mergeSystem = [], ce_segCap = 1000, ce_files = None, ce_read_ok = True, ce_write_ok = True,
     ce_reread_ok = True \<rparr>"

definition demo_history :: "chat_message list" where
  "demo_history = [zero_message\<lparr>ms_Role := ''user'', ms_Content := replicate 60 CHR ''a''\<rparr>,
     zero_message\<lparr>ms_Role := ''assistant'', ms_Content := ''b''\<rparr>]"

lemma weighChunked_short: "length t \<le> weighChunkBytes \<Longrightarrow> weighChunked scale t = weigh scale t"
  by (subst weighChunked.simps) (simp add: Let_def)

lemma summarizeSegment_answer: "summarizeText chat system t = Answer out \<Longrightarrow> summarizeSegment chat system t = out"
  by (subst summarizeSegment.simps) simp

lemma demo_pass: "forceCompact demo_env [] 0 (demo_history, []) =
    (True, AppendCompactionBatch (summaryPrefix @ [CHR 0x0A] @ ''s'') [demo_history ! 1] demo_history, [])"
proof -
  define older where "older = [demo_history ! 0]"
  define t where "t = renderForSummary older"
  have sp: "splitForCompaction (GetReplay historyReplayCap demo_history) 0 (\<lambda>m. int (weighMsg length m)) =
      Some (older, [demo_history ! 1])"
    unfolding older_def by code_simp
  have t: "length t \<le> 1000" "summarizeText (\<lambda>_ _. Answer ''s'') [] t = Answer ''s''"
    unfolding t_def older_def by code_simp+
  have "compressPass length (\<lambda>_ _ c. c) (\<lambda>_ _. Answer ''s'') [] [] 1000 t = ''s''"
    using t by (simp add: compressPass_def Let_def weighChunked_short weighChunkBytes_def weigh_def summarizeSegment_answer)
  moreover have "weighMsg length (zero_message\<lparr>ms_Role := ''user'', ms_Content := summaryPrefix @ [CHR 0x0A] @ ''s''\<rparr>) < weighMsgs length older"
    unfolding older_def by code_simp
  ultimately show ?thesis
    using sp by (simp add: forceCompact_def compactHistory_def demo_env_def keep_at_most_third_def Let_def attachmentManifest_def
      clearPromptFloor_def t_def[symmetric])
qed

theorem oversized_retries_end_witness: "length [(demo_env, 0::int)] \<le> weighMsgs length (GetReplay historyReplayCap demo_history)"
proof -
  have "all_shrink [] [(demo_env, 0)] (demo_history, [])" by (simp add: demo_pass)
  from oversized_retries_end[OF this, of length] show ?thesis by (simp add: demo_env_def)
qed

subsection \<open>The next pass can go on\<close>

lemma walk_back_reaches:
  assumes "keep \<le> tok + sum_list (map w (take n ms))" and "1 \<le> n" and "n \<le> length ms"
  shows "walk_back w keep tok ms \<le> n"
  using assms
proof (induction ms arbitrary: tok n)
  case (Cons m ms)
  show ?case
  proof (cases "keep \<le> tok + w m")
    case True
    then show ?thesis using Cons.prems(2) by simp
  next
    case False
    obtain k where n: "n = Suc k" using Cons.prems(2) by (cases n) auto
    have "1 \<le> k" using Cons.prems(1) False n by (cases k) auto
    then have "walk_back w keep (tok + w m) ms \<le> k" using Cons.prems n by (intro Cons.IH) (simp_all add: algebra_simps)
    then show ?thesis using False n by simp
  qed
qed simp

lemma out_of_pair_stops: "1 \<le> n \<Longrightarrow> \<not> is_tool (r ! 1) \<Longrightarrow> 1 \<le> out_of_pair r n"
proof (induction n)
  case (Suc n)
  then show ?case by (cases n) auto
qed simp

lemma split_inside:
  assumes "replay = s # tail" and "tail \<noteq> []" and "\<not> is_tool (hd tail)" and "keep \<le> sum_list (map w tail)"
  shows "splitForCompaction replay keep w \<noteq> None"
proof -
  let ?wb = "walk_back w keep 0 (rev replay)"
  have "take (length tail) (rev replay) = rev tail" using assms(1) by simp
  moreover have "keep \<le> 0 + sum_list (map w (rev tail))" using assms(4) by (simp add: rev_map[symmetric])
  ultimately have "?wb \<le> length tail"
    using assms(1,2) by (intro walk_back_reaches) (simp_all add: Suc_le_eq)
  then have "1 \<le> length replay - ?wb" using assms(1) by simp
  moreover have "\<not> is_tool (replay ! 1)" using assms(1-3) by (simp add: hd_conv_nth)
  ultimately have "1 \<le> out_of_pair replay (length replay - ?wb)" by (rule out_of_pair_stops)
  moreover have "\<not> length replay < 2" using assms(1,2) by (cases tail) auto
  ultimately show ?thesis by (simp add: splitForCompaction_def Let_def)
qed

lemma keep_mono:
  assumes "weighMsgs scale r' \<le> weighMsgs scale r"
  shows "keep_at_most_third scale r' k \<le> keep_at_most_third scale r k"
proof -
  have "int (weighMsgs scale r') div 3 \<le> int (weighMsgs scale r) div 3" using assms by (simp add: zdiv_mono1)
  then show ?thesis by (simp add: keep_at_most_third_def Let_def)
qed

lemma compactHistory_kept:
  assumes "compactHistory env sid replay k rows g = (True, rows', g')"
  obtains older recent marker where "rows' = AppendCompactionBatch marker recent rows"
    "splitForCompaction replay (keep_at_most_third (ce_scale env) replay k) (\<lambda>m. int (weighMsg (ce_scale env) m)) = Some (older, recent)"
proof (cases "splitForCompaction replay (keep_at_most_third (ce_scale env) replay k) (\<lambda>m. int (weighMsg (ce_scale env) m))")
  case None
  then show thesis using assms by (simp add: compactHistory_def Let_def)
next
  case (Some p)
  obtain older recent where p: "p = (older, recent)" by (cases p)
  then have "\<exists>marker. rows' = AppendCompactionBatch marker recent rows"
    using assms Some by (auto simp: compactHistory_def Let_def split: if_splits)
  then show thesis using that Some p by blast
qed

text \<open>
  C18. A compaction never blocks the next one: after a batch has been written, the replay it left, on the same
  scale and with the same tail to keep, can be split again, so an oversized summary is always taken up by
  the next pass.
\<close>

theorem compaction_can_continue:
  assumes "compactHistory env sid replay k rows g = (True, rows', g')"
  shows "splitForCompaction (GetReplay cap rows') (keep_at_most_third (ce_scale env) (GetReplay cap rows') k)
     (\<lambda>m. int (weighMsg (ce_scale env) m)) \<noteq> None"
proof -
  let ?w = "\<lambda>m. int (weighMsg (ce_scale env) m)"
  obtain older recent marker where b: "rows' = AppendCompactionBatch marker recent rows"
    and s: "splitForCompaction replay (keep_at_most_third (ce_scale env) replay k) ?w = Some (older, recent)"
    by (rule compactHistory_kept[OF assms])
  define tail where "tail = map (\<lambda>m. m\<lparr>ms_RowKind := RowKindMsg\<rparr>) recent"
  have r: "GetReplay cap rows' = summary_row marker # tail" by (simp add: b replay_of_batch tail_def)
  have f: "recent \<noteq> []" "\<not> is_tool (hd recent)" using split_facts[OF s] by auto
  have t: "tail \<noteq> []" "\<not> is_tool (hd tail)" using f by (simp_all add: tail_def hd_map)
  have "keep_at_most_third (ce_scale env) (GetReplay cap rows') k \<le> keep_at_most_third (ce_scale env) replay k"
    using compactHistory_lighter[OF assms, of cap] by (intro keep_mono) simp
  also have "\<dots> \<le> sum_list (map ?w recent)" using split_keeps_weight[OF s] by simp
  also have "\<dots> = sum_list (map ?w tail)" by (simp add: tail_def o_def)
  finally show ?thesis using split_inside[OF r t] by simp
qed

theorem compaction_can_continue_witness:
  "splitForCompaction (GetReplay 500 (AppendCompactionBatch (summaryPrefix @ [CHR 0x0A] @ ''s'') [demo_history ! 1] demo_history))
     (keep_at_most_third length (GetReplay 500 (AppendCompactionBatch (summaryPrefix @ [CHR 0x0A] @ ''s'') [demo_history ! 1] demo_history)) 0)
     (\<lambda>m. int (weighMsg length m)) \<noteq> None"
proof -
  have "compactHistory demo_env [] (GetReplay historyReplayCap demo_history) 0 demo_history [] =
      (True, AppendCompactionBatch (summaryPrefix @ [CHR 0x0A] @ ''s'') [demo_history ! 1] demo_history, [])"
    using demo_pass by (simp add: forceCompact_def demo_env_def)
  from compaction_can_continue[OF this, of 500] show ?thesis by (simp add: demo_env_def)
qed

text \<open>A first pass has no such promise: with most of the weight in the first row, the walk from the end takes
  every row before it has kept a third, and there is nothing left to summarise.\<close>

lemma bulky_first_row_is_unsplittable:
  "splitForCompaction demo_history (keep_at_most_third length demo_history 1000) (\<lambda>m. int (weighMsg length m)) = None"
  by code_simp

subsection \<open>The gauge is bounded\<close>

lemma gaugeLocked_bound:
  assumes "length g \<le> promptFloorCap" and "gaugeLocked g sid = (e, g')"
  shows "length (gput sid v g') \<le> promptFloorCap"
  using assms by (auto simp: gaugeLocked_def Let_def length_gput ghas_iff promptFloorCap_def split: if_splits)

text \<open>The gauge of the sessions never outgrows its cap, whichever reading is recorded.\<close>

theorem gauge_bounded:
  assumes "length g \<le> promptFloorCap"
  shows "length (recordPromptFloor sid n g) \<le> promptFloorCap \<and> length (recordCtxBudget sid n g) \<le> promptFloorCap
     \<and> length (recordCtxRows sid n g) \<le> promptFloorCap \<and> length (clearPromptFloor sid g) \<le> promptFloorCap"
proof -
  obtain e g' where e: "gaugeLocked g sid = (e, g')" by fastforce
  have b: "\<And>v. length (gput sid v g') \<le> promptFloorCap" by (rule gaugeLocked_bound[OF assms e])
  have "length (clearPromptFloor sid g) \<le> promptFloorCap"
  proof (cases "gget g sid")
    case None
    then show ?thesis using assms by (simp add: clearPromptFloor_def)
  next
    case (Some v)
    then have "sid \<in> set (gkeys g)" using ghas_iff[of g sid] by (simp add: ghas_def)
    then show ?thesis using assms Some by (simp add: clearPromptFloor_def length_gput)
  qed
  then show ?thesis
    using assms b by (simp add: recordPromptFloor_def recordCtxBudget_def recordCtxRows_def e)
qed

end
