(* ===== verification/Turn_State.thy ===== *)
theory Turn_State
  imports Turn_Compact "HOL-Library.Word"
begin

unbundle bit_operations_syntax

section \<open>The state of a turn and its guards\<close>

text \<open>
  \<^verbatim>\<open>src/leaf/turn/30-state.go\<close>, the guards and the progress axes of \<^verbatim>\<open>70-guards.go\<close>, the staleness ladder and
  the routing tags of \<^verbatim>\<open>80-nudge.go\<close>. The fixed texts that steer the model are named by their constants; the
  texts that reach a person are given byte by byte.
\<close>

datatype exit_state = exitUnset | exitCancelled | exitIterCap | exitToolRequested | exitDegenSalvage
  | exitStuckLoop | exitDomainStuck | exitRubricFailed

datatype turn_outcome = OutcomeFinal | OutcomeProcess | OutcomeDegraded | OutcomeCancelled | OutcomeError

fun outcome :: "exit_state \<Rightarrow> turn_outcome" where
  "outcome exitToolRequested = OutcomeProcess"
| "outcome exitCancelled = OutcomeCancelled"
| "outcome s = OutcomeDegraded"

record turn_exit =
  te_state :: exit_state
  te_detail :: string
  te_rejected :: string

definition exit_with :: "exit_state \<Rightarrow> turn_exit" where
  "exit_with s = \<lparr> te_state = s, te_detail = [], te_rejected = [] \<rparr>"

record turn_state =
  ts_exit :: "turn_exit option"
  ts_usageIn :: int
  ts_usageOut :: int
  ts_toolsRun :: "string list"
  ts_userNudge :: string
  ts_lastProgressIter :: int
  ts_lastProductiveIter :: int
  ts_toolHashes :: "(string, 64 word) gomap"
  ts_lastCallKey :: string
  ts_sameCallCount :: nat
  ts_failStreak :: "(string, nat) gomap"
  ts_failedSinceProgress :: nat
  ts_bloatTrips :: nat
  ts_stripTools :: bool
  ts_sideEffectFails :: "(string, string) gomap"
  ts_rubricArmed :: "(string, string) gomap"
  ts_rubricRetries :: nat
  ts_advisorArmed :: bool
  ts_produced :: bool
  ts_advisorDiagnoses :: nat
  ts_advisorAttempts :: nat
  ts_reviewRetries :: nat
  ts_advisorConcern :: string
  ts_arbiterUsed :: bool
  ts_sunk :: string

definition newTurnState :: turn_state where
  "newTurnState = \<lparr> ts_exit = None, ts_usageIn = 0, ts_usageOut = 0, ts_toolsRun = [], ts_userNudge = [],
     ts_lastProgressIter = -1, ts_lastProductiveIter = -1, ts_toolHashes = [], ts_lastCallKey = [], ts_sameCallCount = 0,
     ts_failStreak = [], ts_failedSinceProgress = 0, ts_bloatTrips = 0, ts_stripTools = False, ts_sideEffectFails = [],
     ts_rubricArmed = [], ts_rubricRetries = 0, ts_advisorArmed = False, ts_produced = False, ts_advisorDiagnoses = 0,
     ts_advisorAttempts = 0, ts_reviewRetries = 0, ts_advisorConcern = [], ts_arbiterUsed = False, ts_sunk = [] \<rparr>"

subsection \<open>Tools and their results\<close>

text \<open>What the turn reads of a tool: the flags of its declaration and whether it runs alone. A turn without
  tools has no set at all.\<close>

record tool_flags =
  tf_Delivers :: bool
  tf_SideEffect :: bool
  tf_NoAutoCompress :: bool
  tf_Serialize :: bool

type_synonym tool_set = "(string, tool_flags) gomap option"

record tool_result =
  tr_OK :: bool
  tr_Data :: string
  tr_Error :: string
  tr_Hint :: string
  tr_ExitRequest :: "string option"

definition OKResult :: "string \<Rightarrow> tool_result" where
  "OKResult d = \<lparr> tr_OK = True, tr_Data = d, tr_Error = [], tr_Hint = [], tr_ExitRequest = None \<rparr>"

definition ErrResult :: "string \<Rightarrow> tool_result" where
  "ErrResult m = \<lparr> tr_OK = False, tr_Data = [], tr_Error = m, tr_Hint = [], tr_ExitRequest = None \<rparr>"

definition lookup_flag :: "(tool_flags \<Rightarrow> bool) \<Rightarrow> tool_set \<Rightarrow> string \<Rightarrow> bool" where
  "lookup_flag f tools name =
     (case tools of None \<Rightarrow> False | Some ts \<Rightarrow> (case gget ts name of None \<Rightarrow> False | Some t \<Rightarrow> f t))"

definition delivers :: "tool_set \<Rightarrow> string \<Rightarrow> bool" where
  "delivers tools name = lookup_flag tf_Delivers tools name"

definition hasSideEffect :: "tool_set \<Rightarrow> string \<Rightarrow> bool" where
  "hasSideEffect tools name = lookup_flag tf_SideEffect tools name"

definition noAutoCompress :: "tool_set \<Rightarrow> string \<Rightarrow> bool" where
  "noAutoCompress tools name = lookup_flag tf_NoAutoCompress tools name"

subsection \<open>Progress and guards\<close>

definition sameArgsMax :: nat where "sameArgsMax = 3"
definition sameFailMax :: nat where "sameFailMax = 6"

text \<open>The 64-bit FNV-1a hash of the result.\<close>

definition hash64 :: "string \<Rightarrow> 64 word" where
  "hash64 s = foldl (\<lambda>h c. (h XOR of_nat (of_char c)) * 1099511628211) 14695981039346656037 s"

definition call_key :: "tool_call \<Rightarrow> string" where
  "call_key call = tc_Name call @ ''|'' @ tc_Arguments call"

definition note_side_effect :: "tool_set \<Rightarrow> tool_call \<Rightarrow> tool_result \<Rightarrow> turn_state \<Rightarrow> turn_state" where
  "note_side_effect tools call res st =
     (if hasSideEffect tools (tc_Name call)
      then if tr_OK res then st\<lparr>ts_sideEffectFails := gdel (call_key call) (ts_sideEffectFails st)\<rparr>
           else st\<lparr>ts_sideEffectFails := gput (call_key call) (tc_Name call) (ts_sideEffectFails st)\<rparr>
      else st)"

definition note_produced :: "tool_set \<Rightarrow> tool_call \<Rightarrow> tool_result \<Rightarrow> turn_state \<Rightarrow> turn_state" where
  "note_produced tools call res st =
     (if tr_OK res \<and> (delivers tools (tc_Name call) \<or> hasSideEffect tools (tc_Name call)) then st\<lparr>ts_produced := True\<rparr> else st)"

definition note_progress :: "nat \<Rightarrow> tool_set \<Rightarrow> tool_call \<Rightarrow> tool_result \<Rightarrow> turn_state \<Rightarrow> turn_state" where
  "note_progress iter tools call res st =
     (let h = hash64 (tr_Data res);
          st1 = (if ggetz 0 (ts_toolHashes st) (tc_Name call) \<noteq> h
                 then st\<lparr>ts_toolHashes := gput (tc_Name call) h (ts_toolHashes st), ts_lastProgressIter := int iter,
                         ts_failedSinceProgress := 0\<rparr>
                 else st)
      in if delivers tools (tc_Name call)
         then st1\<lparr>ts_lastProductiveIter := int iter, ts_lastProgressIter := int iter, ts_failedSinceProgress := 0\<rparr>
         else st1)"

definition trip_if :: "bool \<Rightarrow> turn_state \<Rightarrow> turn_state" where
  "trip_if b st = (if ts_exit st = None \<and> b then st\<lparr>ts_exit := Some (exit_with exitStuckLoop)\<rparr> else st)"

definition note_success :: "tool_call \<Rightarrow> turn_state \<Rightarrow> turn_state" where
  "note_success call st =
     (let st1 = (if call_key call = ts_lastCallKey st then st\<lparr>ts_sameCallCount := Suc (ts_sameCallCount st)\<rparr>
                 else st\<lparr>ts_lastCallKey := call_key call, ts_sameCallCount := 1\<rparr>);
          st2 = st1\<lparr>ts_failStreak := gput (tc_Name call) 0 (ts_failStreak st1)\<rparr>
      in trip_if (ts_sameCallCount st2 > sameArgsMax) st2)"

definition note_failure :: "tool_call \<Rightarrow> turn_state \<Rightarrow> turn_state" where
  "note_failure call st =
     (let n = Suc (ggetz 0 (ts_failStreak st) (tc_Name call));
          st1 = st\<lparr>ts_lastCallKey := [], ts_sameCallCount := 0, ts_failedSinceProgress := Suc (ts_failedSinceProgress st),
                   ts_failStreak := gput (tc_Name call) n (ts_failStreak st)\<rparr>
      in trip_if (n > sameFailMax) st1)"

definition recordToolOutcome :: "tool_set \<Rightarrow> nat \<Rightarrow> tool_call \<Rightarrow> tool_result \<Rightarrow> turn_state \<Rightarrow> turn_state" where
  "recordToolOutcome tools iter call res st =
     (let st1 = note_produced tools call res (note_side_effect tools call res st)
      in if tr_OK res then note_success call (note_progress iter tools call res st1) else note_failure call st1)"

definition footer_head :: string where
  "footer_head = [CHR 0x0A, CHR 0x0A, CHR 0xEF, CHR 0xBC, CHR 0x88, CHR 0xE2, CHR 0x9A, CHR 0xA0, CHR 0xEF, CHR 0xB8, CHR 0x8F] @
     '' '' @ [CHR 0xE6, CHR 0xB3, CHR 0xA8, CHR 0xE6, CHR 0x84, CHR 0x8F, CHR 0xEF, CHR 0xBC, CHR 0x9A, CHR 0xE4, CHR
     0xBB, CHR 0xA5, CHR 0xE4, CHR 0xB8, CHR 0x8B, CHR 0xE6, CHR 0x93, CHR 0x8D, CHR 0xE4, CHR 0xBD, CHR 0x9C, CHR
     0xE6, CHR 0x9C, CHR 0xAA, CHR 0xE6, CHR 0x88, CHR 0x90, CHR 0xE5, CHR 0x8A, CHR 0x9F, CHR 0xE6, CHR 0x89, CHR
     0xA7, CHR 0xE8, CHR 0xA1, CHR 0x8C, CHR 0xEF, CHR 0xBC, CHR 0x9A]"

definition name_comma :: string where
  "name_comma = [CHR 0xE3, CHR 0x80, CHR 0x81]"

definition close_paren :: string where
  "close_paren = [CHR 0xEF, CHR 0xBC, CHR 0x89]"

definition sideEffectFooter :: "turn_state \<Rightarrow> string" where
  "sideEffectFooter st =
     (if ts_sideEffectFails st = [] then []
      else footer_head @ join name_comma (sort (remdups (map snd (ts_sideEffectFails st)))) @ close_paren)"

subsection \<open>The staleness ladder\<close>

definition switchFamilyStale :: int where "switchFamilyStale = 9"
definition giveUpStale :: int where "giveUpStale = 11"
definition loopBudget :: int where "loopBudget = 12"
definition budgetGrace :: int where "budgetGrace = 2"
definition smartEscalation :: nat where "smartEscalation = 4"

definition staleRounds :: "turn_state \<Rightarrow> nat \<Rightarrow> int" where
  "staleRounds st iter = int iter - max (ts_lastProgressIter st) (ts_lastProductiveIter st)"

text \<open>What a layer of the prompt may hold, the empty text standing for a cleared layer.\<close>

datatype layer_text = NoText | SwitchFamilyNudge | GiveUpNudge | NoProgressMenuNudge | BloatChunkNudge | BloatStripNudge
  | RubricRedoNudge string string | AdvisorRedoNudge string string | AdvisorNote string | FlowText string

type_synonym layers = "(string, layer_text) gomap option"

definition SetLayer :: "string \<Rightarrow> layer_text \<Rightarrow> layers \<Rightarrow> layers" where
  "SetLayer name content p = map_option (gput name content) p"

definition nudge_layer :: string where "nudge_layer = ''nudge''"
definition bloatLayer :: string where "bloatLayer = ''bloat_nudge''"
definition rubricRedoLayer :: string where "rubricRedoLayer = ''rubric_redo''"
definition advisorNoteLayer :: string where "advisorNoteLayer = ''advisor_note''"

definition stale_nudge :: "int \<Rightarrow> layer_text" where
  "stale_nudge stale =
     (if stale \<ge> loopBudget then NoProgressMenuNudge
      else if stale \<ge> giveUpStale then GiveUpNudge
      else if stale \<ge> switchFamilyStale then SwitchFamilyNudge
      else NoText)"

definition loopTopNudge :: "turn_state \<Rightarrow> nat \<Rightarrow> layers \<Rightarrow> turn_exit option \<times> layers" where
  "loopTopNudge st iter p =
     (let stale = staleRounds st iter
      in if stale \<ge> loopBudget + budgetGrace then (Some (exit_with exitStuckLoop), SetLayer nudge_layer NoText p)
         else let p1 = SetLayer nudge_layer (stale_nudge stale) p
              in (None, if stale \<ge> giveUpStale then SetLayer advisorNoteLayer NoText p1 else p1))"

definition appendPrefer :: "string list \<Rightarrow> string \<Rightarrow> string list" where
  "appendPrefer prefs tag = (if tag \<in> set prefs then prefs else prefs @ [tag])"

definition routeToolRound :: "string list \<Rightarrow> turn_state \<Rightarrow> string list" where
  "routeToolRound prefs st =
     (let p = appendPrefer prefs ''toolcall''
      in if ts_failedSinceProgress st \<ge> smartEscalation then appendPrefer p ''smart'' else p)"

fun uniq_loop :: "string list \<Rightarrow> string list \<Rightarrow> string list" where
  "uniq_loop seen [] = []"
| "uniq_loop seen (v # vs) = (if v \<in> set seen then uniq_loop seen vs else v # uniq_loop (v # seen) vs)"

definition uniqStrings :: "string list \<Rightarrow> string list" where
  "uniqStrings s = uniq_loop [] s"

subsection \<open>The guards trip exactly on a repetition\<close>

text \<open>The outcomes of the calls of a turn, in order, through the guards.\<close>

fun record_all :: "tool_set \<Rightarrow> (nat \<times> tool_call \<times> tool_result) list \<Rightarrow> turn_state \<Rightarrow> turn_state" where
  "record_all tools [] st = st"
| "record_all tools ((iter, call, res) # os) st = record_all tools os (recordToolOutcome tools iter call res st)"

lemma record_all_append: "record_all tools (a @ b) st = record_all tools b (record_all tools a st)"
  by (induction a arbitrary: st) auto

text \<open>How often the last call was made with success in one go, and how many failures of one tool came since
  its last success.\<close>

definition same_run :: "(nat \<times> tool_call \<times> tool_result) list \<Rightarrow> nat" where
  "same_run os =
     (case rev os of
        [] \<Rightarrow> 0
      | (_, c, r) # _ \<Rightarrow>
          if tr_OK r then length (takeWhile (\<lambda>(_, c', r'). tr_OK r' \<and> call_key c' = call_key c) (rev os)) else 0)"

definition fail_run :: "string \<Rightarrow> (nat \<times> tool_call \<times> tool_result) list \<Rightarrow> nat" where
  "fail_run name os =
     length (takeWhile (\<lambda>(_, c, r). \<not> tr_OK r) (filter (\<lambda>(_, c, _). tc_Name c = name) (rev os)))"

definition stuck :: "(nat \<times> tool_call \<times> tool_result) list \<Rightarrow> bool" where
  "stuck os \<longleftrightarrow> (\<exists>n \<le> length os. same_run (take n os) > 3 \<or> (\<exists>name. fail_run name (take n os) > 6))"

lemma fail_run_simps:
  "fail_run name [] = 0"
  "fail_run name (os @ [(i, c, r)]) =
     (if tc_Name c = name then if tr_OK r then 0 else Suc (fail_run name os) else fail_run name os)"
  by (simp_all add: fail_run_def)

lemma same_run_simps:
  "same_run [] = 0"
  "\<not> tr_OK r \<Longrightarrow> same_run (os @ [(i, c, r)]) = 0"
  by (simp_all add: same_run_def)

definition guards_of :: "(nat \<times> tool_call \<times> tool_result) list \<Rightarrow> turn_state \<Rightarrow> bool" where
  "guards_of os st \<longleftrightarrow>
     (\<forall>name. ggetz 0 (ts_failStreak st) name = fail_run name os) \<and> ts_sameCallCount st = same_run os
     \<and> ts_lastCallKey st = (case rev os of (_, c, r) # _ \<Rightarrow> if tr_OK r then call_key c else [] | [] \<Rightarrow> [])"

lemma call_key_nonempty [simp]: "call_key c \<noteq> []"
  by (simp add: call_key_def)

lemma same_run_success:
  assumes "tr_OK r"
  shows "same_run (os @ [(i, c, r)]) =
     (if call_key c = (case rev os of (_, c, r) # _ \<Rightarrow> if tr_OK r then call_key c else [] | [] \<Rightarrow> []) then Suc (same_run os) else 1)"
proof (cases "rev os")
  case Nil
  then show ?thesis using assms by (simp add: same_run_def)
next
  case (Cons p ps)
  obtain j d q where p: "p = (j, d, q)" by (cases p)
  show ?thesis
    using assms Cons by (auto simp: same_run_def p)
qed

lemma trip_if_fields [simp]:
  "ts_failStreak (trip_if b st) = ts_failStreak st" "ts_sameCallCount (trip_if b st) = ts_sameCallCount st"
  "ts_lastCallKey (trip_if b st) = ts_lastCallKey st" "ts_sideEffectFails (trip_if b st) = ts_sideEffectFails st"
  "ts_exit (trip_if b st) = (if ts_exit st = None \<and> b then Some (exit_with exitStuckLoop) else ts_exit st)"
  by (simp_all add: trip_if_def)

lemma note_others [simp]:
  "ts_failStreak (note_side_effect tools c r st) = ts_failStreak st"
  "ts_sameCallCount (note_side_effect tools c r st) = ts_sameCallCount st"
  "ts_lastCallKey (note_side_effect tools c r st) = ts_lastCallKey st" "ts_exit (note_side_effect tools c r st) = ts_exit st"
  "ts_failStreak (note_produced tools c r st) = ts_failStreak st"
  "ts_sameCallCount (note_produced tools c r st) = ts_sameCallCount st"
  "ts_lastCallKey (note_produced tools c r st) = ts_lastCallKey st" "ts_exit (note_produced tools c r st) = ts_exit st"
  "ts_sideEffectFails (note_produced tools c r st) = ts_sideEffectFails st"
  "ts_failStreak (note_progress i tools c r st) = ts_failStreak st"
  "ts_sameCallCount (note_progress i tools c r st) = ts_sameCallCount st"
  "ts_lastCallKey (note_progress i tools c r st) = ts_lastCallKey st" "ts_exit (note_progress i tools c r st) = ts_exit st"
  "ts_sideEffectFails (note_progress i tools c r st) = ts_sideEffectFails st"
  by (simp_all add: note_side_effect_def note_produced_def note_progress_def Let_def)

lemma record_guards:
  assumes "guards_of os st"
  shows "guards_of (os @ [(i, c, r)]) (recordToolOutcome tools i c r st)"
proof (cases "tr_OK r")
  case True
  then show ?thesis
    using assms
    by (simp add: recordToolOutcome_def note_success_def Let_def guards_of_def fail_run_simps same_run_success)
next
  case False
  then show ?thesis
    using assms
    by (simp add: recordToolOutcome_def note_failure_def Let_def guards_of_def fail_run_simps same_run_simps)
qed

lemma record_exit:
  assumes "guards_of os st"
  shows "ts_exit (recordToolOutcome tools i c r st) =
     (if ts_exit st = None \<and> (same_run (os @ [(i, c, r)]) > 3 \<or> fail_run (tc_Name c) (os @ [(i, c, r)]) > 6)
      then Some (exit_with exitStuckLoop) else ts_exit st)"
proof (cases "tr_OK r")
  case True
  then show ?thesis
    using assms
    by (simp add: recordToolOutcome_def note_success_def Let_def guards_of_def fail_run_simps same_run_success sameArgsMax_def)
next
  case False
  then show ?thesis
    using assms
    by (simp add: recordToolOutcome_def note_failure_def Let_def guards_of_def fail_run_simps same_run_simps sameFailMax_def)
qed

lemma stuck_snoc:
  "stuck (os @ [x]) \<longleftrightarrow> stuck os \<or> same_run (os @ [x]) > 3 \<or> (\<exists>name. fail_run name (os @ [x]) > 6)"
proof -
  have "stuck (os @ [x]) \<longleftrightarrow> (\<exists>n \<le> Suc (length os). same_run (take n (os @ [x])) > 3 \<or> (\<exists>name. fail_run name (take n (os @ [x])) > 6))"
    by (simp add: stuck_def)
  also have "\<dots> \<longleftrightarrow> (\<exists>n \<le> length os. same_run (take n (os @ [x])) > 3 \<or> (\<exists>name. fail_run name (take n (os @ [x])) > 6))
     \<or> same_run (os @ [x]) > 3 \<or> (\<exists>name. fail_run name (os @ [x]) > 6)"
    by (auto simp: le_Suc_eq)
  also have "(\<exists>n \<le> length os. same_run (take n (os @ [x])) > 3 \<or> (\<exists>name. fail_run name (take n (os @ [x])) > 6)) \<longleftrightarrow> stuck os"
    by (auto simp: stuck_def)
  finally show ?thesis .
qed

lemma fail_run_stuck: "fail_run name os > 6 \<Longrightarrow> stuck os"
  unfolding stuck_def by (intro exI[of _ "length os"]) auto

text \<open>
  C10. The guards end a turn exactly when it is spinning: after any sequence of tool results the exit is set,
  and set to the stuck loop, if and only if at some point one call had succeeded more than three times in
  a row, or one tool had failed more than six times since its last success, whatever its arguments.
\<close>

theorem guards_trip_exactly:
  "ts_exit (record_all tools os newTurnState) = (if stuck os then Some (exit_with exitStuckLoop) else None)"
proof -
  have "guards_of os (record_all tools os newTurnState)
    \<and> ts_exit (record_all tools os newTurnState) = (if stuck os then Some (exit_with exitStuckLoop) else None)"
  proof (induction os rule: rev_induct)
    case Nil
    then show ?case by (simp add: guards_of_def newTurnState_def same_run_simps fail_run_simps stuck_def ggetz_def)
  next
    case (snoc x os)
    obtain i c r where x: "x = (i, c, r)" by (cases x)
    have g: "guards_of os (record_all tools os newTurnState)"
      and e: "ts_exit (record_all tools os newTurnState) = (if stuck os then Some (exit_with exitStuckLoop) else None)"
      using snoc by blast+
    have other: "(\<exists>name. fail_run name (os @ [x]) > 6) \<longleftrightarrow> fail_run (tc_Name c) (os @ [x]) > 6 \<or> (\<exists>name. fail_run name (os @ [x]) > 6 \<and> stuck os)"
      using fail_run_stuck[of _ os] by (auto simp: x fail_run_simps split: if_splits)
    have "ts_exit (record_all tools (os @ [x]) newTurnState) = (if stuck (os @ [x]) then Some (exit_with exitStuckLoop) else None)"
    proof (cases "stuck os")
      case True
      then show ?thesis using record_exit[OF g, of tools i c r] e by (simp add: x record_all_append stuck_snoc)
    next
      case False
      then show ?thesis
        using record_exit[OF g, of tools i c r] e other by (simp add: x record_all_append stuck_snoc)
    qed
    then show ?case using record_guards[OF g] by (simp add: x record_all_append)
  qed
  then show ?thesis by blast
qed

subsection \<open>The footer is honest\<close>

text \<open>The tools with a side effect for which some call failed and the same call was not made again since.\<close>

definition failed_for_good :: "tool_set \<Rightarrow> (nat \<times> tool_call \<times> tool_result) list \<Rightarrow> string set" where
  "failed_for_good tools os =
     {tc_Name c |c. \<exists>pre i r post. os = pre @ (i, c, r) # post \<and> hasSideEffect tools (tc_Name c) \<and> \<not> tr_OK r
        \<and> (\<forall>(j, d, q) \<in> set post. \<not> (hasSideEffect tools (tc_Name d) \<and> call_key d = call_key c))}"

definition last_side_effect :: "tool_set \<Rightarrow> (nat \<times> tool_call \<times> tool_result) list \<Rightarrow> string \<Rightarrow> string option" where
  "last_side_effect tools os key =
     (case find (\<lambda>(_, c, _). hasSideEffect tools (tc_Name c) \<and> call_key c = key) (rev os) of
        Some (_, c, r) \<Rightarrow> if tr_OK r then None else Some (tc_Name c)
      | None \<Rightarrow> None)"

lemma record_side_effects:
  "ts_sideEffectFails (recordToolOutcome tools i c r st) = ts_sideEffectFails (note_side_effect tools c r st)"
  by (simp add: recordToolOutcome_def note_success_def note_failure_def Let_def)

lemma fails_are_last:
  "gmap_ok (ts_sideEffectFails (record_all tools os newTurnState))
   \<and> gget (ts_sideEffectFails (record_all tools os newTurnState)) key = last_side_effect tools os key"
proof (induction os rule: rev_induct)
  case Nil
  then show ?case by (simp add: newTurnState_def last_side_effect_def)
next
  case (snoc x os)
  obtain i c r where x: "x = (i, c, r)" by (cases x)
  let ?m = "ts_sideEffectFails (record_all tools os newTurnState)"
  have ok: "gmap_ok ?m" and g: "map_of ?m key = last_side_effect tools os key" using snoc by blast+
  have m: "ts_sideEffectFails (record_all tools (os @ [x]) newTurnState) =
      (if hasSideEffect tools (tc_Name c)
       then if tr_OK r then gdel (call_key c) ?m else gput (call_key c) (tc_Name c) ?m else ?m)"
    by (simp add: x record_all_append record_side_effects note_side_effect_def)
  have "gmap_ok (if hasSideEffect tools (tc_Name c)
       then if tr_OK r then gdel (call_key c) ?m else gput (call_key c) (tc_Name c) ?m else ?m)"
    using ok by (simp add: gmap_ok_gput)
  moreover have "map_of (if hasSideEffect tools (tc_Name c)
       then if tr_OK r then gdel (call_key c) ?m else gput (call_key c) (tc_Name c) ?m else ?m) key = last_side_effect tools (os @ [x]) key"
    unfolding x last_side_effect_def using g[unfolded last_side_effect_def] by (simp add: update_conv' delete_conv')
  ultimately show ?case unfolding m by blast
qed

lemma find_append: "find P (xs @ ys) = (case find P xs of None \<Rightarrow> find P ys | Some x \<Rightarrow> Some x)"
  by (induction xs) auto

lemma last_is_failed: "(\<exists>key. last_side_effect tools os key = Some name) \<longleftrightarrow> name \<in> failed_for_good tools os"
proof
  assume "\<exists>key. last_side_effect tools os key = Some name"
  then obtain key where k: "last_side_effect tools os key = Some name" by blast
  then obtain x where fx: "find (\<lambda>(_, c, _). hasSideEffect tools (tc_Name c) \<and> call_key c = key) (rev os) = Some x"
    by (fastforce simp: last_side_effect_def split: option.splits)
  obtain i c r where x: "x = (i, c, r)" by (cases x)
  note f = fx[unfolded x]
  have r: "\<not> tr_OK r" "tc_Name c = name" using k f by (auto simp: last_side_effect_def split: if_splits)
  obtain n where n: "n < length (rev os)" "rev os ! n = (i, c, r)" and c: "hasSideEffect tools (tc_Name c)" "call_key c = key"
    and before: "\<forall>k < n. \<not> (\<lambda>(_, c, _). hasSideEffect tools (tc_Name c) \<and> call_key c = key) (rev os ! k)"
    using f by (auto simp: find_Some_iff)
  have ro: "rev os = take n (rev os) @ (i, c, r) # drop (Suc n) (rev os)" using id_take_nth_drop[OF n(1)] n(2) by simp
  have os: "os = rev (drop (Suc n) (rev os)) @ (i, c, r) # rev (take n (rev os))"
    using arg_cong[OF ro, of rev] by simp
  have "\<forall>(j, d, q) \<in> set (rev (take n (rev os))). \<not> (hasSideEffect tools (tc_Name d) \<and> call_key d = call_key c)"
    using before c(2) by (fastforce simp: in_set_take_nth)
  then show "name \<in> failed_for_good tools os"
    unfolding failed_for_good_def using os c(1) r by blast
next
  assume "name \<in> failed_for_good tools os"
  then obtain pre i c r post where os: "os = pre @ (i, c, r) # post" and c: "hasSideEffect tools (tc_Name c)" "\<not> tr_OK r" "tc_Name c = name"
    and later: "\<forall>(j, d, q) \<in> set post. \<not> (hasSideEffect tools (tc_Name d) \<and> call_key d = call_key c)"
    unfolding failed_for_good_def by blast
  have "find (\<lambda>(_, d, _). hasSideEffect tools (tc_Name d) \<and> call_key d = call_key c) (rev post) = None"
    using later by (auto simp: find_None_iff)
  then have "find (\<lambda>(_, d, _). hasSideEffect tools (tc_Name d) \<and> call_key d = call_key c) (rev os) = Some (i, c, r)"
    using c(1) by (simp add: os find_append)
  then have "last_side_effect tools os (call_key c) = Some name" using c by (simp add: last_side_effect_def)
  then show "\<exists>key. last_side_effect tools os key = Some name" by blast
qed

lemma fail_names: "set (map snd (ts_sideEffectFails (record_all tools os newTurnState))) = failed_for_good tools os"
proof -
  let ?m = "ts_sideEffectFails (record_all tools os newTurnState)"
  have ok: "gmap_ok ?m" using fails_are_last by blast
  have "name \<in> snd ` set ?m \<longleftrightarrow> (\<exists>key. map_of ?m key = Some name)" for name
    using ok by (force simp: map_of_eq_Some_iff)
  then show ?thesis using fails_are_last[of tools os] last_is_failed[of tools os] by auto
qed

text \<open>
  C21. A reply never hides a failed action: the footer under it names, sorted and once each, exactly the tools
  with a side effect of which some call failed and was not repeated with success, and there is no footer
  only if there is no such tool.
\<close>

theorem footer_names_failed_actions:
  "sideEffectFooter (record_all tools os newTurnState) =
     (if failed_for_good tools os = {} then []
      else footer_head @ join name_comma (sorted_list_of_set (failed_for_good tools os)) @ close_paren)"
proof -
  let ?m = "ts_sideEffectFails (record_all tools os newTurnState)"
  have n: "set (map snd ?m) = failed_for_good tools os" by (rule fail_names)
  have "sort (remdups (map snd ?m)) = sorted_list_of_set (set (map snd ?m))"
    by (rule sorted_list_of_set_sort_remdups[symmetric])
  then show ?thesis using n by (auto simp: sideEffectFooter_def)
qed

subsection \<open>Staleness\<close>

text \<open>The ladder reads nothing but the rounds since the last progress: quiet below nine, then the three
  nudges, then the end at fourteen, with or without a prompt to carry a nudge.\<close>

lemma ladder_exit_iff: "fst (loopTopNudge st iter p) \<noteq> None \<longleftrightarrow> 14 \<le> staleRounds st iter"
  by (simp add: loopTopNudge_def Let_def loopBudget_def budgetGrace_def)

lemma ladder_exit_state: "fst (loopTopNudge st iter p) = Some e \<Longrightarrow> te_state e = exitStuckLoop"
  by (auto simp: loopTopNudge_def Let_def exit_with_def split: if_splits)

lemma uniq_loop_spec: "distinct (uniq_loop seen xs) \<and> set (uniq_loop seen xs) = set xs - set seen"
proof (induction xs arbitrary: seen)
  case (Cons x xs)
  then show ?case using Cons.IH[of seen] Cons.IH[of "x # seen"] by auto
qed simp

end
