(* ===== verification/Turn_Stream.thy ===== *)
theory Turn_Stream
  imports Turn_State
begin

section \<open>Streaming a round\<close>

text \<open>
  The watcher of \<^verbatim>\<open>runRound\<close> (\<^verbatim>\<open>src/leaf/turn/20-round.go\<close>): what of the text of a model, as it arrives, is shown
  to the user at once. Each step of the stream is an event with the accumulated answer the pool holds after
  it; the pool is free to start over with a shorter text after a failover. The lines of the trace
  channel are named by what they report.
\<close>

datatype trace_line = ThinkLine bool string | CallLine string string | ResultLine string bool string
  | RubricPassTrace bool | RubricRedoTrace string nat | RubricSpentTrace string | RubricSalvageTrace string
  | ArbiterAskTrace | ArbiterVerdictTrace bool string | ReviewAskTrace | ReviewUnavailableTrace
  | ReviewUnparsedTrace string | ReviewPassTrace string | ReviewSpentTrace string | ReviewRedoTrace nat string
  | DiagnosisTrace string

datatype sink_event = ContentDelta string | TraceDelta trace_line | Finish string

definition plainToolCallMarker :: string where
  "plainToolCallMarker = ''<tool_call>''"

fun Index :: "string \<Rightarrow> string \<Rightarrow> nat option" where
  "Index [] sub = (if sub = [] then Some 0 else None)"
| "Index (c # s) sub = (if prefix sub (c # s) then Some 0 else map_option Suc (Index s sub))"

primrec holdback_from :: "string \<Rightarrow> string \<Rightarrow> nat \<Rightarrow> nat" where
  "holdback_from t marker 0 = 0"
| "holdback_from t marker (Suc n) =
     (if prefix (drop (length t - Suc n) t) marker then Suc n else holdback_from t marker n)"

definition toolMarkerHoldback :: "string \<Rightarrow> string \<Rightarrow> nat" where
  "toolMarkerHoldback t marker =
     (let mx = length marker - 1 in holdback_from t marker (if mx > length t then length t else mx))"

record stream_event =
  se_Text :: string
  se_Reasoning :: string

record accumulated =
  ac_Text :: string
  ac_Reasoning :: string
  ac_ToolCalls :: nat

text \<open>What the round knows of its stream: the counters and flags the watcher closes over, and what it has sent.\<close>

record watch_state =
  ws_lastDegenCheck :: nat
  ws_lastThinkDegenCheck :: nat
  ws_shownPartial :: string
  ws_markupSeen :: bool
  ws_sent :: nat
  ws_reasonSent :: nat
  ws_thinkAll :: string
  ws_sink :: "sink_event list"
  ws_sunk :: string

record watch_mode =
  wm_streamLive :: bool
  wm_toolRound :: bool
  wm_bareProduct :: bool

definition degenCheckEvery :: nat where "degenCheckEvery = 1500"

definition new_watch :: "sink_event list \<Rightarrow> string \<Rightarrow> watch_state" where
  "new_watch sink sunk = \<lparr> ws_lastDegenCheck = 0, ws_lastThinkDegenCheck = 0, ws_shownPartial = [], ws_markupSeen = False,
     ws_sent = 0, ws_reasonSent = 0, ws_thinkAll = [], ws_sink = sink, ws_sunk = sunk \<rparr>"

definition forward :: "watch_mode \<Rightarrow> string \<Rightarrow> watch_state \<Rightarrow> watch_state" where
  "forward wm s ws =
     (if s = [] then ws
      else ws\<lparr>ws_sink := ws_sink ws @ [ContentDelta s], ws_sunk := (if wm_bareProduct wm then ws_sunk ws else ws_sunk ws @ s)\<rparr>)"

definition emit_thought :: "watch_mode \<Rightarrow> string \<Rightarrow> nat \<Rightarrow> nat \<Rightarrow> watch_state \<Rightarrow> watch_state" where
  "emit_thought wm a from to ws =
     (let chunk = TrimSpace (take (to - from) (drop from a));
          ws1 = ws\<lparr>ws_reasonSent := to\<rparr>
      in if chunk = [] then ws1
         else ws1\<lparr>ws_sink := ws_sink ws1 @ [TraceDelta (ThinkLine (\<not> wm_streamLive wm \<or> wm_bareProduct wm) chunk)]\<rparr>)"

definition flushThinking :: "watch_mode \<Rightarrow> string \<Rightarrow> bool \<Rightarrow> watch_state \<Rightarrow> watch_state" where
  "flushThinking wm a tail ws =
     (let from = (if prefix (ws_thinkAll ws) a then ws_reasonSent ws else 0);
          ws1 = ws\<lparr>ws_reasonSent := from, ws_thinkAll := a\<rparr>
      in if tail then emit_thought wm a from (length a) ws1
         else let b = sentenceBoundary (drop from a)
              in if b = 0 then ws1 else emit_thought wm a from (from + b) ws1)"

definition show_text :: "watch_mode \<Rightarrow> string \<Rightarrow> string \<Rightarrow> watch_state \<Rightarrow> watch_state" where
  "show_text wm delta t ws =
     (if \<not> wm_toolRound wm
      then (forward wm delta ws)\<lparr>ws_sent := length t, ws_shownPartial := t\<rparr>
      else case Index t plainToolCallMarker of
             Some i \<Rightarrow>
               (if i > ws_sent ws
                then (forward wm (take (i - ws_sent ws) (drop (ws_sent ws) t)) ws)\<lparr>ws_sent := i\<rparr>
                else ws)\<lparr>ws_markupSeen := True, ws_shownPartial := take i t\<rparr>
           | None \<Rightarrow>
               let safe = take (length t - toolMarkerHoldback t plainToolCallMarker) t
               in (if length safe > ws_sent ws
                   then (forward wm (drop (ws_sent ws) safe) ws)\<lparr>ws_sent := length safe\<rparr>
                   else ws)\<lparr>ws_shownPartial := safe\<rparr>)"

text \<open>The result of the watcher: whether it aborts the stream as degenerate.\<close>

definition watch_degenerate :: "accumulated \<Rightarrow> watch_state \<Rightarrow> bool \<times> watch_state" where
  "watch_degenerate ac ws =
     (if ac_ToolCalls ac = 0 \<and> ws_lastDegenCheck ws + degenCheckEvery \<le> length (ac_Text ac) \<and> isDegenerate (ac_Text ac)
      then (True, ws\<lparr>ws_lastDegenCheck := length (ac_Text ac)\<rparr>)
      else let ws1 = (if ac_ToolCalls ac = 0 \<and> ws_lastDegenCheck ws + degenCheckEvery \<le> length (ac_Text ac)
                      then ws\<lparr>ws_lastDegenCheck := length (ac_Text ac)\<rparr> else ws)
           in if ws_lastThinkDegenCheck ws1 + degenCheckEvery \<le> length (ac_Reasoning ac)
              then (isDegenerate (ac_Reasoning ac), ws1\<lparr>ws_lastThinkDegenCheck := length (ac_Reasoning ac)\<rparr>)
              else (False, ws1))"

definition watch :: "watch_mode \<Rightarrow> stream_event \<Rightarrow> accumulated \<Rightarrow> watch_state \<Rightarrow> bool \<times> watch_state" where
  "watch wm ev ac ws =
     (let ws1 = (if se_Reasoning ev \<noteq> [] then flushThinking wm (ac_Reasoning ac) False ws else ws);
          ws2 = (if wm_streamLive wm \<and> ac_ToolCalls ac = 0 \<and> \<not> ws_markupSeen ws1
                 then show_text wm (se_Text ev) (ac_Text ac) ws1 else ws1)
      in watch_degenerate ac ws2)"

text \<open>The pool hands every step to the watcher and stops when it aborts.\<close>

fun run_stream :: "watch_mode \<Rightarrow> (stream_event \<times> accumulated) list \<Rightarrow> watch_state \<Rightarrow> bool \<times> watch_state" where
  "run_stream wm [] ws = (False, ws)"
| "run_stream wm ((ev, ac) # evs) ws =
     (case watch wm ev ac ws of
        (True, ws') \<Rightarrow> (True, ws')
      | (False, ws') \<Rightarrow> run_stream wm evs ws')"

definition contents :: "sink_event list \<Rightarrow> string" where
  "contents es = concat (map (\<lambda>e. case e of ContentDelta s \<Rightarrow> s | _ \<Rightarrow> []) es)"

subsection \<open>The marker is never shown\<close>

lemma Index_Some: "Index s sub = Some i \<Longrightarrow> i \<le> length s \<and> prefix sub (drop i s) \<and> (\<forall>j < i. \<not> prefix sub (drop j s))"
proof (induction s arbitrary: i)
  case (Cons c s)
  show ?case
  proof (cases "prefix sub (c # s)")
    case True
    then show ?thesis using Cons.prems by simp
  next
    case False
    then obtain k where k: "Index s sub = Some k" "i = Suc k" using Cons.prems by auto
    have "\<not> prefix sub (drop j (c # s))" if "j < i" for j
      using Cons.IH[OF k(1)] False that k(2) by (cases j) auto
    then show ?thesis using Cons.IH[OF k(1)] k(2) by auto
  qed
qed (simp split: if_splits)

lemma Index_None: "Index s sub = None \<Longrightarrow> \<not> prefix sub (drop j s)"
proof (induction s arbitrary: j)
  case (Cons c s)
  then show ?case by (cases j) (auto split: if_splits)
qed (auto split: if_splits)

lemma holdback_max:
  "n \<le> k \<Longrightarrow> 0 < n \<Longrightarrow> prefix (drop (length t - n) t) marker \<Longrightarrow> n \<le> holdback_from t marker k"
  by (induction k) (auto simp: le_Suc_eq)

lemma holdback_le: "holdback_from t marker k \<le> k"
  by (induction k) auto

lemma toolMarkerHoldback_le: "toolMarkerHoldback t marker \<le> length t"
proof -
  define k where "k = (if length marker - 1 > length t then length t else length marker - 1)"
  have "k \<le> length t" by (simp add: k_def)
  then show ?thesis using holdback_le[of t marker k] by (simp add: toolMarkerHoldback_def Let_def k_def[symmetric] del: One_nat_def)
qed

text \<open>No continuation of the text can put a marker before what is not held back.\<close>

lemma holdback_safe:
  assumes "Index t marker = None" and "prefix t e" and "prefix marker (drop i e)"
  shows "length t - toolMarkerHoldback t marker \<le> i"
proof (rule ccontr)
  assume "\<not> ?thesis"
  then have lt: "i < length t - toolMarkerHoldback t marker" by simp
  obtain z where e: "e = t @ z" using assms(2) by (auto elim: prefixE)
  define n where "n = length t - i"
  have d: "drop i e = drop i t @ z" using lt e by simp
  show False
  proof (cases "length marker \<le> n")
    case True
    then have "prefix marker (drop i t)"
      using assms(3) d n_def by (metis append_eq_append_conv_if length_drop prefixE prefixI prefix_length_prefix take_is_prefix prefix_append)
    then show False using Index_None[OF assms(1)] by blast
  next
    case False
    have "prefix (drop i t) (drop i e)" unfolding d by simp
    then have p: "prefix (drop i t) marker"
      using assms(3) False n_def prefix_length_prefix[of "drop i t" "drop i e" marker] by simp
    have "drop i t = drop (length t - n) t" using lt n_def by simp
    then have "n \<le> holdback_from t marker (if length marker - 1 > length t then length t else length marker - 1)"
      using holdback_max[of n _ t marker] p False lt n_def by auto
    then have "n \<le> toolMarkerHoldback t marker" unfolding toolMarkerHoldback_def Let_def .
    then show False using lt n_def by simp
  qed
qed

lemma contents_snoc [simp]:
  "contents (es @ [ContentDelta s]) = contents es @ s" "contents (es @ [TraceDelta l]) = contents es" "contents [] = []"
  by (simp_all add: contents_def)

lemma forward_fields [simp]:
  "contents (ws_sink (forward wm s ws)) = contents (ws_sink ws) @ s" "ws_markupSeen (forward wm s ws) = ws_markupSeen ws"
  "ws_sent (forward wm s ws) = ws_sent ws" "\<not> wm_bareProduct wm \<Longrightarrow> ws_sunk (forward wm s ws) = ws_sunk ws @ s"
  by (simp_all add: forward_def)

lemma flush_fields [simp]:
  "contents (ws_sink (flushThinking wm a rest ws)) = contents (ws_sink ws)" "ws_markupSeen (flushThinking wm a rest ws) = ws_markupSeen ws"
  "ws_sent (flushThinking wm a rest ws) = ws_sent ws" "ws_sunk (flushThinking wm a rest ws) = ws_sunk ws"
  "ws_shownPartial (flushThinking wm a rest ws) = ws_shownPartial ws"
  by (simp_all add: flushThinking_def emit_thought_def Let_def)

lemma degenerate_fields:
  "watch_degenerate ac ws = (b, ws') \<Longrightarrow> ws_sink ws' = ws_sink ws \<and> ws_markupSeen ws' = ws_markupSeen ws \<and> ws_sent ws' = ws_sent ws
     \<and> ws_sunk ws' = ws_sunk ws \<and> ws_shownPartial ws' = ws_shownPartial ws"
  by (auto simp: watch_degenerate_def Let_def split: if_splits)

text \<open>What holds of a tool round between two steps, \<open>t\<close> being the text so far.\<close>

definition marker_safe :: "string \<Rightarrow> string \<Rightarrow> watch_state \<Rightarrow> bool" where
  "marker_safe before t ws \<longleftrightarrow>
     contents (ws_sink ws) = before @ take (ws_sent ws) t \<and> ws_sent ws \<le> length t
     \<and> (\<forall>e i. prefix t e \<longrightarrow> prefix plainToolCallMarker (drop i e) \<longrightarrow> ws_sent ws \<le> i)"

lemma marker_safe_mono:
  assumes "marker_safe before t ws" and "prefix t t'"
  shows "marker_safe before t' ws"
proof -
  obtain z where "t' = t @ z" using assms(2) by (auto elim: prefixE)
  then show ?thesis using assms by (auto simp: marker_safe_def dest: append_prefixD)
qed

lemma marker_safe_same:
  "marker_safe before t ws \<Longrightarrow> contents (ws_sink ws') = contents (ws_sink ws) \<Longrightarrow> ws_sent ws' = ws_sent ws \<Longrightarrow> marker_safe before t ws'"
  by (simp add: marker_safe_def)

lemma take_between: "i \<le> k \<Longrightarrow> take i t @ take (k - i) (drop i t) = take k t"
  by (metis le_add_diff_inverse take_add)

lemma show_text_safe:
  assumes "marker_safe before t ws" and "wm_toolRound wm"
  shows "marker_safe before t (show_text wm d t ws)"
proof (cases "Index t plainToolCallMarker")
  case None
  define k where "k = length t - toolMarkerHoldback t plainToolCallMarker"
  have k: "\<And>e i. prefix t e \<Longrightarrow> prefix plainToolCallMarker (drop i e) \<Longrightarrow> k \<le> i"
    unfolding k_def by (rule holdback_safe[OF None])
  have len: "length (take k t) = k" by (simp add: k_def)
  show ?thesis
  proof (cases "k > ws_sent ws")
    case True
    have "drop (ws_sent ws) (take k t) = take (k - ws_sent ws) (drop (ws_sent ws) t)" by (simp add: drop_take)
    then have "contents (ws_sink ws) @ drop (ws_sent ws) (take k t) = before @ take k t"
      using assms(1) True take_between[of "ws_sent ws" k t] by (simp add: marker_safe_def)
    then show ?thesis
      using assms(2) None True k len by (auto simp: show_text_def k_def[symmetric] Let_def marker_safe_def)
  next
    case False
    then show ?thesis
      using assms None len by (auto simp: show_text_def k_def[symmetric] Let_def marker_safe_def)
  qed
next
  case (Some j)
  have j: "j \<le> length t" "prefix plainToolCallMarker (drop j t)" "\<And>i. i < j \<Longrightarrow> \<not> prefix plainToolCallMarker (drop i t)"
    using Index_Some[OF Some] by blast+
  have lb: "j \<le> i" if e: "prefix t e" and i: "prefix plainToolCallMarker (drop i e)" for e i
  proof (rule ccontr)
    assume "\<not> j \<le> i"
    obtain z where z: "e = t @ z" using e by (auto elim: prefixE)
    have "length plainToolCallMarker \<le> length t - i" using \<open>\<not> j \<le> i\<close> j(1) prefix_length_le[OF j(2)] by simp
    moreover have "prefix (drop i t) (drop i e)" using z \<open>\<not> j \<le> i\<close> j(1) by simp
    ultimately have "prefix plainToolCallMarker (drop i t)" using i prefix_length_prefix[of plainToolCallMarker "drop i e" "drop i t"] by simp
    then show False using j(3) \<open>\<not> j \<le> i\<close> by simp
  qed
  show ?thesis
  proof (cases "j > ws_sent ws")
    case True
    then show ?thesis
      using assms Some j(1) lb take_between[of "ws_sent ws" j t] by (auto simp: show_text_def marker_safe_def)
  next
    case False
    then show ?thesis using assms Some by (auto simp: show_text_def marker_safe_def)
  qed
qed

lemma watch_safe:
  assumes "marker_safe before t ws" and "prefix t (ac_Text ac)" and "wm_toolRound wm" and "watch wm ev ac ws = (b, ws')"
  shows "marker_safe before (ac_Text ac) ws'"
proof -
  define ws1 where "ws1 = (if se_Reasoning ev \<noteq> [] then flushThinking wm (ac_Reasoning ac) False ws else ws)"
  define ws2 where "ws2 = (if wm_streamLive wm \<and> ac_ToolCalls ac = 0 \<and> \<not> ws_markupSeen ws1
                 then show_text wm (se_Text ev) (ac_Text ac) ws1 else ws1)"
  have "marker_safe before (ac_Text ac) ws1"
    by (rule marker_safe_same[OF marker_safe_mono[OF assms(1,2)]]) (simp_all add: ws1_def)
  then have s2: "marker_safe before (ac_Text ac) ws2" using assms(3) by (simp add: ws2_def show_text_safe)
  have "watch_degenerate ac ws2 = (b, ws')" using assms(4) by (simp add: watch_def Let_def ws1_def[symmetric] ws2_def[symmetric])
  from degenerate_fields[OF this] show ?thesis by (intro marker_safe_same[OF s2]) simp_all
qed

lemma run_stream_safe:
  assumes "wm_toolRound wm" and "marker_safe before t ws" and "sorted_wrt prefix (t # map (ac_Text \<circ> snd) evs)"
    and "run_stream wm evs ws = (b, ws')" and "\<And>x. x \<in> set (t # map (ac_Text \<circ> snd) evs) \<Longrightarrow> prefix x full"
  shows "marker_safe before full ws'"
  using assms(2-)
proof (induction evs arbitrary: t ws)
  case Nil
  then show ?case using marker_safe_mono[OF Nil.prems(1), of full] by simp
next
  case (Cons p evs)
  obtain ev ac where p: "p = (ev, ac)" by (cases p)
  obtain c ws1 where w: "watch wm ev ac ws = (c, ws1)" by fastforce
  have pt: "prefix t (ac_Text ac)" using Cons.prems(2) by (simp add: p)
  have s1: "marker_safe before (ac_Text ac) ws1" by (rule watch_safe[OF Cons.prems(1) pt assms(1) w])
  show ?case
  proof (cases c)
    case True
    then have "ws' = ws1" using Cons.prems(3) w by (simp add: p)
    then show ?thesis using marker_safe_mono[OF s1] Cons.prems(4)[of "ac_Text ac"] by (simp add: p)
  next
    case False
    then have r: "run_stream wm evs ws1 = (b, ws')" using Cons.prems(3) w by (simp add: p)
    show ?thesis by (rule Cons.IH[OF s1 _ r]) (use Cons.prems(2,4) in \<open>auto simp: p\<close>)
  qed
qed

text \<open>
  C13. The markup of a tool call never reaches the chat: on a round that offers tools, however the stream splits
  the text into steps and even if it is aborted on the way, what has been sent to the user is an initial part of
  the text that ends before the first tool-call marker of whatever the whole text turns out to be. In
  particular no marker, not even one that arrives in pieces, is ever shown.
\<close>

theorem tool_markup_never_shown:
  assumes "wm_toolRound wm" and "sorted_wrt prefix (map (ac_Text \<circ> snd) evs)"
    and "\<And>ev ac. (ev, ac) \<in> set evs \<Longrightarrow> prefix (ac_Text ac) full"
    and "run_stream wm evs (new_watch sink sunk) = (aborted, ws)"
  shows "\<exists>shown. contents (ws_sink ws) = contents sink @ shown \<and> prefix shown full
     \<and> (\<forall>i. prefix plainToolCallMarker (drop i full) \<longrightarrow> length shown \<le> i) \<and> \<not> str_contains shown plainToolCallMarker"
proof -
  have "marker_safe (contents sink) [] (new_watch sink sunk)" by (simp add: marker_safe_def new_watch_def)
  moreover have "sorted_wrt prefix ([] # map (ac_Text \<circ> snd) evs)" using assms(2) by simp
  moreover have "\<And>x. x \<in> set ([] # map (ac_Text \<circ> snd) evs) \<Longrightarrow> prefix x full" using assms(3) by auto
  ultimately have safe: "marker_safe (contents sink) full ws" using run_stream_safe[OF assms(1) _ _ assms(4)] by blast
  define shown where "shown = take (ws_sent ws) full"
  have lb: "length shown \<le> i" if "prefix plainToolCallMarker (drop i full)" for i
    using safe that by (auto simp: marker_safe_def shown_def)
  have "\<not> str_contains shown plainToolCallMarker"
  proof
    assume "str_contains shown plainToolCallMarker"
    then obtain u v where uv: "shown = u @ plainToolCallMarker @ v" by (auto simp: str_contains_sublist sublist_def)
    have full: "full = shown @ drop (ws_sent ws) full" by (simp add: shown_def)
    have "drop (length u) full = plainToolCallMarker @ v @ drop (ws_sent ws) full"
      by (subst full, subst uv) simp
    then have "length shown \<le> length u" by (intro lb) simp
    then show False by (simp add: uv plainToolCallMarker_def)
  qed
  then show ?thesis using safe lb by (intro exI[of _ shown]) (auto simp: marker_safe_def shown_def take_is_prefix)
qed

definition demo_steps :: "(stream_event \<times> accumulated) list" where
  "demo_steps =
     [(\<lparr> se_Text = ''Hi <to'', se_Reasoning = [] \<rparr>, \<lparr> ac_Text = ''Hi <to'', ac_Reasoning = [], ac_ToolCalls = 0 \<rparr>),
      (\<lparr> se_Text = ''ol_call>{}'', se_Reasoning = [] \<rparr>, \<lparr> ac_Text = ''Hi <tool_call>{}'', ac_Reasoning = [], ac_ToolCalls = 0 \<rparr>)]"

definition demo_mode :: watch_mode where
  "demo_mode = \<lparr> wm_streamLive = True, wm_toolRound = True, wm_bareProduct = False \<rparr>"

theorem tool_markup_never_shown_witness:
  "\<exists>shown. contents (ws_sink (snd (run_stream demo_mode demo_steps (new_watch [] [])))) = shown
     \<and> shown = ''Hi '' \<and> \<not> str_contains shown plainToolCallMarker"
proof -
  have r: "run_stream demo_mode demo_steps (new_watch [] []) = (False, snd (run_stream demo_mode demo_steps (new_watch [] [])))"
    by code_simp
  have c: "contents (ws_sink (snd (run_stream demo_mode demo_steps (new_watch [] [])))) = ''Hi ''" by code_simp
  have "sorted_wrt prefix (map (ac_Text \<circ> snd) demo_steps)" "wm_toolRound demo_mode" by code_simp+
  moreover have "\<And>ev ac. (ev, ac) \<in> set demo_steps \<Longrightarrow> prefix (ac_Text ac) ''Hi <tool_call>{}''" by (auto simp: demo_steps_def)
  ultimately show ?thesis using tool_markup_never_shown[OF _ _ _ r, of "''Hi <tool_call>{}''"] c by (simp add: contents_def)
qed

end
