(* ===== verification/Turn_Round.thy ===== *)
theory Turn_Round
  imports Turn_Stream
begin

section \<open>One round of a turn\<close>

text \<open>
  \<^verbatim>\<open>src/leaf/turn/20-round.go\<close> with the result pipeline (\<^verbatim>\<open>40-pipeline.go\<close>) and the acceptance gates
  (\<^verbatim>\<open>85-rubric.go\<close>): a round builds the messages, calls the model, and ends as a reply, as a tool round or as an
  error. The world of a turn is its store, the calls made on its sink, the layers of its prompt and the
  gauge. What comes from outside in one round is its input: the answer of the pool, the results of the
  tools, of the judge and of the sub-turns, whether a write or the delivery succeeds, and whether the
  turn has been cancelled where the code asks. JSON, the scrubbing of credentials, the texts of the
  catalogue and the rendering of the prompt are functions of the environment.
\<close>

record turn_world =
  tw_rows :: "chat_message list"
  tw_sink :: "sink_event list"
  tw_layers :: layers
  tw_gauges :: gauges

record turn_spec =
  sp_Sid :: string
  sp_Scope :: string
  sp_UserText :: string
  sp_UserMsgs :: "(string \<times> msg_author) list"
  sp_Agent :: msg_author
  sp_Prefer :: "string list"
  sp_Tools :: tool_set
  sp_Skills :: "(string, string) gomap option"
  sp_hasSink :: bool
  sp_IterCap :: int
  sp_Looping :: bool
  sp_IsSub :: bool
  sp_History :: bool
  sp_bareProduct :: bool
  sp_silentPartial :: bool

record turn_env =
  en_text :: "string \<Rightarrow> string"
  en_build :: "layers \<Rightarrow> string"
  en_readbackNote :: string
  en_jsonValid :: "string \<Rightarrow> bool"
  en_scrub :: "string \<Rightarrow> string"
  en_envelope :: "tool_result \<Rightarrow> string"
  en_verdict :: "string \<Rightarrow> (bool \<times> string) option"
  en_skillName :: "string \<Rightarrow> string option"

record chat_response =
  cr_Content :: string
  cr_Reasoning :: string
  cr_ToolCalls :: "tool_call list"
  cr_InputTokens :: int
  cr_OutputTokens :: int

datatype pool_answer = Response chat_response | ErrToolArgsBloat | ErrContextExceeded | ErrModel

datatype tool_run = Returned tool_result | Panicked

datatype store_error = StoreLocked | StoreError

record row_write =
  rw_first :: "store_error option"
  rw_cancelled :: bool
  rw_second :: "store_error option"

record sub_result =
  sr_Err :: bool
  sr_Product :: string
  sr_Partial :: bool

record round_input =
  ri_synth :: "nat \<Rightarrow> string"
  ri_read_ok :: bool
  ri_cancelled_read :: bool
  ri_pool :: "bool \<Rightarrow> string list \<Rightarrow> chat_message list \<Rightarrow> (stream_event \<times> accumulated) list \<times> pool_answer"
  ri_cancelled_stream :: bool
  ri_persist_ok :: bool
  ri_calls_ok :: bool
  ri_finish_ok :: bool
  ri_skip :: "nat \<Rightarrow> bool"
  ri_tool :: "nat \<Rightarrow> tool_call \<Rightarrow> tool_run"
  ri_row :: "nat \<Rightarrow> row_write"
  ri_compress :: "string \<Rightarrow> string option"
  ri_judge :: "string \<Rightarrow> string \<Rightarrow> string option"
  ri_evidence_ok :: bool
  ri_arbiter :: sub_result
  ri_review :: sub_result

datatype round_error = Cancelled | HistoryRead | PersistCalls | ModelFailed | Undelivered

datatype round_result = RoundContinue bool | RoundFinal string | RoundExit turn_exit | RoundErr round_error | RoundOversized

subsection \<open>Doors\<close>

definition sink_call :: "sink_event \<Rightarrow> turn_world \<Rightarrow> turn_world" where
  "sink_call e w = w\<lparr>tw_sink := tw_sink w @ [e]\<rparr>"

definition trace :: "trace_line \<Rightarrow> turn_world \<Rightarrow> turn_world" where
  "trace l w = sink_call (TraceDelta l) w"

definition set_layer :: "string \<Rightarrow> layer_text \<Rightarrow> turn_world \<Rightarrow> turn_world" where
  "set_layer name c w = w\<lparr>tw_layers := SetLayer name c (tw_layers w)\<rparr>"

text \<open>The result tells whether the sink accepted the text.\<close>

definition finalizeTurn :: "turn_spec \<Rightarrow> round_input \<Rightarrow> string \<Rightarrow> string \<Rightarrow> turn_world \<Rightarrow> bool \<times> turn_world" where
  "finalizeTurn spec ri persist finish w =
     (let w1 = (if ri_persist_ok ri then w\<lparr>tw_rows := AppendMessage ''assistant'' persist (sp_Agent spec) (tw_rows w)\<rparr> else w)
      in (ri_finish_ok ri, sink_call (Finish finish) w1))"

definition releaseSink :: "turn_world \<Rightarrow> turn_world" where
  "releaseSink w = sink_call (Finish []) w"

definition finalizePartial :: "turn_spec \<Rightarrow> round_input \<Rightarrow> turn_state \<Rightarrow> string \<Rightarrow> string \<Rightarrow> turn_world \<Rightarrow> turn_world" where
  "finalizePartial spec ri st partial marker w =
     (let persist = partial @ marker;
          finish = (if \<not> sp_bareProduct spec \<and> ts_sunk st \<noteq> [] \<and> suffix partial (ts_sunk st) then ts_sunk st @ marker else persist)
      in snd (finalizeTurn spec ri persist finish w))"

definition persistCancelledPartial :: "turn_spec \<Rightarrow> turn_env \<Rightarrow> round_input \<Rightarrow> turn_state \<Rightarrow> string \<Rightarrow> turn_world \<Rightarrow> turn_world" where
  "persistCancelledPartial spec env ri st partial w =
     (if TrimSpace partial = [] then releaseSink w
      else finalizePartial spec ri st partial (en_text env ''system.turn.cancelled_marker'') w)"

definition maxBloatTrips :: nat where "maxBloatTrips = 3"

definition handleBloat :: "turn_state \<Rightarrow> turn_world \<Rightarrow> round_result \<times> turn_state \<times> turn_world" where
  "handleBloat st w =
     (let st1 = st\<lparr>ts_bloatTrips := Suc (ts_bloatTrips st)\<rparr>
      in if ts_bloatTrips st1 > maxBloatTrips
         then (RoundContinue False, st1\<lparr>ts_stripTools := True\<rparr>, set_layer bloatLayer BloatStripNudge w)
         else (RoundContinue False, st1, set_layer bloatLayer BloatChunkNudge w))"

definition handleDegenerate :: "turn_state \<Rightarrow> turn_world \<Rightarrow> round_result \<times> turn_state \<times> turn_world" where
  "handleDegenerate st w = (RoundContinue False, st\<lparr>ts_exit := Some (exit_with exitDegenSalvage)\<rparr>, w)"

subsection \<open>The acceptance gates\<close>

definition maxRubricRetries :: nat where "maxRubricRetries = 3"
definition maxReviewRetries :: nat where "maxReviewRetries = 2"
definition rubricEvidenceReplay :: int where "rubricEvidenceReplay = 30"
definition rubricEvidenceCap :: nat where "rubricEvidenceCap = 8000"

definition armRubric :: "turn_spec \<Rightarrow> string \<Rightarrow> turn_state \<Rightarrow> turn_state" where
  "armRubric spec name st =
     (case sp_Skills spec of
        None \<Rightarrow> st
      | Some skills \<Rightarrow>
          if name = [] then st
          else case gget skills name of
                 None \<Rightarrow> st
               | Some rubric \<Rightarrow>
                   if TrimSpace rubric = [] \<or> ghas (ts_rubricArmed st) name then st
                   else st\<lparr>ts_rubricArmed := gput name rubric (ts_rubricArmed st)\<rparr>)"

definition armRubricOnSkillView :: "turn_spec \<Rightarrow> turn_env \<Rightarrow> tool_call \<Rightarrow> tool_result \<Rightarrow> turn_state \<Rightarrow> turn_state" where
  "armRubricOnSkillView spec env call res st =
     (if tc_Name call \<noteq> ''skill_view'' \<or> \<not> tr_OK res then st
      else case en_skillName env (tc_Arguments call) of
             None \<Rightarrow> st
           | Some name \<Rightarrow> armRubric spec (TrimSpace name) st)"

definition user_row :: "chat_message \<Rightarrow> bool" where
  "user_row m \<longleftrightarrow> ms_Role m = ''user'' \<and> ms_RowKind m \<noteq> RowKindSummary"

text \<open>The rows from the last block of user rows on; all of them when there is none.\<close>

definition this_turn :: "chat_message list \<Rightarrow> chat_message list" where
  "this_turn history =
     (let after = takeWhile (\<lambda>m. \<not> user_row m) (rev history);
          rest = dropWhile (\<lambda>m. \<not> user_row m) (rev history)
      in if rest = [] then history else rev (after @ takeWhile user_row rest))"

definition evidence_line :: "chat_message \<Rightarrow> string" where
  "evidence_line m =
     (if ms_Role m \<noteq> ''user'' \<and> ms_Role m \<noteq> ''tool'' \<or> ms_RowKind m = RowKindSummary then []
      else (if is_tool m \<and> ms_ToolName m \<noteq> [] then ''tool:'' @ ms_ToolName m else ms_Role m)
        @ [CHR 0xEF, CHR 0xBC, CHR 0x9A] @ ms_Content m @ [CHR 0x0A])"

definition rubricEvidence :: "turn_spec \<Rightarrow> round_input \<Rightarrow> chat_message list option \<Rightarrow> turn_world \<Rightarrow> string" where
  "rubricEvidence spec ri replay w =
     (case (case replay of Some h \<Rightarrow> Some h
            | None \<Rightarrow> if ri_evidence_ok ri then Some (GetReplay rubricEvidenceReplay (tw_rows w)) else None) of
        None \<Rightarrow> sp_UserText spec
      | Some [] \<Rightarrow> sp_UserText spec
      | Some history \<Rightarrow>
          let ev = TrimSpace (concat (map evidence_line (this_turn history)))
          in if ev = [] then sp_UserText spec else capTailBytes ev rubricEvidenceCap)"

definition parseRubricVerdict :: "turn_env \<Rightarrow> string \<Rightarrow> (bool \<times> string) option" where
  "parseRubricVerdict env raw =
     (case Index raw ''{'' of
        None \<Rightarrow> None
      | Some i \<Rightarrow>
          (case Index (rev raw) ''}'' of
             None \<Rightarrow> None
           | Some k \<Rightarrow>
               let j = length raw - 1 - k
               in if j < i then None else en_verdict env (take (j + 1 - i) (drop i raw))))"

text \<open>Blocked, judged, and the reasons.\<close>

definition judgeRubric :: "turn_spec \<Rightarrow> turn_env \<Rightarrow> round_input \<Rightarrow> string \<Rightarrow> chat_message list option \<Rightarrow> turn_world
    \<Rightarrow> bool \<times> bool \<times> string" where
  "judgeRubric spec env ri output evReplay w =
     (case ri_judge ri (rubricEvidence spec ri evReplay w) output of
        None \<Rightarrow> (False, False, [])
      | Some content \<Rightarrow>
          (case parseRubricVerdict env content of
             None \<Rightarrow> (False, False, [])
           | Some (pass, reason) \<Rightarrow> (\<not> pass, True, reason)))"

definition arbiterSecondOpinion :: "turn_spec \<Rightarrow> turn_env \<Rightarrow> round_input \<Rightarrow> turn_state \<Rightarrow> turn_world
    \<Rightarrow> (bool \<times> string) option \<times> turn_state \<times> turn_world" where
  "arbiterSecondOpinion spec env ri st w =
     (if sp_IsSub spec \<or> ts_arbiterUsed st then (None, st, w)
      else let st1 = st\<lparr>ts_arbiterUsed := True\<rparr>;
               w1 = trace ArbiterAskTrace w;
               res = ri_arbiter ri
           in if sr_Err res \<or> TrimSpace (sr_Product res) = [] then (None, st1, w1)
              else case parseRubricVerdict env (sr_Product res) of
                     None \<Rightarrow> (None, st1, w1)
                   | Some (pass, reason) \<Rightarrow> (Some (pass, reason), st1, trace (ArbiterVerdictTrace pass (TrimSpace reason)) w1))"

definition judgeWithEscalation :: "turn_spec \<Rightarrow> turn_env \<Rightarrow> round_input \<Rightarrow> string \<Rightarrow> chat_message list option \<Rightarrow> turn_state \<Rightarrow> turn_world
    \<Rightarrow> (bool \<times> bool \<times> string) \<times> turn_state \<times> turn_world" where
  "judgeWithEscalation spec env ri output evReplay st w =
     (case judgeRubric spec env ri output evReplay w of
        (blocked, judged, reasons) \<Rightarrow>
          if \<not> blocked then ((blocked, judged, reasons), st, w)
          else case arbiterSecondOpinion spec env ri st w of
                 (None, st1, w1) \<Rightarrow> ((blocked, judged, reasons), st1, w1)
               | (Some (pass, reason), st1, w1) \<Rightarrow>
                   if pass then ((False, True, []), st1, w1)
                   else ((True, True, if TrimSpace reason \<noteq> [] then TrimSpace reason else reasons), st1, w1))"

definition fail_notice_head :: string where
  "fail_notice_head =
     [CHR 0xEF, CHR 0xBC, CHR 0x88, CHR 0xE8, CHR 0xBF, CHR 0x99, CHR 0xE6, CHR 0xAC, CHR 0xA1, CHR 0xE7, CHR 0x9A,
     CHR 0x84, CHR 0xE4, CHR 0xBA, CHR 0xA7, CHR 0xE5, CHR 0x87, CHR 0xBA, CHR 0xE6, CHR 0x9C, CHR 0xAA, CHR 0xE8,
     CHR 0x83, CHR 0xBD, CHR 0xE9, CHR 0x80, CHR 0x9A, CHR 0xE8, CHR 0xBF, CHR 0x87, CHR 0xE6, CHR 0xA0, CHR 0xA1,
     CHR 0xE9, CHR 0xAA, CHR 0x8C, CHR 0xEF, CHR 0xBC, CHR 0x8C, CHR 0xE5, CHR 0xB7, CHR 0xB2, CHR 0xE9, CHR 0x87,
     CHR 0x8D, CHR 0xE8, CHR 0xAF, CHR 0x95] @ '' ''"

definition fail_notice_mid :: string where
  "fail_notice_mid =
     '' '' @ [CHR 0xE6, CHR 0xAC, CHR 0xA1, CHR 0xE4, CHR 0xBB, CHR 0x8D, CHR 0xE4, CHR 0xB8, CHR 0x8D, CHR 0xE8,
     CHR 0xBE, CHR 0xBE, CHR 0xE6, CHR 0xA0, CHR 0x87, CHR 0xEF, CHR 0xBC, CHR 0x8C, CHR 0xE6, CHR 0x9C, CHR 0xAA,
     CHR 0xE6, CHR 0x95, CHR 0xA2, CHR 0xE4, CHR 0xBD, CHR 0x9C, CHR 0xE4, CHR 0xB8, CHR 0xBA, CHR 0xE7, CHR 0xBB,
     CHR 0x93, CHR 0xE6, CHR 0x9E, CHR 0x9C, CHR 0xE4, CHR 0xBA, CHR 0xA4, CHR 0xE4, CHR 0xBB, CHR 0x98, CHR 0xE3,
     CHR 0x80, CHR 0x82]"

definition fail_notice_why :: string where
  "fail_notice_why =
     [CHR 0xE6, CHR 0xA0, CHR 0xA1, CHR 0xE9, CHR 0xAA, CHR 0x8C, CHR 0xE6, CHR 0x84, CHR 0x8F, CHR 0xE8, CHR 0xA7,
     CHR 0x81, CHR 0xEF, CHR 0xBC, CHR 0x9A]"

definition full_stop :: string where
  "full_stop =
     [CHR 0xE3, CHR 0x80, CHR 0x82]"

definition fail_notice_tail :: string where
  "fail_notice_tail =
     [CHR 0xE8, CHR 0xAF, CHR 0xB7, CHR 0xE4, CHR 0xBA, CHR 0xBA, CHR 0xE5, CHR 0xB7, CHR 0xA5, CHR 0xE5, CHR 0xA4,
     CHR 0x8D, CHR 0xE6, CHR 0xA0, CHR 0xB8, CHR 0xE6, CHR 0x88, CHR 0x96, CHR 0xE9, CHR 0x87, CHR 0x8D, CHR 0xE5,
     CHR 0x8F, CHR 0x91, CHR 0xE3, CHR 0x80, CHR 0x82, CHR 0xEF, CHR 0xBC, CHR 0x89]"

definition rubricFailNotice :: "string \<Rightarrow> string" where
  "rubricFailNotice reasons =
     (let r = TrimSpace reasons;
          why = (if r = [] then [] else fail_notice_why @ r @ full_stop)
      in fail_notice_head @ show_digits maxRubricRetries @ fail_notice_mid @ why @ fail_notice_tail)"

definition collapseLine :: "string \<Rightarrow> string" where
  "collapseLine s = map (\<lambda>c. if c = CHR 0x0A \<or> c = CHR 0x09 then CHR '' '' else c) (TrimSpace s)"

text \<open>A gate answers with the result to take instead of the reply, or with none.\<close>

definition rubricGate :: "turn_spec \<Rightarrow> turn_env \<Rightarrow> round_input \<Rightarrow> string \<Rightarrow> chat_message list option \<Rightarrow> turn_state \<Rightarrow> turn_world
    \<Rightarrow> round_result option \<times> turn_state \<times> turn_world" where
  "rubricGate spec env ri output evReplay st w =
     (case judgeWithEscalation spec env ri output evReplay st w of
        ((blocked, judged, reasons), st1, w1) \<Rightarrow>
          if \<not> blocked then (None, st1, trace (RubricPassTrace judged) (set_layer rubricRedoLayer NoText w1))
          else let st2 = st1\<lparr>ts_rubricRetries := Suc (ts_rubricRetries st1)\<rparr>
               in if ts_rubricRetries st2 > maxRubricRetries
                  then let notice = rubricFailNotice reasons @ sideEffectFooter st2
                       in (case finalizeTurn spec ri notice notice (trace (RubricSpentTrace reasons) w1) of
                             (delivered, w2) \<Rightarrow>
                               (Some (if delivered
                                      then RoundExit \<lparr> te_state = exitRubricFailed, te_detail = notice, te_rejected = output \<rparr>
                                      else RoundErr Undelivered), st2, w2))
                  else (Some (RoundContinue True), st2,
                        trace (RubricRedoTrace reasons (ts_rubricRetries st2))
                          (set_layer rubricRedoLayer (RubricRedoNudge output reasons) w1)))"

definition runAdvisor :: "turn_spec \<Rightarrow> sub_result \<Rightarrow> string" where
  "runAdvisor spec res =
     (if sp_IsSub spec \<or> sr_Err res \<or> TrimSpace (sr_Product res) = [] \<or> sr_Partial res then [] else TrimSpace (sr_Product res))"

definition no_reason_given :: string where
  "no_reason_given =
     [CHR 0xE9, CHR 0xA1, CHR 0xBE, CHR 0xE9, CHR 0x97, CHR 0xAE, CHR 0xE5, CHR 0x88, CHR 0xA4, CHR 0xE5, CHR 0xAE,
     CHR 0x9A, CHR 0xE4, CHR 0xB8, CHR 0x8D, CHR 0xE5, CHR 0x90, CHR 0x88, CHR 0xE6, CHR 0xA0, CHR 0xBC, CHR 0xE4,
     CHR 0xBD, CHR 0x86, CHR 0xE6, CHR 0x9C, CHR 0xAA, CHR 0xE7, CHR 0xBB, CHR 0x99, CHR 0xE5, CHR 0x87, CHR 0xBA,
     CHR 0xE5, CHR 0x85, CHR 0xB7, CHR 0xE4, CHR 0xBD, CHR 0x93, CHR 0xE5, CHR 0x8E, CHR 0x9F, CHR 0xE5, CHR 0x9B,
     CHR 0xA0]"

definition advisorReviewGate :: "turn_spec \<Rightarrow> turn_env \<Rightarrow> round_input \<Rightarrow> string \<Rightarrow> turn_state \<Rightarrow> turn_world
    \<Rightarrow> round_result option \<times> turn_state \<times> turn_world" where
  "advisorReviewGate spec env ri output st w =
     (if \<not> ts_advisorArmed st \<or> sp_IsSub spec \<or> \<not> ts_produced st then (None, st, w)
      else let w1 = trace ReviewAskTrace w;
               out = runAdvisor spec (ri_review ri)
           in if out = [] then (None, st, trace ReviewUnavailableTrace w1)
              else case parseRubricVerdict env out of
                     None \<Rightarrow> (None, st, trace (ReviewUnparsedTrace out) w1)
                   | Some (pass, reason0) \<Rightarrow>
                       if pass
                       then (None, st\<lparr>ts_advisorConcern := []\<rparr>,
                             trace (ReviewPassTrace (TrimSpace reason0)) (set_layer rubricRedoLayer NoText w1))
                       else let reason = (if TrimSpace reason0 = [] then no_reason_given else TrimSpace reason0);
                                st1 = st\<lparr>ts_reviewRetries := Suc (ts_reviewRetries st)\<rparr>
                            in if ts_reviewRetries st1 > maxReviewRetries
                               then (None, st1\<lparr>ts_advisorConcern := reason\<rparr>, trace (ReviewSpentTrace reason) w1)
                               else (Some (RoundContinue True), st1,
                                     trace (ReviewRedoTrace (ts_reviewRetries st1) reason)
                                       (set_layer rubricRedoLayer (AdvisorRedoNudge output reason) w1)))"

text \<open>The runes trimmed off the end of a concern are the stops and marks of both scripts.\<close>

definition concern_stops :: "string list" where
  "concern_stops = [full_stop, ''.'', [CHR 0xEF, CHR 0xBC, CHR 0x81], ''!'', [CHR 0xEF, CHR 0xBC, CHR 0x9B], '';'']"

definition concern_head :: string where
  "concern_head =
     [CHR 0x0A, CHR 0x0A, CHR 0xEF, CHR 0xBC, CHR 0x88, CHR 0xE5, CHR 0xA4, CHR 0x8D, CHR 0xE6, CHR 0xA0, CHR 0xB8,
     CHR 0xE4, CHR 0xBF, CHR 0x9D, CHR 0xE7, CHR 0x95, CHR 0x99, CHR 0xE6, CHR 0x84, CHR 0x8F, CHR 0xE8, CHR 0xA7,
     CHR 0x81, CHR 0xEF, CHR 0xBC, CHR 0x9A]"

definition concern_tail :: string where
  "concern_tail =
     [CHR 0xE3, CHR 0x80, CHR 0x82, CHR 0xE4, CHR 0xBB, CHR 0xA5, CHR 0xE4, CHR 0xB8, CHR 0x8A, CHR 0xE4, CHR 0xBA,
     CHR 0xA7, CHR 0xE5, CHR 0x87, CHR 0xBA, CHR 0xE5, CHR 0xB7, CHR 0xB2, CHR 0xE6, CHR 0x8C, CHR 0x89, CHR 0xE7,
     CHR 0x8E, CHR 0xB0, CHR 0xE7, CHR 0x8A, CHR 0xB6, CHR 0xE4, CHR 0xBA, CHR 0xA4, CHR 0xE4, CHR 0xBB, CHR 0x98,
     CHR 0xEF, CHR 0xBC, CHR 0x8C, CHR 0xE8, CHR 0xAF, CHR 0xB7, CHR 0xE8, CHR 0x87, CHR 0xAA, CHR 0xE8, CHR 0xA1,
     CHR 0x8C, CHR 0xE7, CHR 0x95, CHR 0x99, CHR 0xE6, CHR 0x84, CHR 0x8F, CHR 0xE3, CHR 0x80, CHR 0x82, CHR 0xEF,
     CHR 0xBC, CHR 0x89]"

definition advisorConcernFooter :: "turn_state \<Rightarrow> string" where
  "advisorConcernFooter st =
     (let concern = TrimSpace (ts_advisorConcern st)
      in if concern = [] then []
         else concern_head @ concat (rev (dropWhile (\<lambda>r. r \<in> set concern_stops) (rev (runes concern)))) @ concern_tail)"

subsection \<open>The reply\<close>

definition accept_gate :: "turn_spec \<Rightarrow> turn_env \<Rightarrow> round_input \<Rightarrow> string \<Rightarrow> chat_message list option \<Rightarrow> turn_state \<Rightarrow> turn_world
    \<Rightarrow> round_result option \<times> turn_state \<times> turn_world" where
  "accept_gate spec env ri output evReplay st w =
     (if ts_rubricArmed st \<noteq> [] then rubricGate spec env ri output evReplay st w
      else advisorReviewGate spec env ri output st w)"

definition finalReply :: "turn_spec \<Rightarrow> turn_env \<Rightarrow> round_input \<Rightarrow> string \<Rightarrow> chat_message list option \<Rightarrow> bool \<Rightarrow> turn_state \<Rightarrow> turn_world
    \<Rightarrow> round_result \<times> turn_state \<times> turn_world" where
  "finalReply spec env ri content evReplay streamed st w =
     (let full = TrimSpace content
      in if full = [] then (RoundContinue False, st, w)
         else if isDegenerate full then handleDegenerate st w
         else case accept_gate spec env ri full evReplay st w of
                (Some rr, st1, w1) \<Rightarrow> (rr, st1, w1)
              | (None, st1, w1) \<Rightarrow>
                  let footer = sideEffectFooter st1 @ advisorConcernFooter st1;
                      finish = (if streamed \<and> ts_sunk st1 \<noteq> [] then ts_sunk st1 @ footer else full @ footer)
                  in (case finalizeTurn spec ri (full @ footer) finish w1 of
                        (delivered, w2) \<Rightarrow> (if delivered then RoundFinal (full @ footer) else RoundErr Undelivered, st1, w2)))"

subsection \<open>The tool round\<close>

definition dispatch_one :: "turn_spec \<Rightarrow> round_input \<Rightarrow> nat \<Rightarrow> tool_call \<Rightarrow> tool_result" where
  "dispatch_one spec ri i call =
     (case sp_Tools spec of
        None \<Rightarrow> ErrResult (''no tools available: '' @ tc_Name call)
      | Some tools \<Rightarrow>
          (case gget tools (tc_Name call) of
             None \<Rightarrow> (ErrResult (''unknown tool: '' @ tc_Name call))\<lparr>tr_Hint := ''call only tools advertised this turn''\<rparr>
           | Some _ \<Rightarrow>
               if ri_skip ri i then ErrResult ''skipped: turn cancelled''
               else case ri_tool ri i call of Returned res \<Rightarrow> res | Panicked \<Rightarrow> ErrResult (''tool panicked: '' @ tc_Name call)))"

fun trace_all :: "trace_line list \<Rightarrow> turn_world \<Rightarrow> turn_world" where
  "trace_all [] w = w"
| "trace_all (l # ls) w = trace_all ls (trace l w)"

definition call_line :: "tool_call \<Rightarrow> trace_line" where
  "call_line call = CallLine (tc_Name call) (truncateBytes (collapseLine (tc_Arguments call)) 120)"

definition result_line :: "tool_call \<Rightarrow> tool_result \<Rightarrow> trace_line" where
  "result_line call res =
     ResultLine (tc_Name call) (tr_OK res) (if tr_OK res then [] else truncateBytes (collapseLine (tr_Error res)) 80)"

definition dispatchAll :: "turn_spec \<Rightarrow> round_input \<Rightarrow> tool_call list \<Rightarrow> turn_world \<Rightarrow> tool_result list \<times> turn_world" where
  "dispatchAll spec ri calls w =
     (let results = map (\<lambda>(i, call). dispatch_one spec ri i call) (enumerate 0 calls);
          w1 = trace_all (map call_line calls) w
      in (results, trace_all (map (\<lambda>(call, res). result_line call res) (zip calls results)) w1))"

definition summarizeThresholdTokens :: nat where "summarizeThresholdTokens = 2000"

definition summary_note_head :: string where
  "summary_note_head =
     ''['' @ [CHR 0xE5, CHR 0xB7, CHR 0xA5, CHR 0xE5, CHR 0x85, CHR 0xB7, CHR 0xE8, CHR 0xBF, CHR 0x94, CHR 0xE5,
     CHR 0x9B, CHR 0x9E, CHR 0xE7, CHR 0xBA, CHR 0xA6] @ '' ''"

definition summary_note_tail :: string where
  "summary_note_tail =
     '' token'' @ [CHR 0xEF, CHR 0xBC, CHR 0x9B, CHR 0xE4, CHR 0xBB, CHR 0xA5, CHR 0xE4, CHR 0xB8, CHR 0x8B, CHR
     0xE4, CHR 0xB8, CHR 0xBA, CHR 0xE6, CHR 0x91, CHR 0x98, CHR 0xE8, CHR 0xA6, CHR 0x81] @ '']'' @ [CHR 0x0A]"

definition summarize_result :: "round_input \<Rightarrow> string \<Rightarrow> string" where
  "summarize_result ri data =
     (case ri_compress ri data of
        None \<Rightarrow> data
      | Some content \<Rightarrow>
          let out = TrimSpace content
          in if out = [] then data else summary_note_head @ show_digits (EstTokens data) @ summary_note_tail @ out)"

definition append_retry :: "row_write \<Rightarrow> bool" where
  "append_retry rw \<longleftrightarrow>
     rw_first rw = None \<or> (rw_first rw = Some StoreLocked \<and> \<not> rw_cancelled rw \<and> rw_second rw = None)"

definition pipeline_content :: "turn_spec \<Rightarrow> turn_env \<Rightarrow> round_input \<Rightarrow> tool_call \<Rightarrow> tool_result \<Rightarrow> string" where
  "pipeline_content spec env ri call res =
     (let res1 = res\<lparr>tr_Data := beltTruncate (en_scrub env (tr_Data res)), tr_Error := en_scrub env (tr_Error res),
                     tr_Hint := en_scrub env (tr_Hint res)\<rparr>;
          res2 = (if tr_OK res1 \<and> tr_ExitRequest res1 = None \<and> tr_Data res1 \<noteq> [] \<and> \<not> noAutoCompress (sp_Tools spec) (tc_Name call)
                     \<and> EstTokens (tr_Data res1) > summarizeThresholdTokens
                  then res1\<lparr>tr_Data := summarize_result ri (tr_Data res1)\<rparr> else res1);
          content = en_envelope env res2
      in if content = [] then ''{}'' else content)"

definition pipelineAndPersist :: "turn_spec \<Rightarrow> turn_env \<Rightarrow> round_input \<Rightarrow> nat \<Rightarrow> tool_call \<Rightarrow> tool_result \<Rightarrow> turn_world \<Rightarrow> turn_world" where
  "pipelineAndPersist spec env ri i call res w =
     (if append_retry (ri_row ri i)
      then w\<lparr>tw_rows := AppendToolResult (tc_ID call) (tc_Name call) (pipeline_content spec env ri call res) (tw_rows w)\<rparr>
      else w)"

text \<open>The loop over the results: each is persisted and counted; the first tool that asks to end wins.\<close>

fun take_results :: "turn_spec \<Rightarrow> turn_env \<Rightarrow> round_input \<Rightarrow> nat \<Rightarrow> nat \<Rightarrow> (tool_call \<times> tool_result) list \<Rightarrow> string option
    \<Rightarrow> turn_state \<Rightarrow> turn_world \<Rightarrow> string option \<times> turn_state \<times> turn_world" where
  "take_results spec env ri iter i [] ex st w = (ex, st, w)"
| "take_results spec env ri iter i ((call, res) # rs) ex st w =
     take_results spec env ri iter (Suc i) rs
       (if ex = None then tr_ExitRequest res else ex)
       (armRubricOnSkillView spec env call res (recordToolOutcome (sp_Tools spec) iter call res st))
       (pipelineAndPersist spec env ri i call res w)"

definition toolRound :: "turn_spec \<Rightarrow> turn_env \<Rightarrow> round_input \<Rightarrow> nat \<Rightarrow> chat_response \<Rightarrow> turn_state \<Rightarrow> turn_world
    \<Rightarrow> round_result \<times> turn_state \<times> turn_world" where
  "toolRound spec env ri iter resp st w =
     (let calls = dedupeCalls (en_jsonValid env) (ri_synth ri) 0 (cr_ToolCalls resp);
          st1 = st\<lparr>ts_toolsRun := ts_toolsRun st @ map tc_Name calls\<rparr>
      in if \<not> ri_calls_ok ri
         then let notice = en_text env ''system.turn.persist_fail''
              in (RoundErr PersistCalls, st1, snd (finalizeTurn spec ri notice notice w))
         else let w1 = w\<lparr>tw_rows := AppendAssistantCalls (cr_Content resp) calls (sp_Agent spec) (tw_rows w)\<rparr>
              in (case dispatchAll spec ri calls w1 of
                    (results, w2) \<Rightarrow>
                      (case take_results spec env ri iter 0 (zip calls results) None st1 w2 of
                         (None, st3, w3) \<Rightarrow> (RoundContinue False, st3, w3)
                       | (Some reply, st3, w3) \<Rightarrow>
                           let full = TrimSpace reply
                           in if full = [] then (RoundExit (exit_with exitToolRequested), st3, releaseSink w3)
                              else let text = full @ sideEffectFooter st3
                                   in (case finalizeTurn spec ri text text w3 of
                                         (delivered, w4) \<Rightarrow>
                                           (if delivered then RoundExit \<lparr> te_state = exitToolRequested, te_detail = text, te_rejected = [] \<rparr>
                                            else RoundErr Undelivered, st3, w4)))))"

subsection \<open>The round\<close>

definition model_failed :: "turn_spec \<Rightarrow> turn_env \<Rightarrow> round_input \<Rightarrow> bool \<Rightarrow> pool_answer \<Rightarrow> string \<Rightarrow> turn_state \<Rightarrow> turn_world
    \<Rightarrow> round_result \<times> turn_state \<times> turn_world" where
  "model_failed spec env ri degenerate answer shown0 st w =
     (let shown = (if sp_silentPartial spec then [] else shown0)
      in if degenerate then handleDegenerate st w
         else if ri_cancelled_stream ri then (RoundErr Cancelled, st, persistCancelledPartial spec env ri st shown w)
         else if answer = ErrToolArgsBloat then handleBloat st w
         else if answer = ErrContextExceeded then (RoundOversized, st, w)
         else if TrimSpace shown \<noteq> []
         then (RoundErr ModelFailed, st,
               finalizePartial spec ri st shown (en_text env ''system.turn.stream_interrupted_marker'') w)
         else let notice = en_text env ''system.turn.model_unavailable''
              in (RoundErr ModelFailed, st, snd (finalizeTurn spec ri notice notice w)))"

definition round_mode :: "turn_spec \<Rightarrow> turn_state \<Rightarrow> watch_mode" where
  "round_mode spec st =
     \<lparr> wm_streamLive = (ts_rubricArmed st = []),
       wm_toolRound = (case sp_Tools spec of None \<Rightarrow> False | Some tools \<Rightarrow> tools \<noteq> [] \<and> \<not> ts_stripTools st),
       wm_bareProduct = sp_bareProduct spec \<rparr>"

text \<open>What the round makes of an answer: the text held back at the end of the stream is shown after all.\<close>

definition model_answered :: "turn_spec \<Rightarrow> turn_env \<Rightarrow> round_input \<Rightarrow> nat \<Rightarrow> chat_message list option \<Rightarrow> watch_mode \<Rightarrow> chat_response
    \<Rightarrow> watch_state \<Rightarrow> turn_state \<Rightarrow> turn_world \<Rightarrow> round_result \<times> turn_state \<times> turn_world" where
  "model_answered spec env ri iter evReplay wm resp ws st w =
     (let w1 = (set_layer bloatLayer NoText w)\<lparr>tw_gauges := recordPromptFloor (sp_Sid spec) (cr_InputTokens resp) (tw_gauges w)\<rparr>;
          st1 = st\<lparr>ts_usageIn := ts_usageIn st + cr_InputTokens resp, ts_usageOut := ts_usageOut st + cr_OutputTokens resp\<rparr>
      in if cr_ToolCalls resp \<noteq> [] then toolRound spec env ri iter resp st1 w1
         else let held = wm_streamLive wm \<and> \<not> sp_bareProduct spec \<and> \<not> ws_markupSeen ws \<and> 0 < ws_sent ws \<and> ws_sent ws < length (cr_Content resp);
                  ws1 = (if held then (forward wm (drop (ws_sent ws) (cr_Content resp)) ws)\<lparr>ws_shownPartial := cr_Content resp\<rparr> else ws);
                  streamed = (wm_streamLive wm \<and> \<not> sp_bareProduct spec \<and> ws_shownPartial ws1 = cr_Content resp)
              in finalReply spec env ri (cr_Content resp) evReplay streamed (st1\<lparr>ts_sunk := ws_sunk ws1\<rparr>) (w1\<lparr>tw_sink := ws_sink ws1\<rparr>))"

definition stream_ended :: "turn_spec \<Rightarrow> turn_env \<Rightarrow> round_input \<Rightarrow> nat \<Rightarrow> chat_message list option \<Rightarrow> watch_mode \<Rightarrow> bool \<Rightarrow> pool_answer
    \<Rightarrow> watch_state \<Rightarrow> turn_state \<Rightarrow> turn_world \<Rightarrow> round_result \<times> turn_state \<times> turn_world" where
  "stream_ended spec env ri iter evReplay wm degenerate answer ws st w =
     (let tail = (case (degenerate, answer) of (False, Response resp) \<Rightarrow> cr_Reasoning resp | _ \<Rightarrow> ws_thinkAll ws);
          ws1 = (if tail \<noteq> [] then flushThinking wm tail True ws else ws);
          st1 = st\<lparr>ts_sunk := ws_sunk ws1\<rparr>;
          w1 = w\<lparr>tw_sink := ws_sink ws1\<rparr>
      in case (degenerate, answer) of
           (False, Response resp) \<Rightarrow> model_answered spec env ri iter evReplay wm resp ws1 st1 w1
         | _ \<Rightarrow> model_failed spec env ri degenerate answer (ws_shownPartial ws1) st1 w1)"

definition runRound :: "turn_spec \<Rightarrow> turn_env \<Rightarrow> round_input \<Rightarrow> nat \<Rightarrow> chat_message list option \<Rightarrow> turn_state \<Rightarrow> turn_world
    \<Rightarrow> round_result \<times> turn_state \<times> turn_world" where
  "runRound spec env ri iter replay st w =
     (case (case replay of Some r \<Rightarrow> Some r | None \<Rightarrow> if ri_read_ok ri then Some (GetReplay historyReplayCap (tw_rows w)) else None) of
        None \<Rightarrow>
          if ri_cancelled_read ri then (RoundErr Cancelled, st, releaseSink w)
          else (RoundErr HistoryRead, st, sink_call (Finish (en_text env ''system.turn.persist_fail'')) w)
      | Some history \<Rightarrow>
          let w1 = (if sp_IsSub spec then w else w\<lparr>tw_gauges := recordCtxRows (sp_Sid spec) (int (length history)) (tw_gauges w)\<rparr>);
              msgs = buildMessages (en_build env (tw_layers w)) (sp_Scope spec) (\<not> sp_IsSub spec \<and> sp_History spec)
                       (en_readbackNote env) history;
              offered = (sp_Tools spec \<noteq> None \<and> \<not> ts_stripTools st);
              prefs = (if offered then routeToolRound (sp_Prefer spec) st else sp_Prefer spec);
              wm = round_mode spec st;
              evReplay = (if ts_rubricArmed st \<noteq> [] then replay else None)
          in (case ri_pool ri offered prefs msgs of
                (events, answer) \<Rightarrow>
                  (case run_stream wm events (new_watch (tw_sink w1) (ts_sunk st)) of
                     (degenerate, ws) \<Rightarrow> stream_ended spec env ri iter evReplay wm degenerate answer ws st w1)))"

subsection \<open>The sink is closed once, at the end\<close>

definition is_Finish :: "sink_event \<Rightarrow> bool" where
  "is_Finish e \<longleftrightarrow> (case e of Finish _ \<Rightarrow> True | _ \<Rightarrow> False)"

definition open_ext :: "sink_event list \<Rightarrow> sink_event list \<Rightarrow> bool" where
  "open_ext a b \<longleftrightarrow> (\<exists>es. b = a @ es \<and> (\<forall>e \<in> set es. \<not> is_Finish e))"

definition closed_ext :: "sink_event list \<Rightarrow> sink_event list \<Rightarrow> bool" where
  "closed_ext a b \<longleftrightarrow> (\<exists>m t. open_ext a m \<and> b = m @ [Finish t])"

fun ends :: "round_result \<Rightarrow> bool" where
  "ends (RoundContinue _) = False"
| "ends RoundOversized = False"
| "ends _ = True"

lemma open_refl [simp, intro]: "open_ext a a"
  by (simp add: open_ext_def)

lemma open_trans: "open_ext a b \<Longrightarrow> open_ext b c \<Longrightarrow> open_ext a c"
  unfolding open_ext_def by (elim exE conjE) (rule exI, auto)

lemma open_snoc: "open_ext a b \<Longrightarrow> \<not> is_Finish e \<Longrightarrow> open_ext a (b @ [e])"
  unfolding open_ext_def by (elim exE conjE) (rule exI, auto)

lemma open_self [simp]: "open_ext a (a @ es) \<longleftrightarrow> (\<forall>e \<in> set es. \<not> is_Finish e)"
  by (simp add: open_ext_def)

lemma open_more: "open_ext a b \<Longrightarrow> (\<forall>e \<in> set es. \<not> is_Finish e) \<Longrightarrow> open_ext a (b @ es)"
  using open_trans[of a b "b @ es"] by simp

lemma closed_more:
  assumes "open_ext a b" and "\<forall>e \<in> set es. \<not> is_Finish e"
  shows "closed_ext a (b @ es @ [Finish t])"
  unfolding closed_ext_def using open_more[OF assms] by (metis append.assoc)

lemma closed_two: "open_ext a b \<Longrightarrow> \<not> is_Finish e \<Longrightarrow> closed_ext a (b @ [e, Finish t])"
  using closed_more[of a b "[e]" t] by simp

lemma open_closed: "open_ext a b \<Longrightarrow> closed_ext b c \<Longrightarrow> closed_ext a c"
  unfolding closed_ext_def by (blast intro: open_trans)

lemma closed_snoc [intro]: "open_ext a b \<Longrightarrow> closed_ext a (b @ [Finish t])"
  unfolding closed_ext_def by blast

lemma finish_kinds [simp]: "is_Finish (Finish t)" "\<not> is_Finish (ContentDelta s)" "\<not> is_Finish (TraceDelta l)"
  by (simp_all add: is_Finish_def)

lemma sink_simps [simp]:
  "tw_sink (sink_call e w) = tw_sink w @ [e]" "tw_sink (trace l w) = tw_sink w @ [TraceDelta l]"
  "tw_sink (set_layer n c w) = tw_sink w" "tw_sink (releaseSink w) = tw_sink w @ [Finish []]"
  by (simp_all add: sink_call_def trace_def set_layer_def releaseSink_def)

lemma finalize_sink [simp]: "tw_sink (snd (finalizeTurn spec ri p f w)) = tw_sink w @ [Finish f]"
  by (simp add: finalizeTurn_def Let_def)

lemma finalize_eq: "finalizeTurn spec ri p f w = (d, w') \<Longrightarrow> tw_sink w' = tw_sink w @ [Finish f] \<and> d = ri_finish_ok ri"
  by (auto simp: finalizeTurn_def Let_def)

lemma partial_closed: "closed_ext (tw_sink w) (tw_sink (finalizePartial spec ri st p m w))"
  by (auto simp: finalizePartial_def Let_def)

lemma cancelled_closed: "closed_ext (tw_sink w) (tw_sink (persistCancelledPartial spec env ri st p w))"
  by (auto simp: persistCancelledPartial_def intro: partial_closed)

lemma forward_open: "open_ext (ws_sink ws) (ws_sink (forward wm s ws))"
  by (auto simp: forward_def open_snoc)

lemma flush_open: "open_ext (ws_sink ws) (ws_sink (flushThinking wm a rest ws))"
  by (auto simp: flushThinking_def emit_thought_def Let_def open_snoc)

lemma show_text_open: "open_ext (ws_sink ws) (ws_sink (show_text wm d t ws))"
  by (auto simp: show_text_def Let_def forward_open split: option.splits)

lemma watch_open:
  assumes "watch wm ev ac ws = (b, ws')"
  shows "open_ext (ws_sink ws) (ws_sink ws')"
proof -
  define ws1 where "ws1 = (if se_Reasoning ev \<noteq> [] then flushThinking wm (ac_Reasoning ac) False ws else ws)"
  define ws2 where "ws2 = (if wm_streamLive wm \<and> ac_ToolCalls ac = 0 \<and> \<not> ws_markupSeen ws1
                 then show_text wm (se_Text ev) (ac_Text ac) ws1 else ws1)"
  have "watch_degenerate ac ws2 = (b, ws')" using assms by (simp add: watch_def Let_def ws1_def[symmetric] ws2_def[symmetric])
  from degenerate_fields[OF this] have "ws_sink ws' = ws_sink ws2" by simp
  moreover have "open_ext (ws_sink ws) (ws_sink ws1)" by (simp add: ws1_def flush_open)
  moreover have "open_ext (ws_sink ws1) (ws_sink ws2)" by (simp add: ws2_def show_text_open)
  ultimately show ?thesis using open_trans by metis
qed

lemma run_stream_open: "run_stream wm evs ws = (b, ws') \<Longrightarrow> open_ext (ws_sink ws) (ws_sink ws')"
proof (induction evs arbitrary: ws)
  case (Cons p evs)
  obtain ev ac where p: "p = (ev, ac)" by (cases p)
  obtain c ws1 where w: "watch wm ev ac ws = (c, ws1)" by fastforce
  show ?case
    using Cons.prems Cons.IH[of ws1] watch_open[OF w] by (cases c) (auto simp: p w intro: open_trans)
qed simp

lemma trace_all_open: "open_ext (tw_sink w) (tw_sink (trace_all ls w))"
proof (induction ls arbitrary: w)
  case (Cons l ls)
  have "open_ext (tw_sink w) (tw_sink (trace l w))" by simp
  then show ?case using open_trans[OF _ Cons.IH[of "trace l w"]] by simp
qed simp

lemma dispatch_open: "dispatchAll spec ri calls w = (rs, w') \<Longrightarrow> open_ext (tw_sink w) (tw_sink w')"
  by (auto simp: dispatchAll_def Let_def intro: open_trans[OF trace_all_open trace_all_open])

lemma pipeline_sink [simp]: "tw_sink (pipelineAndPersist spec env ri i call res w) = tw_sink w"
  by (simp add: pipelineAndPersist_def Let_def)

lemma take_results_sink: "take_results spec env ri iter i rs ex st w = (ex', st', w') \<Longrightarrow> tw_sink w' = tw_sink w"
  by (induction rs arbitrary: i ex st w) auto

lemma arbiter_open:
  "arbiterSecondOpinion spec env ri st w = (v, st', w') \<Longrightarrow> open_ext (tw_sink w) (tw_sink w')"
  by (auto simp: arbiterSecondOpinion_def Let_def open_snoc split: if_splits option.splits)

lemma judge_open:
  "judgeWithEscalation spec env ri out ev st w = (v, st', w') \<Longrightarrow> open_ext (tw_sink w) (tw_sink w')"
  by (auto simp: judgeWithEscalation_def dest: arbiter_open split: prod.splits if_splits option.splits)

definition gate_ok :: "turn_world \<Rightarrow> round_result option \<times> turn_state \<times> turn_world \<Rightarrow> bool" where
  "gate_ok w out =
     (case out of
        (None, st', w') \<Rightarrow> open_ext (tw_sink w) (tw_sink w')
      | (Some rr, st', w') \<Rightarrow> if ends rr then closed_ext (tw_sink w) (tw_sink w') else open_ext (tw_sink w) (tw_sink w'))"

lemma rubric_gate_ok: "gate_ok w (rubricGate spec env ri out ev st w)"
proof -
  obtain blocked judged reasons st1 w1 where j: "judgeWithEscalation spec env ri out ev st w = ((blocked, judged, reasons), st1, w1)"
    by (metis prod_cases3)
  have o: "open_ext (tw_sink w) (tw_sink w1)" by (rule judge_open[OF j])
  show ?thesis
    using o
    by (auto simp: rubricGate_def j gate_ok_def Let_def finalizeTurn_def open_more closed_two)
qed

lemma review_gate_ok: "gate_ok w (advisorReviewGate spec env ri out st w)"
  by (auto simp: advisorReviewGate_def gate_ok_def Let_def open_snoc split: option.splits)

lemma accept_gate_ok: "gate_ok w (accept_gate spec env ri out ev st w)"
  by (simp add: accept_gate_def rubric_gate_ok review_gate_ok)

definition round_ok :: "sink_event list \<Rightarrow> round_result \<times> turn_state \<times> turn_world \<Rightarrow> bool" where
  "round_ok sink out =
     (case out of (rr, st', w') \<Rightarrow> if ends rr then closed_ext sink (tw_sink w') else open_ext sink (tw_sink w'))"

lemma round_ok_from: "open_ext a b \<Longrightarrow> round_ok b out \<Longrightarrow> round_ok a out"
  by (auto simp: round_ok_def intro: open_trans open_closed split: prod.splits if_splits)

lemma final_reply_ok: "round_ok (tw_sink w) (finalReply spec env ri content ev streamed st w)"
proof -
  obtain g st1 w1 where g: "accept_gate spec env ri (TrimSpace content) ev st w = (g, st1, w1)" by (metis prod_cases3)
  have ok: "gate_ok w (g, st1, w1)" using accept_gate_ok[of w] g by metis
  show ?thesis
  proof (cases g)
    case None
    then have "open_ext (tw_sink w) (tw_sink w1)" using ok by (simp add: gate_ok_def)
    then show ?thesis
      using None by (auto simp: finalReply_def g Let_def round_ok_def handleDegenerate_def finalizeTurn_def)
  next
    case (Some rr)
    then show ?thesis
      using ok by (auto simp: finalReply_def g Let_def round_ok_def handleDegenerate_def gate_ok_def)
  qed
qed

lemma tool_round_ok: "round_ok (tw_sink w) (toolRound spec env ri iter resp st w)"
proof (cases "ri_calls_ok ri")
  case False
  then show ?thesis by (auto simp: toolRound_def Let_def round_ok_def)
next
  case True
  define calls where "calls = dedupeCalls (en_jsonValid env) (ri_synth ri) 0 (cr_ToolCalls resp)"
  define st1 where "st1 = st\<lparr>ts_toolsRun := ts_toolsRun st @ map tc_Name calls\<rparr>"
  define w1 where "w1 = w\<lparr>tw_rows := AppendAssistantCalls (cr_Content resp) calls (sp_Agent spec) (tw_rows w)\<rparr>"
  obtain rs w2 where d: "dispatchAll spec ri calls w1 = (rs, w2)" by fastforce
  obtain ex st3 w3 where t: "take_results spec env ri iter 0 (zip calls rs) None st1 w2 = (ex, st3, w3)" by (metis prod_cases3)
  have o: "open_ext (tw_sink w) (tw_sink w3)" using dispatch_open[OF d] take_results_sink[OF t] by (simp add: w1_def)
  have e: "toolRound spec env ri iter resp st w =
      (case ex of None \<Rightarrow> (RoundContinue False, st3, w3)
       | Some reply \<Rightarrow>
           let full = TrimSpace reply
           in if full = [] then (RoundExit (exit_with exitToolRequested), st3, releaseSink w3)
              else let text = full @ sideEffectFooter st3
                   in (case finalizeTurn spec ri text text w3 of
                         (delivered, w4) \<Rightarrow>
                           (if delivered then RoundExit \<lparr> te_state = exitToolRequested, te_detail = text, te_rejected = [] \<rparr>
                            else RoundErr Undelivered, st3, w4)))"
    using True d t by (simp add: toolRound_def Let_def calls_def[symmetric] st1_def[symmetric] w1_def[symmetric] split: option.split)
  show ?thesis unfolding e using o by (cases ex) (auto simp: Let_def round_ok_def finalizeTurn_def)
qed

lemma model_failed_ok: "round_ok (tw_sink w) (model_failed spec env ri dg ans shown st w)"
  by (auto simp: model_failed_def Let_def round_ok_def handleDegenerate_def handleBloat_def cancelled_closed partial_closed)

lemma model_answered_ok:
  assumes "tw_sink w = ws_sink ws"
  shows "round_ok (tw_sink w) (model_answered spec env ri iter ev wm resp ws st w)"
proof -
  define w1 where "w1 = (set_layer bloatLayer NoText w)\<lparr>tw_gauges := recordPromptFloor (sp_Sid spec) (cr_InputTokens resp) (tw_gauges w)\<rparr>"
  have s1: "tw_sink w1 = tw_sink w" by (simp add: w1_def)
  define held where "held \<longleftrightarrow> wm_streamLive wm \<and> \<not> sp_bareProduct spec \<and> \<not> ws_markupSeen ws \<and> 0 < ws_sent ws \<and> ws_sent ws < length (cr_Content resp)"
  define ws1 where "ws1 = (if held then (forward wm (drop (ws_sent ws) (cr_Content resp)) ws)\<lparr>ws_shownPartial := cr_Content resp\<rparr> else ws)"
  have o: "open_ext (tw_sink w) (ws_sink ws1)" using assms by (simp add: ws1_def forward_open)
  have fin: "round_ok (ws_sink ws1) (finalReply spec env ri c ev b st2 (w1\<lparr>tw_sink := ws_sink ws1\<rparr>))" for c b st2
    using final_reply_ok[of "w1\<lparr>tw_sink := ws_sink ws1\<rparr>" spec env ri c ev b st2] by simp
  have tool: "round_ok (tw_sink w) (toolRound spec env ri iter resp st2 w1)" for st2
    using tool_round_ok[of w1 spec env ri iter resp st2] s1 by simp
  show ?thesis
    unfolding model_answered_def Let_def w1_def[symmetric] held_def[symmetric] ws1_def[symmetric]
    using tool round_ok_from[OF o fin] by simp
qed

lemma stream_ended_ok: "open_ext (tw_sink w) (ws_sink ws) \<Longrightarrow> round_ok (tw_sink w) (stream_ended spec env ri iter ev wm dg ans ws st w)"
proof -
  assume o: "open_ext (tw_sink w) (ws_sink ws)"
  define tail where "tail = (case (dg, ans) of (False, Response resp) \<Rightarrow> cr_Reasoning resp | _ \<Rightarrow> ws_thinkAll ws)"
  define ws1 where "ws1 = (if tail \<noteq> [] then flushThinking wm tail True ws else ws)"
  define w1 where "w1 = w\<lparr>tw_sink := ws_sink ws1\<rparr>"
  have o1: "open_ext (tw_sink w) (tw_sink w1)" using o open_trans[OF o flush_open] by (simp add: ws1_def w1_def)
  have a: "round_ok (tw_sink w1) (model_answered spec env ri iter ev wm resp ws1 st2 w1)" for resp st2
    by (rule model_answered_ok) (simp add: w1_def)
  show ?thesis
    unfolding stream_ended_def Let_def tail_def[symmetric] ws1_def[symmetric] w1_def[symmetric]
    using round_ok_from[OF o1 a] round_ok_from[OF o1 model_failed_ok] by (simp split: bool.split pool_answer.split)
qed

lemma run_round_ok: "round_ok (tw_sink w) (runRound spec env ri iter replay st w)"
proof -
  define h where "h = (case replay of Some r \<Rightarrow> Some r | None \<Rightarrow> if ri_read_ok ri then Some (GetReplay historyReplayCap (tw_rows w)) else None)"
  show ?thesis
  proof (cases h)
    case None
    then show ?thesis by (auto simp: runRound_def h_def[symmetric] round_ok_def)
  next
    case (Some history)
    define w1 where "w1 = (if sp_IsSub spec then w else w\<lparr>tw_gauges := recordCtxRows (sp_Sid spec) (int (length history)) (tw_gauges w)\<rparr>)"
    have s1: "tw_sink w1 = tw_sink w" by (simp add: w1_def)
    have *: "round_ok (tw_sink w) (case run_stream (round_mode spec st) events (new_watch (tw_sink w1) (ts_sunk st)) of
         (dg, ws) \<Rightarrow> stream_ended spec env ri iter ev (round_mode spec st) dg answer ws st w1)" for events ev answer
    proof -
      obtain dg ws where r: "run_stream (round_mode spec st) events (new_watch (tw_sink w1) (ts_sunk st)) = (dg, ws)" by fastforce
      have "open_ext (tw_sink w1) (ws_sink ws)" using run_stream_open[OF r] by (simp add: new_watch_def)
      from stream_ended_ok[OF this, unfolded s1] show ?thesis unfolding r by simp
    qed
    show ?thesis using Some * by (simp add: runRound_def h_def[symmetric] Let_def w1_def[symmetric] split: prod.split)
  qed
qed

subsection \<open>Redos are bounded\<close>

definition resets_left :: "turn_state \<Rightarrow> nat" where
  "resets_left st = (maxRubricRetries - ts_rubricRetries st) + (maxReviewRetries - ts_reviewRetries st)"

definition spends :: "turn_state \<Rightarrow> round_result \<times> turn_state \<times> turn_world \<Rightarrow> bool" where
  "spends st out = (case out of (rr, st', w') \<Rightarrow>
     resets_left st' \<le> resets_left st \<and> (rr = RoundContinue True \<longrightarrow> resets_left st' < resets_left st))"

lemma same_retries: "ts_rubricRetries a = ts_rubricRetries b \<Longrightarrow> ts_reviewRetries a = ts_reviewRetries b \<Longrightarrow> resets_left a = resets_left b"
  by (simp add: resets_left_def)

lemma note_side_effect_retries [simp]:
  "ts_rubricRetries (note_side_effect tools c r st) = ts_rubricRetries st" "ts_reviewRetries (note_side_effect tools c r st) = ts_reviewRetries st"
  by (simp_all add: note_side_effect_def)

lemma note_produced_retries [simp]:
  "ts_rubricRetries (note_produced tools c r st) = ts_rubricRetries st" "ts_reviewRetries (note_produced tools c r st) = ts_reviewRetries st"
  by (simp_all add: note_produced_def)

lemma note_progress_retries [simp]:
  "ts_rubricRetries (note_progress i tools c r st) = ts_rubricRetries st" "ts_reviewRetries (note_progress i tools c r st) = ts_reviewRetries st"
  by (simp_all add: note_progress_def Let_def)

lemma trip_if_retries [simp]:
  "ts_rubricRetries (trip_if b st) = ts_rubricRetries st" "ts_reviewRetries (trip_if b st) = ts_reviewRetries st"
  by (simp_all add: trip_if_def)

lemma record_retries [simp]:
  "ts_rubricRetries (recordToolOutcome tools iter c r st) = ts_rubricRetries st"
  "ts_reviewRetries (recordToolOutcome tools iter c r st) = ts_reviewRetries st"
  by (simp_all add: recordToolOutcome_def note_success_def note_failure_def Let_def)

lemma arm_retries [simp]:
  "ts_rubricRetries (armRubricOnSkillView spec env c r st) = ts_rubricRetries st"
  "ts_reviewRetries (armRubricOnSkillView spec env c r st) = ts_reviewRetries st"
  by (auto simp: armRubricOnSkillView_def armRubric_def split: option.splits)

lemma take_results_retries:
  "take_results spec env ri iter i rs ex st w = (ex', st', w') \<Longrightarrow> resets_left st' = resets_left st"
proof (induction rs arbitrary: i ex st w)
  case (Cons p rs)
  obtain c r where p: "p = (c, r)" by (cases p)
  show ?case using Cons.IH Cons.prems by (fastforce simp: p intro: same_retries)
qed simp

lemma arbiter_retries:
  "arbiterSecondOpinion spec env ri st w = (v, st', w') \<Longrightarrow> ts_rubricRetries st' = ts_rubricRetries st \<and> ts_reviewRetries st' = ts_reviewRetries st"
  by (auto simp: arbiterSecondOpinion_def Let_def split: if_splits option.splits)

lemma judge_retries:
  "judgeWithEscalation spec env ri out ev st w = (v, st', w') \<Longrightarrow> ts_rubricRetries st' = ts_rubricRetries st \<and> ts_reviewRetries st' = ts_reviewRetries st"
  by (auto simp: judgeWithEscalation_def dest: arbiter_retries split: prod.splits if_splits option.splits)

definition gate_spends :: "turn_state \<Rightarrow> round_result option \<times> turn_state \<times> turn_world \<Rightarrow> bool" where
  "gate_spends st out = (case out of (g, st', w') \<Rightarrow>
     resets_left st' \<le> resets_left st \<and> (g = Some (RoundContinue True) \<longrightarrow> resets_left st' < resets_left st))"

lemma rubric_gate_spends: "gate_spends st (rubricGate spec env ri out ev st w)"
proof -
  obtain blocked judged reasons st1 w1 where j: "judgeWithEscalation spec env ri out ev st w = ((blocked, judged, reasons), st1, w1)"
    by (metis prod_cases3)
  show ?thesis
    using judge_retries[OF j]
    by (auto simp: rubricGate_def j gate_spends_def Let_def finalizeTurn_def resets_left_def)
qed

lemma review_gate_spends: "gate_spends st (advisorReviewGate spec env ri out st w)"
  by (auto simp: advisorReviewGate_def gate_spends_def Let_def resets_left_def split: option.splits)

lemma accept_gate_spends: "gate_spends st (accept_gate spec env ri out ev st w)"
  by (simp add: accept_gate_def rubric_gate_spends review_gate_spends)

lemma final_reply_spends: "spends st (finalReply spec env ri content ev streamed st w)"
proof -
  obtain g st1 w1 where g: "accept_gate spec env ri (TrimSpace content) ev st w = (g, st1, w1)" by (metis prod_cases3)
  have "gate_spends st (g, st1, w1)" using accept_gate_spends[of st] g by metis
  then show ?thesis
    by (auto simp: finalReply_def g Let_def spends_def gate_spends_def handleDegenerate_def finalizeTurn_def resets_left_def split: option.split)
qed

lemma tool_round_spends: "spends st (toolRound spec env ri iter resp st w)"
proof -
  define calls where "calls = dedupeCalls (en_jsonValid env) (ri_synth ri) 0 (cr_ToolCalls resp)"
  define st1 where "st1 = st\<lparr>ts_toolsRun := ts_toolsRun st @ map tc_Name calls\<rparr>"
  define w1 where "w1 = w\<lparr>tw_rows := AppendAssistantCalls (cr_Content resp) calls (sp_Agent spec) (tw_rows w)\<rparr>"
  obtain rs w2 where d: "dispatchAll spec ri calls w1 = (rs, w2)" by fastforce
  obtain ex st3 w3 where t: "take_results spec env ri iter 0 (zip calls rs) None st1 w2 = (ex, st3, w3)" by (metis prod_cases3)
  have "resets_left st1 = resets_left st" by (simp add: st1_def resets_left_def)
  then show ?thesis
    using take_results_retries[OF t] d t
    by (auto simp: toolRound_def Let_def calls_def[symmetric] st1_def[symmetric] w1_def[symmetric] spends_def finalizeTurn_def split: option.split)
qed

lemma spends_from: "resets_left a = resets_left b \<Longrightarrow> spends a out \<Longrightarrow> spends b out"
  by (simp add: spends_def)

lemma model_failed_spends: "spends st (model_failed spec env ri dg ans shown st w)"
  by (simp add: model_failed_def Let_def spends_def handleDegenerate_def handleBloat_def resets_left_def)

lemma model_answered_spends: "spends st (model_answered spec env ri iter ev wm resp ws st w)"
proof -
  have r: "resets_left (st\<lparr>ts_usageIn := a, ts_usageOut := b\<rparr>) = resets_left st"
    "resets_left (st\<lparr>ts_usageIn := a, ts_usageOut := b, ts_sunk := s\<rparr>) = resets_left st" for a b s
    by (simp_all add: resets_left_def)
  show ?thesis
    unfolding model_answered_def Let_def
    using spends_from[OF r(1) tool_round_spends] spends_from[OF r(2) final_reply_spends] by simp
qed

lemma run_round_spends: "spends st (runRound spec env ri iter replay st w)"
proof -
  have r: "resets_left (st\<lparr>ts_sunk := s\<rparr>) = resets_left st" for s by (simp add: resets_left_def)
  have e: "spends st (stream_ended spec env ri iter ev wm dg ans ws st w1)" for ev wm dg ans ws w1
    unfolding stream_ended_def Let_def
    using spends_from[OF r model_answered_spends] spends_from[OF r model_failed_spends] by (simp split: bool.split pool_answer.split)
  have z: "spends st (rr, st, w2)" if "rr \<noteq> RoundContinue True" for rr w2 using that by (simp add: spends_def)
  show ?thesis
    unfolding runRound_def Let_def using e z by (simp split: option.split prod.split)
qed

subsection \<open>What a round leaves behind\<close>

text \<open>The row that records the result of the call at position \<open>i\<close>.\<close>

definition result_row :: "turn_spec \<Rightarrow> turn_env \<Rightarrow> round_input \<Rightarrow> nat \<times> tool_call \<Rightarrow> chat_message" where
  "result_row spec env ri p =
     zero_message\<lparr>ms_Role := ''tool'', ms_ToolCallID := tc_ID (snd p), ms_ToolName := tc_Name (snd p), ms_RowKind := RowKindMsg,
       ms_Content := pipeline_content spec env ri (snd p) (dispatch_one spec ri (fst p) (snd p)),
       ms_Author := \<lparr> au_Kind = ''tool'', au_ID = [], au_Name = tc_Name (snd p) \<rparr>\<rparr>"

lemma pipeline_content_nonempty [simp]: "pipeline_content spec env ri call res \<noteq> []"
  by (simp add: pipeline_content_def Let_def)

lemma take_results_rows:
  assumes "\<And>k. append_retry (ri_row ri k)"
    and "take_results spec env ri iter i (zip calls (map (\<lambda>(i, call). dispatch_one spec ri i call) (enumerate i calls))) ex st w = (ex', st', w')"
  shows "tw_rows w' = tw_rows w @ map (result_row spec env ri) (enumerate i calls)"
  using assms(2)
proof (induction calls arbitrary: i ex st w)
  case (Cons c calls)
  let ?r = "dispatch_one spec ri i c"
  have "tw_rows (pipelineAndPersist spec env ri i c ?r w) = tw_rows w @ [result_row spec env ri (i, c)]"
    using assms(1)[of i] by (simp add: pipelineAndPersist_def AppendToolResult_def result_row_def)
  then show ?case using Cons.IH[of "Suc i"] Cons.prems by simp
qed simp

lemma dispatch_results:
  "dispatchAll spec ri calls w = (rs, w') \<Longrightarrow>
     rs = map (\<lambda>(i, call). dispatch_one spec ri i call) (enumerate 0 calls) \<and> tw_rows w' = tw_rows w"
proof -
  have t: "tw_rows (trace_all ls v) = tw_rows v" for ls v
    by (induction ls arbitrary: v) (simp_all add: trace_def sink_call_def)
  show "dispatchAll spec ri calls w = (rs, w') \<Longrightarrow>
     rs = map (\<lambda>(i, call). dispatch_one spec ri i call) (enumerate 0 calls) \<and> tw_rows w' = tw_rows w"
    by (auto simp: dispatchAll_def Let_def t)
qed

text \<open>The calls of a response as a strict server takes them; see \<open>dedupe_is_reference\<close>.\<close>

definition round_calls :: "turn_env \<Rightarrow> round_input \<Rightarrow> chat_response \<Rightarrow> tool_call list" where
  "round_calls env ri resp =
     (let named = with_ids (ri_synth ri) 0 (cr_ToolCalls resp)
      in map (clean_args (en_jsonValid env)) (nths named (first_of_id named)))"


definition round_demo_spec :: turn_spec where
  "round_demo_spec = \<lparr> sp_Sid = ''s'', sp_Scope = ''tg:dm:1'', sp_UserText = ''hi'', sp_UserMsgs = [], sp_Agent = no_author,
     sp_Prefer = [], sp_Tools = Some [], sp_Skills = None, sp_hasSink = True, sp_IterCap = 0, sp_Looping = False,
     sp_IsSub = False, sp_History = False, sp_bareProduct = False, sp_silentPartial = False \<rparr>"

definition round_demo_env :: turn_env where
  "round_demo_env = \<lparr> en_text = (\<lambda>k. k), en_build = (\<lambda>_. []), en_readbackNote = [], en_jsonValid = (\<lambda>_. True),
     en_scrub = (\<lambda>s. s), en_envelope = tr_Error, en_verdict = (\<lambda>_. None), en_skillName = (\<lambda>_. None) \<rparr>"

definition round_demo_response :: chat_response where
  "round_demo_response = \<lparr> cr_Content = [], cr_Reasoning = [], cr_ToolCalls = [demo_call ''a'', demo_call ''b''],
     cr_InputTokens = 10, cr_OutputTokens = 2 \<rparr>"

definition demo_sub :: sub_result where
  "demo_sub = \<lparr> sr_Err = True, sr_Product = [], sr_Partial = False \<rparr>"

definition round_demo_input :: round_input where
  "round_demo_input = \<lparr> ri_synth = (\<lambda>_. ''x''), ri_read_ok = True, ri_cancelled_read = False,
     ri_pool = (\<lambda>_ _ _. ([], Response round_demo_response)), ri_cancelled_stream = False, ri_persist_ok = True,
     ri_calls_ok = True, ri_finish_ok = True, ri_skip = (\<lambda>_. False), ri_tool = (\<lambda>_ _. Panicked),
     ri_row = (\<lambda>_. \<lparr> rw_first = None, rw_cancelled = False, rw_second = None \<rparr>), ri_compress = (\<lambda>_. None),
     ri_judge = (\<lambda>_ _. None), ri_evidence_ok = True, ri_arbiter = demo_sub, ri_review = demo_sub \<rparr>"

definition round_demo_world :: turn_world where
  "round_demo_world = \<lparr> tw_rows = [], tw_sink = [], tw_layers = None, tw_gauges = [] \<rparr>"


text \<open>What the pool answered in a round, asked with the transcript, the tools and the preferences of its state.\<close>

definition round_answer :: "turn_spec \<Rightarrow> turn_env \<Rightarrow> round_input \<Rightarrow> chat_message list option \<Rightarrow> turn_state \<Rightarrow> turn_world
    \<Rightarrow> ((stream_event \<times> accumulated) list \<times> pool_answer) option" where
  "round_answer spec env ri replay st w =
     map_option (\<lambda>history.
         ri_pool ri (sp_Tools spec \<noteq> None \<and> \<not> ts_stripTools st)
           (if sp_Tools spec \<noteq> None \<and> \<not> ts_stripTools st then routeToolRound (sp_Prefer spec) st else sp_Prefer spec)
           (buildMessages (en_build env (tw_layers w)) (sp_Scope spec) (\<not> sp_IsSub spec \<and> sp_History spec) (en_readbackNote env) history))
       (case replay of Some r \<Rightarrow> Some r | None \<Rightarrow> if ri_read_ok ri then Some (GetReplay historyReplayCap (tw_rows w)) else None)"

text \<open>
  What a round that ends with the reply \<open>t\<close> has done, in terms of the state and the rows it started from:
  the model answered with a text and no calls, the text is neither blank nor a repetition wall, the gate that
  was armed let it pass, it went under the honest footers into the store and out to the sink (behind what
  the sink had been streamed already), and the sink took it.
\<close>

definition reply_ok :: "turn_spec \<Rightarrow> turn_env \<Rightarrow> round_input \<Rightarrow> chat_message list option \<Rightarrow> turn_state \<Rightarrow> turn_world \<Rightarrow> string
    \<Rightarrow> turn_state \<Rightarrow> turn_world \<Rightarrow> bool" where
  "reply_ok spec env ri replay st w t st' w' \<longleftrightarrow>
     ri_finish_ok ri
     \<and> (\<exists>events resp. round_answer spec env ri replay st w = Some (events, Response resp) \<and> cr_ToolCalls resp = []
          \<and> TrimSpace (cr_Content resp) \<noteq> [] \<and> \<not> isDegenerate (TrimSpace (cr_Content resp))
          \<and> (if ts_rubricArmed st \<noteq> []
             then \<not> fst (fst (judgeWithEscalation spec env ri (TrimSpace (cr_Content resp)) replay st w))
             else fst (advisorReviewGate spec env ri (TrimSpace (cr_Content resp)) st w) = None)
          \<and> t = TrimSpace (cr_Content resp) @ sideEffectFooter st' @ advisorConcernFooter st')
     \<and> (last (tw_sink w') = Finish t
        \<or> ts_sunk st' \<noteq> [] \<and> last (tw_sink w') = Finish (ts_sunk st' @ sideEffectFooter st' @ advisorConcernFooter st'))
     \<and> tw_rows w' = (if ri_persist_ok ri then AppendMessage ''assistant'' t (sp_Agent spec) (tw_rows w) else tw_rows w)"

lemma gate_no_final: "accept_gate spec env ri out ev st w = (Some rr, st1, w1) \<Longrightarrow> \<exists>b e x. rr \<in> {RoundContinue b, RoundExit e, RoundErr x}"
  by (auto simp: accept_gate_def rubricGate_def advisorReviewGate_def Let_def split: prod.splits if_splits option.splits)

text \<open>The gates read the rows and the armed flags, not the counters, the sink or the gauges.\<close>

definition same_gate :: "turn_state \<Rightarrow> turn_world \<Rightarrow> turn_state \<Rightarrow> turn_world \<Rightarrow> bool" where
  "same_gate st w st' w' \<longleftrightarrow> tw_rows w' = tw_rows w \<and> ts_rubricArmed st' = ts_rubricArmed st \<and> ts_arbiterUsed st' = ts_arbiterUsed st
     \<and> ts_advisorArmed st' = ts_advisorArmed st \<and> ts_produced st' = ts_produced st \<and> ts_reviewRetries st' = ts_reviewRetries st"

lemma evidence_rows: "tw_rows w' = tw_rows w \<Longrightarrow> rubricEvidence spec ri ev w' = rubricEvidence spec ri ev w"
  unfolding rubricEvidence_def by (simp only:)

lemma judge_same:
  assumes "same_gate st w st' w'"
  shows "fst (judgeWithEscalation spec env ri out ev st' w') = fst (judgeWithEscalation spec env ri out ev st w)"
proof -
  have j: "judgeRubric spec env ri out ev w' = judgeRubric spec env ri out ev w"
    using assms by (simp add: judgeRubric_def evidence_rows[of w' w] same_gate_def)
  have a: "fst (arbiterSecondOpinion spec env ri st' w') = fst (arbiterSecondOpinion spec env ri st w)"
    using assms by (simp add: arbiterSecondOpinion_def Let_def same_gate_def split: option.split)
  obtain v s1 u1 where 1: "arbiterSecondOpinion spec env ri st' w' = (v, s1, u1)" by (metis prod_cases3)
  obtain s2 u2 where 2: "arbiterSecondOpinion spec env ri st w = (v, s2, u2)" using a 1 by (metis eq_fst_iff prod_cases3)
  show ?thesis unfolding judgeWithEscalation_def j 1 2 by (simp split: prod.split option.split)
qed

lemma review_same:
  assumes "same_gate st w st' w'"
  shows "fst (advisorReviewGate spec env ri out st' w') = fst (advisorReviewGate spec env ri out st w)"
  using assms by (simp add: advisorReviewGate_def Let_def same_gate_def split: option.split)

lemma set_layer_rows [simp]: "tw_rows (set_layer l t w) = tw_rows w" "tw_rows (trace x w) = tw_rows w"
  by (simp_all add: set_layer_def trace_def sink_call_def)

lemma gate_rows:
  assumes "accept_gate spec env ri out ev st w = (None, st1, w1)" shows "tw_rows w1 = tw_rows w"
proof -
  have a: "tw_rows u = tw_rows w" if "arbiterSecondOpinion spec env ri st w = (v, s, u)" for v s u
    using that by (auto simp: arbiterSecondOpinion_def Let_def split: if_splits option.splits)
  have "tw_rows u = tw_rows w" if "judgeWithEscalation spec env ri out ev st w = (v, s, u)" for v s u
    using that by (auto simp: judgeWithEscalation_def dest: a split: prod.splits if_splits option.splits)
  then show ?thesis using assms
    by (fastforce simp: accept_gate_def rubricGate_def advisorReviewGate_def Let_def split: prod.splits if_splits option.splits)
qed

lemma gate_passed:
  assumes "accept_gate spec env ri out ev st w = (None, st1, w1)"
  shows "if ts_rubricArmed st \<noteq> [] then \<not> fst (fst (judgeWithEscalation spec env ri out ev st w))
         else fst (advisorReviewGate spec env ri out st w) = None"
  using assms by (auto simp: accept_gate_def rubricGate_def Let_def split: prod.splits if_splits)

lemma final_reply_reply:
  assumes "finalReply spec env ri content ev streamed st w = (RoundFinal t, st', w')"
  defines "full \<equiv> TrimSpace content" and "foot \<equiv> sideEffectFooter st' @ advisorConcernFooter st'"
  shows "ri_finish_ok ri \<and> full \<noteq> [] \<and> \<not> isDegenerate full \<and> t = full @ foot
    \<and> (if ts_rubricArmed st \<noteq> [] then \<not> fst (fst (judgeWithEscalation spec env ri full ev st w))
       else fst (advisorReviewGate spec env ri full st w) = None)
    \<and> (last (tw_sink w') = Finish t \<or> ts_sunk st' \<noteq> [] \<and> last (tw_sink w') = Finish (ts_sunk st' @ foot))
    \<and> tw_rows w' = (if ri_persist_ok ri then AppendMessage ''assistant'' t (sp_Agent spec) (tw_rows w) else tw_rows w)"
proof -
  obtain g st1 w1 where g: "accept_gate spec env ri full ev st w = (g, st1, w1)" by (metis prod_cases3)
  have ok: "full \<noteq> []" "\<not> isDegenerate full"
    using assms(1) by (auto simp: finalReply_def Let_def full_def handleDegenerate_def split: if_splits)
  have gn: "g = None"
    using assms(1) ok g gate_no_final[of spec env ri full ev st w _ st1 w1]
    by (cases g) (auto simp: finalReply_def Let_def full_def[symmetric])
  define fo where "fo = sideEffectFooter st1 @ advisorConcernFooter st1"
  define finish where "finish = (if streamed \<and> ts_sunk st1 \<noteq> [] then ts_sunk st1 @ fo else full @ fo)"
  have e: "(case finalizeTurn spec ri (full @ fo) finish w1 of
      (delivered, w2) \<Rightarrow> (if delivered then RoundFinal (full @ fo) else RoundErr Undelivered, st1, w2)) = (RoundFinal t, st', w')"
    using assms(1) unfolding finalReply_def Let_def full_def[symmetric] fo_def finish_def using ok g gn by simp
  obtain d w2 where z: "finalizeTurn spec ri (full @ fo) finish w1 = (d, w2)" by fastforce
  have q: "d" "t = full @ fo" "st' = st1" "w' = w2" using e z by (auto split: if_splits)
  have s: "last (tw_sink w2) = Finish finish" "d = ri_finish_ok ri" using finalize_eq[OF z] by auto
  have rows: "tw_rows w2 = (if ri_persist_ok ri then AppendMessage ''assistant'' (full @ fo) (sp_Agent spec) (tw_rows w1) else tw_rows w1)"
    using z by (auto simp: finalizeTurn_def Let_def sink_call_def)
  have r1: "tw_rows w1 = tw_rows w" and p: "if ts_rubricArmed st \<noteq> [] then \<not> fst (fst (judgeWithEscalation spec env ri full ev st w))
      else fst (advisorReviewGate spec env ri full st w) = None"
    using gate_rows gate_passed g gn by metis+
  have f: "foot = fo" by (simp add: foot_def fo_def q(3))
  have "last (tw_sink w') = Finish t \<or> ts_sunk st' \<noteq> [] \<and> last (tw_sink w') = Finish (ts_sunk st' @ foot)"
    using s(1) q f by (simp add: finish_def)
  then show ?thesis using ok p q s(2) rows r1 f by simp
qed

lemma tool_round_no_final: "toolRound spec env ri iter resp st w \<noteq> (RoundFinal t, st', w')"
  by (auto simp: toolRound_def Let_def split: prod.splits option.splits if_splits)

lemma model_failed_no_final: "model_failed spec env ri dg ans shown st w \<noteq> (RoundFinal t, st', w')"
  by (simp add: model_failed_def Let_def handleDegenerate_def handleBloat_def)

lemma answered_reply:
  assumes "model_answered spec env ri iter ev wm resp ws st w = (RoundFinal t, st', w')"
    and "ev = (if ts_rubricArmed st \<noteq> [] then replay else None)"
    and "same_gate st0 w0 st w" and "round_answer spec env ri replay st0 w0 = Some (events, Response resp)"
  shows "reply_ok spec env ri replay st0 w0 t st' w'"
proof -
  have n: "cr_ToolCalls resp = []"
    using assms(1) tool_round_no_final by (auto simp: model_answered_def Let_def split: if_splits)
  obtain streamed st1 w1 where f: "finalReply spec env ri (cr_Content resp) ev streamed st1 w1 = (RoundFinal t, st', w')"
    and s: "same_gate st w st1 w1"
    using assms(1) n unfolding model_answered_def Let_def by (force simp: same_gate_def)
  have sg: "same_gate st0 w0 st1 w1" using assms(3) s by (simp add: same_gate_def)
  have a: "ts_rubricArmed st1 = ts_rubricArmed st0" "ts_rubricArmed st = ts_rubricArmed st0" "tw_rows w1 = tw_rows w0"
    using sg assms(3) by (simp_all add: same_gate_def)
  show ?thesis
    using final_reply_reply[OF f] assms(2,4) n judge_same[OF sg] review_same[OF sg]
    unfolding reply_ok_def a by (auto split: if_splits)
qed

text \<open>A round that ends with a reply did so by the book.\<close>

lemma run_round_reply:
  assumes "runRound spec env ri iter replay st w = (RoundFinal t, st', w')"
  shows "reply_ok spec env ri replay st w t st' w'"
proof -
  let ?h = "case replay of Some r \<Rightarrow> Some r | None \<Rightarrow> if ri_read_ok ri then Some (GetReplay historyReplayCap (tw_rows w)) else None"
  obtain history where h: "?h = Some history"
    using assms by (cases ?h) (simp_all add: runRound_def split: if_splits)
  define w1 where "w1 = (if sp_IsSub spec then w else w\<lparr>tw_gauges := recordCtxRows (sp_Sid spec) (int (length history)) (tw_gauges w)\<rparr>)"
  have w1: "tw_rows w1 = tw_rows w" "tw_layers w1 = tw_layers w" by (simp_all add: w1_def)
  define wm where "wm = round_mode spec st"
  define ev where "ev = (if ts_rubricArmed st \<noteq> [] then replay else None)"
  obtain events answer where an: "round_answer spec env ri replay st w = Some (events, answer)"
    using h by (cases "round_answer spec env ri replay st w") (auto simp: round_answer_def)
  obtain dg ws where rs: "run_stream wm events (new_watch (tw_sink w1) (ts_sunk st)) = (dg, ws)" by fastforce
  have "runRound spec env ri iter replay st w = (case the (round_answer spec env ri replay st w) of (events, answer) \<Rightarrow>
      (case run_stream wm events (new_watch (tw_sink w1) (ts_sunk st)) of
         (degenerate, ws) \<Rightarrow> stream_ended spec env ri iter ev wm degenerate answer ws st w1))"
    unfolding runRound_def round_answer_def h Let_def w1_def wm_def ev_def option.map option.sel option.case by (rule refl)
  then have e: "stream_ended spec env ri iter ev wm dg answer ws st w1 = (RoundFinal t, st', w')"
    using assms an rs by simp
  then obtain resp where r: "\<not> dg" "answer = Response resp"
    using model_failed_no_final unfolding stream_ended_def Let_def by (cases dg; cases answer) (auto split: if_splits)
  obtain ws1 st1 w2 where m: "model_answered spec env ri iter ev wm resp ws1 st1 w2 = (RoundFinal t, st', w')" and s: "same_gate st w st1 w2"
    using e r w1 unfolding stream_ended_def Let_def by (force simp: same_gate_def)
  show ?thesis
    by (rule answered_reply[OF m _ s]) (use an r s in \<open>simp_all add: ev_def same_gate_def\<close>)
qed

end
