(* ===== verification/Turn_Driver.thy ===== *)
theory Turn_Driver
  imports Turn_Round
begin

section \<open>The drivers of a turn\<close>

text \<open>
  \<^verbatim>\<open>Run\<close> of \<^verbatim>\<open>src/leaf/turn/10-core.go\<close> with the two loops it drives (\<^verbatim>\<open>12-driver-regular.go\<close>,
  \<^verbatim>\<open>14-driver-looping.go\<close>), the message that arrives on the way (\<^verbatim>\<open>80-nudge.go\<close>), the stall diagnosis and the
  read-back of the log (\<^verbatim>\<open>16-looping-tools.go\<close>), the salvage ladder (\<^verbatim>\<open>50-salvage.go\<close>) and the sub-turn
  (\<^verbatim>\<open>95-subloop.go\<close>). Each iteration has its input; the loop is a total function, because only an acceptance
  gate can extend it. A panic that escapes the round, which the source answers with a notice of its own,
  is not in the model.
\<close>

datatype turn_error = NilSink | CtxErr | PersistUser | InRound round_error | SalvageUndelivered

record turn_result =
  rs_Reply :: string
  rs_InputTokens :: int
  rs_OutputTokens :: int
  rs_Err :: "turn_error option"
  rs_Outcome :: turn_outcome
  rs_RejectedProduct :: string

record loop_input =
  li_cancelled :: bool
  li_compact :: compact_env
  li_budget :: int
  li_toolTexts :: "(string \<times> string \<times> string) list"
  li_nudge :: "(string \<times> msg_author) option"
  li_nudge_ok :: bool
  li_advice :: sub_result
  li_round :: round_input
  li_cancelled_err :: bool

record salvage_input =
  si_chat :: "string list \<Rightarrow> chat_message list \<Rightarrow> string option"
  si_round :: round_input

record run_input =
  ru_user_ok :: bool
  ru_cancelled_user :: bool
  ru_loop :: "nat \<Rightarrow> loop_input"
  ru_salvage :: salvage_input

subsection \<open>The top of the loop\<close>

definition history_flags :: tool_flags where
  "history_flags = \<lparr> tf_Delivers = False, tf_SideEffect = False, tf_NoAutoCompress = True, tf_Serialize = False \<rparr>"

definition withTool :: "string \<Rightarrow> tool_flags \<Rightarrow> tool_set \<Rightarrow> tool_set" where
  "withTool name flags base =
     (let tools = (case base of None \<Rightarrow> [] | Some ts \<Rightarrow> ts)
      in Some (if ghas tools name then tools else tools @ [(name, flags)]))"

definition maybeArmHistoryTool :: "chat_message list option \<Rightarrow> turn_spec \<Rightarrow> turn_spec" where
  "maybeArmHistoryTool replay spec =
     (case replay of
        Some (m # ms) \<Rightarrow>
          if \<not> sp_IsSub spec \<and> \<not> sp_History spec \<and> ms_RowKind m = RowKindSummary
          then spec\<lparr>sp_History := True, sp_Tools := withTool ''read_conversation_log'' history_flags (sp_Tools spec)\<rparr>
          else spec
      | _ \<Rightarrow> spec)"

definition userNudgeMark :: string where
  "userNudgeMark =
     ''['' @ [CHR 0xE5, CHR 0xB7, CHR 0xA5, CHR 0xE4, CHR 0xBD, CHR 0x9C, CHR 0xE9, CHR 0x80, CHR 0x94, CHR 0xE4,
     CHR 0xB8, CHR 0xAD, CHR 0xE8, CHR 0xBF, CHR 0xBD, CHR 0xE5, CHR 0x8A, CHR 0xA0] @ ''] ''"

definition foldUserNudge :: "loop_input \<Rightarrow> chat_message list option \<Rightarrow> turn_spec \<Rightarrow> turn_state \<Rightarrow> turn_world
    \<Rightarrow> chat_message list option \<times> turn_spec \<times> turn_state \<times> turn_world" where
  "foldUserNudge li replay spec st w =
     (case li_nudge li of
        None \<Rightarrow> (replay, spec, st, w)
      | Some (um, author) \<Rightarrow>
          if ts_userNudge st \<noteq> [] \<or> TrimSpace um = [] then (replay, spec, st, w)
          else let text = userNudgeMark @ um;
                   row = zero_message\<lparr>ms_Role := ''user'', ms_Content := text, ms_RowKind := RowKindMsg, ms_Author := author\<rparr>
               in (map_option (\<lambda>r. r @ [row]) replay,
                   spec\<lparr>sp_UserText := TrimSpace (sp_UserText spec @ blank_line @ text)\<rparr>,
                   st\<lparr>ts_userNudge := text\<rparr>,
                   if li_nudge_ok li then w\<lparr>tw_rows := AppendUserMsgs [(text, author)] (tw_rows w)\<rparr> else w))"

definition advisorStale :: int where "advisorStale = 6"
definition maxAdvisorDiagnoses :: nat where "maxAdvisorDiagnoses = 3"
definition maxAdvisorAttempts :: nat where "maxAdvisorAttempts = 5"

definition maybeAdvisorDiagnose :: "loop_input \<Rightarrow> nat \<Rightarrow> turn_spec \<Rightarrow> turn_state \<Rightarrow> turn_world \<Rightarrow> turn_state \<times> turn_world" where
  "maybeAdvisorDiagnose li iter spec st w =
     (if tw_layers w = None \<or> ts_advisorDiagnoses st \<ge> maxAdvisorDiagnoses \<or> ts_advisorAttempts st \<ge> maxAdvisorAttempts
         \<or> staleRounds st iter \<noteq> advisorStale
      then (st, w)
      else let st1 = st\<lparr>ts_advisorAttempts := Suc (ts_advisorAttempts st)\<rparr>;
               out = runAdvisor spec (li_advice li)
           in if out = [] then (st1, w)
              else (st1\<lparr>ts_advisorDiagnoses := Suc (ts_advisorDiagnoses st1)\<rparr>,
                    trace (DiagnosisTrace out) (set_layer advisorNoteLayer (AdvisorNote out) w)))"

subsection \<open>One iteration\<close>

datatype loop_step = Done turn_result turn_state turn_world | Stop turn_state turn_world
  | Again bool turn_spec turn_state turn_world

definition result_of :: "turn_state \<Rightarrow> string \<Rightarrow> turn_error option \<Rightarrow> turn_outcome \<Rightarrow> string \<Rightarrow> turn_result" where
  "result_of st reply err out rejected =
     \<lparr> rs_Reply = reply, rs_InputTokens = ts_usageIn st, rs_OutputTokens = ts_usageOut st, rs_Err = err, rs_Outcome = out,
       rs_RejectedProduct = rejected \<rparr>"

text \<open>What the driver makes of the result of a round.\<close>

definition after_round :: "turn_env \<Rightarrow> loop_input \<Rightarrow> turn_spec \<Rightarrow> round_result \<Rightarrow> turn_state \<Rightarrow> turn_world \<Rightarrow> loop_step" where
  "after_round env li spec rr st w =
     (case rr of
        RoundFinal t \<Rightarrow> Done (result_of st t None OutcomeFinal []) st w
      | RoundExit ex \<Rightarrow> Done (result_of st (te_detail ex) None (outcome (te_state ex)) (te_rejected ex)) st w
      | RoundErr e \<Rightarrow>
          Done (result_of st [] (Some (InRound e)) (if li_cancelled_err li then OutcomeCancelled else OutcomeError) []) st w
      | RoundOversized \<Rightarrow>
          (case forceCompact (li_compact li) (sp_Sid spec) (li_budget li) (tw_rows w, tw_gauges w) of
             (True, rows, g) \<Rightarrow> Again False spec st (w\<lparr>tw_rows := rows, tw_gauges := g\<rparr>)
           | (False, rows, g) \<Rightarrow>
               let notice = en_text env ''system.turn.context_too_long''
               in Done (result_of st [] None OutcomeDegraded []) st
                    (snd (finalizeTurn spec (li_round li) notice notice (w\<lparr>tw_rows := rows, tw_gauges := g\<rparr>))))
      | RoundContinue reset \<Rightarrow> Again reset spec st w)"

definition round_step :: "turn_env \<Rightarrow> loop_input \<Rightarrow> nat \<Rightarrow> chat_message list option \<Rightarrow> turn_spec \<Rightarrow> turn_state \<Rightarrow> turn_world \<Rightarrow> loop_step" where
  "round_step env li iter replay spec st w =
     (case (if sp_Looping spec then maybeAdvisorDiagnose li iter spec st w else (st, w)) of
        (st1, w1) \<Rightarrow>
          (case runRound spec env (li_round li) iter replay st1 w1 of
             (rr, st2, w2) \<Rightarrow> after_round env li spec rr st2 w2))"

definition nudged_step :: "turn_env \<Rightarrow> loop_input \<Rightarrow> nat \<Rightarrow> chat_message list option \<Rightarrow> turn_spec \<Rightarrow> turn_state \<Rightarrow> turn_world \<Rightarrow> loop_step" where
  "nudged_step env li iter replay spec st w =
     (case loopTopNudge st iter (tw_layers w) of
        (Some ex, p) \<Rightarrow> Stop (st\<lparr>ts_exit := Some ex\<rparr>) (w\<lparr>tw_layers := p\<rparr>)
      | (None, p) \<Rightarrow>
          (case foldUserNudge li replay spec st (w\<lparr>tw_layers := p\<rparr>) of
             (replay1, spec1, st1, w1) \<Rightarrow> round_step env li iter replay1 spec1 st1 w1))"

definition loop_body :: "turn_env \<Rightarrow> loop_input \<Rightarrow> nat \<Rightarrow> turn_spec \<Rightarrow> turn_state \<Rightarrow> turn_world \<Rightarrow> loop_step" where
  "loop_body env li iter spec st w =
     (if li_cancelled li then Stop (st\<lparr>ts_exit := Some (exit_with exitCancelled)\<rparr>) w
      else if ts_exit st \<noteq> None then Stop st w
      else case maybeCompressInPlace (li_compact li) (sp_Sid spec) (sp_Scope spec) (li_budget li) (en_build env (tw_layers w))
                  (map_option (\<lambda>_. li_toolTexts li) (sp_Tools spec)) (tw_rows w) (tw_gauges w) of
             (replay, rows, g) \<Rightarrow>
               nudged_step env li iter replay (maybeArmHistoryTool replay spec) st (w\<lparr>tw_rows := rows, tw_gauges := g\<rparr>))"

text \<open>A redo starts the counting of stale rounds again.\<close>

definition fresh_budget :: "nat \<Rightarrow> turn_state \<Rightarrow> turn_state" where
  "fresh_budget iter st =
     st\<lparr>ts_lastProgressIter := int iter, ts_lastProductiveIter := int iter, ts_failedSinceProgress := 0\<rparr>"

lemma fold_nudge_retries: "foldUserNudge li replay spec st w = (r, spec', st', w') \<Longrightarrow> resets_left st' = resets_left st"
  by (auto simp: foldUserNudge_def Let_def resets_left_def split: option.splits if_splits)

lemma diagnose_retries: "maybeAdvisorDiagnose li iter spec st w = (st', w') \<Longrightarrow> resets_left st' = resets_left st"
  by (auto simp: maybeAdvisorDiagnose_def Let_def resets_left_def split: if_splits)

definition step_spends :: "turn_state \<Rightarrow> loop_step \<Rightarrow> bool" where
  "step_spends st step =
     (case step of
        Again reset spec' st' w' \<Rightarrow> resets_left st' \<le> resets_left st \<and> (reset \<longrightarrow> resets_left st' < resets_left st)
      | _ \<Rightarrow> True)"

lemma step_spends_from: "resets_left a = resets_left b \<Longrightarrow> step_spends a s \<Longrightarrow> step_spends b s"
  by (simp add: step_spends_def split: loop_step.splits)

lemma after_round_spends: "spends st (rr, st1, w1) \<Longrightarrow> step_spends st (after_round env li spec rr st1 w1)"
proof (cases rr)
  case RoundOversized
  assume "spends st (rr, st1, w1)"
  then have "resets_left st1 \<le> resets_left st" by (simp add: spends_def)
  moreover obtain b rows g where "forceCompact (li_compact li) (sp_Sid spec) (li_budget li) (tw_rows w1, tw_gauges w1) = (b, rows, g)"
    by (metis prod_cases3)
  ultimately show ?thesis using RoundOversized by (cases b) (simp_all add: after_round_def step_spends_def Let_def)
qed (auto simp: after_round_def step_spends_def spends_def)

lemma round_step_spends: "step_spends st (round_step env li iter replay spec st w)"
proof -
  obtain st1 w1 where d: "(if sp_Looping spec then maybeAdvisorDiagnose li iter spec st w else (st, w)) = (st1, w1)" by fastforce
  obtain rr st2 w2 where r: "runRound spec env (li_round li) iter replay st1 w1 = (rr, st2, w2)" by (metis prod_cases3)
  have "spends st1 (rr, st2, w2)" using run_round_spends[of st1] r by metis
  then have "step_spends st1 (after_round env li spec rr st2 w2)" by (rule after_round_spends)
  moreover have "resets_left st1 = resets_left st" using d diagnose_retries[of li iter spec st w st1 w1] by (auto split: if_splits)
  ultimately have "step_spends st (after_round env li spec rr st2 w2)" using step_spends_from by blast
  then show ?thesis by (simp add: round_step_def d r)
qed

lemma nudged_step_spends: "step_spends st (nudged_step env li iter replay spec st w)"
proof (cases "fst (loopTopNudge st iter (tw_layers w))")
  case (Some ex)
  then show ?thesis by (cases "loopTopNudge st iter (tw_layers w)") (simp add: nudged_step_def step_spends_def)
next
  case None
  then obtain p where n: "loopTopNudge st iter (tw_layers w) = (None, p)" by (cases "loopTopNudge st iter (tw_layers w)") simp
  obtain r1 spec1 st1 w1 where f: "foldUserNudge li replay spec st (w\<lparr>tw_layers := p\<rparr>) = (r1, spec1, st1, w1)" by (metis prod_cases4)
  show ?thesis
    using step_spends_from[OF fold_nudge_retries[OF f] round_step_spends] by (simp add: nudged_step_def n f)
qed

lemma loop_body_spends: "step_spends st (loop_body env li iter spec st w)"
  by (auto simp: loop_body_def nudged_step_spends split: prod.split) (simp_all add: step_spends_def)

subsection \<open>The loops\<close>

function drive :: "turn_env \<Rightarrow> (nat \<Rightarrow> loop_input) \<Rightarrow> nat \<Rightarrow> nat \<Rightarrow> nat \<Rightarrow> turn_spec \<Rightarrow> turn_state \<Rightarrow> turn_world
    \<Rightarrow> turn_result option \<times> turn_state \<times> turn_world" where
  "drive env inp base limit iter spec st w =
     (if limit \<le> iter then (None, st, w)
      else case loop_body env (inp iter) iter spec st w of
             Done res st' w' \<Rightarrow> (Some res, st', w')
           | Stop st' w' \<Rightarrow> (None, st', w')
           | Again reset spec' st' w' \<Rightarrow>
               if reset then drive env inp base (iter + 1 + base) (iter + 1) spec' (fresh_budget iter st') w'
               else drive env inp base limit (iter + 1) spec' st' w')"
  by pat_completeness auto
termination
proof (relation "measures [\<lambda>(env, inp, base, limit, iter, spec, st, w). resets_left st, \<lambda>(env, inp, base, limit, iter, spec, st, w). limit - iter]",
    goal_cases)
  case 1
  then show ?case by simp
next
  case (2 env inp base limit iter spec st w reset spec' st' w')
  then show ?case using loop_body_spends[of st env "inp iter" iter spec w] by (simp add: step_spends_def fresh_budget_def resets_left_def)
next
  case (3 env inp base limit iter spec st w reset spec' st' w')
  then show ?case using loop_body_spends[of st env "inp iter" iter spec w] by (auto simp: step_spends_def)
qed

declare drive.simps [simp del]

definition loopCap :: nat where "loopCap = 40"
definition loopingFuseCap :: nat where "loopingFuseCap = 500"

definition round_limit :: "nat \<Rightarrow> turn_spec \<Rightarrow> nat" where
  "round_limit cap spec = (if sp_IterCap spec > 0 then nat (sp_IterCap spec) else cap)"

definition driveRegular :: "turn_env \<Rightarrow> (nat \<Rightarrow> loop_input) \<Rightarrow> turn_spec \<Rightarrow> turn_state \<Rightarrow> turn_world
    \<Rightarrow> turn_result option \<times> turn_state \<times> turn_world" where
  "driveRegular env inp spec st w =
     (let limit = round_limit loopCap spec in drive env inp limit limit 0 spec st w)"

text \<open>The looping driver wraps the sink, which then takes the product whole and no partial, and arms the advisor.\<close>

definition driveLooping :: "turn_env \<Rightarrow> (nat \<Rightarrow> loop_input) \<Rightarrow> turn_spec \<Rightarrow> turn_state \<Rightarrow> turn_world
    \<Rightarrow> turn_result option \<times> turn_state \<times> turn_world" where
  "driveLooping env inp spec st w =
     (let limit = round_limit loopingFuseCap spec
      in drive env inp limit limit 0 (spec\<lparr>sp_bareProduct := True, sp_silentPartial := True\<rparr>) (st\<lparr>ts_advisorArmed := True\<rparr>) w)"

subsection \<open>Salvage\<close>

definition salvage_base :: string where
  "salvage_base =
     [CHR 0xE7, CHR 0xA6, CHR 0x81, CHR 0xE6, CHR 0xAD, CHR 0xA2, CHR 0xE5, CHR 0x86, CHR 0x8D, CHR 0xE8, CHR 0xB0,
     CHR 0x83, CHR 0xE7, CHR 0x94, CHR 0xA8, CHR 0xE4, CHR 0xBB, CHR 0xBB, CHR 0xE4, CHR 0xBD, CHR 0x95, CHR 0xE5,
     CHR 0xB7, CHR 0xA5, CHR 0xE5, CHR 0x85, CHR 0xB7, CHR 0xE3, CHR 0x80, CHR 0x82, CHR 0xE5, CHR 0x8F, CHR 0xAA,
     CHR 0xE5, CHR 0x9F, CHR 0xBA, CHR 0xE4, CHR 0xBA, CHR 0x8E, CHR 0xE4, CHR 0xB8, CHR 0x8A, CHR 0xE9, CHR 0x9D,
     CHR 0xA2, CHR 0xE5, CHR 0xAF, CHR 0xB9, CHR 0xE8, CHR 0xAF, CHR 0x9D, CHR 0xE9, CHR 0x87, CHR 0x8C, CHR 0xE5,
     CHR 0xB7, CHR 0xB2, CHR 0xE6, CHR 0x9C, CHR 0x89, CHR 0xE7, CHR 0x9A, CHR 0x84, CHR 0xE5, CHR 0xB7, CHR 0xA5,
     CHR 0xE5, CHR 0x85, CHR 0xB7, CHR 0xE7, CHR 0xBB, CHR 0x93, CHR 0xE6, CHR 0x9E, CHR 0x9C, CHR 0xEF, CHR 0xBC,
     CHR 0x8C, CHR 0xE8, CHR 0xAF, CHR 0x9A, CHR 0xE5, CHR 0xAE, CHR 0x9E, CHR 0xE4, CHR 0xBD, CHR 0x9C, CHR 0xE7,
     CHR 0xAD, CHR 0x94, CHR 0xEF, CHR 0xBC, CHR 0x8C, CHR 0xE4, CHR 0xB8, CHR 0x8D, CHR 0xE8, CHR 0xA6, CHR 0x81,
     CHR 0xE7, CHR 0xBC, CHR 0x96, CHR 0xE9, CHR 0x80, CHR 0xA0, CHR 0xE4, CHR 0xBD, CHR 0xA0, CHR 0xE6, CHR 0xB2,
     CHR 0xA1, CHR 0xE6, CHR 0x9C, CHR 0x89, CHR 0xE7, CHR 0x9A, CHR 0x84, CHR 0xE4, CHR 0xBF, CHR 0xA1, CHR 0xE6,
     CHR 0x81, CHR 0xAF, CHR 0xE3, CHR 0x80, CHR 0x82]"

definition salvage_cap_head :: string where
  "salvage_cap_head =
     [CHR 0xE4, CHR 0xBD, CHR 0xA0, CHR 0xE5, CHR 0xB7, CHR 0xB2, CHR 0xE5, CHR 0xA4, CHR 0x9A, CHR 0xE6, CHR 0xAC,
     CHR 0xA1, CHR 0xE5, CHR 0xB0, CHR 0x9D, CHR 0xE8, CHR 0xAF, CHR 0x95, CHR 0xE4, CHR 0xBB, CHR 0x8D, CHR 0xE6,
     CHR 0x9C, CHR 0xAA, CHR 0xE7, CHR 0xBB, CHR 0x99, CHR 0xE5, CHR 0x87, CHR 0xBA, CHR 0xE6, CHR 0x9C, CHR 0x80,
     CHR 0xE7, CHR 0xBB, CHR 0x88, CHR 0xE7, CHR 0xAD, CHR 0x94, CHR 0xE5, CHR 0xA4, CHR 0x8D, CHR 0xE3, CHR 0x80,
     CHR 0x82]"

definition salvage_cap_tail :: string where
  "salvage_cap_tail =
     [CHR 0xE5, CHR 0x91, CHR 0x8A, CHR 0xE8, CHR 0xAF, CHR 0x89, CHR 0xE7, CHR 0x94, CHR 0xA8, CHR 0xE6, CHR 0x88,
     CHR 0xB7, CHR 0xEF, CHR 0xBC, CHR 0x9A, CHR 0xE4, CHR 0xBD, CHR 0xA0, CHR 0xE4, CHR 0xBA, CHR 0x86, CHR 0xE8,
     CHR 0xA7, CHR 0xA3, CHR 0xE5, CHR 0x88, CHR 0xB0, CHR 0xE4, CHR 0xBB, CHR 0x80, CHR 0xE4, CHR 0xB9, CHR 0x88,
     CHR 0xE3, CHR 0x80, CHR 0x81, CHR 0xE5, CHR 0x8D, CHR 0xA1, CHR 0xE5, CHR 0x9C, CHR 0xA8, CHR 0xE5, CHR 0x93,
     CHR 0xAA, CHR 0xE3, CHR 0x80, CHR 0x81, CHR 0xE4, CHR 0xB8, CHR 0xBA, CHR 0xE4, CHR 0xBB, CHR 0x80, CHR 0xE4,
     CHR 0xB9, CHR 0x88, CHR 0xEF, CHR 0xBC, CHR 0x9B, CHR 0xE6, CHR 0x95, CHR 0xB0, CHR 0xE6, CHR 0x8D, CHR 0xAE,
     CHR 0xE4, CHR 0xB8, CHR 0x8D, CHR 0xE8, CHR 0xB6, CHR 0xB3, CHR 0xE5, CHR 0xB0, CHR 0xB1, CHR 0xE5, CHR 0xA6,
     CHR 0x82, CHR 0xE5, CHR 0xAE, CHR 0x9E, CHR 0xE8, CHR 0xAF, CHR 0xB4, CHR 0xEF, CHR 0xBC, CHR 0x8C, CHR 0xE8,
     CHR 0xAE, CHR 0xA9, CHR 0xE7, CHR 0x94, CHR 0xA8, CHR 0xE6, CHR 0x88, CHR 0xB7, CHR 0xE5, CHR 0x86, CHR 0xB3,
     CHR 0xE5, CHR 0xAE, CHR 0x9A, CHR 0xE4, CHR 0xB8, CHR 0x8B, CHR 0xE4, CHR 0xB8, CHR 0x80, CHR 0xE6, CHR 0xAD,
     CHR 0xA5, CHR 0xE3, CHR 0x80, CHR 0x82]"

definition salvage_tail :: string where
  "salvage_tail =
     [CHR 0xE6, CHR 0x8A, CHR 0x8A, CHR 0xE5, CHR 0xB7, CHR 0xB2, CHR 0xE6, CHR 0x9C, CHR 0x89, CHR 0xE7, CHR 0x9A,
     CHR 0x84, CHR 0xE8, CHR 0xBF, CHR 0x9B, CHR 0xE5, CHR 0xB1, CHR 0x95, CHR 0xE5, CHR 0xBD, CHR 0x92, CHR 0xE6,
     CHR 0x8B, CHR 0xA2, CHR 0xE6, CHR 0x88, CHR 0x90, CHR 0xE4, CHR 0xB8, CHR 0x80, CHR 0xE4, CHR 0xB8, CHR 0xAA,
     CHR 0xE5, CHR 0xAF, CHR 0xB9, CHR 0xE7, CHR 0x94, CHR 0xA8, CHR 0xE6, CHR 0x88, CHR 0xB7, CHR 0xE6, CHR 0x9C,
     CHR 0x89, CHR 0xE7, CHR 0x94, CHR 0xA8, CHR 0xE7, CHR 0x9A, CHR 0x84, CHR 0xE7, CHR 0xAD, CHR 0x94, CHR 0xE5,
     CHR 0xA4, CHR 0x8D, CHR 0xE3, CHR 0x80, CHR 0x82]"

definition cap_closing :: string where
  "cap_closing =
     [CHR 0x0A, CHR 0x0A, CHR 0xEF, CHR 0xBC, CHR 0x88, CHR 0xE8, CHR 0xBF, CHR 0x99, CHR 0xE6, CHR 0xAC, CHR 0xA1,
     CHR 0xE5, CHR 0x9C, CHR 0xA8, CHR 0xE5, CHR 0xA4, CHR 0x9A, CHR 0xE8, CHR 0xBD, CHR 0xAE, CHR 0xE5, CHR 0xB0,
     CHR 0x9D, CHR 0xE8, CHR 0xAF, CHR 0x95, CHR 0xE5, CHR 0x90, CHR 0x8E, CHR 0xE6, CHR 0x94, CHR 0xB6, CHR 0xE5,
     CHR 0xB0, CHR 0xBE, CHR 0xEF, CHR 0xBC, CHR 0x8C, CHR 0xE5, CHR 0x8F, CHR 0xAF, CHR 0xE8, CHR 0x83, CHR 0xBD,
     CHR 0xE4, CHR 0xB8, CHR 0x8D, CHR 0xE5, CHR 0xAE, CHR 0x8C, CHR 0xE6, CHR 0x95, CHR 0xB4, CHR 0xE2, CHR 0x80,
     CHR 0x94, CHR 0xE2, CHR 0x80, CHR 0x94, CHR 0xE5, CHR 0x9B, CHR 0x9E, CHR 0xE5, CHR 0xA4, CHR 0x8D, CHR 0xE3,
     CHR 0x80, CHR 0x8C, CHR 0xE7, CHR 0xBB, CHR 0xA7, CHR 0xE7, CHR 0xBB, CHR 0xAD, CHR 0xE3, CHR 0x80, CHR 0x8D,
     CHR 0xE6, CHR 0x88, CHR 0x91, CHR 0xE5, CHR 0x8F, CHR 0xAF, CHR 0xE4, CHR 0xBB, CHR 0xA5, CHR 0xE6, CHR 0x8E,
     CHR 0xA5, CHR 0xE7, CHR 0x9D, CHR 0x80, CHR 0xE5, CHR 0xA4, CHR 0x84, CHR 0xE7, CHR 0x90, CHR 0x86, CHR 0xE3,
     CHR 0x80, CHR 0x82, CHR 0xEF, CHR 0xBC, CHR 0x89]"

definition brief_head :: string where
  "brief_head =
     [CHR 0xE6, CHR 0x9C, CHR 0xAC, CHR 0xE6, CHR 0xAC, CHR 0xA1, CHR 0xE8, CHR 0xB0, CHR 0x83, CHR 0xE7, CHR 0x94,
     CHR 0xA8, CHR 0xE4, CHR 0xBA, CHR 0x86] @ '' ''"

definition brief_tail :: string where
  "brief_tail =
     [CHR 0xEF, CHR 0xBC, CHR 0x8C, CHR 0xE4, CHR 0xBD, CHR 0x86, CHR 0xE6, CHR 0xB2, CHR 0xA1, CHR 0xE8, CHR 0x83,
     CHR 0xBD, CHR 0xE7, CHR 0xBB, CHR 0x99, CHR 0xE5, CHR 0x87, CHR 0xBA, CHR 0xE5, CHR 0xAE, CHR 0x8C, CHR 0xE6,
     CHR 0x95, CHR 0xB4, CHR 0xE7, CHR 0xBB, CHR 0x93, CHR 0xE6, CHR 0x9E, CHR 0x9C, CHR 0xE3, CHR 0x80, CHR 0x82,
     CHR 0xE8, CHR 0xAF, CHR 0xB7, CHR 0xE5, CHR 0x86, CHR 0x8D, CHR 0xE8, CHR 0xAF, CHR 0x95, CHR 0xE4, CHR 0xB8,
     CHR 0x80, CHR 0xE6, CHR 0xAC, CHR 0xA1, CHR 0xEF, CHR 0xBC, CHR 0x8C, CHR 0xE6, CHR 0x88, CHR 0x96, CHR 0xE6,
     CHR 0x8D, CHR 0xA2, CHR 0xE4, CHR 0xB8, CHR 0xAA, CHR 0xE8, CHR 0xAF, CHR 0xB4, CHR 0xE6, CHR 0xB3, CHR 0x95,
     CHR 0xE5, CHR 0x91, CHR 0x8A, CHR 0xE8, CHR 0xAF, CHR 0x89, CHR 0xE6, CHR 0x88, CHR 0x91, CHR 0xE4, CHR 0xBD,
     CHR 0xA0, CHR 0xE7, CHR 0x9A, CHR 0x84, CHR 0xE7, CHR 0x9B, CHR 0xAE, CHR 0xE6, CHR 0xA0, CHR 0x87, CHR 0xE3,
     CHR 0x80, CHR 0x82]"

definition salvageNudge :: "exit_state \<Rightarrow> string" where
  "salvageNudge s = (if s = exitIterCap then salvage_cap_head @ salvage_base @ salvage_cap_tail else salvage_base @ salvage_tail)"

definition honestClosing :: "exit_state \<Rightarrow> string" where
  "honestClosing s = (if s = exitIterCap then cap_closing else [])"

definition actionBrief :: "turn_env \<Rightarrow> turn_state \<Rightarrow> string" where
  "actionBrief env st =
     (let names = uniqStrings (ts_toolsRun st)
      in if names = [] then en_text env ''system.turn.salvage_stock'' else brief_head @ join name_comma names @ brief_tail)"

definition salvageOne :: "salvage_input \<Rightarrow> chat_message list \<Rightarrow> string list \<Rightarrow> string" where
  "salvageOne si msgs prefs =
     (case si_chat si prefs msgs of
        None \<Rightarrow> []
      | Some content \<Rightarrow> let out = TrimSpace content in if out = [] \<or> isDegenerate out then [] else out)"

definition salvageModelCall :: "turn_spec \<Rightarrow> turn_env \<Rightarrow> salvage_input \<Rightarrow> exit_state \<Rightarrow> turn_world \<Rightarrow> string" where
  "salvageModelCall spec env si ex w =
     (if \<not> ri_read_ok (si_round si) then []
      else let nudge = salvageNudge ex;
               msgs0 = buildMessages (en_build env (tw_layers w)) (sp_Scope spec) (\<not> sp_IsSub spec \<and> sp_History spec)
                         (en_readbackNote env) (GetReplay historyReplayCap (tw_rows w));
               msgs = (case msgs0 of
                         m # ms \<Rightarrow> if ms_Role m = ''system''
                                   then m\<lparr>ms_Content := TrimSpace (ms_Content m @ blank_line @ nudge)\<rparr> # ms
                                   else zero_message\<lparr>ms_Role := ''system'', ms_Content := nudge\<rparr> # m # ms
                       | [] \<Rightarrow> [zero_message\<lparr>ms_Role := ''system'', ms_Content := nudge\<rparr>]);
               expert = (if ex = exitDegenSalvage then salvageOne si msgs [''expert''] else [])
           in if expert \<noteq> [] then expert else salvageOne si msgs (sp_Prefer spec))"

definition salvage :: "turn_spec \<Rightarrow> turn_env \<Rightarrow> salvage_input \<Rightarrow> exit_state \<Rightarrow> turn_state \<Rightarrow> turn_world
    \<Rightarrow> turn_result \<times> turn_world" where
  "salvage spec0 env si ex st w =
     (let ri = si_round si;
          spec = (if ts_userNudge st \<noteq> [] \<and> \<not> str_contains (sp_UserText spec0) (ts_userNudge st)
                  then spec0\<lparr>sp_UserText := TrimSpace (sp_UserText spec0 @ blank_line @ ts_userNudge st)\<rparr> else spec0);
          w1 = set_layer advisorNoteLayer NoText (set_layer rubricRedoLayer NoText (set_layer bloatLayer NoText
                 (set_layer nudge_layer NoText w)));
          w2 = (if sp_IsSub spec then w1
                else w1\<lparr>tw_gauges := (if ri_read_ok ri then recordCtxRows (sp_Sid spec) (int (length (GetReplay historyReplayCap (tw_rows w1)))) (tw_gauges w1)
                                       else tw_gauges w1)\<rparr>);
          reply0 = salvageModelCall spec env si ex w2;
          verdict = (if reply0 \<noteq> [] \<and> ts_rubricArmed st \<noteq> [] then judgeRubric spec env ri reply0 None w2 else (False, False, []));
          blocked = fst verdict;
          reasons = snd (snd verdict);
          w3 = (if blocked then trace (RubricSalvageTrace reasons) w2 else w2);
          text = (if reply0 = [] then actionBrief env st
                  else if blocked then rubricFailNotice reasons
                  else reply0 @ honestClosing ex);
          reply = text @ sideEffectFooter st
      in (case finalizeTurn spec ri reply reply w3 of
            (delivered, w4) \<Rightarrow>
              (result_of st reply (if delivered then None else Some SalvageUndelivered) OutcomeDegraded (if blocked then reply0 else []), w4)))"

subsection \<open>Run\<close>

definition persistUserRows :: "turn_spec \<Rightarrow> chat_message list \<Rightarrow> chat_message list" where
  "persistUserRows spec rows =
     (if sp_UserMsgs spec \<noteq> [] then AppendUserMsgs (sp_UserMsgs spec) rows
      else AppendMessage ''user'' (sp_UserText spec) no_author rows)"

definition teardown :: "turn_spec \<Rightarrow> turn_env \<Rightarrow> salvage_input \<Rightarrow> turn_state \<Rightarrow> turn_world \<Rightarrow> turn_result \<times> turn_world" where
  "teardown spec env si st w =
     (let ex = (case ts_exit st of None \<Rightarrow> exitIterCap | Some e \<Rightarrow> te_state e)
      in if ex = exitCancelled then (result_of newTurnState [] (Some CtxErr) OutcomeCancelled [], releaseSink w)
         else salvage spec env si ex st w)"

definition Run :: "turn_spec \<Rightarrow> turn_env \<Rightarrow> run_input \<Rightarrow> turn_world \<Rightarrow> turn_result \<times> turn_world" where
  "Run spec env ru w =
     (if \<not> sp_hasSink spec then (result_of newTurnState [] (Some NilSink) OutcomeError [], w)
      else if \<not> ru_user_ok ru
      then if ru_cancelled_user ru then (result_of newTurnState [] (Some CtxErr) OutcomeCancelled [], releaseSink w)
           else (result_of newTurnState [] (Some PersistUser) OutcomeError [],
                 sink_call (Finish (en_text env ''system.turn.persist_fail'')) w)
      else let w1 = w\<lparr>tw_rows := persistUserRows spec (tw_rows w)\<rparr>
           in (case (if sp_Looping spec then driveLooping env (ru_loop ru) spec newTurnState w1
                     else driveRegular env (ru_loop ru) spec newTurnState w1) of
                 (Some res, st, w2) \<Rightarrow> (res, w2)
               | (None, st, w2) \<Rightarrow> teardown spec env (ru_salvage ru) st w2))"

subsection \<open>The sub-turn\<close>

definition subIterCap :: int where "subIterCap = 20"

text \<open>The last text the capturing sink was finished with.\<close>

definition captured :: "sink_event list \<Rightarrow> string" where
  "captured es = fold (\<lambda>e f. case e of Finish t \<Rightarrow> t | _ \<Rightarrow> f) es []"

definition sub_product :: "turn_result \<times> turn_world \<Rightarrow> sub_result" where
  "sub_product out =
     (case out of
        (tr, w) \<Rightarrow>
          if rs_Err tr \<noteq> None then \<lparr> sr_Err = True, sr_Product = [], sr_Partial = False \<rparr>
          else \<lparr> sr_Err = False, sr_Product = (if captured (tw_sink w) = [] then rs_Reply tr else captured (tw_sink w)),
                 sr_Partial = (rs_Outcome tr = OutcomeDegraded) \<rparr>)"

definition narrowToSuite :: "string list \<Rightarrow> string list \<Rightarrow> tool_set \<Rightarrow> (string, tool_flags) gomap" where
  "narrowToSuite suite endsTurn parent =
     (case parent of
        None \<Rightarrow> []
      | Some tools \<Rightarrow> filter (\<lambda>(n, _). n \<in> set suite \<and> n \<notin> set endsTurn \<and> n \<noteq> ''read_conversation_log'') tools)"

definition child_spec :: "turn_spec \<Rightarrow> string \<Rightarrow> string \<Rightarrow> string list \<Rightarrow> string list \<Rightarrow> bool \<Rightarrow> turn_spec" where
  "child_spec parent n task suite endsTurn shareHistory =
     \<lparr> sp_Sid = sp_Sid parent @ '':sub:'' @ n, sp_Scope = [], sp_UserText = task, sp_UserMsgs = [], sp_Agent = no_author,
       sp_Prefer = sp_Prefer parent,
       sp_Tools = (let ts = Some (narrowToSuite suite endsTurn (sp_Tools parent))
                   in if shareHistory then withTool ''read_conversation_log'' history_flags ts else ts),
       sp_Skills = sp_Skills parent, sp_hasSink = True, sp_IterCap = subIterCap, sp_Looping = False, sp_IsSub = True,
       sp_History = shareHistory, sp_bareProduct = True, sp_silentPartial = False \<rparr>"

definition sub_world :: "layers \<Rightarrow> turn_world" where
  "sub_world p = \<lparr> tw_rows = [], tw_sink = [], tw_layers = p, tw_gauges = [] \<rparr>"

definition runSubTurn :: "turn_spec \<Rightarrow> turn_env \<Rightarrow> string \<Rightarrow> string \<Rightarrow> string list \<Rightarrow> string list \<Rightarrow> bool \<Rightarrow> layers \<Rightarrow> run_input
    \<Rightarrow> sub_result" where
  "runSubTurn parent env n task suite endsTurn shareHistory p ru =
     sub_product (Run (child_spec parent n task suite endsTurn shareHistory) env ru (sub_world p))"

subsection \<open>Every turn closes its sink once\<close>

definition step_ok :: "sink_event list \<Rightarrow> loop_step \<Rightarrow> bool" where
  "step_ok sink step =
     (case step of
        Done res st' w' \<Rightarrow> closed_ext sink (tw_sink w')
      | Stop st' w' \<Rightarrow> open_ext sink (tw_sink w')
      | Again reset spec' st' w' \<Rightarrow> open_ext sink (tw_sink w'))"

lemma step_ok_from: "open_ext a b \<Longrightarrow> step_ok b s \<Longrightarrow> step_ok a s"
  by (auto simp: step_ok_def intro: open_trans open_closed split: loop_step.splits)

lemma after_round_ok:
  assumes "round_ok sink (rr, st, w)"
  shows "step_ok sink (after_round env li spec rr st w)"
proof (cases rr)
  case RoundOversized
  obtain b rows g where f: "forceCompact (li_compact li) (sp_Sid spec) (li_budget li) (tw_rows w, tw_gauges w) = (b, rows, g)"
    by (metis prod_cases3)
  have "open_ext sink (tw_sink w)" using assms RoundOversized by (simp add: round_ok_def)
  then show ?thesis using RoundOversized f by (cases b) (auto simp: after_round_def step_ok_def Let_def)
qed (use assms in \<open>simp_all add: after_round_def step_ok_def round_ok_def\<close>)

lemma diagnose_open: "maybeAdvisorDiagnose li iter spec st w = (st', w') \<Longrightarrow> open_ext (tw_sink w) (tw_sink w')"
  by (auto simp: maybeAdvisorDiagnose_def Let_def split: if_splits)

lemma fold_nudge_sink: "foldUserNudge li replay spec st w = (r, spec', st', w') \<Longrightarrow> tw_sink w' = tw_sink w"
  by (auto simp: foldUserNudge_def Let_def split: option.splits if_splits)

lemma round_step_ok: "step_ok (tw_sink w) (round_step env li iter replay spec st w)"
proof -
  obtain st1 w1 where d: "(if sp_Looping spec then maybeAdvisorDiagnose li iter spec st w else (st, w)) = (st1, w1)" by fastforce
  obtain rr st2 w2 where r: "runRound spec env (li_round li) iter replay st1 w1 = (rr, st2, w2)" by (metis prod_cases3)
  have "open_ext (tw_sink w) (tw_sink w1)" using d diagnose_open[of li iter spec st w st1 w1] by (auto split: if_splits)
  moreover have "round_ok (tw_sink w1) (rr, st2, w2)" using run_round_ok[of w1] r by metis
  ultimately have "step_ok (tw_sink w) (after_round env li spec rr st2 w2)" using round_ok_from after_round_ok by blast
  then show ?thesis by (simp add: round_step_def d r)
qed

lemma nudged_step_ok: "step_ok (tw_sink w) (nudged_step env li iter replay spec st w)"
proof (cases "fst (loopTopNudge st iter (tw_layers w))")
  case (Some ex)
  then show ?thesis by (cases "loopTopNudge st iter (tw_layers w)") (simp add: nudged_step_def step_ok_def)
next
  case None
  then obtain p where n: "loopTopNudge st iter (tw_layers w) = (None, p)" by (cases "loopTopNudge st iter (tw_layers w)") simp
  obtain r1 spec1 st1 w1 where f: "foldUserNudge li replay spec st (w\<lparr>tw_layers := p\<rparr>) = (r1, spec1, st1, w1)" by (metis prod_cases4)
  show ?thesis
    using round_step_ok[of w1 env li iter r1 spec1 st1] fold_nudge_sink[OF f] by (simp add: nudged_step_def n f)
qed

lemma loop_body_ok: "step_ok (tw_sink w) (loop_body env li iter spec st w)"
proof -
  have "step_ok (tw_sink w) (nudged_step env li iter replay spec' st (w\<lparr>tw_rows := rows, tw_gauges := g\<rparr>))" for replay spec' rows g
    using nudged_step_ok[of "w\<lparr>tw_rows := rows, tw_gauges := g\<rparr>"] by simp
  moreover have "step_ok (tw_sink w) (Stop st' w)" for st' by (simp add: step_ok_def)
  ultimately show ?thesis by (simp add: loop_body_def split: prod.split)
qed

lemma drive_ok:
  "drive env inp base limit iter spec st w = (r, st', w') \<Longrightarrow>
     if r = None then open_ext (tw_sink w) (tw_sink w') else closed_ext (tw_sink w) (tw_sink w')"
proof (induction env inp base limit iter spec st w rule: drive.induct)
  case (1 env inp base limit iter spec st w)
  show ?case
  proof (cases "limit \<le> iter")
    case True
    then show ?thesis using "1.prems" by (subst (asm) drive.simps) auto
  next
    case False
    have ok: "step_ok (tw_sink w) (loop_body env (inp iter) iter spec st w)" by (rule loop_body_ok)
    show ?thesis
    proof (cases "loop_body env (inp iter) iter spec st w")
      case (Done res st1 w1)
      then show ?thesis using "1.prems" ok False by (subst (asm) drive.simps) (auto simp: step_ok_def)
    next
      case (Stop st1 w1)
      then show ?thesis using "1.prems" ok False by (subst (asm) drive.simps) (auto simp: step_ok_def)
    next
      case (Again reset spec1 st1 w1)
      have o: "open_ext (tw_sink w) (tw_sink w1)" using ok Again by (simp add: step_ok_def)
      have "if r = None then open_ext (tw_sink w1) (tw_sink w') else closed_ext (tw_sink w1) (tw_sink w')"
      proof (cases reset)
        case True
        then have d: "drive env inp base (iter + 1 + base) (iter + 1) spec1 (fresh_budget iter st1) w1 = (r, st', w')"
          using "1.prems" Again False by (subst (asm) drive.simps) simp
        show ?thesis by (rule "1.IH"(1)[OF False Again True d])
      next
        case F: False
        then have d: "drive env inp base limit (iter + 1) spec1 st1 w1 = (r, st', w')"
          using "1.prems" Again False by (subst (asm) drive.simps) simp
        show ?thesis by (rule "1.IH"(2)[OF False Again F d])
      qed
      then show ?thesis using open_trans[OF o] open_closed[OF o] by (auto split: if_splits)
    qed
  qed
qed

lemma salvage_closed: "closed_ext (tw_sink w) (tw_sink (snd (salvage spec env si ex st w)))"
  unfolding salvage_def Let_def finalizeTurn_def by (auto simp: closed_two)

lemma teardown_closed: "closed_ext (tw_sink w) (tw_sink (snd (teardown spec env si st w)))"
  by (auto simp: teardown_def Let_def salvage_closed)

lemma run_closed:
  assumes "sp_hasSink spec"
  shows "closed_ext (tw_sink w) (tw_sink (snd (Run spec env ru w)))"
proof (cases "ru_user_ok ru")
  case False
  then show ?thesis using assms by (auto simp: Run_def)
next
  case True
  define w1 where "w1 = w\<lparr>tw_rows := persistUserRows spec (tw_rows w)\<rparr>"
  obtain r st w2 where d: "(if sp_Looping spec then driveLooping env (ru_loop ru) spec newTurnState w1
                     else driveRegular env (ru_loop ru) spec newTurnState w1) = (r, st, w2)" by (metis prod_cases3)
  have o: "if r = None then open_ext (tw_sink w1) (tw_sink w2) else closed_ext (tw_sink w1) (tw_sink w2)"
    using d drive_ok by (auto simp: driveLooping_def driveRegular_def Let_def split: if_splits)
  have e: "Run spec env ru w = (case r of Some res \<Rightarrow> (res, w2) | None \<Rightarrow> teardown spec env (ru_salvage ru) st w2)"
    using assms True d by (simp add: Run_def Let_def w1_def[symmetric] split: option.split)
  show ?thesis
    unfolding e using o teardown_closed open_closed by (cases r) (fastforce simp: w1_def)+
qed

lemma closed_once: "closed_ext [] es \<Longrightarrow> es \<noteq> [] \<and> is_Finish (last es) \<and> length (filter is_Finish es) = 1"
  by (auto simp: closed_ext_def open_ext_def filter_empty_conv)

text \<open>
  C2. Every turn releases its sink exactly once, as the last thing it does to it: whatever the model, the tools,
  the store, the judges and the user's cancelling do, and however the turn ends, the sink is finished
  one time and nothing is sent to it afterwards.
\<close>

theorem turn_finishes_exactly_once:
  assumes "sp_hasSink spec" and "tw_sink w = []"
  shows "tw_sink (snd (Run spec env ru w)) \<noteq> [] \<and> is_Finish (last (tw_sink (snd (Run spec env ru w))))
     \<and> length (filter is_Finish (tw_sink (snd (Run spec env ru w)))) = 1"
  using closed_once run_closed[OF assms(1), of w env ru] assms(2) by simp

subsection \<open>Every turn ends\<close>

lemma drive_bounded:
  "(\<And>i. i < limit + base * resets_left st \<Longrightarrow> inp i = inp' i) \<Longrightarrow>
     drive env inp base limit iter spec st w = drive env inp' base limit iter spec st w"
proof (induction env inp base limit iter spec st w rule: drive.induct)
  case (1 env inp base limit iter spec st w)
  show ?case
  proof (cases "limit \<le> iter")
    case True
    then show ?thesis by (subst (1 2) drive.simps) simp
  next
    case False
    then have eq: "inp' iter = inp iter" using "1.prems"[of iter] by simp
    show ?thesis
    proof (cases "loop_body env (inp iter) iter spec st w")
      case (Again reset spec1 st1 w1)
      have sp: "resets_left st1 \<le> resets_left st" "reset \<Longrightarrow> resets_left st1 < resets_left st"
        using loop_body_spends[of st env "inp iter" iter spec w] Again by (simp_all add: step_spends_def)
      have fb: "resets_left (fresh_budget iter st1) = resets_left st1" by (simp add: fresh_budget_def resets_left_def)
      show ?thesis
      proof (cases reset)
        case True
        have "iter + 1 + base + base * resets_left st1 \<le> limit + base * resets_left st"
          using False sp(2)[OF True] mult_le_mono2[of "Suc (resets_left st1)" "resets_left st" base] by simp
        then have "drive env inp base (iter + 1 + base) (iter + 1) spec1 (fresh_budget iter st1) w1
            = drive env inp' base (iter + 1 + base) (iter + 1) spec1 (fresh_budget iter st1) w1"
          by (intro "1.IH"(1)[OF False Again True] "1.prems") (simp add: fb)
        then show ?thesis using False Again True by (subst (1 2) drive.simps) (simp add: eq)
      next
        case F: False
        have "limit + base * resets_left st1 \<le> limit + base * resets_left st" using sp(1) by simp
        then have "drive env inp base limit (iter + 1) spec1 st1 w1 = drive env inp' base limit (iter + 1) spec1 st1 w1"
          by (intro "1.IH"(2)[OF False Again F] "1.prems") (rule less_le_trans)
        then show ?thesis using False Again F by (subst (1 2) drive.simps) (simp add: eq)
      qed
    qed (use False in \<open>subst (1 2) drive.simps, simp add: eq\<close>)+
  qed
qed

definition turn_limit :: "turn_spec \<Rightarrow> nat" where
  "turn_limit spec = round_limit (if sp_Looping spec then loopingFuseCap else loopCap) spec"

text \<open>
  C7. A turn makes at most six times its round limit of rounds, the limit being forty, five hundred for a
  working turn, or what the flow set: nothing that happens in a later round can matter, whatever the model
  answers, because only an acceptance gate extends the loop, three times for the rubric and twice for the
  review.
\<close>

theorem turn_rounds_bounded:
  assumes "\<And>i. i < 6 * turn_limit spec \<Longrightarrow> f i = ru_loop ru i"
  shows "Run spec env (ru\<lparr>ru_loop := f\<rparr>) w = Run spec env ru w"
proof -
  have r: "resets_left newTurnState = 5" "resets_left (newTurnState\<lparr>ts_advisorArmed := True\<rparr>) = 5"
    by (simp_all add: resets_left_def newTurnState_def maxRubricRetries_def maxReviewRetries_def)
  have l: "driveLooping env f spec newTurnState w1 = driveLooping env (ru_loop ru) spec newTurnState w1" if "sp_Looping spec" for w1
    unfolding driveLooping_def Let_def by (rule drive_bounded) (use assms that r in \<open>simp add: turn_limit_def\<close>)
  have g: "driveRegular env f spec newTurnState w1 = driveRegular env (ru_loop ru) spec newTurnState w1" if "\<not> sp_Looping spec" for w1
    unfolding driveRegular_def Let_def by (rule drive_bounded) (use assms that r in \<open>simp add: turn_limit_def\<close>)
  show ?thesis
    using l g by (cases "sp_Looping spec") (simp_all add: Run_def split: prod.split option.split)
qed

definition quick_loop :: loop_input where
  "quick_loop = \<lparr> li_cancelled = False, li_compact = demo_env, li_budget = 0, li_toolTexts = [], li_nudge = None, li_nudge_ok = True,
     li_advice = demo_sub, li_round = round_demo_input, li_cancelled_err = False \<rparr>"

definition quick_run :: run_input where
  "quick_run = \<lparr> ru_user_ok = True, ru_cancelled_user = False, ru_loop = (\<lambda>_. quick_loop),
     ru_salvage = \<lparr> si_chat = (\<lambda>_ _. None), si_round = round_demo_input \<rparr> \<rparr>"

theorem turn_finishes_exactly_once_witness:
  "length (filter is_Finish (tw_sink (snd (Run round_demo_spec round_demo_env quick_run round_demo_world)))) = 1"
  using turn_finishes_exactly_once[of round_demo_spec round_demo_world round_demo_env quick_run]
  by (simp add: round_demo_spec_def round_demo_world_def)

theorem turn_rounds_bounded_witness:
  "Run round_demo_spec round_demo_env (quick_run\<lparr>ru_loop := \<lambda>i. if i < 240 then quick_loop else quick_loop\<lparr>li_cancelled := True\<rparr>\<rparr>) round_demo_world
   = Run round_demo_spec round_demo_env quick_run round_demo_world"
proof -
  have "turn_limit round_demo_spec = 40" by (simp add: turn_limit_def round_limit_def round_demo_spec_def loopCap_def)
  then show ?thesis
    using turn_rounds_bounded[of round_demo_spec "\<lambda>i. if i < 240 then quick_loop else quick_loop\<lparr>li_cancelled := True\<rparr>" quick_run
        round_demo_env round_demo_world]
    by (simp add: quick_run_def)
qed

subsection \<open>A final answer was delivered\<close>

text \<open>
  The rounds of a turn: \<open>round_start\<close> is what an iteration hands to its round, if it gets there, and
  \<open>turn_reaches\<close> which limit, iteration, specification, state and world the loop comes to.
\<close>

definition round_start :: "turn_env \<Rightarrow> loop_input \<Rightarrow> nat \<Rightarrow> turn_spec \<Rightarrow> turn_state \<Rightarrow> turn_world
    \<Rightarrow> (chat_message list option \<times> turn_spec \<times> turn_state \<times> turn_world) option" where
  "round_start env li iter spec st w =
     (if li_cancelled li \<or> ts_exit st \<noteq> None then None
      else case maybeCompressInPlace (li_compact li) (sp_Sid spec) (sp_Scope spec) (li_budget li) (en_build env (tw_layers w))
                  (map_option (\<lambda>_. li_toolTexts li) (sp_Tools spec)) (tw_rows w) (tw_gauges w) of
             (replay, rows, g) \<Rightarrow>
               (case loopTopNudge st iter (tw_layers w) of
                  (Some ex, p) \<Rightarrow> None
                | (None, p) \<Rightarrow>
                    (case foldUserNudge li replay (maybeArmHistoryTool replay spec) st
                            (w\<lparr>tw_rows := rows, tw_gauges := g, tw_layers := p\<rparr>) of
                       (replay1, spec1, st1, w1) \<Rightarrow>
                         (case (if sp_Looping spec1 then maybeAdvisorDiagnose li iter spec1 st1 w1 else (st1, w1)) of
                            (st2, w2) \<Rightarrow> Some (replay1, spec1, st2, w2)))))"

inductive turn_reaches :: "turn_env \<Rightarrow> (nat \<Rightarrow> loop_input) \<Rightarrow> nat \<Rightarrow> nat \<times> nat \<times> turn_spec \<times> turn_state \<times> turn_world
    \<Rightarrow> nat \<times> nat \<times> turn_spec \<times> turn_state \<times> turn_world \<Rightarrow> bool"
  for env inp base where
  here: "turn_reaches env inp base s s"
| redo: "turn_reaches env inp base (limit, iter, spec, st, w) s"
    if "iter < limit" "loop_body env (inp iter) iter spec st w = Again True spec' st' w'"
      "turn_reaches env inp base (iter + 1 + base, iter + 1, spec', fresh_budget iter st', w') s"
| next_round: "turn_reaches env inp base (limit, iter, spec, st, w) s"
    if "iter < limit" "loop_body env (inp iter) iter spec st w = Again False spec' st' w'"
      "turn_reaches env inp base (limit, iter + 1, spec', st', w') s"

lemma outcome_not_final [simp]: "outcome s \<noteq> OutcomeFinal"
  by (cases s) simp_all

lemma arm_agent [simp]: "sp_Agent (maybeArmHistoryTool replay spec) = sp_Agent spec"
  by (auto simp: maybeArmHistoryTool_def split: option.split list.split)

lemma fold_agent: "foldUserNudge li replay spec st w = (r, spec', st', w') \<Longrightarrow> sp_Agent spec' = sp_Agent spec"
  by (auto simp: foldUserNudge_def Let_def split: option.splits if_splits)

lemma loop_body_start:
  "loop_body env li iter spec st w = (case round_start env li iter spec st w of
     None \<Rightarrow> loop_body env li iter spec st w
   | Some (replay, spec1, st1, w1) \<Rightarrow>
       (case runRound spec1 env (li_round li) iter replay st1 w1 of (rr, st2, w2) \<Rightarrow> after_round env li spec1 rr st2 w2))"
  "round_start env li iter spec st w = None \<Longrightarrow> \<exists>st' w'. loop_body env li iter spec st w = Stop st' w'"
  "round_start env li iter spec st w = Some (replay, spec1, st1, w1) \<Longrightarrow> sp_Agent spec1 = sp_Agent spec"
proof -
  obtain replay0 rows g where c: "maybeCompressInPlace (li_compact li) (sp_Sid spec) (sp_Scope spec) (li_budget li) (en_build env (tw_layers w))
      (map_option (\<lambda>_. li_toolTexts li) (sp_Tools spec)) (tw_rows w) (tw_gauges w) = (replay0, rows, g)" by (metis prod_cases3)
  obtain ex p where n: "loopTopNudge st iter (tw_layers w) = (ex, p)" by fastforce
  obtain r1 sp1 s1 u1 where f: "foldUserNudge li replay0 (maybeArmHistoryTool replay0 spec) st (w\<lparr>tw_rows := rows, tw_gauges := g, tw_layers := p\<rparr>)
      = (r1, sp1, s1, u1)" by (metis prod_cases4)
  obtain s2 u2 where d: "(if sp_Looping sp1 then maybeAdvisorDiagnose li iter sp1 s1 u1 else (s1, u1)) = (s2, u2)" by fastforce
  show "loop_body env li iter spec st w = (case round_start env li iter spec st w of
     None \<Rightarrow> loop_body env li iter spec st w
   | Some (replay, spec1, st1, w1) \<Rightarrow>
       (case runRound spec1 env (li_round li) iter replay st1 w1 of (rr, st2, w2) \<Rightarrow> after_round env li spec1 rr st2 w2))"
    by (cases ex) (simp_all add: loop_body_def round_start_def nudged_step_def round_step_def c n f d)
  show "round_start env li iter spec st w = None \<Longrightarrow> \<exists>st' w'. loop_body env li iter spec st w = Stop st' w'"
    by (cases ex) (auto simp: loop_body_def round_start_def nudged_step_def c n f d split: if_splits)
  show "round_start env li iter spec st w = Some (replay, spec1, st1, w1) \<Longrightarrow> sp_Agent spec1 = sp_Agent spec"
    using fold_agent[OF f] by (cases ex) (auto simp: round_start_def c n f d split: if_splits)
qed

lemma after_round_done:
  assumes "after_round env li spec rr st w = Done res st' w'" and "rs_Outcome res = OutcomeFinal"
  shows "\<exists>t. rr = RoundFinal t \<and> res = result_of st t None OutcomeFinal [] \<and> st' = st \<and> w' = w"
proof (cases rr)
  case RoundOversized
  obtain b rows g where "forceCompact (li_compact li) (sp_Sid spec) (li_budget li) (tw_rows w, tw_gauges w) = (b, rows, g)"
    by (metis prod_cases3)
  then show ?thesis using RoundOversized assms by (cases b) (auto simp: after_round_def Let_def result_of_def)
qed (use assms in \<open>auto simp: after_round_def result_of_def split: if_splits\<close>)

lemma again_agent:
  assumes "loop_body env li iter spec st w = Again reset spec' st' w'" shows "sp_Agent spec' = sp_Agent spec"
proof -
  obtain replay spec1 st1 w1 where s: "round_start env li iter spec st w = Some (replay, spec1, st1, w1)"
    using loop_body_start(2)[of env li iter spec st w] assms by (cases "round_start env li iter spec st w") auto
  obtain rr st2 w2 where r: "runRound spec1 env (li_round li) iter replay st1 w1 = (rr, st2, w2)" by (metis prod_cases3)
  have "after_round env li spec1 rr st2 w2 = Again reset spec' st' w'"
    using loop_body_start(1)[of env li iter spec st w] assms s r by simp
  then have "spec' = spec1" by (auto simp: after_round_def Let_def split: round_result.splits prod.splits bool.splits)
  then show ?thesis using loop_body_start(3)[OF s] by simp
qed

text \<open>The round that answered: its reply, and that it came about by the book.\<close>

definition answered_in :: "turn_env \<Rightarrow> loop_input \<Rightarrow> nat \<Rightarrow> turn_spec \<Rightarrow> turn_state \<Rightarrow> turn_world \<Rightarrow> msg_author \<Rightarrow> turn_result
    \<Rightarrow> turn_state \<Rightarrow> turn_world \<Rightarrow> bool" where
  "answered_in env li iter spec st w agent res st' w' \<longleftrightarrow>
     rs_Err res = None
     \<and> (\<exists>replay spec1 st1 w1. round_start env li iter spec st w = Some (replay, spec1, st1, w1) \<and> sp_Agent spec1 = agent
          \<and> reply_ok spec1 env (li_round li) replay st1 w1 (rs_Reply res) st' w')"

lemma loop_body_done:
  assumes "loop_body env li iter spec st w = Done res st' w'" and "rs_Outcome res = OutcomeFinal"
  shows "answered_in env li iter spec st w (sp_Agent spec) res st' w'"
proof -
  obtain replay spec1 st1 w1 where s: "round_start env li iter spec st w = Some (replay, spec1, st1, w1)"
    using loop_body_start(2)[of env li iter spec st w] assms(1) by (cases "round_start env li iter spec st w") auto
  obtain rr st2 w2 where r: "runRound spec1 env (li_round li) iter replay st1 w1 = (rr, st2, w2)" by (metis prod_cases3)
  have "after_round env li spec1 rr st2 w2 = Done res st' w'"
    using loop_body_start(1)[of env li iter spec st w] assms(1) s r by simp
  from after_round_done[OF this assms(2)] obtain t
    where t: "rr = RoundFinal t" "res = result_of st2 t None OutcomeFinal []" "st' = st2" "w' = w2" by blast
  have "reply_ok spec1 env (li_round li) replay st1 w1 t st2 w2" by (rule run_round_reply) (use r t in simp)
  then show ?thesis using s t loop_body_start(3)[OF s] by (auto simp: answered_in_def result_of_def)
qed

lemma drive_final:
  "drive env inp base limit iter spec st w = (Some res, st', w') \<Longrightarrow> rs_Outcome res = OutcomeFinal \<Longrightarrow>
     \<exists>limit' i spec0 st0 w0. turn_reaches env inp base (limit, iter, spec, st, w) (limit', i, spec0, st0, w0) \<and> i < limit'
       \<and> answered_in env (inp i) i spec0 st0 w0 (sp_Agent spec) res st' w'"
proof (induction env inp base limit iter spec st w rule: drive.induct)
  case (1 env inp base limit iter spec st w)
  have lt: "\<not> limit \<le> iter" using "1.prems"(1) by (subst (asm) drive.simps) auto
  show ?case
  proof (cases "loop_body env (inp iter) iter spec st w")
    case (Done res1 st1 w1)
    then have "loop_body env (inp iter) iter spec st w = Done res st' w'"
      using "1.prems"(1) lt by (subst (asm) drive.simps) simp
    then show ?thesis using loop_body_done "1.prems"(2) lt turn_reaches.here by (meson not_le)
  next
    case (Stop st1 w1)
    then show ?thesis using "1.prems"(1) lt by (subst (asm) drive.simps) simp
  next
    case (Again reset spec1 st1 w1)
    note ag = again_agent[OF Again]
    show ?thesis
    proof (cases reset)
      case True
      have d: "drive env inp base (iter + 1 + base) (iter + 1) spec1 (fresh_budget iter st1) w1 = (Some res, st', w')"
        using "1.prems"(1) Again lt True by (subst (asm) drive.simps) simp
      obtain l i s0 t0 u0 where "turn_reaches env inp base (iter + 1 + base, iter + 1, spec1, fresh_budget iter st1, w1) (l, i, s0, t0, u0)"
        "i < l" "answered_in env (inp i) i s0 t0 u0 (sp_Agent spec1) res st' w'"
        using "1.IH"(1)[OF lt Again True d "1.prems"(2)] by blast
      then show ?thesis
        using turn_reaches.redo[of iter limit env inp spec st w spec1 st1 w1 base] lt Again True ag by (metis not_le)
    next
      case False
      have d: "drive env inp base limit (iter + 1) spec1 st1 w1 = (Some res, st', w')"
        using "1.prems"(1) Again lt False by (subst (asm) drive.simps) simp
      obtain l i s0 t0 u0 where "turn_reaches env inp base (limit, iter + 1, spec1, st1, w1) (l, i, s0, t0, u0)"
        "i < l" "answered_in env (inp i) i s0 t0 u0 (sp_Agent spec1) res st' w'"
        using "1.IH"(2)[OF lt Again False d "1.prems"(2)] by blast
      then show ?thesis
        using turn_reaches.next_round[of iter limit env inp spec st w spec1 st1 w1 base] lt Again False ag by (metis not_le)
    qed
  qed
qed

text \<open>Where the loop of a turn starts.\<close>

definition turn_start :: "turn_spec \<Rightarrow> turn_world \<Rightarrow> nat \<times> nat \<times> turn_spec \<times> turn_state \<times> turn_world" where
  "turn_start spec w =
     (turn_limit spec, 0, if sp_Looping spec then spec\<lparr>sp_bareProduct := True, sp_silentPartial := True\<rparr> else spec,
      newTurnState\<lparr>ts_advisorArmed := sp_Looping spec\<rparr>, w\<lparr>tw_rows := persistUserRows spec (tw_rows w)\<rparr>)"


definition answer_loop :: loop_input where
  "answer_loop = quick_loop\<lparr>li_round := round_demo_input\<lparr>ri_pool := \<lambda>_ _ _. ([], Response
     \<lparr> cr_Content = ''done'', cr_Reasoning = [], cr_ToolCalls = [], cr_InputTokens = 3, cr_OutputTokens = 1 \<rparr>)\<rparr>\<rparr>"

definition answer_run :: run_input where
  "answer_run = quick_run\<lparr>ru_loop := \<lambda>_. answer_loop\<rparr>"

lemma answer_step:
  "(case loop_body round_demo_env answer_loop 0 round_demo_spec newTurnState
      (round_demo_world\<lparr>tw_rows := persistUserRows round_demo_spec []\<rparr>) of
      Done res st w \<Rightarrow> rs_Outcome res = OutcomeFinal \<and> rs_Reply res = ''done'' | _ \<Rightarrow> False)"
  by code_simp


subsection \<open>The state stays well formed\<close>

text \<open>The types do not bound the counters nor keep the maps without double keys; every iteration that goes on does.\<close>

definition wf_turn :: "turn_state \<Rightarrow> bool" where
  "wf_turn st \<longleftrightarrow>
     ts_rubricRetries st \<le> maxRubricRetries \<and> ts_reviewRetries st \<le> maxReviewRetries
     \<and> ts_advisorDiagnoses st \<le> ts_advisorAttempts st \<and> ts_advisorDiagnoses st \<le> maxAdvisorDiagnoses
     \<and> ts_advisorAttempts st \<le> maxAdvisorAttempts \<and> (ts_stripTools st \<longleftrightarrow> ts_bloatTrips st > maxBloatTrips)
     \<and> (ts_userNudge st = [] \<or> prefix userNudgeMark (ts_userNudge st))
     \<and> gmap_ok (ts_toolHashes st) \<and> gmap_ok (ts_failStreak st) \<and> gmap_ok (ts_sideEffectFails st) \<and> gmap_ok (ts_rubricArmed st)"

lemma wf_maps:
  assumes "wf_turn st"
  shows "wf_turn (st\<lparr>ts_toolHashes := gput n h (ts_toolHashes st), ts_lastProgressIter := i, ts_failedSinceProgress := k\<rparr>)"
    "wf_turn (st\<lparr>ts_lastProductiveIter := j, ts_lastProgressIter := i, ts_failedSinceProgress := k\<rparr>)"
    "wf_turn (st\<lparr>ts_sideEffectFails := gput n s (ts_sideEffectFails st)\<rparr>)"
    "wf_turn (st\<lparr>ts_sideEffectFails := gdel n (ts_sideEffectFails st)\<rparr>)" "wf_turn (st\<lparr>ts_produced := b\<rparr>)" "wf_turn (st\<lparr>ts_exit := e\<rparr>)"
  using assms by (simp_all add: wf_turn_def)

lemma wf_notes:
  assumes "wf_turn st"
  shows "wf_turn (note_side_effect tools c r st)" "wf_turn (note_produced tools c r st)" "wf_turn (note_progress i tools c r st)"
    "wf_turn (trip_if b st)"
  using assms by (simp_all add: note_side_effect_def note_produced_def note_progress_def trip_if_def Let_def wf_maps)

lemma wf_record: "wf_turn st \<Longrightarrow> wf_turn (recordToolOutcome tools iter c r st)"
proof -
  assume wf: "wf_turn st"
  have s: "wf_turn (note_success c st')" if "wf_turn st'" for st'
    using that unfolding note_success_def Let_def by (intro wf_notes(4)) (simp add: wf_turn_def)
  have f: "wf_turn (note_failure c st')" if "wf_turn st'" for st'
    using that unfolding note_failure_def Let_def by (intro wf_notes(4)) (simp add: wf_turn_def)
  show ?thesis unfolding recordToolOutcome_def Let_def using wf by (simp add: wf_notes s f)
qed

lemma wf_arm: "wf_turn st \<Longrightarrow> wf_turn (armRubricOnSkillView spec env c r st)"
  by (auto simp: armRubricOnSkillView_def armRubric_def wf_turn_def split: option.splits)

lemma wf_take_results:
  "wf_turn st \<Longrightarrow> take_results spec env ri iter i rs ex st w = (ex', st', w') \<Longrightarrow> wf_turn st'"
proof (induction rs arbitrary: i ex st w)
  case (Cons p rs)
  obtain c r where p: "p = (c, r)" by (cases p)
  show ?case by (rule Cons.IH[OF wf_arm[OF wf_record[OF Cons.prems(1)]]]) (use Cons.prems(2) p in simp)
qed simp

definition wf_out :: "turn_state \<Rightarrow> round_result \<times> turn_state \<times> turn_world \<Rightarrow> bool" where
  "wf_out st out = (case out of (rr, st', w') \<Rightarrow> wf_turn st \<longrightarrow> \<not> ends rr \<longrightarrow> wf_turn st')"

lemma wf_arbiter: "arbiterSecondOpinion spec env ri st w = (v, st', w') \<Longrightarrow> wf_turn st' = wf_turn st"
proof -
  have "wf_turn (st\<lparr>ts_arbiterUsed := True\<rparr>) = wf_turn st" by (simp add: wf_turn_def)
  then show "arbiterSecondOpinion spec env ri st w = (v, st', w') \<Longrightarrow> wf_turn st' = wf_turn st"
    by (auto simp: arbiterSecondOpinion_def Let_def split: if_splits option.splits)
qed

lemma wf_judge: "judgeWithEscalation spec env ri out ev st w = (v, st', w') \<Longrightarrow> wf_turn st' = wf_turn st"
  by (auto simp: judgeWithEscalation_def wf_arbiter split: prod.splits if_splits option.splits)

lemma wf_rubric_gate:
  assumes "rubricGate spec env ri out ev st w = (Some rr, st', w')" and "wf_turn st" and "\<not> ends rr"
  shows "wf_turn st'"
proof -
  obtain blocked judged reasons st1 w1 where j: "judgeWithEscalation spec env ri out ev st w = ((blocked, judged, reasons), st1, w1)"
    by (metis prod_cases3)
  have "wf_turn st1" using wf_judge[OF j] assms(2) by simp
  then show ?thesis
    using assms(1,3) by (auto simp: rubricGate_def j Let_def wf_turn_def finalizeTurn_def split: if_splits)
qed

lemma wf_review_gate:
  "advisorReviewGate spec env ri out st w = (Some rr, st', w') \<Longrightarrow> wf_turn st \<Longrightarrow> wf_turn st'"
  by (auto simp: advisorReviewGate_def Let_def wf_turn_def split: if_splits option.splits)

lemma wf_final_reply: "wf_out st (finalReply spec env ri content ev streamed st w)"
proof -
  define full where "full = TrimSpace content"
  obtain g st1 w1 where g: "accept_gate spec env ri full ev st w = (g, st1, w1)" by (metis prod_cases3)
  show ?thesis
  proof (cases "full = [] \<or> isDegenerate full")
    case True
    then show ?thesis by (auto simp: finalReply_def Let_def full_def[symmetric] wf_out_def handleDegenerate_def wf_turn_def)
  next
    case False
    show ?thesis
    proof (cases g)
      case None
      then show ?thesis using False g by (simp add: finalReply_def Let_def full_def[symmetric] wf_out_def finalizeTurn_def)
    next
      case (Some rr)
      have e: "finalReply spec env ri content ev streamed st w = (rr, st1, w1)"
        using False g Some by (simp add: finalReply_def Let_def full_def[symmetric])
      show ?thesis
        unfolding e wf_out_def
        using g Some wf_rubric_gate[of spec env ri full ev st w rr st1 w1] wf_review_gate[of spec env ri full st w rr st1 w1]
        by (auto simp: accept_gate_def split: if_splits)
    qed
  qed
qed

lemma wf_tool_round: "wf_out st (toolRound spec env ri iter resp st w)"
proof -
  define calls where "calls = dedupeCalls (en_jsonValid env) (ri_synth ri) 0 (cr_ToolCalls resp)"
  define st1 where "st1 = st\<lparr>ts_toolsRun := ts_toolsRun st @ map tc_Name calls\<rparr>"
  define w1 where "w1 = w\<lparr>tw_rows := AppendAssistantCalls (cr_Content resp) calls (sp_Agent spec) (tw_rows w)\<rparr>"
  obtain rs w2 where d: "dispatchAll spec ri calls w1 = (rs, w2)" by fastforce
  obtain ex st3 w3 where t: "take_results spec env ri iter 0 (zip calls rs) None st1 w2 = (ex, st3, w3)" by (metis prod_cases3)
  have "wf_turn st1 = wf_turn st" by (simp add: st1_def wf_turn_def)
  then show ?thesis
    using wf_take_results[OF _ t] d t
    by (auto simp: toolRound_def Let_def calls_def[symmetric] st1_def[symmetric] w1_def[symmetric] wf_out_def finalizeTurn_def split: option.split)
qed

lemma wf_out_from: "wf_turn a = wf_turn b \<Longrightarrow> wf_out a out \<Longrightarrow> wf_out b out"
  by (simp add: wf_out_def)

lemma wf_run_round: "wf_out st (runRound spec env ri iter replay st w)"
proof -
  have u: "wf_turn (st\<lparr>ts_sunk := s\<rparr>) = wf_turn st" "wf_turn (st\<lparr>ts_usageIn := a, ts_usageOut := b\<rparr>) = wf_turn st"
    "wf_turn (st\<lparr>ts_usageIn := a, ts_usageOut := b, ts_sunk := s\<rparr>) = wf_turn st" for st a b s
    by (simp_all add: wf_turn_def)
  have f: "wf_out st (model_failed spec env ri dg ans shown st w1)" for dg ans shown st w1
    by (auto simp: model_failed_def Let_def wf_out_def handleDegenerate_def handleBloat_def wf_turn_def)
  have m: "wf_out st (model_answered spec env ri iter ev wm resp ws st w1)" for ev wm resp ws st w1
    unfolding model_answered_def Let_def
    using wf_out_from[OF u(2) wf_tool_round] wf_out_from[OF u(3) wf_final_reply] by simp
  have e: "wf_out st (stream_ended spec env ri iter ev wm dg ans ws st w1)" for ev wm dg ans ws w1
    unfolding stream_ended_def Let_def
    using wf_out_from[OF u(1) m] wf_out_from[OF u(1) f] by (simp split: bool.split pool_answer.split)
  have z: "wf_out st (RoundErr x, st, w2)" for x w2 by (simp add: wf_out_def)
  show ?thesis unfolding runRound_def Let_def using e z by (simp split: option.split prod.split)
qed

lemma wf_fold: "foldUserNudge li replay spec st w = (r, spec', st', w') \<Longrightarrow> wf_turn st \<Longrightarrow> wf_turn st'"
  by (auto simp: foldUserNudge_def Let_def wf_turn_def split: option.splits if_splits)

lemma wf_diagnose: "maybeAdvisorDiagnose li iter spec st w = (st', w') \<Longrightarrow> wf_turn st \<Longrightarrow> wf_turn st'"
  by (auto simp: maybeAdvisorDiagnose_def Let_def wf_turn_def split: if_splits)

definition step_wf :: "turn_state \<Rightarrow> loop_step \<Rightarrow> bool" where
  "step_wf st step = (case step of Again reset spec' st' w' \<Rightarrow> wf_turn st \<longrightarrow> wf_turn st' | _ \<Rightarrow> True)"

lemma wf_after_round: "wf_out st (rr, st1, w1) \<Longrightarrow> step_wf st (after_round env li spec rr st1 w1)"
proof (cases rr)
  case RoundOversized
  assume o: "wf_out st (rr, st1, w1)"
  obtain b rows g where "forceCompact (li_compact li) (sp_Sid spec) (li_budget li) (tw_rows w1, tw_gauges w1) = (b, rows, g)"
    by (metis prod_cases3)
  then show ?thesis using RoundOversized o by (cases b) (simp_all add: after_round_def step_wf_def wf_out_def Let_def)
qed (simp_all add: after_round_def step_wf_def wf_out_def)

lemma wf_round_step: "step_wf st (round_step env li iter replay spec st w)"
proof -
  obtain st1 w1 where d: "(if sp_Looping spec then maybeAdvisorDiagnose li iter spec st w else (st, w)) = (st1, w1)" by fastforce
  obtain rr st2 w2 where r: "runRound spec env (li_round li) iter replay st1 w1 = (rr, st2, w2)" by (metis prod_cases3)
  have "wf_turn st \<Longrightarrow> wf_turn st1" using d wf_diagnose[of li iter spec st w st1 w1] by (auto split: if_splits)
  moreover have "wf_out st1 (rr, st2, w2)" using wf_run_round[of st1] r by metis
  ultimately have "wf_out st (rr, st2, w2)" by (auto simp: wf_out_def)
  from wf_after_round[OF this] show ?thesis by (simp add: round_step_def d r)
qed

lemma wf_nudged_step: "step_wf st (nudged_step env li iter replay spec st w)"
proof (cases "fst (loopTopNudge st iter (tw_layers w))")
  case (Some ex)
  then show ?thesis by (cases "loopTopNudge st iter (tw_layers w)") (simp add: nudged_step_def step_wf_def)
next
  case None
  then obtain p where n: "loopTopNudge st iter (tw_layers w) = (None, p)" by (cases "loopTopNudge st iter (tw_layers w)") simp
  obtain r1 spec1 st1 w1 where f: "foldUserNudge li replay spec st (w\<lparr>tw_layers := p\<rparr>) = (r1, spec1, st1, w1)" by (metis prod_cases4)
  have "step_wf st1 (round_step env li iter r1 spec1 st1 w1)" by (rule wf_round_step)
  then have "step_wf st (round_step env li iter r1 spec1 st1 w1)" using wf_fold[OF f] by (auto simp: step_wf_def split: loop_step.splits)
  then show ?thesis by (simp add: nudged_step_def n f)
qed

lemma loop_body_wf:
  assumes "wf_turn st" and "loop_body env li iter spec st w = Again reset spec' st' w'"
  shows "wf_turn st' \<and> wf_turn (fresh_budget iter st')"
proof -
  have "step_wf st (loop_body env li iter spec st w)"
    using wf_nudged_step by (auto simp: loop_body_def step_wf_def split: prod.split)
  then have "wf_turn st'" using assms by (simp add: step_wf_def)
  then show ?thesis by (simp add: wf_turn_def fresh_budget_def)
qed

lemma reaches_wf:
  "turn_reaches env inp base s s' \<Longrightarrow> wf_turn (fst (snd (snd (snd s)))) \<Longrightarrow> wf_turn (fst (snd (snd (snd s'))))"
  by (induction rule: turn_reaches.induct) (auto dest: loop_body_wf)

text \<open>
  C23. Every state the loop of a turn comes to is well formed, whatever the model, the tools and the user do:
  the redos after a rubric or a review and the consults of the advisor stay within their caps, the tools are
  stripped exactly when the aborts for bloated arguments are past their cap, a message folded in carries its
  mark, and no map of the guards has a key twice.
\<close>

theorem turn_state_well_formed:
  assumes "turn_reaches env inp base (turn_start spec w) (limit, i, spec', st', w')"
  shows "wf_turn st'"
proof -
  have "wf_turn (newTurnState\<lparr>ts_advisorArmed := sp_Looping spec\<rparr>)" by (simp add: wf_turn_def newTurnState_def)
  then show ?thesis using reaches_wf[OF assms] by (simp add: turn_start_def)
qed

definition idle_loop :: loop_input where
  "idle_loop = quick_loop\<lparr>li_round := round_demo_input\<lparr>ri_pool := \<lambda>_ _ _. ([], Response
     \<lparr> cr_Content = [], cr_Reasoning = [], cr_ToolCalls = [], cr_InputTokens = 3, cr_OutputTokens = 0 \<rparr>)\<rparr>\<rparr>"

lemma idle_step:
  "(case loop_body round_demo_env idle_loop 0 round_demo_spec newTurnState (round_demo_world\<lparr>tw_rows := persistUserRows round_demo_spec []\<rparr>) of
      Again reset spec' st' w' \<Rightarrow> \<not> reset | _ \<Rightarrow> False)"
  by code_simp

theorem turn_state_well_formed_witness:
  "\<exists>spec' st' w'. turn_reaches round_demo_env (\<lambda>_. idle_loop) 40 (turn_start round_demo_spec round_demo_world) (40, 1, spec', st', w') \<and> wf_turn st'"
proof -
  obtain spec' st' w' where l: "loop_body round_demo_env idle_loop 0 round_demo_spec newTurnState
      (round_demo_world\<lparr>tw_rows := persistUserRows round_demo_spec []\<rparr>) = Again False spec' st' w'"
    using idle_step by (auto split: loop_step.splits)
  have t: "turn_start round_demo_spec round_demo_world = (40, 0, round_demo_spec, newTurnState, round_demo_world\<lparr>tw_rows := persistUserRows round_demo_spec []\<rparr>)"
    by (simp add: turn_start_def turn_limit_def round_limit_def round_demo_spec_def round_demo_world_def loopCap_def newTurnState_def)
  have "turn_reaches round_demo_env (\<lambda>_. idle_loop) 40 (turn_start round_demo_spec round_demo_world) (40, 0 + 1, spec', st', w')"
    unfolding t by (rule turn_reaches.next_round[OF _ l turn_reaches.here]) simp
  then show ?thesis using turn_state_well_formed[of round_demo_env "\<lambda>_. idle_loop" 40 round_demo_spec round_demo_world 40 1 spec' st' w'] by auto
qed

subsection \<open>A stop in the middle of a reply\<close>

text \<open>The user stops the turn after part of the reply was shown: the turn counts as cancelled, and the part that
  was seen is finished with a mark and kept in the history.\<close>

definition stopped_loop :: loop_input where
  "stopped_loop = quick_loop\<lparr>li_cancelled_err := True, li_round := round_demo_input\<lparr>ri_cancelled_stream := True, ri_pool := \<lambda>_ _ _.
     ([(\<lparr> se_Text = ''Hel'', se_Reasoning = [] \<rparr>, \<lparr> ac_Text = ''Hel'', ac_Reasoning = [], ac_ToolCalls = 0 \<rparr>)], ErrModel)\<rparr>\<rparr>"

lemma cancelled_turn_may_deliver:
  "(case loop_body round_demo_env stopped_loop 0 round_demo_spec newTurnState round_demo_world of
      Done res st w \<Rightarrow> rs_Outcome res = OutcomeCancelled \<and> prefix ''Hel'' (ms_Content (last (tw_rows w)))
        \<and> last (tw_sink w) = Finish (''Hel'' @ ''system.turn.cancelled_marker'')
    | _ \<Rightarrow> False)"
  by code_simp

subsection \<open>A sub-turn gains nothing\<close>

text \<open>
  A delegated sub-turn has no tool its parent has not: whatever suite is asked for, each tool of the sub-turn is
  one of the parent's, named by the suite and not one that ends a turn, with the parent's own
  declaration, or it is the reader of the conversation log.
\<close>

theorem sub_turn_gains_no_tool:
  assumes "sp_Tools (child_spec parent n task suite endsTurn share) = Some tools" and "(name, flags) \<in> set tools"
  shows "name = ''read_conversation_log'' \<and> share
     \<or> name \<in> set suite \<and> name \<notin> set endsTurn \<and> (\<exists>ts. sp_Tools parent = Some ts \<and> (name, flags) \<in> set ts)"
  using assms
  by (auto simp: child_spec_def narrowToSuite_def withTool_def Let_def split: option.splits if_splits)

theorem sub_turn_gains_no_tool_witness:
  "''echo'' \<in> set [''echo'', ''shell''] \<and> ''echo'' \<notin> set [''clarify'']
   \<and> (\<exists>ts. sp_Tools (round_demo_spec\<lparr>sp_Tools := Some [(''echo'', history_flags), (''clarify'', history_flags)]\<rparr>) = Some ts
        \<and> (''echo'', history_flags) \<in> set ts)"
proof -
  let ?p = "round_demo_spec\<lparr>sp_Tools := Some [(''echo'', history_flags), (''clarify'', history_flags)]\<rparr>"
  have t: "sp_Tools (child_spec ?p ''1'' ''t'' [''echo'', ''shell''] [''clarify''] False) = Some [(''echo'', history_flags)]"
    by (simp add: child_spec_def narrowToSuite_def)
  from sub_turn_gains_no_tool[OF t, of "''echo''" history_flags] show ?thesis by simp
qed

end
