(* ===== verification/Warrant_Policy.thy ===== *)
theory Warrant_Policy
  imports Prelude
begin

section \<open>The permission matrix\<close>

text \<open>
  \<^verbatim>\<open>src/leaf/warrant/10-policy.go\<close>, \<^verbatim>\<open>12-store-file.go\<close> and \<^verbatim>\<open>20-reconcile.go\<close>: the
  capability-by-principal matrix, its fail-closed lookup, the diff of two matrices, the file
  backend and the reconciliation with the registered capabilities.

  A \<^verbatim>\<open>*policy\<close> that may be nil is an option. The YAML codec is not code of this repository:
  \<^verbatim>\<open>yaml.Marshal\<close> and \<^verbatim>\<open>yaml.Unmarshal\<close> are arguments of the operations that call them, over
  an arbitrary type of file contents; what the round trip relies on is the hypothesis
  \<open>yaml_codec\<close>. A file on disk is missing, unreadable or has contents.
\<close>

record policy =
  principals :: "string list"
  granted :: "(string, (string, bool) gomap) gomap"

definition emptyPolicy :: policy where
  "emptyPolicy = \<lparr>principals = [], granted = []\<rparr>"

definition allows :: "policy option \<Rightarrow> string \<Rightarrow> string \<Rightarrow> bool" where
  "allows p capability who =
     (case p of None \<Rightarrow> False
      | Some p \<Rightarrow> (case gget (granted p) capability of
                     None \<Rightarrow> False
                   | Some row \<Rightarrow> ggetz False row who))"

fun lost_row :: "policy option \<Rightarrow> string \<Rightarrow> (string, bool) gomap \<Rightarrow> (string, bool) gomap \<Rightarrow> (string, bool) gomap" where
  "lost_row nxt capability [] lost = lost"
| "lost_row nxt capability ((who, was) # row) lost =
     lost_row nxt capability row
       (if was \<and> \<not> allows nxt capability who then gput who True lost else lost)"

fun lost_rows :: "policy option \<Rightarrow> (string, (string, bool) gomap) gomap \<Rightarrow> (string, bool) gomap \<Rightarrow> (string, bool) gomap" where
  "lost_rows nxt [] lost = lost"
| "lost_rows nxt ((capability, row) # rows) lost = lost_rows nxt rows (lost_row nxt capability row lost)"

definition lostGrants :: "policy option \<Rightarrow> policy option \<Rightarrow> string list" where
  "lostGrants old nxt =
     (case old of None \<Rightarrow> [] | Some p \<Rightarrow> gkeys (lost_rows nxt (granted p) []))"

definition capString :: "string \<Rightarrow> string \<Rightarrow> string" where
  "capString kind name = kind @ '':use:'' @ name"

definition truthy :: "string \<Rightarrow> bool" where
  "truthy v = (to_lower (trim_space v) \<in> {''on'', ''true'', ''yes'', ''1''})"

subsection \<open>The file backend\<close>

record policyFile =
  pf_Principals :: "string list"
  pf_Grants :: "(string, (string, string) gomap) gomap"

datatype 'raw disk_file = Missing | Unreadable string | Contents 'raw

datatype load_error = ReadError string | ParseError string

definition offOn :: "bool \<Rightarrow> string" where
  "offOn b = (if b then ''on'' else ''off'')"

definition fromFile :: "policyFile \<Rightarrow> policy" where
  "fromFile f = emptyPolicy\<lparr>
     principals := pf_Principals f,
     granted := map (\<lambda>(capability, row). (capability, map (\<lambda>(who, state). (who, truthy state)) row))
                    (pf_Grants f)\<rparr>"

definition toFile :: "policy \<Rightarrow> policyFile" where
  "toFile p = \<lparr>
     pf_Principals = principals p,
     pf_Grants = map (\<lambda>(capability, row). (capability, map (\<lambda>(who, on). (who, offOn on)) row))
                     (granted p)\<rparr>"

definition Load :: "('raw \<Rightarrow> string + policyFile) \<Rightarrow> 'raw disk_file \<Rightarrow> load_error + policy" where
  "Load unmarshal disk =
     (case disk of
        Missing \<Rightarrow> Inr emptyPolicy
      | Unreadable err \<Rightarrow> Inl (ReadError err)
      | Contents raw \<Rightarrow> (case unmarshal raw of
                           Inl err \<Rightarrow> Inl (ParseError err)
                         | Inr pf \<Rightarrow> Inr (fromFile pf)))"

text \<open>\<^verbatim>\<open>Save\<close> sorts the principals, marshals, and writes through a temporary file and a rename;
  the boolean says whether both system calls succeed. A failed write leaves the old file.\<close>

definition SaveRaw :: "bool \<Rightarrow> 'raw \<Rightarrow> 'raw disk_file \<Rightarrow> bool \<times> 'raw disk_file" where
  "SaveRaw writable data disk = (if writable then (True, Contents data) else (False, disk))"

definition Save :: "(policyFile \<Rightarrow> string + 'raw) \<Rightarrow> bool \<Rightarrow> policy \<Rightarrow> 'raw disk_file \<Rightarrow> bool \<times> 'raw disk_file" where
  "Save marshal writable p disk =
     (let pf = (toFile p)\<lparr>pf_Principals := sort (principals p)\<rparr>
      in case marshal pf of
           Inl err \<Rightarrow> (False, disk)
         | Inr data \<Rightarrow> SaveRaw writable data disk)"

definition LoadOrFailClosed :: "(load_error + policy) \<Rightarrow> policy \<times> bool" where
  "LoadOrFailClosed loaded = (case loaded of Inl err \<Rightarrow> (emptyPolicy, True) | Inr p \<Rightarrow> (p, False))"

subsection \<open>Reconciliation\<close>

definition defaultPrincipals :: "string list" where
  "defaultPrincipals = [''admin'', ''user'']"

fun want_caps :: "string \<Rightarrow> string list \<Rightarrow> (string, bool) gomap \<Rightarrow> (string, bool) gomap" where
  "want_caps kind [] want = want"
| "want_caps kind (name # names) want = want_caps kind names (gput (capString kind name) True want)"

fun off_row :: "string list \<Rightarrow> (string, bool) gomap \<Rightarrow> (string, bool) gomap" where
  "off_row [] row = row"
| "off_row (pr # prs) row = off_row prs (gput pr False row)"

fun add_rows :: "string list \<Rightarrow> policy \<Rightarrow> bool \<Rightarrow> policy \<times> bool" where
  "add_rows [] p changed = (p, changed)"
| "add_rows (cap # caps) p changed =
     (if ghas (granted p) cap then add_rows caps p changed
      else add_rows caps (p\<lparr>granted := gput cap (off_row (principals p) []) (granted p)\<rparr>) True)"

fun prune_rows :: "string \<Rightarrow> (string, bool) gomap \<Rightarrow> string list \<Rightarrow> policy \<Rightarrow> bool \<Rightarrow> policy \<times> bool" where
  "prune_rows pre want [] p changed = (p, changed)"
| "prune_rows pre want (cap # caps) p changed =
     (if has_prefix cap pre \<and> \<not> ggetz False want cap
      then prune_rows pre want caps (p\<lparr>granted := gdel cap (granted p)\<rparr>) True
      else prune_rows pre want caps p changed)"

definition reconcile :: "policy \<Rightarrow> string \<Rightarrow> string list \<Rightarrow> bool \<Rightarrow> policy \<times> bool" where
  "reconcile p kind names addOnly =
     (let p0 = (if principals p = [] then p\<lparr>principals := defaultPrincipals\<rparr> else p);
          want = want_caps kind names [];
          (p1, changed) = add_rows (gkeys want) p0 False
      in if addOnly \<or> want = [] then (p1, changed)
         else prune_rows (kind @ '':use:'') want (gkeys (granted p1)) p1 changed)"

subsection \<open>Well-formed matrices\<close>

definition policy_ok :: "policy \<Rightarrow> bool" where
  "policy_ok p \<longleftrightarrow> gmap_ok (granted p) \<and> (\<forall>c row. gget (granted p) c = Some row \<longrightarrow> gmap_ok row)"

lemma policy_ok_empty [simp]: "policy_ok emptyPolicy"
  by (simp add: policy_ok_def emptyPolicy_def)

lemma allows_None [simp]: "\<not> allows None c q"
  by (simp add: allows_def)

lemma allows_empty [simp]: "\<not> allows (Some emptyPolicy) c q"
  by (simp add: allows_def emptyPolicy_def)

lemma allows_row:
  "allows (Some p) c q \<longleftrightarrow> (\<exists>row. gget (granted p) c = Some row \<and> gget row q = Some True)"
  by (auto simp: allows_def ggetz_def split: option.splits)

lemma allows_cong: "granted p = granted p' \<Longrightarrow> allows (Some p) = allows (Some p')"
  by (simp add: allows_def fun_eq_iff)

subsection \<open>Lost grants\<close>

lemma lost_row_keys:
  "set (gkeys (lost_row nxt c row lost)) =
     set (gkeys lost) \<union> {q. (q, True) \<in> set row \<and> \<not> allows nxt c q}"
  by (induction nxt c row lost rule: lost_row.induct) (auto simp: keys_gput simp del: set_map)

lemma lost_rows_keys:
  "set (gkeys (lost_rows nxt rows lost)) =
     set (gkeys lost) \<union> {q. \<exists>c row. (c, row) \<in> set rows \<and> (q, True) \<in> set row \<and> \<not> allows nxt c q}"
  by (induction nxt rows lost rule: lost_rows.induct) (auto simp: lost_row_keys simp del: set_map)

lemma lost_row_ok: "gmap_ok lost \<Longrightarrow> gmap_ok (lost_row nxt c row lost)"
  by (induction nxt c row lost rule: lost_row.induct) auto

lemma lost_rows_ok: "gmap_ok lost \<Longrightarrow> gmap_ok (lost_rows nxt rows lost)"
  by (induction nxt rows lost rule: lost_rows.induct) (auto simp: lost_row_ok)

lemma allows_mem:
  assumes "policy_ok p"
  shows "allows (Some p) c q \<longleftrightarrow> (\<exists>row. (c, row) \<in> set (granted p) \<and> (q, True) \<in> set row)"
proof -
  have "gget row q = Some True \<longleftrightarrow> (q, True) \<in> set row" if "(c, row) \<in> set (granted p)" for row
    using assms that by (intro gget_mem) (auto simp: policy_ok_def)
  moreover have "gget (granted p) c = Some row \<longleftrightarrow> (c, row) \<in> set (granted p)" for row
    using assms by (intro gget_mem) (simp add: policy_ok_def)
  ultimately show ?thesis unfolding allows_row by blast
qed

lemma lostGrants_iff:
  "policy_ok old \<Longrightarrow>
     q \<in> set (lostGrants (Some old) nxt) \<longleftrightarrow> (\<exists>c. allows (Some old) c q \<and> \<not> allows nxt c q)"
  by (auto simp: lostGrants_def lost_rows_keys allows_mem simp del: set_map)

lemma lostGrants_distinct: "distinct (lostGrants old nxt)"
  by (auto simp: lostGrants_def lost_rows_ok split: option.splits)

subsection \<open>What reconciliation does\<close>

lemma off_row_get: "gget (off_row prs row) q = (if q \<in> set prs then Some False else gget row q)"
  by (induction prs row rule: off_row.induct) auto

lemma off_row_ok: "gmap_ok row \<Longrightarrow> gmap_ok (off_row prs row)"
  by (induction prs row rule: off_row.induct) auto

lemma want_caps_get:
  "gget (want_caps kind names want) c = (if c \<in> capString kind ` set names then Some True else gget want c)"
  by (induction kind names want rule: want_caps.induct) auto

lemma want_caps_Nil: "want_caps kind names [] = [] \<longleftrightarrow> names = []"
proof
  assume "want_caps kind names [] = []"
  then have "\<forall>c. gget (want_caps kind names []) c = None" by simp
  then show "names = []" unfolding want_caps_get by (cases names) (auto split: if_splits dest: spec[of _ "capString kind (hd names)"])
qed simp

lemma want_caps_keys: "set (gkeys (want_caps kind names [])) = capString kind ` set names"
proof -
  have "ghas (want_caps kind names []) c \<longleftrightarrow> c \<in> capString kind ` set names" for c
    unfolding ghas_def want_caps_get by auto
  then show ?thesis using ghas_iff[of "want_caps kind names []"] by blast
qed

lemma add_rows_spec:
  "add_rows caps p ch = (p', ch') \<Longrightarrow>
     principals p' = principals p
     \<and> (\<forall>c. gget (granted p') c = (if c \<in> set caps \<and> \<not> ghas (granted p) c
                                   then Some (off_row (principals p) []) else gget (granted p) c))
     \<and> (ch' \<longleftrightarrow> ch \<or> (\<exists>c \<in> set caps. \<not> ghas (granted p) c))
     \<and> (policy_ok p \<longrightarrow> policy_ok p')"
proof (induction caps p ch rule: add_rows.induct)
  case (2 cap caps p ch)
  show ?case
  proof (cases "ghas (granted p) cap")
    case True
    with 2 show ?thesis by auto
  next
    case False
    let ?q = "p\<lparr>granted := gput cap (off_row (principals p) []) (granted p)\<rparr>"
    from False 2(3) have "add_rows caps ?q True = (p', ch')" by simp
    note IH = 2(2)[OF False this]
    have "policy_ok p \<Longrightarrow> policy_ok ?q" by (simp add: policy_ok_def off_row_ok)
    with IH False show ?thesis by auto
  qed
qed simp

lemma prune_rows_spec:
  "prune_rows pre want caps p ch = (p', ch') \<Longrightarrow> set caps \<subseteq> set (gkeys (granted p)) \<Longrightarrow> distinct caps \<Longrightarrow>
     principals p' = principals p
     \<and> (\<forall>c. gget (granted p') c = (if c \<in> set caps \<and> has_prefix c pre \<and> \<not> ggetz False want c
                                   then None else gget (granted p) c))
     \<and> (ch' \<longleftrightarrow> ch \<or> (\<exists>c \<in> set caps. has_prefix c pre \<and> \<not> ggetz False want c))
     \<and> (policy_ok p \<longrightarrow> policy_ok p')"
proof (induction pre want caps p ch rule: prune_rows.induct)
  case (2 pre want cap caps p ch)
  show ?case
  proof (cases "has_prefix cap pre \<and> \<not> ggetz False want cap")
    case True
    let ?q = "p\<lparr>granted := gdel cap (granted p)\<rparr>"
    from True 2(3) have r: "prune_rows pre want caps ?q True = (p', ch')" by simp
    have sub: "set caps \<subseteq> set (gkeys (granted ?q))" using 2(4,5) by (auto simp: keys_gdel simp del: set_map)
    have "policy_ok p \<Longrightarrow> policy_ok ?q" by (auto simp: policy_ok_def split: if_splits)
    with 2(1)[OF True r sub] 2(5) True show ?thesis by auto
  next
    case False
    with 2(3) have r: "prune_rows pre want caps p ch = (p', ch')" by (simp split: if_splits)
    from 2(2)[OF False r] 2(4,5) False show ?thesis by auto
  qed
qed simp

lemma has_prefix_cap: "has_prefix c (kind @ '':use:'') \<longleftrightarrow> c \<in> range (capString kind)"
  by (auto simp: has_prefix_iff prefix_def capString_def)

definition seeded :: "policy \<Rightarrow> string list" where
  "seeded p = (if principals p = [] then defaultPrincipals else principals p)"

text \<open>The whole effect of \<^verbatim>\<open>reconcile\<close>, row by row.\<close>

lemma reconcile_rows:
  assumes "policy_ok p" and "reconcile p kind names addOnly = (p', changed)"
  shows "principals p' = seeded p" (is ?A)
    and "gget (granted p') c =
      (if c \<in> capString kind ` set names
       then (case gget (granted p) c of None \<Rightarrow> Some (off_row (seeded p) []) | Some row \<Rightarrow> Some row)
       else if \<not> addOnly \<and> names \<noteq> [] \<and> c \<in> range (capString kind) then None
       else gget (granted p) c)" (is ?B)
    and "policy_ok p'" (is ?C)
    and "changed \<longleftrightarrow> gget (granted p') \<noteq> gget (granted p)" (is ?D)
proof -
  let ?p0 = "if principals p = [] then p\<lparr>principals := defaultPrincipals\<rparr> else p"
  let ?w = "want_caps kind names []"
  let ?caps = "capString kind ` set names"
  obtain p1 ch where a: "add_rows (gkeys ?w) ?p0 False = (p1, ch)" by fastforce
  have p0: "granted ?p0 = granted p" "principals ?p0 = seeded p" "policy_ok ?p0"
    using assms(1) by (auto simp: seeded_def policy_ok_def)
  have A1: "principals p1 = seeded p" "policy_ok p1"
    "gget (granted p1) c = (if c \<in> ?caps \<and> \<not> ghas (granted p) c
        then Some (off_row (seeded p) []) else gget (granted p) c)"
    "ch \<longleftrightarrow> (\<exists>c \<in> ?caps. \<not> ghas (granted p) c)" for c
    using add_rows_spec[OF a] p0 by (simp_all add: want_caps_keys del: set_map)
  have "?A \<and> (\<forall>c. gget (granted p') c =
      (if c \<in> ?caps then (case gget (granted p) c of None \<Rightarrow> Some (off_row (seeded p) []) | Some row \<Rightarrow> Some row)
       else if \<not> addOnly \<and> names \<noteq> [] \<and> c \<in> range (capString kind) then None else gget (granted p) c))
    \<and> ?C \<and> (changed \<longleftrightarrow> (\<exists>c. gget (granted p') c \<noteq> gget (granted p) c))"
  proof (cases "addOnly \<or> names = []")
    case True
    with assms(2) a have "p' = p1" "changed = ch" by (auto simp: reconcile_def Let_def want_caps_Nil split: if_splits)
    with A1 True show ?thesis by (auto simp: ghas_def split: option.splits)
  next
    case False
    with assms(2) a have r: "prune_rows (kind @ '':use:'') ?w (gkeys (granted p1)) p1 ch = (p', changed)"
      by (auto simp: reconcile_def Let_def want_caps_Nil split: if_splits)
    have w: "ggetz False ?w c \<longleftrightarrow> c \<in> ?caps" for c unfolding ggetz_def want_caps_get by auto
    have d: "distinct (gkeys (granted p1))" using A1(2) by (simp add: policy_ok_def)
    have keys: "c \<in> set (gkeys (granted p1)) \<longleftrightarrow> gget (granted p1) c \<noteq> None" for c
      using ghas_iff[of "granted p1" c] by (simp add: ghas_def)
    note P = prune_rows_spec[OF r subset_refl d, unfolded has_prefix_cap w keys]
    have rows: "gget (granted p') c =
      (if c \<in> ?caps then (case gget (granted p) c of None \<Rightarrow> Some (off_row (seeded p) []) | Some row \<Rightarrow> Some row)
       else if c \<in> range (capString kind) then None else gget (granted p) c)" for c
      using P A1(3)[of c] by (auto simp: ghas_def split: option.splits)
    have "changed \<longleftrightarrow> ch \<or> (\<exists>c. gget (granted p1) c \<noteq> None \<and> c \<in> range (capString kind) \<and> c \<notin> ?caps)"
      using P keys by blast
    also have "\<dots> \<longleftrightarrow> (\<exists>c. gget (granted p') c \<noteq> gget (granted p) c)"
    proof -
      have "gget (granted p') c \<noteq> gget (granted p) c \<longleftrightarrow>
          (c \<in> ?caps \<and> \<not> ghas (granted p) c)
          \<or> (gget (granted p1) c \<noteq> None \<and> c \<in> range (capString kind) \<and> c \<notin> ?caps)" for c
        unfolding rows A1(3) by (cases "gget (granted p) c") (simp_all add: ghas_def)
      then show ?thesis unfolding A1(4) Bex_def by (simp only: ex_disj_distrib)
    qed
    finally have "changed \<longleftrightarrow> (\<exists>c. gget (granted p') c \<noteq> gget (granted p) c)" .
    moreover have "?A" "?C" using P A1(1,2) by simp_all
    ultimately show ?thesis using False rows by simp
  qed
  then show ?A ?B ?C ?D by (auto simp: fun_eq_iff)
qed

lemma seeded_ne: "seeded p \<noteq> []"
  by (simp add: seeded_def defaultPrincipals_def)

lemma add_rows_id: "\<forall>c \<in> set caps. ghas (granted p) c \<Longrightarrow> add_rows caps p ch = (p, ch)"
  by (induction caps p ch rule: add_rows.induct) auto

lemma prune_rows_id:
  "\<forall>c \<in> set caps. \<not> (has_prefix c pre \<and> \<not> ggetz False want c) \<Longrightarrow> prune_rows pre want caps p ch = (p, ch)"
  by (induction pre want caps p ch rule: prune_rows.induct) auto

lemma reconcile_stable:
  assumes "principals p \<noteq> []" and "\<forall>n \<in> set names. ghas (granted p) (capString kind n)"
    and "\<forall>c. ghas (granted p) c \<and> c \<in> range (capString kind) \<longrightarrow> c \<in> capString kind ` set names"
  shows "reconcile p kind names addOnly = (p, False)"
proof -
  have "add_rows (gkeys (want_caps kind names [])) p False = (p, False)"
    by (rule add_rows_id) (use assms(2) in \<open>auto simp: want_caps_keys simp del: set_map\<close>)
  moreover have "ggetz False (want_caps kind names []) c \<longleftrightarrow> c \<in> capString kind ` set names" for c
    unfolding ggetz_def want_caps_get by auto
  with assms(3) have "prune_rows (kind @ '':use:'') (want_caps kind names []) (gkeys (granted p)) p False = (p, False)"
    by (intro prune_rows_id) (auto simp: has_prefix_cap ghas_iff[symmetric] simp del: set_map)
  ultimately show ?thesis using assms(1) by (simp add: reconcile_def Let_def)
qed

lemma reconcile_never_grants:
  assumes "policy_ok p" and "reconcile p kind names addOnly = (p', changed)"
    and "allows (Some p') c q"
  shows "allows (Some p) c q"
  using assms(3) unfolding allows_row reconcile_rows(2)[OF assms(1,2)]
  by (auto simp: off_row_get split: if_splits option.splits)

lemma reconcile_keeps_grants:
  assumes "policy_ok p" and "reconcile p kind names addOnly = (p', changed)"
    and "allows (Some p) c q"
    and "addOnly \<or> names = [] \<or> c \<in> capString kind ` set names \<or> c \<notin> range (capString kind)"
  shows "allows (Some p') c q"
  using assms(3,4) unfolding allows_row reconcile_rows(2)[OF assms(1,2)]
  by (auto split: if_splits option.splits)

lemma capString_inject:
  "CHR '':'' \<notin> set k \<Longrightarrow> CHR '':'' \<notin> set k' \<Longrightarrow> capString k n = capString k' n' \<longleftrightarrow> k = k' \<and> n = n'"
  using append_sep_inject[of "CHR '':''" k k' "''use:'' @ n" "''use:'' @ n'"] by (simp add: capString_def)

definition demo_policy :: policy where
  "demo_policy = \<lparr>principals = [''admin''],
     granted = [(''tool:use:fs'', [(''admin'', True)]), (''tool:use:gone'', [(''admin'', True)]),
                (''skill:use:pdf'', [(''admin'', True)])]\<rparr>"

lemma demo_policy_ok: "policy_ok demo_policy"
  by (simp add: policy_ok_def demo_policy_def)

text \<open>
  Reconciling one kind of capability against its registered names makes the matrix mirror them:
  afterwards the capabilities of that kind are exactly the registered ones, a row that existed is
  kept cell for cell, a new row is off for every known principal, the rows of other kinds are
  untouched, nobody is allowed anything they were not allowed before, the reported change flag is
  exact, and a second reconciliation changes nothing.
\<close>

theorem reconcile_mirrors_registered:
  assumes "policy_ok p" and "names \<noteq> []" and "reconcile p kind names False = (p', changed)"
  shows "(\<forall>n. ghas (granted p') (capString kind n) \<longleftrightarrow> n \<in> set names)
    \<and> (\<forall>n \<in> set names. case gget (granted p) (capString kind n) of
          Some row \<Rightarrow> gget (granted p') (capString kind n) = Some row
        | None \<Rightarrow> (\<exists>row. gget (granted p') (capString kind n) = Some row
                     \<and> (\<forall>q. gget row q = (if q \<in> set (principals p') then Some False else None))))
    \<and> (\<forall>c. c \<notin> range (capString kind) \<longrightarrow> gget (granted p') c = gget (granted p) c)
    \<and> (\<forall>c q. allows (Some p') c q \<longrightarrow> allows (Some p) c q)
    \<and> (changed \<longleftrightarrow> gget (granted p') \<noteq> gget (granted p))
    \<and> reconcile p' kind names False = (p', False)"
proof -
  note R = reconcile_rows[OF assms(1,3)]
  have inj: "capString kind n \<in> capString kind ` set names \<longleftrightarrow> n \<in> set names" for n
    by (auto simp: capString_def)
  have "ghas (granted p') (capString kind n) \<longleftrightarrow> n \<in> set names" for n
    using assms(2) unfolding ghas_def R(2) inj by (auto split: option.splits)
  moreover have "principals p' \<noteq> []" by (simp add: R(1) seeded_ne)
  moreover from calculation have "reconcile p' kind names False = (p', False)"
    by (intro reconcile_stable) auto
  moreover have "\<forall>n \<in> set names. case gget (granted p) (capString kind n) of
          Some row \<Rightarrow> gget (granted p') (capString kind n) = Some row
        | None \<Rightarrow> (\<exists>row. gget (granted p') (capString kind n) = Some row
                     \<and> (\<forall>q. gget row q = (if q \<in> set (principals p') then Some False else None)))"
    unfolding R(1,2) inj by (auto simp: off_row_get split: option.splits)
  ultimately show ?thesis
    using R(2,4) reconcile_never_grants[OF assms(1,3)] by (auto simp del: ghas_iff)
qed

theorem reconcile_mirrors_registered_witness:
  "let p' = \<lparr>principals = [''admin''],
       granted = [(''tool:use:fs'', [(''admin'', True)]), (''skill:use:pdf'', [(''admin'', True)]),
                  (''tool:use:web'', [(''admin'', False)])]\<rparr>
   in reconcile demo_policy ''tool'' [''web'', ''fs''] False = (p', True)
      \<and> \<not> ghas (granted p') (capString ''tool'' ''gone'') \<and> allows (Some p') ''skill:use:pdf'' ''admin''
      \<and> reconcile p' ''tool'' [''web'', ''fs''] False = (p', False)"
proof -
  let ?p' = "\<lparr>principals = [''admin''],
       granted = [(''tool:use:fs'', [(''admin'', True)]), (''skill:use:pdf'', [(''admin'', True)]),
                  (''tool:use:web'', [(''admin'', False)])]\<rparr>"
  have e: "reconcile demo_policy ''tool'' [''web'', ''fs''] False = (?p', True)"
    by (simp add: reconcile_def demo_policy_def capString_def ghas_def ggetz_def)
  note T = reconcile_mirrors_registered[OF demo_policy_ok _ e]
  have "\<not> ghas (granted ?p') (capString ''tool'' ''gone'')" using T by simp
  moreover have "reconcile ?p' ''tool'' [''web'', ''fs''] False = (?p', False)" using T by simp
  moreover have "allows (Some ?p') ''skill:use:pdf'' ''admin''" by (simp add: allows_def ggetz_def)
  ultimately show ?thesis using e by (simp add: Let_def)
qed

text \<open>
  A catalogue that is known to be incomplete (add-only, or an empty registered set) never costs
  anyone a grant: the matrix allows after the reconciliation exactly what it allowed before.
\<close>

theorem reconcile_incomplete_keeps_all_grants:
  assumes "policy_ok p" and "addOnly \<or> names = []" and "reconcile p kind names addOnly = (p', changed)"
  shows "allows (Some p') c q \<longleftrightarrow> allows (Some p) c q"
  using reconcile_never_grants[OF assms(1,3)] reconcile_keeps_grants[OF assms(1,3)] assms(2) by blast

theorem reconcile_incomplete_keeps_all_grants_witness:
  "allows (Some (fst (reconcile demo_policy ''tool'' [''web''] True))) ''tool:use:gone'' ''admin''"
proof -
  have "reconcile demo_policy ''tool'' [''web''] True = (fst (reconcile demo_policy ''tool'' [''web''] True), True)"
    by (simp add: reconcile_def demo_policy_def capString_def ghas_def ggetz_def)
  from reconcile_incomplete_keeps_all_grants[OF demo_policy_ok _ this, of "''tool:use:gone''" "''admin''"]
  show ?thesis by (simp add: allows_def demo_policy_def ggetz_def)
qed

subsection \<open>The file round trip\<close>

text \<open>What the store relies on of the codec: marshalling a matrix succeeds, and reading the bytes
  back gives the same list of principals and the same cells, in some order.\<close>

definition yaml_codec :: "(policyFile \<Rightarrow> string + 'raw) \<Rightarrow> ('raw \<Rightarrow> string + policyFile) \<Rightarrow> bool" where
  "yaml_codec marshal unmarshal \<longleftrightarrow> (\<forall>f. \<exists>raw g. marshal f = Inr raw \<and> unmarshal raw = Inr g
     \<and> pf_Principals g = pf_Principals f
     \<and> (\<forall>c. map_option gget (gget (pf_Grants g) c) = map_option gget (gget (pf_Grants f) c)))"

lemma truthy_offOn [simp]: "truthy (offOn b) = b"
  by (simp add: truthy_def offOn_def to_lower_def trim_space_def is_space_def lower_char_def)

lemma gget_map_values: "gget (map (\<lambda>(k, v). (k, f v)) m) k = map_option f (gget m k)"
  by (induction m) auto

lemma gmap_keys_map_values: "gkeys (map (\<lambda>(k, v). (k, f v)) m) = gkeys m"
  by (induction m) auto

lemma fromFile_allows:
  "allows (Some (fromFile f)) c q \<longleftrightarrow>
     (\<exists>row. map_option gget (gget (pf_Grants f) c) = Some row \<and> (\<exists>s. row q = Some s \<and> truthy s))"
  by (auto simp: allows_row fromFile_def gget_map_values)

lemma toFile_allows:
  "(\<exists>row. map_option gget (gget (pf_Grants (toFile p)) c) = Some row \<and> (\<exists>s. row q = Some s \<and> truthy s))
     \<longleftrightarrow> allows (Some p) c q"
  by (auto simp: allows_row toFile_def gget_map_values)

text \<open>
  Saving a matrix and loading the file again gives a matrix that allows exactly the same and
  has the same principals, sorted; a save that cannot write leaves the file as it was.
\<close>

theorem save_load_roundtrip:
  assumes "yaml_codec marshal unmarshal"
  shows "\<exists>disk' q. Save marshal True p disk = (True, disk') \<and> Load unmarshal disk' = Inr q
    \<and> allows (Some q) = allows (Some p) \<and> principals q = sort (principals p)
    \<and> Save marshal False p disk = (False, disk)"
proof -
  let ?f = "(toFile p)\<lparr>pf_Principals := sort (principals p)\<rparr>"
  from assms obtain raw g where g: "marshal ?f = Inr raw" "unmarshal raw = Inr g"
    "pf_Principals g = pf_Principals ?f"
    "\<And>c. map_option gget (gget (pf_Grants g) c) = map_option gget (gget (pf_Grants ?f) c)"
    unfolding yaml_codec_def by meson
  have "allows (Some (fromFile g)) c q = allows (Some p) c q" for c q
    unfolding fromFile_allows g(4) using toFile_allows[of p c q] by simp
  with g show ?thesis
    by (intro exI[of _ "Contents raw"] exI[of _ "fromFile g"])
      (auto simp: Save_def SaveRaw_def Load_def fromFile_def Let_def fun_eq_iff)
qed

theorem save_load_roundtrip_witness:
  "\<exists>disk' q. Save Inr True demo_policy Missing = (True, disk') \<and> Load Inr disk' = Inr q
     \<and> allows (Some q) ''tool:use:fs'' ''admin''"
proof -
  have "yaml_codec Inr Inr" by (simp add: yaml_codec_def)
  note T = save_load_roundtrip[OF this, of demo_policy Missing]
  have "allows (Some demo_policy) ''tool:use:fs'' ''admin''"
    by (simp add: allows_def demo_policy_def ggetz_def)
  with T show ?thesis by metis
qed

end
