(* ===== verification/Warrant.thy ===== *)
theory Warrant
  imports Warrant_Policy Channel_Pool Go_Path
begin

section \<open>The capability authority\<close>

text \<open>
  \<^verbatim>\<open>src/leaf/warrant/30-authorize.go\<close>, \<^verbatim>\<open>40-channel.go\<close>, \<^verbatim>\<open>40-slash.go\<close>,
  \<^verbatim>\<open>70-spaces.go\<close>, the boot of \<^verbatim>\<open>00-module.go\<close>, the editor of \<^verbatim>\<open>90-panel.go\<close> and the
  projections of \<^verbatim>\<open>src/contract/97-subset.go\<close>: who may use what, the credential gate, the
  vending of channels to spaces, and the live replacement of the matrix with the revocation of the
  channels of whoever lost a grant.

  The manager is a record; every policy write is one operation (the code holds \<^verbatim>\<open>writeMu\<close>).
  What other components supply is an argument: the credential broker, the opening of a local
  shell or directory, the YAML codec, whether a write to disk succeeds.
\<close>

subsection \<open>Spaces\<close>

record spaceBackend =
  sb_Backend :: string
  sb_Credential :: string

type_synonym spaceConfig = "(string, spaceBackend) gomap"

datatype warrant_error =
    SpacesBroken
  | RemoteTerminalOnly string
  | EmptySpace
  | InvalidSpace string
  | FsFailed string
  | NoSshCredential string
  | NotGranted string
  | NoBroker
  | BuildFailed string
  | NotSshClient string
  | NotExecChannel
  | ListFailed string
  | NoneAuthorized string
  | ManyAuthorized string nat
  | CredentialOnLocal string
  | UnknownBackend string string

fun validate_spaces :: "(string \<times> spaceBackend) list \<Rightarrow> warrant_error option" where
  "validate_spaces [] = None"
| "validate_spaces ((name, be) # rest) =
     (if sb_Backend be = [] \<or> sb_Backend be = ''local'' then
        (if sb_Credential be \<noteq> [] then Some (CredentialOnLocal name) else validate_spaces rest)
      else if sb_Backend be = ''ssh'' then validate_spaces rest
      else Some (UnknownBackend name (sb_Backend be)))"

definition loadSpaces :: "('raw \<Rightarrow> string + spaceConfig) \<Rightarrow> 'raw disk_file \<Rightarrow> warrant_error + spaceConfig" where
  "loadSpaces decode disk =
     (case disk of
        Missing \<Rightarrow> Inr []
      | Unreadable err \<Rightarrow> Inl (FsFailed err)
      | Contents raw \<Rightarrow>
          (case decode raw of
             Inl err \<Rightarrow> Inl (FsFailed err)
           | Inr f \<Rightarrow> (case validate_spaces f of Some e \<Rightarrow> Inl e | None \<Rightarrow> Inr f)))"

definition backend :: "spaceConfig \<Rightarrow> string \<Rightarrow> spaceBackend" where
  "backend c space =
     (case gget c space of
        Some b \<Rightarrow> if sb_Backend b \<noteq> [] then b else \<lparr>sb_Backend = ''local'', sb_Credential = []\<rparr>
      | None \<Rightarrow> \<lparr>sb_Backend = ''local'', sb_Credential = []\<rparr>)"

definition spaceNameChar :: "char \<Rightarrow> bool" where
  "spaceNameChar c \<longleftrightarrow> between 65 90 c \<or> between 97 122 c \<or> between 48 57 c
     \<or> c = CHR ''_'' \<or> c = CHR ''.'' \<or> c = CHR ''-''"

definition sanitizeSpace :: "string \<Rightarrow> string" where
  "sanitizeSpace s = concat (map (\<lambda>r. if list_all spaceNameChar r then r else ''_'') (runes s))"

definition spaceNameRe :: "string \<Rightarrow> bool" where
  "spaceNameRe s \<longleftrightarrow> s \<noteq> [] \<and> list_all spaceNameChar s"

text \<open>\<^verbatim>\<open>strings.Trim(clean, ".") == ""\<close> says that the name has dots only.\<close>

definition SpaceLocalDir :: "string \<Rightarrow> string \<Rightarrow> warrant_error + string" where
  "SpaceLocalDir home space0 =
     (let space = trim_space space0;
          clean = sanitizeSpace space
      in if space = [] then Inl EmptySpace
         else if \<not> spaceNameRe clean then Inl (InvalidSpace space)
         else if list_all (\<lambda>c. c = CHR ''.'') clean then Inl (InvalidSpace space)
         else Inr (filepath_Join [home, ''spaces'', clean]))"

subsection \<open>Projections\<close>

record toolSpec =
  ts_Name :: string
  ts_Description :: string
  ts_Parameters :: string

record skillInfo =
  si_Name :: string
  si_Description :: string
  si_Triggers :: "string list"

record 'tool toolSubset =
  sub_byName :: "(string, 'tool) gomap"
  sub_specs :: "toolSpec list"

definition NewToolSubset :: "'tool toolSubset" where
  "NewToolSubset = \<lparr>sub_byName = [], sub_specs = []\<rparr>"

definition toolSubset_Add :: "'tool toolSubset \<Rightarrow> toolSpec \<Rightarrow> 'tool \<Rightarrow> 'tool toolSubset" where
  "toolSubset_Add s spec tool =
     s\<lparr>sub_byName := gput (ts_Name spec) tool (sub_byName s), sub_specs := sub_specs s @ [spec]\<rparr>"

definition toolSubset_Lookup :: "'tool toolSubset \<Rightarrow> string \<Rightarrow> 'tool option" where
  "toolSubset_Lookup s name = gget (sub_byName s) name"

record skillSubset =
  sks_infos :: "skillInfo list"
  sks_allowed :: "(string, unit) gomap"

definition NewSkillSubset :: skillSubset where
  "NewSkillSubset = \<lparr>sks_infos = [], sks_allowed = []\<rparr>"

definition skillSubset_Add :: "skillSubset \<Rightarrow> skillInfo \<Rightarrow> skillSubset" where
  "skillSubset_Add s info =
     s\<lparr>sks_infos := sks_infos s @ [info], sks_allowed := gput (si_Name info) () (sks_allowed s)\<rparr>"

text \<open>\<^verbatim>\<open>Get\<close>, \<^verbatim>\<open>Read\<close> and \<^verbatim>\<open>Files\<close> share the gate: the catalogue's own answer, for added names only.\<close>

definition skillSubset_Get :: "(string \<Rightarrow> 'skill option) option \<Rightarrow> skillSubset \<Rightarrow> string \<Rightarrow> 'skill option" where
  "skillSubset_Get cat s name =
     (case cat of None \<Rightarrow> None | Some get \<Rightarrow> if ghas (sks_allowed s) name then get name else None)"

type_synonym grantSet = "string list"

definition Granted :: "grantSet \<Rightarrow> string \<Rightarrow> bool" where
  "Granted g capability \<longleftrightarrow> capability \<in> set g"

subsection \<open>The manager\<close>

datatype client = SSHClient nat | OtherClient nat

record broker =
  br_NamesByKind :: "string \<Rightarrow> string + string list"
  br_Build :: "string \<Rightarrow> string + client"

datatype vchan = LocalExecChannel nat | SSHExecChannel nat | LocalFileChannel string

fun is_exec :: "vchan \<Rightarrow> bool" where
  "is_exec (LocalExecChannel n) = True"
| "is_exec (SSHExecChannel n) = True"
| "is_exec (LocalFileChannel root) = False"

record decision =
  d_allow :: bool
  d_identity :: string
  d_cap :: string

record ('tool, 'raw) manager =
  w_policy :: "policy option"
  w_specs :: "toolSpec list"
  w_tools :: "(string, 'tool) gomap"
  w_skills :: "(skillInfo list \<times> bool) option"
  w_home :: string
  w_pool :: "vchan pool option"
  w_broker :: "broker option"
  w_spacesBroken :: bool
  w_spaces :: spaceConfig
  w_policyBroken :: bool
  w_brokenOnce :: bool
  w_alerts :: nat
  w_disk :: "'raw disk_file"
  w_log :: "decision list"

text \<open>\<open>line\<close> says whether an admin line is registered now. The once is spent either way.\<close>

definition alertIfBroken :: "bool \<Rightarrow> ('tool, 'raw) manager \<Rightarrow> ('tool, 'raw) manager" where
  "alertIfBroken line m =
     (if \<not> w_policyBroken m then m
      else if w_brokenOnce m then m
      else m\<lparr>w_brokenOnce := True, w_alerts := (if line then Suc (w_alerts m) else w_alerts m)\<rparr>)"

definition logDecision :: "bool \<Rightarrow> string \<Rightarrow> string \<Rightarrow> ('tool, 'raw) manager \<Rightarrow> ('tool, 'raw) manager" where
  "logDecision allow identity cap m =
     m\<lparr>w_log := w_log m @ [\<lparr>d_allow = allow, d_identity = identity, d_cap = cap\<rparr>]\<rparr>"

definition Check :: "('tool, 'raw) manager \<Rightarrow> string \<Rightarrow> string \<Rightarrow> string \<Rightarrow> bool \<times> ('tool, 'raw) manager" where
  "Check m identity kind name =
     (let cap = capString kind name
      in if allows (w_policy m) cap identity then (True, logDecision True identity cap m)
         else (False, logDecision False identity cap m))"

definition Grants :: "bool \<Rightarrow> ('tool, 'raw) manager \<Rightarrow> string \<Rightarrow> grantSet \<times> ('tool, 'raw) manager" where
  "Grants line m identity =
     (case w_policy m of
        None \<Rightarrow> ([], alertIfBroken line m)
      | Some pol \<Rightarrow>
          (map fst (filter (\<lambda>(cap, row). ggetz False row identity) (granted pol)), alertIfBroken line m))"

fun authorize_loop :: "(string, 'tool) gomap \<Rightarrow> grantSet \<Rightarrow> toolSpec list \<Rightarrow> 'tool toolSubset \<Rightarrow> 'tool toolSubset" where
  "authorize_loop catalog grants [] out = out"
| "authorize_loop catalog grants (spec # specs) out =
     (if \<not> Granted grants (capString ''tool'' (ts_Name spec)) then authorize_loop catalog grants specs out
      else case gget catalog (ts_Name spec) of
             Some tool \<Rightarrow> authorize_loop catalog grants specs (toolSubset_Add out spec tool)
           | None \<Rightarrow> authorize_loop catalog grants specs out)"

definition Authorize :: "('tool, 'raw) manager \<Rightarrow> grantSet \<Rightarrow> toolSpec list \<Rightarrow> 'tool toolSubset" where
  "Authorize m grants specs = authorize_loop (w_tools m) grants specs NewToolSubset"

fun authorize_skills_loop :: "grantSet \<Rightarrow> skillInfo list \<Rightarrow> skillSubset \<Rightarrow> skillSubset" where
  "authorize_skills_loop grants [] out = out"
| "authorize_skills_loop grants (info # infos) out =
     (if \<not> Granted grants (capString ''skill'' (si_Name info)) then authorize_skills_loop grants infos out
      else authorize_skills_loop grants infos (skillSubset_Add out info))"

definition AuthorizeSkills :: "grantSet \<Rightarrow> skillInfo list \<Rightarrow> skillSubset" where
  "AuthorizeSkills grants infos = authorize_skills_loop grants infos NewSkillSubset"

definition ResolveCredential ::
  "string \<Rightarrow> ('tool, 'raw) manager \<Rightarrow> grantSet \<Rightarrow> string \<Rightarrow> (warrant_error + client) \<times> ('tool, 'raw) manager" where
  "ResolveCredential identity m grants kind =
     (case w_broker m of
        None \<Rightarrow> (Inl NoBroker, m)
      | Some b \<Rightarrow>
          (case br_NamesByKind b kind of
             Inl err \<Rightarrow> (Inl (ListFailed err), m)
           | Inr names \<Rightarrow>
               (case filter (\<lambda>n. Granted grants (capString ''credential'' n)) names of
                  [] \<Rightarrow> (Inl (NoneAuthorized kind), m)
                | [n] \<Rightarrow> (case br_Build b n of Inl err \<Rightarrow> Inl (BuildFailed err) | Inr c \<Rightarrow> Inr c,
                          logDecision True identity (capString ''credential'' n) m)
                | ns \<Rightarrow> (Inl (ManyAuthorized kind (length ns)), m))))"

subsection \<open>Vending channels\<close>

record chan_env =
  ce_now :: gtime
  ce_alive :: "vchan \<Rightarrow> bool"
  ce_open_exec :: "string \<Rightarrow> string \<Rightarrow> string + nat"
  ce_open_dir :: "string \<Rightarrow> string option"

definition File :: "chan_env \<Rightarrow> ('tool, 'raw) manager \<Rightarrow> string \<Rightarrow> warrant_error + vchan" where
  "File env m space =
     (if w_spacesBroken m then Inl SpacesBroken
      else if sb_Backend (backend (w_spaces m) space) = ''ssh'' then Inl (RemoteTerminalOnly space)
      else case SpaceLocalDir (w_home m) space of
             Inl e \<Rightarrow> Inl e
           | Inr root \<Rightarrow> (case ce_open_dir env root of
                            Some err \<Rightarrow> Inl (FsFailed err)
                          | None \<Rightarrow> Inr (LocalFileChannel root)))"

definition as_exec :: "vchan \<Rightarrow> warrant_error + vchan" where
  "as_exec ch = (if is_exec ch then Inr ch else Inl NotExecChannel)"

definition acquireExec ::
  "chan_env \<Rightarrow> ('tool, 'raw) manager \<Rightarrow> string \<Rightarrow> string \<Rightarrow> (warrant_error + vchan)
     \<Rightarrow> (warrant_error + vchan) \<times> ('tool, 'raw) manager" where
  "acquireExec env m identity space build =
     (case w_pool m of
        None \<Rightarrow> (case build of Inl e \<Rightarrow> (Inl e, m) | Inr ch \<Rightarrow> (as_exec ch, m))
      | Some pool \<Rightarrow>
          (case Acquire (ce_alive env) (ce_now env) pool
                  \<lparr>ck_Identity = trim_space identity, ck_Space = trim_space space, ck_Kind = ''exec''\<rparr> build of
             (Inl e, pool') \<Rightarrow> (Inl e, m\<lparr>w_pool := Some pool'\<rparr>)
           | (Inr ch, pool') \<Rightarrow> (as_exec ch, m\<lparr>w_pool := Some pool'\<rparr>)))"

definition ssh_build :: "broker \<Rightarrow> string \<Rightarrow> warrant_error + vchan" where
  "ssh_build b cred =
     (case br_Build b cred of
        Inl err \<Rightarrow> Inl (BuildFailed err)
      | Inr (SSHClient n) \<Rightarrow> Inr (SSHExecChannel n)
      | Inr (OtherClient n) \<Rightarrow> Inl (NotSshClient cred))"

definition sshExec ::
  "chan_env \<Rightarrow> ('tool, 'raw) manager \<Rightarrow> string \<Rightarrow> string \<Rightarrow> spaceBackend
     \<Rightarrow> (warrant_error + vchan) \<times> ('tool, 'raw) manager" where
  "sshExec env m identity space be =
     (if sb_Credential be = [] then (Inl (NoSshCredential space), m)
      else let (ok, m1) = Check m identity ''credential'' (sb_Credential be)
           in if \<not> ok then (Inl (NotGranted (capString ''credential'' (sb_Credential be))), m1)
              else case w_broker m1 of
                     None \<Rightarrow> (Inl NoBroker, m1)
                   | Some b \<Rightarrow> acquireExec env m1 identity space (ssh_build b (sb_Credential be)))"

definition Exec ::
  "chan_env \<Rightarrow> ('tool, 'raw) manager \<Rightarrow> string \<Rightarrow> string \<Rightarrow> (warrant_error + vchan) \<times> ('tool, 'raw) manager" where
  "Exec env m identity space =
     (if w_spacesBroken m then (Inl SpacesBroken, m)
      else let be = backend (w_spaces m) space
           in if sb_Backend be = ''ssh'' then sshExec env m identity space be
              else case SpaceLocalDir (w_home m) space of
                     Inl e \<Rightarrow> (Inl e, m)
                   | Inr dir \<Rightarrow>
                       let execHome = filepath_Join [w_home m, ''exec-home'', sanitizeSpace space]
                       in acquireExec env m identity space
                            (case ce_open_exec env dir execHome of
                               Inl err \<Rightarrow> Inl (FsFailed err)
                             | Inr n \<Rightarrow> Inr (LocalExecChannel n)))"

definition Cut :: "('tool, 'raw) manager \<Rightarrow> string \<Rightarrow> ('tool, 'raw) manager" where
  "Cut m identity =
     (case w_pool m of
        None \<Rightarrow> m
      | Some pool \<Rightarrow> m\<lparr>w_pool := Some (Recycle pool (trim_space identity))\<rparr>)"

subsection \<open>Boot, reload, editor\<close>

definition reconcile_all :: "('tool, 'raw) manager \<Rightarrow> policy \<Rightarrow> policy \<times> bool" where
  "reconcile_all m p =
     (let (p1, changed) = reconcile p ''tool'' (map ts_Name (w_specs m)) False
      in case w_skills m of
           None \<Rightarrow> (p1, changed)
         | Some (infos, degraded) \<Rightarrow>
             let (p2, changed2) = reconcile p1 ''skill'' (map si_Name infos) degraded
             in (p2, changed2 \<or> changed))"

definition reloadPolicyLocked ::
  "(policyFile \<Rightarrow> string + 'raw) \<Rightarrow> ('raw \<Rightarrow> string + policyFile) \<Rightarrow> bool \<Rightarrow> ('tool, 'raw) manager
     \<Rightarrow> (load_error + bool) \<times> ('tool, 'raw) manager" where
  "reloadPolicyLocked marshal unmarshal writable m =
     (case Load unmarshal (w_disk m) of
        Inl lerr \<Rightarrow> (Inl lerr, m)
      | Inr p0 \<Rightarrow>
          let (p, changed) = reconcile_all m p0;
              disk = (if changed then snd (Save marshal writable p (w_disk m)) else w_disk m);
              old = w_policy m;
              m1 = m\<lparr>w_disk := disk, w_policy := Some p\<rparr>;
              m2 = fold (\<lambda>i m. Cut m i) (lostGrants old (Some p)) m1
          in (Inr changed, m2\<lparr>w_policyBroken := False\<rparr>))"

text \<open>The part of the module's \<^verbatim>\<open>Start\<close> that builds the manager; \<open>m\<close> carries the catalogues, the
  pool, the broker and the disk.\<close>

definition boot ::
  "(policyFile \<Rightarrow> string + 'raw) \<Rightarrow> ('raw \<Rightarrow> string + policyFile) \<Rightarrow> bool \<Rightarrow> (warrant_error + spaceConfig)
     \<Rightarrow> ('tool, 'raw) manager \<Rightarrow> ('tool, 'raw) manager" where
  "boot marshal unmarshal writable loaded_spaces m =
     (let (p0, policyBroken) = LoadOrFailClosed (Load unmarshal (w_disk m));
          (p, changed) = (if policyBroken then (p0, False) else reconcile_all m p0);
          disk = (if changed then snd (Save marshal writable p (w_disk m)) else w_disk m);
          (spaces, spacesBroken) = (case loaded_spaces of Inl e \<Rightarrow> ([], True) | Inr s \<Rightarrow> (s, False))
      in m\<lparr>w_policy := Some p, w_policyBroken := policyBroken, w_disk := disk,
           w_spaces := spaces, w_spacesBroken := spacesBroken\<rparr>)"

datatype decode_result = EmptyDocument | DecodeError string | Decoded policyFile

datatype write_phase = Validate | Write | Reload

record writeResult =
  wr_Success :: bool
  wr_Phase :: write_phase

definition panel_apply ::
  "(policyFile \<Rightarrow> string + 'raw) \<Rightarrow> ('raw \<Rightarrow> string + policyFile) \<Rightarrow> ('raw \<Rightarrow> decode_result) \<Rightarrow> bool
     \<Rightarrow> string \<Rightarrow> 'raw \<Rightarrow> ('tool, 'raw) manager \<Rightarrow> writeResult \<times> ('tool, 'raw) manager" where
  "panel_apply marshal unmarshal strict writable sid body m =
     (if sid \<noteq> ''permissions.yaml'' then (\<lparr>wr_Success = False, wr_Phase = Validate\<rparr>, m)
      else
        let decoded = (case strict body of
                         DecodeError e \<Rightarrow> None
                       | EmptyDocument \<Rightarrow> Some \<lparr>pf_Principals = [], pf_Grants = []\<rparr>
                       | Decoded pf \<Rightarrow> Some pf)
        in case decoded of
             None \<Rightarrow> (\<lparr>wr_Success = False, wr_Phase = Validate\<rparr>, m)
           | Some pf \<Rightarrow>
               if pf_Principals pf = [] \<and> pf_Grants pf = []
               then (\<lparr>wr_Success = False, wr_Phase = Validate\<rparr>, m)
               else let (ok, disk) = SaveRaw writable body (w_disk m)
                    in if \<not> ok then (\<lparr>wr_Success = False, wr_Phase = Write\<rparr>, m\<lparr>w_disk := disk\<rparr>)
                       else case reloadPolicyLocked marshal unmarshal writable (m\<lparr>w_disk := disk\<rparr>) of
                              (Inl e, m') \<Rightarrow> (\<lparr>wr_Success = False, wr_Phase = Reload\<rparr>, m')
                            | (Inr changed, m') \<Rightarrow> (\<lparr>wr_Success = True, wr_Phase = Reload\<rparr>, m'))"

definition slashIdentity :: "bool \<Rightarrow> string" where
  "slashIdentity isAdmin = (if isAdmin then ''admin'' else ''user'')"

definition slashTools :: "bool \<Rightarrow> ('tool, 'raw) manager \<Rightarrow> bool \<Rightarrow> string list \<times> ('tool, 'raw) manager" where
  "slashTools line m isAdmin =
     (let (g, m1) = Grants line m (slashIdentity isAdmin)
      in (map ts_Name (sub_specs (Authorize m1 g (w_specs m1))), m1))"

datatype perm_reply = AdminOnly | ReloadFailed load_error | ReloadOkChanged | ReloadOk | Usage

definition slashPermission ::
  "(policyFile \<Rightarrow> string + 'raw) \<Rightarrow> ('raw \<Rightarrow> string + policyFile) \<Rightarrow> bool \<Rightarrow> bool \<Rightarrow> string
     \<Rightarrow> ('tool, 'raw) manager \<Rightarrow> perm_reply \<times> ('tool, 'raw) manager" where
  "slashPermission marshal unmarshal writable isAdmin args m =
     (if \<not> isAdmin then (AdminOnly, m)
      else if trim_space args = ''reload'' then
        (case reloadPolicyLocked marshal unmarshal writable m of
           (Inl e, m') \<Rightarrow> (ReloadFailed e, m')
         | (Inr True, m') \<Rightarrow> (ReloadOkChanged, m')
         | (Inr False, m') \<Rightarrow> (ReloadOk, m'))
      else (Usage, m))"

subsection \<open>Decisions\<close>

definition mgr_ok :: "('tool, 'raw) manager \<Rightarrow> bool" where
  "mgr_ok m \<longleftrightarrow> (case w_policy m of None \<Rightarrow> True | Some p \<Rightarrow> policy_ok p)
     \<and> (case w_pool m of None \<Rightarrow> True | Some p \<Rightarrow> pool_ok p)"

lemma Granted_Grants: "mgr_ok m \<Longrightarrow> Granted (fst (Grants line m q)) c \<longleftrightarrow> allows (w_policy m) c q"
proof (cases "w_policy m")
  case (Some p)
  moreover assume "mgr_ok m"
  ultimately have "gget (granted p) c = Some row \<longleftrightarrow> (c, row) \<in> set (granted p)" for row
    by (simp add: mgr_ok_def policy_ok_def)
  with Some show ?thesis
    by (auto simp: Granted_def Grants_def allows_row ggetz_def image_iff split: option.splits)
qed (simp add: Granted_def Grants_def)

definition demo_mgr :: "(nat, policyFile) manager" where
  "demo_mgr = \<lparr>w_policy = Some demo_policy,
     w_specs = [\<lparr>ts_Name = ''fs'', ts_Description = [], ts_Parameters = []\<rparr>,
                \<lparr>ts_Name = ''web'', ts_Description = [], ts_Parameters = []\<rparr>],
     w_tools = [(''fs'', 1), (''web'', 2)], w_skills = None, w_home = ''/srv/bob'',
     w_pool = Some \<lparr>chans = [(demo_key ''admin'', \<lparr>pl_ch = LocalExecChannel 1, pl_lastUsed = 5\<rparr>),
                             (demo_key ''user'', \<lparr>pl_ch = LocalExecChannel 2, pl_lastUsed = 5\<rparr>)], closed = []\<rparr>,
     w_broker = None, w_spacesBroken = False,
     w_spaces = [(''build'', \<lparr>sb_Backend = ''ssh'', sb_Credential = ''ci''\<rparr>)], w_policyBroken = False,
     w_brokenOnce = False, w_alerts = 0, w_disk = Contents \<lparr>pf_Principals = [''admin''], pf_Grants = []\<rparr>,
     w_log = []\<rparr>"

lemma demo_mgr_ok: "mgr_ok demo_mgr"
  by (simp add: mgr_ok_def demo_mgr_def demo_policy_ok pool_ok_def demo_key_def)

text \<open>
  The single-capability gate and the bulk projection never disagree: \<^verbatim>\<open>Check\<close> allows a
  principal a capability exactly when that capability is in the principal's \<^verbatim>\<open>Grants\<close>, and it
  leaves exactly one decision record with that verdict and nothing else changed.
\<close>

theorem check_agrees_with_grants:
  assumes "mgr_ok m" and "Check m q kind name = (ok, m')"
  shows "(ok \<longleftrightarrow> Granted (fst (Grants line m q)) (capString kind name))
    \<and> m' = m\<lparr>w_log := w_log m @ [\<lparr>d_allow = ok, d_identity = q, d_cap = capString kind name\<rparr>]\<rparr>"
  using assms(2) Granted_Grants[OF assms(1)]
  by (auto simp: Check_def logDecision_def Let_def split: if_splits)

theorem check_agrees_with_grants_witness:
  "\<exists>m'. Check demo_mgr ''admin'' ''tool'' ''fs'' = (True, m')
     \<and> Granted (fst (Grants True demo_mgr ''admin'')) (capString ''tool'' ''fs'')"
proof -
  let ?r = "Check demo_mgr ''admin'' ''tool'' ''fs''"
  have "fst ?r" by (simp add: Check_def demo_mgr_def demo_policy_def allows_def capString_def ggetz_def Let_def)
  then have e: "?r = (True, snd ?r)" by (metis prod.collapse)
  from check_agrees_with_grants[OF demo_mgr_ok e, of True] e show ?thesis by auto
qed

lemma authorize_loop_specs:
  "sub_specs (authorize_loop catalog grants specs out) = sub_specs out @
     filter (\<lambda>s. Granted grants (capString ''tool'' (ts_Name s)) \<and> ghas catalog (ts_Name s)) specs"
  by (induction catalog grants specs out rule: authorize_loop.induct)
    (auto simp: toolSubset_Add_def ghas_def split: option.splits)

lemma authorize_loop_lookup:
  "gget (sub_byName (authorize_loop catalog grants specs out)) n =
     (if n \<in> ts_Name ` set specs \<and> Granted grants (capString ''tool'' n) \<and> ghas catalog n
      then gget catalog n else gget (sub_byName out) n)"
  by (induction catalog grants specs out rule: authorize_loop.induct)
    (auto simp: toolSubset_Add_def ghas_def split: option.splits)

lemma authorize_skills_allowed:
  "ghas (sks_allowed (authorize_skills_loop grants infos out)) n \<longleftrightarrow>
     ghas (sks_allowed out) n \<or> (n \<in> si_Name ` set infos \<and> Granted grants (capString ''skill'' n))"
  by (induction grants infos out rule: authorize_skills_loop.induct) (auto simp: skillSubset_Add_def)

text \<open>
  The tool bag of a turn holds exactly what the matrix grants its principal: the specs
  advertised are the granted, catalogued ones in catalogue order, a lookup by name succeeds for
  exactly those with the catalogue's own tool, and a skill is readable exactly when it is granted.
\<close>

theorem authorize_exposes_exactly_granted:
  assumes "mgr_ok m" and "w_policy m = Some p"
  shows "sub_specs (Authorize m (fst (Grants line m q)) specs) =
      filter (\<lambda>s. allows (Some p) (capString ''tool'' (ts_Name s)) q \<and> ghas (w_tools m) (ts_Name s)) specs
    \<and> toolSubset_Lookup (Authorize m (fst (Grants line m q)) specs) n =
        (if n \<in> ts_Name ` set specs \<and> allows (Some p) (capString ''tool'' n) q then gget (w_tools m) n else None)
    \<and> skillSubset_Get (Some get) (AuthorizeSkills (fst (Grants line m q)) infos) n =
        (if n \<in> si_Name ` set infos \<and> allows (Some p) (capString ''skill'' n) q then get n else None)"
proof -
  note G = Granted_Grants[OF assms(1), of line q, unfolded assms(2)]
  have "ghas (sks_allowed (authorize_skills_loop (fst (Grants line m q)) infos NewSkillSubset)) n
      \<longleftrightarrow> n \<in> si_Name ` set infos \<and> allows (Some p) (capString ''skill'' n) q"
    by (simp add: authorize_skills_allowed G NewSkillSubset_def)
  moreover have "gget (w_tools m) n = None" if "\<not> ghas (w_tools m) n" using that by (simp add: ghas_def)
  ultimately show ?thesis
    by (simp add: Authorize_def AuthorizeSkills_def authorize_loop_specs authorize_loop_lookup G
        toolSubset_Lookup_def skillSubset_Get_def NewToolSubset_def)
qed

theorem authorize_exposes_exactly_granted_witness:
  "map ts_Name (sub_specs (Authorize demo_mgr (fst (Grants True demo_mgr ''admin'')) (w_specs demo_mgr))) = [''fs'']"
proof -
  have p: "w_policy demo_mgr = Some demo_policy" by (simp add: demo_mgr_def)
  have "map ts_Name (filter (\<lambda>s. allows (Some demo_policy) (capString ''tool'' (ts_Name s)) ''admin''
            \<and> ghas (w_tools demo_mgr) (ts_Name s)) (w_specs demo_mgr)) = [''fs'']"
    by (simp add: demo_mgr_def demo_policy_def allows_def capString_def ggetz_def ghas_def)
  then show ?thesis
    using authorize_exposes_exactly_granted[OF demo_mgr_ok p, of True "''admin''" "w_specs demo_mgr"]
    by metis
qed

text \<open>
  A credential is handed out only when exactly one credential of the kind is granted: success
  means that one name, and no other entry of the vault's list, is granted, that the broker built
  that very credential, and that the use was audited; none and several are errors that build nothing.
\<close>

theorem resolve_credential_unique:
  assumes "ResolveCredential q m grants kind = (r, m')"
  shows "case r of
      Inr c \<Rightarrow> (\<exists>b names n. w_broker m = Some b \<and> br_NamesByKind b kind = Inr names
                 \<and> filter (\<lambda>n. Granted grants (capString ''credential'' n)) names = [n]
                 \<and> br_Build b n = Inr c \<and> m' = logDecision True q (capString ''credential'' n) m)
    | Inl (NoneAuthorized k) \<Rightarrow> m' = m \<and> (\<exists>b names. w_broker m = Some b \<and> br_NamesByKind b kind = Inr names
                 \<and> list_all (\<lambda>n. \<not> Granted grants (capString ''credential'' n)) names)
    | Inl (ManyAuthorized k n) \<Rightarrow> m' = m \<and> 1 < n
    | Inl _ \<Rightarrow> True"
  using assms unfolding ResolveCredential_def
  by (auto simp: filter_empty_conv list_all_iff split: option.splits sum.splits list.splits warrant_error.splits)

definition demo_broker :: broker where
  "demo_broker = \<lparr>br_NamesByKind = (\<lambda>k. Inr [''ci'', ''prod'']), br_Build = (\<lambda>n. Inr (SSHClient 9))\<rparr>"

theorem resolve_credential_unique_witness:
  "\<exists>n. filter (\<lambda>n. Granted [''credential:use:ci''] (capString ''credential'' n)) [''ci'', ''prod''] = [n]
     \<and> br_Build demo_broker n = Inr (SSHClient 9)"
proof -
  let ?m = "demo_mgr\<lparr>w_broker := Some demo_broker\<rparr>"
  have "ResolveCredential ''admin'' ?m [''credential:use:ci''] ''ssh'' =
      (Inr (SSHClient 9), logDecision True ''admin'' ''credential:use:ci'' ?m)"
    by (simp add: ResolveCredential_def demo_broker_def Granted_def capString_def)
  from resolve_credential_unique[OF this] show ?thesis
    by (simp add: demo_broker_def Granted_def capString_def)
qed

subsection \<open>Replacing the matrix\<close>

text \<open>A decoded matrix is made of Go maps: its keys are distinct.\<close>

definition decodes_maps :: "('raw \<Rightarrow> string + policyFile) \<Rightarrow> bool" where
  "decodes_maps unmarshal \<longleftrightarrow> (\<forall>raw pf. unmarshal raw = Inr pf \<longrightarrow>
     gmap_ok (pf_Grants pf) \<and> (\<forall>c row. gget (pf_Grants pf) c = Some row \<longrightarrow> gmap_ok row))"

lemma Load_ok: "decodes_maps unmarshal \<Longrightarrow> Load unmarshal disk = Inr p \<Longrightarrow> policy_ok p"
proof -
  have "policy_ok (fromFile pf)" if "unmarshal raw = Inr pf" "decodes_maps unmarshal" for raw pf
    using that unfolding decodes_maps_def policy_ok_def fromFile_def
    by (auto simp: gget_map_values gmap_keys_map_values simp del: map_map)
  then show "decodes_maps unmarshal \<Longrightarrow> Load unmarshal disk = Inr p \<Longrightarrow> policy_ok p"
    by (auto simp: Load_def split: disk_file.splits sum.splits)
qed

lemma reconcile_all_facts:
  assumes "policy_ok p" and "reconcile_all m p = (p', changed)"
  shows "policy_ok p'" and "allows (Some p') c q \<Longrightarrow> allows (Some p) c q"
proof -
  obtain p1 ch where 1: "reconcile p ''tool'' (map ts_Name (w_specs m)) False = (p1, ch)" by fastforce
  note R1 = reconcile_rows(3)[OF assms(1) 1] reconcile_never_grants[OF assms(1) 1]
  show "policy_ok p'"
    using assms(2) 1 R1(1) reconcile_rows(3)[OF R1(1)]
    by (auto simp: reconcile_all_def Let_def split: option.splits prod.splits)
  show "allows (Some p') c q \<Longrightarrow> allows (Some p) c q"
    using assms(2) 1 R1(2) reconcile_never_grants[OF R1(1)]
    by (auto simp: reconcile_all_def Let_def split: option.splits prod.splits)
qed

lemma fold_Cut:
  "fold (\<lambda>i m. Cut m i) is m =
     m\<lparr>w_pool := map_option (fold (\<lambda>i p. Recycle p i) (map trim_space is)) (w_pool m)\<rparr>"
  by (induction "is" arbitrary: m) (auto simp: Cut_def option.map_id0 split: option.splits)

text \<open>The principals whose pooled channels a change of matrix must close: those whose trimmed
  name is that of a principal who lost a capability.\<close>

definition shrunk :: "policy option \<Rightarrow> policy \<Rightarrow> string \<Rightarrow> bool" where
  "shrunk old p who \<longleftrightarrow> (\<exists>q c. trim_space q = who \<and> allows old c q \<and> \<not> allows (Some p) c q)"

lemma lost_trimmed:
  assumes "mgr_ok m"
  shows "who \<in> set (map trim_space (lostGrants (w_policy m) (Some p))) \<longleftrightarrow> shrunk (w_policy m) p who"
proof (cases "w_policy m")
  case None
  then show ?thesis by (simp add: shrunk_def lostGrants_def)
next
  case (Some old)
  with assms have "policy_ok old" by (simp add: mgr_ok_def)
  from lostGrants_iff[OF this, of _ "Some p"] Some show ?thesis by (auto simp: shrunk_def)
qed

text \<open>
  C12. A live reload is all or nothing and revokes at once. If the file cannot be read or parsed the
  manager is unchanged. Otherwise the new matrix allows nothing that the file does not allow, the
  broken state is cleared, every pooled channel of a principal who lost a capability has been
  dropped from the pool and closed, and every other pooled channel is still there.
\<close>

theorem reload_revokes_lost_grants:
  assumes "mgr_ok m" and "decodes_maps unmarshal"
    and "reloadPolicyLocked marshal unmarshal writable m = (r, m')"
  shows "case r of
      Inl err \<Rightarrow> m' = m \<and> Load unmarshal (w_disk m) = Inl err
    | Inr changed \<Rightarrow>
        (\<exists>stored p. Load unmarshal (w_disk m) = Inr stored \<and> w_policy m' = Some p \<and> policy_ok p
          \<and> (\<forall>c q. allows (Some p) c q \<longrightarrow> allows (Some stored) c q)
          \<and> \<not> w_policyBroken m'
          \<and> (\<forall>pool. w_pool m = Some pool \<longrightarrow> (\<exists>pool'. w_pool m' = Some pool' \<and> pool_ok pool'
               \<and> (\<forall>key. holds pool' key = (if shrunk (w_policy m) p (ck_Identity key) then None else holds pool key))
               \<and> set (closed pool') = set (closed pool)
                   \<union> {ch. \<exists>key. shrunk (w_policy m) p (ck_Identity key) \<and> holds pool key = Some ch})))"
proof (cases "Load unmarshal (w_disk m)")
  case (Inl err)
  with assms(3) show ?thesis by (auto simp: reloadPolicyLocked_def)
next
  case (Inr stored)
  obtain p changed where rec: "reconcile_all m stored = (p, changed)" by fastforce
  note F = reconcile_all_facts[OF Load_ok[OF assms(2) Inr] rec]
  let ?is = "map trim_space (lostGrants (w_policy m) (Some p))"
  from Inr rec assms(3) have r: "r = Inr changed" "w_policy m' = Some p" "\<not> w_policyBroken m'"
    "w_pool m' = map_option (fold (\<lambda>i p. Recycle p i) ?is) (w_pool m)"
    by (auto simp: reloadPolicyLocked_def Let_def fold_Cut)
  have "\<exists>pool'. w_pool m' = Some pool' \<and> pool_ok pool'
      \<and> (\<forall>key. holds pool' key = (if shrunk (w_policy m) p (ck_Identity key) then None else holds pool key))
      \<and> set (closed pool') = set (closed pool)
          \<union> {ch. \<exists>key. shrunk (w_policy m) p (ck_Identity key) \<and> holds pool key = Some ch}"
    if "w_pool m = Some pool" for pool
  proof -
    from assms(1) that have "pool_ok pool" by (simp add: mgr_ok_def split: option.splits)
    from keeper.recycle_all[OF this, of ?is] that r(4) show ?thesis
      unfolding lost_trimmed[OF assms(1)] by simp
  qed
  with Inr r F show ?thesis by auto
qed

lemma decodes_demo: "decodes_maps (\<lambda>raw. if raw = (0::nat) then Inr \<lparr>pf_Principals = [], pf_Grants = []\<rparr> else Inl ''bad'')"
  by (simp add: decodes_maps_def)

theorem reload_revokes_lost_grants_witness:
  "let m = \<lparr>w_policy = Some demo_policy, w_specs = [], w_tools = [] :: (string \<times> nat) list, w_skills = None,
        w_home = ''/srv/bob'', w_pool = w_pool demo_mgr, w_broker = None, w_spacesBroken = False,
        w_spaces = [], w_policyBroken = False, w_brokenOnce = False, w_alerts = 0,
        w_disk = Contents (0::nat), w_log = []\<rparr>;
       m' = snd (reloadPolicyLocked (\<lambda>f. Inr 0)
              (\<lambda>raw. if raw = (0::nat) then Inr \<lparr>pf_Principals = [], pf_Grants = []\<rparr> else Inl ''bad'') True m)
   in \<exists>pool'. w_pool m' = Some pool' \<and> holds pool' (demo_key ''admin'') = None
        \<and> LocalExecChannel 1 \<in> set (closed pool')"
proof -
  let ?u = "\<lambda>raw. if raw = (0::nat) then Inr \<lparr>pf_Principals = [], pf_Grants = []\<rparr> else Inl ''bad''"
  let ?m = "\<lparr>w_policy = Some demo_policy, w_specs = [], w_tools = [] :: (string \<times> nat) list, w_skills = None,
        w_home = ''/srv/bob'', w_pool = w_pool demo_mgr, w_broker = None, w_spacesBroken = False,
        w_spaces = [], w_policyBroken = False, w_brokenOnce = False, w_alerts = 0,
        w_disk = Contents (0::nat), w_log = []\<rparr>"
  let ?r = "reloadPolicyLocked (\<lambda>f. Inr 0) ?u True ?m"
  have ok: "mgr_ok ?m" using demo_mgr_ok by (simp add: mgr_ok_def demo_mgr_def)
  have L: "Load ?u (w_disk ?m) = Inr (fromFile \<lparr>pf_Principals = [], pf_Grants = []\<rparr>)"
    by (simp add: Load_def)
  have "\<exists>ch. fst ?r = Inr ch" unfolding reloadPolicyLocked_def L by (simp add: Let_def case_prod_unfold)
  then obtain ch where "?r = (Inr ch, snd ?r)" by (metis prod.collapse)
  from reload_revokes_lost_grants[OF ok decodes_demo this] obtain p pool' where
    a: "\<forall>c q. allows (Some p) c q \<longrightarrow> allows (Some (fromFile \<lparr>pf_Principals = [], pf_Grants = []\<rparr>)) c q" and
    b: "w_pool (snd ?r) = Some pool'"
      "\<forall>key. holds pool' key = (if shrunk (w_policy ?m) p (ck_Identity key) then None else holds (the (w_pool ?m)) key)"
      "set (closed pool') = set (closed (the (w_pool ?m)))
         \<union> {ch. \<exists>key. shrunk (w_policy ?m) p (ck_Identity key) \<and> holds (the (w_pool ?m)) key = Some ch}"
    using L by (auto simp: demo_mgr_def)
  have "\<not> allows (Some p) ''tool:use:fs'' ''admin''"
    using a by (auto simp: fromFile_def allows_def emptyPolicy_def)
  moreover have "allows (Some demo_policy) ''tool:use:fs'' ''admin''" by (simp add: demo_policy_def allows_def ggetz_def)
  moreover have "trim_space ''admin'' = ''admin''" by (simp add: trim_space_def is_space_def)
  ultimately have s: "shrunk (w_policy ?m) p (ck_Identity (demo_key ''admin''))"
    by (auto simp: shrunk_def demo_key_def)
  have "holds (the (w_pool ?m)) (demo_key ''admin'') = Some (LocalExecChannel 1)"
    by (simp add: holds_def demo_mgr_def)
  with b s show ?thesis by (auto simp: Let_def)
qed

subsection \<open>Spaces and channels\<close>

lemma sanitize_chars: "list_all spaceNameChar (sanitizeSpace s)"
  by (auto simp: sanitizeSpace_def list_all_iff spaceNameChar_def)

lemma sanitize_Nil: "sanitizeSpace s = [] \<longleftrightarrow> s = []"
  using runes_ne[of _ s] by (cases "runes s") (auto simp: sanitizeSpace_def)

lemma space_name_normal:
  assumes "list_all spaceNameChar c" and "c \<noteq> []" and "\<not> list_all (\<lambda>c. c = CHR ''.'') c"
  shows "normal c"
proof -
  have "\<not> spaceNameChar (CHR ''/'')" by (simp add: spaceNameChar_def between_def)
  then have "CHR ''/'' \<notin> set c" using assms(1) by (auto simp: list_all_iff)
  with assms(2,3) show ?thesis by (auto simp: normal_def)
qed

text \<open>
  A space name cannot escape its place: whatever the name, the directory of a space under an
  absolute clean home is \<^verbatim>\<open>home/spaces/c\<close> for one ordinary component \<open>c\<close>, never \<^verbatim>\<open>.\<close> or
  \<^verbatim>\<open>..\<close>, and only an empty or pure-dot name is refused.
\<close>

theorem space_dir_confined:
  assumes "\<forall>c \<in> set hs. normal c"
  shows "case SpaceLocalDir (abs_path hs) space of
      Inr d \<Rightarrow> (\<exists>c. normal c \<and> d = abs_path (hs @ [''spaces'', c]))
    | Inl e \<Rightarrow> trim_space space = [] \<or> list_all (\<lambda>c. c = CHR ''.'') (sanitizeSpace (trim_space space))"
proof -
  let ?c = "sanitizeSpace (trim_space space)"
  have "filepath_Join [abs_path hs, ''spaces'', ?c] = abs_path (hs @ [''spaces'', ?c])" if "normal ?c"
    by (rule Join_under) (use that assms in \<open>auto simp: normal_def\<close>)
  moreover have "normal ?c" if "?c \<noteq> []" "\<not> list_all (\<lambda>c. c = CHR ''.'') ?c"
    using space_name_normal sanitize_chars that by blast
  ultimately show ?thesis using sanitize_chars[of "trim_space space"]
    by (auto simp: SpaceLocalDir_def Let_def spaceNameRe_def sanitize_Nil)
qed

theorem space_dir_confined_witness:
  "\<exists>c. normal c \<and> SpaceLocalDir ''/srv'' ''../../etc'' = Inr (abs_path [''srv'', ''spaces'', c])"
proof -
  have "\<forall>c \<in> set [''srv'']. normal c" by (simp add: normal_def)
  from space_dir_confined[OF this, of "''../../etc''"]
  have t: "case SpaceLocalDir ''/srv'' ''../../etc'' of
      Inr d \<Rightarrow> (\<exists>c. normal c \<and> d = abs_path [''srv'', ''spaces'', c])
    | Inl e \<Rightarrow> trim_space ''../../etc'' = [] \<or> list_all (\<lambda>c. c = CHR ''.'') (sanitizeSpace (trim_space ''../../etc''))"
    by (simp add: abs_path_def split: sum.splits)
  have "trim_space ''../../etc'' = ''../../etc''" by (simp add: trim_space_def is_space_def)
  moreover have "sanitizeSpace ''../../etc'' = ''.._.._etc''"
    by (simp add: sanitizeSpace_def rune_tail_def between_def spaceNameChar_def)
  ultimately show ?thesis using t by (auto split: sum.splits)
qed

text \<open>
  A shell on a remote space is vended only through the credential gate: whenever \<^verbatim>\<open>Exec\<close>
  returns a channel for a space configured as ssh, the space names a credential, the live matrix
  grants exactly that credential to the caller at that moment, a broker is present, and the allow
  decision was recorded. With a broken space configuration nothing is vended at all.
\<close>

theorem exec_remote_requires_grant:
  assumes "Exec env m identity space = (Inr ch, m')"
    and "sb_Backend (backend (w_spaces m) space) = ''ssh''"
  shows "\<not> w_spacesBroken m \<and> sb_Credential (backend (w_spaces m) space) \<noteq> []
    \<and> allows (w_policy m) (capString ''credential'' (sb_Credential (backend (w_spaces m) space))) identity
    \<and> w_broker m \<noteq> None
    \<and> w_log m' = w_log m @ [\<lparr>d_allow = True, d_identity = identity,
        d_cap = capString ''credential'' (sb_Credential (backend (w_spaces m) space))\<rparr>]"
proof -
  let ?be = "backend (w_spaces m) space"
  have log: "w_log m2 = w_log m1" if "acquireExec env m1 i sp b = (r, m2)" for m1 m2 :: "('a, 'b) manager" and i sp b r
    using that by (auto simp: acquireExec_def split: option.splits sum.splits prod.splits)
  from assms have s: "\<not> w_spacesBroken m" "sshExec env m identity space ?be = (Inr ch, m')"
    by (auto simp: Exec_def Let_def split: if_splits)
  from s(2) show ?thesis
    by (auto simp: s(1) sshExec_def Check_def Let_def logDecision_def dest!: log split: if_splits option.splits)
qed

theorem exec_remote_requires_grant_witness:
  "let m = demo_mgr\<lparr>w_broker := Some demo_broker, w_pool := None,
        w_policy := Some \<lparr>principals = [''ops''], granted = [(''credential:use:ci'', [(''ops'', True)])]\<rparr>\<rparr>;
       env = \<lparr>ce_now = 1, ce_alive = (\<lambda>c. True), ce_open_exec = (\<lambda>d h. Inr 4), ce_open_dir = (\<lambda>d. None)\<rparr>
   in fst (Exec env m ''ops'' ''build'') = Inr (SSHExecChannel 9)
      \<and> allows (w_policy m) ''credential:use:ci'' ''ops''"
proof -
  let ?m = "demo_mgr\<lparr>w_broker := Some demo_broker, w_pool := None,
        w_policy := Some \<lparr>principals = [''ops''], granted = [(''credential:use:ci'', [(''ops'', True)])]\<rparr>\<rparr>"
  let ?env = "\<lparr>ce_now = 1, ce_alive = (\<lambda>c. True), ce_open_exec = (\<lambda>d h. Inr 4), ce_open_dir = (\<lambda>d. None)\<rparr>"
  let ?r = "Exec ?env ?m ''ops'' ''build''"
  have b: "backend (w_spaces ?m) ''build'' = \<lparr>sb_Backend = ''ssh'', sb_Credential = ''ci''\<rparr>"
    by (simp add: backend_def demo_mgr_def)
  have f: "fst ?r = Inr (SSHExecChannel 9)"
    by (simp add: Exec_def backend_def sshExec_def Check_def allows_def capString_def ggetz_def acquireExec_def
        ssh_build_def demo_broker_def as_exec_def logDecision_def Let_def demo_mgr_def)
  then have "?r = (Inr (SSHExecChannel 9), snd ?r)" by (metis prod.collapse)
  from exec_remote_requires_grant[OF this] b f show ?thesis by (simp add: Let_def capString_def)
qed

text \<open>
  The routing decision is made on the name as given while the pool and the directory use the
  trimmed name: a padded name of an ssh space is served by the local backend, without any credential
  check and without an audit record, and can even be handed the pooled channel of the ssh space.
\<close>

theorem exec_padded_space_skips_gate:
  assumes "gget (w_spaces m) padded = None" and "\<not> w_spacesBroken m"
    and "SpaceLocalDir (w_home m) padded = Inr dir" and "w_pool m = Some pool"
    and "holds pool \<lparr>ck_Identity = trim_space identity, ck_Space = trim_space padded, ck_Kind = ''exec''\<rparr> = Some ch"
    and "ce_alive env ch" and "is_exec ch"
  shows "\<exists>m'. Exec env m identity padded = (Inr ch, m') \<and> w_log m' = w_log m"
  using assms
  by (auto simp: Exec_def backend_def Let_def acquireExec_def Acquire_def acquire_fast_def holds_def as_exec_def)

theorem exec_padded_space_skips_gate_witness:
  "let m = demo_mgr\<lparr>w_pool := Some \<lparr>chans = [(\<lparr>ck_Identity = ''user'', ck_Space = ''build'', ck_Kind = ''exec''\<rparr>,
              \<lparr>pl_ch = SSHExecChannel 9, pl_lastUsed = 5\<rparr>)], closed = []\<rparr>\<rparr>;
       env = \<lparr>ce_now = 6, ce_alive = (\<lambda>c. True), ce_open_exec = (\<lambda>d h. Inr 4), ce_open_dir = (\<lambda>d. None)\<rparr>
   in \<exists>m'. Exec env m ''user'' '' build'' = (Inr (SSHExecChannel 9), m') \<and> w_log m' = w_log m"
proof -
  let ?m = "demo_mgr\<lparr>w_pool := Some \<lparr>chans = [(\<lparr>ck_Identity = ''user'', ck_Space = ''build'', ck_Kind = ''exec''\<rparr>,
              \<lparr>pl_ch = SSHExecChannel 9, pl_lastUsed = 5\<rparr>)], closed = []\<rparr>\<rparr>"
  let ?env = "\<lparr>ce_now = 6, ce_alive = (\<lambda>c. True), ce_open_exec = (\<lambda>d h. Inr 4), ce_open_dir = (\<lambda>d. None)\<rparr>"
  have t: "trim_space '' build'' = ''build''" "trim_space ''user'' = ''user''"
    by (simp_all add: trim_space_def is_space_def)
  have "sanitizeSpace ''build'' = ''build''"
    by (simp add: sanitizeSpace_def rune_tail_def between_def spaceNameChar_def)
  then have d: "SpaceLocalDir (w_home ?m) '' build'' = Inr (filepath_Join [w_home ?m, ''spaces'', ''build''])"
    by (simp add: SpaceLocalDir_def Let_def t spaceNameRe_def spaceNameChar_def between_def)
  have "\<exists>m'. Exec ?env ?m ''user'' '' build'' = (Inr (SSHExecChannel 9), m') \<and> w_log m' = w_log ?m"
  proof (rule exec_padded_space_skips_gate[OF _ _ d])
    show "w_pool ?m = Some (the (w_pool ?m))" by simp
    show "holds (the (w_pool ?m)) \<lparr>ck_Identity = trim_space ''user'', ck_Space = trim_space '' build'',
        ck_Kind = ''exec''\<rparr> = Some (SSHExecChannel 9)" by (simp add: t holds_def)
  qed (simp_all add: demo_mgr_def)
  then show ?thesis by (simp only: Let_def)
qed

text \<open>
  A corrupt permission source fails closed: after a boot on a file that cannot be read or parsed
  nobody is allowed anything, every projection is empty, the file is left exactly as it was, and
  reading the grants raises one alert on the admin line and no second one.
\<close>

theorem boot_fails_closed:
  assumes "Load unmarshal (w_disk m0) = Inl e" and "m = boot marshal unmarshal writable sp m0"
    and "\<not> w_brokenOnce m0"
  shows "\<not> allows (w_policy m) c q \<and> fst (Grants True m q) = [] \<and> w_disk m = w_disk m0
    \<and> w_alerts (snd (Grants True m q)) = Suc (w_alerts m0)
    \<and> w_alerts (snd (Grants True (snd (Grants True m q)) q')) = Suc (w_alerts m0)"
  using assms
  by (auto simp: boot_def LoadOrFailClosed_def Let_def Grants_def alertIfBroken_def emptyPolicy_def allows_def
      split: sum.splits)

theorem boot_fails_closed_witness:
  "fst (Grants True (boot Inr (\<lambda>f. Inl ''bad yaml'') True (Inr []) demo_mgr) ''admin'') = []"
proof -
  have "Load (\<lambda>f. Inl ''bad yaml'') (w_disk demo_mgr) = Inl (ParseError ''bad yaml'')"
    by (simp add: Load_def demo_mgr_def)
  moreover have "\<not> w_brokenOnce demo_mgr" by (simp add: demo_mgr_def)
  ultimately show ?thesis using boot_fails_closed[of "\<lambda>f. Inl ''bad yaml''" demo_mgr _ _ Inr True "Inr []"] by blast
qed

end
