(* ===== verification/Warrant_Files.thy ===== *)
theory Warrant_Files
  imports Warrant Contract_Message
begin

section \<open>Files of a space\<close>

text \<open>
  \<^verbatim>\<open>src/leaf/warrant/50-localfs.go\<close> and \<^verbatim>\<open>45-placement.go\<close>: the resolution of a
  model-supplied path under the root of a space with its lexical and symbolic-link confinement, and
  the placement of inbound attachments into the space under a safe, unclaimed name.

  \<^verbatim>\<open>filepath.EvalSymlinks\<close> is a function from a path to its real path, \<open>None\<close> when it fails. The
  climb to the deepest ancestor on which it succeeds has fuel, one more than the length of the path;
  \<open>probe_deepest\<close> shows that it always suffices for an absolute clean path. The inbox directory is
  the list of its file names, and whether the directory can be made and a file moved are inputs.
\<close>

datatype resolve_error = EscapesLexically string | EscapesBySymlink string | RefusesRoot

definition under_root :: "string \<Rightarrow> string \<Rightarrow> bool" where
  "under_root root p \<longleftrightarrow> p = root \<or> has_prefix p (root @ ''/'')"

fun probe :: "nat \<Rightarrow> (string \<Rightarrow> string option) \<Rightarrow> string \<Rightarrow> string \<Rightarrow> bool option" where
  "probe 0 evalSymlinks realRoot p = None"
| "probe (Suc n) evalSymlinks realRoot p =
     (case evalSymlinks p of
        Some real \<Rightarrow> Some (under_root realRoot real)
      | None \<Rightarrow>
          let parent = filepath_Dir p
          in if parent = p then Some True else probe n evalSymlinks realRoot parent)"

definition resolve :: "(string \<Rightarrow> string option) \<Rightarrow> string \<Rightarrow> string \<Rightarrow> string \<Rightarrow> (resolve_error + string) option" where
  "resolve evalSymlinks root realRoot rel =
     (let clean = filepath_Clean (''/'' @ rel);
          full = filepath_Join [root, clean]
      in if \<not> under_root root full then Some (Inl (EscapesLexically rel))
         else case probe (Suc (length full)) evalSymlinks realRoot full of
                None \<Rightarrow> None
              | Some False \<Rightarrow> Some (Inl (EscapesBySymlink rel))
              | Some True \<Rightarrow> Some (Inr full))"

text \<open>\<^verbatim>\<open>Remove\<close> up to its call of \<^verbatim>\<open>os.RemoveAll\<close>: the path that would be removed.\<close>

definition remove_target :: "(string \<Rightarrow> string option) \<Rightarrow> string \<Rightarrow> string \<Rightarrow> string \<Rightarrow> (resolve_error + string) option" where
  "remove_target evalSymlinks root realRoot path =
     (case resolve evalSymlinks root realRoot path of
        Some (Inr full) \<Rightarrow> if full = root then Some (Inl RefusesRoot) else Some (Inr full)
      | r \<Rightarrow> r)"

subsection \<open>Inbox names\<close>

definition alnum :: "char \<Rightarrow> bool" where
  "alnum c \<longleftrightarrow> between 65 90 c \<or> between 97 122 c \<or> between 48 57 c"

definition inboxSafe :: "char \<Rightarrow> bool" where
  "inboxSafe c \<longleftrightarrow> alnum c \<or> c = CHR ''.'' \<or> c = CHR ''_'' \<or> c = CHR ''-''"

text \<open>\<^verbatim>\<open>unsafeInboxChar.ReplaceAllString(stem, "_")\<close>: each maximal run of unsafe bytes becomes one
  underscore; the flag says that the previous byte was in such a run.\<close>

fun collapse_unsafe :: "bool \<Rightarrow> string \<Rightarrow> string" where
  "collapse_unsafe inrun [] = []"
| "collapse_unsafe inrun (c # s) =
     (if inboxSafe c then c # collapse_unsafe False s
      else if inrun then collapse_unsafe True s
      else CHR ''_'' # collapse_unsafe True s)"

definition inboxExt :: "string \<Rightarrow> bool" where
  "inboxExt e \<longleftrightarrow> (case e of [] \<Rightarrow> False
     | d # r \<Rightarrow> d = CHR ''.'' \<and> 1 \<le> length r \<and> length r \<le> 8 \<and> list_all alnum r)"

definition trim_suffix :: "string \<Rightarrow> string \<Rightarrow> string" where
  "trim_suffix s suf = (if suffix suf s then take (length s - length suf) s else s)"

definition trim_set :: "(char \<Rightarrow> bool) \<Rightarrow> string \<Rightarrow> string" where
  "trim_set P s = rev (dropWhile P (rev (dropWhile P s)))"

definition inboxBaseName :: "string \<Rightarrow> string" where
  "inboxBaseName fileName =
     (let n = filepath_Base (trim_space fileName);
          ext = (if inboxExt (filepath_Ext n) then filepath_Ext n else []);
          stem = trim_set (\<lambda>c. c = CHR ''.'' \<or> c = CHR ''_'' \<or> c = CHR ''-'') (collapse_unsafe False (trim_suffix n ext))
      in if stem = [] \<and> ext = [] then []
         else let stem' = (if stem = [] then ''file'' else stem);
                  keep = 80 - length ext
              in (if keep < length stem' then take keep stem' else stem') @ ext)"

fun digits :: "nat \<Rightarrow> string" where
  "digits n = (if n < 10 then [char_of (48 + n)] else digits (n div 10) @ [char_of (48 + n mod 10)])"

declare digits.simps [simp del]

datatype create_result = Created | AlreadyExists | CreateFailed

text \<open>The names tried, in order, from the \<open>i\<close>-th of at most 999.\<close>

definition candidate :: "string \<Rightarrow> nat \<Rightarrow> string" where
  "candidate base i =
     (let ext = filepath_Ext base;
          stem = trim_suffix base ext
      in if 1 < i then stem @ ''-'' @ digits i @ ext else base)"

function reserve_loop :: "(string \<Rightarrow> create_result) \<Rightarrow> string \<Rightarrow> nat \<Rightarrow> string \<times> string option" where
  "reserve_loop create base i =
     (if i < 1000 then
        (case create (candidate base i) of
           Created \<Rightarrow> (candidate base i, Some (candidate base i))
         | AlreadyExists \<Rightarrow> reserve_loop create base (Suc i)
         | CreateFailed \<Rightarrow> (base, None))
      else (base, None))"
  by pat_completeness auto
termination by (relation "measure (\<lambda>(create, base, i). 1000 - i)") auto

declare reserve_loop.simps [simp del]

text \<open>The chosen name, and the placeholder the call created, if any.\<close>

definition reserveInboxName :: "(string \<Rightarrow> create_result) \<Rightarrow> string \<Rightarrow> string \<times> string option" where
  "reserveInboxName create base = reserve_loop create base 1"

subsection \<open>Placement\<close>

record place_env =
  pe_create :: "string list \<Rightarrow> string \<Rightarrow> create_result"
  pe_move :: "string \<Rightarrow> string \<Rightarrow> bool"
  pe_mkdir :: bool

definition clearUnplaced :: "attachment list \<Rightarrow> attachment list" where
  "clearUnplaced = map (\<lambda>a. if at_LocalPath a \<noteq> [] then a\<lparr>at_Path := []\<rparr> else a)"

definition place_one :: "place_env \<Rightarrow> string \<Rightarrow> string list \<Rightarrow> attachment \<Rightarrow> attachment \<times> string list" where
  "place_one env inbox dir a =
     (let b = inboxBaseName (at_FileName a);
          (base, placeholder) = (if b = [] then (filepath_Base (at_LocalPath a), None)
                                 else reserveInboxName (pe_create env dir) b);
          dir1 = (case placeholder of None \<Rightarrow> dir | Some n \<Rightarrow> List.insert n dir);
          dst = filepath_Join [inbox, base]
      in if pe_move env (at_LocalPath a) dst
         then (a\<lparr>at_Path := ''inbox/'' @ base, at_LocalPath := []\<rparr>, List.insert base dir1)
         else (a\<lparr>at_Path := []\<rparr>, if b = [] then dir1 else removeAll base dir1))"

fun place_loop :: "place_env \<Rightarrow> string \<Rightarrow> bool \<Rightarrow> attachment list \<Rightarrow> attachment list \<Rightarrow> string list
    \<Rightarrow> attachment list \<times> string list" where
  "place_loop env inbox made placed [] dir = (placed, dir)"
| "place_loop env inbox made placed (a # atts) dir =
     (if at_LocalPath a = [] then place_loop env inbox made (placed @ [a\<lparr>at_Path := []\<rparr>]) atts dir
      else if \<not> made \<and> \<not> pe_mkdir env then (clearUnplaced (placed @ a # atts), dir)
      else let (a', dir') = place_one env inbox dir a
           in place_loop env inbox True (placed @ [a']) atts dir')"

definition PlaceAttachments :: "place_env \<Rightarrow> string \<Rightarrow> string \<Rightarrow> attachment list \<Rightarrow> string list
    \<Rightarrow> attachment list \<times> string list" where
  "PlaceAttachments env home scope atts dir =
     (if atts = [] then (atts, dir)
      else case SpaceLocalDir home scope of
             Inl e \<Rightarrow> (clearUnplaced atts, dir)
           | Inr d \<Rightarrow> place_loop env (filepath_Join [d, ''inbox'']) False [] atts dir)"

subsection \<open>Confinement\<close>

lemma length_abs_path: "\<forall>c \<in> set cs. normal c \<Longrightarrow> length cs \<le> length (join ''/'' cs)"
proof (induction cs rule: induct_list012)
  case (2 c)
  then show ?case by (cases c) (auto dest: normalD(1))
next
  case (3 a b cs)
  then show ?case by (cases a) (auto dest: normalD(1))
qed simp

text \<open>The real path of the longest prefix of a path on which the resolution of links succeeds. A prefix on
  which it fails counts as absent, whatever the reason: a component that is missing, one that may not be read,
  or a link whose target is missing.\<close>

definition resolving :: "(string \<Rightarrow> string option) \<Rightarrow> string list \<Rightarrow> nat list" where
  "resolving ev cs = filter (\<lambda>k. ev (abs_path (take k cs)) \<noteq> None) [0..<Suc (length cs)]"

definition deepest_real :: "(string \<Rightarrow> string option) \<Rightarrow> string list \<Rightarrow> string option" where
  "deepest_real ev cs = (if resolving ev cs = [] then None else ev (abs_path (take (last (resolving ev cs)) cs)))"

lemma deepest_real_full: "ev (abs_path cs) = Some real \<Longrightarrow> deepest_real ev cs = Some real"
  by (simp add: deepest_real_def resolving_def)

lemma deepest_real_skip:
  assumes "ev (abs_path cs) = None" and "cs \<noteq> []"
  shows "deepest_real ev cs = deepest_real ev (butlast cs)"
proof -
  have tk: "take k (butlast cs) = take k cs" if "k < length cs" for k using that by (rule take_butlast)
  have "resolving ev cs = filter (\<lambda>k. ev (abs_path (take k cs)) \<noteq> None) [0..<length cs]"
    using assms(1) by (simp add: resolving_def)
  also have "\<dots> = filter (\<lambda>k. ev (abs_path (take k (butlast cs))) \<noteq> None) [0..<length cs]"
    by (rule filter_cong) (auto simp: tk)
  also have "\<dots> = resolving ev (butlast cs)" using assms(2) by (simp add: resolving_def)
  finally have r: "resolving ev cs = resolving ev (butlast cs)" .
  have "last (resolving ev (butlast cs)) < length cs" if "resolving ev (butlast cs) \<noteq> []"
    using last_in_set[OF that] assms(2) by (auto simp: resolving_def)
  then show ?thesis by (simp add: deepest_real_def r tk)
qed

text \<open>The climb ends within the fuel, and what it judges is that real path.\<close>

lemma probe_deepest:
  assumes "\<forall>c \<in> set cs. normal c" and "length cs < n"
  shows "probe n ev rr (abs_path cs) = Some (case deepest_real ev cs of None \<Rightarrow> True | Some real \<Rightarrow> under_root rr real)"
  using assms
proof (induction n arbitrary: cs)
  case (Suc n)
  show ?case
  proof (cases "ev (abs_path cs)")
    case (Some real)
    then show ?thesis by (simp add: deepest_real_full)
  next
    case None
    show ?thesis
    proof (cases "cs = []")
      case True
      with None show ?thesis by (simp add: Dir_abs_path deepest_real_def resolving_def)
    next
      case False
      let ?b = "butlast cs"
      have b: "\<forall>c \<in> set ?b. normal c" using Suc.prems(1) by (auto dest: in_set_butlastD)
      have "length ?b < n" using Suc.prems(2) False by (cases cs) auto
      moreover have "abs_path ?b \<noteq> abs_path cs"
        using abs_path_inject[OF b Suc.prems(1)] False by (metis append_butlast_last_id not_Cons_self2 self_append_conv)
      ultimately show ?thesis
        using Suc.IH[OF b] None Suc.prems(1) deepest_real_skip[of ev cs] False by (simp add: Dir_abs_path Let_def)
    qed
  qed
qed simp

text \<open>The real path of the deepest existing ancestor of a path, itself included: \<open>present\<close> says which paths
  exist, as entries of their directories.\<close>

definition deepest_existing :: "(string \<Rightarrow> bool) \<Rightarrow> (string \<Rightarrow> string option) \<Rightarrow> string list \<Rightarrow> string option" where
  "deepest_existing present ev cs =
     (case filter (\<lambda>k. present (abs_path (take k cs))) (rev [0..<Suc (length cs)]) of
        [] \<Rightarrow> None
      | k # _ \<Rightarrow> ev (abs_path (take k cs)))"

lemma deepest_existing_real:
  assumes "\<And>p. present p \<longleftrightarrow> ev p \<noteq> None"
  shows "deepest_existing present ev cs = deepest_real ev cs"
proof -
  have "filter (\<lambda>k. present (abs_path (take k cs))) (rev [0..<Suc (length cs)]) = rev (resolving ev cs)"
    by (simp only: resolving_def assms rev_filter)
  then show ?thesis
    by (cases "resolving ev cs" rule: rev_cases) (simp_all add: deepest_existing_def deepest_real_def)
qed

text \<open>
  C27. Provided that the links of the space resolve (a path resolves exactly when it exists, so no link points
  to a missing file), resolving any string under an absolute clean root always ends and judges exactly this:
  the string is cleaned to ordinary components (no \<^verbatim>\<open>..\<close>) and joined to the root, and the result is
  refused if and only if the real path of its deepest existing ancestor lies outside the real root; an existing
  path, which is every path that can be read, is accepted if and only if its own real path lies under the real
  root. \<^verbatim>\<open>Remove\<close> never targets the root itself. The proviso is needed: a link to a missing file counts
  as absent and passes on the strength of its directory (\<^verbatim>\<open>dangling_link_accepted\<close>).
\<close>

theorem localfs_resolve_confined:
  assumes "\<forall>c \<in> set rs. normal c" and "rs \<noteq> []" and "\<And>p. present p \<longleftrightarrow> ev p \<noteq> None"
  shows "\<exists>cs. abs_path cs = filepath_Clean (''/'' @ rel) \<and> (\<forall>c \<in> set cs. normal c)
    \<and> resolve ev (abs_path rs) rr rel = Some
        (case deepest_existing present ev (rs @ cs) of
           None \<Rightarrow> Inr (abs_path (rs @ cs))
         | Some real \<Rightarrow> if under_root rr real then Inr (abs_path (rs @ cs)) else Inl (EscapesBySymlink rel))
    \<and> (\<forall>real. present (abs_path (rs @ cs)) \<and> ev (abs_path (rs @ cs)) = Some real \<longrightarrow>
         (resolve ev (abs_path rs) rr rel = Some (Inr (abs_path (rs @ cs))) \<longleftrightarrow> under_root rr real))
    \<and> remove_target ev (abs_path rs) rr rel \<noteq> Some (Inr (abs_path rs))"
proof -
  obtain cs where cs: "filepath_Clean (CHR ''/'' # rel) = abs_path cs" "\<forall>c \<in> set cs. normal c"
    using Clean_rooted by blast
  have n: "\<forall>c \<in> set (rs @ cs). normal c" using assms(1) cs(2) by auto
  have j: "filepath_Join [abs_path rs, abs_path cs] = abs_path (rs @ cs)" by (rule Join_abs_path[OF assms(1) cs(2)])
  have len: "length (rs @ cs) < Suc (length (abs_path (rs @ cs)))"
    using length_abs_path[OF n] by (simp add: abs_path_def)
  have u: "under_root (abs_path rs) (abs_path (rs @ cs))"
    using assms(2) by (cases "cs = []") (auto simp: under_root_def has_prefix_iff abs_path_def join_append)
  have r: "resolve ev (abs_path rs) rr rel = Some
      (case deepest_real ev (rs @ cs) of None \<Rightarrow> Inr (abs_path (rs @ cs))
       | Some real \<Rightarrow> if under_root rr real then Inr (abs_path (rs @ cs)) else Inl (EscapesBySymlink rel))"
    using cs(1) j u probe_deepest[OF n len, of ev rr]
    by (simp add: resolve_def Let_def del: probe.simps split: bool.splits option.splits)
  moreover have "remove_target ev (abs_path rs) rr rel \<noteq> Some (Inr (abs_path rs))"
    by (auto simp: remove_target_def r split: option.splits)
  ultimately show ?thesis
    unfolding deepest_existing_real[of present ev, OF assms(3)]
    using cs by (intro exI[of _ cs]) (auto simp: deepest_real_full)
qed

text \<open>A space with a link into itself (\<^verbatim>\<open>in\<close>), a link out of itself (\<^verbatim>\<open>out\<close>), and a link
  (\<^verbatim>\<open>new\<close>) to a file outside that does not exist.\<close>

definition demo_links :: "string \<Rightarrow> string option" where
  "demo_links p =
     (if p \<in> {''/'', ''/srv'', ''/srv/a''} then Some p
      else if p = ''/srv/a/in'' then Some ''/srv/a/doc''
      else if p = ''/srv/a/out'' then Some ''/etc/passwd''
      else None)"

theorem localfs_resolve_confined_witness:
  "resolve demo_links ''/srv/a'' ''/srv/a'' ''../out'' = Some (Inl (EscapesBySymlink ''../out''))
   \<and> resolve demo_links ''/srv/a'' ''/srv/a'' ''../in'' = Some (Inr ''/srv/a/in'')"
proof -
  have n: "\<forall>c \<in> set [''srv'', ''a'']. normal c" by (simp add: normal_def)
  have r: "abs_path [''srv'', ''a''] = ''/srv/a''" "abs_path ([''srv'', ''a''] @ [''out'']) = ''/srv/a/out''"
    "abs_path ([''srv'', ''a''] @ [''in'']) = ''/srv/a/in''"
    by (simp_all add: abs_path_def)
  have u: "\<not> under_root ''/srv/a'' ''/etc/passwd''" "under_root ''/srv/a'' ''/srv/a/doc''" by code_simp+
  have c: "filepath_Clean (''/'' @ ''../out'') = abs_path [''out'']" "filepath_Clean (''/'' @ ''../in'') = abs_path [''in'']"
    by code_simp+
  have same: "cs = [c]" if "abs_path cs = abs_path [c]" "\<forall>c \<in> set cs. normal c" "normal c" for cs c
    using abs_path_inject[of cs "[c]"] that by auto
  have nc: "normal ''out''" "normal ''in''" by (simp_all add: normal_def)
  let ?here = "\<lambda>p. demo_links p \<noteq> None"
  have same_real: "deepest_existing ?here demo_links cs = deepest_real demo_links cs" for cs
    by (rule deepest_existing_real) simp
  have d: "deepest_real demo_links ([''srv'', ''a''] @ [''out'']) = Some ''/etc/passwd''"
    "deepest_real demo_links ([''srv'', ''a''] @ [''in'']) = Some ''/srv/a/doc''"
    by (rule deepest_real_full, unfold r, simp add: demo_links_def)+
  obtain cs where "cs = [''out'']" "resolve demo_links ''/srv/a'' ''/srv/a'' ''../out'' = Some
      (case deepest_real demo_links ([''srv'', ''a''] @ cs) of None \<Rightarrow> Inr (abs_path ([''srv'', ''a''] @ cs))
       | Some real \<Rightarrow> if under_root ''/srv/a'' real then Inr (abs_path ([''srv'', ''a''] @ cs)) else Inl (EscapesBySymlink ''../out''))"
    using localfs_resolve_confined[OF n, of ?here demo_links "''../out''" "''/srv/a''"] same nc(1) unfolding c r(1) same_real by blast
  moreover obtain ds where "ds = [''in'']" "resolve demo_links ''/srv/a'' ''/srv/a'' ''../in'' = Some
      (case deepest_real demo_links ([''srv'', ''a''] @ ds) of None \<Rightarrow> Inr (abs_path ([''srv'', ''a''] @ ds))
       | Some real \<Rightarrow> if under_root ''/srv/a'' real then Inr (abs_path ([''srv'', ''a''] @ ds)) else Inl (EscapesBySymlink ''../in''))"
    using localfs_resolve_confined[OF n, of ?here demo_links "''../in''" "''/srv/a''"] same nc(2) unfolding c r(1) same_real by blast
  ultimately show ?thesis using u by (simp only: d r option.case if_True if_False)
qed

text \<open>A link to a missing file outside passes the check: its resolution fails, so the directory it stands in is
  judged in its place, and the path of the link is handed to \<^verbatim>\<open>os.WriteFile\<close>, which follows it.\<close>

lemma dangling_link_accepted:
  "demo_links ''/srv/a/new'' = None \<and> resolve demo_links ''/srv/a'' ''/srv/a'' ''new'' = Some (Inr ''/srv/a/new'')"
  by code_simp

subsection \<open>Safe inbox names\<close>

lemma collapse_safe: "list_all inboxSafe (collapse_unsafe r s)"
  by (induction r s rule: collapse_unsafe.induct) (auto simp: inboxSafe_def)

lemma trim_set_sub: "set (trim_set P s) \<subseteq> set s"
  unfolding trim_set_def by (metis set_dropWhileD set_rev subsetI)

lemma trim_set_head: "trim_set P s = c # r \<Longrightarrow> \<not> P c"
proof -
  let ?d = "dropWhile P s"
  have "prefix (trim_set P s) ?d"
    unfolding trim_set_def by (metis suffix_dropWhile suffix_to_prefix rev_rev_ident)
  then show "trim_set P s = c # r \<Longrightarrow> \<not> P c"
    by (metis append_Cons hd_dropWhile list.distinct(1) list.sel(1) prefix_def)
qed

lemma inboxExt_safe: "inboxExt e \<Longrightarrow> list_all inboxSafe e \<and> length e \<le> 9"
  by (auto simp: inboxExt_def inboxSafe_def list_all_iff split: list.splits)

lemma safe_normal: "list_all inboxSafe b \<Longrightarrow> b \<noteq> [] \<Longrightarrow> hd b \<noteq> CHR ''.'' \<Longrightarrow> normal b"
proof -
  have "\<not> inboxSafe (CHR ''/'')" by (simp add: inboxSafe_def alnum_def between_def)
  then show "list_all inboxSafe b \<Longrightarrow> b \<noteq> [] \<Longrightarrow> hd b \<noteq> CHR ''.'' \<Longrightarrow> normal b"
    by (auto simp: normal_def list_all_iff)
qed

text \<open>
  Whatever display name a sender gives a file, the base name bob stores it under is empty (then
  the unique staged name is used) or a harmless file name: letters, digits, dots, dashes and
  underscores only, no leading dot, at most 80 bytes, hence one ordinary path component.
\<close>

theorem inbox_base_name_safe:
  "inboxBaseName f = [] \<or>
   (list_all inboxSafe (inboxBaseName f) \<and> hd (inboxBaseName f) \<noteq> CHR ''.''
    \<and> length (inboxBaseName f) \<le> 80 \<and> normal (inboxBaseName f))"
proof -
  let ?n = "filepath_Base (trim_space f)"
  let ?P = "\<lambda>c. c = CHR ''.'' \<or> c = CHR ''_'' \<or> c = CHR ''-''"
  define ext where "ext = (if inboxExt (filepath_Ext ?n) then filepath_Ext ?n else [])"
  define stem where "stem = trim_set ?P (collapse_unsafe False (trim_suffix ?n ext))"
  define st where "st = (if stem = [] then ''file'' else stem)"
  define cut where "cut = (if 80 - length ext < length st then take (80 - length ext) st else st)"
  have e: "list_all inboxSafe ext" "length ext \<le> 9" using inboxExt_safe by (auto simp: ext_def)
  have "list_all inboxSafe stem"
    using collapse_safe trim_set_sub unfolding stem_def list_all_iff by blast
  moreover have "list_all inboxSafe ''file''" by (simp add: inboxSafe_def alnum_def between_def)
  ultimately have st: "list_all inboxSafe st" by (simp add: st_def)
  then have c: "list_all inboxSafe cut" by (auto simp: cut_def list_all_iff dest: in_set_takeD)
  obtain d r where dr: "st = d # r" "d \<noteq> CHR ''.''"
  proof (cases stem)
    case Nil
    with that show ?thesis by (simp add: st_def)
  next
    case (Cons d r)
    have "trim_set ?P (collapse_unsafe False (trim_suffix ?n ext)) = d # r" using Cons by (simp add: stem_def)
    from trim_set_head[OF this] Cons that show ?thesis by (simp add: st_def)
  qed
  then have h: "cut \<noteq> []" "hd cut \<noteq> CHR ''.''" using e(2) by (auto simp: cut_def take_Cons' )
  have l: "length (cut @ ext) \<le> 80" using e(2) by (cases "80 - length ext < length st") (auto simp: cut_def)
  have b: "inboxBaseName f = (if stem = [] \<and> ext = [] then [] else cut @ ext)"
    unfolding inboxBaseName_def Let_def ext_def[symmetric] stem_def[symmetric] st_def[symmetric] cut_def[symmetric] by simp
  have "list_all inboxSafe (cut @ ext)" "cut @ ext \<noteq> []" "hd (cut @ ext) \<noteq> CHR ''.''" using c e(1) h by auto
  with b l safe_normal show ?thesis by (auto split: if_splits)
qed

lemma reserve_loop_spec:
  "reserve_loop create base i = (name, ph) \<Longrightarrow>
     (case ph of
        Some n \<Rightarrow> n = name \<and> create name = Created \<and> (\<exists>j. i \<le> j \<and> j < 1000 \<and> name = candidate base j)
      | None \<Rightarrow> name = base \<and> ((\<exists>j. i \<le> j \<and> j < 1000 \<and> create (candidate base j) = CreateFailed)
                   \<or> (\<forall>j. i \<le> j \<and> j < 1000 \<longrightarrow> create (candidate base j) = AlreadyExists)))"
proof (induction create base i rule: reserve_loop.induct)
  case (1 create base i)
  show ?case
  proof (cases "i < 1000 \<and> create (candidate base i) = AlreadyExists")
    case True
    with 1(2) have "reserve_loop create base (Suc i) = (name, ph)" by (simp add: reserve_loop.simps[of create base i])
    from 1(1)[OF conjunct1[OF True] conjunct2[OF True] this] True show ?thesis
      by (auto split: option.splits) (metis Suc_leD le_antisym not_less_eq_eq)+
  next
    case False
    with 1(2) show ?thesis
      by (cases "create (candidate base i)") (auto simp: reserve_loop.simps[of create base i] split: if_splits option.splits)
  qed
qed

text \<open>
  Claiming an inbox name never takes one that is in use: in a directory where creation fails
  exactly on existing names, the name returned was free and is now claimed, unless all 999
  candidates of that stem exist; so two placements of the same display name get different files.
\<close>

theorem reserve_inbox_name_fresh:
  assumes "\<And>n. create n = (if n \<in> set dir then AlreadyExists else Created)"
    and "reserveInboxName create base = (name, ph)"
    and "\<exists>j. 1 \<le> j \<and> j < 1000 \<and> candidate base j \<notin> set dir"
  shows "ph = Some name \<and> name \<notin> set dir
    \<and> (\<forall>name' ph'. reserveInboxName (\<lambda>n. if n \<in> set (name # dir) then AlreadyExists else Created) base = (name', ph')
         \<longrightarrow> ph' \<noteq> Some name)"
proof -
  from reserve_loop_spec[OF assms(2)[unfolded reserveInboxName_def]] assms(1,3)
  have "ph = Some name \<and> name \<notin> set dir" by (cases ph) (fastforce split: if_splits)+
  moreover have "ph' \<noteq> Some name"
    if "reserve_loop (\<lambda>n. if n \<in> set (name # dir) then AlreadyExists else Created) base 1 = (name', ph')" for name' ph'
    using reserve_loop_spec[OF that] by (cases ph') (auto split: if_splits)
  ultimately show ?thesis by (simp add: reserveInboxName_def)
qed

theorem reserve_inbox_name_fresh_witness:
  "\<exists>ph. reserveInboxName (\<lambda>n. if n \<in> set [''a.txt''] then AlreadyExists else Created) ''a.txt'' = (''a-2.txt'', ph)
     \<and> ph = Some ''a-2.txt''"
proof -
  let ?create = "\<lambda>n. if n \<in> set [''a.txt''] then AlreadyExists else Created"
  have c: "candidate ''a.txt'' 1 = ''a.txt''" "candidate ''a.txt'' (Suc 1) = ''a-2.txt''"
    by code_simp+
  have e: "reserveInboxName ?create ''a.txt'' = (''a-2.txt'', Some ''a-2.txt'')"
    unfolding reserveInboxName_def by (subst reserve_loop.simps, subst reserve_loop.simps) (simp add: c[simplified])
  have "candidate ''a.txt'' 2 = ''a-2.txt''" using c(2) by (simp add: numeral_2_eq_2)
  then have "\<exists>j. 1 \<le> j \<and> j < 1000 \<and> candidate ''a.txt'' j \<notin> set [''a.txt'']" by (intro exI[of _ 2]) simp
  from reserve_inbox_name_fresh[OF _ e this] e show ?thesis by auto
qed

subsection \<open>Placed attachments\<close>

definition placed_ok :: "attachment \<Rightarrow> bool" where
  "placed_ok a \<longleftrightarrow> at_Path a = [] \<or> (\<exists>b. at_Path a = ''inbox/'' @ b \<and> at_LocalPath a = [])"

lemma place_one_ok: "placed_ok (fst (place_one env inbox dir a))"
  by (auto simp: place_one_def placed_ok_def Let_def split: prod.splits)

lemma place_one_name: "at_FileName (fst (place_one env inbox dir a)) = at_FileName a"
  by (auto simp: place_one_def Let_def split: prod.splits)

lemma clearUnplaced_ok:
  "\<forall>a \<in> set atts. at_LocalPath a = [] \<longrightarrow> placed_ok a \<Longrightarrow> \<forall>a \<in> set (clearUnplaced atts). placed_ok a"
  by (auto simp: clearUnplaced_def placed_ok_def)

lemma place_loop_ok:
  "\<forall>a \<in> set atts. at_LocalPath a = [] \<longrightarrow> at_Path a = [] \<Longrightarrow> \<forall>a \<in> set placed. placed_ok a \<Longrightarrow>
     (\<forall>a \<in> set (fst (place_loop env inbox made placed atts dir)). placed_ok a)
     \<and> map at_FileName (fst (place_loop env inbox made placed atts dir)) = map at_FileName (placed @ atts)"
proof (induction env inbox made placed atts dir rule: place_loop.induct)
  case (2 env inbox made placed a atts dir)
  consider "at_LocalPath a = []" | "at_LocalPath a \<noteq> []" "\<not> made \<and> \<not> pe_mkdir env"
    | "at_LocalPath a \<noteq> []" "made \<or> pe_mkdir env" by blast
  then show ?case
  proof cases
    case 1
    with 2(1)[OF 1] 2(3,4) show ?thesis by (simp add: placed_ok_def)
  next
    case 2
    have "\<forall>x \<in> set (placed @ a # atts). at_LocalPath x = [] \<longrightarrow> placed_ok x"
      using "2.prems" by (auto simp: placed_ok_def)
    note c = clearUnplaced_ok[OF this]
    have "map at_FileName (clearUnplaced xs) = map at_FileName xs" for xs by (simp add: clearUnplaced_def)
    moreover have "fst (place_loop env inbox made placed (a # atts) dir) = clearUnplaced (placed @ a # atts)"
      using 2 by simp
    ultimately show ?thesis using c by metis
  next
    case 3
    obtain a' dir' where p: "place_one env inbox dir a = (a', dir')" by fastforce
    then have a': "placed_ok a'" "at_FileName a' = at_FileName a"
      using place_one_ok[of env inbox dir a] place_one_name[of env inbox dir a] by simp_all
    from 3 p have e: "place_loop env inbox made placed (a # atts) dir
        = place_loop env inbox True (placed @ [a']) atts dir'" by (auto simp: Let_def)
    have "\<not> (\<not> made \<and> \<not> pe_mkdir env)" using 3(2) by simp
    note IH = 2(2)[OF 3(1) this p[symmetric] refl]
    have "\<forall>x \<in> set atts. at_LocalPath x = [] \<longrightarrow> at_Path x = []" using 2(3) by simp
    moreover have "\<forall>x \<in> set (placed @ [a']). placed_ok x" using 2(4) a'(1) by simp
    ultimately show ?thesis unfolding e using IH a'(2) by fastforce
  qed
qed simp

text \<open>
  No dead handle survives placement: of an event's attachments, each comes out either placed
  (its path is in the inbox of the space and its staging path is cleared) or with an empty path,
  whatever fails on the way (a bad space, the directory, the move); none is lost or reordered.
\<close>

theorem place_attachments_no_dead_handle:
  assumes "\<forall>a \<in> set atts. at_LocalPath a = [] \<longrightarrow> at_Path a = []"
    and "PlaceAttachments env home scope atts dir = (atts', dir')"
  shows "list_all (\<lambda>a. at_Path a = [] \<or> (\<exists>b. at_Path a = ''inbox/'' @ b \<and> at_LocalPath a = [])) atts'
    \<and> map at_FileName atts' = map at_FileName atts"
proof -
  have c: "\<forall>a \<in> set (clearUnplaced atts). placed_ok a"
    by (rule clearUnplaced_ok) (use assms(1) in \<open>auto simp: placed_ok_def\<close>)
  have n: "map at_FileName (clearUnplaced atts) = map at_FileName atts" by (simp add: clearUnplaced_def)
  note l = place_loop_ok[OF assms(1), of "[]" env _ False dir]
  have "(\<forall>a \<in> set atts'. placed_ok a) \<and> map at_FileName atts' = map at_FileName atts"
  proof (cases "atts = []")
    case False
    show ?thesis
    proof (cases "SpaceLocalDir home scope")
      case (Inl e)
      with False assms(2) c n show ?thesis by (auto simp: PlaceAttachments_def)
    next
      case (Inr d)
      with False assms(2) have "atts' = fst (place_loop env (filepath_Join [d, ''inbox'']) False [] atts dir)"
        by (simp add: PlaceAttachments_def)
      with l show ?thesis by simp
    qed
  qed (use assms(2) in \<open>simp add: PlaceAttachments_def\<close>)
  then show ?thesis by (auto simp: list_all_iff placed_ok_def)
qed

theorem place_attachments_no_dead_handle_witness:
  "let env = \<lparr>pe_create = (\<lambda>d n. CreateFailed), pe_move = (\<lambda>s d. False), pe_mkdir = True\<rparr>;
       a = zero_attachment\<lparr>at_FileName := ''a.txt'', at_LocalPath := ''/tmp/1-ab-a.txt'', at_Path := ''stage/1-ab-a.txt''\<rparr>
   in map at_FileName (fst (PlaceAttachments env ''/srv'' ''tg:1'' [a] [])) = [''a.txt'']"
proof -
  let ?env = "\<lparr>pe_create = (\<lambda>d n. CreateFailed), pe_move = (\<lambda>s d. False), pe_mkdir = True\<rparr>"
  let ?a = "zero_attachment\<lparr>at_FileName := ''a.txt'', at_LocalPath := ''/tmp/1-ab-a.txt'', at_Path := ''stage/1-ab-a.txt''\<rparr>"
  have "\<forall>a \<in> set [?a]. at_LocalPath a = [] \<longrightarrow> at_Path a = []" by (simp add: zero_attachment_def)
  from place_attachments_no_dead_handle[OF this, of ?env "''/srv''" "''tg:1''" "[]"
      "fst (PlaceAttachments ?env ''/srv'' ''tg:1'' [?a] [])" "snd (PlaceAttachments ?env ''/srv'' ''tg:1'' [?a] [])"]
  show ?thesis by (simp add: Let_def zero_attachment_def)
qed

end
