(* ===== verification/Spec2Isabelle.thy ===== *)
theory Spec2Isabelle
  imports
    Alert_Latch Arrangement Arrangement_Store Channel_Pool Claim_Token Contract_Message
    Flow_Inbound Flow_Intro Flow_Router Gate_Policy Gate_Rejected Gate_Screen Gate_Write Go_Path
    Go_Runes Housekeeper I18n Model_Breaker Model_Errors Model_Failover Model_Heartbeat
    Model_Pick Model_Pool Model_Reload Model_Usage Prelude Prompt_Sanitize Session_Arbiter
    Session_Guarantees Session_Protocol Session_Queue Session_Routing Slash_Registry
    Trunk_Lifecycle Trunk_Registry Trunk_Topo Turn_Compact Turn_Driver Turn_Round Turn_State
    Turn_Stream Turn_Text Turn_Transcript Warrant Warrant_Files Warrant_Policy
begin

text \<open>
  \<^bold>\<open>Verification of agentBob.\<close> The program is a Go process that answers chat messages with a
  language model: sources bring messages in, a gate screens the sender, the session core decides
  which conversation the message belongs to and when its turn runs, the turn calls the model pool
  and the tools, and a permission authority (the warrant) hands the tools their channels. A trunk
  starts and stops the modules and runs their housekeeping. This development models the parts that
  hold the program's own logic as executable definitions and proves what makes them correct.

  \<^bold>\<open>How the code is modelled.\<close> A Go struct is a record, a set of named outcomes a datatype, a
  function one definition with every early return, a method a function from the old state to the
  result and the new state. What a function reads from outside (clock, file system, database answer,
  network, random bytes) is an argument, so each theorem holds for every answer. A critical section
  is one atomic operation; protocols of several goroutines are inductive step relations over these
  operations. A Go map is an association list with distinct keys whose order stands for one
  iteration order; 64-bit arithmetic is a word where it can wrap. \<^verbatim>\<open>Prelude\<close> has this vocabulary
  and the facts on it, \<^verbatim>\<open>Go_Path\<close> models \<^verbatim>\<open>path/filepath\<close> and \<^verbatim>\<open>Go_Runes\<close> the reading of byte
  strings as code points.

  \<^bold>\<open>Trunk\<close> (\<^verbatim>\<open>src/trunk\<close>).
  \<^item> \<^verbatim>\<open>Trunk_Registry\<close> (\<^verbatim>\<open>10-registry.go\<close>): capability registration; a capability is assigned
    once and every refusal leaves the registry as it was. The contract is the locale
    \<^verbatim>\<open>capability_store\<close>, interpreted on the registry.
  \<^item> \<^verbatim>\<open>Trunk_Topo\<close> and \<^verbatim>\<open>Trunk_Lifecycle\<close> (\<^verbatim>\<open>20-lifecycle.go\<close>): the start order puts every
    provider before its consumers, and an error is reported exactly for duplicate providers and
    cycles; a failed start stops what was started in reverse order, a completed one started
    everything.
  \<^item> \<^verbatim>\<open>Housekeeper\<close> (\<^verbatim>\<open>30-housekeeping.go\<close>): the priority queue of periodic tasks; no task is
    starved and a panic does not end the worker.

  \<^bold>\<open>Permissions\<close> (\<^verbatim>\<open>src/leaf/warrant\<close>, \<^verbatim>\<open>src/leaf/tools/40-pool.go\<close>).
  \<^item> \<^verbatim>\<open>Warrant_Policy\<close> (\<^verbatim>\<open>10-policy.go\<close>, \<^verbatim>\<open>12-store-file.go\<close>, \<^verbatim>\<open>20-reconcile.go\<close>): the matrix of
    grants, its file form and its reconciliation with the registered tools.
  \<^item> \<^verbatim>\<open>Warrant\<close> (\<^verbatim>\<open>30-authorize.go\<close>, \<^verbatim>\<open>40-channel.go\<close>, \<^verbatim>\<open>70-spaces.go\<close>): a turn sees exactly the
    granted tools, a reload revokes what is no longer granted, a space stays in its directory.
  \<^item> \<^verbatim>\<open>Warrant_Files\<close> (\<^verbatim>\<open>50-localfs.go\<close>, \<^verbatim>\<open>45-placement.go\<close>): path resolution leaves no space
    lexically, and through symbolic links judges exactly the longest prefix that resolves, which lets a
    link to a missing file pass; the climb to that prefix has fuel, one more than the length of the
    path, which always suffices for an absolute clean path.
  \<^item> \<^verbatim>\<open>Channel_Pool\<close>: no channel is lost or kept twice (locale \<^verbatim>\<open>channel_keeper\<close>).

  \<^bold>\<open>Admission\<close> (\<^verbatim>\<open>src/leaf/gate\<close>, \<^verbatim>\<open>claimtoken\<close>, \<^verbatim>\<open>slash\<close>).
  \<^item> \<^verbatim>\<open>Claim_Token\<close>: bearer tokens are worth their payload once and until they expire (locale
    \<^verbatim>\<open>claim_tokens\<close>). \<^verbatim>\<open>Slash_Registry\<close>: command table and dispatch.
  \<^item> \<^verbatim>\<open>Gate_Policy\<close>, \<^verbatim>\<open>Gate_Rejected\<close>, \<^verbatim>\<open>Gate_Screen\<close>, \<^verbatim>\<open>Gate_Write\<close>: only an authorised sender
    passes, a leaked admission code does nothing for anyone else (with the registry of
    \<^verbatim>\<open>Slash_Registry\<close> as the dispatcher), a turned-away sender is answered at
    a bounded rate, an approval edits only its own list in the policy document.

  \<^bold>\<open>Model pool\<close> (\<^verbatim>\<open>src/leaf/model\<close>).
  \<^item> \<^verbatim>\<open>Model_Errors\<close> (\<^verbatim>\<open>15-errors.go\<close>): classification of backend errors.
  \<^item> \<^verbatim>\<open>Model_Breaker\<close> (\<^verbatim>\<open>10-multipool.go\<close>): the circuit breaker of an entry over its histories, the
    64-bit backoff, the usage buckets.
  \<^item> \<^verbatim>\<open>Model_Pick\<close> (\<^verbatim>\<open>30-pick.go\<close>, \<^verbatim>\<open>31-affinity.go\<close>): the picker returns the best usable entry and
    fails only when there is none; the tag fallback follows at most eight hops, the constant of the
    code.
  \<^item> \<^verbatim>\<open>Model_Pool\<close>, \<^verbatim>\<open>Alert_Latch\<close>: wait queues as counters, alerts that page once per outage (locale
    \<^verbatim>\<open>alert_latch\<close>, two interpretations).
  \<^item> \<^verbatim>\<open>Model_Heartbeat\<close> (\<^verbatim>\<open>50-heartbeat.go\<close>): the start/stop protocol of the prober, with
    the exit by a panic; but for such an exit no dead entry is left without a prober.
  \<^item> \<^verbatim>\<open>Model_Failover\<close> (\<^verbatim>\<open>40-chat.go\<close>): the driver tries each entry at most once, so its fuel, one
    more than the number of entries, is enough; each attempt books one outcome.
  \<^item> \<^verbatim>\<open>Model_Usage\<close> (\<^verbatim>\<open>70-usage.go\<close>, \<^verbatim>\<open>85-usagestore.go\<close>): a flush loses and doubles no usage.
    \<^verbatim>\<open>Model_Reload\<close> (\<^verbatim>\<open>60-reload.go\<close>): a reload keeps the liveness of the entries that stay.

  \<^bold>\<open>Messages\<close> (\<^verbatim>\<open>src/contract\<close>, \<^verbatim>\<open>src/heartwood/prompt\<close>).
  \<^item> \<^verbatim>\<open>Contract_Message\<close> (\<^verbatim>\<open>20-message.go\<close>, \<^verbatim>\<open>40-source.go\<close>): the event, the content predicates
    of an attachment and the scope grammar; different chats have different scopes and both parsers
    recover the chat.
  \<^item> \<^verbatim>\<open>Prompt_Sanitize\<close> (\<^verbatim>\<open>20-sanitize.go\<close>): no name and no quotation can forge prompt structure.

  \<^bold>\<open>Flows and texts\<close> (\<^verbatim>\<open>src/flow/router\<close>, \<^verbatim>\<open>src/flow/intro\<close>, \<^verbatim>\<open>src/flow/inbound\<close>, \<^verbatim>\<open>src/i18n\<close>).
  \<^item> \<^verbatim>\<open>I18n\<close>: the message catalogue with its fallback to the base language.
  \<^item> \<^verbatim>\<open>Flow_Router\<close>: which flow serves a turn and the entitlement check before it; with the
    accounts module wired, the turn of somebody who is no operator needs an account in good standing
    for every flow but the onboarding one. \<^verbatim>\<open>Flow_Intro\<close>: that onboarding flow and its one greeting.
  \<^item> \<^verbatim>\<open>Flow_Inbound\<close>: the fate of one event, from the gate over the slash commands to the session
    core; an event the gate turned away reaches neither.

  \<^bold>\<open>Session core\<close> (\<^verbatim>\<open>src/leaf/session\<close>).
  \<^item> \<^verbatim>\<open>Session_Routing\<close> (\<^verbatim>\<open>20-resolver.go\<close>, \<^verbatim>\<open>50-sid.go\<close>, the targets of \<^verbatim>\<open>30-arbiter.go\<close>): the
    session an event joins. A fresh one is opened exactly when no answered message is the program's
    own or its session is known to be gone, a failed read never forks a conversation, the events of an album share
    one session, and a session woken from inside never answers itself.
  \<^item> \<^verbatim>\<open>Session_Queue\<close> (\<^verbatim>\<open>55-queue.go\<close> and the batching of \<^verbatim>\<open>30-arbiter.go\<close>): deduplication, the nudge
    lane and the drain. Each queued message is served once and in the order of its sender. The drain
    and the nudge are the two interpretations of the locale \<^verbatim>\<open>queue_taker\<close>.
  \<^item> \<^verbatim>\<open>Session_Arbiter\<close> (\<^verbatim>\<open>10-manager.go\<close>, \<^verbatim>\<open>40-submit.go\<close>, \<^verbatim>\<open>30-arbiter.go\<close>): the state of the manager
    as the record \<^verbatim>\<open>session_manager\<close>, one definition per critical section. A submission retries a
    closing session at most four times.
  \<^item> \<^verbatim>\<open>Session_Protocol\<close>, \<^verbatim>\<open>Session_Guarantees\<close>: the goroutines as a step relation over these
    operations, with panics, closes and shutdown at any point. A session runs one turn at a time, no
    message is lost or doubled, the queue is bounded, a close is never missed, nothing is stranded and
    every chain of follow-up turns ends.

  \<^bold>\<open>The turn\<close> (\<^verbatim>\<open>src/leaf/turn\<close>). One theory imports the next.
  \<^item> \<^verbatim>\<open>Turn_Transcript\<close> (\<^verbatim>\<open>10-core.go\<close>, \<^verbatim>\<open>60-degenerate.go\<close>, \<^verbatim>\<open>96-substore.go\<close>): what the stored rows
    become before the model sees them. Calls and answers are paired whatever was stored, a
    compaction split tears no pair. Of the two stores of rows only the in-memory one of a sub-turn is
    modelled.
  \<^item> \<^verbatim>\<open>Turn_Text\<close> (\<^verbatim>\<open>40-pipeline.go\<close>, \<^verbatim>\<open>85-rubric.go\<close>, \<^verbatim>\<open>16-looping-tools.go\<close>,
    \<^verbatim>\<open>src/heartwood/prompt/30-tokens.go\<close>): clipping of byte strings at code points (locale
    \<^verbatim>\<open>rune_clip\<close>) and the token estimate.
  \<^item> \<^verbatim>\<open>Turn_Compact\<close> (\<^verbatim>\<open>90-compact.go\<close>, \<^verbatim>\<open>88-weigh.go\<close>): the compressor. Its windows partition the
    text, each piece of a segment is told by one answer, and the halving of refused windows ends.
  \<^item> \<^verbatim>\<open>Turn_State\<close> (\<^verbatim>\<open>30-state.go\<close>, \<^verbatim>\<open>70-guards.go\<close>, \<^verbatim>\<open>80-nudge.go\<close>): the state of a turn as a record,
    the guards against loops, the footer that names the actions that failed.
  \<^item> \<^verbatim>\<open>Turn_Stream\<close> and \<^verbatim>\<open>Turn_Round\<close> (\<^verbatim>\<open>20-round.go\<close>, \<^verbatim>\<open>40-pipeline.go\<close>, \<^verbatim>\<open>85-rubric.go\<close>): one round.
    Tool markup is held back from the user however the stream is cut; every call of a tool round has
    one recorded result.
  \<^item> \<^verbatim>\<open>Turn_Driver\<close> (\<^verbatim>\<open>12-driver-regular.go\<close>, \<^verbatim>\<open>14-driver-looping.go\<close>, \<^verbatim>\<open>50-salvage.go\<close>,
    \<^verbatim>\<open>95-subloop.go\<close>): the loop of rounds. \<^verbatim>\<open>drive\<close> is a total function: only a gate gives the loop a
    fresh budget and each gate does so a fixed number of times, which bounds a turn by six times its
    limit. A turn finishes its sink exactly once, and a sub-turn has no tool its parent lacks.

  \<^bold>\<open>Work items\<close> (\<^verbatim>\<open>src/leaf/arrangement\<close>).
  \<^item> \<^verbatim>\<open>Arrangement_Store\<close> (\<^verbatim>\<open>store/20-defs.go\<close>, \<^verbatim>\<open>store/30-items.go\<close>): the two tables as lists of rows and
    every statement on them; the statements of all processes in any order are the runs of a machine in
    which an accepted submission has a claim of its author before it with nothing in between, and an item
    that is done, cancelled or parked rests. The claim retries at most eight times, as the code does.
  \<^item> \<^verbatim>\<open>Arrangement\<close> (\<^verbatim>\<open>10-spec.go\<close>, \<^verbatim>\<open>40-impl.go\<close>, \<^verbatim>\<open>30-dispatch.go\<close>): the handlers, a round of the selector
    and an emission of the drainer, with arbitrary changes by other processes between two statements. Every
    handler is a legal run of the machine; an item that is passed on visits every stage once and in order;
    a worker that still runs keeps its item; the wakes of a member are thirty seconds apart.
  \<^bold>\<open>Not modelled.\<close> The chat platform adapters, provider clients, the web console and the HTTP front
  of the pool are wire formats of outside services; the stores of accounts, agora, sessions and
  the URL book are SQL statements; the browser sidecar is a separate process. The bodies of most
  tools wrap one call of an outside service. Logging, panels and message tables carry no state the
  modelled code reads back. Of the turn, the answer to an escaping panic, the
  search of the conversation log and the wording of the judges' prompts are left out; of arrangements,
  the panel. The routing of the organisation (\<^verbatim>\<open>agora\<close>) and the message table of the sessions are the
  parts that would come next.
\<close>

end
